(* ===== verification/Prelude.thy ===== *)
theory Prelude
  imports Main "HOL-Library.Word" "HOL-Library.Signed_Division"
begin

text \<open>
  Shared vocabulary of the development: the exceptions of the engine as values, the names of the
  engine's integer types, C's truncating integer division, the counting loops that several
  components share, and the theorem collections the component proofs draw on.
\<close>

section \<open>Exceptions as values\<close>

text \<open>
  One constructor per C++ exception class that the modelled code throws; the argument is the format
  string of the message (the values that are formatted into it are not modelled).
\<close>

datatype exn =
    InternalException string
  | TransactionException string
  | ConversionException string
  | OutOfRangeException string
  | InvalidInputException string
  | CatalogException string
  | SerializationException string
  | IOException string
  | InterruptException
  | FatalException string
  | SyntaxException string
  | BinderException string

type_synonym 'a result = "exn + 'a"

section \<open>Integer types of the engine\<close>

text \<open>
  \<open>idx_t\<close> is \<open>uint64_t\<close> in the code; where it is an index or a count that the code keeps far
  below \<open>2 ^ 64\<close> it is a \<open>nat\<close> here, elsewhere a \<open>64 word\<close>.
\<close>

type_synonym uint8_t = "8 word"
type_synonym uint16_t = "16 word"
type_synonym uint32_t = "32 word"
type_synonym uint64_t = "64 word"
type_synonym idx_t = nat

text \<open>
  The checked operators on \<open>int64_t\<close>: the exact result where it fits, nothing otherwise.
\<close>

definition fits_int64 :: "int \<Rightarrow> bool" where
  "fits_int64 x \<longleftrightarrow> - (2 ^ 63) \<le> x \<and> x < 2 ^ 63"

definition TryMultiply_int64 :: "int \<Rightarrow> int \<Rightarrow> int option" where
  "TryMultiply_int64 a b = (if fits_int64 (a * b) then Some (a * b) else None)"

definition TryAdd_int64 :: "int \<Rightarrow> int \<Rightarrow> int option" where
  "TryAdd_int64 a b = (if fits_int64 (a + b) then Some (a + b) else None)"

definition TrySubtract_int64 :: "int \<Rightarrow> int \<Rightarrow> int option" where
  "TrySubtract_int64 a b = (if fits_int64 (a - b) then Some (a - b) else None)"

section \<open>Theorem collections\<close>

named_theorems chunk_defs "definitions of the row version operations"
named_theorems chunk_abs "effect of the row version operations on the abstract row versions"

section \<open>Selecting indices with a counting loop\<close>

text \<open>
  The shape of the engine's scan loops: \<open>for (i = from; i < to; i++) { if (skip(i)) continue;
  sel[count++] = i; }\<close>. The selection vector is represented by the entries written so far.
\<close>

function sel_loop :: "(nat \<Rightarrow> bool) \<Rightarrow> nat \<Rightarrow> nat \<Rightarrow> nat \<Rightarrow> nat list \<Rightarrow> nat \<times> nat list" where
  "sel_loop skip i max_count count sel =
     (if i < max_count
      then if skip i then sel_loop skip (Suc i) max_count count sel
           else sel_loop skip (Suc i) max_count (Suc count) (sel @ [i])
      else (count, sel))"
  by pat_completeness auto
termination
  by (relation "measure (\<lambda>(_, i, n, _, _). n - i)") auto

declare sel_loop.simps [simp del]

lemma sel_loop_filter:
  "sel_loop skip i n c s =
     (c + length (filter (\<lambda>k. \<not> skip k) [i..<n]), s @ filter (\<lambda>k. \<not> skip k) [i..<n])"
proof (induction skip i n c s rule: sel_loop.induct)
  case (1 skip i n c s)
  show ?case
  proof (cases "i < n")
    case True
    with 1 show ?thesis
      by (subst sel_loop.simps) (simp add: upt_rec [of i n])
  next
    case False
    then show ?thesis by (subst sel_loop.simps) simp
  qed
qed

lemma filter_upt_eq_length_iff:
  "length (filter P [0..<n]) = n \<longleftrightarrow> (\<forall>i < n. P i)"
  by (metis atLeast_upt length_filter_less length_upt diff_zero lessThan_iff filter_True less_irrefl)

lemma filter_upt_length_le: "length (filter P [0..<n]) \<le> n"
  using length_filter_le [of P "[0..<n]"] by simp

section \<open>Writing a range of an array\<close>

text \<open>The loop \<open>for (i = from; i < to; i++) a[i] = v;\<close>.\<close>

definition fill_range :: "nat \<Rightarrow> nat \<Rightarrow> 'a \<Rightarrow> 'a list \<Rightarrow> 'a list" where
  "fill_range i j v xs = fold (\<lambda>k a. a[k := v]) [i..<j] xs"

lemma length_fold_update [simp]: "length (fold (\<lambda>k a. a[k := v]) ks xs) = length xs"
  by (induction ks arbitrary: xs) auto

lemma nth_fold_update:
  "n < length xs \<Longrightarrow> fold (\<lambda>k a. a[k := v]) ks xs ! n = (if n \<in> set ks then v else xs ! n)"
  by (induction ks arbitrary: xs) (auto simp: nth_list_update)

lemma length_fill_range [simp]: "length (fill_range i j v xs) = length xs"
  by (simp add: fill_range_def)

lemma nth_fill_range:
  "n < length xs \<Longrightarrow> fill_range i j v xs ! n = (if i \<le> n \<and> n < j then v else xs ! n)"
  by (simp add: fill_range_def nth_fold_update)

section \<open>Byte streams\<close>

text \<open>
  \<open>WriteStream::Write<T>\<close> and \<open>ReadStream::Read<T>\<close> move the bytes of an integer of \<open>sizeof(T)\<close>
  bytes in host order (little endian). Reading past the end raises a \<open>SerializationException\<close>.
\<close>

fun write_le :: "nat \<Rightarrow> nat \<Rightarrow> uint8_t list" where
  "write_le 0 v = []"
| "write_le (Suc n) v = word_of_nat (v mod 256) # write_le n (v div 256)"

fun le_value :: "uint8_t list \<Rightarrow> nat" where
  "le_value [] = 0"
| "le_value (b # bs) = unat b + 256 * le_value bs"

definition read_le :: "nat \<Rightarrow> uint8_t list \<Rightarrow> (nat \<times> uint8_t list) result" where
  "read_le n s =
     (if length s < n then Inl (SerializationException ''not enough data'')
      else Inr (le_value (take n s), drop n s))"

lemma length_write_le [simp]: "length (write_le n v) = n"
  by (induction n arbitrary: v) auto

lemma le_value_write_le: "v < 256 ^ n \<Longrightarrow> le_value (write_le n v) = v"
  by (induction n arbitrary: v) (auto simp: less_mult_imp_div_less mult.commute unat_of_nat)

lemma read_write_le: "v < 256 ^ n \<Longrightarrow> read_le n (write_le n v @ s) = Inr (v, s)"
  by (simp add: read_le_def le_value_write_le)

text \<open>A run of integers of one width.\<close>

fun read_les :: "nat \<Rightarrow> nat \<Rightarrow> uint8_t list \<Rightarrow> (nat list \<times> uint8_t list) result" where
  "read_les w 0 s = Inr ([], s)"
| "read_les w (Suc n) s =
     (case read_le w s of Inl e \<Rightarrow> Inl e
      | Inr (v, s') \<Rightarrow>
          (case read_les w n s' of Inl e \<Rightarrow> Inl e | Inr (vs, s'') \<Rightarrow> Inr (v # vs, s'')))"

lemma read_les_write:
  "\<forall>v \<in> set vs. v < 256 ^ w \<Longrightarrow>
   read_les w (length vs) (concat (map (write_le w) vs) @ s) = Inr (vs, s)"
  by (induction vs) (auto simp: read_write_le)

end
