(* ===== verification/Validity_Mask.thy ===== *)
theory Validity_Mask
  imports Prelude
begin

unbundle bit_operations_syntax

text \<open>
  \<open>common/types/validity_mask.hpp\<close> and \<open>validity_mask.cpp\<close>: the NULL bitmap of a vector, an array
  of 64-bit entries that is absent while every row is valid. The operations below are the code's
  word-level routines; the abstraction \<open>row_valid\<close> reads one row, and the lemmas state every
  routine as its effect on the rows: Kernighan's counting loop, the masked boundary entries of the
  range operations, the shifting slice, and the three-way serialisation. A mask is a value here:
  two masks that share one buffer (\<open>Initialize(other)\<close>) are not modelled as sharing it.
\<close>

section \<open>State and single-row operations\<close>

definition BITS_PER_VALUE :: nat where
  "BITS_PER_VALUE = 64"

definition MAX_ENTRY :: uint64_t where
  "MAX_ENTRY = NOT 0"

record ValidityMask =
  vm_data :: "uint64_t list option"
  vm_capacity :: idx_t

definition EntryCount :: "idx_t \<Rightarrow> idx_t" where
  "EntryCount count = (count + (BITS_PER_VALUE - 1)) div BITS_PER_VALUE"

definition ValidityMaskSize :: "idx_t \<Rightarrow> idx_t" where
  "ValidityMaskSize count = EntryCount count * 8"

definition AllValid :: "ValidityMask \<Rightarrow> bool" where
  "AllValid m \<longleftrightarrow> vm_data m = None"

definition GetValidityEntry :: "ValidityMask \<Rightarrow> idx_t \<Rightarrow> uint64_t" where
  "GetValidityEntry m entry_idx =
     (case vm_data m of None \<Rightarrow> MAX_ENTRY | Some d \<Rightarrow> d ! entry_idx)"

definition EntryRowIsValid :: "uint64_t \<Rightarrow> idx_t \<Rightarrow> bool" where
  "EntryRowIsValid entry idx_in_entry \<longleftrightarrow> entry AND push_bit idx_in_entry 1 \<noteq> 0"

definition RowIsValid :: "ValidityMask \<Rightarrow> idx_t \<Rightarrow> bool" where
  "RowIsValid m row_idx =
     (case vm_data m of
        None \<Rightarrow> True
      | Some d \<Rightarrow> EntryRowIsValid (d ! (row_idx div BITS_PER_VALUE)) (row_idx mod BITS_PER_VALUE))"

definition InitializeCount :: "idx_t \<Rightarrow> ValidityMask \<Rightarrow> ValidityMask" where
  "InitializeCount count m =
     m\<lparr>vm_capacity := count, vm_data := Some (replicate (EntryCount count) MAX_ENTRY)\<rparr>"

definition EnsureWritable :: "ValidityMask \<Rightarrow> ValidityMask" where
  "EnsureWritable m = (if AllValid m then InitializeCount (vm_capacity m) m else m)"

definition SetValid :: "idx_t \<Rightarrow> ValidityMask \<Rightarrow> ValidityMask" where
  "SetValid row_idx m =
     (case vm_data m of
        None \<Rightarrow> m
      | Some d \<Rightarrow>
          let entry_idx = row_idx div BITS_PER_VALUE; idx_in_entry = row_idx mod BITS_PER_VALUE
          in m\<lparr>vm_data := Some (d[entry_idx := d ! entry_idx OR push_bit idx_in_entry 1])\<rparr>)"

definition SetInvalidUnsafe :: "idx_t \<Rightarrow> uint64_t list \<Rightarrow> uint64_t list" where
  "SetInvalidUnsafe row_idx d =
     (let entry_idx = row_idx div BITS_PER_VALUE; idx_in_entry = row_idx mod BITS_PER_VALUE
      in d[entry_idx := d ! entry_idx AND NOT (push_bit idx_in_entry 1)])"

definition SetInvalid :: "idx_t \<Rightarrow> ValidityMask \<Rightarrow> ValidityMask" where
  "SetInvalid row_idx m =
     (let m' = (if vm_data m = None then InitializeCount (vm_capacity m) m else m)
      in m'\<lparr>vm_data := map_option (SetInvalidUnsafe row_idx) (vm_data m')\<rparr>)"

definition SetRow :: "idx_t \<Rightarrow> bool \<Rightarrow> ValidityMask \<Rightarrow> ValidityMask" where
  "SetRow row_idx valid m = (if valid then SetValid row_idx m else SetInvalid row_idx m)"

section \<open>Counting\<close>

lemma and_pred_less: "(w :: uint64_t) \<noteq> 0 \<Longrightarrow> unat (w AND (w - 1)) < unat w"
proof -
  assume w: "w \<noteq> 0"
  have "unat (w AND (w - 1)) \<le> unat (w - 1)"
    by (rule word_and_le1 [THEN word_le_nat_alt [THEN iffD1]])
  also have "\<dots> < unat w"
    using w by (simp add: unat_minus_one unat_gt_0)
  finally show ?thesis .
qed

text \<open>Kernighan's loop: \<open>while (entry) { entry &= (entry - 1); ++valid; }\<close>.\<close>

function kernighan :: "uint64_t \<Rightarrow> nat \<Rightarrow> nat" where
  "kernighan entry valid =
     (if entry = 0 then valid else kernighan (entry AND (entry - 1)) (Suc valid))"
  by pat_completeness auto

termination
  by (relation "measure (\<lambda>(e, _). unat e)") (auto simp: and_pred_less)

declare kernighan.simps [simp del]

function count_valid_loop :: "ValidityMask \<Rightarrow> idx_t \<Rightarrow> idx_t \<Rightarrow> idx_t \<Rightarrow> nat \<Rightarrow> nat" where
  "count_valid_loop m count entry_count entry_idx valid =
     (if entry_idx < entry_count then
        let entry = GetValidityEntry m entry_idx; entry_idx' = entry_idx + 1
        in if entry_idx' = entry_count \<and> count mod BITS_PER_VALUE \<noteq> 0 then
             let shift = BITS_PER_VALUE - count mod BITS_PER_VALUE;
                 mask = drop_bit shift MAX_ENTRY
             in count_valid_loop m count entry_count entry_idx' (kernighan (entry AND mask) valid)
           else if entry = MAX_ENTRY then
             count_valid_loop m count entry_count entry_idx' (valid + BITS_PER_VALUE)
           else count_valid_loop m count entry_count entry_idx' (kernighan entry valid)
      else valid)"
  by pat_completeness auto
termination
  by (relation "measure (\<lambda>(_, _, n, i, _). n - i)") (auto simp: Let_def)

declare count_valid_loop.simps [simp del]

definition CountValid :: "ValidityMask \<Rightarrow> idx_t \<Rightarrow> nat" where
  "CountValid m count =
     (if AllValid m \<or> count = 0 then count
      else count_valid_loop m count (EntryCount count) 0 0)"

definition CheckAllValid :: "ValidityMask \<Rightarrow> idx_t \<Rightarrow> bool" where
  "CheckAllValid m count \<longleftrightarrow> CountValid m count = count"

definition CheckAllInvalid :: "ValidityMask \<Rightarrow> idx_t \<Rightarrow> bool" where
  "CheckAllInvalid m count \<longleftrightarrow> CountValid m count = 0"

definition CheckAllValidRange :: "ValidityMask \<Rightarrow> idx_t \<Rightarrow> idx_t \<Rightarrow> bool" where
  "CheckAllValidRange m to from \<longleftrightarrow> AllValid m \<or> (\<forall>i \<in> set [from..<to]. RowIsValid m i)"

section \<open>Range operations\<close>

definition SetRangeInvalid :: "idx_t \<Rightarrow> idx_t \<Rightarrow> idx_t \<Rightarrow> ValidityMask \<Rightarrow> ValidityMask" where
  "SetRangeInvalid count begin_entry end_entry m0 =
     (let m = EnsureWritable m0 in
      if count = 0 then m
      else
        let last_entry_index = EntryCount count - 1;
            d1 = map_option (fill_range begin_entry (min last_entry_index end_entry) 0) (vm_data m)
        in if end_entry \<le> last_entry_index then m\<lparr>vm_data := d1\<rparr>
           else
             let last_entry_bits = count mod BITS_PER_VALUE;
                 v = (if last_entry_bits = 0 then 0 else push_bit last_entry_bits MAX_ENTRY)
             in m\<lparr>vm_data := map_option (\<lambda>d. d[last_entry_index := v]) d1\<rparr>)"

definition SetAllInvalid :: "idx_t \<Rightarrow> ValidityMask \<Rightarrow> ValidityMask" where
  "SetAllInvalid count m = SetRangeInvalid count 0 (EntryCount count) m"

definition SetAllValid :: "idx_t \<Rightarrow> ValidityMask \<Rightarrow> ValidityMask" where
  "SetAllValid count m0 =
     (let m = EnsureWritable m0 in
      if count = 0 then m
      else
        let last_entry_index = EntryCount count - 1;
            last_entry_bits = count mod BITS_PER_VALUE;
            v = (if last_entry_bits = 0 then MAX_ENTRY
                 else NOT (push_bit last_entry_bits MAX_ENTRY))
        in m\<lparr>vm_data := map_option (\<lambda>d0.
              let d = fill_range 0 last_entry_index MAX_ENTRY d0
              in d[last_entry_index := d ! last_entry_index OR v]) (vm_data m)\<rparr>)"

section \<open>Combining, resizing, slicing\<close>

text \<open>
  \<open>same_buffer\<close> is the outcome of the pointer comparison \<open>validity_mask == other.validity_mask\<close>.
\<close>

definition Combine :: "bool \<Rightarrow> ValidityMask \<Rightarrow> idx_t \<Rightarrow> ValidityMask \<Rightarrow> ValidityMask" where
  "Combine same_buffer other count m =
     (case vm_data other of
        None \<Rightarrow> m
      | Some other_data \<Rightarrow>
         (case vm_data m of
            None \<Rightarrow> other
          | Some d \<Rightarrow>
              if same_buffer then m
              else \<lparr>vm_data = Some (map (\<lambda>entry_idx. d ! entry_idx AND other_data ! entry_idx)
                                        [0..<EntryCount count]),
                    vm_capacity = count\<rparr>))"

definition ResizeMask :: "idx_t \<Rightarrow> ValidityMask \<Rightarrow> ValidityMask" where
  "ResizeMask new_size m =
     (let old_size = vm_capacity m in
      if new_size \<le> old_size then m
      else
        \<lparr>vm_data = map_option (\<lambda>d.
            map (\<lambda>entry_idx. d ! entry_idx) [0..<EntryCount old_size] @
            replicate (EntryCount new_size - EntryCount old_size) MAX_ENTRY) (vm_data m),
         vm_capacity = new_size\<rparr>)"

definition IsAligned :: "idx_t \<Rightarrow> bool" where
  "IsAligned count \<longleftrightarrow> count mod BITS_PER_VALUE = 0"

text \<open>The row by row copy that \<open>SliceInPlace\<close> and \<open>CopySel\<close> fall back to.\<close>

definition copy_rows ::
  "(idx_t \<Rightarrow> bool) \<Rightarrow> idx_t \<Rightarrow> idx_t \<Rightarrow> ValidityMask \<Rightarrow> ValidityMask" where
  "copy_rows source target_offset count m =
     fold (\<lambda>i m. SetRow (target_offset + i) (source i) m) [0..<count] m"

text \<open>
  The shifting loop over whole entries: \<open>src_entry\<close> is the entry read last, \<open>spos\<close> and \<open>tpos\<close> are
  the positions of the two moving pointers.
\<close>

fun slice_shift_loop ::
  "nat \<Rightarrow> nat \<Rightarrow> nat \<Rightarrow> uint64_t list \<Rightarrow> uint64_t \<Rightarrow> idx_t \<Rightarrow> idx_t \<Rightarrow> uint64_t list
   \<Rightarrow> uint64_t \<times> idx_t \<times> idx_t \<times> uint64_t list" where
  "slice_shift_loop tail head 0 sd src_entry spos tpos td = (src_entry, spos, tpos, td)"
| "slice_shift_loop tail head (Suc n) sd src_entry spos tpos td =
     (let tgt_entry = drop_bit tail src_entry;
          src_entry' = sd ! spos;
          tgt_entry' = tgt_entry OR push_bit head src_entry'
      in slice_shift_loop tail head n sd src_entry' (Suc spos) (Suc tpos) (td[tpos := tgt_entry']))"

definition slice_aligned ::
  "uint64_t list option \<Rightarrow> idx_t \<Rightarrow> idx_t \<Rightarrow> idx_t \<Rightarrow> uint64_t list \<Rightarrow> uint64_t list" where
  "slice_aligned source target_offset source_offset count td =
     (let ragged = count mod BITS_PER_VALUE; entire_units = count div BITS_PER_VALUE;
          so = EntryCount source_offset; to = EntryCount target_offset;
          td1 = (case source of
                   None \<Rightarrow> fill_range to (to + entire_units) MAX_ENTRY td
                 | Some sd \<Rightarrow> fold (\<lambda>i a. a[to + i := sd ! (so + i)]) [0..<entire_units] td)
      in if ragged \<noteq> 0 then
           let src0 = (case source of None \<Rightarrow> MAX_ENTRY | Some sd \<Rightarrow> sd ! (so + entire_units));
               src_entry = src0 AND drop_bit (BITS_PER_VALUE - ragged) MAX_ENTRY;
               tgt_entry = td1 ! (to + entire_units) AND push_bit ragged MAX_ENTRY
           in td1[to + entire_units := tgt_entry OR src_entry]
         else td1)"

definition slice_shifted ::
  "uint64_t list \<Rightarrow> idx_t \<Rightarrow> idx_t \<Rightarrow> idx_t \<Rightarrow> uint64_t list \<Rightarrow> uint64_t list" where
  "slice_shifted sd target_offset source_offset count td =
     (let ragged = count mod BITS_PER_VALUE; entire_units = count div BITS_PER_VALUE;
          tail = source_offset mod BITS_PER_VALUE; head = BITS_PER_VALUE - tail;
          s0 = source_offset div BITS_PER_VALUE; t0 = target_offset div BITS_PER_VALUE;
          (src_entry, spos, tpos, td1) =
            slice_shift_loop tail head entire_units sd (sd ! s0) (Suc s0) t0 td
      in if ragged \<noteq> 0 then
           let tgt0 = drop_bit tail src_entry;
               tgt1 = (if head < ragged then tgt0 OR push_bit head (sd ! spos) else tgt0);
               tgt2 = tgt1 AND drop_bit (BITS_PER_VALUE - ragged) MAX_ENTRY;
               tgt3 = tgt2 OR (td1 ! tpos AND push_bit ragged MAX_ENTRY)
           in td1[tpos := tgt3]
         else td1)"

text \<open>
  The second branch reads through \<open>other.GetData()\<close> without the null check of the first one:
  \<open>None\<close> is that null pointer dereference.
\<close>

definition SliceInPlace ::
  "ValidityMask \<Rightarrow> idx_t \<Rightarrow> idx_t \<Rightarrow> idx_t \<Rightarrow> ValidityMask \<Rightarrow> ValidityMask option" where
  "SliceInPlace other target_offset source_offset count m0 =
     (if AllValid m0 \<and> AllValid other then Some m0
      else
        let m = EnsureWritable m0 in
        if IsAligned source_offset \<and> IsAligned target_offset then
          Some (m\<lparr>vm_data := map_option
            (slice_aligned (vm_data other) target_offset source_offset count) (vm_data m)\<rparr>)
        else if IsAligned target_offset then
          (case vm_data other of
             None \<Rightarrow> None
           | Some sd \<Rightarrow> Some (m\<lparr>vm_data := map_option
               (slice_shifted sd target_offset source_offset count) (vm_data m)\<rparr>))
        else Some (copy_rows (\<lambda>i. RowIsValid other (source_offset + i)) target_offset count m))"

definition SliceMask :: "ValidityMask \<Rightarrow> idx_t \<Rightarrow> idx_t \<Rightarrow> ValidityMask \<Rightarrow> ValidityMask option" where
  "SliceMask other source_offset count m =
     (if AllValid other then Some (m\<lparr>vm_data := None\<rparr>)
      else if source_offset = 0 then Some other
      else SliceInPlace other 0 source_offset count \<lparr>vm_data = None, vm_capacity = count\<rparr>)"

text \<open>\<open>sel\<close> is the index array of a selection vector, absent for the identity.\<close>

definition get_index :: "nat list option \<Rightarrow> idx_t \<Rightarrow> idx_t" where
  "get_index sel idx = (case sel of None \<Rightarrow> idx | Some s \<Rightarrow> s ! idx)"

definition CopySel ::
  "ValidityMask \<Rightarrow> nat list option \<Rightarrow> idx_t \<Rightarrow> idx_t \<Rightarrow> idx_t \<Rightarrow> ValidityMask
   \<Rightarrow> ValidityMask option" where
  "CopySel other sel source_offset target_offset copy_count m =
     (if AllValid other \<and> AllValid m then Some m
      else if sel = None \<and> IsAligned source_offset \<and> IsAligned target_offset then
        SliceInPlace other target_offset source_offset copy_count m
      else Some (copy_rows (\<lambda>i. RowIsValid other (get_index sel (source_offset + i)))
                           target_offset copy_count m))"

section \<open>The rows of a mask\<close>

lemma bit_MAX_ENTRY: "bit MAX_ENTRY i \<longleftrightarrow> i < 64"
  by (simp add: MAX_ENTRY_def bit_simps)

lemma EntryRowIsValid_bit: "EntryRowIsValid e i \<longleftrightarrow> bit e i"
proof -
  have "e AND push_bit i 1 = 0 \<longleftrightarrow> \<not> bit e i"
    by (simp add: push_bit_eq_mult and_exp_eq_0_iff_not_bit)
  then show ?thesis by (simp add: EntryRowIsValid_def)
qed

lemma bit_double_nat: "bit (2 * a :: nat) i \<longleftrightarrow> (\<exists>j. i = Suc j \<and> bit a j)"
  by (cases i) (auto simp: bit_0 bit_Suc)

lemma bit_double_plus_one_nat:
  "bit (2 * a + 1 :: nat) i \<longleftrightarrow> i = 0 \<or> (\<exists>j. i = Suc j \<and> bit a j)"
  by (cases i) (auto simp: bit_0 bit_Suc)

lemma bits_double: "{i. bit (2 * a :: nat) i} = Suc ` {i. bit a i}"
  by (auto simp: bit_double_nat)

lemma bits_double_plus_one: "{i. bit (2 * a + 1 :: nat) i} = insert 0 (Suc ` {i. bit a i})"
  unfolding bit_double_plus_one_nat by auto

lemma finite_bits_nat: "finite {i. bit (n :: nat) i}"
proof (induction n rule: less_induct)
  case (less n)
  show ?case
  proof (cases "n = 0")
    case False
    then have "n div 2 < n" by simp
    with less have "finite {i. bit (n div 2) i}" by blast
    moreover have "n = 2 * (n div 2) \<or> n = 2 * (n div 2) + 1" by presburger
    ultimately show ?thesis
      by (metis bits_double bits_double_plus_one finite_imageI finite_insert)
  qed simp
qed

lemma card_bits_and_pred:
  "0 < n \<Longrightarrow> Suc (card {i. bit (n AND (n - 1) :: nat) i}) = card {i. bit n i}"
proof (induction n rule: less_induct)
  case (less n)
  show ?case
  proof (cases "even n")
    case False
    then obtain a where n: "n = 2 * a + 1" by (elim oddE)
    then have pred: "n - 1 = 2 * a" by simp
    have "bit (n AND (n - 1)) i = bit (2 * a) i" for i
      unfolding pred unfolding n bit_and_iff bit_double_nat bit_double_plus_one_nat by auto
    then have "n AND (n - 1) = 2 * a" by (rule bit_eqI)
    moreover have "card {i. bit n i} = Suc (card {i. bit (2 * a) i})"
      unfolding n bits_double bits_double_plus_one
      by (subst card_insert_disjoint) (auto simp: finite_bits_nat)
    ultimately show ?thesis by simp
  next
    case True
    then obtain a where n: "n = 2 * a" by (elim evenE)
    with less.prems have a: "0 < a" by simp
    have pred: "n - 1 = 2 * (a - 1) + 1" using a n by simp
    have "bit (n AND (n - 1)) i = bit (2 * (a AND (a - 1))) i" for i
      unfolding pred unfolding n bit_and_iff bit_double_nat bit_double_plus_one_nat
      by (auto simp: bit_and_iff)
    then have "n AND (n - 1) = 2 * (a AND (a - 1))" by (rule bit_eqI)
    moreover have "Suc (card {i. bit (a AND (a - 1)) i}) = card {i. bit a i}"
      using less.IH [of a] a n by simp
    ultimately show ?thesis by (simp add: bits_double n card_image)
  qed
qed

lemma card_bits_word_and_pred:
  assumes "(w :: uint64_t) \<noteq> 0"
  shows "Suc (card {i. bit (w AND (w - 1)) i}) = card {i. bit w i}"
proof -
  have bits: "bit (v :: uint64_t) i = bit (unat v) i" for v i
    by (auto simp: bit_unsigned_iff dest: bit_imp_possible_bit)
  have "unat (w AND (w - 1)) = unat w AND (unat w - 1)"
    using assms by (simp add: unsigned_and_eq unat_minus_one)
  then show ?thesis
    using card_bits_and_pred [of "unat w"] assms by (simp add: bits unat_gt_0)
qed

lemma kernighan_eq: "kernighan e v = v + card {i. bit e i}"
proof (induction e v rule: kernighan.induct)
  case (1 e v)
  show ?case
    using 1 card_bits_word_and_pred [of e] by (subst kernighan.simps) (auto simp: bot_fun_def)
qed

lemma RowIsValid_bit:
  "RowIsValid m i \<longleftrightarrow> (case vm_data m of None \<Rightarrow> True | Some d \<Rightarrow> bit (d ! (i div 64)) (i mod 64))"
  by (simp add: RowIsValid_def EntryRowIsValid_bit BITS_PER_VALUE_def split: option.split)

lemma RowIsValid_entry:
  "j < 64 \<Longrightarrow> RowIsValid m (64 * e + j) \<longleftrightarrow> bit (GetValidityEntry m e) j"
  by (simp add: RowIsValid_bit GetValidityEntry_def bit_MAX_ENTRY split: option.split)

lemma length_filter_shift:
  "length (filter P [a..<a + k]) = length (filter (\<lambda>j. P (a + j)) [0..<k])"
proof -
  have "[a..<a + k] = map (\<lambda>j. a + j) [0..<k]"
    using map_add_upt [of a k] by (simp add: add.commute)
  then show ?thesis by (simp add: filter_map comp_def)
qed

lemma length_filter_upt_split:
  "a \<le> b \<Longrightarrow> b \<le> c \<Longrightarrow>
   length (filter P [a..<c]) = length (filter P [a..<b]) + length (filter P [b..<c])"
proof -
  assume "a \<le> b" "b \<le> c"
  then have "[a..<c] = [a..<b] @ [b..<c]"
    by (metis le_add_diff_inverse upt_add_eq_append)
  then show ?thesis by simp
qed

lemma kernighan_filter: "kernighan e v = v + length (filter (bit e) [0..<64])"
proof -
  have "{i. bit e i} \<inter> set [0..<64] = {i. bit e i}"
    by (auto dest: bit_imp_le_length)
  then show ?thesis by (simp add: kernighan_eq distinct_length_filter)
qed

lemma count_entry:
  "k \<le> 64 \<Longrightarrow>
   length (filter (RowIsValid m) [64 * e..<64 * e + k]) =
   length (filter (bit (GetValidityEntry m e)) [0..<k])"
  by (subst length_filter_shift, rule arg_cong [of _ _ length], rule filter_cong)
     (auto simp: RowIsValid_entry)

lemma count_masked_entry:
  assumes "r < 64"
  shows "length (filter (bit (w AND drop_bit (64 - r) MAX_ENTRY)) [0..<64]) = length (filter (bit w) [0..<r])"
proof -
  have b: "bit (w AND drop_bit (64 - r) MAX_ENTRY) = (\<lambda>i. bit w i \<and> i < r)"
    using assms by (intro ext) (auto simp: bit_and_iff bit_drop_bit_eq bit_MAX_ENTRY)
  have "length (filter (\<lambda>i. bit w i \<and> i < r) [0..<64]) =
        length (filter (\<lambda>i. bit w i \<and> i < r) [0..<r]) + length (filter (\<lambda>i. bit w i \<and> i < r) [r..<64])"
    using assms by (intro length_filter_upt_split) auto
  also have "filter (\<lambda>i. bit w i \<and> i < r) [0..<r] = filter (bit w) [0..<r]"
    by (rule filter_cong) auto
  also have "filter (\<lambda>i. bit w i \<and> i < r) [r..<64] = []"
    by (auto simp: filter_empty_conv)
  finally show ?thesis by (simp add: b)
qed

lemma EntryCount_eq: "EntryCount c = c div 64 + (if c mod 64 = 0 then 0 else 1)"
proof -
  define q r where "q = c div 64" and "r = c mod 64"
  have c: "c = r + 64 * q" and r: "r < 64" by (simp_all add: q_def r_def)
  have "(c + 63) div 64 = (r + 63 + 64 * q) div 64" by (simp add: c)
  also have "\<dots> = (r + 63) div 64 + q" by simp
  also have "(r + 63) div 64 = (if r = 0 then 0 else 1)"
    using r by (auto intro: div_nat_eqI)
  finally show ?thesis by (simp add: EntryCount_def BITS_PER_VALUE_def q_def r_def)
qed

lemma count_valid_loop_eq:
  assumes "entry_count = EntryCount count"
  shows "e \<le> entry_count \<Longrightarrow>
    count_valid_loop m count entry_count e v = v + length (filter (RowIsValid m) [64 * e..<count])"
  using assms
proof (induction m count entry_count e v rule: count_valid_loop.induct)
  case (1 m count n e v)
  note n = \<open>n = EntryCount count\<close>
  show ?case
  proof (cases "e < n")
    case False
    with 1 have "count \<le> 64 * e" by (simp add: EntryCount_def BITS_PER_VALUE_def)
    with False show ?thesis by (subst count_valid_loop.simps) simp
  next
    case True
    show ?thesis
    proof (cases "Suc e = n \<and> count mod 64 \<noteq> 0")
      case last: True
      define r where "r = count mod 64"
      have r: "r < 64" by (simp add: r_def)
      have "e = count div 64"
        using last n EntryCount_eq [of count] by (auto split: if_splits)
      then have cnt: "count = 64 * e + r" by (simp add: r_def)
      then have "count \<le> 64 * Suc e" using r by simp
      note cnt = cnt this
      have "count_valid_loop m count n e v =
          count_valid_loop m count n (Suc e)
            (kernighan (GetValidityEntry m e AND drop_bit (64 - r) MAX_ENTRY) v)"
        using True last by (subst count_valid_loop.simps) (simp add: Let_def BITS_PER_VALUE_def r_def)
      also have "\<dots> = kernighan (GetValidityEntry m e AND drop_bit (64 - r) MAX_ENTRY) v"
        using last by (subst count_valid_loop.simps) simp
      also have "\<dots> = v + length (filter (RowIsValid m) [64 * e..<64 * e + r])"
        using r by (simp add: kernighan_filter count_masked_entry count_entry)
      finally show ?thesis by (simp add: cnt)
    next
      case whole: False
      then have le: "64 * e + 64 \<le> count"
        using True n by (auto simp: EntryCount_def BITS_PER_VALUE_def)
      have split: "length (filter (RowIsValid m) [64 * e..<count]) =
          length (filter (bit (GetValidityEntry m e)) [0..<64]) +
          length (filter (RowIsValid m) [64 * Suc e..<count])"
        using le length_filter_upt_split [of "64 * e" "64 * e + 64" count "RowIsValid m"]
          count_entry [of 64 m e] by (simp add: add.commute)
      show ?thesis
      proof (cases "GetValidityEntry m e = MAX_ENTRY")
        case full: True
        have "filter (bit MAX_ENTRY) [0..<64] = [0..<64]"
          by (auto simp: bit_MAX_ENTRY intro: filter_True)
        with True whole full 1 show ?thesis
          by (subst count_valid_loop.simps) (auto simp: Let_def BITS_PER_VALUE_def split)
      next
        case False
        with True whole 1 show ?thesis
          by (subst count_valid_loop.simps)
             (auto simp: Let_def BITS_PER_VALUE_def split kernighan_filter)
      qed
    qed
  qed
qed

lemma CountValid_filter: "CountValid m count = length (filter (RowIsValid m) [0..<count])"
proof (cases "AllValid m")
  case True
  then have "filter (RowIsValid m) [0..<count] = [0..<count]"
    by (intro filter_True) (auto simp: RowIsValid_bit AllValid_def)
  with True show ?thesis by (simp add: CountValid_def)
next
  case False
  then show ?thesis by (simp add: CountValid_def count_valid_loop_eq)
qed

text \<open>A mask has storage for \<open>n\<close> rows.\<close>

definition mask_covers :: "ValidityMask \<Rightarrow> idx_t \<Rightarrow> bool" where
  "mask_covers m n \<longleftrightarrow> (case vm_data m of None \<Rightarrow> True | Some d \<Rightarrow> EntryCount n \<le> length d)"

lemma entry_index_less: "i < n \<Longrightarrow> i div 64 < EntryCount n"
  by (cases "n mod 64 = 0")
     (auto simp: EntryCount_eq less_Suc_eq_le div_le_mono less_mult_imp_div_less minus_mod_eq_mult_div)

lemma RowIsValid_Initialize [simp]: "i < n \<Longrightarrow> RowIsValid (InitializeCount n m) i"
  by (simp add: RowIsValid_bit InitializeCount_def entry_index_less bit_MAX_ENTRY)

lemma mask_covers_Initialize [simp]: "mask_covers (InitializeCount n m) n"
  by (simp add: mask_covers_def InitializeCount_def)

lemma RowIsValid_EnsureWritable: "i < vm_capacity m \<Longrightarrow> RowIsValid (EnsureWritable m) i = RowIsValid m i"
  by (auto simp: EnsureWritable_def AllValid_def RowIsValid_bit [of m])

lemma mask_covers_EnsureWritable [simp]:
  "mask_covers m (vm_capacity m) \<Longrightarrow> mask_covers (EnsureWritable m) (vm_capacity m)"
  by (simp add: EnsureWritable_def)

lemma vm_capacity_EnsureWritable [simp]: "vm_capacity (EnsureWritable m) = vm_capacity m"
  by (simp add: EnsureWritable_def InitializeCount_def)

lemma EnsureWritable_data: "\<exists>d. vm_data (EnsureWritable m) = Some d"
  by (auto simp: EnsureWritable_def AllValid_def InitializeCount_def)

text \<open>Two rows share bit and entry only when they are equal.\<close>

lemma row_index_eq: "(i :: nat) div 64 = j div 64 \<Longrightarrow> i mod 64 = j mod 64 \<Longrightarrow> i = j"
  by (metis div_mod_decomp)

lemma RowIsValid_SetValid:
  assumes "mask_covers m n" "r < n" "i < n"
  shows "RowIsValid (SetValid r m) i \<longleftrightarrow> i = r \<or> RowIsValid m i"
proof (cases "vm_data m")
  case None
  then show ?thesis by (simp add: SetValid_def RowIsValid_bit)
next
  case (Some d)
  with assms have "r div 64 < length d" "i div 64 < length d"
    by (auto simp: mask_covers_def dest: entry_index_less [of r n] entry_index_less [of i n])
  with Some show ?thesis
    by (auto simp: SetValid_def RowIsValid_bit BITS_PER_VALUE_def Let_def nth_list_update
        bit_or_iff bit_exp_iff dest: row_index_eq)
qed

lemma bit_SetInvalidUnsafe:
  assumes "r div 64 < length d" "i div 64 < length d"
  shows "bit (SetInvalidUnsafe r d ! (i div 64)) (i mod 64) \<longleftrightarrow> i \<noteq> r \<and> bit (d ! (i div 64)) (i mod 64)"
  using assms
  by (auto simp: SetInvalidUnsafe_def BITS_PER_VALUE_def Let_def nth_list_update bit_and_iff
      bit_not_iff bit_exp_iff dest: row_index_eq)

lemma RowIsValid_SetInvalid:
  assumes "mask_covers m (vm_capacity m)" "r < vm_capacity m" "i < vm_capacity m"
  shows "RowIsValid (SetInvalid r m) i \<longleftrightarrow> i \<noteq> r \<and> RowIsValid m i"
proof (cases "vm_data m")
  case None
  with assms show ?thesis
    by (simp add: SetInvalid_def InitializeCount_def RowIsValid_bit bit_SetInvalidUnsafe
        entry_index_less bit_MAX_ENTRY)
next
  case (Some d)
  with assms have "r div 64 < length d" "i div 64 < length d"
    by (auto simp: mask_covers_def dest: entry_index_less [of r] entry_index_less [of i])
  with Some show ?thesis
    by (simp add: SetInvalid_def RowIsValid_bit bit_SetInvalidUnsafe)
qed

lemma SetRow_capacity [simp]: "vm_capacity (SetRow r v m) = vm_capacity m"
  by (auto simp: SetRow_def SetValid_def SetInvalid_def InitializeCount_def Let_def split: option.split)

lemma mask_covers_SetRow [simp]:
  "mask_covers m (vm_capacity m) \<Longrightarrow> mask_covers (SetRow r v m) (vm_capacity m)"
  by (auto simp: SetRow_def SetValid_def SetInvalid_def InitializeCount_def Let_def mask_covers_def
      SetInvalidUnsafe_def split: option.splits)

lemma RowIsValid_SetRow:
  assumes "mask_covers m (vm_capacity m)" "r < vm_capacity m" "i < vm_capacity m"
  shows "RowIsValid (SetRow r v m) i \<longleftrightarrow> (if i = r then v else RowIsValid m i)"
  using assms by (auto simp: SetRow_def RowIsValid_SetValid RowIsValid_SetInvalid)

lemma bit_push_MAX_ENTRY: "i < 64 \<Longrightarrow> bit (push_bit k MAX_ENTRY) i \<longleftrightarrow> k \<le> i"
  by (auto simp: bit_push_bit_iff bit_MAX_ENTRY)

lemma writable_mask:
  assumes "mask_covers m (vm_capacity m)"
  obtains d where "vm_data (EnsureWritable m) = Some d" "EntryCount (vm_capacity m) \<le> length d"
    "\<forall>i < vm_capacity m. bit (d ! (i div 64)) (i mod 64) \<longleftrightarrow> RowIsValid m i"
proof -
  obtain d where d: "vm_data (EnsureWritable m) = Some d" using EnsureWritable_data by blast
  moreover have "EntryCount (vm_capacity m) \<le> length d"
    using mask_covers_EnsureWritable [OF assms] d by (simp add: mask_covers_def)
  moreover have "\<forall>i < vm_capacity m. bit (d ! (i div 64)) (i mod 64) \<longleftrightarrow> RowIsValid m i"
    using RowIsValid_EnsureWritable [of _ m] d by (simp add: RowIsValid_bit)
  ultimately show thesis by (rule that)
qed

lemma last_entry:
  assumes "0 < count"
  shows "EntryCount count - Suc 0 = (count - 1) div 64"
proof -
  obtain c where c: "count = Suc c" using assms by (cases count) auto
  have "(c + 64) div 64 = c div 64 + 1" by simp
  then show ?thesis by (simp add: c EntryCount_def BITS_PER_VALUE_def)
qed

text \<open>Rows of the last entry of a range: those below \<open>count\<close> and those above it.\<close>

lemma row_vs_count:
  fixes i count :: nat
  assumes "0 < count" "i div 64 = (count - 1) div 64"
  shows "i < count \<longleftrightarrow> count mod 64 = 0 \<or> i mod 64 < count mod 64"
proof -
  obtain c where c: "count = Suc c" using assms by (cases count) auto
  define q where "q = c div 64"
  have i: "i = 64 * q + i mod 64" and cq: "c = 64 * q + c mod 64"
    using assms by (simp_all add: c q_def flip: assms(2)) (metis mult_div_mod_eq)
  have m: "Suc c mod 64 = (if c mod 64 = 63 then 0 else Suc (c mod 64))"
    by (simp add: mod_Suc)
  have "i < Suc c \<longleftrightarrow> i mod 64 \<le> c mod 64"
    using i cq by linarith
  then show ?thesis by (auto simp: c m)
qed

lemma entry_less_count:
  fixes i count :: nat
  shows "0 < count \<Longrightarrow> i div 64 < (count - 1) div 64 \<Longrightarrow> i < count"
  by (metis One_nat_def Suc_pred div_le_mono linorder_not_less less_Suc_eq_le nat_le_linear)

lemma entry_le_count:
  fixes i count :: nat
  shows "i < count \<Longrightarrow> i div 64 \<le> (count - 1) div 64"
  by (rule div_le_mono) simp

lemma entry_greater_count:
  fixes i count :: nat
  shows "0 < count \<Longrightarrow> (count - 1) div 64 < i div 64 \<Longrightarrow> count \<le> i"
  by (metis One_nat_def Suc_pred div_le_mono linorder_not_less less_Suc_eq_le)

lemma RowIsValid_SetRangeInvalid:
  assumes cov: "mask_covers m (vm_capacity m)" and count: "0 < count" "count \<le> vm_capacity m"
    and i: "i < vm_capacity m"
  shows "RowIsValid (SetRangeInvalid count b e m) i \<longleftrightarrow>
    (if i div 64 = (count - 1) div 64 \<and> (count - 1) div 64 < e then count \<le> i
     else \<not> (b \<le> i div 64 \<and> i div 64 < min ((count - 1) div 64) e) \<and> RowIsValid m i)"
proof -
  obtain d where d: "vm_data (EnsureWritable m) = Some d" "EntryCount (vm_capacity m) \<le> length d"
    and v: "\<forall>i < vm_capacity m. bit (d ! (i div 64)) (i mod 64) \<longleftrightarrow> RowIsValid m i"
    using cov by (rule writable_mask)
  define k L where "k = i div 64" and "L = (count - 1) div 64"
  have "count - 1 < vm_capacity m" using count by linarith
  then have len: "k < length d" "L < length d"
    using entry_index_less [OF i] entry_index_less [of "count - 1" "vm_capacity m"] d(2)
    by (auto simp: k_def L_def)
  have bits: "bit (d ! k) (i mod 64) = RowIsValid m i" using v i by (simp add: k_def)
  have rv: "RowIsValid (x\<lparr>vm_data := Some y\<rparr>) i = bit (y ! k) (i mod 64)" for x y
    by (simp add: RowIsValid_bit k_def)
  have last: "k = L \<Longrightarrow> i < count \<longleftrightarrow> count mod 64 = 0 \<or> i mod 64 < count mod 64"
    using row_vs_count [OF count(1), of i] by (simp add: k_def L_def)
  show ?thesis
  proof (cases "e \<le> L")
    case True
    then show ?thesis
      using count len bits last_entry [OF count(1), folded L_def]
      unfolding k_def [symmetric] L_def [symmetric]
      by (auto simp: SetRangeInvalid_def Let_def d rv nth_fill_range min_def)
  next
    case False
    then have "RowIsValid (SetRangeInvalid count b e m) i =
        bit ((fill_range b L 0 d)[L := if count mod 64 = 0 then 0 else push_bit (count mod 64) MAX_ENTRY] ! k)
          (i mod 64)"
      using count last_entry [OF count(1), folded L_def]
      by (simp add: SetRangeInvalid_def Let_def d rv BITS_PER_VALUE_def min_def)
    with False show ?thesis
      using len bits last
      unfolding k_def [symmetric] L_def [symmetric]
      by (auto simp: nth_list_update nth_fill_range bit_push_MAX_ENTRY min_def)
  qed
qed

lemma RowIsValid_SetAllInvalid:
  assumes "mask_covers m (vm_capacity m)" "0 < count" "count \<le> vm_capacity m" "i < vm_capacity m"
  shows "RowIsValid (SetAllInvalid count m) i \<longleftrightarrow>
    (if i < count then False else if i div 64 = (count - 1) div 64 then True else RowIsValid m i)"
  using assms last_entry [of count] entry_less_count [of count i] entry_le_count [of i count]
  by (auto simp: SetAllInvalid_def RowIsValid_SetRangeInvalid Let_def EntryCount_def BITS_PER_VALUE_def)

lemma RowIsValid_SetAllValid:
  assumes cov: "mask_covers m (vm_capacity m)" and count: "0 < count" "count \<le> vm_capacity m"
    and i: "i < vm_capacity m"
  shows "RowIsValid (SetAllValid count m) i \<longleftrightarrow> i < count \<or> RowIsValid m i"
proof -
  obtain d where d: "vm_data (EnsureWritable m) = Some d" "EntryCount (vm_capacity m) \<le> length d"
    and v: "\<forall>i < vm_capacity m. bit (d ! (i div 64)) (i mod 64) \<longleftrightarrow> RowIsValid m i"
    using cov by (rule writable_mask)
  define k L where "k = i div 64" and "L = (count - 1) div 64"
  have "count - 1 < vm_capacity m" using count by linarith
  then have len: "k < length d" "L < length d"
    using entry_index_less [OF i] entry_index_less [of "count - 1" "vm_capacity m"] d(2)
    by (auto simp: k_def L_def)
  have bits: "bit (d ! k) (i mod 64) = RowIsValid m i" using v i by (simp add: k_def)
  have rv: "RowIsValid (x\<lparr>vm_data := Some y\<rparr>) i = bit (y ! k) (i mod 64)" for x y
    by (simp add: RowIsValid_bit k_def)
  have last: "k = L \<Longrightarrow> i < count \<longleftrightarrow> count mod 64 = 0 \<or> i mod 64 < count mod 64"
    using row_vs_count [OF count(1), of i] by (simp add: k_def L_def)
  have other: "k < L \<Longrightarrow> i < count" "L < k \<Longrightarrow> \<not> i < count"
    using entry_less_count [OF count(1), of i] entry_greater_count [OF count(1), of i]
    by (auto simp: k_def L_def)
  have "RowIsValid (SetAllValid count m) i =
      bit ((fill_range 0 L MAX_ENTRY d)[L := fill_range 0 L MAX_ENTRY d ! L OR
        (if count mod 64 = 0 then MAX_ENTRY else NOT (push_bit (count mod 64) MAX_ENTRY))] ! k) (i mod 64)"
    using count last_entry [OF count(1), folded L_def]
    by (simp add: SetAllValid_def Let_def d rv BITS_PER_VALUE_def)
  also have "\<dots> = (if k = L then RowIsValid m i \<or> i < count else k < L \<or> RowIsValid m i)"
    using len bits last
    by (auto simp: nth_list_update nth_fill_range bit_or_iff bit_not_iff bit_push_MAX_ENTRY bit_MAX_ENTRY)
  finally show ?thesis using other by (cases k L rule: linorder_cases) auto
qed

lemma RowIsValid_Combine:
  assumes "mask_covers m count" "mask_covers other count" "i < count"
    and "same_buffer \<Longrightarrow> vm_data m = vm_data other"
  shows "RowIsValid (Combine same_buffer other count m) i \<longleftrightarrow> RowIsValid m i \<and> RowIsValid other i"
  using assms entry_index_less [of i count]
  by (auto simp: Combine_def RowIsValid_bit mask_covers_def bit_and_iff split: option.splits)

lemma EntryCount_mono: "a \<le> b \<Longrightarrow> EntryCount a \<le> EntryCount b"
  by (simp add: EntryCount_def div_le_mono)

lemma RowIsValid_ResizeMask:
  assumes "mask_covers m (vm_capacity m)" "i < vm_capacity m"
  shows "RowIsValid (ResizeMask n m) i \<longleftrightarrow> RowIsValid m i"
  using assms entry_index_less [of i "vm_capacity m"]
  by (auto simp: ResizeMask_def RowIsValid_bit Let_def nth_append split: option.splits)

lemma mask_covers_ResizeMask:
  "mask_covers m (vm_capacity m) \<Longrightarrow> mask_covers (ResizeMask n m) (vm_capacity (ResizeMask n m))"
  using EntryCount_mono [of "vm_capacity m" n]
  by (auto simp: ResizeMask_def mask_covers_def Let_def split: option.splits)

lemma copy_rows_effect:
  assumes "mask_covers m (vm_capacity m)" "t + n \<le> vm_capacity m"
  shows "vm_capacity (copy_rows f t n m) = vm_capacity m"
    and "mask_covers (copy_rows f t n m) (vm_capacity m)"
    and "i < vm_capacity m \<Longrightarrow>
      RowIsValid (copy_rows f t n m) i \<longleftrightarrow> (if t \<le> i \<and> i < t + n then f (i - t) else RowIsValid m i)"
proof -
  have "vm_capacity (copy_rows f t n m) = vm_capacity m \<and>
    mask_covers (copy_rows f t n m) (vm_capacity m) \<and>
    (\<forall>i < vm_capacity m. RowIsValid (copy_rows f t n m) i \<longleftrightarrow>
      (if t \<le> i \<and> i < t + n then f (i - t) else RowIsValid m i))"
    using assms(2)
  proof (induction n)
    case 0
    with assms show ?case by (auto simp: copy_rows_def)
  next
    case (Suc n)
    let ?m = "copy_rows f t n m"
    have step: "copy_rows f t (Suc n) m = SetRow (t + n) (f n) ?m" by (simp add: copy_rows_def)
    have cap: "vm_capacity ?m = vm_capacity m" and cov: "mask_covers ?m (vm_capacity ?m)"
      using Suc by simp_all
    have "t + n < vm_capacity ?m" using Suc.prems cap by simp
    then have "RowIsValid (SetRow (t + n) (f n) ?m) i \<longleftrightarrow> (if i = t + n then f n else RowIsValid ?m i)"
      if "i < vm_capacity m" for i
      using RowIsValid_SetRow [OF cov] that cap by simp
    then show ?case
      unfolding step using Suc cap mask_covers_SetRow [OF cov] by (auto simp: less_Suc_eq)
  qed
  then show "vm_capacity (copy_rows f t n m) = vm_capacity m"
    and "mask_covers (copy_rows f t n m) (vm_capacity m)"
    and "i < vm_capacity m \<Longrightarrow>
      RowIsValid (copy_rows f t n m) i \<longleftrightarrow> (if t \<le> i \<and> i < t + n then f (i - t) else RowIsValid m i)"
    by blast+
qed

lemma length_fold_copy [simp]: "length (fold (\<lambda>i a. a[t + i := g i]) ks td) = length td"
  by (induction ks arbitrary: td) auto

lemma nth_fold_copy:
  "j < length td \<Longrightarrow> fold (\<lambda>i a. a[t + i := g i]) [0..<n] td ! j =
     (if t \<le> j \<and> j < t + n then g (j - t) else td ! j)"
  by (induction n) (auto simp: nth_list_update less_Suc_eq length_fold_copy)


lemma entry_bit [simp]: "y < 64 \<Longrightarrow> (64 * q + y) div 64 = (q :: nat)" "y < 64 \<Longrightarrow> (64 * q + y) mod 64 = (y :: nat)"
  by simp_all

lemma entry_bit_less:
  fixes a b x r :: nat
  assumes "x < 64" "r < 64"
  shows "64 * a + x < 64 * b + r \<longleftrightarrow> a < b \<or> (a = b \<and> x < r)"
proof (cases a b rule: linorder_cases)
  case less
  then have "64 * a + 64 \<le> 64 * b" by simp
  with less assms show ?thesis by simp
next
  case greater
  then have "64 * b + 64 \<le> 64 * a" by simp
  with greater assms show ?thesis by simp
qed simp

text \<open>A range of rows that starts at an entry boundary, in terms of entries.\<close>

lemma aligned_range:
  fixes i t0 count :: nat
  shows "64 * t0 \<le> i \<and> i < 64 * t0 + count \<longleftrightarrow>
    (t0 \<le> i div 64 \<and> i div 64 < t0 + count div 64) \<or>
    (i div 64 = t0 + count div 64 \<and> i mod 64 < count mod 64)"
proof -
  define k x c r where "k = i div 64" and "x = i mod 64" and "c = count div 64" and "r = count mod 64"
  have i: "i = 64 * k + x" and count: "count = 64 * c + r" and x: "x < 64" "r < 64"
    by (simp_all add: k_def x_def c_def r_def)
  have "64 * t0 \<le> 64 * k + x \<longleftrightarrow> t0 \<le> k"
    using x entry_bit_less [of x 0 k t0] by (simp add: not_less [symmetric])
  moreover have "64 * k + x < 64 * t0 + (64 * c + r) \<longleftrightarrow> k < t0 + c \<or> (k = t0 + c \<and> x < r)"
    using entry_bit_less [OF x, of k "t0 + c"] by (simp add: add_mult_distrib2 add.assoc)
  ultimately have "64 * t0 \<le> 64 * k + x \<and> 64 * k + x < 64 * t0 + (64 * c + r) \<longleftrightarrow>
    (t0 \<le> k \<and> k < t0 + c) \<or> (k = t0 + c \<and> x < r)"
    by auto
  then show ?thesis
    unfolding i [symmetric] count [symmetric] k_def [symmetric] x_def [symmetric] c_def [symmetric] r_def [symmetric] .
qed

text \<open>The source row that lands in bit \<open>x\<close> of target entry \<open>k\<close>.\<close>

lemma bit_shifted_pair:
  fixes sd :: "uint64_t list"
  assumes "0 < tail" "tail < 64" "x < 64"
  shows "bit (drop_bit tail (sd ! p) OR push_bit (64 - tail) (sd ! Suc p)) x \<longleftrightarrow>
    bit (sd ! ((64 * p + tail + x) div 64)) ((64 * p + tail + x) mod 64)"
proof (cases "tail + x < 64")
  case True
  then have "(64 * p + tail + x) div 64 = p" "(64 * p + tail + x) mod 64 = tail + x"
    by (simp_all add: add.assoc)
  with True show ?thesis
    using assms by (auto simp: bit_or_iff bit_drop_bit_eq bit_push_bit_iff dest: bit_imp_le_length)
next
  case False
  then obtain y where y: "tail + x = 64 + y" by (metis le_iff_add not_less)
  with assms have "y < 64" by simp
  have e: "64 * p + tail + x = 64 * Suc p + y" using y by simp
  have "(64 * p + tail + x) div 64 = Suc p" "(64 * p + tail + x) mod 64 = y"
    unfolding e by (rule entry_bit [OF \<open>y < 64\<close>])+
  moreover have "x - (64 - tail) = y" "64 - tail \<le> x" using y assms by simp_all
  moreover have "\<not> bit (sd ! p) (64 + y)" by (auto dest: bit_imp_le_length)
  ultimately show ?thesis
    using assms by (auto simp: bit_or_iff bit_drop_bit_eq bit_push_bit_iff y)
qed

lemma bit_drop_source:
  fixes sd :: "uint64_t list"
  assumes "tail + x < 64"
  shows "bit (drop_bit tail (sd ! p)) x \<longleftrightarrow> bit (sd ! ((64 * p + tail + x) div 64)) ((64 * p + tail + x) mod 64)"
proof -
  have "(64 * p + tail + x) div 64 = p" "(64 * p + tail + x) mod 64 = tail + x"
    using assms by (simp_all add: add.assoc)
  then show ?thesis by (simp add: bit_drop_bit_eq)
qed

lemma slice_shift_loop_eq:
  assumes "slice_shift_loop tail head n sd (sd ! p) (Suc p) tpos td = (src, spos', tpos', td')"
  shows "src = sd ! (p + n) \<and> spos' = Suc (p + n) \<and> tpos' = tpos + n \<and> length td' = length td \<and>
    (\<forall>j < length td. td' ! j = (if tpos \<le> j \<and> j < tpos + n
       then drop_bit tail (sd ! (p + (j - tpos))) OR push_bit head (sd ! Suc (p + (j - tpos)))
       else td ! j))"
  using assms
proof (induction n arbitrary: p tpos td)
  case 0
  then show ?case by auto
next
  case (Suc n)
  let ?td = "td[tpos := drop_bit tail (sd ! p) OR push_bit head (sd ! Suc p)]"
  have "slice_shift_loop tail head n sd (sd ! Suc p) (Suc (Suc p)) (Suc tpos) ?td = (src, spos', tpos', td')"
    using Suc.prems by (simp add: Let_def)
  note IH = Suc.IH [OF this]
  show ?case
  proof (intro conjI allI impI)
    fix j assume j: "j < length td"
    show "td' ! j = (if tpos \<le> j \<and> j < tpos + Suc n
       then drop_bit tail (sd ! (p + (j - tpos))) OR push_bit head (sd ! Suc (p + (j - tpos)))
       else td ! j)"
    proof (cases "j = tpos")
      case True
      with IH j show ?thesis by simp
    next
      case False
      then have "Suc tpos \<le> j \<Longrightarrow> Suc p + (j - Suc tpos) = p + (j - tpos)" by simp
      with False IH j show ?thesis by auto
    qed
  qed (use IH in auto)
qed

definition source_bit :: "uint64_t list option \<Rightarrow> nat \<Rightarrow> bool" where
  "source_bit src r = (case src of None \<Rightarrow> True | Some sd \<Rightarrow> bit (sd ! (r div 64)) (r mod 64))"

lemma RowIsValid_source_bit: "RowIsValid m r = source_bit (vm_data m) r"
  by (simp add: RowIsValid_bit source_bit_def)

lemma EntryCount_aligned [simp]: "EntryCount (64 * t) = t"
  by (simp add: EntryCount_eq)

lemma slice_aligned_bit:
  assumes i: "i div 64 < length td"
  shows "bit (slice_aligned src (64 * t0) (64 * s0) count td ! (i div 64)) (i mod 64) \<longleftrightarrow>
    (if 64 * t0 \<le> i \<and> i < 64 * t0 + count then source_bit src (64 * s0 + (i - 64 * t0))
     else bit (td ! (i div 64)) (i mod 64))"
proof -
  define k x c r where "k = i div 64" and "x = i mod 64" and "c = count div 64" and "r = count mod 64"
  have x: "x < 64" "r < 64" by (simp_all add: x_def r_def)
  have kd: "k < length td" using i by (simp add: k_def)
  define f where "f p = (case src of None \<Rightarrow> MAX_ENTRY | Some sd \<Rightarrow> sd ! p)" for p
  define td1 where "td1 = (case src of
       None \<Rightarrow> fill_range t0 (t0 + c) MAX_ENTRY td
     | Some sd \<Rightarrow> fold (\<lambda>i a. a[t0 + i := sd ! (s0 + i)]) [0..<c] td)"
  have td1: "length td1 = length td"
    "td1 ! k = (if t0 \<le> k \<and> k < t0 + c then f (s0 + (k - t0)) else td ! k)"
    using kd by (auto simp: td1_def f_def nth_fill_range nth_fold_copy split: option.split)
  define e where "e = f (s0 + c)"
  have "slice_aligned src (64 * t0) (64 * s0) count td =
     (if r \<noteq> 0 then td1[t0 + c := (td1 ! (t0 + c) AND push_bit r MAX_ENTRY) OR
                                 (e AND drop_bit (64 - r) MAX_ENTRY)] else td1)"
    unfolding slice_aligned_def Let_def BITS_PER_VALUE_def td1_def e_def f_def c_def r_def EntryCount_aligned
    by simp
  then have val: "bit (slice_aligned src (64 * t0) (64 * s0) count td ! k) x \<longleftrightarrow>
      (if k = t0 + c \<and> x < r then bit e x else bit (td1 ! k) x)"
    using x kd td1(1)
    by (cases "k = t0 + c")
       (auto simp: bit_or_iff bit_and_iff bit_push_MAX_ENTRY bit_drop_bit_eq bit_MAX_ENTRY)
  have src: "source_bit src (64 * s0 + (i - 64 * t0)) \<longleftrightarrow>
      bit (f (s0 + (k - t0))) x" if "t0 \<le> k"
  proof -
    have "i = 64 * k + x" by (simp add: k_def x_def)
    then have "64 * s0 + (i - 64 * t0) = 64 * (s0 + (k - t0)) + x"
      using that by (simp add: diff_mult_distrib2 add_mult_distrib2)
    then show ?thesis
      using x by (simp add: source_bit_def f_def bit_MAX_ENTRY split: option.split)
  qed
  have at_end: "k - t0 = c" if "k = t0 + c" using that by simp
  have range: "64 * t0 \<le> i \<and> i < 64 * t0 + count \<longleftrightarrow> (t0 \<le> k \<and> k < t0 + c) \<or> (k = t0 + c \<and> x < r)"
    unfolding k_def x_def c_def r_def by (rule aligned_range)
  show ?thesis
    unfolding range unfolding k_def [symmetric] x_def [symmetric] val
    using src td1(2) at_end by (cases "k = t0 + c") (simp_all add: e_def del: add_diff_cancel_left')
qed

lemma slice_shifted_bit:
  assumes i: "i div 64 < length td" and tail: "so mod 64 \<noteq> 0"
  shows "bit (slice_shifted sd (64 * t0) so count td ! (i div 64)) (i mod 64) \<longleftrightarrow>
    (if 64 * t0 \<le> i \<and> i < 64 * t0 + count then source_bit (Some sd) (so + (i - 64 * t0))
     else bit (td ! (i div 64)) (i mod 64))"
proof -
  define k x c r where "k = i div 64" and "x = i mod 64" and "c = count div 64" and "r = count mod 64"
  define s0 t where "s0 = so div 64" and "t = so mod 64"
  have x: "x < 64" "r < 64" and t: "0 < t" "t < 64" using tail by (simp_all add: x_def r_def t_def)
  have kd: "k < length td" using i by (simp add: k_def)
  obtain src spos tpos td1 where loop: "slice_shift_loop t (64 - t) c sd (sd ! s0) (Suc s0) t0 td = (src, spos, tpos, td1)"
    by (metis prod_cases4)
  note eff = slice_shift_loop_eq [OF loop]
  then have len1: "length td1 = length td" by blast
  define e where "e = (if 64 - t < r then drop_bit t src OR push_bit (64 - t) (sd ! spos) else drop_bit t src)"
  have "slice_shifted sd (64 * t0) so count td =
     (if r \<noteq> 0 then td1[tpos := (e AND drop_bit (64 - r) MAX_ENTRY) OR (td1 ! tpos AND push_bit r MAX_ENTRY)]
      else td1)"
    using loop by (simp add: slice_shifted_def Let_def BITS_PER_VALUE_def r_def c_def s0_def t_def e_def)
  then have val: "bit (slice_shifted sd (64 * t0) so count td ! k) x \<longleftrightarrow>
      (if k = t0 + c \<and> x < r then bit e x else bit (td1 ! k) x)"
    using x kd eff(1) [THEN conjunct2, THEN conjunct2, THEN conjunct1] len1
    by (cases "k = t0 + c")
       (auto simp: bit_or_iff bit_and_iff bit_push_MAX_ENTRY bit_drop_bit_eq bit_MAX_ENTRY)
  define q where "q = s0 + (k - t0)"
  have src: "source_bit (Some sd) (so + (i - 64 * t0)) \<longleftrightarrow>
      bit (sd ! ((64 * q + t + x) div 64)) ((64 * q + t + x) mod 64)" if "t0 \<le> k"
  proof -
    have "i = 64 * k + x" "so = 64 * s0 + t" by (simp_all add: k_def x_def s0_def t_def)
    then have "so + (i - 64 * t0) = 64 * q + t + x"
      using that by (simp add: q_def diff_mult_distrib2 add_mult_distrib2)
    then show ?thesis by (simp add: source_bit_def)
  qed
  have td1k: "td1 ! k = (if t0 \<le> k \<and> k < t0 + c then drop_bit t (sd ! q) OR push_bit (64 - t) (sd ! Suc q)
      else td ! k)"
    using eff kd unfolding q_def by simp
  have whole: "bit (td1 ! k) x \<longleftrightarrow> (if t0 \<le> k \<and> k < t0 + c then source_bit (Some sd) (so + (i - 64 * t0))
      else bit (td ! k) x)"
    using td1k src bit_shifted_pair [OF t x(1), of sd q] by simp
  have rag: "bit e x \<longleftrightarrow> source_bit (Some sd) (so + (i - 64 * t0))" if fin: "k = t0 + c" "x < r"
  proof -
    have q: "s0 + c = q" "t0 \<le> k" using fin by (simp_all add: q_def)
    show ?thesis
    proof (cases "64 - t < r")
      case True
      then show ?thesis
        using q eff src bit_shifted_pair [OF t x(1), of sd q] by (simp add: e_def)
    next
      case False
      with fin have "t + x < 64" using t by simp
      with False show ?thesis
        using q eff src bit_drop_source [of t x sd q] by (simp add: e_def)
    qed
  qed
  have range: "64 * t0 \<le> i \<and> i < 64 * t0 + count \<longleftrightarrow> (t0 \<le> k \<and> k < t0 + c) \<or> (k = t0 + c \<and> x < r)"
    unfolding k_def x_def c_def r_def by (rule aligned_range)
  show ?thesis
    unfolding range unfolding k_def [symmetric] x_def [symmetric] val
    using whole rag by auto
qed

lemma IsAlignedE: "IsAligned n \<Longrightarrow> (\<And>t. n = 64 * t \<Longrightarrow> thesis) \<Longrightarrow> thesis"
  by (auto simp: IsAligned_def BITS_PER_VALUE_def elim: dvdE)

lemma SliceInPlace_rows:
  assumes cov: "mask_covers m (vm_capacity m)" and fits: "target_offset + count \<le> vm_capacity m"
    and res: "SliceInPlace other target_offset source_offset count m = Some m'"
    and i: "i < vm_capacity m"
  shows "RowIsValid m' i \<longleftrightarrow>
    (if target_offset \<le> i \<and> i < target_offset + count
     then RowIsValid other (source_offset + (i - target_offset)) else RowIsValid m i)"
proof (cases "AllValid m \<and> AllValid other")
  case True
  with res show ?thesis by (auto simp: SliceInPlace_def AllValid_def RowIsValid_bit)
next
  case False
  obtain d where d: "vm_data (EnsureWritable m) = Some d" "EntryCount (vm_capacity m) \<le> length d"
    and v: "\<forall>i < vm_capacity m. bit (d ! (i div 64)) (i mod 64) \<longleftrightarrow> RowIsValid m i"
    using cov by (rule writable_mask)
  have idx: "i div 64 < length d" using entry_index_less [OF i] d(2) by simp
  have bitv: "bit (d ! (i div 64)) (i mod 64) = RowIsValid m i" using v i by simp
  have rv: "RowIsValid (y\<lparr>vm_data := Some z\<rparr>) i = bit (z ! (i div 64)) (i mod 64)" for y z
    by (simp add: RowIsValid_bit)
  consider (both) "IsAligned source_offset" "IsAligned target_offset"
    | (shift) "\<not> IsAligned source_offset" "IsAligned target_offset"
    | (copy) "\<not> IsAligned target_offset" by blast
  then show ?thesis
  proof cases
    case both
    then obtain s t where st: "source_offset = 64 * s" "target_offset = 64 * t" by (elim IsAlignedE)
    have "m' = (EnsureWritable m)\<lparr>vm_data := Some (slice_aligned (vm_data other) target_offset source_offset count d)\<rparr>"
      using res False both d by (simp add: SliceInPlace_def)
    then show ?thesis
      using slice_aligned_bit [OF idx, of "vm_data other" t s count] bitv
      by (simp add: rv st RowIsValid_source_bit [of other])
  next
    case shift
    then obtain t where t: "target_offset = 64 * t" by (elim IsAlignedE)
    obtain sd where sd: "vm_data other = Some sd"
      using res False shift d by (auto simp: SliceInPlace_def Let_def split: option.splits)
    then have "m' = (EnsureWritable m)\<lparr>vm_data := Some (slice_shifted sd target_offset source_offset count d)\<rparr>"
      using res False shift d by (simp add: SliceInPlace_def)
    moreover have "source_offset mod 64 \<noteq> 0" using shift by (simp add: IsAligned_def BITS_PER_VALUE_def)
    ultimately show ?thesis
      using slice_shifted_bit [OF idx, of source_offset sd t count] bitv
      by (simp add: rv t RowIsValid_source_bit [of other] sd)
  next
    case copy
    then have "m' = copy_rows (\<lambda>i. RowIsValid other (source_offset + i)) target_offset count (EnsureWritable m)"
      using res False by (simp add: SliceInPlace_def)
    then show ?thesis
      using copy_rows_effect(3) [of "EnsureWritable m" target_offset count i] cov fits i
      by (simp add: RowIsValid_EnsureWritable)
  qed
qed

lemma SliceInPlace_defined:
  "SliceInPlace other target_offset source_offset count m = None \<longleftrightarrow>
   AllValid other \<and> \<not> AllValid m \<and> \<not> IsAligned source_offset \<and> IsAligned target_offset"
  by (auto simp: SliceInPlace_def AllValid_def Let_def split: option.splits)

lemma SliceMask_rows:
  assumes cov: "mask_covers other (source_offset + count)" and i: "i < count"
  shows "\<exists>m'. SliceMask other source_offset count m = Some m' \<and>
    RowIsValid m' i = RowIsValid other (source_offset + i)"
proof -
  consider "AllValid other" | "\<not> AllValid other" "source_offset = 0" | "\<not> AllValid other" "source_offset \<noteq> 0"
    by blast
  then show ?thesis
  proof cases
    case 3
    let ?m = "\<lparr>vm_data = None, vm_capacity = count\<rparr>"
    obtain m' where m': "SliceInPlace other 0 source_offset count ?m = Some m'"
      using SliceInPlace_defined [of other 0 source_offset count ?m] 3 by fastforce
    then have "RowIsValid m' i = RowIsValid other (source_offset + i)"
      using SliceInPlace_rows [of ?m 0 count other source_offset m' i] i by (simp add: mask_covers_def)
    with 3 m' show ?thesis by (simp add: SliceMask_def)
  qed (auto simp: SliceMask_def AllValid_def RowIsValid_bit)
qed

lemma CopySel_rows:
  assumes cov: "mask_covers m (vm_capacity m)" and fits: "target_offset + n \<le> vm_capacity m"
    and i: "i < vm_capacity m"
  shows "\<exists>m'. CopySel other sel source_offset target_offset n m = Some m' \<and>
    (RowIsValid m' i \<longleftrightarrow>
     (if target_offset \<le> i \<and> i < target_offset + n
      then RowIsValid other (get_index sel (source_offset + (i - target_offset))) else RowIsValid m i))"
proof (cases "AllValid other \<and> AllValid m")
  case True
  then show ?thesis by (auto simp: CopySel_def AllValid_def RowIsValid_bit)
next
  case False
  show ?thesis
  proof (cases "sel = None \<and> IsAligned source_offset \<and> IsAligned target_offset")
    case True
    then obtain m' where m': "SliceInPlace other target_offset source_offset n m = Some m'"
      using SliceInPlace_defined [of other target_offset source_offset n m] by fastforce
    with True False SliceInPlace_rows [OF cov fits m' i] show ?thesis
      by (auto simp: CopySel_def get_index_def)
  next
    case copy: False
    with False copy_rows_effect(3) [OF cov fits i] show ?thesis by (auto simp: CopySel_def)
  qed
qed

section \<open>Serialisation\<close>

text \<open>The flag byte: \<open>BITMASK = 0, VALID_VALUES = 1, INVALID_VALUES = 2\<close>.\<close>

definition BITMASK :: nat where "BITMASK = 0"
definition VALID_VALUES :: nat where "VALID_VALUES = 1"
definition INVALID_VALUES :: nat where "INVALID_VALUES = 2"

definition need_u32 :: "idx_t \<Rightarrow> bool" where
  "need_u32 count \<longleftrightarrow> 65535 \<le> count"

definition bytes_per_value :: "idx_t \<Rightarrow> nat" where
  "bytes_per_value count = (if need_u32 count then 4 else 2)"

definition WriteMask :: "ValidityMask \<Rightarrow> idx_t \<Rightarrow> uint8_t list result" where
  "WriteMask m count =
     (let valid_values = CountValid m count;
          invalid_values = count - valid_values;
          bitmask_bytes = ValidityMaskSize count;
          valid_value_size = bytes_per_value count * valid_values + 4;
          invalid_value_size = bytes_per_value count * invalid_values + 4
      in if valid_value_size < bitmask_bytes \<or> invalid_value_size < bitmask_bytes then
           let serialize_valid = (valid_value_size < invalid_value_size);
               flag = (if serialize_valid then VALID_VALUES else INVALID_VALUES)
           in if 2 ^ 32 \<le> min valid_values invalid_values then
                Inl (InternalException ''Information loss on integer cast'')
              else Inr (write_le 1 flag @ write_le 4 (min valid_values invalid_values) @
                concat (map (write_le (bytes_per_value count))
                  (filter (\<lambda>i. RowIsValid m i = serialize_valid) [0..<count])))
         else Inr (write_le 1 BITMASK @
           (case vm_data m of None \<Rightarrow> []
            | Some d \<Rightarrow> take bitmask_bytes (concat (map (\<lambda>w. write_le 8 (unat w)) d)))))"

text \<open>
  \<open>ReadData(GetData(), n)\<close> into the freshly initialised entries: all of them are overwritten.
\<close>

definition ReadMask :: "ValidityMask \<Rightarrow> idx_t \<Rightarrow> uint8_t list \<Rightarrow> (ValidityMask \<times> uint8_t list) result" where
  "ReadMask m0 count s0 =
     (let m = InitializeCount count m0 in
      case read_le 1 s0 of Inl e \<Rightarrow> Inl e
      | Inr (flag, s1) \<Rightarrow>
          if flag = BITMASK then
            (case read_les 8 (EntryCount count) s1 of Inl e \<Rightarrow> Inl e
             | Inr (d, s2) \<Rightarrow> Inr (m\<lparr>vm_data := Some (map word_of_nat d)\<rparr>, s2))
          else
            let is_valid = (flag = VALID_VALUES) in
            case read_le 4 s1 of Inl e \<Rightarrow> Inl e
            | Inr (serialize_count, s2) \<Rightarrow>
                (case read_les (bytes_per_value count) serialize_count s2 of Inl e \<Rightarrow> Inl e
                 | Inr (indices, s3) \<Rightarrow>
                     Inr (fold (\<lambda>index m. SetRow index is_valid m) indices
                            (if is_valid then SetAllInvalid count m else m), s3)))"

lemma fold_SetRow:
  assumes "mask_covers m (vm_capacity m)" "\<forall>r \<in> set rs. r < vm_capacity m"
  shows "vm_capacity (fold (\<lambda>r m. SetRow r v m) rs m) = vm_capacity m"
    and "i < vm_capacity m \<Longrightarrow>
      RowIsValid (fold (\<lambda>r m. SetRow r v m) rs m) i \<longleftrightarrow> (if i \<in> set rs then v else RowIsValid m i)"
  using assms
proof (induction rs arbitrary: m)
  case (Cons r rs)
  {
    case 1
    with Cons.IH(1) [of "SetRow r v m"] show ?case by simp
  next
    case 2
    with Cons.IH(2) [of "SetRow r v m"] show ?case by (simp add: RowIsValid_SetRow)
  }
qed simp_all

lemma vm_capacity_SetAllInvalid [simp]: "vm_capacity (SetAllInvalid count m) = vm_capacity m"
  by (simp add: SetAllInvalid_def SetRangeInvalid_def Let_def)

lemma mask_covers_SetAllInvalid:
  assumes "mask_covers m (vm_capacity m)"
  shows "mask_covers (SetAllInvalid count m) (vm_capacity m)"
proof -
  obtain d where "vm_data (EnsureWritable m) = Some d" "EntryCount (vm_capacity m) \<le> length d"
    using assms by (rule writable_mask)
  then show ?thesis by (simp add: SetAllInvalid_def SetRangeInvalid_def Let_def mask_covers_def)
qed

lemma RowIsValid_cong_data: "vm_data m = vm_data m' \<Longrightarrow> RowIsValid m i = RowIsValid m' i"
  by (simp add: RowIsValid_bit)

lemma index_width: "count \<le> 2 ^ 32 \<Longrightarrow> i < count \<Longrightarrow> i < 256 ^ bytes_per_value count"
  by (auto simp: bytes_per_value_def need_u32_def)

lemma map_unat_roundtrip [simp]: "map (word_of_nat \<circ> unat) (d :: uint64_t list) = d"
  by (simp add: comp_def)

lemma concat_write_le_take:
  assumes "n \<le> length d"
  shows "take (8 * n) (concat (map (\<lambda>w. write_le 8 (unat w)) d)) =
    concat (map (write_le 8) (map unat (take n d)))"
  using assms
proof (induction d arbitrary: n)
  case (Cons w d)
  then show ?case by (cases n) (simp_all del: write_le.simps)
qed simp

lemma WriteMask_values:
  assumes "serialize_valid = (valid < invalid)" "valid = CountValid m count" "invalid = count - valid"
  shows "length (filter (\<lambda>i. RowIsValid m i = serialize_valid) [0..<count]) = min valid invalid"
proof -
  have "valid + length (filter (\<lambda>i. \<not> RowIsValid m i) [0..<count]) = count"
    using sum_length_filter_compl [of "RowIsValid m" "[0..<count]"] assms by (simp add: CountValid_filter)
  then show ?thesis
    using assms by (cases serialize_valid) (auto simp: CountValid_filter)
qed

lemma WriteMask_defined: "count < 2 ^ 32 \<Longrightarrow> \<exists>bs. WriteMask m count = Inr bs"
  using filter_upt_length_le [of "RowIsValid m" count]
  by (auto simp: WriteMask_def Let_def CountValid_filter)

lemma ReadMask_WriteMask:
  assumes cov: "mask_covers m count" and small: "count \<le> 2 ^ 32"
    and w: "WriteMask m count = Inr bs"
  shows "\<exists>m'. ReadMask m0 count (bs @ s) = Inr (m', s) \<and> vm_capacity m' = count \<and>
    (\<forall>i < count. RowIsValid m' i = RowIsValid m i)"
proof -
  define valid invalid where "valid = CountValid m count" and "invalid = count - valid"
  define bpv where "bpv = bytes_per_value count"
  let ?bitmask = "ValidityMaskSize count"
  show ?thesis
  proof (cases "bpv * valid + 4 < ?bitmask \<or> bpv * invalid + 4 < ?bitmask")
    case True
    define sv where "sv = (valid < invalid)"
    define rows where "rows = filter (\<lambda>i. RowIsValid m i = sv) [0..<count]"
    have bpv: "0 < bpv" by (simp add: bpv_def bytes_per_value_def)
    have len: "length rows = min valid invalid"
      unfolding rows_def by (rule WriteMask_values) (simp_all add: sv_def valid_def invalid_def)
    have small_len: "length rows < 2 ^ 32" and bs: "bs = write_le 1 (if sv then VALID_VALUES else INVALID_VALUES) @
        write_le 4 (length rows) @ concat (map (write_le bpv) rows)"
      using w True bpv len
      by (auto simp: WriteMask_def Let_def sv_def rows_def valid_def [symmetric] invalid_def [symmetric]
          bpv_def [symmetric] simp del: write_le.simps split: if_splits)
    have ids: "\<forall>v \<in> set rows. v < 256 ^ bpv"
      using index_width [OF small] by (auto simp: rows_def bpv_def)
    let ?m = "InitializeCount count m0"
    let ?start = "if sv then SetAllInvalid count ?m else ?m"
    have cap: "vm_capacity ?m = count" by (simp add: InitializeCount_def)
    have start: "mask_covers ?start count" "vm_capacity ?start = count"
      "\<And>i. i < count \<Longrightarrow> RowIsValid ?start i \<longleftrightarrow> \<not> sv"
      using mask_covers_SetAllInvalid [of ?m count] RowIsValid_SetAllInvalid [of ?m count] cap by auto
    have read: "ReadMask m0 count (bs @ s) = Inr (fold (\<lambda>r m. SetRow r sv m) rows ?start, s)"
      using small_len read_les_write [OF ids]
      by (simp add: ReadMask_def Let_def bs read_write_le BITMASK_def VALID_VALUES_def INVALID_VALUES_def
          bpv_def [symmetric] del: write_le.simps read_les.simps)
    have "RowIsValid (fold (\<lambda>r m. SetRow r sv m) rows ?start) i = RowIsValid m i" if "i < count" for i
      using fold_SetRow(2) [of ?start rows i sv] start that by (auto simp: rows_def)
    then show ?thesis
      using read fold_SetRow(1) [of ?start rows sv] start by (auto simp: rows_def)
  next
    case False
    show ?thesis
    proof (cases "vm_data m")
      case None
      then have "valid = count" by (simp add: valid_def CountValid_def AllValid_def)
      moreover have "0 < count \<Longrightarrow> 8 \<le> ?bitmask"
        using entry_index_less [of 0 count] by (simp add: ValidityMaskSize_def)
      ultimately have "count = 0"
        using False by (cases "count = 0") (auto simp: invalid_def)
      then show ?thesis
        using w by (auto simp: WriteMask_def Let_def ReadMask_def ValidityMaskSize_def read_write_le
            EntryCount_def BITS_PER_VALUE_def BITMASK_def InitializeCount_def
            simp del: write_le.simps split: option.splits)
    next
      case (Some d)
      then have n: "EntryCount count \<le> length d" using cov by (simp add: mask_covers_def)
      have unat_less: "unat (x :: uint64_t) < 256 ^ 8" for x
        using unsigned_less [of x] by simp
      have "bs = write_le 1 BITMASK @ concat (map (write_le 8) (map unat (take (EntryCount count) d)))"
        using w False Some concat_write_le_take [OF n]
        by (simp add: WriteMask_def Let_def valid_def [symmetric] invalid_def [symmetric]
          bpv_def [symmetric] ValidityMaskSize_def mult.commute del: write_le.simps)
      moreover have "read_les 8 (EntryCount count)
          (concat (map (write_le 8) (map unat (take (EntryCount count) d))) @ s) =
          Inr (map unat (take (EntryCount count) d), s)"
        using read_les_write [of "map unat (take (EntryCount count) d)" 8 s] n unat_less
        by (simp del: write_le.simps read_les.simps)
      ultimately have "ReadMask m0 count (bs @ s) =
          Inr ((InitializeCount count m0)\<lparr>vm_data := Some (take (EntryCount count) d)\<rparr>, s)"
        by (simp add: ReadMask_def Let_def read_write_le BITMASK_def del: write_le.simps read_les.simps)
      then show ?thesis
        using Some by (auto simp: RowIsValid_bit InitializeCount_def entry_index_less)
    qed
  qed
qed

section \<open>Properties\<close>

text \<open>
  C7. \<open>CountValid\<close>, which skips entries that are all ones, masks the ragged last entry and counts the
  bits of the others with Kernighan's loop, returns the number of valid rows below \<open>count\<close>.
\<close>

theorem CountValid_correct: "CountValid m count = card {i. i < count \<and> RowIsValid m i}"
proof -
  have "{i. i < count \<and> RowIsValid m i} = {i. RowIsValid m i} \<inter> set [0..<count]" by auto
  then show ?thesis by (simp add: CountValid_filter distinct_length_filter)
qed

text \<open>
  C39. \<open>SliceInPlace\<close> copies \<open>count\<close> rows: in each of its three branches (both offsets aligned, only
  the target aligned with every entry put together from two shifted source entries, neither), row \<open>i\<close>
  of the result is the source row for a row of the target range, and unchanged outside of it.
\<close>

theorem SliceInPlace_copies_rows:
  assumes "mask_covers m (vm_capacity m)" and "target_offset + count \<le> vm_capacity m"
    and "SliceInPlace other target_offset source_offset count m = Some m'"
    and "i < vm_capacity m"
  shows "RowIsValid m' i \<longleftrightarrow>
    (if target_offset \<le> i \<and> i < target_offset + count
     then RowIsValid other (source_offset + (i - target_offset)) else RowIsValid m i)"
  using assms by (rule SliceInPlace_rows)

theorem SliceInPlace_copies_rows_witness:
  "let m = \<lparr>vm_data = None, vm_capacity = 128\<rparr>; other = \<lparr>vm_data = Some [5, 6], vm_capacity = 128\<rparr>
   in \<exists>m'. SliceInPlace other 64 2 7 m = Some m' \<and> (RowIsValid m' 64 \<longleftrightarrow> RowIsValid other 2)"
proof -
  let ?m = "\<lparr>vm_data = None, vm_capacity = 128\<rparr>"
  let ?other = "\<lparr>vm_data = Some [5, 6], vm_capacity = 128\<rparr>"
  have "SliceInPlace ?other 64 2 7 ?m \<noteq> None"
    by (simp add: SliceInPlace_defined AllValid_def)
  then obtain m' where m': "SliceInPlace ?other 64 2 7 ?m = Some m'" by blast
  have "RowIsValid m' 64 \<longleftrightarrow> RowIsValid ?other 2"
    using SliceInPlace_copies_rows [OF _ _ m', of 64] by (simp add: mask_covers_def)
  with m' show ?thesis by (simp only: Let_def) blast
qed

text \<open>
  Reading back a written mask gives the same rows and leaves the rest of the stream, whichever of
  the three encodings (bitmask, valid rows, invalid rows; 16 or 32 bit indices) \<open>Write\<close> chose.
\<close>

theorem mask_write_read:
  assumes "mask_covers m count" and "count \<le> 2 ^ 32" and "WriteMask m count = Inr bs"
  shows "\<exists>m'. ReadMask m0 count (bs @ s) = Inr (m', s) \<and> vm_capacity m' = count \<and>
    (\<forall>i < count. RowIsValid m' i = RowIsValid m i)"
  using assms by (rule ReadMask_WriteMask)

theorem mask_write_read_witness:
  "\<exists>bs m'. WriteMask \<lparr>vm_data = Some [7], vm_capacity = 10\<rparr> 10 = Inr bs \<and>
    ReadMask \<lparr>vm_data = None, vm_capacity = 0\<rparr> 10 (bs @ [1]) = Inr (m', [1]) \<and>
    RowIsValid m' 2 \<and> \<not> RowIsValid m' 3"
proof -
  let ?m = "\<lparr>vm_data = Some [7], vm_capacity = 10\<rparr>"
  have rows: "RowIsValid ?m 2" "\<not> RowIsValid ?m 3" by (simp_all add: RowIsValid_bit)
  obtain bs where bs: "WriteMask ?m 10 = Inr bs"
    using WriteMask_defined [of 10 ?m] by auto
  have "\<exists>m'. ReadMask \<lparr>vm_data = None, vm_capacity = 0\<rparr> 10 (bs @ [1]) = Inr (m', [1]) \<and>
      vm_capacity m' = 10 \<and> (\<forall>i < 10. RowIsValid m' i = RowIsValid ?m i)"
    by (rule mask_write_read [OF _ _ bs]) (simp_all add: mask_covers_def EntryCount_def BITS_PER_VALUE_def)
  then show ?thesis using bs rows by auto
qed

text \<open>
  \<open>SetAllInvalid count\<close> makes the rows below \<open>count\<close> invalid, but overwrites the whole last
  entry: the rows from \<open>count\<close> to the end of that entry become valid, whatever they were before; only
  the entries after it are unchanged.
\<close>

theorem SetAllInvalid_rows:
  assumes "mask_covers m (vm_capacity m)" and "0 < count" and "count \<le> vm_capacity m"
    and "i < vm_capacity m"
  shows "RowIsValid (SetAllInvalid count m) i \<longleftrightarrow>
    (if i < count then False else if i div 64 = (count - 1) div 64 then True else RowIsValid m i)"
  using assms by (rule RowIsValid_SetAllInvalid)

theorem SetAllInvalid_rows_witness:
  "\<not> RowIsValid \<lparr>vm_data = Some [0], vm_capacity = 64\<rparr> 10 \<and>
   RowIsValid (SetAllInvalid 5 \<lparr>vm_data = Some [0], vm_capacity = 64\<rparr>) 10"
  using SetAllInvalid_rows [of "\<lparr>vm_data = Some [0], vm_capacity = 64\<rparr>" 5 10]
  by (simp add: mask_covers_def EntryCount_def BITS_PER_VALUE_def RowIsValid_bit)

end
