(* ===== verification/Chunk_Info.thy ===== *)
theory Chunk_Info
  imports Validity_Mask
begin

text \<open>
  \<open>storage/table/chunk_info.cpp\<close>: the version information of one vector of rows. Every row has the
  id of the transaction that inserted it and the id of the one that deleted it; an id at or above
  \<open>TRANSACTION_ID_START\<close> belongs to a running transaction and is replaced by the commit id when that
  transaction commits. \<open>ChunkConstantInfo\<close> keeps one pair for the whole vector, \<open>ChunkVectorInfo\<close>
  an optional array of each kind. The abstraction \<open>inserted_at\<close>/\<open>deleted_at\<close> reads the pair of a
  row; every operation is stated as its effect on these pairs, and the scans and fetches as the
  visibility of the pair to the reading transaction. The \<open>FixedSizeAllocator\<close> segment behind
  \<open>inserted_data\<close> and \<open>deleted_data\<close> belongs to one chunk info and is the list in the option.
\<close>

section \<open>Transaction identifiers and scan options\<close>

type_synonym transaction_t = "64 word"

definition TRANSACTION_ID_START :: transaction_t where
  "TRANSACTION_ID_START = 4611686018427388000"

definition MAX_TRANSACTION_ID :: transaction_t where
  "MAX_TRANSACTION_ID = 18446744073709551615"

definition NOT_DELETED_ID :: transaction_t where
  "NOT_DELETED_ID = MAX_TRANSACTION_ID - 1"

definition STANDARD_VECTOR_SIZE :: idx_t where
  "STANDARD_VECTOR_SIZE = 2048"

record TransactionData =
  transaction_id :: transaction_t
  start_time :: transaction_t

datatype InsertedScanType = INSERTED_STANDARD | ALL_ROWS

datatype DeletedScanType = DELETED_STANDARD | INCLUDE_ALL_DELETED | OMIT_COMMITTED_DELETES

record ScanOptions =
  so_transaction :: TransactionData
  so_insert_type :: InsertedScanType
  so_delete_type :: DeletedScanType

text \<open>\<open>ScanOptions(TransactionData transaction)\<close> with its default members.\<close>

definition ScanOptions_of :: "TransactionData \<Rightarrow> ScanOptions" where
  "ScanOptions_of t =
     \<lparr>so_transaction = t, so_insert_type = INSERTED_STANDARD, so_delete_type = DELETED_STANDARD\<rparr>"

type_synonym version_op = "transaction_t \<Rightarrow> transaction_t \<Rightarrow> transaction_t \<Rightarrow> bool"

definition StandardInsert_UseInsertedVersion :: version_op where
  "StandardInsert_UseInsertedVersion start tid vid \<longleftrightarrow>
     vid < start \<or> vid = tid"

definition IncludeAllInserted_UseInsertedVersion :: version_op where
  "IncludeAllInserted_UseInsertedVersion start tid vid \<longleftrightarrow> True"

definition StandardDelete_IsDeleted :: version_op where
  "StandardDelete_IsDeleted start tid vid \<longleftrightarrow>
     StandardInsert_UseInsertedVersion start tid vid"

definition CommittedDelete_IsDeleted :: version_op where
  "CommittedDelete_IsDeleted start tid vid \<longleftrightarrow> vid < start"

definition IncludeAllDeleted_IsDeleted :: version_op where
  "IncludeAllDeleted_IsDeleted start tid vid \<longleftrightarrow> False"

definition UseVersion :: "TransactionData \<Rightarrow> transaction_t \<Rightarrow> bool" where
  "UseVersion t vid = StandardInsert_UseInsertedVersion (start_time t) (transaction_id t) vid"

lemmas version_op_defs [chunk_defs] =
  StandardInsert_UseInsertedVersion_def IncludeAllInserted_UseInsertedVersion_def
  StandardDelete_IsDeleted_def CommittedDelete_IsDeleted_def IncludeAllDeleted_IsDeleted_def
  UseVersion_def

section \<open>Constant info\<close>

record ChunkConstantInfo =
  cc_start :: idx_t
  insert_id :: transaction_t
  delete_id :: transaction_t

definition ChunkConstantInfo_new :: "idx_t \<Rightarrow> ChunkConstantInfo" where
  "ChunkConstantInfo_new start = \<lparr>cc_start = start, insert_id = 0, delete_id = NOT_DELETED_ID\<rparr>"

definition Constant_TemplatedGetSelVector ::
  "version_op \<Rightarrow> version_op \<Rightarrow> transaction_t \<Rightarrow> transaction_t \<Rightarrow> idx_t \<Rightarrow> ChunkConstantInfo \<Rightarrow> idx_t" where
  "Constant_TemplatedGetSelVector insert_op delete_op start tid max_count c =
     (if insert_op start tid (insert_id c) \<and> \<not> delete_op start tid (delete_id c)
      then max_count else 0)"

definition Constant_GetSelVector :: "ScanOptions \<Rightarrow> idx_t \<Rightarrow> ChunkConstantInfo \<Rightarrow> idx_t" where
  "Constant_GetSelVector options max_count c =
     (let t = so_transaction options in
      if so_insert_type options = INSERTED_STANDARD \<and>
         \<not> StandardInsert_UseInsertedVersion (start_time t) (transaction_id t) (insert_id c) then 0
      else if so_delete_type options = DELETED_STANDARD then
        if StandardDelete_IsDeleted (start_time t) (transaction_id t) (delete_id c) then 0 else max_count
      else if so_delete_type options = OMIT_COMMITTED_DELETES then
        if CommittedDelete_IsDeleted (start_time t) (transaction_id t) (delete_id c) then 0 else max_count
      else max_count)"

definition Constant_Fetch :: "TransactionData \<Rightarrow> idx_t \<Rightarrow> ChunkConstantInfo \<Rightarrow> bool" where
  "Constant_Fetch t row c \<longleftrightarrow> UseVersion t (insert_id c) \<and> \<not> UseVersion t (delete_id c)"

definition Constant_CommitAppend ::
  "transaction_t \<Rightarrow> idx_t \<Rightarrow> idx_t \<Rightarrow> ChunkConstantInfo \<Rightarrow> ChunkConstantInfo" where
  "Constant_CommitAppend commit_id start end_row c = c\<lparr>insert_id := commit_id\<rparr>"

definition Constant_HasDeletes :: "transaction_t \<Rightarrow> ChunkConstantInfo \<Rightarrow> bool" where
  "Constant_HasDeletes tid0 c \<longleftrightarrow>
     (let tid = (if tid0 = MAX_TRANSACTION_ID then TRANSACTION_ID_START - 1
                            else tid0)
      in TRANSACTION_ID_START \<le> insert_id c \<or> delete_id c \<le> tid)"

definition Constant_Cleanup :: "transaction_t \<Rightarrow> ChunkConstantInfo \<Rightarrow> bool" where
  "Constant_Cleanup lowest_transaction c =
     (if delete_id c \<noteq> NOT_DELETED_ID then False
      else if insert_id c > lowest_transaction then False
      else True)"

section \<open>Vector info\<close>

record ChunkVectorInfo =
  cv_start :: idx_t
  inserted_data :: "transaction_t list option"
  constant_insert_id :: transaction_t
  deleted_data :: "transaction_t list option"

definition ChunkVectorInfo_new :: "idx_t \<Rightarrow> transaction_t \<Rightarrow> ChunkVectorInfo" where
  "ChunkVectorInfo_new start insert_id_p =
     \<lparr>cv_start = start, inserted_data = None, constant_insert_id = insert_id_p, deleted_data = None\<rparr>"

definition AnyDeleted :: "ChunkVectorInfo \<Rightarrow> bool" where
  "AnyDeleted c \<longleftrightarrow> deleted_data c \<noteq> None"

definition HasConstantInsertionId :: "ChunkVectorInfo \<Rightarrow> bool" where
  "HasConstantInsertionId c \<longleftrightarrow> inserted_data c = None"

definition ConstantInsertId :: "ChunkVectorInfo \<Rightarrow> transaction_t result" where
  "ConstantInsertId c =
     (if \<not> HasConstantInsertionId c then
        Inl (InternalException ''ConstantInsertId() called but vector info does not have a constant insertion id'')
      else Inr (constant_insert_id c))"

definition GetInsertedPointer :: "ChunkVectorInfo \<Rightarrow> transaction_t list result" where
  "GetInsertedPointer c =
     (case inserted_data c of
        None \<Rightarrow> Inl (InternalException ''ChunkVectorInfo: insert id requested but insertions were not initialized'')
      | Some inserted \<Rightarrow> Inr inserted)"

definition GetDeletedPointer :: "ChunkVectorInfo \<Rightarrow> transaction_t list result" where
  "GetDeletedPointer c =
     (case deleted_data c of
        None \<Rightarrow> Inl (InternalException ''ChunkVectorInfo: deleted id requested but deletions were not initialized'')
      | Some deleted \<Rightarrow> Inr deleted)"

text \<open>Both return the changed info and the segment.\<close>

definition GetInitializedInsertedPointer :: "ChunkVectorInfo \<Rightarrow> ChunkVectorInfo \<times> transaction_t list" where
  "GetInitializedInsertedPointer c =
     (case inserted_data c of
        None \<Rightarrow> let inserted = fill_range 0 STANDARD_VECTOR_SIZE (constant_insert_id c)
                                 (replicate STANDARD_VECTOR_SIZE 0)
                in (c\<lparr>inserted_data := Some inserted\<rparr>, inserted)
      | Some inserted \<Rightarrow> (c, inserted))"

definition GetInitializedDeletedPointer :: "ChunkVectorInfo \<Rightarrow> ChunkVectorInfo \<times> transaction_t list" where
  "GetInitializedDeletedPointer c =
     (case deleted_data c of
        None \<Rightarrow> let deleted = fill_range 0 STANDARD_VECTOR_SIZE NOT_DELETED_ID
                                (replicate STANDARD_VECTOR_SIZE 0)
                in (c\<lparr>deleted_data := Some deleted\<rparr>, deleted)
      | Some deleted \<Rightarrow> (c, deleted))"

text \<open>
  The result is the count and the entries written to the selection vector: none on the paths that
  return \<open>max_count\<close> or 0 without a loop.
\<close>

definition Vector_TemplatedGetSelVector ::
  "version_op \<Rightarrow> version_op \<Rightarrow> transaction_t \<Rightarrow> transaction_t \<Rightarrow> idx_t \<Rightarrow> ChunkVectorInfo
   \<Rightarrow> idx_t \<times> nat list" where
  "Vector_TemplatedGetSelVector insert_op delete_op start tid max_count c =
     (case inserted_data c of
        None \<Rightarrow>
         (case deleted_data c of
            None \<Rightarrow> if insert_op start tid (constant_insert_id c) then (max_count, []) else (0, [])
          | Some deleted \<Rightarrow>
              if \<not> insert_op start tid (constant_insert_id c) then (0, [])
              else sel_loop (\<lambda>i. delete_op start tid (deleted ! i)) 0 max_count 0 [])
      | Some inserted \<Rightarrow>
         (case deleted_data c of
            None \<Rightarrow> sel_loop (\<lambda>i. \<not> insert_op start tid (inserted ! i)) 0 max_count 0 []
          | Some deleted \<Rightarrow>
              sel_loop (\<lambda>i. \<not> insert_op start tid (inserted ! i) \<or>
                            delete_op start tid (deleted ! i)) 0 max_count 0 []))"

definition Vector_GetSelVector :: "ScanOptions \<Rightarrow> idx_t \<Rightarrow> ChunkVectorInfo \<Rightarrow> (idx_t \<times> nat list) result" where
  "Vector_GetSelVector options max_count c =
     (let t = so_transaction options;
          scan = (\<lambda>insert_op delete_op.
            Inr (Vector_TemplatedGetSelVector insert_op delete_op (start_time t) (transaction_id t) max_count c))
      in case (so_insert_type options, so_delete_type options) of
           (INSERTED_STANDARD, DELETED_STANDARD) \<Rightarrow>
             scan StandardInsert_UseInsertedVersion StandardDelete_IsDeleted
         | (INSERTED_STANDARD, INCLUDE_ALL_DELETED) \<Rightarrow>
             scan StandardInsert_UseInsertedVersion IncludeAllDeleted_IsDeleted
         | (INSERTED_STANDARD, OMIT_COMMITTED_DELETES) \<Rightarrow>
             scan StandardInsert_UseInsertedVersion CommittedDelete_IsDeleted
         | (ALL_ROWS, DELETED_STANDARD) \<Rightarrow>
             scan IncludeAllInserted_UseInsertedVersion StandardDelete_IsDeleted
         | (ALL_ROWS, OMIT_COMMITTED_DELETES) \<Rightarrow>
             scan IncludeAllInserted_UseInsertedVersion CommittedDelete_IsDeleted
         | (ALL_ROWS, INCLUDE_ALL_DELETED) \<Rightarrow>
             Inl (InternalException ''Unsupported combination of insert / delete types in ChunkVectorInfo::GetSelVector''))"

definition Vector_Fetch :: "TransactionData \<Rightarrow> idx_t \<Rightarrow> ChunkVectorInfo \<Rightarrow> bool" where
  "Vector_Fetch t row c =
     (let fetch_insert_id = (case inserted_data c of None \<Rightarrow> constant_insert_id c | Some inserted \<Rightarrow> inserted ! row);
          fetch_deleted_id = (case deleted_data c of None \<Rightarrow> NOT_DELETED_ID | Some deleted \<Rightarrow> deleted ! row)
      in UseVersion t fetch_insert_id \<and> \<not> UseVersion t fetch_deleted_id)"

text \<open>
  The loop of \<open>Delete\<close>: \<open>rows\<close> is overwritten in place with the rows that were really deleted. On a
  conflict the loop unsets \<open>rows[0..i)\<close> and throws; the changed array stays in the chunk info.
\<close>

function delete_loop ::
  "transaction_t \<Rightarrow> idx_t \<Rightarrow> idx_t \<Rightarrow> idx_t \<Rightarrow> nat list \<Rightarrow> transaction_t list
   \<Rightarrow> transaction_t list \<times> (nat \<times> nat list) result" where
  "delete_loop tid count i deleted_tuples rows deleted =
     (if i < count then
        if deleted ! (rows ! i) = tid then
          delete_loop tid count (Suc i) deleted_tuples rows deleted
        else if deleted ! (rows ! i) \<noteq> NOT_DELETED_ID then
          (fold (\<lambda>k d. d[rows ! k := NOT_DELETED_ID]) [0..<i] deleted,
           Inl (TransactionException ''Conflict on tuple deletion!''))
        else
          delete_loop tid count (Suc i) (Suc deleted_tuples)
            (rows[deleted_tuples := rows ! i]) (deleted[rows ! i := tid])
      else (deleted, Inr (deleted_tuples, rows)))"
  by pat_completeness auto
termination
  by (relation "measure (\<lambda>(_, count, i, _, _, _). count - i)") auto

declare delete_loop.simps [simp del]

definition Vector_Delete ::
  "transaction_t \<Rightarrow> nat list \<Rightarrow> idx_t \<Rightarrow> ChunkVectorInfo \<Rightarrow> ChunkVectorInfo \<times> (nat \<times> nat list) result" where
  "Vector_Delete tid rows count c =
     (let (c', deleted) = GetInitializedDeletedPointer c;
          (deleted', r) = delete_loop tid count 0 0 rows deleted
      in (c'\<lparr>deleted_data := Some deleted'\<rparr>, r))"

record DeleteInfo =
  di_vector_idx :: idx_t
  di_count :: idx_t
  di_base_row :: idx_t
  is_consecutive :: bool
  di_rows :: "uint16_t list"

definition GetRows :: "DeleteInfo \<Rightarrow> uint16_t list result" where
  "GetRows info =
     (if is_consecutive info then Inl (InternalException ''DeleteInfo is consecutive - rows are not accessible'')
      else Inr (di_rows info))"

definition Vector_CommitDelete :: "transaction_t \<Rightarrow> DeleteInfo \<Rightarrow> ChunkVectorInfo \<Rightarrow> ChunkVectorInfo result" where
  "Vector_CommitDelete commit_id info c =
     (case GetDeletedPointer c of Inl e \<Rightarrow> Inl e
      | Inr deleted \<Rightarrow>
          if is_consecutive info then
            Inr (c\<lparr>deleted_data := Some (fill_range 0 (di_count info) commit_id deleted)\<rparr>)
          else
            (case GetRows info of Inl e \<Rightarrow> Inl e
             | Inr rows \<Rightarrow>
                 Inr (c\<lparr>deleted_data := Some
                   (fold (\<lambda>i d. d[unat (rows ! i) := commit_id]) [0..<di_count info] deleted)\<rparr>)))"

definition Vector_Append :: "idx_t \<Rightarrow> idx_t \<Rightarrow> transaction_t \<Rightarrow> ChunkVectorInfo \<Rightarrow> ChunkVectorInfo" where
  "Vector_Append start end_row commit_id c =
     (if start = 0 then c\<lparr>constant_insert_id := commit_id\<rparr>
      else if HasConstantInsertionId c \<and> constant_insert_id c = commit_id then c
      else
        let (c', inserted) = GetInitializedInsertedPointer c
        in c'\<lparr>inserted_data := Some (fill_range start end_row commit_id inserted)\<rparr>)"

definition Vector_CommitAppend :: "transaction_t \<Rightarrow> idx_t \<Rightarrow> idx_t \<Rightarrow> ChunkVectorInfo \<Rightarrow> ChunkVectorInfo" where
  "Vector_CommitAppend commit_id start end_row c =
     (case inserted_data c of
        None \<Rightarrow> c\<lparr>constant_insert_id := commit_id\<rparr>
      | Some inserted \<Rightarrow> c\<lparr>inserted_data := Some (fill_range start end_row commit_id inserted)\<rparr>)"

definition Vector_Cleanup :: "transaction_t \<Rightarrow> ChunkVectorInfo \<Rightarrow> bool" where
  "Vector_Cleanup lowest_transaction c =
     (if AnyDeleted c then False
      else case inserted_data c of
        Some inserted \<Rightarrow> \<not> (\<exists>idx \<in> set [1..<STANDARD_VECTOR_SIZE]. inserted ! idx > lowest_transaction)
      | None \<Rightarrow> \<not> constant_insert_id c > lowest_transaction)"

definition Vector_HasDeletes :: "transaction_t \<Rightarrow> ChunkVectorInfo \<Rightarrow> bool" where
  "Vector_HasDeletes tid c =
     (case deleted_data c of
        None \<Rightarrow> False
      | Some deleted \<Rightarrow>
          if tid = MAX_TRANSACTION_ID then True
          else \<exists>i \<in> set [0..<STANDARD_VECTOR_SIZE]. deleted ! i \<le> tid)"

section \<open>The base class\<close>

datatype ChunkInfo = ConstantInfo ChunkConstantInfo | VectorInfo ChunkVectorInfo

fun ChunkInfo_GetSelVector :: "ScanOptions \<Rightarrow> idx_t \<Rightarrow> ChunkInfo \<Rightarrow> (idx_t \<times> nat list) result" where
  "ChunkInfo_GetSelVector options max_count (ConstantInfo c) = Inr (Constant_GetSelVector options max_count c, [])"
| "ChunkInfo_GetSelVector options max_count (VectorInfo c) = Vector_GetSelVector options max_count c"

fun ChunkInfo_Fetch :: "TransactionData \<Rightarrow> idx_t \<Rightarrow> ChunkInfo \<Rightarrow> bool" where
  "ChunkInfo_Fetch t row (ConstantInfo c) = Constant_Fetch t row c"
| "ChunkInfo_Fetch t row (VectorInfo c) = Vector_Fetch t row c"

fun ChunkInfo_CommitAppend :: "transaction_t \<Rightarrow> idx_t \<Rightarrow> idx_t \<Rightarrow> ChunkInfo \<Rightarrow> ChunkInfo" where
  "ChunkInfo_CommitAppend commit_id start end_row (ConstantInfo c) =
     ConstantInfo (Constant_CommitAppend commit_id start end_row c)"
| "ChunkInfo_CommitAppend commit_id start end_row (VectorInfo c) =
     VectorInfo (Vector_CommitAppend commit_id start end_row c)"

fun ChunkInfo_Cleanup :: "transaction_t \<Rightarrow> ChunkInfo \<Rightarrow> bool" where
  "ChunkInfo_Cleanup lowest_transaction (ConstantInfo c) = Constant_Cleanup lowest_transaction c"
| "ChunkInfo_Cleanup lowest_transaction (VectorInfo c) = Vector_Cleanup lowest_transaction c"

fun ChunkInfo_HasDeletes :: "transaction_t \<Rightarrow> ChunkInfo \<Rightarrow> bool" where
  "ChunkInfo_HasDeletes tid (ConstantInfo c) = Constant_HasDeletes tid c"
| "ChunkInfo_HasDeletes tid (VectorInfo c) = Vector_HasDeletes tid c"

definition GetCommittedDeletedCount :: "idx_t \<Rightarrow> ChunkInfo \<Rightarrow> idx_t result" where
  "GetCommittedDeletedCount max_count c =
     (let options = (ScanOptions_of \<lparr>transaction_id = 0, start_time = TRANSACTION_ID_START\<rparr>)
            \<lparr>so_insert_type := ALL_ROWS, so_delete_type := OMIT_COMMITTED_DELETES\<rparr>
      in case ChunkInfo_GetSelVector options max_count c of Inl e \<Rightarrow> Inl e
         | Inr (not_deleted_count, _) \<Rightarrow> Inr (max_count - not_deleted_count))"

definition GetCheckpointRowCount :: "TransactionData \<Rightarrow> idx_t \<Rightarrow> ChunkInfo \<Rightarrow> idx_t result" where
  "GetCheckpointRowCount t max_count c =
     (let options = (ScanOptions_of t)\<lparr>so_delete_type := INCLUDE_ALL_DELETED\<rparr>
      in case ChunkInfo_GetSelVector options max_count c of Inl e \<Rightarrow> Inl e | Inr (n, _) \<Rightarrow> Inr n)"

section \<open>Serialisation\<close>

text \<open>The type byte: \<open>CONSTANT_INFO = 0, VECTOR_INFO = 1, EMPTY_INFO = 2\<close>.\<close>

definition CONSTANT_INFO :: nat where "CONSTANT_INFO = 0"
definition VECTOR_INFO :: nat where "VECTOR_INFO = 1"
definition EMPTY_INFO :: nat where "EMPTY_INFO = 2"

definition Constant_Write :: "transaction_t \<Rightarrow> ChunkConstantInfo \<Rightarrow> uint8_t list" where
  "Constant_Write checkpoint_id c = write_le 1 CONSTANT_INFO @ write_le 8 (cc_start c)"

definition Constant_Read :: "uint8_t list \<Rightarrow> (ChunkConstantInfo \<times> uint8_t list) result" where
  "Constant_Read s =
     (case read_le 8 s of Inl e \<Rightarrow> Inl e
      | Inr (start, s') \<Rightarrow> Inr ((ChunkConstantInfo_new start)\<lparr>insert_id := 0, delete_id := 0\<rparr>, s'))"

definition checkpoint_reader :: "transaction_t \<Rightarrow> TransactionData" where
  "checkpoint_reader checkpoint_id =
     \<lparr>transaction_id = 18446744073709551615,
      start_time = (if checkpoint_id = MAX_TRANSACTION_ID then TRANSACTION_ID_START - 1
                    else checkpoint_id + 1)\<rparr>"

definition Vector_Write :: "transaction_t \<Rightarrow> ChunkVectorInfo \<Rightarrow> uint8_t list result" where
  "Vector_Write checkpoint_id c =
     (case Vector_GetSelVector (ScanOptions_of (checkpoint_reader checkpoint_id)) STANDARD_VECTOR_SIZE c of
        Inl e \<Rightarrow> Inl e
      | Inr (count, sel) \<Rightarrow>
          if count = STANDARD_VECTOR_SIZE then Inr (write_le 1 EMPTY_INFO)
          else if count = 0 then Inr (write_le 1 CONSTANT_INFO @ write_le 8 (cv_start c))
          else
            let vmask0 = InitializeCount STANDARD_VECTOR_SIZE
                          \<lparr>vm_data = None, vm_capacity = STANDARD_VECTOR_SIZE\<rparr>;
                vmask = fold (\<lambda>i m. SetInvalid (sel ! i) m) [0..<count] vmask0
            in case WriteMask vmask STANDARD_VECTOR_SIZE of Inl e \<Rightarrow> Inl e
               | Inr bs \<Rightarrow> Inr (write_le 1 VECTOR_INFO @ write_le 8 (cv_start c) @ bs))"

definition Vector_Read :: "uint8_t list \<Rightarrow> (ChunkVectorInfo \<times> uint8_t list) result" where
  "Vector_Read s =
     (case read_le 8 s of Inl e \<Rightarrow> Inl e
      | Inr (start, s1) \<Rightarrow>
          (case ReadMask \<lparr>vm_data = None, vm_capacity = STANDARD_VECTOR_SIZE\<rparr> STANDARD_VECTOR_SIZE s1 of
             Inl e \<Rightarrow> Inl e
           | Inr (vmask, s2) \<Rightarrow>
               let (c, deleted) = GetInitializedDeletedPointer (ChunkVectorInfo_new start 0);
                   deleted' = fold (\<lambda>i d. if RowIsValid vmask i then d[i := 0] else d)
                                [0..<STANDARD_VECTOR_SIZE] deleted
               in Inr (c\<lparr>deleted_data := Some deleted'\<rparr>, s2)))"

fun ChunkInfo_Write :: "transaction_t \<Rightarrow> ChunkInfo \<Rightarrow> uint8_t list result" where
  "ChunkInfo_Write checkpoint_id (ConstantInfo c) = Inr (Constant_Write checkpoint_id c)"
| "ChunkInfo_Write checkpoint_id (VectorInfo c) = Vector_Write checkpoint_id c"

text \<open>\<open>None\<close> is the null pointer: no version information.\<close>

definition ChunkInfo_Read :: "uint8_t list \<Rightarrow> (ChunkInfo option \<times> uint8_t list) result" where
  "ChunkInfo_Read s =
     (case read_le 1 s of Inl e \<Rightarrow> Inl e
      | Inr (type, s1) \<Rightarrow>
          if type = EMPTY_INFO then Inr (None, s1)
          else if type = CONSTANT_INFO then
            (case Constant_Read s1 of Inl e \<Rightarrow> Inl e | Inr (c, s2) \<Rightarrow> Inr (Some (ConstantInfo c), s2))
          else if type = VECTOR_INFO then
            (case Vector_Read s1 of Inl e \<Rightarrow> Inl e | Inr (c, s2) \<Rightarrow> Inr (Some (VectorInfo c), s2))
          else Inl (SerializationException ''Could not deserialize Chunk Info Type: unrecognized type''))"

section \<open>The abstract row versions\<close>

definition const_inserted_at :: "ChunkConstantInfo \<Rightarrow> idx_t \<Rightarrow> transaction_t" where
  [chunk_abs]: "const_inserted_at c row = insert_id c"

definition const_deleted_at :: "ChunkConstantInfo \<Rightarrow> idx_t \<Rightarrow> transaction_t" where
  [chunk_abs]: "const_deleted_at c row = delete_id c"

definition vec_inserted_at :: "ChunkVectorInfo \<Rightarrow> idx_t \<Rightarrow> transaction_t" where
  "vec_inserted_at c row = (case inserted_data c of None \<Rightarrow> constant_insert_id c | Some a \<Rightarrow> a ! row)"

definition vec_deleted_at :: "ChunkVectorInfo \<Rightarrow> idx_t \<Rightarrow> transaction_t" where
  "vec_deleted_at c row = (case deleted_data c of None \<Rightarrow> NOT_DELETED_ID | Some a \<Rightarrow> a ! row)"

fun inserted_at :: "ChunkInfo \<Rightarrow> idx_t \<Rightarrow> transaction_t" where
  "inserted_at (ConstantInfo c) row = const_inserted_at c row"
| "inserted_at (VectorInfo c) row = vec_inserted_at c row"

fun deleted_at :: "ChunkInfo \<Rightarrow> idx_t \<Rightarrow> transaction_t" where
  "deleted_at (ConstantInfo c) row = const_deleted_at c row"
| "deleted_at (VectorInfo c) row = vec_deleted_at c row"

text \<open>The arrays have one entry per row of the vector.\<close>

definition vec_wf :: "ChunkVectorInfo \<Rightarrow> bool" where
  "vec_wf c \<longleftrightarrow>
     (\<forall>a. inserted_data c = Some a \<longrightarrow> length a = STANDARD_VECTOR_SIZE) \<and>
     (\<forall>a. deleted_data c = Some a \<longrightarrow> length a = STANDARD_VECTOR_SIZE)"

fun chunk_wf :: "ChunkInfo \<Rightarrow> bool" where
  "chunk_wf (ConstantInfo c) = True"
| "chunk_wf (VectorInfo c) = vec_wf c"

text \<open>
  The visibility rule: a version is used by a transaction when it was committed before the start of
  the transaction or is the transaction's own; a row is visible when its insertion is used and its
  deletion is not.
\<close>

definition row_visible :: "TransactionData \<Rightarrow> transaction_t \<Rightarrow> transaction_t \<Rightarrow> bool" where
  "row_visible t ins del \<longleftrightarrow>
     (ins < start_time t \<or> ins = transaction_id t) \<and> \<not> (del < start_time t \<or> del = transaction_id t)"

definition row_selected :: "ScanOptions \<Rightarrow> transaction_t \<Rightarrow> transaction_t \<Rightarrow> bool" where
  "row_selected options ins del \<longleftrightarrow>
     (let t = so_transaction options in
      (so_insert_type options = INSERTED_STANDARD \<longrightarrow> ins < start_time t \<or> ins = transaction_id t) \<and>
      (case so_delete_type options of
         DELETED_STANDARD \<Rightarrow> \<not> (del < start_time t \<or> del = transaction_id t)
       | OMIT_COMMITTED_DELETES \<Rightarrow> \<not> del < start_time t
       | INCLUDE_ALL_DELETED \<Rightarrow> True))"

text \<open>
  No reader starts after, or is called, the marker of a row that is not deleted; a scan that looks at
  no deletion id does not need this.
\<close>

definition valid_reader :: "TransactionData \<Rightarrow> bool" where
  "valid_reader t \<longleftrightarrow> start_time t \<le> NOT_DELETED_ID \<and> transaction_id t \<noteq> NOT_DELETED_ID"

definition valid_scan :: "ScanOptions \<Rightarrow> bool" where
  "valid_scan options \<longleftrightarrow>
     valid_reader (so_transaction options) \<or> so_delete_type options = INCLUDE_ALL_DELETED"

lemma row_selected_standard: "row_selected (ScanOptions_of t) ins del = row_visible t ins del"
  by (simp add: row_selected_def row_visible_def ScanOptions_of_def)

lemma not_deleted_visible [simp]:
  "valid_reader t \<Longrightarrow> \<not> (NOT_DELETED_ID < start_time t \<or> NOT_DELETED_ID = transaction_id t)"
  by (auto simp: valid_reader_def)

section \<open>The interface of the virtual methods\<close>

text \<open>
  What the row version manager relies on when it calls the virtual methods of \<open>ChunkInfo\<close>, with the
  row versions of the representation as \<open>ins\<close> and \<open>del\<close>.
\<close>

locale versioned_chunk =
  fixes ins :: "'c \<Rightarrow> idx_t \<Rightarrow> transaction_t"
    and del :: "'c \<Rightarrow> idx_t \<Rightarrow> transaction_t"
    and sel_vector :: "ScanOptions \<Rightarrow> idx_t \<Rightarrow> 'c \<Rightarrow> (idx_t \<times> nat list) result"
    and fetch :: "TransactionData \<Rightarrow> idx_t \<Rightarrow> 'c \<Rightarrow> bool"
    and cleanup :: "transaction_t \<Rightarrow> 'c \<Rightarrow> bool"
  assumes fetch_visible:
      "fetch t row c \<longleftrightarrow> row_visible t (ins c row) (del c row)"
    and sel_vector_rows: "valid_scan options \<Longrightarrow> sel_vector options n c = Inr (k, sel) \<Longrightarrow>
      k = length (filter (\<lambda>r. row_selected options (ins c r) (del c r)) [0..<n]) \<and>
      (0 < k \<longrightarrow> k < n \<longrightarrow> sel = filter (\<lambda>r. row_selected options (ins c r) (del c r)) [0..<n])"
    and sel_vector_defined:
      "sel_vector options n c = Inl e \<Longrightarrow>
       so_insert_type options = ALL_ROWS \<and> so_delete_type options = INCLUDE_ALL_DELETED"
    and cleanup_rows: "cleanup lowest c \<Longrightarrow> 0 < row \<Longrightarrow> row < STANDARD_VECTOR_SIZE \<Longrightarrow>
      ins c row \<le> lowest \<and> del c row = NOT_DELETED_ID"
begin

lemma scan_is_fetch:
  assumes "valid_reader t" "sel_vector (ScanOptions_of t) n c = Inr (k, sel)"
  shows "k = card {r. r < n \<and> fetch t r c}"
    and "0 < k \<Longrightarrow> k < n \<Longrightarrow> sel = filter (\<lambda>r. fetch t r c) [0..<n]"
proof -
  have f: "fetch t r c = row_selected (ScanOptions_of t) (ins c r) (del c r)" for r
    using fetch_visible [of t r c] by (simp add: row_selected_standard)
  have "{r. r < n \<and> fetch t r c} = {r. fetch t r c} \<inter> set [0..<n]" by auto
  then have "card {r. r < n \<and> fetch t r c} = length (filter (\<lambda>r. fetch t r c) [0..<n])"
    by (simp add: distinct_length_filter)
  then show "k = card {r. r < n \<and> fetch t r c}"
    and "0 < k \<Longrightarrow> k < n \<Longrightarrow> sel = filter (\<lambda>r. fetch t r c) [0..<n]"
    using sel_vector_rows [OF _ assms(2)] assms(1) by (simp_all add: f valid_scan_def ScanOptions_of_def)
qed

lemma cleanup_visible:
  assumes "cleanup lowest c" "lowest < start_time t" "valid_reader t" "0 < row" "row < STANDARD_VECTOR_SIZE"
  shows "fetch t row c"
proof -
  have "ins c row < start_time t" "del c row = NOT_DELETED_ID"
    using cleanup_rows [OF assms(1,4,5)] assms(2) by auto
  then show ?thesis
    using fetch_visible [of t row c] not_deleted_visible [OF assms(3)]
    by (auto simp: row_visible_def)
qed

end

lemma Vector_Fetch_visible: "Vector_Fetch t row c = row_visible t (vec_inserted_at c row) (vec_deleted_at c row)"
  by (simp add: Vector_Fetch_def Let_def row_visible_def vec_inserted_at_def vec_deleted_at_def chunk_defs)

lemma Constant_Fetch_visible:
  "Constant_Fetch t row c = row_visible t (const_inserted_at c row) (const_deleted_at c row)"
  by (simp add: Constant_Fetch_def row_visible_def chunk_defs chunk_abs)

lemma filter_upt_const: "filter (\<lambda>r. P) [0..<n] = (if P then [0..<n] else [])"
  by simp

lemma Vector_TemplatedGetSelVector_rows:
  assumes "Vector_TemplatedGetSelVector iop dop start tid n c = (k, sel)"
    and "\<not> dop start tid NOT_DELETED_ID"
  shows "k = length (filter (\<lambda>r. iop start tid (vec_inserted_at c r) \<and> \<not> dop start tid (vec_deleted_at c r)) [0..<n])"
    and "0 < k \<Longrightarrow> k < n \<Longrightarrow>
      sel = filter (\<lambda>r. iop start tid (vec_inserted_at c r) \<and> \<not> dop start tid (vec_deleted_at c r)) [0..<n]"
  using assms
  by (auto simp: Vector_TemplatedGetSelVector_def vec_inserted_at_def vec_deleted_at_def sel_loop_filter
      split: option.splits if_splits)

lemma Vector_GetSelVector_rows:
  assumes "valid_scan options" "Vector_GetSelVector options n c = Inr (k, sel)"
  shows "k = length (filter (\<lambda>r. row_selected options (vec_inserted_at c r) (vec_deleted_at c r)) [0..<n]) \<and>
    (0 < k \<longrightarrow> k < n \<longrightarrow>
     sel = filter (\<lambda>r. row_selected options (vec_inserted_at c r) (vec_deleted_at c r)) [0..<n])"
proof -
  let ?t = "so_transaction options"
  let ?iop = "case so_insert_type options of INSERTED_STANDARD \<Rightarrow> StandardInsert_UseInsertedVersion
    | ALL_ROWS \<Rightarrow> IncludeAllInserted_UseInsertedVersion"
  let ?dop = "case so_delete_type options of DELETED_STANDARD \<Rightarrow> StandardDelete_IsDeleted
    | INCLUDE_ALL_DELETED \<Rightarrow> IncludeAllDeleted_IsDeleted | OMIT_COMMITTED_DELETES \<Rightarrow> CommittedDelete_IsDeleted"
  have scan: "Vector_TemplatedGetSelVector ?iop ?dop (start_time ?t) (transaction_id ?t) n c = (k, sel)"
    using assms(2) by (auto simp: Vector_GetSelVector_def Let_def
        split: InsertedScanType.splits DeletedScanType.splits)
  have nd: "\<not> ?dop (start_time ?t) (transaction_id ?t) NOT_DELETED_ID"
  proof (cases "so_delete_type options = INCLUDE_ALL_DELETED")
    case False
    then have "valid_reader ?t" using assms(1) by (simp add: valid_scan_def)
    from not_deleted_visible [OF this] show ?thesis by (auto simp: chunk_defs split: DeletedScanType.splits)
  qed (simp add: chunk_defs)
  have "row_selected options i d \<longleftrightarrow>
      ?iop (start_time ?t) (transaction_id ?t) i \<and> \<not> ?dop (start_time ?t) (transaction_id ?t) d" for i d
    by (auto simp: row_selected_def Let_def chunk_defs split: InsertedScanType.splits DeletedScanType.splits)
  then show ?thesis
    using Vector_TemplatedGetSelVector_rows [OF scan nd] by simp
qed

lemma Vector_GetSelVector_defined:
  "(\<exists>e. Vector_GetSelVector options n c = Inl e) \<longleftrightarrow>
   so_insert_type options = ALL_ROWS \<and> so_delete_type options = INCLUDE_ALL_DELETED"
  by (auto simp: Vector_GetSelVector_def Let_def split: InsertedScanType.splits DeletedScanType.splits)

lemma Constant_GetSelVector_rows:
  assumes "Constant_GetSelVector options n c = k"
  shows "k = length (filter (\<lambda>r. row_selected options (const_inserted_at c r) (const_deleted_at c r)) [0..<n])"
    and "k = 0 \<or> k = n"
  using assms
  by (auto simp: Constant_GetSelVector_def row_selected_def Let_def chunk_defs chunk_abs
      split: if_splits DeletedScanType.splits)

lemma Constant_Cleanup_rows:
  "Constant_Cleanup lowest c \<Longrightarrow> const_inserted_at c row \<le> lowest \<and> const_deleted_at c row = NOT_DELETED_ID"
  by (auto simp: Constant_Cleanup_def chunk_abs split: if_splits)

lemma Vector_Cleanup_rows:
  "Vector_Cleanup lowest c \<Longrightarrow> 0 < row \<Longrightarrow> row < STANDARD_VECTOR_SIZE \<Longrightarrow>
   vec_inserted_at c row \<le> lowest \<and> vec_deleted_at c row = NOT_DELETED_ID"
  by (auto simp: Vector_Cleanup_def vec_inserted_at_def vec_deleted_at_def AnyDeleted_def not_less
      split: if_splits option.splits)

interpretation const_chunk: versioned_chunk const_inserted_at const_deleted_at
  "\<lambda>options n c. Inr (Constant_GetSelVector options n c, [])" Constant_Fetch Constant_Cleanup
proof unfold_locales
  fix options n c k sel
  assume "Inr (Constant_GetSelVector options n c, []) = (Inr (k, sel) :: (idx_t \<times> nat list) result)"
  then have "Constant_GetSelVector options n c = k" by simp
  then show "k = length (filter (\<lambda>r. row_selected options (const_inserted_at c r) (const_deleted_at c r)) [0..<n]) \<and>
      (0 < k \<longrightarrow> k < n \<longrightarrow>
       sel = filter (\<lambda>r. row_selected options (const_inserted_at c r) (const_deleted_at c r)) [0..<n])"
    using Constant_GetSelVector_rows [of options n c k] by auto
qed (simp_all add: Constant_Fetch_visible Constant_Cleanup_rows)

interpretation vec_chunk: versioned_chunk vec_inserted_at vec_deleted_at
  Vector_GetSelVector Vector_Fetch Vector_Cleanup
  by unfold_locales
     (auto simp: Vector_Fetch_visible Vector_Cleanup_rows
       dest: Vector_GetSelVector_rows intro: Vector_GetSelVector_defined [THEN iffD1, THEN conjunct1]
         Vector_GetSelVector_defined [THEN iffD1, THEN conjunct2])

text \<open>The base class dispatches to one of the two.\<close>

interpretation chunk: versioned_chunk inserted_at deleted_at
  ChunkInfo_GetSelVector ChunkInfo_Fetch ChunkInfo_Cleanup
proof unfold_locales
  fix t row c
  show "ChunkInfo_Fetch t row c = row_visible t (inserted_at c row) (deleted_at c row)"
    by (cases c) (simp_all add: Constant_Fetch_visible Vector_Fetch_visible)
next
  fix options n c k sel
  assume "valid_scan options" "ChunkInfo_GetSelVector options n c = Inr (k, sel)"
  then show "k = length (filter (\<lambda>r. row_selected options (inserted_at c r) (deleted_at c r)) [0..<n]) \<and>
      (0 < k \<longrightarrow> k < n \<longrightarrow> sel = filter (\<lambda>r. row_selected options (inserted_at c r) (deleted_at c r)) [0..<n])"
    using const_chunk.sel_vector_rows vec_chunk.sel_vector_rows by (cases c) auto
next
  fix options n c e
  assume "ChunkInfo_GetSelVector options n c = Inl e"
  then show "so_insert_type options = ALL_ROWS \<and> so_delete_type options = INCLUDE_ALL_DELETED"
    using vec_chunk.sel_vector_defined by (cases c) auto
next
  fix lowest c row
  assume "ChunkInfo_Cleanup lowest c" "0 < row" "row < STANDARD_VECTOR_SIZE"
  then show "inserted_at c row \<le> lowest \<and> deleted_at c row = NOT_DELETED_ID"
    using const_chunk.cleanup_rows vec_chunk.cleanup_rows by (cases c) auto
qed

section \<open>Effects of the operations\<close>

lemma GetInitializedDeletedPointer_eq:
  assumes "vec_wf c" "GetInitializedDeletedPointer c = (c', deleted)"
  shows "length deleted = STANDARD_VECTOR_SIZE" "c' = c\<lparr>deleted_data := Some deleted\<rparr>"
    and "r < STANDARD_VECTOR_SIZE \<Longrightarrow> deleted ! r = vec_deleted_at c r"
  using assms
  by (auto simp: GetInitializedDeletedPointer_def vec_wf_def vec_deleted_at_def Let_def nth_fill_range
      split: option.splits)

lemma GetInitializedInsertedPointer_eq:
  assumes "vec_wf c" "GetInitializedInsertedPointer c = (c', inserted)"
  shows "length inserted = STANDARD_VECTOR_SIZE" "c' = c\<lparr>inserted_data := Some inserted\<rparr>"
    and "r < STANDARD_VECTOR_SIZE \<Longrightarrow> inserted ! r = vec_inserted_at c r"
  using assms
  by (auto simp: GetInitializedInsertedPointer_def vec_wf_def vec_inserted_at_def Let_def nth_fill_range
      split: option.splits)

lemma Append_effect:
  assumes "vec_wf c" "start = 0 \<Longrightarrow> HasConstantInsertionId c" "r < STANDARD_VECTOR_SIZE"
  shows "vec_inserted_at (Vector_Append start e commit_id c) r =
      (if start = 0 \<or> start \<le> r \<and> r < e \<or> (HasConstantInsertionId c \<and> constant_insert_id c = commit_id)
       then commit_id else vec_inserted_at c r)"
    and "vec_deleted_at (Vector_Append start e commit_id c) r = vec_deleted_at c r"
    and "vec_wf (Vector_Append start e commit_id c)"
proof -
  obtain c' ins where p: "GetInitializedInsertedPointer c = (c', ins)" by fastforce
  note eq = GetInitializedInsertedPointer_eq [OF assms(1) p]
  show "vec_inserted_at (Vector_Append start e commit_id c) r =
      (if start = 0 \<or> start \<le> r \<and> r < e \<or> (HasConstantInsertionId c \<and> constant_insert_id c = commit_id)
       then commit_id else vec_inserted_at c r)"
    using assms eq
    by (auto simp: Vector_Append_def p Let_def vec_inserted_at_def HasConstantInsertionId_def nth_fill_range
        split: option.splits)
  show "vec_deleted_at (Vector_Append start e commit_id c) r = vec_deleted_at c r"
    using eq by (simp add: Vector_Append_def p vec_deleted_at_def)
  show "vec_wf (Vector_Append start e commit_id c)"
    using assms(1) eq by (auto simp: Vector_Append_def p vec_wf_def)
qed

lemma Vector_CommitAppend_effect:
  assumes "vec_wf c" "r < STANDARD_VECTOR_SIZE"
  shows "vec_inserted_at (Vector_CommitAppend commit_id start e c) r =
      (if HasConstantInsertionId c \<or> start \<le> r \<and> r < e then commit_id else vec_inserted_at c r)"
    and "vec_deleted_at (Vector_CommitAppend commit_id start e c) r = vec_deleted_at c r"
    and "vec_wf (Vector_CommitAppend commit_id start e c)"
  using assms
  by (auto simp: Vector_CommitAppend_def vec_inserted_at_def vec_deleted_at_def vec_wf_def
      HasConstantInsertionId_def nth_fill_range split: option.splits)

lemma length_fold_index_update [simp]:
  "length (fold (\<lambda>k d. d[f k := v]) ks dl) = length dl"
  by (induction ks arbitrary: dl) auto

lemma nth_fold_index_update:
  "r < length dl \<Longrightarrow> fold (\<lambda>k d. d[f k := v]) ks dl ! r = (if r \<in> f ` set ks then v else dl ! r)"
  by (induction ks arbitrary: dl) (auto simp: nth_list_update)

definition committed_rows :: "DeleteInfo \<Rightarrow> nat set" where
  "committed_rows info =
     (if is_consecutive info then {..<di_count info} else unat ` set (take (di_count info) (di_rows info)))"

lemma image_nth_take: "n \<le> length xs \<Longrightarrow> (\<lambda>i. f (xs ! i)) ` set [0..<n] = f ` set (take n xs)"
proof -
  assume "n \<le> length xs"
  then have "take n xs = map (\<lambda>i. xs ! i) [0..<n]" by (intro nth_equalityI) auto
  then show ?thesis by (simp add: image_image)
qed

lemma Vector_CommitDelete_effect:
  assumes "vec_wf c" "is_consecutive info \<or> di_count info \<le> length (di_rows info)"
    and "Vector_CommitDelete commit_id info c = Inr c'" "r < STANDARD_VECTOR_SIZE"
  shows "vec_deleted_at c' r = (if r \<in> committed_rows info then commit_id else vec_deleted_at c r)"
    and "vec_inserted_at c' r = vec_inserted_at c r" and "vec_wf c'"
  using assms image_nth_take [of "di_count info" "di_rows info" unat]
  by (auto simp: Vector_CommitDelete_def GetDeletedPointer_def GetRows_def committed_rows_def vec_deleted_at_def
      vec_inserted_at_def vec_wf_def nth_fill_range nth_fold_index_update split: option.splits if_splits)

subsection \<open>The delete loop\<close>

lemma delete_loop_ok:
  assumes "delete_loop tid count i dt rows dl = (dl', Inr (k, rows'))"
    and "dt \<le> i" "i \<le> count" "count \<le> length rows"
    and "\<forall>r \<in> set rows. r < length dl" "\<forall>r \<in> set (take dt rows). dl ! r = tid" "distinct (take dt rows)"
  shows "length dl' = length dl \<and>
    (\<forall>r < length dl. dl' ! r = (if r \<in> set (drop i (take count rows)) then tid else dl ! r)) \<and>
    dt \<le> k \<and> k \<le> count \<and> length rows' = length rows \<and> distinct (take k rows') \<and>
    set (take k rows') = set (take dt rows) \<union> {r \<in> set (drop i (take count rows)). dl ! r \<noteq> tid}"
  using assms
proof (induction tid count i dt rows dl rule: delete_loop.induct)
  case (1 tid count i dt rows dl)
  show ?case
  proof (cases "i < count")
    case False
    with 1 show ?thesis by (simp add: delete_loop.simps [of tid count i])
  next
    case True
    define r0 where "r0 = rows ! i"
    have r0: "r0 < length dl" "drop i (take count rows) = r0 # drop (Suc i) (take count rows)"
      using True 1 by (auto simp: r0_def Cons_nth_drop_Suc [symmetric])
    show ?thesis
    proof (cases "dl ! r0 = tid")
      case own: True
      have "delete_loop tid count (Suc i) dt rows dl = (dl', Inr (k, rows'))"
        using "1.prems"(1) True own by (simp add: delete_loop.simps [of tid count i] r0_def)
      then show ?thesis
        using "1.IH"(1) True own "1.prems" r0 by (auto simp: r0_def)
    next
      case new: False
      then have nd: "dl ! r0 = NOT_DELETED_ID"
        using "1.prems"(1) True by (auto simp: delete_loop.simps [of tid count i] r0_def split: if_splits)
      let ?rows = "rows[dt := r0]" and ?dl = "dl[r0 := tid]"
      have step: "delete_loop tid count (Suc i) (Suc dt) ?rows ?dl = (dl', Inr (k, rows'))"
        using "1.prems"(1) True new nd by (simp add: delete_loop.simps [of tid count i] r0_def)
      have dt: "dt < length rows" using True "1.prems" by simp
      have drop_eq: "drop (Suc i) (take count ?rows) = drop (Suc i) (take count rows)"
        using "1.prems"(2) by (simp add: take_update_swap drop_update_cancel)
      have take_eq: "take (Suc dt) ?rows = take dt rows @ [r0]"
        using dt by (simp add: take_Suc_conv_app_nth)
      have fresh: "r0 \<notin> set (take dt rows)" using "1.prems"(6) new by blast
      have bound: "\<forall>r \<in> set ?rows. r < length ?dl"
        using "1.prems"(5) r0 set_update_subset_insert [of rows dt r0] by auto
      have pre: "\<forall>r \<in> set (take (Suc dt) ?rows). ?dl ! r = tid"
      proof
        fix r assume "r \<in> set (take (Suc dt) ?rows)"
        then have "r = r0 \<or> r \<in> set (take dt rows)" by (auto simp: take_eq)
        then show "?dl ! r = tid" using "1.prems"(6) r0 by (auto simp: nth_list_update)
      qed
      have dist: "distinct (take (Suc dt) ?rows)" using "1.prems"(7) fresh by (simp add: take_eq)
      note IH = "1.IH"(2) [OF True, unfolded r0_def [symmetric], OF new _ step _ _ _ bound pre dist]
      have "length dl' = length ?dl \<and>
        (\<forall>r < length ?dl. dl' ! r = (if r \<in> set (drop (Suc i) (take count ?rows)) then tid else ?dl ! r)) \<and>
        Suc dt \<le> k \<and> k \<le> count \<and> length rows' = length ?rows \<and> distinct (take k rows') \<and>
        set (take k rows') = set (take (Suc dt) ?rows) \<union> {r \<in> set (drop (Suc i) (take count ?rows)). ?dl ! r \<noteq> tid}"
        by (rule IH) (use nd True "1.prems" in simp_all)
      then show ?thesis
        unfolding drop_eq take_eq using r0 new by (auto simp: nth_list_update)
    qed
  qed
qed

lemma delete_loop_step:
  assumes "i < count" "dt \<le> i" "count \<le> length rows" "\<forall>r \<in> set rows. r < length dl"
  shows "rows ! i < length dl" and "drop i (take count rows) = rows ! i # drop (Suc i) (take count rows)"
    and "drop (Suc i) (take count (rows[dt := v])) = drop (Suc i) (take count rows)"
    and "take (Suc i) (rows[dt := v]) = (take i rows)[dt := v] @ (if dt = i then [v] else [rows ! i])"
  using assms
  by (auto simp: Cons_nth_drop_Suc [symmetric] take_update_swap drop_update_cancel take_Suc_conv_app_nth
      nth_list_update list_update_append list_update_beyond)

lemma delete_loop_error:
  assumes "tid \<noteq> NOT_DELETED_ID" "dt \<le> i" "i \<le> count" "count \<le> length rows" "\<forall>r \<in> set rows. r < length dl"
  shows "(\<exists>e. snd (delete_loop tid count i dt rows dl) = Inl e) \<longleftrightarrow>
    (\<exists>r \<in> set (drop i (take count rows)). dl ! r \<noteq> tid \<and> dl ! r \<noteq> NOT_DELETED_ID)"
  using assms
proof (induction tid count i dt rows dl rule: delete_loop.induct)
  case (1 tid count i dt rows dl)
  show ?case
  proof (cases "i < count")
    case False
    with 1 show ?thesis by (subst delete_loop.simps) simp
  next
    case True
    note st = delete_loop_step [OF True "1.prems"(2,4,5)]
    consider "dl ! (rows ! i) = tid" | "dl ! (rows ! i) = NOT_DELETED_ID" "dl ! (rows ! i) \<noteq> tid"
      | "dl ! (rows ! i) \<noteq> tid" "dl ! (rows ! i) \<noteq> NOT_DELETED_ID" by blast
    then show ?thesis
    proof cases
      case 1
      then show ?thesis
        using "1.IH"(1) True "1.prems" st by (simp add: delete_loop.simps [of tid count i])
    next
      case 2
      let ?rows = "rows[dt := rows ! i]" and ?dl = "dl[rows ! i := tid]"
      have b: "\<forall>r \<in> set ?rows. r < length ?dl"
        using "1.prems"(5) st(1) set_update_subset_insert [of rows dt "rows ! i"] by auto
      have "(\<exists>e. snd (delete_loop tid count (Suc i) (Suc dt) ?rows ?dl) = Inl e) \<longleftrightarrow>
        (\<exists>r \<in> set (drop (Suc i) (take count ?rows)). ?dl ! r \<noteq> tid \<and> ?dl ! r \<noteq> NOT_DELETED_ID)"
        by (rule "1.IH"(2)) (use 2 True b "1.prems" in auto)
      also have "\<dots> \<longleftrightarrow>
        (\<exists>r \<in> set (drop i (take count rows)). dl ! r \<noteq> tid \<and> dl ! r \<noteq> NOT_DELETED_ID)"
      proof -
        have "?dl ! r \<noteq> tid \<and> ?dl ! r \<noteq> NOT_DELETED_ID \<longleftrightarrow> dl ! r \<noteq> tid \<and> dl ! r \<noteq> NOT_DELETED_ID" for r
          using 2 st(1) by (cases "r = rows ! i") auto
        then show ?thesis unfolding st(3) st(2) using 2 by simp
      qed
      finally show ?thesis using 2 True by (simp add: delete_loop.simps [of tid count i])
    next
      case 3
      then show ?thesis using True st by (auto simp: delete_loop.simps [of tid count i])
    qed
  qed
qed

lemma delete_loop_rollback:
  assumes "delete_loop tid count i dt rows dl = (dl', Inl e)"
    and "dt \<le> i" "i \<le> count" "count \<le> length rows" "\<forall>r \<in> set rows. r < length dl"
    and "length dl = length dl0" "\<forall>r \<in> set rows. dl0 ! r \<noteq> tid"
    and "\<forall>r \<in> set (take i rows). dl0 ! r = NOT_DELETED_ID"
    and "\<forall>r < length dl0. dl ! r = (if r \<in> set (take dt rows) then tid else dl0 ! r)"
  shows "dl' = dl0"
  using assms
proof (induction tid count i dt rows dl rule: delete_loop.induct)
  case (1 tid count i dt rows dl)
  have True: "i < count"
    using "1.prems"(1) by (auto simp: delete_loop.simps [of tid count i] split: if_splits)
  note st = delete_loop_step [OF True "1.prems"(2,4,5)]
  have sub: "set (take dt rows) \<subseteq> set (take i rows)" using "1.prems"(2) by (rule set_take_subset_set_take)
  have r0: "rows ! i \<in> set rows" using True "1.prems"(4) by simp
  consider "dl ! (rows ! i) = tid" | "dl ! (rows ! i) = NOT_DELETED_ID" "dl ! (rows ! i) \<noteq> tid"
    | "dl ! (rows ! i) \<noteq> tid" "dl ! (rows ! i) \<noteq> NOT_DELETED_ID" by blast
  then show ?case
  proof cases
    case own: 1
    have "rows ! i \<in> set (take dt rows)"
      using own "1.prems"(6,7,9) st(1) r0 by (metis (full_types))
    then have "\<forall>r \<in> set (take (Suc i) rows). dl0 ! r = NOT_DELETED_ID"
      using "1.prems"(4,8) sub True by (auto simp: take_Suc_conv_app_nth)
    with "1.IH"(1) [OF True own] own True "1.prems" show ?thesis
      by (simp add: delete_loop.simps [of tid count i])
  next
    case new: 2
    let ?rows = "rows[dt := rows ! i]" and ?dl = "dl[rows ! i := tid]"
    have dt: "dt < length rows" using True "1.prems" by simp
    have take_eq: "take (Suc dt) ?rows = take dt rows @ [rows ! i]"
      using dt by (simp add: take_Suc_conv_app_nth)
    have subs: "set ?rows \<subseteq> set rows"
      using set_update_subset_insert [of rows dt "rows ! i"] r0 by auto
    have "dl0 ! (rows ! i) = NOT_DELETED_ID"
      using new "1.prems"(6,9) st(1) by (auto split: if_splits)
    then have t: "\<forall>r \<in> set (take (Suc i) ?rows). dl0 ! r = NOT_DELETED_ID"
      unfolding st(4) using "1.prems"(8) set_update_subset_insert [of "take i rows" dt "rows ! i"] by auto
    have d: "\<forall>r < length dl0. ?dl ! r = (if r \<in> set (take (Suc dt) ?rows) then tid else dl0 ! r)"
      unfolding take_eq using "1.prems"(6,9) st(1) by (auto simp: nth_list_update)
    have step: "delete_loop tid count (Suc i) (Suc dt) ?rows ?dl = (dl', Inl e)"
      using "1.prems"(1) True new by (simp add: delete_loop.simps [of tid count i])
    show ?thesis
      by (rule "1.IH"(2) [OF True new(2) _ step _ _ _ _ _ _ t d])
         (use new True "1.prems" subs in auto)
  next
    case conflict: 3
    then have dl': "dl' = fold (\<lambda>k d. d[rows ! k := NOT_DELETED_ID]) [0..<i] dl"
      using "1.prems"(1) True by (simp add: delete_loop.simps [of tid count i])
    have "(\<lambda>k. rows ! k) ` set [0..<i] = set (take i rows)"
      using image_nth_take [of i rows id] True "1.prems"(4) by simp
    then show ?thesis
      using "1.prems"(6,8,9) sub
      by (intro nth_equalityI) (auto simp: dl' nth_fold_index_update)
  qed
qed

text \<open>The rows handed to \<open>Delete\<close> are rows of the vector.\<close>

definition rows_ok :: "nat list \<Rightarrow> idx_t \<Rightarrow> bool" where
  "rows_ok rows count \<longleftrightarrow> count \<le> length rows \<and> (\<forall>r \<in> set rows. r < STANDARD_VECTOR_SIZE)"

lemma Vector_Delete_loop:
  assumes "vec_wf c" "Vector_Delete tid rows count c = (c', res)"
  obtains dl dl' where "delete_loop tid count 0 0 rows dl = (dl', res)" "length dl = STANDARD_VECTOR_SIZE"
    "\<forall>r < STANDARD_VECTOR_SIZE. dl ! r = vec_deleted_at c r" "c' = c\<lparr>deleted_data := Some dl'\<rparr>"
proof -
  obtain c1 dl where p: "GetInitializedDeletedPointer c = (c1, dl)" by fastforce
  note eq = GetInitializedDeletedPointer_eq [OF assms(1) p]
  obtain dl' res' where l: "delete_loop tid count 0 0 rows dl = (dl', res')" by fastforce
  with assms(2) eq(2) have "res' = res" "c' = c\<lparr>deleted_data := Some dl'\<rparr>"
    by (auto simp: Vector_Delete_def p)
  with l eq show thesis by (intro that) auto
qed

lemma vec_deleted_at_update [simp]: "vec_deleted_at (c\<lparr>deleted_data := Some a\<rparr>) r = a ! r"
  by (simp add: vec_deleted_at_def)

lemma vec_inserted_at_update [simp]: "vec_inserted_at (c\<lparr>deleted_data := Some a\<rparr>) r = vec_inserted_at c r"
  by (simp add: vec_inserted_at_def cong: option.case_cong)

lemma vec_wf_update: "vec_wf c \<Longrightarrow> length a = STANDARD_VECTOR_SIZE \<Longrightarrow> vec_wf (c\<lparr>deleted_data := Some a\<rparr>)"
  by (simp add: vec_wf_def)

lemma Vector_Delete_ok:
  assumes "vec_wf c" "rows_ok rows count" "Vector_Delete tid rows count c = (c', Inr (k, rows'))"
  shows "vec_wf c' \<and> k \<le> count \<and> distinct (take k rows') \<and>
    set (take k rows') = {r \<in> set (take count rows). vec_deleted_at c r \<noteq> tid} \<and>
    (\<forall>r < STANDARD_VECTOR_SIZE. vec_deleted_at c' r =
       (if r \<in> set (take count rows) then tid else vec_deleted_at c r)) \<and>
    (\<forall>r. vec_inserted_at c' r = vec_inserted_at c r)"
proof -
  obtain dl dl' where l: "delete_loop tid count 0 0 rows dl = (dl', Inr (k, rows'))"
    "length dl = STANDARD_VECTOR_SIZE" "\<forall>r < STANDARD_VECTOR_SIZE. dl ! r = vec_deleted_at c r"
    "c' = c\<lparr>deleted_data := Some dl'\<rparr>"
    using assms(1,3) by (rule Vector_Delete_loop)
  have "set (take count rows) \<subseteq> {..<STANDARD_VECTOR_SIZE}"
    using assms(2) by (auto simp: rows_ok_def dest: in_set_takeD)
  then have eq: "{r \<in> set (take count rows). dl ! r \<noteq> tid} = {r \<in> set (take count rows). vec_deleted_at c r \<noteq> tid}"
    using l(3) by auto
  show ?thesis
    using delete_loop_ok [OF l(1)] assms(1,2) l eq by (auto simp: rows_ok_def vec_wf_update)
qed

lemma Vector_Delete_error:
  assumes "vec_wf c" "rows_ok rows count" "tid \<noteq> NOT_DELETED_ID"
  shows "(\<exists>e. snd (Vector_Delete tid rows count c) = Inl e) \<longleftrightarrow>
    (\<exists>r \<in> set (take count rows). vec_deleted_at c r \<noteq> tid \<and> vec_deleted_at c r \<noteq> NOT_DELETED_ID)"
proof -
  obtain c' res where d: "Vector_Delete tid rows count c = (c', res)" by fastforce
  obtain dl dl' where l: "delete_loop tid count 0 0 rows dl = (dl', res)"
    "length dl = STANDARD_VECTOR_SIZE" "\<forall>r < STANDARD_VECTOR_SIZE. dl ! r = vec_deleted_at c r"
    using assms(1) d by (rule Vector_Delete_loop)
  have sub: "\<forall>r \<in> set (take count rows). r < STANDARD_VECTOR_SIZE"
    using assms(2) by (auto simp: rows_ok_def dest: in_set_takeD)
  have "(\<exists>e. snd (delete_loop tid count 0 0 rows dl) = Inl e) \<longleftrightarrow>
      (\<exists>r \<in> set (take count rows). dl ! r \<noteq> tid \<and> dl ! r \<noteq> NOT_DELETED_ID)"
    using delete_loop_error [OF assms(3), of 0 0 count rows dl] assms(2) l(2) by (simp add: rows_ok_def)
  then show ?thesis using d l sub by auto
qed

lemma Vector_Delete_rollback:
  assumes "vec_wf c" "rows_ok rows count" "Vector_Delete tid rows count c = (c', Inl e)"
    and "\<forall>r \<in> set rows. vec_deleted_at c r \<noteq> tid" "r < STANDARD_VECTOR_SIZE"
  shows "vec_deleted_at c' r = vec_deleted_at c r"
proof -
  obtain dl dl' where l: "delete_loop tid count 0 0 rows dl = (dl', Inl e)"
    "length dl = STANDARD_VECTOR_SIZE" "\<forall>r < STANDARD_VECTOR_SIZE. dl ! r = vec_deleted_at c r"
    "c' = c\<lparr>deleted_data := Some dl'\<rparr>"
    using assms(1,3) by (rule Vector_Delete_loop)
  have "dl' = dl"
    using delete_loop_rollback [OF l(1), of dl] assms(2,4) l(2,3) by (auto simp: rows_ok_def)
  then show ?thesis using l assms(5) by simp
qed

lemma Vector_Delete_forgets_own:
  assumes "vec_wf c" "a < STANDARD_VECTOR_SIZE" "b < STANDARD_VECTOR_SIZE" "a \<noteq> b"
    and "vec_deleted_at c a = tid" "vec_deleted_at c b \<noteq> tid" "vec_deleted_at c b \<noteq> NOT_DELETED_ID"
    and "Vector_Delete tid [a, b] 2 c = (c', res)"
  shows "vec_deleted_at c' a = NOT_DELETED_ID \<and> res = Inl (TransactionException ''Conflict on tuple deletion!'')"
proof -
  obtain dl dl' where l: "delete_loop tid 2 0 0 [a, b] dl = (dl', res)"
    "length dl = STANDARD_VECTOR_SIZE" "\<forall>r < STANDARD_VECTOR_SIZE. dl ! r = vec_deleted_at c r"
    "c' = c\<lparr>deleted_data := Some dl'\<rparr>"
    using assms(1,8) by (rule Vector_Delete_loop)
  have "delete_loop tid 2 0 0 [a, b] dl = delete_loop tid 2 1 0 [a, b] dl"
    using assms l by (subst delete_loop.simps) simp
  also have "\<dots> = (dl[a := NOT_DELETED_ID], Inl (TransactionException ''Conflict on tuple deletion!''))"
    using assms l by (subst delete_loop.simps) simp
  finally show ?thesis using l assms by simp
qed

lemma GetCommittedDeletedCount_eq:
  "GetCommittedDeletedCount n c = Inr (card {r. r < n \<and> deleted_at c r < TRANSACTION_ID_START})"
proof -
  define options where "options =
    (ScanOptions_of \<lparr>transaction_id = 0, start_time = TRANSACTION_ID_START\<rparr>)
      \<lparr>so_insert_type := ALL_ROWS, so_delete_type := OMIT_COMMITTED_DELETES\<rparr>"
  have valid: "valid_scan options"
    by (simp add: options_def valid_scan_def ScanOptions_of_def valid_reader_def TRANSACTION_ID_START_def
        NOT_DELETED_ID_def MAX_TRANSACTION_ID_def)
  have selected: "row_selected options i d \<longleftrightarrow> \<not> d < TRANSACTION_ID_START" for i d
    by (simp add: row_selected_def options_def ScanOptions_of_def)
  obtain k sel where k: "ChunkInfo_GetSelVector options n c = Inr (k, sel)"
    using chunk.sel_vector_defined [of options n c]
    by (cases "ChunkInfo_GetSelVector options n c") (auto simp: options_def)
  have "{r. r < n \<and> deleted_at c r < TRANSACTION_ID_START} =
      {r. deleted_at c r < TRANSACTION_ID_START} \<inter> set [0..<n]" by auto
  then have "card {r. r < n \<and> deleted_at c r < TRANSACTION_ID_START} =
      length (filter (\<lambda>r. deleted_at c r < TRANSACTION_ID_START) [0..<n])"
    by (simp add: distinct_length_filter)
  moreover have "k = length (filter (\<lambda>r. \<not> deleted_at c r < TRANSACTION_ID_START) [0..<n])"
    using chunk.sel_vector_rows [OF valid k] by (simp add: selected)
  ultimately show ?thesis
    using k sum_length_filter_compl [of "\<lambda>r. deleted_at c r < TRANSACTION_ID_START" "[0..<n]"]
    by (simp add: GetCommittedDeletedCount_def options_def [symmetric])
qed

section \<open>Writing and reading version information\<close>

lemma checkpoint_reader_valid:
  "checkpoint_id \<noteq> NOT_DELETED_ID \<Longrightarrow> valid_reader (checkpoint_reader checkpoint_id)"
proof -
  assume ne: "checkpoint_id \<noteq> NOT_DELETED_ID"
  have "checkpoint_id + 1 \<le> NOT_DELETED_ID" if "checkpoint_id \<noteq> MAX_TRANSACTION_ID"
  proof -
    have "checkpoint_id < NOT_DELETED_ID"
    proof -
      have "unat checkpoint_id < 2 ^ 64" using unsigned_less [of checkpoint_id] by simp
      then show ?thesis
        using that ne unfolding NOT_DELETED_ID_def MAX_TRANSACTION_ID_def
        by (simp add: word_less_nat_alt word_unat_eq_iff)
    qed
    then show ?thesis by (rule inc_le)
  qed
  then show ?thesis
    by (auto simp: checkpoint_reader_def valid_reader_def NOT_DELETED_ID_def MAX_TRANSACTION_ID_def
        TRANSACTION_ID_START_def)
qed

lemma fold_SetInvalid:
  assumes "mask_covers m (vm_capacity m)" "\<forall>r \<in> set rs. r < vm_capacity m" "i < vm_capacity m"
  shows "RowIsValid (fold SetInvalid rs m) i \<longleftrightarrow> i \<notin> set rs \<and> RowIsValid m i"
    and "mask_covers (fold SetInvalid rs m) (vm_capacity m)"
proof -
  have S: "SetInvalid = (\<lambda>r m. SetRow r False m)" by (intro ext) (simp add: SetRow_def)
  show "RowIsValid (fold SetInvalid rs m) i \<longleftrightarrow> i \<notin> set rs \<and> RowIsValid m i"
    using fold_SetRow(2) [OF assms(1,2,3), of False] by (simp add: S)
  show "mask_covers (fold SetInvalid rs m) (vm_capacity m)"
    using assms(1) unfolding S
    by (induction rs arbitrary: m) (auto, metis SetRow_capacity mask_covers_SetRow)
qed

text \<open>What a later reader sees of version information read back; no version information is all visible.\<close>

fun loaded_fetch :: "TransactionData \<Rightarrow> idx_t \<Rightarrow> ChunkInfo option \<Rightarrow> bool" where
  "loaded_fetch t row None = True"
| "loaded_fetch t row (Some c) = ChunkInfo_Fetch t row c"

lemma read_le_byte [simp]: "read_le (Suc 0) (b # s) = Inr (unat b, s)"
  by (simp add: read_le_def)

lemma Constant_Read_Write:
  assumes "cc_start c < 2 ^ 64"
  shows "ChunkInfo_Read (Constant_Write tid c @ s) =
    Inr (Some (ConstantInfo \<lparr>cc_start = cc_start c, insert_id = 0, delete_id = 0\<rparr>), s)"
  using assms
  by (simp add: ChunkInfo_Read_def Constant_Write_def Constant_Read_def read_write_le CONSTANT_INFO_def
      EMPTY_INFO_def ChunkConstantInfo_new_def)

lemma deleted_entry_invisible: "0 < start_time t \<Longrightarrow> \<not> row_visible t ins 0"
  by (simp add: row_visible_def)

lemma so_transaction_of: "so_transaction (ScanOptions_of t) = t"
  by (simp add: ScanOptions_of_def)

lemma checkpoint_sel:
  assumes "checkpoint_id \<noteq> NOT_DELETED_ID"
    and "Vector_GetSelVector (ScanOptions_of (checkpoint_reader checkpoint_id)) n c = Inr (k, sel)"
  shows "k = length (filter (\<lambda>r. Vector_Fetch (checkpoint_reader checkpoint_id) r c) [0..<n])"
    and "0 < k \<Longrightarrow> k < n \<Longrightarrow> sel = filter (\<lambda>r. Vector_Fetch (checkpoint_reader checkpoint_id) r c) [0..<n]"
  using Vector_GetSelVector_rows [OF _ assms(2)] checkpoint_reader_valid [OF assms(1)]
  by (simp_all add: row_selected_standard Vector_Fetch_visible valid_scan_def so_transaction_of)

lemma fold_index_nth: "fold (\<lambda>i m. f (sel ! i) m) [0..<length sel] m = fold f sel m"
proof -
  have "fold (\<lambda>i m. f (sel ! i) m) [0..<length sel] m = fold f (map ((!) sel) [0..<length sel]) m"
    by (simp only: fold_map comp_def)
  then show ?thesis by (simp only: map_nth)
qed

lemma nth_fold_cond_update:
  "r < length dl \<Longrightarrow> fold (\<lambda>i d. if P i then d[i := v] else d) is dl ! r =
     (if r \<in> set is \<and> P r then v else dl ! r)"
proof (induction "is" arbitrary: dl)
  case (Cons i rest)
  then show ?case by (cases "r = i") auto
qed simp

lemma Vector_Read_rows:
  assumes "start < 2 ^ 64"
    and "ReadMask \<lparr>vm_data = None, vm_capacity = STANDARD_VECTOR_SIZE\<rparr> STANDARD_VECTOR_SIZE s1 = Inr (m, s)"
  shows "\<exists>c. Vector_Read (write_le 8 start @ s1) = Inr (c, s) \<and> vec_wf c \<and> (\<forall>r < STANDARD_VECTOR_SIZE.
    vec_inserted_at c r = 0 \<and> vec_deleted_at c r = (if RowIsValid m r then 0 else NOT_DELETED_ID))"
proof -
  let ?c0 = "ChunkVectorInfo_new start 0"
  have wf: "vec_wf ?c0" by (simp add: vec_wf_def ChunkVectorInfo_new_def)
  obtain c deleted where p: "GetInitializedDeletedPointer ?c0 = (c, deleted)" by fastforce
  note eq = GetInitializedDeletedPointer_eq [OF wf p]
  have len: "length (fold (\<lambda>i d. if P i then d[i := v] else d) rs xs) = length xs"
    for P v rs and xs :: "transaction_t list"
    by (induction rs arbitrary: xs) auto
  have "vec_inserted_at ?c0 r = 0" "vec_deleted_at ?c0 r = NOT_DELETED_ID" for r
    by (simp_all add: ChunkVectorInfo_new_def vec_inserted_at_def vec_deleted_at_def)
  then show ?thesis
    using assms eq wf
    by (auto simp: Vector_Read_def read_write_le p nth_fold_cond_update vec_wf_update len)
qed

lemma Vector_Write_Read:
  assumes id_ok: "checkpoint_id \<noteq> NOT_DELETED_ID" and start: "cv_start c < 2 ^ 64"
    and w: "Vector_Write checkpoint_id c = Inr bs"
  shows "\<exists>r. ChunkInfo_Read (bs @ s) = Inr (r, s) \<and>
    (\<forall>t row. valid_reader t \<longrightarrow> 0 < start_time t \<longrightarrow> row < STANDARD_VECTOR_SIZE \<longrightarrow>
      loaded_fetch t row r = Vector_Fetch (checkpoint_reader checkpoint_id) row c)"
proof -
  let ?seen = "\<lambda>r. Vector_Fetch (checkpoint_reader checkpoint_id) r c"
  obtain k sel where sv: "Vector_GetSelVector (ScanOptions_of (checkpoint_reader checkpoint_id))
      STANDARD_VECTOR_SIZE c = Inr (k, sel)"
    using w by (auto simp: Vector_Write_def split: sum.splits)
  note k = checkpoint_sel [OF id_ok sv]
  consider "k = STANDARD_VECTOR_SIZE" | "k = 0" "k \<noteq> STANDARD_VECTOR_SIZE"
    | "0 < k" "k < STANDARD_VECTOR_SIZE"
    using k(1) filter_upt_length_le [of ?seen STANDARD_VECTOR_SIZE] by linarith
  then show ?thesis
  proof cases
    case 1
    then have "bs = write_le 1 EMPTY_INFO" using w sv by (simp add: Vector_Write_def)
    then have "ChunkInfo_Read (bs @ s) = Inr (None, s)"
      by (simp add: ChunkInfo_Read_def read_write_le EMPTY_INFO_def)
    moreover have "\<forall>r < STANDARD_VECTOR_SIZE. ?seen r" using 1 k(1) filter_upt_eq_length_iff by metis
    ultimately show ?thesis by auto
  next
    case 2
    then have "bs = Constant_Write checkpoint_id (ChunkConstantInfo_new (cv_start c))"
      using w sv by (simp add: Vector_Write_def Constant_Write_def ChunkConstantInfo_new_def)
    then have "ChunkInfo_Read (bs @ s) =
        Inr (Some (ConstantInfo \<lparr>cc_start = cv_start c, insert_id = 0, delete_id = 0\<rparr>), s)"
      using Constant_Read_Write [of "ChunkConstantInfo_new (cv_start c)"] start
      by (simp add: ChunkConstantInfo_new_def)
    moreover have "\<forall>r < STANDARD_VECTOR_SIZE. \<not> ?seen r" using 2 k(1) by (simp add: filter_empty_conv)
    ultimately show ?thesis by (simp add: Constant_Fetch_visible chunk_abs deleted_entry_invisible)
  next
    case 3
    define m0 where "m0 = InitializeCount STANDARD_VECTOR_SIZE
        \<lparr>vm_data = None, vm_capacity = STANDARD_VECTOR_SIZE\<rparr>"
    define m where "m = fold SetInvalid sel m0"
    have sel: "sel = filter ?seen [0..<STANDARD_VECTOR_SIZE]" "length sel = k" using 3 k by simp_all
    have cap: "vm_capacity m0 = STANDARD_VECTOR_SIZE" by (simp add: m0_def InitializeCount_def)
    have fold: "fold (\<lambda>i m. SetInvalid (sel ! i) m) [0..<k] m0 = m"
      unfolding m_def sel(2) [symmetric] by (rule fold_index_nth)
    obtain mbs where mbs: "WriteMask m STANDARD_VECTOR_SIZE = Inr mbs"
      and bs: "bs = write_le 1 VECTOR_INFO @ write_le 8 (cv_start c) @ mbs"
      using w sv 3 by (auto simp: Vector_Write_def m0_def [symmetric] fold split: sum.splits)
    have rows: "RowIsValid m r \<longleftrightarrow> r \<notin> set sel" if "r < STANDARD_VECTOR_SIZE" for r
      using fold_SetInvalid(1) [of m0 sel r] that sel(1) cap by (auto simp: m_def m0_def)
    have cov: "mask_covers m STANDARD_VECTOR_SIZE"
      using fold_SetInvalid(2) [of m0 sel 0] sel(1) cap by (auto simp: m_def m0_def STANDARD_VECTOR_SIZE_def)
    obtain m' where m': "ReadMask \<lparr>vm_data = None, vm_capacity = STANDARD_VECTOR_SIZE\<rparr>
        STANDARD_VECTOR_SIZE (mbs @ s) = Inr (m', s)"
      "\<forall>i < STANDARD_VECTOR_SIZE. RowIsValid m' i = RowIsValid m i"
      using ReadMask_WriteMask [OF cov _ mbs, of "\<lparr>vm_data = None, vm_capacity = STANDARD_VECTOR_SIZE\<rparr>" s]
      by (auto simp: STANDARD_VECTOR_SIZE_def)
    obtain c' where c': "Vector_Read (write_le 8 (cv_start c) @ mbs @ s) = Inr (c', s)"
      "\<forall>r < STANDARD_VECTOR_SIZE.
        vec_inserted_at c' r = 0 \<and> vec_deleted_at c' r = (if RowIsValid m' r then 0 else NOT_DELETED_ID)"
      using Vector_Read_rows [OF start m'(1)] by auto
    have "ChunkInfo_Read (bs @ s) = Inr (Some (VectorInfo c'), s)"
      using c'(1) by (simp add: bs ChunkInfo_Read_def read_write_le VECTOR_INFO_def CONSTANT_INFO_def EMPTY_INFO_def)
    moreover have "Vector_Fetch t r c' = ?seen r"
      if "valid_reader t" "0 < start_time t" "r < STANDARD_VECTOR_SIZE" for t r
    proof -
      have "vec_inserted_at c' r = 0" "vec_deleted_at c' r = (if ?seen r then NOT_DELETED_ID else 0)"
        using c'(2) m'(2) rows that by (auto simp: sel(1))
      then show ?thesis
        using that(2) not_deleted_visible [OF that(1)]
        by (simp add: Vector_Fetch_visible [of t] row_visible_def [of t])
    qed
    ultimately show ?thesis by auto
  qed
qed

lemma ChunkInfo_Write_Read:
  assumes "checkpoint_id \<noteq> NOT_DELETED_ID" "ChunkInfo_Write checkpoint_id c = Inr bs"
    and "\<And>v. c = VectorInfo v \<Longrightarrow> cv_start v < 2 ^ 64"
    and "\<And>k. c = ConstantInfo k \<Longrightarrow>
      cc_start k < 2 ^ 64 \<and> \<not> Constant_Fetch (checkpoint_reader checkpoint_id) 0 k"
  shows "\<exists>r. ChunkInfo_Read (bs @ s) = Inr (r, s) \<and>
    (\<forall>t row. valid_reader t \<longrightarrow> 0 < start_time t \<longrightarrow> row < STANDARD_VECTOR_SIZE \<longrightarrow>
      loaded_fetch t row r = ChunkInfo_Fetch (checkpoint_reader checkpoint_id) row c)"
proof (cases c)
  case (VectorInfo v)
  with Vector_Write_Read [OF assms(1) assms(3)] assms(2) show ?thesis by simp
next
  case (ConstantInfo k)
  then have "ChunkInfo_Read (bs @ s) =
      Inr (Some (ConstantInfo \<lparr>cc_start = cc_start k, insert_id = 0, delete_id = 0\<rparr>), s)"
    using assms(2,4) Constant_Read_Write [of k] by auto
  then show ?thesis
    using assms(4) [OF ConstantInfo]
    by (auto simp: ConstantInfo Constant_Fetch_visible chunk_abs row_visible_def)
qed

section \<open>Properties\<close>

lemma valid_reader_make:
  "valid_reader \<lparr>transaction_id = a, start_time = b\<rparr> \<longleftrightarrow> b \<le> NOT_DELETED_ID \<and> a \<noteq> NOT_DELETED_ID"
  by (simp add: valid_reader_def)

lemma fresh_vec [simp]:
  "vec_wf (ChunkVectorInfo_new start ins)"
  "vec_inserted_at (ChunkVectorInfo_new start ins) r = ins"
  "vec_deleted_at (ChunkVectorInfo_new start ins) r = NOT_DELETED_ID"
  by (simp_all add: vec_wf_def vec_inserted_at_def vec_deleted_at_def ChunkVectorInfo_new_def)

text \<open>
  C19. A scan and a point lookup agree: the count \<open>GetSelVector\<close> returns for a transaction is the
  number of rows of the vector that \<open>Fetch\<close> shows the transaction, and when it is neither 0 nor the
  whole vector the selection vector lists exactly those rows, in order.
\<close>

theorem scan_agrees_with_fetch:
  assumes "valid_reader t" "ChunkInfo_GetSelVector (ScanOptions_of t) n c = Inr (k, sel)"
  shows "k = card {r. r < n \<and> ChunkInfo_Fetch t r c} \<and>
    (0 < k \<and> k < n \<longrightarrow> sel = filter (\<lambda>r. ChunkInfo_Fetch t r c) [0..<n])"
  using chunk.scan_is_fetch [OF assms] by blast

definition example_vector :: ChunkInfo where
  "example_vector = VectorInfo \<lparr>cv_start = 0, inserted_data = Some [1, 2, 9, 3], constant_insert_id = 0,
     deleted_data = Some [NOT_DELETED_ID, 4, NOT_DELETED_ID, 50]\<rparr>"

theorem scan_agrees_with_fetch_witness:
  "ChunkInfo_GetSelVector (ScanOptions_of \<lparr>transaction_id = 50, start_time = 5\<rparr>) 4 example_vector = Inr (1, [0]) \<and>
   {r. r < 4 \<and> ChunkInfo_Fetch \<lparr>transaction_id = 50, start_time = 5\<rparr> r example_vector} = {0}"
proof -
  let ?t = "\<lparr>transaction_id = 50, start_time = 5\<rparr> :: TransactionData"
  have upt4: "[0..<4] = [0, 1, 2, 3]" by (simp add: eval_nat_numeral)
  have scan: "ChunkInfo_GetSelVector (ScanOptions_of ?t) 4 example_vector = Inr (1, [0])"
    unfolding example_vector_def
    by (simp add: ScanOptions_of_def Vector_GetSelVector_def Vector_TemplatedGetSelVector_def sel_loop_filter)
       (simp add: upt4 chunk_defs NOT_DELETED_ID_def MAX_TRANSACTION_ID_def)
  have valid: "valid_reader ?t" by (simp add: valid_reader_make NOT_DELETED_ID_def MAX_TRANSACTION_ID_def)
  have "[0] = filter (\<lambda>r. ChunkInfo_Fetch ?t r example_vector) [0..<4]"
    using scan_agrees_with_fetch [OF valid scan] by simp
  from arg_cong [OF this, of set] have "{r. r < 4 \<and> ChunkInfo_Fetch ?t r example_vector} = {0}"
    by (simp only: set_filter set_upt atLeastLessThan_iff) simp
  with scan show ?thesis by simp
qed

text \<open>
  \<open>Delete\<close> without a conflict marks exactly the given rows as deleted by the transaction, keeps
  every other row and every insertion, and returns in the first \<open>k\<close> entries of the row array each row
  once that the transaction had not deleted before: the rows the undo buffer records.
\<close>

theorem delete_marks_rows:
  assumes "vec_wf c" "rows_ok rows count" "Vector_Delete tid rows count c = (c', Inr (k, rows'))"
  shows "vec_wf c' \<and> k \<le> count \<and> distinct (take k rows') \<and>
    set (take k rows') = {r \<in> set (take count rows). vec_deleted_at c r \<noteq> tid} \<and>
    (\<forall>r < STANDARD_VECTOR_SIZE. vec_deleted_at c' r =
       (if r \<in> set (take count rows) then tid else vec_deleted_at c r)) \<and>
    (\<forall>r. vec_inserted_at c' r = vec_inserted_at c r)"
  using assms by (rule Vector_Delete_ok)

theorem delete_marks_rows_witness:
  "\<exists>c' k rows'. Vector_Delete TRANSACTION_ID_START [7, 3, 7] 3 (ChunkVectorInfo_new 0 1) = (c', Inr (k, rows')) \<and>
     set (take k rows') = {3, 7} \<and> vec_deleted_at c' 7 = TRANSACTION_ID_START \<and>
     vec_deleted_at c' 8 = NOT_DELETED_ID"
proof -
  let ?c = "ChunkVectorInfo_new 0 1"
  have ok: "rows_ok [7, 3, 7] 3" by (simp add: rows_ok_def STANDARD_VECTOR_SIZE_def)
  have ne: "TRANSACTION_ID_START \<noteq> NOT_DELETED_ID" "NOT_DELETED_ID \<noteq> TRANSACTION_ID_START"
    by (simp_all add: TRANSACTION_ID_START_def NOT_DELETED_ID_def MAX_TRANSACTION_ID_def)
  obtain c' k rows' where d: "Vector_Delete TRANSACTION_ID_START [7, 3, 7] 3 ?c = (c', Inr (k, rows'))"
    using Vector_Delete_error [OF fresh_vec(1) [of 0 1] ok ne(1)]
    by (cases "Vector_Delete TRANSACTION_ID_START [7, 3, 7] 3 ?c";
        cases "snd (Vector_Delete TRANSACTION_ID_START [7, 3, 7] 3 ?c)") auto
  have "{r \<in> {7, 3}. True} = {3, 7::nat}" by auto
  then show ?thesis
    using d delete_marks_rows [OF fresh_vec(1) ok d] ne
    by (intro exI [of _ c'] exI [of _ k] exI [of _ rows']) (auto simp: STANDARD_VECTOR_SIZE_def)
qed

text \<open>
  C9. \<open>Delete\<close> raises the conflict error if and only if one of the rows carries the deletion of
  another transaction, running or committed.
\<close>

theorem delete_conflict_iff:
  assumes "vec_wf c" "rows_ok rows count" "tid \<noteq> NOT_DELETED_ID"
  shows "(\<exists>e. snd (Vector_Delete tid rows count c) = Inl e) \<longleftrightarrow>
    (\<exists>r \<in> set (take count rows). vec_deleted_at c r \<noteq> tid \<and> vec_deleted_at c r \<noteq> NOT_DELETED_ID)"
  using assms by (rule Vector_Delete_error)

theorem delete_conflict_iff_witness:
  "\<not> (\<exists>e. snd (Vector_Delete 9 [4] 1 (ChunkVectorInfo_new 0 1)) = Inl e)"
proof -
  have "rows_ok [4] 1" "(9 :: transaction_t) \<noteq> NOT_DELETED_ID"
    by (simp_all add: rows_ok_def STANDARD_VECTOR_SIZE_def NOT_DELETED_ID_def MAX_TRANSACTION_ID_def)
  from delete_conflict_iff [OF fresh_vec(1) this] show ?thesis by simp
qed

text \<open>
  A deletion that runs into a conflict leaves no trace, provided none of its rows had been deleted
  by the same transaction before.
\<close>

theorem delete_conflict_undone:
  assumes "vec_wf c" "rows_ok rows count" "Vector_Delete tid rows count c = (c', Inl e)"
    and "\<forall>r \<in> set rows. vec_deleted_at c r \<noteq> tid" "r < STANDARD_VECTOR_SIZE"
  shows "vec_deleted_at c' r = vec_deleted_at c r"
  using assms by (rule Vector_Delete_rollback)

definition example_deleted :: "(idx_t \<times> transaction_t) list \<Rightarrow> ChunkVectorInfo" where
  "example_deleted ds = \<lparr>cv_start = 0, inserted_data = None, constant_insert_id = 1,
     deleted_data = Some (fold (\<lambda>(i, v) d. d[i := v]) ds (replicate STANDARD_VECTOR_SIZE NOT_DELETED_ID))\<rparr>"

lemma example_deleted_simps [simp]:
  "vec_wf (example_deleted [(i, v)])" "vec_wf (example_deleted [(i, v), (j, w)])"
  "r < STANDARD_VECTOR_SIZE \<Longrightarrow> vec_deleted_at (example_deleted [(i, v)]) r = (if r = i then v else NOT_DELETED_ID)"
  "r < STANDARD_VECTOR_SIZE \<Longrightarrow> vec_deleted_at (example_deleted [(i, v), (j, w)]) r =
     (if r = j then w else if r = i then v else NOT_DELETED_ID)"
  by (auto simp: example_deleted_def vec_wf_def vec_deleted_at_def nth_list_update)

theorem delete_conflict_undone_witness:
  "\<exists>c' e. Vector_Delete 9 [4, 6] 2 (example_deleted [(6, 5)]) = (c', Inl e) \<and>
     vec_deleted_at c' 4 = NOT_DELETED_ID"
proof -
  let ?c = "example_deleted [(6, 5)]"
  have ok: "rows_ok [4, 6] 2" and ne: "(9 :: transaction_t) \<noteq> NOT_DELETED_ID" "(5 :: transaction_t) \<noteq> NOT_DELETED_ID"
    by (simp_all add: rows_ok_def STANDARD_VECTOR_SIZE_def NOT_DELETED_ID_def MAX_TRANSACTION_ID_def)
  have lt: "4 < STANDARD_VECTOR_SIZE" "6 < STANDARD_VECTOR_SIZE" by (simp_all add: STANDARD_VECTOR_SIZE_def)
  obtain e where "snd (Vector_Delete 9 [4, 6] 2 ?c) = Inl e"
    using Vector_Delete_error [OF example_deleted_simps(1) ok ne(1), of 6 5] ne lt by auto
  then obtain c' where d: "Vector_Delete 9 [4, 6] 2 ?c = (c', Inl e)"
    by (cases "Vector_Delete 9 [4, 6] 2 ?c") auto
  have "vec_deleted_at c' 4 = vec_deleted_at ?c 4"
    using ne lt by (intro delete_conflict_undone [OF example_deleted_simps(1) ok d]) auto
  with d lt show ?thesis by simp
qed

text \<open>
  The rollback of a conflicting \<open>Delete\<close> also clears a row that the same transaction had deleted
  in an earlier statement: the loop skips such a row, and the undo of the rows seen so far resets it
  to not deleted, although the comment there speaks of the tuples set in this loop.
\<close>

theorem delete_conflict_forgets_own:
  assumes "vec_wf c" "a < STANDARD_VECTOR_SIZE" "b < STANDARD_VECTOR_SIZE" "a \<noteq> b"
    and "vec_deleted_at c a = tid" "vec_deleted_at c b \<noteq> tid" "vec_deleted_at c b \<noteq> NOT_DELETED_ID"
    and "Vector_Delete tid [a, b] 2 c = (c', res)"
  shows "vec_deleted_at c' a = NOT_DELETED_ID \<and> res = Inl (TransactionException ''Conflict on tuple deletion!'')"
  using assms by (rule Vector_Delete_forgets_own)

theorem delete_conflict_forgets_own_witness:
  "vec_deleted_at (example_deleted [(4, 9), (6, 5)]) 4 = 9 \<and>
   vec_deleted_at (fst (Vector_Delete 9 [4, 6] 2 (example_deleted [(4, 9), (6, 5)]))) 4 = NOT_DELETED_ID"
proof -
  let ?c = "example_deleted [(4, 9), (6, 5)]"
  have lt: "4 < STANDARD_VECTOR_SIZE" "6 < STANDARD_VECTOR_SIZE" by (simp_all add: STANDARD_VECTOR_SIZE_def)
  have ne: "(5 :: transaction_t) \<noteq> NOT_DELETED_ID" by (simp add: NOT_DELETED_ID_def MAX_TRANSACTION_ID_def)
  obtain c' res where d: "Vector_Delete 9 [4, 6] 2 ?c = (c', res)" by fastforce
  have "vec_deleted_at c' 4 = NOT_DELETED_ID \<and> res = Inl (TransactionException ''Conflict on tuple deletion!'')"
    by (rule delete_conflict_forgets_own [OF example_deleted_simps(2) lt _ _ _ _ d]) (use lt ne in auto)
  with d lt show ?thesis by simp
qed

text \<open>
  Committing a recorded deletion gives the rows of the record the commit id: a reader that starts
  after the commit no longer sees them, a reader that started before still sees those it saw inserted.
\<close>

theorem committed_delete_visibility:
  assumes "vec_wf c" "is_consecutive info \<or> di_count info \<le> length (di_rows info)"
    and "Vector_CommitDelete commit_id info c = Inr c'"
    and "r \<in> committed_rows info" "r < STANDARD_VECTOR_SIZE"
    and "start_time t1 \<le> commit_id" "transaction_id t1 \<noteq> commit_id" "UseVersion t1 (vec_inserted_at c r)"
    and "commit_id < start_time t2"
  shows "Vector_Fetch t1 r c' \<and> \<not> Vector_Fetch t2 r c'"
proof -
  note eff = Vector_CommitDelete_effect [OF assms(1,2,3,5)]
  show ?thesis
    using eff(1,2) assms(4,6,7,8,9) by (auto simp: Vector_Fetch_visible row_visible_def chunk_defs)
qed

theorem committed_delete_visibility_witness:
  "\<exists>c'. Vector_CommitDelete 20 \<lparr>di_vector_idx = 0, di_count = 1, di_base_row = 0, is_consecutive = False,
       di_rows = [4]\<rparr> (example_deleted [(4, TRANSACTION_ID_START)]) = Inr c' \<and>
     Vector_Fetch \<lparr>transaction_id = TRANSACTION_ID_START + 1, start_time = 15\<rparr> 4 c' \<and>
     \<not> Vector_Fetch \<lparr>transaction_id = TRANSACTION_ID_START + 2, start_time = 25\<rparr> 4 c'"
proof -
  let ?info = "\<lparr>di_vector_idx = 0, di_count = 1, di_base_row = 0, is_consecutive = False, di_rows = [4]\<rparr>"
  let ?c = "example_deleted [(4, TRANSACTION_ID_START)]"
  let ?t1 = "\<lparr>transaction_id = TRANSACTION_ID_START + 1, start_time = 15\<rparr> :: TransactionData"
  let ?t2 = "\<lparr>transaction_id = TRANSACTION_ID_START + 2, start_time = 25\<rparr> :: TransactionData"
  obtain c' where c': "Vector_CommitDelete 20 ?info ?c = Inr c'"
    by (simp add: Vector_CommitDelete_def GetDeletedPointer_def example_deleted_def GetRows_def)
  have "Vector_Fetch ?t1 4 c' \<and> \<not> Vector_Fetch ?t2 4 c'"
    by (rule committed_delete_visibility [OF example_deleted_simps(1) _ c'])
       (simp_all add: committed_rows_def STANDARD_VECTOR_SIZE_def TRANSACTION_ID_START_def chunk_defs
          vec_inserted_at_def example_deleted_def)
  with c' show ?thesis by auto
qed

text \<open>
  When \<open>Cleanup\<close> lets the version information go, every row of the vector but the first is
  visible to every transaction that started after the given lowest transaction, as it will be
  without version information.
\<close>

theorem cleanup_keeps_visibility:
  assumes "ChunkInfo_Cleanup lowest c" "lowest < start_time t" "valid_reader t"
    and "0 < row" "row < STANDARD_VECTOR_SIZE"
  shows "ChunkInfo_Fetch t row c"
  using assms by (rule chunk.cleanup_visible)

theorem cleanup_keeps_visibility_witness:
  "ChunkInfo_Fetch \<lparr>transaction_id = TRANSACTION_ID_START, start_time = 8\<rparr> 3
     (VectorInfo (ChunkVectorInfo_new 0 7))"
  by (rule cleanup_keeps_visibility [of 7])
     (simp_all add: Vector_Cleanup_def AnyDeleted_def ChunkVectorInfo_new_def valid_reader_make
        TRANSACTION_ID_START_def NOT_DELETED_ID_def MAX_TRANSACTION_ID_def STANDARD_VECTOR_SIZE_def)

text \<open>
  The first row is not among the rows \<open>Cleanup\<close> looks at: its loop over the insertion ids starts
  at index 1, so the version information is let go although row 0 may carry the id of a transaction
  that has not committed, and the row is then visible to everyone.
\<close>

theorem cleanup_ignores_first_row:
  assumes "deleted_data c = None" "inserted_data c = Some inserted" "length inserted = STANDARD_VECTOR_SIZE"
  shows "Vector_Cleanup lowest (c\<lparr>inserted_data := Some (inserted[0 := v])\<rparr>) = Vector_Cleanup lowest c"
  using assms by (simp add: Vector_Cleanup_def AnyDeleted_def)

theorem cleanup_ignores_first_row_witness:
  "Vector_Cleanup 5 \<lparr>cv_start = 0, inserted_data = Some ((replicate STANDARD_VECTOR_SIZE 3)[0 := TRANSACTION_ID_START]),
     constant_insert_id = 0, deleted_data = None\<rparr>"
proof -
  let ?c = "\<lparr>cv_start = 0, inserted_data = Some (replicate STANDARD_VECTOR_SIZE 3),
     constant_insert_id = 0, deleted_data = None\<rparr>"
  have "Vector_Cleanup 5 ?c" by (simp add: Vector_Cleanup_def AnyDeleted_def)
  then show ?thesis
    using cleanup_ignores_first_row [of ?c "replicate STANDARD_VECTOR_SIZE 3" 5 TRANSACTION_ID_START] by simp
qed

text \<open>
  Version information written for a checkpoint and read back shows every later reader exactly the
  rows that the checkpoint's transaction saw; the bytes that follow are left in the stream. A constant
  info is written only when its rows are deleted for the checkpoint.
\<close>

theorem version_info_roundtrip:
  assumes "checkpoint_id \<noteq> NOT_DELETED_ID" "ChunkInfo_Write checkpoint_id c = Inr bs"
    and "\<And>v. c = VectorInfo v \<Longrightarrow> cv_start v < 2 ^ 64"
    and "\<And>k. c = ConstantInfo k \<Longrightarrow>
      cc_start k < 2 ^ 64 \<and> \<not> Constant_Fetch (checkpoint_reader checkpoint_id) 0 k"
  shows "\<exists>r. ChunkInfo_Read (bs @ s) = Inr (r, s) \<and>
    (\<forall>t row. valid_reader t \<and> 0 < start_time t \<and> row < STANDARD_VECTOR_SIZE \<longrightarrow>
      loaded_fetch t row r = ChunkInfo_Fetch (checkpoint_reader checkpoint_id) row c)"
  using ChunkInfo_Write_Read [OF assms, of s] by blast

lemma Vector_Write_defined:
  assumes "checkpoint_id \<noteq> NOT_DELETED_ID" shows "\<exists>bs. Vector_Write checkpoint_id c = Inr bs"
proof -
  obtain k sel where "Vector_GetSelVector (ScanOptions_of (checkpoint_reader checkpoint_id))
      STANDARD_VECTOR_SIZE c = Inr (k, sel)"
    using Vector_GetSelVector_defined [of "ScanOptions_of (checkpoint_reader checkpoint_id)" STANDARD_VECTOR_SIZE c]
    by (cases "Vector_GetSelVector (ScanOptions_of (checkpoint_reader checkpoint_id)) STANDARD_VECTOR_SIZE c")
       (auto simp: ScanOptions_of_def)
  moreover have "\<exists>bs. WriteMask m STANDARD_VECTOR_SIZE = Inr bs" for m
    by (rule WriteMask_defined) (simp add: STANDARD_VECTOR_SIZE_def)
  ultimately show ?thesis by (auto simp: Vector_Write_def Let_def split: sum.splits) (metis sum.distinct(1))
qed

theorem version_info_roundtrip_witness:
  "\<exists>bs r. ChunkInfo_Write 20 (VectorInfo (example_deleted [(4, 10)])) = Inr bs \<and>
     ChunkInfo_Read (bs @ [1]) = Inr (r, [1]) \<and>
     loaded_fetch \<lparr>transaction_id = TRANSACTION_ID_START, start_time = 1\<rparr> 3 r \<and>
     \<not> loaded_fetch \<lparr>transaction_id = TRANSACTION_ID_START, start_time = 1\<rparr> 4 r"
proof -
  let ?c = "VectorInfo (example_deleted [(4, 10)])"
  let ?t = "\<lparr>transaction_id = TRANSACTION_ID_START, start_time = 1\<rparr> :: TransactionData"
  have ids: "(20 :: transaction_t) \<noteq> NOT_DELETED_ID" "valid_reader ?t" "3 < STANDARD_VECTOR_SIZE" "4 < STANDARD_VECTOR_SIZE"
    by (simp_all add: valid_reader_make TRANSACTION_ID_START_def NOT_DELETED_ID_def MAX_TRANSACTION_ID_def
        STANDARD_VECTOR_SIZE_def)
  obtain bs where bs: "ChunkInfo_Write 20 ?c = Inr bs"
    using Vector_Write_defined [OF ids(1)] by auto
  have "\<exists>r. ChunkInfo_Read (bs @ [1]) = Inr (r, [1]) \<and>
      (\<forall>t row. valid_reader t \<and> 0 < start_time t \<and> row < STANDARD_VECTOR_SIZE \<longrightarrow>
        loaded_fetch t row r = ChunkInfo_Fetch (checkpoint_reader 20) row ?c)"
    by (rule version_info_roundtrip [OF ids(1) bs]) (simp_all add: example_deleted_def)
  then obtain r where r: "ChunkInfo_Read (bs @ [1]) = Inr (r, [1])"
    "\<forall>t row. valid_reader t \<and> 0 < start_time t \<and> row < STANDARD_VECTOR_SIZE \<longrightarrow>
        loaded_fetch t row r = ChunkInfo_Fetch (checkpoint_reader 20) row ?c" by blast
  have "ChunkInfo_Fetch (checkpoint_reader 20) 3 ?c" "\<not> ChunkInfo_Fetch (checkpoint_reader 20) 4 ?c"
    using ids by (simp_all add: Vector_Fetch_visible row_visible_def)
       (simp_all add: checkpoint_reader_def vec_inserted_at_def example_deleted_def
         NOT_DELETED_ID_def MAX_TRANSACTION_ID_def)
  then show ?thesis using bs r ids(2,3,4) by (intro exI [of _ bs] exI [of _ r]) simp
qed

text \<open>
  The committed deletions are counted exactly: the rows whose deletion id is a commit id, whoever
  inserted them, and the count never fails.
\<close>

theorem committed_deletes_counted:
  "GetCommittedDeletedCount n c = Inr (card {r. r < n \<and> deleted_at c r < TRANSACTION_ID_START})"
  by (rule GetCommittedDeletedCount_eq)

end
