(* ===== verification/Row_Version_Manager.thy ===== *)
theory Row_Version_Manager
  imports Chunk_Info
begin

text \<open>
  \<open>storage/table/row_version_manager.cpp\<close>: the version information of a row group, one optional
  \<open>ChunkInfo\<close> per vector of \<open>STANDARD_VECTOR_SIZE\<close> rows; no info means that every row of the vector is
  visible. The mutex makes every operation atomic, so each is one function of the state. The
  abstraction \<open>row_inserted\<close>/\<open>row_deleted\<close> gives the pair of ids of a row of the row group. The
  metadata blocks \<open>storage_pointers\<close> designates are the byte stream in the option: \<open>None\<close> is the
  empty vector of pointers.
\<close>

section \<open>State and operations\<close>

record RowVersionManager =
  vector_info :: "ChunkInfo option list"
  uncheckpointed_delete_commit :: "transaction_t option"
  storage_pointers :: "uint8_t list option"

definition RowVersionManager_new :: RowVersionManager where
  "RowVersionManager_new =
     \<lparr>vector_info = [], uncheckpointed_delete_commit = None, storage_pointers = None\<rparr>"

definition GetChunkInfo :: "idx_t \<Rightarrow> RowVersionManager \<Rightarrow> ChunkInfo option" where
  "GetChunkInfo vector_idx m =
     (if length (vector_info m) \<le> vector_idx then None else vector_info m ! vector_idx)"

text \<open>The loop over the vectors of \<open>GetCommittedDeletedCount\<close>.\<close>

function committed_deleted_loop :: "idx_t \<Rightarrow> idx_t \<Rightarrow> idx_t \<Rightarrow> idx_t \<Rightarrow> RowVersionManager \<Rightarrow> idx_t result" where
  "committed_deleted_loop count r i deleted_count m =
     (if r < count then
        (if length (vector_info m) \<le> i \<or> vector_info m ! i = None then
           committed_deleted_loop count (r + STANDARD_VECTOR_SIZE) (Suc i) deleted_count m
         else
           let max_count = min STANDARD_VECTOR_SIZE (count - r) in
           if max_count = 0 then Inr deleted_count
           else
             case GetCommittedDeletedCount max_count (the (vector_info m ! i)) of
               Inl e \<Rightarrow> Inl e
             | Inr n \<Rightarrow>
                 committed_deleted_loop count (r + STANDARD_VECTOR_SIZE) (Suc i) (deleted_count + n) m)
      else Inr deleted_count)"
  by pat_completeness auto
termination
  by (relation "measure (\<lambda>(count, r, _, _, _). count - r)") (auto simp: STANDARD_VECTOR_SIZE_def)

declare committed_deleted_loop.simps [simp del]

definition Manager_GetCommittedDeletedCount :: "idx_t \<Rightarrow> RowVersionManager \<Rightarrow> idx_t result" where
  "Manager_GetCommittedDeletedCount count m = committed_deleted_loop count 0 0 0 m"

function checkpoint_count_loop ::
  "TransactionData \<Rightarrow> idx_t \<Rightarrow> idx_t \<Rightarrow> idx_t \<Rightarrow> idx_t \<Rightarrow> RowVersionManager \<Rightarrow> idx_t result" where
  "checkpoint_count_loop t count read_count vector_idx total_count m =
     (if read_count < count then
        let max_count = min (count - read_count) STANDARD_VECTOR_SIZE in
        case (case GetChunkInfo vector_idx m of
                None \<Rightarrow> Inr max_count
              | Some chunk_info \<Rightarrow> GetCheckpointRowCount t max_count chunk_info) of
          Inl e \<Rightarrow> Inl e
        | Inr checkpoint_count \<Rightarrow>
            if checkpoint_count = 0 then
              checkpoint_count_loop t count (read_count + STANDARD_VECTOR_SIZE) (Suc vector_idx) total_count m
            else if total_count \<noteq> read_count then
              Inl (InternalException ''Error in RowGroup::GetCheckpointRowCount - insertions are not sequential'')
            else
              checkpoint_count_loop t count (read_count + STANDARD_VECTOR_SIZE) (Suc vector_idx)
                (total_count + checkpoint_count) m
      else Inr total_count)"
  by pat_completeness auto
termination
  by (relation "measure (\<lambda>(_, count, r, _, _, _). count - r)") (auto simp: STANDARD_VECTOR_SIZE_def)

declare checkpoint_count_loop.simps [simp del]

definition ShouldCheckpointRowGroup :: "transaction_t \<Rightarrow> idx_t \<Rightarrow> RowVersionManager \<Rightarrow> bool result" where
  "ShouldCheckpointRowGroup checkpoint_id count m =
     (let checkpoint_transaction = \<lparr>transaction_id = checkpoint_id, start_time = checkpoint_id\<rparr> in
      case checkpoint_count_loop checkpoint_transaction count 0 0 0 m of
        Inl e \<Rightarrow> Inl e
      | Inr total_count \<Rightarrow>
          if total_count = 0 then Inr False
          else if total_count \<noteq> count then
            Inl (InternalException ''RowGroup::GetCheckpointRowCount returned a partially checkpointed entry'')
          else Inr True)"

definition Manager_GetSelVector ::
  "ScanOptions \<Rightarrow> idx_t \<Rightarrow> idx_t \<Rightarrow> RowVersionManager \<Rightarrow> (idx_t \<times> nat list) result" where
  "Manager_GetSelVector options vector_idx max_count m =
     (case GetChunkInfo vector_idx m of
        None \<Rightarrow> Inr (max_count, [])
      | Some chunk_info \<Rightarrow> ChunkInfo_GetSelVector options max_count chunk_info)"

definition Manager_Fetch :: "TransactionData \<Rightarrow> idx_t \<Rightarrow> RowVersionManager \<Rightarrow> bool" where
  "Manager_Fetch t row m =
     (let vector_index = row div STANDARD_VECTOR_SIZE in
      case GetChunkInfo vector_index m of
        None \<Rightarrow> True
      | Some info \<Rightarrow> ChunkInfo_Fetch t (row - vector_index * STANDARD_VECTOR_SIZE) info)"

definition FillVectorInfo :: "idx_t \<Rightarrow> RowVersionManager \<Rightarrow> RowVersionManager" where
  "FillVectorInfo vector_idx m =
     (if vector_idx < length (vector_info m) then m
      else m\<lparr>vector_info := vector_info m @ replicate (Suc vector_idx - length (vector_info m)) None\<rparr>)"

text \<open>
  The part of vector \<open>vector_idx\<close> that lies in the rows from \<open>row_group_start\<close> to \<open>row_group_end\<close>, as
  the three loops over the vectors of a row range compute it.
\<close>

definition vector_range_start :: "idx_t \<Rightarrow> idx_t \<Rightarrow> idx_t" where
  "vector_range_start row_group_start vector_idx =
     (let start_vector_idx = row_group_start div STANDARD_VECTOR_SIZE in
      if vector_idx = start_vector_idx then row_group_start - start_vector_idx * STANDARD_VECTOR_SIZE else 0)"

definition vector_range_end :: "idx_t \<Rightarrow> idx_t \<Rightarrow> idx_t" where
  "vector_range_end row_group_end vector_idx =
     (let end_vector_idx = (row_group_end - 1) div STANDARD_VECTOR_SIZE in
      if vector_idx = end_vector_idx then row_group_end - end_vector_idx * STANDARD_VECTOR_SIZE
      else STANDARD_VECTOR_SIZE)"

definition set_info :: "idx_t \<Rightarrow> ChunkInfo option \<Rightarrow> RowVersionManager \<Rightarrow> RowVersionManager" where
  "set_info vector_idx info m = m\<lparr>vector_info := (vector_info m)[vector_idx := info]\<rparr>"

definition append_vector ::
  "transaction_t \<Rightarrow> idx_t \<Rightarrow> idx_t \<Rightarrow> idx_t \<Rightarrow> RowVersionManager \<Rightarrow> RowVersionManager \<times> unit result" where
  "append_vector tid vector_idx vector_start vector_end m =
     (if vector_start = 0 \<and> vector_end = STANDARD_VECTOR_SIZE then
        (set_info vector_idx
           (Some (ConstantInfo ((ChunkConstantInfo_new (vector_idx * STANDARD_VECTOR_SIZE))
             \<lparr>insert_id := tid, delete_id := NOT_DELETED_ID\<rparr>))) m, Inr ())
      else
        case vector_info m ! vector_idx of
          None \<Rightarrow>
            (set_info vector_idx
               (Some (VectorInfo (Vector_Append vector_start vector_end tid
                 (ChunkVectorInfo_new (vector_idx * STANDARD_VECTOR_SIZE) 0)))) m, Inr ())
        | Some (VectorInfo c) \<Rightarrow>
            (set_info vector_idx (Some (VectorInfo (Vector_Append vector_start vector_end tid c))) m, Inr ())
        | Some (ConstantInfo c) \<Rightarrow>
            (m, Inl (InternalException ''Error in RowVersionManager::AppendVersionInfo - expected either a ChunkVectorInfo or no version info'')))"

fun append_loop ::
  "transaction_t \<Rightarrow> idx_t \<Rightarrow> idx_t \<Rightarrow> idx_t list \<Rightarrow> RowVersionManager \<Rightarrow> RowVersionManager \<times> unit result" where
  "append_loop tid row_group_start row_group_end [] m = (m, Inr ())"
| "append_loop tid row_group_start row_group_end (v # vs) m =
     (case append_vector tid v (vector_range_start row_group_start v) (vector_range_end row_group_end v) m of
        (m', Inl e) \<Rightarrow> (m', Inl e)
      | (m', Inr _) \<Rightarrow> append_loop tid row_group_start row_group_end vs m')"

definition AppendVersionInfo ::
  "TransactionData \<Rightarrow> idx_t \<Rightarrow> idx_t \<Rightarrow> idx_t \<Rightarrow> RowVersionManager \<Rightarrow> RowVersionManager \<times> unit result" where
  "AppendVersionInfo t count row_group_start row_group_end m =
     (let start_vector_idx = row_group_start div STANDARD_VECTOR_SIZE;
          end_vector_idx = (row_group_end - 1) div STANDARD_VECTOR_SIZE
      in append_loop (transaction_id t) row_group_start row_group_end
           [start_vector_idx..<Suc end_vector_idx] (FillVectorInfo end_vector_idx m))"

text \<open>An index out of the vector and a null pointer raise the engine's checked-access exceptions.\<close>

fun commit_append_loop ::
  "transaction_t \<Rightarrow> idx_t \<Rightarrow> idx_t \<Rightarrow> idx_t list \<Rightarrow> RowVersionManager \<Rightarrow> RowVersionManager \<times> unit result" where
  "commit_append_loop commit_id row_group_start row_group_end [] m = (m, Inr ())"
| "commit_append_loop commit_id row_group_start row_group_end (v # vs) m =
     (if length (vector_info m) \<le> v then
        (m, Inl (InternalException ''Attempted to access index within vector of size''))
      else
        case vector_info m ! v of
          None \<Rightarrow> (m, Inl (InternalException ''Attempted to dereference unique_ptr that is NULL!''))
        | Some info \<Rightarrow>
            commit_append_loop commit_id row_group_start row_group_end vs
              (set_info v (Some (ChunkInfo_CommitAppend commit_id
                 (vector_range_start row_group_start v) (vector_range_end row_group_end v) info)) m))"

definition CommitAppend ::
  "transaction_t \<Rightarrow> idx_t \<Rightarrow> idx_t \<Rightarrow> RowVersionManager \<Rightarrow> RowVersionManager \<times> unit result" where
  "CommitAppend commit_id row_group_start count m =
     (if count = 0 then (m, Inr ())
      else
        let row_group_end = row_group_start + count;
            start_vector_idx = row_group_start div STANDARD_VECTOR_SIZE;
            end_vector_idx = (row_group_end - 1) div STANDARD_VECTOR_SIZE
        in commit_append_loop commit_id row_group_start row_group_end
             [start_vector_idx..<Suc end_vector_idx] m)"

definition cleanup_vector :: "transaction_t \<Rightarrow> idx_t \<Rightarrow> idx_t \<Rightarrow> RowVersionManager \<Rightarrow> RowVersionManager" where
  "cleanup_vector lowest row_group_end v m =
     (let vcount = vector_range_end row_group_end v in
      if vcount \<noteq> STANDARD_VECTOR_SIZE then m
      else if length (vector_info m) \<le> v then m
      else case vector_info m ! v of
             None \<Rightarrow> m
           | Some info \<Rightarrow> if ChunkInfo_Cleanup lowest info then set_info v None m else m)"

definition CleanupAppend :: "transaction_t \<Rightarrow> idx_t \<Rightarrow> idx_t \<Rightarrow> RowVersionManager \<Rightarrow> RowVersionManager" where
  "CleanupAppend lowest_active_transaction row_group_start count m =
     (if count = 0 then m
      else
        let row_group_end = row_group_start + count;
            start_vector_idx = row_group_start div STANDARD_VECTOR_SIZE;
            end_vector_idx = (row_group_end - 1) div STANDARD_VECTOR_SIZE
        in fold (cleanup_vector lowest_active_transaction row_group_end)
             [start_vector_idx..<Suc end_vector_idx] m)"

definition RevertAppend :: "idx_t \<Rightarrow> RowVersionManager \<Rightarrow> RowVersionManager" where
  "RevertAppend new_count m =
     (let start_vector_idx = (new_count + (STANDARD_VECTOR_SIZE - 1)) div STANDARD_VECTOR_SIZE
      in fold (\<lambda>v. set_info v None) [start_vector_idx..<length (vector_info m)] m)"

text \<open>Returns the manager that holds the (possibly new) vector info, and that info.\<close>

definition GetVectorInfo :: "idx_t \<Rightarrow> RowVersionManager \<Rightarrow> RowVersionManager \<times> ChunkVectorInfo" where
  "GetVectorInfo vector_idx m0 =
     (let m = FillVectorInfo vector_idx m0 in
      case vector_info m ! vector_idx of
        None \<Rightarrow>
          let info = ChunkVectorInfo_new (vector_idx * STANDARD_VECTOR_SIZE) 0
          in (set_info vector_idx (Some (VectorInfo info)) m, info)
      | Some (ConstantInfo constant) \<Rightarrow>
          let info = ChunkVectorInfo_new (vector_idx * STANDARD_VECTOR_SIZE) (insert_id constant)
          in (set_info vector_idx (Some (VectorInfo info)) m, info)
      | Some (VectorInfo info) \<Rightarrow> (m, info))"

definition DeleteRows ::
  "idx_t \<Rightarrow> transaction_t \<Rightarrow> nat list \<Rightarrow> idx_t \<Rightarrow> RowVersionManager
   \<Rightarrow> RowVersionManager \<times> (nat \<times> nat list) result" where
  "DeleteRows vector_idx tid rows count m =
     (let (m', info) = GetVectorInfo vector_idx m;
          (info', r) = Vector_Delete tid rows count info
      in (set_info vector_idx (Some (VectorInfo info')) m', r))"

definition CommitDelete ::
  "idx_t \<Rightarrow> transaction_t \<Rightarrow> DeleteInfo \<Rightarrow> RowVersionManager \<Rightarrow> RowVersionManager \<times> unit result" where
  "CommitDelete vector_idx commit_id info m =
     (let m1 = (case uncheckpointed_delete_commit m of
                  None \<Rightarrow> m\<lparr>uncheckpointed_delete_commit := Some commit_id\<rparr>
                | Some latest \<Rightarrow>
                    if commit_id > latest then m\<lparr>uncheckpointed_delete_commit := Some commit_id\<rparr> else m);
          (m2, c) = GetVectorInfo vector_idx m1
      in case Vector_CommitDelete commit_id info c of
           Inl e \<Rightarrow> (m2, Inl e)
         | Inr c' \<Rightarrow> (set_info vector_idx (Some (VectorInfo c')) m2, Inr ()))"

section \<open>Checkpoint\<close>

definition to_serialize :: "transaction_t \<Rightarrow> RowVersionManager \<Rightarrow> (idx_t \<times> ChunkInfo) list" where
  "to_serialize checkpoint_id m =
     concat (map (\<lambda>vector_idx. case vector_info m ! vector_idx of
                    None \<Rightarrow> []
                  | Some chunk_info \<Rightarrow>
                      if \<not> ChunkInfo_HasDeletes checkpoint_id chunk_info then []
                      else [(vector_idx, chunk_info)]) [0..<length (vector_info m)])"

fun write_infos :: "transaction_t \<Rightarrow> (idx_t \<times> ChunkInfo) list \<Rightarrow> uint8_t list result" where
  "write_infos checkpoint_id [] = Inr []"
| "write_infos checkpoint_id ((vector_idx, chunk_info) # es) =
     (case ChunkInfo_Write checkpoint_id chunk_info of Inl e \<Rightarrow> Inl e
      | Inr bs \<Rightarrow>
          (case write_infos checkpoint_id es of Inl e \<Rightarrow> Inl e
           | Inr bss \<Rightarrow> Inr (write_le 8 vector_idx @ bs @ bss)))"

definition Checkpoint ::
  "transaction_t \<Rightarrow> RowVersionManager \<Rightarrow> (RowVersionManager \<times> uint8_t list option) result" where
  "Checkpoint checkpoint_id m =
     (case uncheckpointed_delete_commit m of
        None \<Rightarrow> Inr (m, storage_pointers m)
      | Some latest \<Rightarrow>
          let es = to_serialize checkpoint_id m in
          case (if es = [] then Inr None
                else case write_infos checkpoint_id es of Inl e \<Rightarrow> Inl e
                     | Inr bs \<Rightarrow> Inr (Some (write_le 8 (length es) @ bs))) of
            Inl e \<Rightarrow> Inl e
          | Inr storage \<Rightarrow>
              let m1 = m\<lparr>storage_pointers := storage\<rparr>;
                  m2 = (if latest \<le> checkpoint_id then m1\<lparr>uncheckpointed_delete_commit := None\<rparr> else m1)
              in Inr (m2, storage))"

definition MAX_ROW_GROUP_SIZE :: idx_t where
  "MAX_ROW_GROUP_SIZE = 2 ^ 30"

text \<open>\<open>vector_index * STANDARD_VECTOR_SIZE\<close> wraps at 64 bits.\<close>

fun deserialize_loop :: "nat \<Rightarrow> uint8_t list \<Rightarrow> RowVersionManager \<Rightarrow> RowVersionManager result" where
  "deserialize_loop 0 s m = Inr m"
| "deserialize_loop (Suc n) s m =
     (case read_le 8 s of Inl e \<Rightarrow> Inl e
      | Inr (vector_index, s1) \<Rightarrow>
          if MAX_ROW_GROUP_SIZE \<le> (vector_index * STANDARD_VECTOR_SIZE) mod 2 ^ 64 then
            Inl (IOException ''In DeserializeDeletes, vector_index is out of range for the max row group size. Corrupted file?'')
          else
            (case ChunkInfo_Read s1 of Inl e \<Rightarrow> Inl e
             | Inr (info, s2) \<Rightarrow> deserialize_loop n s2 (set_info vector_index info (FillVectorInfo vector_index m))))"

definition Deserialize :: "uint8_t list option \<Rightarrow> RowVersionManager option result" where
  "Deserialize delete_pointer =
     (case delete_pointer of
        None \<Rightarrow> Inr None
      | Some s \<Rightarrow>
          (case read_le 8 s of Inl e \<Rightarrow> Inl e
           | Inr (chunk_count, s1) \<Rightarrow>
               (case deserialize_loop chunk_count s1 (RowVersionManager_new\<lparr>storage_pointers := Some s\<rparr>) of
                  Inl e \<Rightarrow> Inl e
                | Inr m \<Rightarrow> Inr (Some (m\<lparr>uncheckpointed_delete_commit := None\<rparr>)))))"

definition HasUnserializedChanges :: "RowVersionManager \<Rightarrow> bool" where
  "HasUnserializedChanges m \<longleftrightarrow> uncheckpointed_delete_commit m \<noteq> None"

section \<open>The row versions of a row group\<close>

definition row_inserted :: "RowVersionManager \<Rightarrow> idx_t \<Rightarrow> transaction_t" where
  "row_inserted m row =
     (case GetChunkInfo (row div STANDARD_VECTOR_SIZE) m of None \<Rightarrow> 0
      | Some info \<Rightarrow> inserted_at info (row mod STANDARD_VECTOR_SIZE))"

definition row_deleted :: "RowVersionManager \<Rightarrow> idx_t \<Rightarrow> transaction_t" where
  "row_deleted m row =
     (case GetChunkInfo (row div STANDARD_VECTOR_SIZE) m of None \<Rightarrow> NOT_DELETED_ID
      | Some info \<Rightarrow> deleted_at info (row mod STANDARD_VECTOR_SIZE))"

definition mgr_wf :: "RowVersionManager \<Rightarrow> bool" where
  "mgr_wf m \<longleftrightarrow> (\<forall>v info. GetChunkInfo v m = Some info \<longrightarrow> chunk_wf info)"

lemma vector_size_pos [simp]: "0 < STANDARD_VECTOR_SIZE"
  by (simp add: STANDARD_VECTOR_SIZE_def)

lemma row_mod_less [simp]: "row mod STANDARD_VECTOR_SIZE < STANDARD_VECTOR_SIZE"
  by simp

lemma GetChunkInfo_set_info:
  "GetChunkInfo w (set_info v i m) = (if w = v \<and> v < length (vector_info m) then i else GetChunkInfo w m)"
  by (auto simp: GetChunkInfo_def set_info_def nth_list_update)

lemma length_set_info [simp]: "length (vector_info (set_info v i m)) = length (vector_info m)"
  by (simp add: set_info_def)

lemma GetChunkInfo_FillVectorInfo [simp]: "GetChunkInfo w (FillVectorInfo v m) = GetChunkInfo w m"
  by (auto simp: GetChunkInfo_def FillVectorInfo_def nth_append)

lemma length_FillVectorInfo [simp]:
  "length (vector_info (FillVectorInfo v m)) = max (Suc v) (length (vector_info m))"
  by (auto simp: FillVectorInfo_def)

lemma nth_GetChunkInfo: "v < length (vector_info m) \<Longrightarrow> vector_info m ! v = GetChunkInfo v m"
  by (simp add: GetChunkInfo_def)

lemma row_inserted_cong: "GetChunkInfo (row div STANDARD_VECTOR_SIZE) m' = GetChunkInfo (row div STANDARD_VECTOR_SIZE) m \<Longrightarrow>
    row_inserted m' row = row_inserted m row \<and> row_deleted m' row = row_deleted m row"
  by (simp add: row_inserted_def row_deleted_def)

lemma mgr_wf_Fill [simp]: "mgr_wf (FillVectorInfo v m) = mgr_wf m"
  by (simp add: mgr_wf_def)

lemma mgr_wf_set_info: "mgr_wf m \<Longrightarrow> (\<And>info. i = Some info \<Longrightarrow> chunk_wf info) \<Longrightarrow> mgr_wf (set_info v i m)"
  by (auto simp: mgr_wf_def GetChunkInfo_set_info split: if_splits)

lemma Manager_Fetch_visible:
  assumes "valid_reader t" "0 < start_time t"
  shows "Manager_Fetch t row m = row_visible t (row_inserted m row) (row_deleted m row)"
proof (cases "GetChunkInfo (row div STANDARD_VECTOR_SIZE) m")
  case None
  then show ?thesis
    using assms not_deleted_visible [OF assms(1)]
    by (simp add: Manager_Fetch_def row_inserted_def row_deleted_def row_visible_def)
next
  case (Some info)
  then show ?thesis
    by (simp add: Manager_Fetch_def row_inserted_def row_deleted_def chunk.fetch_visible
        minus_div_mult_eq_mod)
qed

lemma le_div_mod:
  fixes a b S :: nat
  shows "a \<le> b \<longleftrightarrow> a div S < b div S \<or> a div S = b div S \<and> a mod S \<le> b mod S"
proof (cases "a div S = b div S")
  case True
  have "a = b div S * S + a mod S" using div_mult_mod_eq [of a S] True by simp
  moreover have "b = b div S * S + b mod S" by simp
  ultimately have "a \<le> b \<longleftrightarrow> a mod S \<le> b mod S" by linarith
  with True show ?thesis by simp
next
  case False
  then show ?thesis using div_le_mono [of a b S] div_le_mono [of b a S] by linarith
qed

lemma end_offset: "0 < (e::nat) \<Longrightarrow> e - (e - 1) div S * S = Suc ((e - 1) mod S)"
proof -
  assume "0 < e"
  moreover have "(e - 1) div S * S + (e - 1) mod S = e - 1" by (rule div_mult_mod_eq)
  ultimately show ?thesis by linarith
qed

text \<open>A row lies in a row range when its vector does and its offset lies in the vector's part.\<close>

lemma in_vector_range:
  assumes "s < e"
  shows "s \<le> row \<and> row < e \<longleftrightarrow>
    row div STANDARD_VECTOR_SIZE \<in> set [s div STANDARD_VECTOR_SIZE..<Suc ((e - 1) div STANDARD_VECTOR_SIZE)] \<and>
    vector_range_start s (row div STANDARD_VECTOR_SIZE) \<le> row mod STANDARD_VECTOR_SIZE \<and>
    row mod STANDARD_VECTOR_SIZE < vector_range_end e (row div STANDARD_VECTOR_SIZE)"
proof -
  let ?S = STANDARD_VECTOR_SIZE
  let ?sd = "s div ?S" and ?ed = "(e - 1) div ?S" and ?q = "row div ?S" and ?x = "row mod ?S"
  have start: "vector_range_start s ?q = (if ?q = ?sd then s mod ?S else 0)"
    by (simp add: vector_range_start_def minus_div_mult_eq_mod)
  have fin: "vector_range_end e ?q = (if ?q = ?ed then Suc ((e - 1) mod ?S) else ?S)"
    using end_offset [of e ?S] assms by (simp add: vector_range_end_def)
  have vecs: "?q \<in> set [?sd..<Suc ?ed] \<longleftrightarrow> ?sd \<le> ?q \<and> ?q \<le> ?ed" by auto
  have "s \<le> row \<and> row < e \<longleftrightarrow> s \<le> row \<and> row \<le> e - 1" using assms by linarith
  also have "\<dots> \<longleftrightarrow> (?sd < ?q \<or> ?sd = ?q \<and> s mod ?S \<le> ?x) \<and> (?q < ?ed \<or> ?q = ?ed \<and> ?x \<le> (e - 1) mod ?S)"
    using le_div_mod [of s row ?S] le_div_mod [of row "e - 1" ?S] by blast
  also have "\<dots> \<longleftrightarrow> (?sd \<le> ?q \<and> ?q \<le> ?ed) \<and> (if ?q = ?sd then s mod ?S else 0) \<le> ?x \<and>
      ?x < (if ?q = ?ed then Suc ((e - 1) mod ?S) else ?S)"
    using row_mod_less [of row] by (cases "?q = ?sd"; cases "?q = ?ed") (auto simp: less_Suc_eq_le order_le_less)
  finally show ?thesis by (simp only: start fin vecs)
qed

lemma vector_range_bounds:
  assumes "s < e" "v \<le> (e - 1) div STANDARD_VECTOR_SIZE"
  shows "vector_range_end e v \<le> STANDARD_VECTOR_SIZE" "0 < vector_range_end e v"
    and "vector_range_start s v < STANDARD_VECTOR_SIZE"
proof -
  have "e - (e - 1) div STANDARD_VECTOR_SIZE * STANDARD_VECTOR_SIZE = Suc ((e - 1) mod STANDARD_VECTOR_SIZE)"
    using assms(1) by (intro end_offset) simp
  then show "vector_range_end e v \<le> STANDARD_VECTOR_SIZE" "0 < vector_range_end e v"
    by (simp_all add: vector_range_end_def Let_def Suc_le_eq)
  show "vector_range_start s v < STANDARD_VECTOR_SIZE"
    by (simp add: vector_range_start_def Let_def minus_div_mult_eq_mod)
qed

section \<open>Appending\<close>

text \<open>No version information for the vectors that begin at or after a row: what \<open>RevertAppend\<close> leaves.\<close>

definition fresh_from :: "idx_t \<Rightarrow> RowVersionManager \<Rightarrow> bool" where
  "fresh_from n m \<longleftrightarrow> (\<forall>v. n \<le> v * STANDARD_VECTOR_SIZE \<longrightarrow> GetChunkInfo v m = None)"

definition info_inserted :: "ChunkInfo option \<Rightarrow> idx_t \<Rightarrow> transaction_t" where
  "info_inserted i r = (case i of None \<Rightarrow> 0 | Some info \<Rightarrow> inserted_at info r)"

definition info_deleted :: "ChunkInfo option \<Rightarrow> idx_t \<Rightarrow> transaction_t" where
  "info_deleted i r = (case i of None \<Rightarrow> NOT_DELETED_ID | Some info \<Rightarrow> deleted_at info r)"

lemma row_info: "row_inserted m row = info_inserted (GetChunkInfo (row div STANDARD_VECTOR_SIZE) m) (row mod STANDARD_VECTOR_SIZE)"
  "row_deleted m row = info_deleted (GetChunkInfo (row div STANDARD_VECTOR_SIZE) m) (row mod STANDARD_VECTOR_SIZE)"
  by (simp_all add: row_inserted_def row_deleted_def info_inserted_def info_deleted_def)

lemma new_vec [simp]:
  "vec_inserted_at (ChunkVectorInfo_new start ins) r = ins"
  "vec_deleted_at (ChunkVectorInfo_new start ins) r = NOT_DELETED_ID"
  "HasConstantInsertionId (ChunkVectorInfo_new start ins)"
  "constant_insert_id (ChunkVectorInfo_new start ins) = ins"
  by (simp_all add: vec_inserted_at_def vec_deleted_at_def ChunkVectorInfo_new_def HasConstantInsertionId_def)

lemma append_vector_effect:
  assumes "append_vector tid v s e m = (m', Inr u)" "v < length (vector_info m)"
    and "mgr_wf m" "s = 0 \<Longrightarrow> GetChunkInfo v m = None"
  obtains info where "m' = set_info v (Some info) m" "chunk_wf info"
    "\<And>r. r < STANDARD_VECTOR_SIZE \<Longrightarrow> s \<le> r \<Longrightarrow> r < e \<Longrightarrow> inserted_at info r = tid"
    "\<And>r. r < s \<Longrightarrow> r < STANDARD_VECTOR_SIZE \<Longrightarrow> inserted_at info r = info_inserted (GetChunkInfo v m) r"
    "\<And>r. r < STANDARD_VECTOR_SIZE \<Longrightarrow> deleted_at info r = info_deleted (GetChunkInfo v m) r"
proof -
  let ?new = "ChunkVectorInfo_new (v * STANDARD_VECTOR_SIZE) 0"
  consider (full) "s = 0" "e = STANDARD_VECTOR_SIZE"
    | (create) "\<not> (s = 0 \<and> e = STANDARD_VECTOR_SIZE)" "GetChunkInfo v m = None"
    | (extend) c where "0 < s" "GetChunkInfo v m = Some (VectorInfo c)"
    using assms by (auto simp: append_vector_def nth_GetChunkInfo split: option.splits ChunkInfo.splits if_splits)
  then show thesis
  proof cases
    case full
    then show thesis
      using assms by (intro that [of "ConstantInfo ((ChunkConstantInfo_new (v * STANDARD_VECTOR_SIZE))
             \<lparr>insert_id := tid, delete_id := NOT_DELETED_ID\<rparr>)"])
        (auto simp: append_vector_def chunk_abs info_deleted_def)
  next
    case create
    then have "m' = set_info v (Some (VectorInfo (Vector_Append s e tid ?new))) m"
      using assms(1,2) by (auto simp: append_vector_def nth_GetChunkInfo split: if_splits)
    then show thesis
      by (rule that) (use create Append_effect [of ?new s] Append_effect(3) [of ?new s 0] in \<open>simp_all add: info_inserted_def info_deleted_def\<close>)
  next
    case extend
    then have wf: "vec_wf c" using assms(3) chunk_wf.simps(2) [of c] unfolding mgr_wf_def by blast
    have "m' = set_info v (Some (VectorInfo (Vector_Append s e tid c))) m"
      using assms(1,2) extend by (simp add: append_vector_def nth_GetChunkInfo)
    then show thesis
      by (rule that) (use extend Append_effect [OF wf, of s] Append_effect(3) [OF wf, of s 0]
          in \<open>auto simp: info_inserted_def info_deleted_def vec_inserted_at_def HasConstantInsertionId_def
            split: option.splits\<close>)
  qed
qed

lemma append_loop_effect:
  assumes "append_loop tid s e vs m = (m', Inr u)" "mgr_wf m" "distinct vs"
    and "\<forall>v \<in> set vs. v < length (vector_info m)"
    and "\<forall>v \<in> set vs. vector_range_start s v = 0 \<longrightarrow> GetChunkInfo v m = None"
  shows "mgr_wf m' \<and> length (vector_info m') = length (vector_info m) \<and>
    (\<forall>v. v \<notin> set vs \<longrightarrow> GetChunkInfo v m' = GetChunkInfo v m) \<and>
    (\<forall>v \<in> set vs. \<forall>r < STANDARD_VECTOR_SIZE.
      (vector_range_start s v \<le> r \<and> r < vector_range_end e v \<longrightarrow> info_inserted (GetChunkInfo v m') r = tid) \<and>
      (r < vector_range_start s v \<longrightarrow>
        info_inserted (GetChunkInfo v m') r = info_inserted (GetChunkInfo v m) r) \<and>
      info_deleted (GetChunkInfo v m') r = info_deleted (GetChunkInfo v m) r)"
  using assms
proof (induction vs arbitrary: m)
  case (Cons v vs)
  let ?s = "vector_range_start s v" and ?e = "vector_range_end e v"
  obtain m1 u1 where step: "append_vector tid v ?s ?e m = (m1, Inr u1)"
    and rest: "append_loop tid s e vs m1 = (m', Inr u)"
    using Cons.prems(1) by (auto split: prod.splits sum.splits)
  obtain info where info: "m1 = set_info v (Some info) m" "chunk_wf info"
    "\<And>r. r < STANDARD_VECTOR_SIZE \<Longrightarrow> ?s \<le> r \<Longrightarrow> r < ?e \<Longrightarrow> inserted_at info r = tid"
    "\<And>r. r < ?s \<Longrightarrow> r < STANDARD_VECTOR_SIZE \<Longrightarrow> inserted_at info r = info_inserted (GetChunkInfo v m) r"
    "\<And>r. r < STANDARD_VECTOR_SIZE \<Longrightarrow> deleted_at info r = info_deleted (GetChunkInfo v m) r"
    by (rule append_vector_effect [OF step _ Cons.prems(2)]) (use Cons.prems(4,5) in auto)
  have wf1: "mgr_wf m1" using Cons.prems(2) info(1,2) by (auto intro: mgr_wf_set_info)
  have get1: "GetChunkInfo w m1 = (if w = v then Some info else GetChunkInfo w m)" for w
    using Cons.prems(4) by (simp add: info(1) GetChunkInfo_set_info)
  have len1: "length (vector_info m1) = length (vector_info m)" by (simp add: info(1))
  have IH: "mgr_wf m' \<and> length (vector_info m') = length (vector_info m1) \<and>
    (\<forall>v. v \<notin> set vs \<longrightarrow> GetChunkInfo v m' = GetChunkInfo v m1) \<and>
    (\<forall>v \<in> set vs. \<forall>r < STANDARD_VECTOR_SIZE.
      (vector_range_start s v \<le> r \<and> r < vector_range_end e v \<longrightarrow> info_inserted (GetChunkInfo v m') r = tid) \<and>
      (r < vector_range_start s v \<longrightarrow>
        info_inserted (GetChunkInfo v m') r = info_inserted (GetChunkInfo v m1) r) \<and>
      info_deleted (GetChunkInfo v m') r = info_deleted (GetChunkInfo v m1) r)"
    using Cons.prems(3,4,5) by (intro Cons.IH [OF rest wf1]) (auto simp: get1 len1)
  have "GetChunkInfo v m' = Some info" using IH Cons.prems(3) get1 by simp
  moreover have "w \<in> set vs \<Longrightarrow> GetChunkInfo w m1 = GetChunkInfo w m" for w
    using Cons.prems(3) get1 by auto
  ultimately show ?case
    using IH info(3,4,5) get1 len1 by (auto simp: info_inserted_def [of "Some info"] info_deleted_def [of "Some info"])
qed simp

lemma AppendVersionInfo_rows:
  assumes "mgr_wf m" "s < e" "fresh_from s m" "AppendVersionInfo t count s e m = (m', Inr u)"
  shows "mgr_wf m'" "fresh_from e m'"
    and "row < s \<Longrightarrow> row_inserted m' row = row_inserted m row"
    and "s \<le> row \<Longrightarrow> row < e \<Longrightarrow> row_inserted m' row = transaction_id t"
    and "row_deleted m' row = row_deleted m row"
proof -
  let ?S = STANDARD_VECTOR_SIZE
  let ?vs = "[s div ?S..<Suc ((e - 1) div ?S)]"
  let ?m = "FillVectorInfo ((e - 1) div ?S) m"
  have loop: "append_loop (transaction_id t) s e ?vs ?m = (m', Inr u)"
    using assms(4) by (simp add: AppendVersionInfo_def Let_def del: upt_Suc)
  have aligned: "GetChunkInfo v m = None" if "v \<in> set ?vs" "vector_range_start s v = 0" for v
  proof -
    have "s \<le> v * ?S"
    proof (cases "v = s div ?S")
      case True
      with that(2) have "s - s div ?S * ?S = 0" by (simp add: vector_range_start_def)
      then show ?thesis using True by simp
    next
      case False
      then have "Suc (s div ?S) \<le> v" using that(1) by auto
      then have "Suc (s div ?S) * ?S \<le> v * ?S" by (rule mult_le_mono1)
      moreover have "s < Suc (s div ?S) * ?S" using dividend_less_div_times [of ?S s] by simp
      ultimately show ?thesis by linarith
    qed
    then show ?thesis using assms(3) by (simp add: fresh_from_def)
  qed
  have L: "mgr_wf m' \<and> length (vector_info m') = length (vector_info ?m) \<and>
    (\<forall>v. v \<notin> set ?vs \<longrightarrow> GetChunkInfo v m' = GetChunkInfo v ?m) \<and>
    (\<forall>v \<in> set ?vs. \<forall>r < ?S.
      (vector_range_start s v \<le> r \<and> r < vector_range_end e v \<longrightarrow>
        info_inserted (GetChunkInfo v m') r = transaction_id t) \<and>
      (r < vector_range_start s v \<longrightarrow>
        info_inserted (GetChunkInfo v m') r = info_inserted (GetChunkInfo v ?m) r) \<and>
      info_deleted (GetChunkInfo v m') r = info_deleted (GetChunkInfo v ?m) r)"
    by (rule append_loop_effect [OF loop]) (use assms(1) aligned in \<open>auto simp del: upt_Suc\<close>)
  then show "mgr_wf m'" by simp
  let ?q = "row div ?S" and ?r = "row mod ?S"
  have outside: "GetChunkInfo ?q m' = GetChunkInfo ?q m" if "?q \<notin> set ?vs"
    using L that by simp
  show "row_deleted m' row = row_deleted m row"
    using L outside row_mod_less by (cases "?q \<in> set ?vs") (auto simp: row_info simp del: upt_Suc)
  show "row_inserted m' row = transaction_id t" if "s \<le> row" "row < e"
  proof -
    have "?q \<in> set ?vs \<and> vector_range_start s ?q \<le> ?r \<and> ?r < vector_range_end e ?q"
      using that in_vector_range [OF assms(2), of row] by blast
    then show ?thesis using L row_mod_less by (simp add: row_info del: upt_Suc set_upt)
  qed
  show "row_inserted m' row = row_inserted m row" if "row < s"
  proof (cases "?q \<in> set ?vs")
    case True
    then have "s div ?S \<le> ?q" by (simp only: set_upt atLeastLessThan_iff)
    then have "?q = s div ?S" using that div_le_mono [of row s ?S] by simp
    then have "?r < vector_range_start s ?q"
      using that le_div_mod [of s row ?S] by (simp add: vector_range_start_def minus_div_mult_eq_mod not_le [symmetric])
    then show ?thesis using True L row_mod_less by (simp add: row_info del: upt_Suc set_upt)
  next
    case False
    then show ?thesis using outside by (simp add: row_info)
  qed
  show "fresh_from e m'"
    unfolding fresh_from_def
  proof (intro allI impI)
    fix v assume v: "e \<le> v * ?S"
    have "(e - 1) div ?S < v"
      using v assms(2) by (intro div_less_iff_less_mult [THEN iffD2]) auto
    then have "v \<notin> set ?vs" by auto
    moreover have "GetChunkInfo v m = None" using assms(2,3) v by (simp add: fresh_from_def)
    ultimately show "GetChunkInfo v m' = None" using L by simp
  qed
qed

section \<open>Committing, cleaning up and reverting an append\<close>

lemma mgr_wf_VectorInfo: "mgr_wf m \<Longrightarrow> GetChunkInfo v m = Some (VectorInfo c) \<Longrightarrow> vec_wf c"
  using chunk_wf.simps(2) unfolding mgr_wf_def by blast

fun constant_insertion :: "ChunkInfo \<Rightarrow> bool" where
  "constant_insertion (ConstantInfo c) = True"
| "constant_insertion (VectorInfo c) = HasConstantInsertionId c"

lemma ChunkInfo_CommitAppend_effect:
  assumes "chunk_wf info"
  shows "chunk_wf (ChunkInfo_CommitAppend commit_id s e info)"
    and "r < STANDARD_VECTOR_SIZE \<Longrightarrow> inserted_at (ChunkInfo_CommitAppend commit_id s e info) r =
      (if constant_insertion info \<or> s \<le> r \<and> r < e then commit_id else inserted_at info r)"
    and "deleted_at (ChunkInfo_CommitAppend commit_id s e info) r = deleted_at info r"
proof -
  show "chunk_wf (ChunkInfo_CommitAppend commit_id s e info)"
    using assms Vector_CommitAppend_effect(3) [of _ 0] by (cases info) auto
  show "r < STANDARD_VECTOR_SIZE \<Longrightarrow> inserted_at (ChunkInfo_CommitAppend commit_id s e info) r =
      (if constant_insertion info \<or> s \<le> r \<and> r < e then commit_id else inserted_at info r)"
    using assms Vector_CommitAppend_effect(1)
    by (cases info) (simp_all add: Constant_CommitAppend_def chunk_abs)
  show "deleted_at (ChunkInfo_CommitAppend commit_id s e info) r = deleted_at info r"
    by (cases info) (simp_all add: Constant_CommitAppend_def chunk_abs Vector_CommitAppend_def
        vec_deleted_at_def split: option.splits)
qed

lemma commit_append_loop_effect:
  assumes "commit_append_loop commit_id s e vs m = (m', Inr u)" "distinct vs"
  shows "length (vector_info m') = length (vector_info m) \<and>
    (\<forall>v \<in> set vs. \<exists>info. GetChunkInfo v m = Some info \<and> GetChunkInfo v m' =
      Some (ChunkInfo_CommitAppend commit_id (vector_range_start s v) (vector_range_end e v) info)) \<and>
    (\<forall>v. v \<notin> set vs \<longrightarrow> GetChunkInfo v m' = GetChunkInfo v m)"
  using assms
proof (induction vs arbitrary: m)
  case (Cons v vs)
  obtain info where info: "v < length (vector_info m)" "vector_info m ! v = Some info"
    using Cons.prems(1) by (auto split: if_splits option.splits)
  let ?new = "ChunkInfo_CommitAppend commit_id (vector_range_start s v) (vector_range_end e v) info"
  let ?m = "set_info v (Some ?new) m"
  have rest: "commit_append_loop commit_id s e vs ?m = (m', Inr u)"
    using Cons.prems(1) info by simp
  have get: "GetChunkInfo w ?m = (if w = v then Some ?new else GetChunkInfo w m)" for w
    using info(1) by (simp add: GetChunkInfo_set_info)
  have old: "GetChunkInfo v m = Some info" using info by (simp add: GetChunkInfo_def)
  have v: "v \<notin> set vs" "distinct vs" using Cons.prems(2) by simp_all
  note IH = Cons.IH [OF rest v(2)]
  have "\<exists>info. GetChunkInfo w m = Some info \<and> GetChunkInfo w m' =
      Some (ChunkInfo_CommitAppend commit_id (vector_range_start s w) (vector_range_end e w) info)"
    if "w \<in> set (v # vs)" for w
  proof (cases "w = v")
    case True
    then show ?thesis using IH v get old by simp
  next
    case False
    then have "w \<in> set vs" using that by simp
    with IH have "\<exists>info. GetChunkInfo w ?m = Some info \<and> GetChunkInfo w m' =
      Some (ChunkInfo_CommitAppend commit_id (vector_range_start s w) (vector_range_end e w) info)" by blast
    then show ?thesis using get [of w] False by simp
  qed
  then show ?case using IH get by simp
qed simp

lemma commit_append_loop_defined:
  assumes "distinct vs" "\<forall>v \<in> set vs. GetChunkInfo v m \<noteq> None"
  shows "\<exists>m'. commit_append_loop commit_id s e vs m = (m', Inr ())"
  using assms
proof (induction vs arbitrary: m)
  case (Cons v vs)
  then have lt: "v < length (vector_info m)" by (auto simp: GetChunkInfo_def split: if_splits)
  obtain info where info: "vector_info m ! v = Some info"
    using Cons.prems(2) lt by (auto simp: GetChunkInfo_def)
  have "\<exists>m'. commit_append_loop commit_id s e vs (set_info v (Some (ChunkInfo_CommitAppend commit_id
      (vector_range_start s v) (vector_range_end e v) info)) m) = (m', Inr ())"
    using Cons.prems by (intro Cons.IH) (auto simp: GetChunkInfo_set_info)
  then show ?case using lt info by simp
qed simp

text \<open>The rows outside the range that share a vector with a constant insertion id are committed with it.\<close>

lemma CommitAppend_rows:
  assumes "mgr_wf m" "0 < count" "CommitAppend commit_id s count m = (m', Inr u)"
    and "\<forall>r. s \<le> r \<and> r < s + count \<longrightarrow> row_inserted m r = tid"
  shows "mgr_wf m'"
    and "s \<le> row \<Longrightarrow> row < s + count \<Longrightarrow> row_inserted m' row = commit_id"
    and "row_inserted m row \<noteq> tid \<Longrightarrow> row_inserted m' row = row_inserted m row"
    and "row_deleted m' row = row_deleted m row"
proof -
  let ?S = STANDARD_VECTOR_SIZE and ?e = "s + count"
  let ?vs = "[s div ?S..<Suc ((?e - 1) div ?S)]"
  have lt: "s < ?e" using assms(2) by simp
  have "commit_append_loop commit_id s ?e ?vs m = (m', Inr u)"
    using assms(2,3) by (simp add: CommitAppend_def Let_def del: upt_Suc)
  from commit_append_loop_effect [OF this]
  have L: "\<forall>v \<in> set ?vs. \<exists>info. GetChunkInfo v m = Some info \<and> GetChunkInfo v m' =
      Some (ChunkInfo_CommitAppend commit_id (vector_range_start s v) (vector_range_end ?e v) info)"
    and out: "\<forall>v. v \<notin> set ?vs \<longrightarrow> GetChunkInfo v m' = GetChunkInfo v m"
    using distinct_upt by blast+
  show "mgr_wf m'"
    unfolding mgr_wf_def
  proof (intro allI impI)
    fix v info' assume get: "GetChunkInfo v m' = Some info'"
    show "chunk_wf info'"
    proof (cases "v \<in> set ?vs")
      case True
      then obtain info where "GetChunkInfo v m = Some info" "info' =
          ChunkInfo_CommitAppend commit_id (vector_range_start s v) (vector_range_end ?e v) info"
        using L get by fastforce
      then show ?thesis using assms(1) ChunkInfo_CommitAppend_effect(1) by (auto simp: mgr_wf_def)
    next
      case False
      then show ?thesis using out get assms(1) by (simp add: mgr_wf_def del: set_upt)
    qed
  qed
  let ?q = "row div ?S" and ?r = "row mod ?S"
  have in_vs: "row_inserted m' row = (if constant_insertion info \<or> s \<le> row \<and> row < ?e
        then commit_id else row_inserted m row) \<and> row_deleted m' row = row_deleted m row"
    if "?q \<in> set ?vs" "GetChunkInfo ?q m = Some info" for info
  proof -
    have wf: "chunk_wf info" using assms(1) that(2) by (auto simp: mgr_wf_def)
    have get: "GetChunkInfo ?q m' = Some (ChunkInfo_CommitAppend commit_id
        (vector_range_start s ?q) (vector_range_end ?e ?q) info)"
      using L that by fastforce
    show ?thesis
      using ChunkInfo_CommitAppend_effect(2,3) [OF wf] in_vector_range [OF lt, of row] that(1)
      by (simp add: row_inserted_def row_deleted_def get that(2) del: set_upt)
  qed
  show "row_deleted m' row = row_deleted m row"
    using in_vs L out row_inserted_cong [of row m' m] by (cases "?q \<in> set ?vs") (blast, simp del: set_upt)
  show "row_inserted m' row = commit_id" if "s \<le> row" "row < ?e"
  proof -
    have "?q \<in> set ?vs" using in_vector_range [OF lt, of row] that by blast
    then show ?thesis using in_vs L that by fastforce
  qed
  show "row_inserted m' row = row_inserted m row" if other: "row_inserted m row \<noteq> tid"
  proof (cases "?q \<in> set ?vs")
    case False
    then show ?thesis using out row_inserted_cong [of row m' m] by (simp del: set_upt)
  next
    case True
    then obtain info where info: "GetChunkInfo ?q m = Some info" using L by blast
    have "\<not> (s \<le> row \<and> row < ?e)" using other assms(4) by blast
    moreover have "\<not> constant_insertion info"
    proof
      assume const: "constant_insertion info"
      have "vector_range_start s ?q < vector_range_end ?e ?q"
      proof -
        have "s div ?S = (?e - 1) div ?S \<Longrightarrow> s mod ?S \<le> (?e - 1) mod ?S"
          using le_div_mod [of s "?e - 1" ?S] lt by auto
        then show ?thesis
          using end_offset [of ?e ?S] lt by (auto simp: vector_range_start_def vector_range_end_def
              Let_def minus_div_mult_eq_mod)
      qed
      moreover define x where "x = ?q * ?S + vector_range_start s ?q"
      moreover have "vector_range_start s ?q < ?S"
        by (simp add: vector_range_start_def Let_def minus_div_mult_eq_mod)
      ultimately have x: "x div ?S = ?q" "x mod ?S = vector_range_start s ?q" by auto
      then have "s \<le> x \<and> x < ?e"
        using in_vector_range [OF lt, of x] True \<open>vector_range_start s ?q < vector_range_end ?e ?q\<close> by simp
      then have "row_inserted m x = tid" using assms(4) by blast
      moreover have "row_inserted m x = row_inserted m row"
        using const info x by (cases info) (simp_all add: row_inserted_def chunk_abs vec_inserted_at_def
            HasConstantInsertionId_def)
      ultimately show False using other by simp
    qed
    ultimately show ?thesis using in_vs [OF True info] by (simp only: if_False simp_thms)
  qed
qed

lemma fold_cleanup_vector:
  assumes "distinct vs"
  shows "length (vector_info (fold (cleanup_vector lowest e) vs m)) = length (vector_info m) \<and>
    GetChunkInfo w (fold (cleanup_vector lowest e) vs m) =
      (case GetChunkInfo w m of None \<Rightarrow> None
       | Some info \<Rightarrow> if w \<in> set vs \<and> vector_range_end e w = STANDARD_VECTOR_SIZE \<and> ChunkInfo_Cleanup lowest info
           then None else Some info)"
  using assms
proof (induction vs arbitrary: m)
  case (Cons v vs)
  have "length (vector_info (cleanup_vector lowest e v m)) = length (vector_info m)"
    "GetChunkInfo w (cleanup_vector lowest e v m) =
      (case GetChunkInfo w m of None \<Rightarrow> None
       | Some info \<Rightarrow> if w = v \<and> vector_range_end e w = STANDARD_VECTOR_SIZE \<and> ChunkInfo_Cleanup lowest info
           then None else Some info)"
  proof -
    show "length (vector_info (cleanup_vector lowest e v m)) = length (vector_info m)"
      by (simp add: cleanup_vector_def Let_def split: option.split)
    show "GetChunkInfo w (cleanup_vector lowest e v m) =
      (case GetChunkInfo w m of None \<Rightarrow> None
       | Some info \<Rightarrow> if w = v \<and> vector_range_end e w = STANDARD_VECTOR_SIZE \<and> ChunkInfo_Cleanup lowest info
           then None else Some info)"
    proof (cases "v < length (vector_info m)")
      case True
      then show ?thesis
        by (cases "GetChunkInfo v m"; cases "w = v")
           (simp_all add: cleanup_vector_def Let_def GetChunkInfo_set_info nth_GetChunkInfo split: option.split)
    next
      case False
      then have "GetChunkInfo v m = None" by (simp add: GetChunkInfo_def)
      with False show ?thesis
        by (cases "w = v") (simp_all add: cleanup_vector_def Let_def split: option.split)
    qed
  qed
  then show ?case
    using Cons.IH [of "cleanup_vector lowest e v m"] Cons.prems
    by (cases "GetChunkInfo w m"; cases "w = v") simp_all
qed (auto split: option.splits)

lemma CleanupAppend_info:
  "GetChunkInfo w (CleanupAppend lowest s count m) = GetChunkInfo w m \<or>
   GetChunkInfo w (CleanupAppend lowest s count m) = None \<and>
     (\<exists>info. GetChunkInfo w m = Some info \<and> ChunkInfo_Cleanup lowest info)"
  using fold_cleanup_vector [of "[s div STANDARD_VECTOR_SIZE..<Suc ((s + count - 1) div STANDARD_VECTOR_SIZE)]"
      lowest "s + count" m w]
  by (auto simp: CleanupAppend_def Let_def simp del: upt_Suc split: option.splits if_splits)

lemma fold_set_info_None:
  "GetChunkInfo w (fold (\<lambda>v. set_info v None) vs m) = (if w \<in> set vs then None else GetChunkInfo w m)"
proof (induction vs arbitrary: m)
  case (Cons v vs)
  have "GetChunkInfo v m = None" if "\<not> v < length (vector_info m)" using that by (simp add: GetChunkInfo_def)
  then show ?case using Cons by (auto simp: GetChunkInfo_set_info)
qed simp

lemma GetChunkInfo_RevertAppend:
  "GetChunkInfo w (RevertAppend n m) = (if n \<le> w * STANDARD_VECTOR_SIZE then None else GetChunkInfo w m)"
proof -
  have "(n + (STANDARD_VECTOR_SIZE - 1)) div STANDARD_VECTOR_SIZE \<le> w \<longleftrightarrow>
      n + (STANDARD_VECTOR_SIZE - 1) < Suc w * STANDARD_VECTOR_SIZE"
    by (simp only: less_Suc_eq_le [symmetric] div_less_iff_less_mult vector_size_pos)
  also have "\<dots> \<longleftrightarrow> n \<le> w * STANDARD_VECTOR_SIZE" using vector_size_pos by (simp only: mult_Suc) linarith
  finally have "w \<in> set [(n + (STANDARD_VECTOR_SIZE - 1)) div STANDARD_VECTOR_SIZE..<length (vector_info m)] \<longleftrightarrow>
      n \<le> w * STANDARD_VECTOR_SIZE \<and> w < length (vector_info m)"
    by auto
  moreover have "GetChunkInfo w m = None" if "\<not> w < length (vector_info m)" using that by (simp add: GetChunkInfo_def)
  ultimately show ?thesis by (simp only: RevertAppend_def Let_def fold_set_info_None) metis
qed

section \<open>Deleting rows\<close>

text \<open>
  A constant info that is replaced by a vector info loses its deletion id: the conversion is sound
  when the constant info has none.
\<close>

definition deletable :: "idx_t \<Rightarrow> RowVersionManager \<Rightarrow> bool" where
  "deletable v m \<longleftrightarrow> (\<forall>c. GetChunkInfo v m = Some (ConstantInfo c) \<longrightarrow> delete_id c = NOT_DELETED_ID)"

lemma GetVectorInfo_effect:
  assumes "mgr_wf m" "GetVectorInfo v m = (m', c)"
  shows "GetChunkInfo v m' = Some (VectorInfo c)" "vec_wf c" "v < length (vector_info m')"
    and "w \<noteq> v \<Longrightarrow> GetChunkInfo w m' = GetChunkInfo w m"
    and "vec_inserted_at c r = info_inserted (GetChunkInfo v m) r"
    and "deletable v m \<Longrightarrow> vec_deleted_at c r = info_deleted (GetChunkInfo v m) r"
    and "uncheckpointed_delete_commit m' = uncheckpointed_delete_commit m"
proof -
  let ?f = "FillVectorInfo v m"
  have get: "vector_info ?f ! v = GetChunkInfo v m"
    using GetChunkInfo_FillVectorInfo [of v v m] by (simp add: GetChunkInfo_def del: GetChunkInfo_FillVectorInfo)
  have unc: "uncheckpointed_delete_commit ?f = uncheckpointed_delete_commit m" by (simp add: FillVectorInfo_def)
  consider "GetChunkInfo v m = None" | k where "GetChunkInfo v m = Some (ConstantInfo k)"
    | d where "GetChunkInfo v m = Some (VectorInfo d)"
    by (metis ChunkInfo.exhaust not_None_eq)
  then have "GetChunkInfo v m' = Some (VectorInfo c) \<and> vec_wf c \<and> v < length (vector_info m') \<and>
    (w \<noteq> v \<longrightarrow> GetChunkInfo w m' = GetChunkInfo w m) \<and>
    vec_inserted_at c r = info_inserted (GetChunkInfo v m) r \<and>
    (deletable v m \<longrightarrow> vec_deleted_at c r = info_deleted (GetChunkInfo v m) r) \<and>
    uncheckpointed_delete_commit m' = uncheckpointed_delete_commit m"
  proof cases
    case 1
    then show ?thesis
      using assms(2) unc by (auto simp: GetVectorInfo_def Let_def get GetChunkInfo_set_info info_inserted_def
          info_deleted_def) (simp_all add: set_info_def)
  next
    case 2
    then show ?thesis
      using assms(2) unc by (auto simp: GetVectorInfo_def Let_def get GetChunkInfo_set_info info_inserted_def
          info_deleted_def deletable_def chunk_abs) (simp_all add: set_info_def)
  next
    case 3
    then show ?thesis
      using assms unc mgr_wf_VectorInfo [OF assms(1)]
      by (auto simp: GetVectorInfo_def Let_def get info_inserted_def info_deleted_def)
  qed
  then show "GetChunkInfo v m' = Some (VectorInfo c)" "vec_wf c" "v < length (vector_info m')"
    and "w \<noteq> v \<Longrightarrow> GetChunkInfo w m' = GetChunkInfo w m"
    and "vec_inserted_at c r = info_inserted (GetChunkInfo v m) r"
    and "deletable v m \<Longrightarrow> vec_deleted_at c r = info_deleted (GetChunkInfo v m) r"
    and "uncheckpointed_delete_commit m' = uncheckpointed_delete_commit m" by blast+
qed

text \<open>The rows of the row group that the row array names in a vector.\<close>

definition group_rows :: "idx_t \<Rightarrow> nat set \<Rightarrow> idx_t set" where
  "group_rows v rs = (\<lambda>r. v * STANDARD_VECTOR_SIZE + r) ` rs"

lemma group_rows_iff:
  assumes "rs \<subseteq> {..<STANDARD_VECTOR_SIZE}"
  shows "row \<in> group_rows v rs \<longleftrightarrow> row div STANDARD_VECTOR_SIZE = v \<and> row mod STANDARD_VECTOR_SIZE \<in> rs"
proof
  assume "row \<in> group_rows v rs"
  then show "row div STANDARD_VECTOR_SIZE = v \<and> row mod STANDARD_VECTOR_SIZE \<in> rs"
    using assms by (auto simp: group_rows_def)
next
  assume "row div STANDARD_VECTOR_SIZE = v \<and> row mod STANDARD_VECTOR_SIZE \<in> rs"
  then show "row \<in> group_rows v rs"
    using div_mult_mod_eq [of row STANDARD_VECTOR_SIZE]
    by (auto simp: group_rows_def intro!: image_eqI [of _ _ "row mod STANDARD_VECTOR_SIZE"])
qed

lemma take_rows_ok: "rows_ok rows count \<Longrightarrow> set (take count rows) \<subseteq> {..<STANDARD_VECTOR_SIZE}"
  by (auto simp: rows_ok_def dest: in_set_takeD)

lemma DeleteRows_shape:
  assumes "mgr_wf m" "DeleteRows v tid rows count m = (m', res)"
  obtains c c' m1 where "GetVectorInfo v m = (m1, c)" "Vector_Delete tid rows count c = (c', res)"
    "\<And>w. GetChunkInfo w m' = (if w = v then Some (VectorInfo c') else GetChunkInfo w m)"
proof -
  obtain m1 c where g: "GetVectorInfo v m = (m1, c)" by fastforce
  note eff = GetVectorInfo_effect [OF assms(1) g]
  obtain c' res' where d: "Vector_Delete tid rows count c = (c', res')" by fastforce
  with assms(2) g have "res' = res" "m' = set_info v (Some (VectorInfo c')) m1"
    by (auto simp: DeleteRows_def)
  with d g eff show thesis by (intro that [of m1 c c']) (auto simp: GetChunkInfo_set_info)
qed

lemma DeleteRows_rows:
  assumes "mgr_wf m" "deletable v m" "rows_ok rows count"
    and "DeleteRows v tid rows count m = (m', Inr (k, rows'))"
  shows "mgr_wf m'" "row_inserted m' row = row_inserted m row"
    and "row_deleted m' row =
      (if row \<in> group_rows v (set (take count rows)) then tid else row_deleted m row)"
proof -
  obtain c c' m1 where d: "GetVectorInfo v m = (m1, c)" "Vector_Delete tid rows count c = (c', Inr (k, rows'))"
    "\<And>w. GetChunkInfo w m' = (if w = v then Some (VectorInfo c') else GetChunkInfo w m)"
    by (rule DeleteRows_shape [OF assms(1,4)]) blast
  note eff = GetVectorInfo_effect [OF assms(1) d(1)]
  note del = Vector_Delete_ok [OF eff(2) assms(3) d(2)]
  show "mgr_wf m'"
    unfolding mgr_wf_def using assms(1) d(3) del by (auto simp: mgr_wf_def split: if_splits)
  show "row_inserted m' row = row_inserted m row"
    using del eff(5) d(3) by (simp add: row_info) (auto simp: info_inserted_def)
  show "row_deleted m' row =
      (if row \<in> group_rows v (set (take count rows)) then tid else row_deleted m row)"
    unfolding group_rows_iff [OF take_rows_ok [OF assms(3)]]
    using del eff(6) [OF assms(2)] d(3) row_mod_less [of row]
    by (simp add: row_info) (auto simp: info_deleted_def)
qed

lemma CommitDelete_rows:
  assumes "mgr_wf m" "deletable v m" "is_consecutive info \<or> di_count info \<le> length (di_rows info)"
    and "committed_rows info \<subseteq> {..<STANDARD_VECTOR_SIZE}"
    and "CommitDelete v commit_id info m = (m', Inr u)"
  shows "mgr_wf m'" "row_inserted m' row = row_inserted m row"
    and "row_deleted m' row =
      (if row \<in> group_rows v (committed_rows info) then commit_id else row_deleted m row)"
    and "uncheckpointed_delete_commit m' = Some (case uncheckpointed_delete_commit m of
           None \<Rightarrow> commit_id | Some latest \<Rightarrow> max commit_id latest)"
proof -
  define m1 where "m1 = (case uncheckpointed_delete_commit m of
                  None \<Rightarrow> m\<lparr>uncheckpointed_delete_commit := Some commit_id\<rparr>
                | Some latest \<Rightarrow>
                    if commit_id > latest then m\<lparr>uncheckpointed_delete_commit := Some commit_id\<rparr> else m)"
  have same: "vector_info m1 = vector_info m"
    by (simp add: m1_def split: option.split)
  then have get1: "GetChunkInfo w m1 = GetChunkInfo w m" for w by (simp add: GetChunkInfo_def)
  have unc: "uncheckpointed_delete_commit m1 = Some (case uncheckpointed_delete_commit m of
           None \<Rightarrow> commit_id | Some latest \<Rightarrow> max commit_id latest)"
    by (auto simp: m1_def max_def split: option.split)
  have wf1: "mgr_wf m1" "deletable v m1" using assms(1,2) by (simp_all add: mgr_wf_def deletable_def get1)
  obtain m2 c where g: "GetVectorInfo v m1 = (m2, c)" by fastforce
  note eff = GetVectorInfo_effect [OF wf1(1) g]
  have run: "CommitDelete v commit_id info m = (case Vector_CommitDelete commit_id info c of
           Inl e \<Rightarrow> (m2, Inl e)
         | Inr c' \<Rightarrow> (set_info v (Some (VectorInfo c')) m2, Inr ()))"
    by (simp add: CommitDelete_def m1_def [symmetric] g)
  then obtain c' where c': "Vector_CommitDelete commit_id info c = Inr c'"
    and m': "m' = set_info v (Some (VectorInfo c')) m2"
    using assms(5) by (auto split: sum.splits)
  have get': "GetChunkInfo w m' = (if w = v then Some (VectorInfo c') else GetChunkInfo w m)" for w
    using eff(3,4) by (simp add: m' GetChunkInfo_set_info get1)
  note del = Vector_CommitDelete_effect [OF eff(2) assms(3) c']
  show "mgr_wf m'"
    unfolding mgr_wf_def using assms(1) get' del(3) [of 0] by (auto simp: mgr_wf_def split: if_splits)
  show "row_inserted m' row = row_inserted m row"
    using del(2) [of "row mod STANDARD_VECTOR_SIZE"] eff(5) get1 by (simp add: row_info get') (auto simp: info_inserted_def)
  show "row_deleted m' row =
      (if row \<in> group_rows v (committed_rows info) then commit_id else row_deleted m row)"
    unfolding group_rows_iff [OF assms(4)]
    using del(1) [of "row mod STANDARD_VECTOR_SIZE"] eff(6) [OF wf1(2)] get1
    by (simp add: row_info get') (auto simp: info_deleted_def)
  show "uncheckpointed_delete_commit m' = Some (case uncheckpointed_delete_commit m of
           None \<Rightarrow> commit_id | Some latest \<Rightarrow> max commit_id latest)"
    using eff(7) unc by (simp add: m' set_info_def)
qed

section \<open>Counting rows\<close>

text \<open>A range of rows that starts at a vector and does not leave it.\<close>

lemma filter_vector_rows:
  assumes "mc \<le> STANDARD_VECTOR_SIZE"
  shows "length (filter P [i * STANDARD_VECTOR_SIZE..<i * STANDARD_VECTOR_SIZE + mc]) =
    length (filter (\<lambda>r. P (i * STANDARD_VECTOR_SIZE + r)) [0..<mc])"
proof -
  have "[i * STANDARD_VECTOR_SIZE..<i * STANDARD_VECTOR_SIZE + mc] =
      map (\<lambda>r. i * STANDARD_VECTOR_SIZE + r) [0..<mc]"
    by (rule nth_equalityI) simp_all
  then show ?thesis by (simp add: filter_map comp_def)
qed

lemma vector_row:
  assumes "r < STANDARD_VECTOR_SIZE"
  shows "row_inserted m (i * STANDARD_VECTOR_SIZE + r) = info_inserted (GetChunkInfo i m) r"
    and "row_deleted m (i * STANDARD_VECTOR_SIZE + r) = info_deleted (GetChunkInfo i m) r"
  using assms by (simp_all add: row_info)

lemma split_rows:
  assumes "r < count"
  shows "length (filter P [r..<count]) =
    length (filter P [r..<r + min STANDARD_VECTOR_SIZE (count - r)]) + length (filter P [r + STANDARD_VECTOR_SIZE..<count])"
proof (cases "STANDARD_VECTOR_SIZE \<le> count - r")
  case True
  then have "[r..<count] = [r..<r + STANDARD_VECTOR_SIZE] @ [r + STANDARD_VECTOR_SIZE..<count]"
    using assms upt_add_eq_append [of r "r + STANDARD_VECTOR_SIZE" "count - r - STANDARD_VECTOR_SIZE"] by simp
  with True show ?thesis by (simp add: min_absorb1)
next
  case False
  then show ?thesis using assms by simp
qed

lemma committed_deleted_loop_eq:
  "r = i * STANDARD_VECTOR_SIZE \<Longrightarrow> committed_deleted_loop count r i dc m =
    Inr (dc + length (filter (\<lambda>x. row_deleted m x < TRANSACTION_ID_START) [r..<count]))"
proof (induction count r i dc m rule: committed_deleted_loop.induct)
  case (1 count r i dc m)
  let ?S = STANDARD_VECTOR_SIZE and ?P = "\<lambda>x. row_deleted m x < TRANSACTION_ID_START"
  show ?case
  proof (cases "r < count")
    case False
    then show ?thesis by (subst committed_deleted_loop.simps) simp
  next
    case True
    define mc where "mc = min ?S (count - r)"
    have mc: "mc \<le> ?S" "0 < mc" using True by (simp_all add: mc_def)
    have next_r: "r + ?S = Suc i * ?S" using "1.prems" by simp
    have part: "length (filter ?P [r..<count]) =
        length (filter (\<lambda>x. info_deleted (GetChunkInfo i m) x < TRANSACTION_ID_START) [0..<mc]) +
        length (filter ?P [r + ?S..<count])"
    proof -
      have "filter (\<lambda>x. ?P (i * ?S + x)) [0..<mc] =
          filter (\<lambda>x. info_deleted (GetChunkInfo i m) x < TRANSACTION_ID_START) [0..<mc]"
        using mc(1) by (intro filter_cong) (auto simp: vector_row)
      then show ?thesis
        using split_rows [OF True, of ?P, folded mc_def] filter_vector_rows [OF mc(1), of ?P i] "1.prems"
        by simp
    qed
    show ?thesis
    proof (cases "GetChunkInfo i m")
      case None
      then have skip: "length (vector_info m) \<le> i \<or> vector_info m ! i = None"
        by (auto simp: GetChunkInfo_def split: if_splits)
      have "\<not> NOT_DELETED_ID < TRANSACTION_ID_START"
        by (simp add: NOT_DELETED_ID_def MAX_TRANSACTION_ID_def TRANSACTION_ID_START_def)
      then show ?thesis
        using "1.IH"(1) [OF True skip next_r] skip True part
        by (simp add: committed_deleted_loop.simps [of count r] None info_deleted_def)
    next
      case (Some info)
      then have noskip: "\<not> (length (vector_info m) \<le> i \<or> vector_info m ! i = None)" "vector_info m ! i = Some info"
        by (auto simp: GetChunkInfo_def split: if_splits)
      have count: "GetCommittedDeletedCount mc info =
          Inr (length (filter (\<lambda>x. deleted_at info x < TRANSACTION_ID_START) [0..<mc]))"
      proof -
        have "{x. x < mc \<and> deleted_at info x < TRANSACTION_ID_START} =
            {x. deleted_at info x < TRANSACTION_ID_START} \<inter> set [0..<mc]" by auto
        then show ?thesis by (simp add: GetCommittedDeletedCount_eq distinct_length_filter)
      qed
      have "committed_deleted_loop count r i dc m = committed_deleted_loop count (r + ?S) (Suc i)
          (dc + length (filter (\<lambda>x. deleted_at info x < TRANSACTION_ID_START) [0..<mc])) m"
        using True noskip count mc(2) by (simp add: committed_deleted_loop.simps [of count r] mc_def [symmetric])
      also have "\<dots> = Inr (dc + length (filter (\<lambda>x. deleted_at info x < TRANSACTION_ID_START) [0..<mc]) +
          length (filter ?P [r + ?S..<count]))"
        using "1.IH"(2) [OF True noskip(1) mc_def _ _ next_r] count mc(2) noskip by simp
      finally show ?thesis using part by (simp add: Some info_deleted_def)
    qed
  qed
qed

definition checkpoint_inserted :: "transaction_t \<Rightarrow> RowVersionManager \<Rightarrow> idx_t \<Rightarrow> bool" where
  "checkpoint_inserted checkpoint_id m row \<longleftrightarrow> row_inserted m row \<le> checkpoint_id"

lemma vector_checkpoint_count:
  assumes "mc \<le> STANDARD_VECTOR_SIZE"
  shows "(case GetChunkInfo i m of
       None \<Rightarrow> Inr mc
     | Some chunk_info \<Rightarrow> GetCheckpointRowCount \<lparr>transaction_id = cid, start_time = cid\<rparr> mc chunk_info) =
   Inr (length (filter (checkpoint_inserted cid m) [i * STANDARD_VECTOR_SIZE..<i * STANDARD_VECTOR_SIZE + mc]))"
proof -
  have part: "length (filter (checkpoint_inserted cid m) [i * STANDARD_VECTOR_SIZE..<i * STANDARD_VECTOR_SIZE + mc]) =
      length (filter (\<lambda>r. info_inserted (GetChunkInfo i m) r \<le> cid) [0..<mc])"
    unfolding filter_vector_rows [OF assms] using assms
    by (intro arg_cong [of _ _ length] filter_cong) (auto simp: checkpoint_inserted_def vector_row)
  show ?thesis
  proof (cases "GetChunkInfo i m")
    case None
    then show ?thesis by (simp add: part info_inserted_def)
  next
    case (Some info)
    define options where "options = (ScanOptions_of \<lparr>transaction_id = cid, start_time = cid\<rparr>)
        \<lparr>so_delete_type := INCLUDE_ALL_DELETED\<rparr>"
    have valid: "valid_scan options" by (simp add: options_def valid_scan_def)
    have selected: "row_selected options ins del \<longleftrightarrow> ins \<le> cid" for ins del
      by (auto simp: row_selected_def options_def ScanOptions_of_def)
    obtain k sel where k: "ChunkInfo_GetSelVector options mc info = Inr (k, sel)"
      using chunk.sel_vector_defined [of options mc info]
      by (cases "ChunkInfo_GetSelVector options mc info") (auto simp: options_def ScanOptions_of_def)
    have "k = length (filter (\<lambda>r. inserted_at info r \<le> cid) [0..<mc])"
      using chunk.sel_vector_rows [OF valid k] by (simp add: selected)
    then show ?thesis
      using k by (simp add: part Some info_inserted_def GetCheckpointRowCount_def options_def [symmetric])
  qed
qed

lemma checkpoint_count_loop_unfold:
  assumes "r = i * STANDARD_VECTOR_SIZE" "r < count"
  and n: "n = length (filter (checkpoint_inserted cid m) [r..<r + min STANDARD_VECTOR_SIZE (count - r)])"
  shows "checkpoint_count_loop \<lparr>transaction_id = cid, start_time = cid\<rparr> count r i tot m =
    (if n \<noteq> 0 \<and> tot \<noteq> r then
       Inl (InternalException ''Error in RowGroup::GetCheckpointRowCount - insertions are not sequential'')
     else checkpoint_count_loop \<lparr>transaction_id = cid, start_time = cid\<rparr> count
            (r + STANDARD_VECTOR_SIZE) (Suc i) (tot + n) m)"
proof -
  have vc: "(case GetChunkInfo i m of
       None \<Rightarrow> Inr (min (count - r) STANDARD_VECTOR_SIZE)
     | Some chunk_info \<Rightarrow> GetCheckpointRowCount \<lparr>transaction_id = cid, start_time = cid\<rparr>
         (min (count - r) STANDARD_VECTOR_SIZE) chunk_info) = Inr n"
  proof -
    have comm: "min (count - r) STANDARD_VECTOR_SIZE = min STANDARD_VECTOR_SIZE (count - r)"
      by (rule min.commute)
    show ?thesis
      unfolding n comm
      using vector_checkpoint_count [of "min STANDARD_VECTOR_SIZE (count - r)" cid i m, folded assms(1)]
      by simp
  qed
  show ?thesis
    by (subst checkpoint_count_loop.simps) (simp add: assms(2) Let_def vc)
qed

text \<open>
  A result of the loop is the number of rows counted; there is one when the rows are all inserted for
  the checkpoint and the ones before were, and when none of them is.
\<close>

lemma checkpoint_count_loop_result:
  assumes "r = i * STANDARD_VECTOR_SIZE"
  shows "checkpoint_count_loop \<lparr>transaction_id = cid, start_time = cid\<rparr> count r i tot m = Inr x \<Longrightarrow>
      x = tot + length (filter (checkpoint_inserted cid m) [r..<count])"
    and "(\<forall>row. r \<le> row \<and> row < count \<longrightarrow> checkpoint_inserted cid m row) \<and> (r < count \<longrightarrow> tot = r) \<or>
      (\<forall>row. r \<le> row \<and> row < count \<longrightarrow> \<not> checkpoint_inserted cid m row) \<Longrightarrow>
      \<exists>x. checkpoint_count_loop \<lparr>transaction_id = cid, start_time = cid\<rparr> count r i tot m = Inr x"
  using assms
proof (induction "count - r" arbitrary: r i tot rule: less_induct)
  case less
  let ?S = STANDARD_VECTOR_SIZE and ?t = "\<lparr>transaction_id = cid, start_time = cid\<rparr>"
    and ?Q = "checkpoint_inserted cid m"
  {
    case 1
    show ?case
    proof (cases "r < count")
      case False
      then have "checkpoint_count_loop ?t count r i tot m = Inr tot"
        by (subst checkpoint_count_loop.simps) simp
      with 1(1) False show ?thesis by simp
    next
      case True
      have smaller: "count - (r + ?S) < count - r"
        using True vector_size_pos by linarith
      define n where "n = length (filter ?Q [r..<r + min ?S (count - r)])"
      have step: "checkpoint_count_loop ?t count (r + ?S) (Suc i) (tot + n) m = Inr x"
        using 1(1) checkpoint_count_loop_unfold [OF 1(2) True n_def, where tot = tot]
        by (simp only: split: if_splits) simp_all
      have "x = tot + n + length (filter ?Q [r + ?S..<count])"
        using 1(2) by (intro less.hyps(1) [OF smaller step]) simp
      then show ?thesis using split_rows [OF True, of ?Q] by (simp add: n_def)
    qed
  next
    case 2
    show ?case
    proof (cases "r < count")
      case False
      then have "checkpoint_count_loop ?t count r i tot m = Inr tot"
        by (subst checkpoint_count_loop.simps) simp
      then show ?thesis by blast
    next
      case True
      have smaller: "count - (r + ?S) < count - r"
        using True vector_size_pos by linarith
      define n where "n = length (filter ?Q [r..<r + min ?S (count - r)])"
      have all: "n = min ?S (count - r)" if "\<forall>row. r \<le> row \<and> row < count \<longrightarrow> ?Q row"
      proof -
        have "filter ?Q [r..<r + min ?S (count - r)] = [r..<r + min ?S (count - r)]"
          using that by (intro filter_True) auto
        then show ?thesis by (simp add: n_def)
      qed
      have none: "n = 0" if "\<forall>row. r \<le> row \<and> row < count \<longrightarrow> \<not> ?Q row"
        using that by (auto simp: n_def filter_empty_conv)
      have "\<exists>x. checkpoint_count_loop ?t count (r + ?S) (Suc i) (tot + n) m = Inr x"
        using 2 True all none by (intro less.hyps(2) [OF smaller]) auto
      moreover have "\<not> (n \<noteq> 0 \<and> tot \<noteq> r)" using 2(1) True none by blast
      ultimately show ?thesis
        using checkpoint_count_loop_unfold [OF 2(2) True n_def, where tot = tot] by simp
    qed
  }
qed

lemma ShouldCheckpointRowGroup_cases:
  "ShouldCheckpointRowGroup cid count m = Inr True \<longleftrightarrow>
     0 < count \<and> (\<forall>row < count. checkpoint_inserted cid m row)"
  "ShouldCheckpointRowGroup cid count m = Inr False \<longleftrightarrow>
     (\<forall>row < count. \<not> checkpoint_inserted cid m row)"
proof -
  let ?t = "\<lparr>transaction_id = cid, start_time = cid\<rparr>" and ?Q = "checkpoint_inserted cid m"
  let ?loop = "checkpoint_count_loop ?t count 0 0 0 m"
  have run: "ShouldCheckpointRowGroup cid count m = (case ?loop of
        Inl e \<Rightarrow> Inl e
      | Inr total_count \<Rightarrow>
          if total_count = 0 then Inr False
          else if total_count \<noteq> count then
            Inl (InternalException ''RowGroup::GetCheckpointRowCount returned a partially checkpointed entry'')
          else Inr True)"
    by (simp add: ShouldCheckpointRowGroup_def Let_def)
  have value_eq: "x = length (filter ?Q [0..<count])" if "?loop = Inr x" for x
    using checkpoint_count_loop_result(1) [OF _ that] by simp
  have total: "\<exists>x. ?loop = Inr x" if "(\<forall>row < count. ?Q row) \<or> (\<forall>row < count. \<not> ?Q row)"
    using checkpoint_count_loop_result(2) [where r = 0 and i = 0 and tot = 0] that by auto
  have all: "length (filter ?Q [0..<count]) = count \<longleftrightarrow> (\<forall>row < count. ?Q row)"
    by (rule filter_upt_eq_length_iff)
  have none: "length (filter ?Q [0..<count]) = 0 \<longleftrightarrow> (\<forall>row < count. \<not> ?Q row)"
    by (auto simp: filter_empty_conv)
  show "ShouldCheckpointRowGroup cid count m = Inr True \<longleftrightarrow> 0 < count \<and> (\<forall>row < count. ?Q row)"
    using total value_eq all none by (cases ?loop) (auto simp: run)
  show "ShouldCheckpointRowGroup cid count m = Inr False \<longleftrightarrow> (\<forall>row < count. \<not> ?Q row)"
    using total value_eq all none by (cases ?loop) (auto simp: run)
qed

section \<open>The checkpoint round trip\<close>

text \<open>
  Ids of a running system: no row carries the largest id, nor is it deleted by the last id before the
  transaction ids, which \<open>HasDeletes\<close> counts as committed and the writer of an open-ended checkpoint
  does not.
\<close>

definition ids_ok :: "RowVersionManager \<Rightarrow> bool" where
  "ids_ok m \<longleftrightarrow> (\<forall>row. row_inserted m row \<noteq> MAX_TRANSACTION_ID \<and> row_deleted m row \<noteq> MAX_TRANSACTION_ID \<and>
     row_deleted m row \<noteq> TRANSACTION_ID_START - 1)"

fun info_start :: "ChunkInfo \<Rightarrow> idx_t" where
  "info_start (ConstantInfo c) = cc_start c"
| "info_start (VectorInfo c) = cv_start c"

definition checkpoint_ok :: "transaction_t \<Rightarrow> RowVersionManager \<Rightarrow> bool" where
  "checkpoint_ok checkpoint_id m \<longleftrightarrow>
     (checkpoint_id < TRANSACTION_ID_START \<or> checkpoint_id = MAX_TRANSACTION_ID) \<and>
     length (vector_info m) * STANDARD_VECTOR_SIZE \<le> MAX_ROW_GROUP_SIZE \<and>
     (\<forall>v info. GetChunkInfo v m = Some info \<longrightarrow> info_start info < 2 ^ 64)"

lemma checkpoint_start:
  assumes "checkpoint_id < TRANSACTION_ID_START \<or> checkpoint_id = MAX_TRANSACTION_ID"
  shows "checkpoint_id \<noteq> NOT_DELETED_ID"
    and "start_time (checkpoint_reader checkpoint_id) \<le> TRANSACTION_ID_START"
    and "checkpoint_id \<noteq> MAX_TRANSACTION_ID \<Longrightarrow>
      d < start_time (checkpoint_reader checkpoint_id) \<longleftrightarrow> d \<le> checkpoint_id"
    and "transaction_id (checkpoint_reader checkpoint_id) = MAX_TRANSACTION_ID"
proof -
  have lt: "checkpoint_id + 1 \<le> TRANSACTION_ID_START \<and> (d < checkpoint_id + 1 \<longleftrightarrow> d \<le> checkpoint_id)"
    if "checkpoint_id \<noteq> MAX_TRANSACTION_ID"
  proof -
    have l: "checkpoint_id < TRANSACTION_ID_START" using assms that by blast
    have "d < checkpoint_id + 1 \<longleftrightarrow> d \<le> checkpoint_id"
    proof -
      have "unat (checkpoint_id + 1) = Suc (unat checkpoint_id)"
      proof -
        have "1 + checkpoint_id \<noteq> 0" using l by (auto simp: add_eq_0_iff TRANSACTION_ID_START_def)
        then show ?thesis by (simp add: unatSuc add.commute [of checkpoint_id])
      qed
      then show ?thesis by (simp add: word_less_nat_alt word_le_nat_alt less_Suc_eq_le)
    qed
    with inc_le [OF l] show ?thesis by blast
  qed
  show "checkpoint_id \<noteq> NOT_DELETED_ID"
    using assms by (auto simp: NOT_DELETED_ID_def MAX_TRANSACTION_ID_def TRANSACTION_ID_START_def)
  show "start_time (checkpoint_reader checkpoint_id) \<le> TRANSACTION_ID_START"
    using lt by (simp add: checkpoint_reader_def) (simp add: TRANSACTION_ID_START_def)
  show "checkpoint_id \<noteq> MAX_TRANSACTION_ID \<Longrightarrow>
      d < start_time (checkpoint_reader checkpoint_id) \<longleftrightarrow> d \<le> checkpoint_id"
    using lt by (simp add: checkpoint_reader_def)
  show "transaction_id (checkpoint_reader checkpoint_id) = MAX_TRANSACTION_ID"
    by (simp add: checkpoint_reader_def MAX_TRANSACTION_ID_def)
qed

lemma start_before_not_deleted:
  assumes "x \<le> TRANSACTION_ID_START" shows "\<not> NOT_DELETED_ID < x"
proof
  assume "NOT_DELETED_ID < x"
  with assms have "NOT_DELETED_ID < TRANSACTION_ID_START" by (rule order.strict_trans2 [rotated])
  then show False by (simp add: NOT_DELETED_ID_def MAX_TRANSACTION_ID_def TRANSACTION_ID_START_def)
qed

text \<open>A vector that is not written has no deletion the checkpoint sees.\<close>

lemma no_deletes_not_deleted:
  assumes "checkpoint_id < TRANSACTION_ID_START \<or> checkpoint_id = MAX_TRANSACTION_ID"
    and "\<not> ChunkInfo_HasDeletes checkpoint_id info" "r < STANDARD_VECTOR_SIZE"
  shows "\<not> deleted_at info r < start_time (checkpoint_reader checkpoint_id)"
proof (cases info)
  case (ConstantInfo c)
  then show ?thesis
    using assms(2) checkpoint_start(3) [OF assms(1)]
    by (cases "checkpoint_id = MAX_TRANSACTION_ID")
       (auto simp: Constant_HasDeletes_def Let_def chunk_abs checkpoint_reader_def not_le dest: less_imp_le)
next
  case (VectorInfo c)
  then show ?thesis
    using assms(2,3) checkpoint_start(3) [OF assms(1)] start_before_not_deleted [OF checkpoint_start(2) [OF assms(1)]]
    by (cases "deleted_data c")
       (auto simp: Vector_HasDeletes_def vec_deleted_at_def split: if_splits)
qed

lemma constant_has_deletes_invisible:
  assumes "checkpoint_id < TRANSACTION_ID_START \<or> checkpoint_id = MAX_TRANSACTION_ID"
    and "Constant_HasDeletes checkpoint_id c" "insert_id c \<noteq> MAX_TRANSACTION_ID"
    and "delete_id c \<noteq> TRANSACTION_ID_START - 1"
  shows "\<not> Constant_Fetch (checkpoint_reader checkpoint_id) row c"
proof (cases "TRANSACTION_ID_START \<le> insert_id c")
  case True
  then have "\<not> insert_id c < start_time (checkpoint_reader checkpoint_id)"
    using checkpoint_start(2) [OF assms(1)] by (meson leD order_trans)
  then show ?thesis
    using assms(3) checkpoint_start(4) [OF assms(1)]
    by (simp add: Constant_Fetch_visible row_visible_def chunk_abs)
next
  case False
  have "delete_id c < start_time (checkpoint_reader checkpoint_id)"
  proof (cases "checkpoint_id = MAX_TRANSACTION_ID")
    case True
    then have "delete_id c \<le> TRANSACTION_ID_START - 1"
      using assms(2) False by (simp add: Constant_HasDeletes_def)
    then show ?thesis using True assms(4) by (simp add: checkpoint_reader_def)
  next
    case other: False
    then show ?thesis
      using assms(2) False checkpoint_start(3) [OF assms(1) other] by (simp add: Constant_HasDeletes_def)
  qed
  then show ?thesis by (simp add: Constant_Fetch_visible row_visible_def chunk_abs)
qed

definition entry_roundtrips :: "transaction_t \<Rightarrow> idx_t \<times> ChunkInfo \<Rightarrow> bool" where
  "entry_roundtrips checkpoint_id e \<longleftrightarrow>
     fst e < 2 ^ 64 \<and> fst e * STANDARD_VECTOR_SIZE < MAX_ROW_GROUP_SIZE \<and>
     (\<forall>bs s. ChunkInfo_Write checkpoint_id (snd e) = Inr bs \<longrightarrow>
       (\<exists>r. ChunkInfo_Read (bs @ s) = Inr (r, s) \<and>
         (\<forall>t row. valid_reader t \<longrightarrow> 0 < start_time t \<longrightarrow> row < STANDARD_VECTOR_SIZE \<longrightarrow>
           loaded_fetch t row r = ChunkInfo_Fetch (checkpoint_reader checkpoint_id) row (snd e))))"

lemma write_deserialize:
  assumes "write_infos checkpoint_id es = Inr bs" "distinct (map fst es)"
    and "\<forall>e \<in> set es. entry_roundtrips checkpoint_id e"
  shows "\<exists>m. deserialize_loop (length es) (bs @ s) m0 = Inr m \<and>
    (\<forall>v. v \<notin> fst ` set es \<longrightarrow> GetChunkInfo v m = GetChunkInfo v m0) \<and>
    (\<forall>(v, info) \<in> set es. \<forall>t row. valid_reader t \<longrightarrow> 0 < start_time t \<longrightarrow> row < STANDARD_VECTOR_SIZE \<longrightarrow>
      loaded_fetch t row (GetChunkInfo v m) = ChunkInfo_Fetch (checkpoint_reader checkpoint_id) row info)"
  using assms
proof (induction es arbitrary: bs m0)
  case Nil
  then show ?case by simp
next
  case (Cons e es)
  obtain v info where e: "e = (v, info)" by fastforce
  obtain b bss where b: "ChunkInfo_Write checkpoint_id info = Inr b" "write_infos checkpoint_id es = Inr bss"
    "bs = write_le 8 v @ b @ bss"
    using Cons.prems(1) by (auto simp: e split: sum.splits)
  have rt: "v < 2 ^ 64" "v * STANDARD_VECTOR_SIZE < MAX_ROW_GROUP_SIZE" "entry_roundtrips checkpoint_id (v, info)"
    using Cons.prems(3) by (auto simp: e entry_roundtrips_def)
  obtain r where r: "ChunkInfo_Read (b @ bss @ s) = Inr (r, bss @ s)"
    "\<And>t row. valid_reader t \<Longrightarrow> 0 < start_time t \<Longrightarrow> row < STANDARD_VECTOR_SIZE \<Longrightarrow>
           loaded_fetch t row r = ChunkInfo_Fetch (checkpoint_reader checkpoint_id) row info"
    using rt(3) b(1) unfolding entry_roundtrips_def fst_conv snd_conv by blast
  define m1 where "m1 = set_info v r (FillVectorInfo v m0)"
  have get1: "GetChunkInfo w m1 = (if w = v then r else GetChunkInfo w m0)" for w
    by (simp add: m1_def GetChunkInfo_set_info less_max_iff_disj)
  have "MAX_ROW_GROUP_SIZE < 2 ^ 64" by (simp add: MAX_ROW_GROUP_SIZE_def)
  then have small: "\<not> MAX_ROW_GROUP_SIZE \<le> (v * STANDARD_VECTOR_SIZE) mod 2 ^ 64"
    using rt(2) mod_less_eq_dividend [of "v * STANDARD_VECTOR_SIZE" "2 ^ 64"] by linarith
  have step: "deserialize_loop (length (e # es)) (bs @ s) m0 = deserialize_loop (length es) (bss @ s) m1"
    using rt(1) small r(1) by (simp add: b(3) read_write_le m1_def)
  obtain m where m: "deserialize_loop (length es) (bss @ s) m1 = Inr m"
    "\<forall>v. v \<notin> fst ` set es \<longrightarrow> GetChunkInfo v m = GetChunkInfo v m1"
    "\<forall>(v, info) \<in> set es. \<forall>t row. valid_reader t \<longrightarrow> 0 < start_time t \<longrightarrow> row < STANDARD_VECTOR_SIZE \<longrightarrow>
      loaded_fetch t row (GetChunkInfo v m) = ChunkInfo_Fetch (checkpoint_reader checkpoint_id) row info"
    using Cons.IH [OF b(2), of m1] Cons.prems(2,3) by auto
  have "GetChunkInfo v m = r" using m(2) Cons.prems(2) get1 by (simp add: e)
  then show ?case using m r(2) step get1 by (auto simp: e)
qed

lemma set_to_serialize:
  "(v, info) \<in> set (to_serialize checkpoint_id m) \<longleftrightarrow>
     GetChunkInfo v m = Some info \<and> ChunkInfo_HasDeletes checkpoint_id info"
proof -
  have "(v, info) \<in> set (to_serialize checkpoint_id m) \<longleftrightarrow>
      (\<exists>i < length (vector_info m). \<exists>c. vector_info m ! i = Some c \<and> ChunkInfo_HasDeletes checkpoint_id c \<and>
        v = i \<and> info = c)"
    by (auto simp: to_serialize_def split: option.splits if_splits) (intro bexI [of _ v] exI [of _ info]; simp)
  then show ?thesis by (auto simp: GetChunkInfo_def)
qed

lemma distinct_to_serialize: "distinct (map fst (to_serialize checkpoint_id m))"
proof -
  have "map fst (concat (map (\<lambda>v. case vector_info m ! v of None \<Rightarrow> [] | Some chunk_info \<Rightarrow>
      if \<not> ChunkInfo_HasDeletes checkpoint_id chunk_info then [] else [(v, chunk_info)]) vs)) =
    filter (\<lambda>v. case vector_info m ! v of None \<Rightarrow> False | Some chunk_info \<Rightarrow>
      ChunkInfo_HasDeletes checkpoint_id chunk_info) vs" for vs
    by (induction vs) (auto split: option.splits)
  then show ?thesis by (simp add: to_serialize_def)
qed

lemma write_infos_defined:
  assumes "checkpoint_id \<noteq> NOT_DELETED_ID" shows "\<exists>bs. write_infos checkpoint_id es = Inr bs"
proof (induction es)
  case (Cons e es)
  obtain v info where e: "e = (v, info)" by fastforce
  have "\<exists>b. ChunkInfo_Write checkpoint_id info = Inr b"
    using Vector_Write_defined [OF assms] by (cases info) auto
  with Cons show ?case by (auto simp: e)
qed simp

text \<open>A row group without a version manager shows all its rows.\<close>

fun loaded_manager_fetch :: "TransactionData \<Rightarrow> idx_t \<Rightarrow> RowVersionManager option \<Rightarrow> bool" where
  "loaded_manager_fetch t row None = True"
| "loaded_manager_fetch t row (Some m) = Manager_Fetch t row m"

lemma entry_ok:
  assumes "checkpoint_ok checkpoint_id m" "ids_ok m" "(v, info) \<in> set (to_serialize checkpoint_id m)"
  shows "entry_roundtrips checkpoint_id (v, info)"
proof -
  have get: "GetChunkInfo v m = Some info" and del: "ChunkInfo_HasDeletes checkpoint_id info"
    using assms(3) by (simp_all add: set_to_serialize)
  have cid: "checkpoint_id < TRANSACTION_ID_START \<or> checkpoint_id = MAX_TRANSACTION_ID"
    using assms(1) by (simp add: checkpoint_ok_def)
  have "v < length (vector_info m)" using get by (auto simp: GetChunkInfo_def split: if_splits)
  then have "v * STANDARD_VECTOR_SIZE < length (vector_info m) * STANDARD_VECTOR_SIZE" by simp
  then have v: "v * STANDARD_VECTOR_SIZE < MAX_ROW_GROUP_SIZE"
    using assms(1) unfolding checkpoint_ok_def by linarith
  then have v64: "v < 2 ^ 64" by (simp add: MAX_ROW_GROUP_SIZE_def STANDARD_VECTOR_SIZE_def)
  have start: "info_start info < 2 ^ 64" using assms(1) get unfolding checkpoint_ok_def by blast
  have const: "cc_start k < 2 ^ 64 \<and> \<not> Constant_Fetch (checkpoint_reader checkpoint_id) 0 k"
    if "info = ConstantInfo k" for k
  proof -
    have "insert_id k \<noteq> MAX_TRANSACTION_ID" "delete_id k \<noteq> TRANSACTION_ID_START - 1"
      using assms(2) get that unfolding ids_ok_def
      by (auto simp: row_inserted_def row_deleted_def chunk_abs dest!: spec [of _ "v * STANDARD_VECTOR_SIZE"])
    then show ?thesis
      using constant_has_deletes_invisible [OF cid, of k 0] del start that by simp
  qed
  have "\<exists>r. ChunkInfo_Read (bs @ s) = Inr (r, s) \<and>
      (\<forall>t row. valid_reader t \<longrightarrow> 0 < start_time t \<longrightarrow> row < STANDARD_VECTOR_SIZE \<longrightarrow>
        loaded_fetch t row r = ChunkInfo_Fetch (checkpoint_reader checkpoint_id) row info)"
    if "ChunkInfo_Write checkpoint_id info = Inr bs" for bs s
    by (rule ChunkInfo_Write_Read [OF checkpoint_start(1) [OF cid] that]) (use start const in auto)
  then show ?thesis
    unfolding entry_roundtrips_def fst_conv snd_conv using v v64 by blast
qed

lemma Checkpoint_Deserialize:
  assumes "checkpoint_ok checkpoint_id m" "ids_ok m" "uncheckpointed_delete_commit m \<noteq> None"
  shows "\<exists>m1 storage r. Checkpoint checkpoint_id m = Inr (m1, storage) \<and> Deserialize storage = Inr r \<and>
    vector_info m1 = vector_info m \<and>
    (\<forall>t row. valid_reader t \<and> 0 < start_time t \<and> row_inserted m row < start_time (checkpoint_reader checkpoint_id) \<longrightarrow>
      loaded_manager_fetch t row r = Manager_Fetch (checkpoint_reader checkpoint_id) row m)"
proof -
  let ?es = "to_serialize checkpoint_id m" and ?reader = "checkpoint_reader checkpoint_id"
  have cid: "checkpoint_id < TRANSACTION_ID_START \<or> checkpoint_id = MAX_TRANSACTION_ID"
    and len: "length (vector_info m) * STANDARD_VECTOR_SIZE \<le> MAX_ROW_GROUP_SIZE"
    using assms(1) by (simp_all add: checkpoint_ok_def)
  note nd = checkpoint_start(1) [OF cid]
  obtain bs where bs: "write_infos checkpoint_id ?es = Inr bs" using write_infos_defined [OF nd] by blast
  define storage where "storage = (if ?es = [] then None else Some (write_le 8 (length ?es) @ bs))"
  obtain latest where latest: "uncheckpointed_delete_commit m = Some latest" using assms(3) by blast
  define m1 where "m1 = (if latest \<le> checkpoint_id
      then m\<lparr>storage_pointers := storage, uncheckpointed_delete_commit := None\<rparr>
      else m\<lparr>storage_pointers := storage\<rparr>)"
  have chk: "Checkpoint checkpoint_id m = Inr (m1, storage)"
    by (simp add: Checkpoint_def latest Let_def bs m1_def storage_def)
  have vi: "vector_info m1 = vector_info m" by (simp add: m1_def)
  text \<open>what a row shows through an optional info\<close>
  have unwritten: "Manager_Fetch ?reader row m"
    if "row_inserted m row < start_time ?reader"
      "row div STANDARD_VECTOR_SIZE \<notin> fst ` set ?es" for row
  proof (cases "GetChunkInfo (row div STANDARD_VECTOR_SIZE) m")
    case None
    then show ?thesis by (simp add: Manager_Fetch_def)
  next
    case (Some info)
    then have "\<not> ChunkInfo_HasDeletes checkpoint_id info"
      using that(2) set_to_serialize [of "row div STANDARD_VECTOR_SIZE" info checkpoint_id m] by force
    from no_deletes_not_deleted [OF cid this row_mod_less [of row]]
    have "\<not> row_deleted m row < start_time ?reader" by (simp add: row_deleted_def Some)
    moreover have "row_deleted m row \<noteq> transaction_id ?reader"
      using assms(2) checkpoint_start(4) [OF cid] by (simp add: ids_ok_def)
    ultimately show ?thesis
      using Some that(1) unfolding Manager_Fetch_def
      by (simp add: chunk.fetch_visible minus_div_mult_eq_mod row_visible_def row_inserted_def row_deleted_def)
  qed
  show ?thesis
  proof (cases "?es = []")
    case True
    then have "Deserialize storage = Inr None" by (simp add: storage_def Deserialize_def)
    moreover have "Manager_Fetch ?reader row m" if "row_inserted m row < start_time ?reader" for row
      using unwritten that True by simp
    ultimately show ?thesis using chk vi by (intro exI [of _ m1] exI [of _ storage] exI [of _ None]) auto
  next
    case False
    let ?s = "write_le 8 (length ?es) @ bs"
    let ?m0 = "RowVersionManager_new\<lparr>storage_pointers := Some ?s\<rparr>"
    have entries: "\<forall>e \<in> set ?es. entry_roundtrips checkpoint_id e"
      using entry_ok [OF assms(1,2)] by auto
    obtain r where r: "deserialize_loop (length ?es) (bs @ []) ?m0 = Inr r"
      "\<forall>v. v \<notin> fst ` set ?es \<longrightarrow> GetChunkInfo v r = GetChunkInfo v ?m0"
      "\<forall>(v, info) \<in> set ?es. \<forall>t row. valid_reader t \<longrightarrow> 0 < start_time t \<longrightarrow> row < STANDARD_VECTOR_SIZE \<longrightarrow>
        loaded_fetch t row (GetChunkInfo v r) = ChunkInfo_Fetch ?reader row info"
      using write_deserialize [OF bs distinct_to_serialize entries, of "[]" ?m0] by blast
    have "length ?es \<le> length (vector_info m)"
    proof -
      have "card (set (map fst ?es)) \<le> card {..<length (vector_info m)}"
        by (rule card_mono) (auto simp: set_to_serialize GetChunkInfo_def split: if_splits)
      then show ?thesis using distinct_card [OF distinct_to_serialize [of checkpoint_id m]] by simp
    qed
    then have small: "length ?es < 256 ^ 8"
      using len by (simp add: MAX_ROW_GROUP_SIZE_def STANDARD_VECTOR_SIZE_def)
    let ?r = "r\<lparr>uncheckpointed_delete_commit := None\<rparr>"
    have de: "Deserialize storage = Inr (Some ?r)"
      using r(1) False read_write_le [OF small, of bs] by (simp add: storage_def Deserialize_def)
    have fetch: "Manager_Fetch t row ?r = Manager_Fetch ?reader row m"
      if t: "valid_reader t" "0 < start_time t" "row_inserted m row < start_time ?reader" for t row
    proof -
      let ?v = "row div STANDARD_VECTOR_SIZE" and ?o = "row mod STANDARD_VECTOR_SIZE"
      have get: "GetChunkInfo ?v ?r = GetChunkInfo ?v r" by (simp add: GetChunkInfo_def)
      have lf: "Manager_Fetch t row ?r = loaded_fetch t ?o (GetChunkInfo ?v r)"
        by (cases "GetChunkInfo ?v r") (simp_all add: Manager_Fetch_def get minus_div_mult_eq_mod)
      show ?thesis
      proof (cases "?v \<in> fst ` set ?es")
        case True
        then obtain info where info: "(?v, info) \<in> set ?es" by force
        then have "loaded_fetch t ?o (GetChunkInfo ?v r) = ChunkInfo_Fetch ?reader ?o info"
          using r(3) t(1,2) row_mod_less [of row] by blast
        moreover have "Manager_Fetch ?reader row m = ChunkInfo_Fetch ?reader ?o info"
          using info by (simp add: set_to_serialize Manager_Fetch_def minus_div_mult_eq_mod)
        ultimately show ?thesis using lf by simp
      next
        case False
        then have "GetChunkInfo ?v r = None" using r(2) by (simp add: GetChunkInfo_def RowVersionManager_new_def)
        then show ?thesis using lf unwritten [OF t(3) False] by simp
      qed
    qed
    then show ?thesis using chk vi de by (intro exI [of _ m1] exI [of _ storage] exI [of _ "Some ?r"]) auto
  qed
qed

section \<open>Properties\<close>

lemma new_manager [simp]:
  "mgr_wf RowVersionManager_new" "fresh_from n RowVersionManager_new"
  "row_inserted RowVersionManager_new row = 0" "row_deleted RowVersionManager_new row = NOT_DELETED_ID"
  by (simp_all add: mgr_wf_def fresh_from_def row_inserted_def row_deleted_def GetChunkInfo_def
      RowVersionManager_new_def)

text \<open>Ten rows appended by one transaction to an empty row group.\<close>

definition example_writer :: TransactionData where
  "example_writer = \<lparr>transaction_id = TRANSACTION_ID_START + 7, start_time = 5\<rparr>"

definition example_manager :: RowVersionManager where
  "example_manager = fst (AppendVersionInfo example_writer 10 0 10 RowVersionManager_new)"

lemma example_append:
  "AppendVersionInfo example_writer 10 0 10 RowVersionManager_new = (example_manager, Inr ())"
  by (simp add: example_manager_def AppendVersionInfo_def append_vector_def vector_range_start_def
      vector_range_end_def STANDARD_VECTOR_SIZE_def FillVectorInfo_def RowVersionManager_new_def)

lemma example_manager_rows:
  "mgr_wf example_manager" "row < 10 \<Longrightarrow> row_inserted example_manager row = TRANSACTION_ID_START + 7"
  "row_deleted example_manager row = NOT_DELETED_ID" "fresh_from 10 example_manager"
  using AppendVersionInfo_rows [OF _ _ _ example_append] by (simp_all add: example_writer_def)

lemma example_vectors:
  "GetChunkInfo v example_manager = (if v = 0 then Some (VectorInfo
     (Vector_Append 0 10 (TRANSACTION_ID_START + 7) (ChunkVectorInfo_new 0 0))) else None)"
  by (simp add: example_manager_def AppendVersionInfo_def append_vector_def vector_range_start_def
      vector_range_end_def STANDARD_VECTOR_SIZE_def FillVectorInfo_def RowVersionManager_new_def
      example_writer_def set_info_def GetChunkInfo_def)

text \<open>
  An append stamps exactly the new rows with the transaction's id: the rows before the range keep
  their version, no row's deletion changes, and the vectors after the range stay without version
  information. It applies where the vectors from the start of the range on are fresh.
\<close>

theorem append_stamps_rows:
  assumes "mgr_wf m" "s < e" "fresh_from s m" "AppendVersionInfo t count s e m = (m', Inr u)"
  shows "mgr_wf m' \<and> fresh_from e m' \<and>
    (\<forall>row < s. row_inserted m' row = row_inserted m row) \<and>
    (\<forall>row. s \<le> row \<and> row < e \<longrightarrow> row_inserted m' row = transaction_id t) \<and>
    (\<forall>row. row_deleted m' row = row_deleted m row)"
  using AppendVersionInfo_rows [OF assms] by blast

theorem append_stamps_rows_witness:
  "row_inserted (fst (AppendVersionInfo example_writer 10 0 10 RowVersionManager_new)) 9 = TRANSACTION_ID_START + 7"
  using append_stamps_rows [OF new_manager(1) _ new_manager(2) example_append]
  by (simp add: example_append) (simp add: example_writer_def)

text \<open>
  Committing an append publishes exactly the transaction's rows of the range: a reader that starts
  after the commit sees them and one that started before (and is not called the commit id) does not,
  while every row inserted by anyone else keeps its version.
\<close>

theorem commit_append_publishes:
  assumes "mgr_wf m" "0 < count" "CommitAppend commit_id s count m = (m', Inr u)"
    and "\<forall>r. s \<le> r \<and> r < s + count \<longrightarrow> row_inserted m r = tid \<and> row_deleted m r = NOT_DELETED_ID"
    and "valid_reader t1" "0 < start_time t1" "start_time t1 \<le> commit_id" "transaction_id t1 \<noteq> commit_id"
    and "valid_reader t2" "commit_id < start_time t2"
  shows "(\<forall>row. s \<le> row \<and> row < s + count \<longrightarrow> \<not> Manager_Fetch t1 row m' \<and> Manager_Fetch t2 row m') \<and>
    (\<forall>row. row_inserted m row \<noteq> tid \<longrightarrow> row_inserted m' row = row_inserted m row) \<and>
    (\<forall>row. row_deleted m' row = row_deleted m row)"
proof -
  note eff = CommitAppend_rows [OF assms(1,2,3), of tid]
  have pos: "0 < start_time t2" using assms(10) by (meson order_le_less_trans word_zero_le)
  have tid: "\<forall>r. s \<le> r \<and> r < s + count \<longrightarrow> row_inserted m r = tid" using assms(4) by blast
  have "\<not> Manager_Fetch t1 row m' \<and> Manager_Fetch t2 row m'" if "s \<le> row" "row < s + count" for row
    using eff(2,4) [OF tid, of row] that assms(4,7,8,10) not_deleted_visible [OF assms(9)]
    by (auto simp: Manager_Fetch_visible [OF assms(5,6)] Manager_Fetch_visible [OF assms(9) pos] row_visible_def)
  then show ?thesis using eff(3,4) [OF tid] by blast
qed

theorem commit_append_publishes_witness:
  "\<exists>m'. CommitAppend 20 0 10 example_manager = (m', Inr ()) \<and>
     \<not> Manager_Fetch \<lparr>transaction_id = TRANSACTION_ID_START, start_time = 20\<rparr> 3 m' \<and>
     Manager_Fetch \<lparr>transaction_id = TRANSACTION_ID_START, start_time = 21\<rparr> 3 m'"
proof -
  let ?t1 = "\<lparr>transaction_id = TRANSACTION_ID_START, start_time = 20\<rparr> :: TransactionData"
  let ?t2 = "\<lparr>transaction_id = TRANSACTION_ID_START, start_time = 21\<rparr> :: TransactionData"
  have "\<exists>m'. commit_append_loop 20 0 10 [0..<Suc ((10 - 1) div STANDARD_VECTOR_SIZE)] example_manager = (m', Inr ())"
    by (rule commit_append_loop_defined) (auto simp: example_vectors STANDARD_VECTOR_SIZE_def)
  then obtain m' where m': "CommitAppend 20 0 10 example_manager = (m', Inr ())"
    by (auto simp: CommitAppend_def Let_def simp del: upt_Suc)
  have ids: "valid_reader ?t1" "valid_reader ?t2" "transaction_id ?t1 \<noteq> 20"
    by (simp_all add: valid_reader_make TRANSACTION_ID_START_def NOT_DELETED_ID_def MAX_TRANSACTION_ID_def)
  have rows: "\<forall>r. 0 \<le> r \<and> r < 0 + 10 \<longrightarrow> row_inserted example_manager r = TRANSACTION_ID_START + 7 \<and>
      row_deleted example_manager r = NOT_DELETED_ID"
    using example_manager_rows(2,3) by simp
  have "\<not> Manager_Fetch ?t1 3 m' \<and> Manager_Fetch ?t2 3 m'"
    using commit_append_publishes [OF example_manager_rows(1) _ m' rows ids(1) _ _ ids(3) ids(2)] by simp
  with m' show ?thesis by blast
qed

text \<open>
  Cleaning up after an append changes nothing for a transaction that started after the lowest
  active one: it fetches the same rows, where the first row of each vector is committed for it (the
  vector clean-up does not look at that row).
\<close>

theorem cleanup_append_invisible:
  assumes "valid_reader t" "lowest < start_time t"
    and "\<forall>row. row mod STANDARD_VECTOR_SIZE = 0 \<longrightarrow> row_inserted m row \<le> lowest"
  shows "Manager_Fetch t row (CleanupAppend lowest s count m) = Manager_Fetch t row m"
proof -
  let ?v = "row div STANDARD_VECTOR_SIZE" and ?o = "row mod STANDARD_VECTOR_SIZE"
  let ?m = "CleanupAppend lowest s count m"
  have pos: "0 < start_time t" using assms(2) by (meson order_le_less_trans word_zero_le)
  consider "GetChunkInfo ?v ?m = GetChunkInfo ?v m"
    | info where "GetChunkInfo ?v ?m = None" "GetChunkInfo ?v m = Some info" "ChunkInfo_Cleanup lowest info"
    using CleanupAppend_info by blast
  then show ?thesis
  proof cases
    case 1
    then show ?thesis by (simp add: Manager_Fetch_def)
  next
    case 2
    have "ChunkInfo_Fetch t ?o info"
    proof (cases "?o = 0")
      case False
      then show ?thesis using chunk.cleanup_visible [OF 2(3) assms(2,1)] by simp
    next
      case True
      have "row_inserted m row = inserted_at info 0" by (simp only: row_inserted_def 2(2) True option.case)
      moreover have "row_inserted m row \<le> lowest" using assms(3) [rule_format, OF True] .
      ultimately have "inserted_at info 0 \<le> lowest" by simp
      moreover have "deleted_at info 0 = NOT_DELETED_ID"
        using 2(3) by (cases info) (auto simp: Constant_Cleanup_def Vector_Cleanup_def AnyDeleted_def
            vec_deleted_at_def chunk_abs split: if_splits)
      ultimately show ?thesis
        using True assms(2) not_deleted_visible [OF assms(1)] by (auto simp: chunk.fetch_visible row_visible_def)
    qed
    then show ?thesis using 2 by (simp add: Manager_Fetch_def minus_div_mult_eq_mod)
  qed
qed

theorem cleanup_append_invisible_witness:
  "Manager_Fetch \<lparr>transaction_id = TRANSACTION_ID_START, start_time = 8\<rparr> 5
     (CleanupAppend 7 0 2048 (RowVersionManager_new\<lparr>vector_info := [Some (VectorInfo (ChunkVectorInfo_new 0 6))]\<rparr>)) =
   Manager_Fetch \<lparr>transaction_id = TRANSACTION_ID_START, start_time = 8\<rparr> 5
     (RowVersionManager_new\<lparr>vector_info := [Some (VectorInfo (ChunkVectorInfo_new 0 6))]\<rparr>)"
  by (rule cleanup_append_invisible)
     (auto simp: valid_reader_make TRANSACTION_ID_START_def NOT_DELETED_ID_def MAX_TRANSACTION_ID_def
        row_inserted_def GetChunkInfo_def RowVersionManager_new_def nth_Cons' split: option.split)

text \<open>
  Reverting an append to \<open>n\<close> rows keeps the version of every row below \<open>n\<close> and leaves every
  vector from there on fresh, so that the next append can start at \<open>n\<close>.
\<close>

theorem revert_append_fresh:
  "fresh_from n (RevertAppend n m) \<and>
   (\<forall>row. row < n \<longrightarrow> row_inserted (RevertAppend n m) row = row_inserted m row \<and>
      row_deleted (RevertAppend n m) row = row_deleted m row)"
proof -
  have "\<not> n \<le> row div STANDARD_VECTOR_SIZE * STANDARD_VECTOR_SIZE" if "row < n" for row
    using that div_times_less_eq_dividend [of row STANDARD_VECTOR_SIZE] by linarith
  then show ?thesis
    by (simp add: fresh_from_def GetChunkInfo_RevertAppend row_inserted_def row_deleted_def)
qed

theorem revert_append_fresh_witness:
  "row_inserted (RevertAppend 4 example_manager) 3 = TRANSACTION_ID_START + 7"
  using revert_append_fresh [of 4 example_manager] example_manager_rows(2) [of 3] by simp

text \<open>
  Deleting rows of a vector through the manager marks exactly those rows of the row group with the
  transaction's id and changes no other row's version, whatever representation the vector had before,
  provided a constant info there carries no deletion.
\<close>

theorem delete_rows_marks:
  assumes "mgr_wf m" "deletable v m" "rows_ok rows count"
    and "DeleteRows v tid rows count m = (m', Inr (k, rows'))"
  shows "mgr_wf m' \<and> (\<forall>row. row_inserted m' row = row_inserted m row \<and>
    row_deleted m' row = (if row \<in> group_rows v (set (take count rows)) then tid else row_deleted m row))"
  using DeleteRows_rows [OF assms] by blast

lemma example_delete:
  "\<exists>m' k rows'. DeleteRows 0 9 [4, 2] 2 example_manager = (m', Inr (k, rows'))"
proof -
  obtain m' res where d: "DeleteRows 0 9 [4, 2] 2 example_manager = (m', res)" by fastforce
  obtain c c' m1 where g: "GetVectorInfo 0 example_manager = (m1, c)" "Vector_Delete 9 [4, 2] 2 c = (c', res)"
    by (rule DeleteRows_shape [OF example_manager_rows(1) d]) blast
  note eff = GetVectorInfo_effect [OF example_manager_rows(1) g(1)]
  have "deletable 0 example_manager" by (simp add: deletable_def example_vectors)
  from eff(6) [OF this] have "vec_deleted_at c r = NOT_DELETED_ID" if "r < STANDARD_VECTOR_SIZE" for r
    using vector_row(2) [OF that, of example_manager 0] example_manager_rows(3) by simp
  moreover have "rows_ok [4, 2] 2" "(9 :: transaction_t) \<noteq> NOT_DELETED_ID"
    "(4::nat) < STANDARD_VECTOR_SIZE" "(2::nat) < STANDARD_VECTOR_SIZE"
    by (simp_all add: rows_ok_def STANDARD_VECTOR_SIZE_def NOT_DELETED_ID_def MAX_TRANSACTION_ID_def)
  ultimately have "\<not> (\<exists>e. res = Inl e)"
    using Vector_Delete_error [OF eff(2), of "[4, 2]" 2 9] g(2) by auto
  then show ?thesis using d by (cases res) auto
qed

theorem delete_rows_marks_witness:
  "\<exists>m' k rows'. DeleteRows 0 9 [4, 2] 2 example_manager = (m', Inr (k, rows')) \<and>
     row_deleted m' 4 = 9 \<and> row_deleted m' 3 = NOT_DELETED_ID"
proof -
  obtain m' k rows' where d: "DeleteRows 0 9 [4, 2] 2 example_manager = (m', Inr (k, rows'))"
    using example_delete by blast
  have ok: "deletable 0 example_manager" "rows_ok [4, 2] 2"
    by (simp_all add: deletable_def example_vectors rows_ok_def STANDARD_VECTOR_SIZE_def)
  have "row_deleted m' 4 = 9 \<and> row_deleted m' 3 = NOT_DELETED_ID"
    using delete_rows_marks [OF example_manager_rows(1) ok d] example_manager_rows(3)
    by (simp add: group_rows_def)
  with d show ?thesis by blast
qed

text \<open>
  Committing a deletion record stamps exactly its rows with the commit id and remembers the latest
  commit that a checkpoint has still to write.
\<close>

theorem commit_delete_stamps:
  assumes "mgr_wf m" "deletable v m" "is_consecutive info \<or> di_count info \<le> length (di_rows info)"
    and "committed_rows info \<subseteq> {..<STANDARD_VECTOR_SIZE}"
    and "CommitDelete v commit_id info m = (m', Inr u)"
  shows "mgr_wf m' \<and> (\<forall>row. row_inserted m' row = row_inserted m row \<and> row_deleted m' row =
      (if row \<in> group_rows v (committed_rows info) then commit_id else row_deleted m row)) \<and>
    uncheckpointed_delete_commit m' = Some (case uncheckpointed_delete_commit m of
           None \<Rightarrow> commit_id | Some latest \<Rightarrow> max commit_id latest)"
  using CommitDelete_rows [OF assms] by blast

definition example_record :: DeleteInfo where
  "example_record = \<lparr>di_vector_idx = 0, di_count = 1, di_base_row = 0, is_consecutive = False, di_rows = [4]\<rparr>"

lemma example_commit:
  "mgr_wf m \<Longrightarrow> GetChunkInfo 0 m = Some (VectorInfo c) \<Longrightarrow> deleted_data c \<noteq> None \<Longrightarrow>
   \<exists>m'. CommitDelete 0 20 example_record m = (m', Inr ())"
proof -
  assume m: "mgr_wf m" "GetChunkInfo 0 m = Some (VectorInfo c)" "deleted_data c \<noteq> None"
  then have "0 < length (vector_info m)" "vector_info m ! 0 = Some (VectorInfo c)"
    by (auto simp: GetChunkInfo_def split: if_splits)
  then show ?thesis
    using m(3) by (auto simp: CommitDelete_def GetVectorInfo_def FillVectorInfo_def Let_def
        Vector_CommitDelete_def GetDeletedPointer_def example_record_def GetRows_def
        split: option.splits)
qed

definition example_deleted_manager :: RowVersionManager where
  "example_deleted_manager =
     RowVersionManager_new\<lparr>vector_info := [Some (VectorInfo (example_deleted [(4, TRANSACTION_ID_START)]))]\<rparr>"

lemma example_deleted_manager [simp]:
  "mgr_wf example_deleted_manager" "deletable 0 example_deleted_manager"
  "GetChunkInfo v example_deleted_manager =
    (if v = 0 then Some (VectorInfo (example_deleted [(4, TRANSACTION_ID_START)])) else None)"
  by (auto simp: example_deleted_manager_def RowVersionManager_new_def mgr_wf_def deletable_def GetChunkInfo_def
      nth_Cons')

theorem commit_delete_stamps_witness:
  "\<exists>m'. CommitDelete 0 20 example_record example_deleted_manager = (m', Inr ()) \<and>
     row_deleted m' 4 = 20 \<and> uncheckpointed_delete_commit m' = Some 20"
proof -
  obtain m' where m': "CommitDelete 0 20 example_record example_deleted_manager = (m', Inr ())"
    using example_commit [of example_deleted_manager "example_deleted [(4, TRANSACTION_ID_START)]"]
    by (auto simp: example_deleted_def)
  have rows: "committed_rows example_record = {4}"
    by (simp add: committed_rows_def example_record_def)
  have "row_deleted m' 4 = 20 \<and> uncheckpointed_delete_commit m' = Some 20"
    using commit_delete_stamps [OF example_deleted_manager(1,2) _ _ m'] rows
    by (simp add: example_record_def group_rows_def STANDARD_VECTOR_SIZE_def)
       (simp add: example_deleted_manager_def RowVersionManager_new_def)
  with m' show ?thesis by blast
qed

text \<open>
  The committed deletions of a row group are counted exactly, across all representations of its
  vectors.
\<close>

theorem manager_committed_deletes:
  "Manager_GetCommittedDeletedCount count m =
     Inr (card {row. row < count \<and> row_deleted m row < TRANSACTION_ID_START})"
proof -
  have "{row. row < count \<and> row_deleted m row < TRANSACTION_ID_START} =
      {row. row_deleted m row < TRANSACTION_ID_START} \<inter> set [0..<count]" by auto
  then show ?thesis
    using committed_deleted_loop_eq [of 0 0 count 0 m]
    by (simp add: Manager_GetCommittedDeletedCount_def distinct_length_filter)
qed

text \<open>
  A row group is checkpointed when all its rows were inserted up to the checkpoint's id, left out
  when none was, and in every other case the decision is an internal error: a partially inserted row
  group never reaches the disk silently.
\<close>

theorem should_checkpoint_decides:
  "(ShouldCheckpointRowGroup checkpoint_id count m = Inr True \<longleftrightarrow>
     0 < count \<and> (\<forall>row < count. row_inserted m row \<le> checkpoint_id)) \<and>
   (ShouldCheckpointRowGroup checkpoint_id count m = Inr False \<longleftrightarrow>
     (\<forall>row < count. \<not> row_inserted m row \<le> checkpoint_id))"
  using ShouldCheckpointRowGroup_cases [of checkpoint_id count m] by (simp add: checkpoint_inserted_def)

theorem should_checkpoint_decides_witness:
  "ShouldCheckpointRowGroup 5 3000 RowVersionManager_new = Inr True \<and>
   ShouldCheckpointRowGroup 5 10 example_manager = Inr False"
proof -
  have "\<not> TRANSACTION_ID_START + 7 \<le> 5" by (simp add: TRANSACTION_ID_START_def)
  then show ?thesis
    using should_checkpoint_decides [of 5 3000 RowVersionManager_new]
      should_checkpoint_decides [of 5 10 example_manager] example_manager_rows(2) by auto
qed

text \<open>
  C3. The deletions written by a checkpoint and loaded again show every later reader, of the rows the
  checkpoint contains, exactly those the checkpoint's own reader saw, whether a vector's info was
  written in full, as a constant, as empty or not at all; the checkpoint never fails.
\<close>

theorem checkpoint_roundtrip:
  assumes "checkpoint_ok checkpoint_id m" "ids_ok m" "uncheckpointed_delete_commit m \<noteq> None"
  shows "\<exists>m1 storage r. Checkpoint checkpoint_id m = Inr (m1, storage) \<and> Deserialize storage = Inr r \<and>
    vector_info m1 = vector_info m \<and>
    (\<forall>t row. valid_reader t \<and> 0 < start_time t \<and> row_inserted m row < start_time (checkpoint_reader checkpoint_id) \<longrightarrow>
      loaded_manager_fetch t row r = Manager_Fetch (checkpoint_reader checkpoint_id) row m)"
  using assms by (rule Checkpoint_Deserialize)

definition example_checkpointed :: RowVersionManager where
  "example_checkpointed = \<lparr>vector_info = [Some (VectorInfo (example_deleted [(4, 10)]))],
     uncheckpointed_delete_commit = Some 10, storage_pointers = None\<rparr>"

theorem checkpoint_roundtrip_witness:
  "\<exists>m1 storage r. Checkpoint 20 example_checkpointed = Inr (m1, storage) \<and> Deserialize storage = Inr r \<and>
     loaded_manager_fetch \<lparr>transaction_id = TRANSACTION_ID_START, start_time = 1\<rparr> 3 r \<and>
     \<not> loaded_manager_fetch \<lparr>transaction_id = TRANSACTION_ID_START, start_time = 1\<rparr> 4 r"
proof -
  let ?t = "\<lparr>transaction_id = TRANSACTION_ID_START, start_time = 1\<rparr> :: TransactionData"
  let ?reader = "checkpoint_reader 20"
  have get: "GetChunkInfo v example_checkpointed = (if v = 0 then Some (VectorInfo (example_deleted [(4, 10)])) else None)" for v
    by (simp add: example_checkpointed_def GetChunkInfo_def)
  have ins: "row_inserted example_checkpointed row = (if row div STANDARD_VECTOR_SIZE = 0 then 1 else 0)" for row
    by (simp add: row_inserted_def get vec_inserted_at_def example_deleted_def)
  have del: "row_deleted example_checkpointed row = (if row = 4 then 10 else NOT_DELETED_ID)" for row
  proof (cases "row < STANDARD_VECTOR_SIZE")
    case True
    then show ?thesis by (simp add: row_deleted_def get)
  next
    case False
    then have "row div STANDARD_VECTOR_SIZE \<noteq> 0" "row \<noteq> 4"
      by (simp_all add: div_eq_0_iff) (simp add: STANDARD_VECTOR_SIZE_def)
    then show ?thesis by (simp add: row_deleted_def get)
  qed
  have ok: "checkpoint_ok 20 example_checkpointed"
    unfolding checkpoint_ok_def by (simp add: get)
      (simp add: example_checkpointed_def example_deleted_def TRANSACTION_ID_START_def STANDARD_VECTOR_SIZE_def
        MAX_ROW_GROUP_SIZE_def)
  have ids: "ids_ok example_checkpointed"
    by (simp add: ids_ok_def ins del)
       (simp add: TRANSACTION_ID_START_def NOT_DELETED_ID_def MAX_TRANSACTION_ID_def)
  have unc: "uncheckpointed_delete_commit example_checkpointed \<noteq> None" by (simp add: example_checkpointed_def)
  obtain m1 storage r where r: "Checkpoint 20 example_checkpointed = Inr (m1, storage)" "Deserialize storage = Inr r"
    "\<forall>t row. valid_reader t \<and> 0 < start_time t \<and> row_inserted example_checkpointed row < start_time ?reader \<longrightarrow>
      loaded_manager_fetch t row r = Manager_Fetch ?reader row example_checkpointed"
    using checkpoint_roundtrip [OF ok ids unc] by blast
  have reader: "valid_reader ?t" "valid_reader ?reader" "start_time ?reader = 21" "transaction_id ?reader = MAX_TRANSACTION_ID"
    by (simp_all add: valid_reader_make checkpoint_reader_def TRANSACTION_ID_START_def NOT_DELETED_ID_def MAX_TRANSACTION_ID_def)
  have "loaded_manager_fetch ?t row r = Manager_Fetch ?reader row example_checkpointed" for row
    using r(3) reader(1,3) by (simp add: ins)
  moreover have "Manager_Fetch ?reader 3 example_checkpointed" "\<not> Manager_Fetch ?reader 4 example_checkpointed"
    using not_deleted_visible [OF reader(2)]
    by (simp_all add: Manager_Fetch_visible [OF reader(2)] reader(3,4) ins del row_visible_def)
  ultimately show ?thesis using r(1,2) by blast
qed

text \<open>
  A scan of one vector of the row group selects exactly the rows \<open>Fetch\<close> shows the transaction,
  for every representation of the vector, no version information included.
\<close>

theorem manager_scan_agrees_with_fetch:
  assumes "valid_reader t" "n \<le> STANDARD_VECTOR_SIZE"
    and "Manager_GetSelVector (ScanOptions_of t) v n m = Inr (k, sel)"
  shows "k = card {r. r < n \<and> Manager_Fetch t (v * STANDARD_VECTOR_SIZE + r) m} \<and>
    (0 < k \<and> k < n \<longrightarrow> sel = filter (\<lambda>r. Manager_Fetch t (v * STANDARD_VECTOR_SIZE + r) m) [0..<n])"
proof (cases "GetChunkInfo v m")
  case None
  then have "Manager_Fetch t (v * STANDARD_VECTOR_SIZE + r) m" if "r < n" for r
    using that assms(2) by (simp add: Manager_Fetch_def)
  then have "{r. r < n \<and> Manager_Fetch t (v * STANDARD_VECTOR_SIZE + r) m} = {..<n}" by auto
  then show ?thesis using assms(3) None by (simp add: Manager_GetSelVector_def)
next
  case (Some info)
  have f: "Manager_Fetch t (v * STANDARD_VECTOR_SIZE + r) m = ChunkInfo_Fetch t r info" if "r < n" for r
    using that assms(2) Some by (simp add: Manager_Fetch_def)
  have scan: "ChunkInfo_GetSelVector (ScanOptions_of t) n info = Inr (k, sel)"
    using assms(3) Some by (simp add: Manager_GetSelVector_def)
  have "{r. r < n \<and> Manager_Fetch t (v * STANDARD_VECTOR_SIZE + r) m} = {r. r < n \<and> ChunkInfo_Fetch t r info}"
    using f by auto
  moreover have "filter (\<lambda>r. Manager_Fetch t (v * STANDARD_VECTOR_SIZE + r) m) [0..<n] =
      filter (\<lambda>r. ChunkInfo_Fetch t r info) [0..<n]"
    using f by (intro filter_cong) auto
  ultimately show ?thesis using chunk.scan_is_fetch [OF assms(1) scan] by simp
qed

theorem manager_scan_agrees_with_fetch_witness:
  "card {r. r < 10 \<and> Manager_Fetch example_writer (1 * STANDARD_VECTOR_SIZE + r) RowVersionManager_new} = 10"
proof -
  have ok: "valid_reader example_writer" "10 \<le> STANDARD_VECTOR_SIZE"
    by (simp_all add: example_writer_def valid_reader_make TRANSACTION_ID_START_def NOT_DELETED_ID_def
        MAX_TRANSACTION_ID_def STANDARD_VECTOR_SIZE_def)
  have "Manager_GetSelVector (ScanOptions_of example_writer) 1 10 RowVersionManager_new = Inr (10, [])"
    by (simp add: Manager_GetSelVector_def GetChunkInfo_def RowVersionManager_new_def)
  from manager_scan_agrees_with_fetch [OF ok this] show ?thesis by simp
qed

end
