(* ===== verification/Transaction_Manager.thy ===== *)
theory Transaction_Manager
  imports Chunk_Info
begin

text \<open>
  \<open>transaction/duck_transaction_manager.cpp\<close>: start timestamps, transaction ids, commit timestamps and
  the life of a transaction from the list of active ones through the recently committed ones to the
  clean-up queue. Every operation runs under the transaction lock and is one function of the state;
  the write of the WAL, during which \<open>CommitTransaction\<close> gives the lock away, lies before the section
  modelled by \<open>commit_section\<close>, so any other operation may run between the two. What the storage
  manager, the undo buffer and the local storage of a transaction answer is an argument. A transaction
  object is identified by its transaction id. The history of the steps is an inductive relation.
\<close>

section \<open>State\<close>

record DuckTransaction =
  tx_start_time :: transaction_t
  tx_id :: transaction_t
  commit_id :: transaction_t
  catalog_version :: idx_t
  awaiting_cleanup :: bool
  changes_made :: bool

record DuckCleanupInfo =
  lowest_start_time :: transaction_t
  ci_transactions :: "DuckTransaction list"

record DuckTransactionManager =
  current_start_timestamp :: transaction_t
  current_transaction_id :: transaction_t
  lowest_active_id :: transaction_t
  lowest_active_start :: transaction_t
  last_commit :: transaction_t
  active_checkpoint :: transaction_t
  active_transactions :: "DuckTransaction list"
  recently_committed_transactions :: "DuckTransaction list"
  last_uncommitted_catalog_version :: idx_t
  last_committed_version :: idx_t
  cleanup_queue :: "DuckCleanupInfo list"

text \<open>The constructor leaves \<open>last_commit\<close> unset: its first value is the argument.\<close>

definition DuckTransactionManager_new :: "transaction_t \<Rightarrow> DuckTransactionManager" where
  "DuckTransactionManager_new unset =
     \<lparr>current_start_timestamp = 2, current_transaction_id = TRANSACTION_ID_START,
      lowest_active_id = TRANSACTION_ID_START, lowest_active_start = MAX_TRANSACTION_ID,
      last_commit = unset, active_checkpoint = MAX_TRANSACTION_ID,
      active_transactions = [], recently_committed_transactions = [],
      last_uncommitted_catalog_version = unat TRANSACTION_ID_START, last_committed_version = 0,
      cleanup_queue = []\<rparr>"

definition DuckTransaction_new :: "transaction_t \<Rightarrow> transaction_t \<Rightarrow> idx_t \<Rightarrow> DuckTransaction" where
  "DuckTransaction_new start tid catalog_version_p =
     \<lparr>tx_start_time = start, tx_id = tid, commit_id = 0, catalog_version = catalog_version_p,
      awaiting_cleanup = False, changes_made = False\<rparr>"

section \<open>Clean-up records\<close>

text \<open>The transactions whose undo buffers a clean-up visits, with the lowest start time it passes on.\<close>

definition DuckCleanupInfo_Cleanup :: "DuckCleanupInfo \<Rightarrow> (DuckTransaction \<times> transaction_t) list" where
  "DuckCleanupInfo_Cleanup info =
     map (\<lambda>t. (t, lowest_start_time info)) (filter awaiting_cleanup (ci_transactions info))"

definition ScheduleCleanup :: "DuckCleanupInfo \<Rightarrow> bool" where
  "ScheduleCleanup info \<longleftrightarrow> ci_transactions info \<noteq> []"

definition schedule :: "DuckCleanupInfo \<Rightarrow> DuckTransactionManager \<Rightarrow> DuckTransactionManager" where
  "schedule info m =
     (if ScheduleCleanup info then m\<lparr>cleanup_queue := cleanup_queue m @ [info]\<rparr> else m)"

text \<open>The tail of a commit and of a rollback: take the front of the queue and clean it up.\<close>

definition run_cleanup :: "DuckTransactionManager \<Rightarrow> DuckTransactionManager \<times> (DuckTransaction \<times> transaction_t) list" where
  "run_cleanup m =
     (case cleanup_queue m of
        [] \<Rightarrow> (m, [])
      | info # infos \<Rightarrow> (m\<lparr>cleanup_queue := infos\<rparr>, DuckCleanupInfo_Cleanup info))"

section \<open>Starting and checkpoint ids\<close>

definition StartTransaction :: "DuckTransactionManager \<Rightarrow> (DuckTransactionManager \<times> DuckTransaction) result" where
  "StartTransaction m =
     (if current_start_timestamp m \<ge> TRANSACTION_ID_START then
        Inl (InternalException ''Cannot start more transactions, ran out of transaction identifiers!'')
      else
        let start = current_start_timestamp m;
            tid = current_transaction_id m;
            m1 = m\<lparr>current_start_timestamp := start + 1, current_transaction_id := tid + 1\<rparr>;
            m2 = (if active_transactions m1 = []
                  then m1\<lparr>lowest_active_start := start, lowest_active_id := tid\<rparr> else m1);
            t = DuckTransaction_new start tid (last_committed_version m2)
        in Inr (m2\<lparr>active_transactions := active_transactions m2 @ [t]\<rparr>, t))"

definition GetNewCheckpointId :: "DuckTransactionManager \<Rightarrow> (DuckTransactionManager \<times> transaction_t) result" where
  "GetNewCheckpointId m =
     (if active_checkpoint m \<noteq> MAX_TRANSACTION_ID then
        Inl (InternalException ''DuckTransactionManager::GetNewCheckpointId requested a new id but active_checkpoint was already set'')
      else Inr (m\<lparr>active_checkpoint := last_commit m\<rparr>, last_commit m))"

definition ResetCheckpointId :: "DuckTransactionManager \<Rightarrow> DuckTransactionManager" where
  "ResetCheckpointId m = m\<lparr>active_checkpoint := MAX_TRANSACTION_ID\<rparr>"

definition GetCommitTimestamp :: "DuckTransactionManager \<Rightarrow> DuckTransactionManager \<times> transaction_t" where
  "GetCommitTimestamp m =
     (m\<lparr>current_start_timestamp := current_start_timestamp m + 1\<rparr>, current_start_timestamp m)"

section \<open>Whether to checkpoint\<close>

definition HasOtherTransactions :: "transaction_t \<Rightarrow> DuckTransactionManager \<Rightarrow> bool" where
  "HasOtherTransactions tid m \<longleftrightarrow> list_ex (\<lambda>t. tx_id t \<noteq> tid) (active_transactions m)"

datatype CheckpointType = FULL_CHECKPOINT | CONCURRENT_CHECKPOINT | VACUUM_ONLY

datatype CheckpointDecision = NoCheckpoint string | DoCheckpoint CheckpointType

record UndoBufferProperties =
  estimated_size :: idx_t
  has_updates :: bool
  has_deletes :: bool
  has_index_deletes :: bool
  has_catalog_changes :: bool
  has_dropped_entries :: bool

text \<open>The answers of the database, the storage manager and the lock.\<close>

record checkpoint_env =
  is_system :: bool
  tx_read_only :: bool
  storage_loaded :: bool
  automatic_checkpoint :: bool
  debug_skip :: bool
  lock_available :: bool
  in_memory :: bool
  compression_enabled :: bool

text \<open>The decision, and whether the exclusive checkpoint lock was taken on the way.\<close>

definition CanCheckpoint ::
  "checkpoint_env \<Rightarrow> UndoBufferProperties \<Rightarrow> transaction_t \<Rightarrow> DuckTransactionManager \<Rightarrow> CheckpointDecision \<times> bool" where
  "CanCheckpoint env undo_properties tid m =
     (if is_system env then (NoCheckpoint ''system transaction'', False)
      else if tx_read_only env then (NoCheckpoint ''transaction is read-only'', False)
      else if \<not> storage_loaded env then (NoCheckpoint ''cannot checkpoint while loading'', False)
      else if \<not> automatic_checkpoint env then (NoCheckpoint ''no reason to automatically checkpoint'', False)
      else if debug_skip env then (NoCheckpoint ''checkpointing on commit disabled through configuration'', False)
      else if \<not> lock_available env then (NoCheckpoint ''Failed to obtain checkpoint lock'', False)
      else
        let others = HasOtherTransactions tid m in
        if others \<and> (has_updates undo_properties \<or> has_dropped_entries undo_properties) then
          (if has_dropped_entries undo_properties
           then (NoCheckpoint ''Transaction has dropped catalog entries and there are other transactions active'', True)
           else (NoCheckpoint ''Transaction has performed updates and there are other transactions active'', True))
        else
          let checkpoint_type = (if others then CONCURRENT_CHECKPOINT else FULL_CHECKPOINT) in
          if in_memory env \<and> \<not> compression_enabled env then
            (if checkpoint_type = CONCURRENT_CHECKPOINT
             then (NoCheckpoint ''Cannot vacuum, and compression is disabled for in-memory table'', True)
             else (DoCheckpoint VACUUM_ONLY, True))
          else (DoCheckpoint checkpoint_type, True))"

text \<open>
  \<open>CHECKPOINT\<close> as a statement: \<open>current\<close> is whether the client has a transaction here and whether that
  has changes; \<open>lock\<close> is the answer of the lock. The wait of \<open>FORCE CHECKPOINT\<close> ends with the lock or
  with an interrupt.
\<close>

definition Checkpoint_type ::
  "bool \<Rightarrow> bool option \<Rightarrow> bool \<Rightarrow> DuckTransactionManager \<Rightarrow> CheckpointType result" where
  "Checkpoint_type force current lock m =
     (if force \<and> current \<noteq> None then
        Inl (TransactionException ''Cannot FORCE CHECKPOINT: the current transaction has been started for this database'')
      else if current = Some True then
        Inl (TransactionException ''Cannot CHECKPOINT: the current transaction has transaction local changes'')
      else if \<not> force \<and> \<not> lock then
        Inl (TransactionException ''Cannot CHECKPOINT: there are other write transactions active. Try using FORCE CHECKPOINT to wait until all active transactions are finished'')
      else if force \<and> \<not> lock then
        Inl InterruptException
      else if last_commit m > lowest_active_start m then Inr CONCURRENT_CHECKPOINT
      else Inr FULL_CHECKPOINT)"

section \<open>Removing a transaction\<close>

text \<open>The loop over the active transactions: the minima over the others.\<close>

fun lowest_loop :: "transaction_t \<Rightarrow> DuckTransaction list \<Rightarrow> transaction_t \<times> transaction_t \<Rightarrow> transaction_t \<times> transaction_t" where
  "lowest_loop tid [] (start, lid) = (start, lid)"
| "lowest_loop tid (t # ts) (start, lid) =
     (if tx_id t = tid then lowest_loop tid ts (start, lid)
      else lowest_loop tid ts (min start (tx_start_time t), min lid (tx_id t)))"

text \<open>The prefix of the recently committed transactions that is moved, up to the first break.\<close>

fun gc_loop :: "transaction_t \<Rightarrow> DuckTransaction list \<Rightarrow> DuckTransaction list \<times> DuckTransaction list" where
  "gc_loop lowest [] = ([], [])"
| "gc_loop lowest (t # ts) =
     (if commit_id t \<ge> lowest then ([], t # ts)
      else let (moved, rest) = gc_loop lowest ts in (t\<lparr>awaiting_cleanup := True\<rparr> # moved, rest))"

text \<open>\<open>t\<close> is the transaction object, an element of the list of active ones.\<close>

definition RemoveTransaction ::
  "DuckTransaction \<Rightarrow> bool \<Rightarrow> DuckTransactionManager \<Rightarrow> DuckTransactionManager \<times> DuckCleanupInfo" where
  "RemoveTransaction t store_transaction m =
     (let (lowest_start0, lowest_id) =
            lowest_loop (tx_id t) (active_transactions m) (TRANSACTION_ID_START, MAX_TRANSACTION_ID);
          lowest = (if active_checkpoint m \<noteq> MAX_TRANSACTION_ID \<and> active_checkpoint m < lowest_start0
                    then active_checkpoint m else lowest_start0);
          m1 = m\<lparr>lowest_active_start := lowest, lowest_active_id := lowest_id\<rparr>;
          (recent, direct) =
            (if store_transaction then
               (if commit_id t \<noteq> 0 then (recently_committed_transactions m1 @ [t], [])
                else (recently_committed_transactions m1, [t]))
             else if changes_made t then (recently_committed_transactions m1, [t\<lparr>awaiting_cleanup := True\<rparr>])
             else (recently_committed_transactions m1, []));
          (moved, rest) = gc_loop lowest recent
      in (m1\<lparr>active_transactions := filter (\<lambda>u. tx_id u \<noteq> tx_id t) (active_transactions m1),
             recently_committed_transactions := rest\<rparr>,
          \<lparr>lowest_start_time = lowest, ci_transactions = direct @ moved\<rparr>))"

section \<open>Commit and rollback\<close>

text \<open>The section of \<open>CommitTransaction\<close> that makes the decision, before the lock is given away.\<close>

definition commit_decision ::
  "checkpoint_env \<Rightarrow> UndoBufferProperties \<Rightarrow> bool \<Rightarrow> DuckTransaction \<Rightarrow> DuckTransactionManager
   \<Rightarrow> (CheckpointDecision \<times> bool) result" where
  "commit_decision env undo_properties temporary t m =
     (if \<not> is_system env \<and> \<not> temporary \<and> changes_made t \<and> tx_read_only env then
        Inl (InternalException ''Attempting to commit a transaction that is read-only but has made changes - this should not be possible'')
      else Inr (CanCheckpoint env undo_properties (tx_id t) m))"

text \<open>
  The section after the WAL was written, up to the scheduling of the clean-up. \<open>wal_error\<close> is the
  error of the WAL write, \<open>commit_result\<close> the error of \<open>DuckTransaction::Commit\<close> given the commit id
  and whether there are other transactions, \<open>rollback_error\<close> the one of \<open>DuckTransaction::Rollback\<close>.
  \<open>DuckTransaction::Commit\<close> stores the commit id first, a failed commit clears it again.
\<close>

definition commit_section ::
  "UndoBufferProperties \<Rightarrow> exn option \<Rightarrow> (transaction_t \<Rightarrow> bool \<Rightarrow> exn option) \<Rightarrow> exn option
   \<Rightarrow> DuckTransaction \<Rightarrow> DuckTransactionManager \<Rightarrow> (DuckTransactionManager \<times> exn option) result" where
  "commit_section undo_properties wal_error commit_result rollback_error t m =
     (let (m1, commit_ts) = GetCommitTimestamp m;
          error = (case wal_error of Some e \<Rightarrow> Some e
                   | None \<Rightarrow> commit_result commit_ts (HasOtherTransactions (tx_id t) m1))
      in case error of
           Some e \<Rightarrow>
             (if rollback_error \<noteq> None then
                Inl (FatalException ''Failed to rollback transaction. Cannot continue operation.'')
              else
                let (m2, info) = RemoveTransaction (t\<lparr>commit_id := 0\<rparr>) True m1
                in Inr (schedule info m2, Some e))
         | None \<Rightarrow>
             (let t1 = t\<lparr>commit_id := commit_ts\<rparr>;
                  m2 = m1\<lparr>last_commit := commit_ts\<rparr>;
                  (m3, t2) = (if catalog_version t1 \<ge> unat TRANSACTION_ID_START
                    then (m2\<lparr>last_committed_version := last_committed_version m2 + 1\<rparr>,
                          t1\<lparr>catalog_version := last_committed_version m2 + 1\<rparr>)
                    else (m2, t1));
                  store_transaction = (has_updates undo_properties \<or> has_index_deletes undo_properties \<or>
                    has_catalog_changes undo_properties);
                  (m4, info) = RemoveTransaction t2 store_transaction m3
              in Inr (schedule info m4, None)))"

text \<open>
  The whole of \<open>CommitTransaction\<close>. What the transaction, the log and the storage manager answer is in
  the environment; \<open>during_wal\<close> is what other threads do to the manager while the transaction lock is
  given away for the write of the log. The result has the transactions cleaned up, the size added to
  the log for a database that has none, the kind of checkpoint attempted, and the error returned.
\<close>

record commit_env =
  ce_checkpoint :: checkpoint_env
  ce_temporary :: bool
  should_write_to_wal :: bool
  recovery_default :: bool
  no_wal_writes :: bool
  during_wal :: "DuckTransactionManager \<Rightarrow> DuckTransactionManager"
  write_to_wal_error :: "exn option"
  commit_error :: "transaction_t \<Rightarrow> bool \<Rightarrow> exn option"
  undo_error :: "exn option"
  create_checkpoint_error :: "CheckpointType \<Rightarrow> exn option"

definition CommitTransaction ::
  "commit_env \<Rightarrow> UndoBufferProperties \<Rightarrow> DuckTransaction \<Rightarrow> DuckTransactionManager
   \<Rightarrow> (DuckTransactionManager \<times> (DuckTransaction \<times> transaction_t) list \<times> idx_t \<times> CheckpointType option \<times> exn option) result" where
  "CommitTransaction env undo_properties t m =
     (case commit_decision (ce_checkpoint env) undo_properties (ce_temporary env) t m of
        Inl e \<Rightarrow> Inl e
      | Inr (decision, locked) \<Rightarrow>
          let checkpoint_kind = (case decision of DoCheckpoint kind \<Rightarrow> Some kind | NoCheckpoint reason \<Rightarrow> None);
              write_wal = (checkpoint_kind = None \<and> should_write_to_wal env);
              m1 = (if write_wal then during_wal env m else m);
              wal_error = (if write_wal \<and> recovery_default env then write_to_wal_error env else None);
              wal_size = (if \<not> is_system (ce_checkpoint env) \<and> (in_memory (ce_checkpoint env) \<or> no_wal_writes env)
                          then estimated_size undo_properties else 0)
          in case commit_section undo_properties wal_error (commit_error env) (undo_error env) t m1 of
               Inl e \<Rightarrow> Inl e
             | Inr (m2, error) \<Rightarrow>
                 let (m3, cleaned) = run_cleanup m2;
                     attempted = (if error = None then checkpoint_kind else None)
                 in Inr (m3, cleaned, wal_size, attempted,
                      (case attempted of Some kind \<Rightarrow> create_checkpoint_error env kind | None \<Rightarrow> error)))"

text \<open>\<open>RollbackTransaction\<close>: the undo, the removal and the clean-up of the front of the queue.\<close>

definition rollback_section :: "DuckTransaction \<Rightarrow> DuckTransactionManager \<Rightarrow> DuckTransactionManager" where
  "rollback_section t m =
     (let (m1, info) = RemoveTransaction t (changes_made t) m in schedule info m1)"

definition RollbackTransaction ::
  "exn option \<Rightarrow> DuckTransaction \<Rightarrow> DuckTransactionManager
   \<Rightarrow> DuckTransactionManager \<times> (DuckTransaction \<times> transaction_t) list \<times> unit result" where
  "RollbackTransaction rollback_error t m =
     (let (m1, cleaned) = run_cleanup (rollback_section t m)
      in (m1, cleaned,
          if rollback_error \<noteq> None
          then Inl (FatalException ''Failed to rollback transaction. Cannot continue operation.'')
          else Inr ()))"

section \<open>Catalog versions\<close>

definition update_active :: "DuckTransaction \<Rightarrow> DuckTransactionManager \<Rightarrow> DuckTransactionManager" where
  "update_active t m =
     m\<lparr>active_transactions := map (\<lambda>u. if tx_id u = tx_id t then t else u) (active_transactions m)\<rparr>"

definition PushCatalogEntry ::
  "bool \<Rightarrow> bool \<Rightarrow> bool \<Rightarrow> DuckTransaction \<Rightarrow> DuckTransactionManager \<Rightarrow> DuckTransactionManager result" where
  "PushCatalogEntry system temporary read_only t m =
     (if \<not> system \<and> \<not> temporary \<and> read_only then
        Inl (InternalException ''Attempting to do catalog changes on a transaction that is read-only - this should not be possible'')
      else
        let v = last_uncommitted_catalog_version m + 1
        in Inr (update_active (t\<lparr>catalog_version := v, changes_made := True\<rparr>)
                  (m\<lparr>last_uncommitted_catalog_version := v\<rparr>)))"

definition PushAttach :: "bool \<Rightarrow> DuckTransaction \<Rightarrow> DuckTransactionManager \<Rightarrow> DuckTransactionManager result" where
  "PushAttach system t m =
     (if \<not> system then Inl (InternalException ''Can only ATTACH in the system catalog'')
      else
        let v = last_uncommitted_catalog_version m + 1
        in Inr (update_active (t\<lparr>catalog_version := v, changes_made := True\<rparr>)
                  (m\<lparr>last_uncommitted_catalog_version := v\<rparr>)))"

text \<open>Any other change of a transaction: an entry in its undo buffer or its local storage.\<close>

definition make_changes :: "DuckTransaction \<Rightarrow> DuckTransactionManager \<Rightarrow> DuckTransactionManager" where
  "make_changes t m = update_active (t\<lparr>changes_made := True\<rparr>) m"

section \<open>Histories\<close>

text \<open>
  One step of the manager under its lock. The second part of a history's state is the log of the
  commits so far, newest first: the transaction, its commit id, and whether it left old versions behind
  (updates, index deletes or catalog changes), which is when the code stores it. The timestamp counter is a 64 bit word; a
  commit takes a timestamp without looking at the bound that \<open>StartTransaction\<close> enforces, and the
  histories considered stay below it.
\<close>

type_synonym history = "DuckTransactionManager \<times> (transaction_t \<times> transaction_t \<times> bool) list"

definition leaves_versions :: "UndoBufferProperties \<Rightarrow> bool" where
  "leaves_versions props \<longleftrightarrow> has_updates props \<or> has_index_deletes props \<or> has_catalog_changes props"

inductive mgr_step :: "history \<Rightarrow> history \<Rightarrow> bool" where
  start: "StartTransaction m = Inr (m', t) \<Longrightarrow> mgr_step (m, log) (m', log)"
| change: "t \<in> set (active_transactions m) \<Longrightarrow> mgr_step (m, log) (make_changes t m, log)"
| catalog: "t \<in> set (active_transactions m) \<Longrightarrow> PushCatalogEntry sys temp ro t m = Inr m' \<Longrightarrow>
    mgr_step (m, log) (m', log)"
| attach: "t \<in> set (active_transactions m) \<Longrightarrow> PushAttach sys t m = Inr m' \<Longrightarrow> mgr_step (m, log) (m', log)"
| commit: "t \<in> set (active_transactions m) \<Longrightarrow> current_start_timestamp m < TRANSACTION_ID_START \<Longrightarrow>
    commit_section props wal_error commit_result rollback_error t m = Inr (m', None) \<Longrightarrow>
    mgr_step (m, log) (m', (tx_id t, current_start_timestamp m, leaves_versions props) # log)"
| failed_commit: "t \<in> set (active_transactions m) \<Longrightarrow> current_start_timestamp m < TRANSACTION_ID_START \<Longrightarrow>
    commit_section props wal_error commit_result rollback_error t m = Inr (m', Some e) \<Longrightarrow>
    mgr_step (m, log) (m', log)"
| rollback: "t \<in> set (active_transactions m) \<Longrightarrow> mgr_step (m, log) (rollback_section t m, log)"
| cleanup: "run_cleanup m = (m', cleaned) \<Longrightarrow> mgr_step (m, log) (m', log)"
| checkpoint_begin: "GetNewCheckpointId m = Inr (m', cid) \<Longrightarrow> mgr_step (m, log) (m', log)"
| checkpoint_end: "mgr_step (m, log) (ResetCheckpointId m, log)"

inductive mgr_reachable :: "transaction_t \<Rightarrow> history \<Rightarrow> bool" for unset where
  initial: "mgr_reachable unset (DuckTransactionManager_new unset, [])"
| step: "mgr_reachable unset h \<Longrightarrow> mgr_step h h' \<Longrightarrow> mgr_reachable unset h'"

section \<open>The invariant\<close>

definition counters_ok :: "DuckTransactionManager \<Rightarrow> bool" where
  "counters_ok m \<longleftrightarrow> 2 \<le> current_start_timestamp m \<and> current_start_timestamp m \<le> TRANSACTION_ID_START \<and>
     TRANSACTION_ID_START \<le> current_transaction_id m \<and>
     unat (current_transaction_id m) + 2 \<le> unat TRANSACTION_ID_START + unat (current_start_timestamp m)"

definition active_ok :: "DuckTransactionManager \<Rightarrow> bool" where
  "active_ok m \<longleftrightarrow> distinct (map tx_id (active_transactions m)) \<and>
     (\<forall>t \<in> set (active_transactions m). tx_start_time t < current_start_timestamp m \<and>
        TRANSACTION_ID_START \<le> tx_id t \<and> tx_id t < current_transaction_id m \<and> commit_id t = 0 \<and>
        lowest_active_start m \<le> tx_start_time t)"

definition recent_ok :: "DuckTransactionManager \<Rightarrow> bool" where
  "recent_ok m \<longleftrightarrow> sorted_wrt (<) (map commit_id (recently_committed_transactions m)) \<and>
     (\<forall>t \<in> set (recently_committed_transactions m). 0 < commit_id t \<and> commit_id t < current_start_timestamp m)"

definition log_ok :: "history \<Rightarrow> bool" where
  "log_ok h \<longleftrightarrow> (case h of (m, log) \<Rightarrow>
     sorted_wrt (>) (map (\<lambda>(i, c, s). c) log) \<and>
     (\<forall>(i, c, s) \<in> set log. c < current_start_timestamp m \<and>
        (\<forall>t \<in> set (active_transactions m). tx_start_time t \<noteq> c)) \<and>
     (log \<noteq> [] \<longrightarrow> last_commit m = fst (snd (hd log))))"

text \<open>
  The old versions a committed transaction left behind are needed while a transaction that started
  before the commit is active, and while a checkpoint from before the commit runs.
\<close>

definition versions_needed :: "transaction_t \<Rightarrow> DuckTransactionManager \<Rightarrow> bool" where
  "versions_needed c m \<longleftrightarrow> (\<exists>t \<in> set (active_transactions m). tx_start_time t < c) \<or>
     active_checkpoint m \<noteq> MAX_TRANSACTION_ID \<and> active_checkpoint m < c"

definition kept_ok :: "history \<Rightarrow> bool" where
  "kept_ok h \<longleftrightarrow> (case h of (m, log) \<Rightarrow> \<forall>(i, c, s) \<in> set log. s \<longrightarrow> versions_needed c m \<longrightarrow>
     (\<exists>t \<in> set (recently_committed_transactions m). tx_id t = i \<and> commit_id t = c))"

definition mgr_inv :: "history \<Rightarrow> bool" where
  "mgr_inv h \<longleftrightarrow> counters_ok (fst h) \<and> active_ok (fst h) \<and> recent_ok (fst h) \<and> log_ok h \<and> kept_ok h"

section \<open>The loops of the removal\<close>

lemma lowest_loop_min:
  "lowest_loop tid ts (a, b) =
    (fold min (map tx_start_time (filter (\<lambda>t. tx_id t \<noteq> tid) ts)) a,
     fold min (map tx_id (filter (\<lambda>t. tx_id t \<noteq> tid) ts)) b)"
  by (induction ts arbitrary: a b) (auto simp: min.commute)

lemma fold_min_le:
  fixes a :: "'a::linorder"
  shows "fold min xs a \<le> a" "x \<in> set xs \<Longrightarrow> fold min xs a \<le> x"
proof -
  have le: "fold min ys b \<le> b" for ys and b :: 'a
  proof (induction ys arbitrary: b)
    case (Cons y ys)
    have "fold min ys (min y b) \<le> min y b" by (rule Cons)
    then show ?case by simp
  qed simp
  show "fold min xs a \<le> a" by (rule le)
  show "x \<in> set xs \<Longrightarrow> fold min xs a \<le> x"
  proof (induction xs arbitrary: a)
    case (Cons y ys)
    have "x = y \<Longrightarrow> fold min ys (min y a) \<le> x" using le [of ys "min y a"] by simp
    with Cons show ?case by auto
  qed simp
qed

lemma gc_loop_sorted:
  assumes "sorted_wrt (<) (map commit_id ts)"
  shows "gc_loop lowest ts =
    (map (\<lambda>t. t\<lparr>awaiting_cleanup := True\<rparr>) (filter (\<lambda>t. commit_id t < lowest) ts),
     filter (\<lambda>t. lowest \<le> commit_id t) ts)"
  using assms
proof (induction ts)
  case (Cons t ts)
  show ?case
  proof (cases "lowest \<le> commit_id t")
    case True
    have "\<forall>u \<in> set ts. lowest \<le> commit_id u"
      using Cons.prems True by (auto intro: less_imp_le order.strict_trans1)
    with True show ?thesis by (simp add: not_less [symmetric] filter_empty_conv filter_id_conv)
  next
    case False
    with Cons show ?thesis by (simp add: not_le)
  qed
qed simp

text \<open>The lowest start time a removal computes.\<close>

definition lowest_after :: "transaction_t \<Rightarrow> DuckTransactionManager \<Rightarrow> transaction_t" where
  "lowest_after tid m =
     (let lowest = fold min (map tx_start_time (filter (\<lambda>t. tx_id t \<noteq> tid) (active_transactions m))) TRANSACTION_ID_START
      in if active_checkpoint m \<noteq> MAX_TRANSACTION_ID \<and> active_checkpoint m < lowest then active_checkpoint m
         else lowest)"

lemma lowest_after_le:
  "t \<in> set (active_transactions m) \<Longrightarrow> tx_id t \<noteq> tid \<Longrightarrow> lowest_after tid m \<le> tx_start_time t"
  "active_checkpoint m \<noteq> MAX_TRANSACTION_ID \<Longrightarrow> lowest_after tid m \<le> active_checkpoint m"
  "lowest_after tid m \<le> TRANSACTION_ID_START"
proof -
  let ?low = "fold min (map tx_start_time (filter (\<lambda>t. tx_id t \<noteq> tid) (active_transactions m))) TRANSACTION_ID_START"
  have le: "lowest_after tid m \<le> ?low" by (auto simp: lowest_after_def Let_def)
  show "t \<in> set (active_transactions m) \<Longrightarrow> tx_id t \<noteq> tid \<Longrightarrow> lowest_after tid m \<le> tx_start_time t"
    using le fold_min_le(2) [of "tx_start_time t" "map tx_start_time (filter (\<lambda>t. tx_id t \<noteq> tid) (active_transactions m))"
        TRANSACTION_ID_START] by (auto intro: order.trans)
  show "active_checkpoint m \<noteq> MAX_TRANSACTION_ID \<Longrightarrow> lowest_after tid m \<le> active_checkpoint m"
    by (auto simp: lowest_after_def Let_def)
  show "lowest_after tid m \<le> TRANSACTION_ID_START"
    using le fold_min_le(1) by (rule order.trans)
qed

text \<open>The recently committed transactions with the removed one, before the collection.\<close>

definition recent_with :: "DuckTransaction \<Rightarrow> bool \<Rightarrow> DuckTransactionManager \<Rightarrow> DuckTransaction list" where
  "recent_with t store m = recently_committed_transactions m @ (if store \<and> commit_id t \<noteq> 0 then [t] else [])"

lemma RemoveTransaction_eq:
  assumes "sorted_wrt (<) (map commit_id (recent_with t store m))"
  defines "low \<equiv> lowest_after (tx_id t) m"
  shows "\<exists>lid direct. RemoveTransaction t store m =
    (m\<lparr>lowest_active_start := low, lowest_active_id := lid,
       active_transactions := filter (\<lambda>u. tx_id u \<noteq> tx_id t) (active_transactions m),
       recently_committed_transactions := filter (\<lambda>u. low \<le> commit_id u) (recent_with t store m)\<rparr>,
     \<lparr>lowest_start_time = low,
      ci_transactions = direct @ map (\<lambda>u. u\<lparr>awaiting_cleanup := True\<rparr>)
        (filter (\<lambda>u. commit_id u < low) (recent_with t store m))\<rparr>) \<and>
     set direct \<subseteq> {t, t\<lparr>awaiting_cleanup := True\<rparr>}"
proof -
  let ?direct = "if store then (if commit_id t \<noteq> 0 then [] else [t])
     else if changes_made t then [t\<lparr>awaiting_cleanup := True\<rparr>] else []"
  let ?lid = "fold min (map tx_id (filter (\<lambda>u. tx_id u \<noteq> tx_id t) (active_transactions m))) MAX_TRANSACTION_ID"
  let ?state = "\<lambda>rest. m\<lparr>lowest_active_start := low, lowest_active_id := ?lid,
       active_transactions := filter (\<lambda>u. tx_id u \<noteq> tx_id t) (active_transactions m),
       recently_committed_transactions := rest\<rparr>"
  have gc: "gc_loop low (recent_with t store m) =
    (map (\<lambda>t. t\<lparr>awaiting_cleanup := True\<rparr>) (filter (\<lambda>t. commit_id t < low) (recent_with t store m)),
     filter (\<lambda>t. low \<le> commit_id t) (recent_with t store m))"
    by (rule gc_loop_sorted) (rule assms(1))
  have low: "(if active_checkpoint m \<noteq> MAX_TRANSACTION_ID \<and> active_checkpoint m <
      fold min (map tx_start_time (filter (\<lambda>u. tx_id u \<noteq> tx_id t) (active_transactions m))) TRANSACTION_ID_START
      then active_checkpoint m
      else fold min (map tx_start_time (filter (\<lambda>u. tx_id u \<noteq> tx_id t) (active_transactions m))) TRANSACTION_ID_START) = low"
    by (simp add: low_def lowest_after_def)
  have run: "RemoveTransaction t store m = (let (moved, rest) = gc_loop low (recent_with t store m)
      in (?state rest, \<lparr>lowest_start_time = low, ci_transactions = ?direct @ moved\<rparr>))"
    unfolding RemoveTransaction_def lowest_loop_min Let_def prod.case low
    by (cases store; cases "commit_id t = 0"; cases "changes_made t") (simp_all add: recent_with_def)
  show ?thesis
    unfolding run gc Let_def prod.case by (intro exI [of _ ?lid] exI [of _ ?direct] conjI refl) auto
qed

section \<open>Every step keeps the invariant\<close>

lemma word_succ_less:
  assumes "(x :: transaction_t) < TRANSACTION_ID_START"
  shows "x < x + 1" "x + 1 \<le> TRANSACTION_ID_START" "unat (x + 1) = unat x + 1"
    "y < x + 1 \<longleftrightarrow> y \<le> x"
proof -
  have u: "unat (x + 1) = unat x + 1"
  proof -
    have "1 + x \<noteq> 0" using assms by (auto simp: add_eq_0_iff TRANSACTION_ID_START_def)
    then show ?thesis by (simp add: unatSuc add.commute [of x])
  qed
  then show "unat (x + 1) = unat x + 1" "x < x + 1" by (simp_all add: word_less_nat_alt)
  show "x + 1 \<le> TRANSACTION_ID_START" using assms by (rule inc_le)
  show "y < x + 1 \<longleftrightarrow> y \<le> x" using u by (simp add: word_less_nat_alt word_le_nat_alt less_Suc_eq_le)
qed

lemma mgr_inv_initial: "mgr_inv (DuckTransactionManager_new unset, [])"
proof -
  have "(2 :: transaction_t) \<le> TRANSACTION_ID_START" "unat (2 :: transaction_t) = 2"
    by (simp_all add: TRANSACTION_ID_START_def)
  then show ?thesis
    by (simp add: mgr_inv_def counters_ok_def active_ok_def recent_ok_def log_ok_def kept_ok_def
        DuckTransactionManager_new_def)
qed

text \<open>Replacing an active transaction by one with the same times keeps everything.\<close>

lemma update_active_inv:
  assumes "mgr_inv (m, log)" "u \<in> set (active_transactions m)"
    and "tx_id t = tx_id u" "tx_start_time t = tx_start_time u" "commit_id t = commit_id u"
  shows "mgr_inv (update_active t (m\<lparr>last_uncommitted_catalog_version := v\<rparr>), log)"
proof -
  let ?r = "\<lambda>x. if tx_id x = tx_id t then t else x"
  let ?m = "update_active t (m\<lparr>last_uncommitted_catalog_version := v\<rparr>)"
  have act: "active_transactions ?m = map ?r (active_transactions m)" by (simp add: update_active_def)
  have inj: "inj_on tx_id (set (active_transactions m))"
    using assms(1) by (simp add: mgr_inv_def active_ok_def distinct_map)
  have same: "tx_id (?r x) = tx_id x \<and> tx_start_time (?r x) = tx_start_time x \<and> commit_id (?r x) = commit_id x"
    if "x \<in> set (active_transactions m)" for x
  proof (cases "tx_id x = tx_id t")
    case True
    then have "x = u" using inj_onD [OF inj, of x u] that assms(2,3) by simp
    then show ?thesis using True assms(3,4,5) by simp
  qed simp
  have ids: "map tx_id (active_transactions ?m) = map tx_id (active_transactions m)"
    using same by (simp add: act)
  have starts: "tx_start_time ` set (active_transactions ?m) = tx_start_time ` set (active_transactions m)"
  proof -
    have "tx_start_time ` set (active_transactions ?m) = (\<lambda>x. tx_start_time (?r x)) ` set (active_transactions m)"
      by (simp only: act set_map image_image)
    also have "\<dots> = tx_start_time ` set (active_transactions m)"
      by (rule image_cong) (use same in blast)+
    finally show ?thesis .
  qed
  have other: "current_start_timestamp ?m = current_start_timestamp m" "current_transaction_id ?m = current_transaction_id m"
    "lowest_active_start ?m = lowest_active_start m" "last_commit ?m = last_commit m"
    "active_checkpoint ?m = active_checkpoint m"
    "recently_committed_transactions ?m = recently_committed_transactions m"
    by (simp_all add: update_active_def)
  have need: "versions_needed c ?m = versions_needed c m" for c
  proof -
    have "(\<exists>t \<in> set (active_transactions ?m). tx_start_time t < c) \<longleftrightarrow>
        (\<exists>t \<in> set (active_transactions m). tx_start_time t < c)"
    proof -
      have "(\<exists>x \<in> tx_start_time ` set (active_transactions ?m). x < c) \<longleftrightarrow>
          (\<exists>x \<in> tx_start_time ` set (active_transactions m). x < c)" unfolding starts ..
      then show ?thesis by simp
    qed
    then show ?thesis by (simp only: versions_needed_def other)
  qed
  have "active_ok ?m"
  proof -
    have "\<forall>x \<in> set (active_transactions m). tx_start_time x < current_start_timestamp m \<and>
        TRANSACTION_ID_START \<le> tx_id x \<and> tx_id x < current_transaction_id m \<and> commit_id x = 0 \<and>
        lowest_active_start m \<le> tx_start_time x" "distinct (map tx_id (active_transactions m))"
      using assms(1) by (simp_all add: mgr_inv_def active_ok_def)
    then show ?thesis unfolding active_ok_def ids other using assms(2,3,4,5) by (auto simp: act)
  qed
  moreover have "log_ok (?m, log)"
  proof -
    have eq: "(\<forall>t \<in> set (active_transactions ?m). tx_start_time t \<noteq> c) \<longleftrightarrow>
        (\<forall>t \<in> set (active_transactions m). tx_start_time t \<noteq> c)" for c
    proof -
      have "(\<forall>x \<in> tx_start_time ` set (active_transactions ?m). x \<noteq> c) \<longleftrightarrow>
          (\<forall>x \<in> tx_start_time ` set (active_transactions m). x \<noteq> c)" unfolding starts ..
      then show ?thesis by simp
    qed
    have "log_ok (m, log)" using assms(1) by (simp add: mgr_inv_def)
    then show ?thesis by (auto simp: log_ok_def other eq)
  qed
  ultimately show ?thesis
    using assms(1) need by (simp add: mgr_inv_def counters_ok_def recent_ok_def kept_ok_def other)
qed

text \<open>The queue plays no part in the invariant.\<close>

lemma mgr_inv_queue [simp]: "mgr_inv (m\<lparr>cleanup_queue := q\<rparr>, log) = mgr_inv (m, log)"
  by (simp add: mgr_inv_def counters_ok_def active_ok_def recent_ok_def log_ok_def kept_ok_def versions_needed_def)

lemma mgr_inv_schedule [simp]: "mgr_inv (schedule info m, log) = mgr_inv (m, log)"
  by (simp add: schedule_def)

text \<open>A removal, given what holds of the list it collects from.\<close>

lemma RemoveTransaction_inv:
  assumes "counters_ok m" "active_ok m" "log_ok (m, log)"
    and "sorted_wrt (<) (map commit_id (recent_with t store m))"
    and "\<forall>u \<in> set (recent_with t store m). 0 < commit_id u \<and> commit_id u < current_start_timestamp m"
    and "\<forall>(i, c, s) \<in> set log. s \<longrightarrow>
      versions_needed c (m\<lparr>active_transactions := filter (\<lambda>u. tx_id u \<noteq> tx_id t) (active_transactions m)\<rparr>) \<longrightarrow>
      (\<exists>u \<in> set (recent_with t store m). tx_id u = i \<and> commit_id u = c)"
    and "RemoveTransaction t store m = (m', info)"
  shows "mgr_inv (m', log)"
proof -
  define low where "low = lowest_after (tx_id t) m"
  define act where "act = filter (\<lambda>u. tx_id u \<noteq> tx_id t) (active_transactions m)"
  define recent where "recent = filter (\<lambda>u. low \<le> commit_id u) (recent_with t store m)"
  obtain lid where m': "m' = m\<lparr>lowest_active_start := low, lowest_active_id := lid,
      active_transactions := act, recently_committed_transactions := recent\<rparr>"
    using RemoveTransaction_eq [OF assms(4)] assms(7) by (auto simp: low_def act_def recent_def)
  have sub: "set act \<subseteq> set (active_transactions m)" by (auto simp: act_def)
  have "active_ok m'"
    using assms(2) lowest_after_le(1) [of _ m "tx_id t"]
    by (auto simp: m' active_ok_def act_def low_def distinct_map_filter)
  moreover have "recent_ok m'"
    using assms(4,5) by (auto simp: m' recent_ok_def recent_def sorted_wrt_map sorted_wrt_filter)
  moreover have "log_ok (m', log)"
    using assms(3) sub unfolding log_ok_def by (simp add: m') blast
  moreover have "kept_ok (m', log)"
    unfolding kept_ok_def prod.case
  proof (rule ballI)
    fix e assume e: "e \<in> set log"
    obtain i c s where ics: "e = (i, c, s)" by (cases e) auto
    have "\<exists>t \<in> set (recently_committed_transactions m'). tx_id t = i \<and> commit_id t = c"
      if s: "s" and need: "versions_needed c m'"
    proof -
      have "versions_needed c (m\<lparr>active_transactions := act\<rparr>)" using need by (simp add: m' versions_needed_def)
      then obtain u where u: "u \<in> set (recent_with t store m)" "tx_id u = i" "commit_id u = c"
        using assms(6) e s unfolding act_def ics by fastforce
      have "low \<le> c"
        using need lowest_after_le(1) [of _ m "tx_id t"] lowest_after_le(2) [of m "tx_id t"]
        unfolding versions_needed_def low_def by (auto simp: m' act_def intro: less_imp_le order.trans)
      with u show ?thesis by (auto simp: m' recent_def)
    qed
    then show "case e of (i, c, s) \<Rightarrow> s \<longrightarrow> versions_needed c m' \<longrightarrow>
        (\<exists>t \<in> set (recently_committed_transactions m'). tx_id t = i \<and> commit_id t = c)"
      by (simp add: ics)
  qed
  ultimately show ?thesis using assms(1) by (simp add: mgr_inv_def m' counters_ok_def)
qed

lemma start_inv:
  assumes "mgr_inv (m, log)" "StartTransaction m = Inr (m', t)"
  shows "mgr_inv (m', log)" "tx_start_time t = current_start_timestamp m"
    "active_transactions m' = active_transactions m @ [t]"
proof -
  let ?now = "current_start_timestamp m" and ?tid = "current_transaction_id m"
  have now: "?now < TRANSACTION_ID_START" using assms(2) by (auto simp: StartTransaction_def split: if_splits)
  note succ = word_succ_less [OF now]
  define lowest where "lowest = (if active_transactions m = [] then ?now else lowest_active_start m)"
  obtain lid where m': "m' = m\<lparr>current_start_timestamp := ?now + 1, current_transaction_id := ?tid + 1,
      lowest_active_start := lowest, lowest_active_id := lid, active_transactions := active_transactions m @ [t]\<rparr>"
    and t: "t = DuckTransaction_new ?now ?tid (last_committed_version m)"
  proof (cases "active_transactions m = []")
    case True
    then show thesis
      using assms(2) now by (intro that [of ?tid]) (auto simp: StartTransaction_def Let_def lowest_def not_le [symmetric])
  next
    case False
    then show thesis
      using assms(2) now by (intro that [of "lowest_active_id m"])
        (auto simp: StartTransaction_def Let_def lowest_def not_le [symmetric])
  qed
  show "tx_start_time t = ?now" "active_transactions m' = active_transactions m @ [t]"
    by (simp_all add: t m' DuckTransaction_new_def)
  have ids: "unat (?tid + 1) = unat ?tid + 1" "?tid < ?tid + 1" "TRANSACTION_ID_START \<le> ?tid"
  proof -
    have c: "unat ?tid + 2 \<le> unat TRANSACTION_ID_START + unat ?now" "TRANSACTION_ID_START \<le> ?tid"
      using assms(1) by (simp_all add: mgr_inv_def counters_ok_def)
    have "unat ?now < unat TRANSACTION_ID_START" using now by (simp add: word_less_nat_alt)
    moreover have "unat TRANSACTION_ID_START = 4611686018427388000" by (simp add: TRANSACTION_ID_START_def)
    ultimately have "unat ?tid < 9223372036854776000" using c(1) by linarith
    then have "1 + ?tid \<noteq> 0"
      by (auto simp: add_eq_0_iff unsigned_minus_1_eq_mask mask_eq_exp_minus_1)
    then show "unat (?tid + 1) = unat ?tid + 1" by (simp add: unatSuc add.commute [of ?tid])
    then show "?tid < ?tid + 1" by (simp add: word_less_nat_alt)
    show "TRANSACTION_ID_START \<le> ?tid" by (rule c(2))
  qed
  have t_simps: "tx_start_time t = ?now" "tx_id t = ?tid" "commit_id t = 0" by (simp_all add: t DuckTransaction_new_def)
  have "counters_ok m'"
    using assms(1) succ(1,2,3) ids
    by (auto simp: mgr_inv_def counters_ok_def m' intro: order.trans less_imp_le)
  moreover have "active_ok m'"
  proof -
    have low: "lowest \<le> ?now" if "\<forall>u \<in> set (active_transactions m). lowest_active_start m \<le> tx_start_time u \<and> tx_start_time u < ?now"
      using that by (cases "active_transactions m") (auto simp: lowest_def intro: less_imp_le order.trans)
    have "lowest \<le> lowest_active_start m \<or> active_transactions m = []" by (simp add: lowest_def)
    then show ?thesis
      using assms(1) low succ(1) ids t_simps unfolding mgr_inv_def active_ok_def
      by (auto simp: m' intro: order.trans less_imp_le less_trans)
  qed
  moreover have "recent_ok m'"
    using assms(1) succ(1) by (auto simp: mgr_inv_def recent_ok_def m' intro: less_trans)
  moreover have "log_ok (m', log)"
    using assms(1) succ(1) t_simps unfolding mgr_inv_def log_ok_def
    by (auto simp: m' intro: less_trans)
  moreover have "kept_ok (m', log)"
  proof -
    have "versions_needed c m' \<Longrightarrow> (i, c, s) \<in> set log \<Longrightarrow> versions_needed c m" for i c s
      using assms(1) t_simps unfolding mgr_inv_def log_ok_def versions_needed_def by (auto simp: m') 
    then show ?thesis using assms(1) unfolding mgr_inv_def kept_ok_def by (auto simp: m')
  qed
  ultimately show "mgr_inv (m', log)" by (simp add: mgr_inv_def)
qed

lemma checkpoint_begin_inv:
  assumes "mgr_inv (m, log)" "GetNewCheckpointId m = Inr (m', cid)"
  shows "mgr_inv (m', log)"
proof -
  have m': "m' = m\<lparr>active_checkpoint := last_commit m\<rparr>"
    using assms(2) by (auto simp: GetNewCheckpointId_def split: if_splits)
  have last: "c \<le> last_commit m" if "(i, c, s) \<in> set log" for i c s
  proof (cases log)
    case (Cons e rest)
    then show ?thesis using assms(1) that by (cases e) (force simp: mgr_inv_def log_ok_def intro: less_imp_le)
  qed (use that in simp)
  have "kept_ok (m', log)"
    using assms(1) last unfolding mgr_inv_def kept_ok_def versions_needed_def
    by (force simp: m' dest: leD)
  then show ?thesis
    using assms(1) by (simp add: mgr_inv_def m' counters_ok_def active_ok_def recent_ok_def log_ok_def)
qed

lemma checkpoint_end_inv: "mgr_inv (m, log) \<Longrightarrow> mgr_inv (ResetCheckpointId m, log)"
  by (auto simp: mgr_inv_def ResetCheckpointId_def counters_ok_def active_ok_def recent_ok_def log_ok_def
      kept_ok_def versions_needed_def)

lemma rollback_inv:
  assumes "mgr_inv (m, log)" "t \<in> set (active_transactions m)"
  shows "mgr_inv (rollback_section t m, log)"
proof -
  obtain m1 info where r: "RemoveTransaction t (changes_made t) m = (m1, info)" by fastforce
  have aborted: "commit_id t = 0" using assms by (auto simp: mgr_inv_def active_ok_def)
  then have recent: "recent_with t (changes_made t) m = recently_committed_transactions m"
    by (simp add: recent_with_def)
  have "mgr_inv (m1, log)"
    by (rule RemoveTransaction_inv [OF _ _ _ _ _ _ r])
       (use assms(1) in \<open>auto simp: mgr_inv_def recent recent_ok_def kept_ok_def versions_needed_def\<close>)
  then show ?thesis by (simp add: rollback_section_def r)
qed

text \<open>The new commit id is above everything handed out before.\<close>

lemma commit_inv:
  assumes "mgr_inv (m, log)" "t \<in> set (active_transactions m)" "current_start_timestamp m < TRANSACTION_ID_START"
    and "commit_section props wal_error commit_result rollback_error t m = Inr (m', None)"
  shows "mgr_inv (m', (tx_id t, current_start_timestamp m, leaves_versions props) # log)"
proof -
  let ?now = "current_start_timestamp m"
  note succ = word_succ_less [OF assms(3)]
  obtain v cv m4 info where r: "RemoveTransaction (t\<lparr>commit_id := ?now, catalog_version := cv\<rparr>) (leaves_versions props)
      (m\<lparr>current_start_timestamp := ?now + 1, last_commit := ?now, last_committed_version := v\<rparr>) = (m4, info)"
    and m': "m' = schedule info m4"
  proof -
    let ?t = "t\<lparr>commit_id := ?now\<rparr>"
    let ?m = "m\<lparr>current_start_timestamp := ?now + 1, last_commit := ?now\<rparr>"
    let ?new = "catalog_version t \<ge> unat TRANSACTION_ID_START"
    let ?cv = "if ?new then last_committed_version m + 1 else catalog_version t"
    let ?v = "if ?new then last_committed_version m + 1 else last_committed_version m"
    obtain m4 info where r: "RemoveTransaction (?t\<lparr>catalog_version := ?cv\<rparr>) (leaves_versions props)
        (?m\<lparr>last_committed_version := ?v\<rparr>) = (m4, info)" by fastforce
    have "m' = schedule info m4"
      using assms(4) r
      by (auto simp: commit_section_def GetCommitTimestamp_def Let_def leaves_versions_def [symmetric]
          split: option.splits if_splits prod.splits)
    with r show thesis by (intro that [of ?cv ?v m4 info]) simp_all
  qed
  let ?t = "t\<lparr>commit_id := ?now, catalog_version := cv\<rparr>"
  let ?m = "m\<lparr>current_start_timestamp := ?now + 1, last_commit := ?now, last_committed_version := v\<rparr>"
  let ?log = "(tx_id t, ?now, leaves_versions props) # log"
  have "2 \<le> ?now" using assms(1) by (simp add: mgr_inv_def counters_ok_def)
  then have pos: "0 < ?now" by (rule order.strict_trans2 [rotated]) simp
  have recent: "recent_with ?t (leaves_versions props) ?m =
      recently_committed_transactions m @ (if leaves_versions props then [?t] else [])"
    using pos by (auto simp: recent_with_def)
  have "mgr_inv (m4, ?log)"
  proof (rule RemoveTransaction_inv [OF _ _ _ _ _ _ r])
    show "counters_ok ?m"
      using assms(1) succ(1,2,3) by (auto simp: mgr_inv_def counters_ok_def intro: order.trans less_imp_le)
    show "active_ok ?m"
      using assms(1) succ(1) by (auto simp: mgr_inv_def active_ok_def intro: less_trans)
    show "log_ok (?m, ?log)"
      using assms(1) succ(1) by (force simp: mgr_inv_def log_ok_def active_ok_def intro: less_trans)
    show "sorted_wrt (<) (map commit_id (recent_with ?t (leaves_versions props) ?m))"
      using assms(1) unfolding recent by (auto simp: mgr_inv_def recent_ok_def sorted_wrt_append)
    show "\<forall>u \<in> set (recent_with ?t (leaves_versions props) ?m). 0 < commit_id u \<and> commit_id u < current_start_timestamp ?m"
      using assms(1) succ(1) pos unfolding recent by (auto simp: mgr_inv_def recent_ok_def intro: less_trans)
    show "\<forall>(i, c, s) \<in> set ?log. s \<longrightarrow>
        versions_needed c (?m\<lparr>active_transactions := filter (\<lambda>u. tx_id u \<noteq> tx_id ?t) (active_transactions ?m)\<rparr>) \<longrightarrow>
        (\<exists>u \<in> set (recent_with ?t (leaves_versions props) ?m). tx_id u = i \<and> commit_id u = c)"
      using assms(1) unfolding recent by (fastforce simp: mgr_inv_def kept_ok_def versions_needed_def)
  qed
  then show ?thesis by (simp add: m')
qed

lemma failed_commit_inv:
  assumes "mgr_inv (m, log)" "t \<in> set (active_transactions m)" "current_start_timestamp m < TRANSACTION_ID_START"
    and "commit_section props wal_error commit_result rollback_error t m = Inr (m', Some e)"
  shows "mgr_inv (m', log)"
proof -
  let ?now = "current_start_timestamp m"
  note succ = word_succ_less [OF assms(3)]
  let ?m = "m\<lparr>current_start_timestamp := ?now + 1\<rparr>"
  obtain m4 info where r: "RemoveTransaction (t\<lparr>commit_id := 0\<rparr>) True ?m = (m4, info)" by fastforce
  have m': "m' = schedule info m4"
    using assms(4) r
    by (auto simp: commit_section_def GetCommitTimestamp_def Let_def split: option.splits if_splits prod.splits)
  have recent: "recent_with (t\<lparr>commit_id := 0\<rparr>) True ?m = recently_committed_transactions m"
    by (simp add: recent_with_def)
  have "mgr_inv (m4, log)"
  proof (rule RemoveTransaction_inv [OF _ _ _ _ _ _ r])
    show "counters_ok ?m"
      using assms(1) succ(1,2,3) by (auto simp: mgr_inv_def counters_ok_def intro: order.trans less_imp_le)
    show "active_ok ?m"
      using assms(1) succ(1) by (auto simp: mgr_inv_def active_ok_def intro: less_trans)
    show "log_ok (?m, log)"
      using assms(1) succ(1) by (auto simp: mgr_inv_def log_ok_def intro: less_trans)
    show "sorted_wrt (<) (map commit_id (recent_with (t\<lparr>commit_id := 0\<rparr>) True ?m))"
      using assms(1) unfolding recent by (auto simp: mgr_inv_def recent_ok_def)
    show "\<forall>u \<in> set (recent_with (t\<lparr>commit_id := 0\<rparr>) True ?m). 0 < commit_id u \<and> commit_id u < current_start_timestamp ?m"
      using assms(1) succ(1) unfolding recent by (auto simp: mgr_inv_def recent_ok_def intro: less_trans)
    show "\<forall>(i, c, s) \<in> set log. s \<longrightarrow>
        versions_needed c (?m\<lparr>active_transactions := filter (\<lambda>u. tx_id u \<noteq> tx_id (t\<lparr>commit_id := 0\<rparr>)) (active_transactions ?m)\<rparr>) \<longrightarrow>
        (\<exists>u \<in> set (recent_with (t\<lparr>commit_id := 0\<rparr>) True ?m). tx_id u = i \<and> commit_id u = c)"
      using assms(1) unfolding recent by (fastforce simp: mgr_inv_def kept_ok_def versions_needed_def)
  qed
  then show ?thesis by (simp add: m')
qed

lemma mgr_step_inv: "mgr_step h h' \<Longrightarrow> mgr_inv h \<Longrightarrow> mgr_inv h'"
proof (induction rule: mgr_step.induct)
  case (change t m log)
  then show ?case
    using update_active_inv [of m log t "t\<lparr>changes_made := True\<rparr>" "last_uncommitted_catalog_version m"]
    by (simp add: make_changes_def)
next
  case (catalog t m sys temp ro m' log)
  then show ?case
    using update_active_inv [of m log t "t\<lparr>catalog_version := last_uncommitted_catalog_version m + 1, changes_made := True\<rparr>"
        "last_uncommitted_catalog_version m + 1"]
    by (auto simp: PushCatalogEntry_def Let_def split: if_splits)
next
  case (attach t m sys m' log)
  then show ?case
    using update_active_inv [of m log t "t\<lparr>catalog_version := last_uncommitted_catalog_version m + 1, changes_made := True\<rparr>"
        "last_uncommitted_catalog_version m + 1"]
    by (auto simp: PushAttach_def Let_def split: if_splits)
next
  case (cleanup m m' cleaned log)
  then show ?case by (auto simp: run_cleanup_def split: list.splits)
qed (auto intro: start_inv commit_inv failed_commit_inv rollback_inv checkpoint_begin_inv checkpoint_end_inv)

lemma mgr_reachable_inv: "mgr_reachable unset h \<Longrightarrow> mgr_inv h"
  by (induction rule: mgr_reachable.induct) (auto intro: mgr_inv_initial mgr_step_inv)

inductive_cases mgr_stepE: "mgr_step (m, log) h"

section \<open>Properties\<close>

text \<open>
  C25. Timestamps order snapshots and commits: in every reachable state a transaction that starts now
  gets a start time above every commit id handed out, and a commit now would get an id above the start
  time of every active transaction; commit ids are handed out in increasing order, and active
  transactions have pairwise different ids of the range reserved for uncommitted work.
\<close>

theorem timestamps_ordered:
  assumes "mgr_reachable unset (m, log)"
  shows "(\<forall>m' t. StartTransaction m = Inr (m', t) \<longrightarrow>
      tx_start_time t = current_start_timestamp m \<and> (\<forall>(i, c, s) \<in> set log. c < tx_start_time t)) \<and>
    (\<forall>t \<in> set (active_transactions m). tx_start_time t < snd (GetCommitTimestamp m)) \<and>
    sorted_wrt (>) (map (\<lambda>(i, c, s). c) log) \<and>
    distinct (map tx_id (active_transactions m)) \<and>
    (\<forall>t \<in> set (active_transactions m). TRANSACTION_ID_START \<le> tx_id t)"
proof -
  have inv: "mgr_inv (m, log)" using assms by (rule mgr_reachable_inv)
  then have logs: "\<forall>(i, c, s) \<in> set log. c < current_start_timestamp m"
    by (auto simp: mgr_inv_def log_ok_def)
  show ?thesis
    using inv start_inv(2) [OF inv] logs
    by (auto simp: mgr_inv_def active_ok_def log_ok_def GetCommitTimestamp_def)
qed

lemma TRANSACTION_ID_START_gt: "TRANSACTION_ID_START > 2" "TRANSACTION_ID_START > 3" "TRANSACTION_ID_START > 4"
  by (simp_all add: TRANSACTION_ID_START_def)

text \<open>Two transactions have started.\<close>

lemma example_started:
  obtains m t1 t2 where "mgr_reachable 0 (m, [])" "active_transactions m = [t1, t2]"
    "tx_start_time t2 = 3" "tx_id t1 = TRANSACTION_ID_START" "tx_id t2 = TRANSACTION_ID_START + 1"
    "current_start_timestamp m = 4" "catalog_version t1 = 0" "recently_committed_transactions m = []"
proof -
  obtain m1 t1 m2 t2 where s: "StartTransaction (DuckTransactionManager_new 0) = Inr (m1, t1)"
    "StartTransaction m1 = Inr (m2, t2)" "active_transactions m2 = [t1, t2]" "tx_start_time t2 = 3"
    "tx_id t1 = TRANSACTION_ID_START" "tx_id t2 = TRANSACTION_ID_START + 1" "current_start_timestamp m2 = 4"
    "catalog_version t1 = 0" "recently_committed_transactions m2 = []"
    using TRANSACTION_ID_START_gt
    by (simp add: StartTransaction_def Let_def DuckTransactionManager_new_def DuckTransaction_new_def not_le)
  have "mgr_reachable 0 (m2, [])"
    by (rule mgr_reachable.step [OF mgr_reachable.step [OF mgr_reachable.initial mgr_step.start [OF s(1)]]
        mgr_step.start [OF s(2)]])
  with s show thesis by (intro that)
qed

theorem timestamps_ordered_witness:
  "\<exists>m t m' t'. mgr_reachable 0 (m, []) \<and> active_transactions m = [t, t'] \<and>
     tx_start_time t < snd (GetCommitTimestamp m)"
proof -
  obtain m t1 t2 where s: "mgr_reachable 0 (m, [])" "active_transactions m = [t1, t2]"
    by (rule example_started)
  with timestamps_ordered [OF s(1)] show ?thesis by auto
qed

text \<open>
  C2. No version that may still be needed is collected: in every reachable state, whatever the
  interleaving of starts, commits, rollbacks and checkpoints, a committed transaction that left old
  versions behind is still among the recently committed ones while some active transaction started
  before its commit, or a checkpoint from before its commit is running.
\<close>

theorem needed_versions_kept:
  assumes "mgr_reachable unset (m, log)" "(i, c, True) \<in> set log"
    and "(\<exists>t \<in> set (active_transactions m). tx_start_time t < c) \<or>
      active_checkpoint m \<noteq> MAX_TRANSACTION_ID \<and> active_checkpoint m < c"
  shows "\<exists>t \<in> set (recently_committed_transactions m). tx_id t = i \<and> commit_id t = c"
  using mgr_reachable_inv [OF assms(1)] assms(2,3) by (force simp: mgr_inv_def kept_ok_def versions_needed_def)

definition example_props :: UndoBufferProperties where
  "example_props = \<lparr>estimated_size = 0, has_updates = True, has_deletes = False, has_index_deletes = False, has_catalog_changes = False, has_dropped_entries = False\<rparr>"

lemma example_commit_section:
  assumes "catalog_version t < unat TRANSACTION_ID_START"
  shows "\<exists>m'. commit_section example_props None (\<lambda>_ _. None) None t m = Inr (m', None)"
  using assms by (auto simp: commit_section_def GetCommitTimestamp_def Let_def split: prod.splits)

theorem needed_versions_kept_witness:
  "\<exists>m t. mgr_reachable 0 (m, [(TRANSACTION_ID_START, 4, True)]) \<and> t \<in> set (active_transactions m) \<and>
     tx_start_time t < 4 \<and> (\<exists>t \<in> set (recently_committed_transactions m). tx_id t = TRANSACTION_ID_START \<and> commit_id t = 4)"
proof -
  obtain m2 t1 t2 where r: "mgr_reachable 0 (m2, [])" and s: "active_transactions m2 = [t1, t2]"
    "tx_start_time t2 = 3" "tx_id t1 = TRANSACTION_ID_START" "tx_id t2 = TRANSACTION_ID_START + 1"
    "current_start_timestamp m2 = 4" "catalog_version t1 = 0" "recently_committed_transactions m2 = []"
    by (rule example_started)
  have "catalog_version t1 < unat TRANSACTION_ID_START" using s(6) by (simp add: TRANSACTION_ID_START_def)
  then obtain m3 where c: "commit_section example_props None (\<lambda>_ _. None) None t1 m2 = Inr (m3, None)"
    using example_commit_section by blast
  have "leaves_versions example_props" by (simp add: leaves_versions_def example_props_def)
  then have "mgr_step (m2, []) (m3, [(TRANSACTION_ID_START, 4, True)])"
    using mgr_step.commit [OF _ _ c, of "[]"] s(1,3,5) TRANSACTION_ID_START_gt(3) by simp
  with r have r3: "mgr_reachable 0 (m3, [(TRANSACTION_ID_START, 4, True)])" by (rule mgr_reachable.step)
  have act: "t2 \<in> set (active_transactions m3)"
  proof -
    have "active_transactions m3 = filter (\<lambda>u. tx_id u \<noteq> tx_id t1) (active_transactions m2)"
      using c s(6) TRANSACTION_ID_START_gt
      by (auto simp: commit_section_def GetCommitTimestamp_def Let_def schedule_def RemoveTransaction_def
          split: prod.splits if_splits)
    then show ?thesis using s(1,3,4) by simp
  qed
  have "\<exists>t \<in> set (recently_committed_transactions m3). tx_id t = TRANSACTION_ID_START \<and> commit_id t = 4"
    using act s(2) by (intro needed_versions_kept [OF r3] disjI1 bexI [of _ t2]) simp_all
  with r3 act s(2) show ?thesis by (intro exI [of _ m3] exI [of _ t2]) simp
qed

text \<open>
  The collection's early exit misses nothing: when a transaction leaves, exactly the recently
  committed transactions whose commit id is below the new lowest start time are handed to the clean-up
  (in commit order, after the leaving one if it goes directly), the others stay, and that time is at
  most the start time of every transaction that stays active and the id of the running checkpoint.
\<close>

theorem removal_collects_exactly:
  assumes "mgr_reachable unset (m, log)" "t \<in> set (active_transactions m)"
    and "RemoveTransaction t (changes_made t) m = (m', info)"
  defines "low \<equiv> lowest_start_time info"
  shows "recently_committed_transactions m' = filter (\<lambda>u. low \<le> commit_id u) (recently_committed_transactions m) \<and>
    (\<exists>direct. ci_transactions info = direct @ map (\<lambda>u. u\<lparr>awaiting_cleanup := True\<rparr>)
       (filter (\<lambda>u. commit_id u < low) (recently_committed_transactions m)) \<and>
       set direct \<subseteq> {t, t\<lparr>awaiting_cleanup := True\<rparr>}) \<and>
    (\<forall>u \<in> set (active_transactions m'). u \<in> set (active_transactions m) \<and> tx_id u \<noteq> tx_id t \<and> low \<le> tx_start_time u) \<and>
    (active_checkpoint m \<noteq> MAX_TRANSACTION_ID \<longrightarrow> low \<le> active_checkpoint m)"
proof -
  have inv: "mgr_inv (m, log)" using assms(1) by (rule mgr_reachable_inv)
  have "commit_id t = 0" using inv assms(2) by (auto simp: mgr_inv_def active_ok_def)
  then have recent: "recent_with t (changes_made t) m = recently_committed_transactions m"
    by (simp add: recent_with_def)
  have sorted: "sorted_wrt (<) (map commit_id (recent_with t (changes_made t) m))"
    using inv by (simp add: recent mgr_inv_def recent_ok_def)
  show ?thesis
    using RemoveTransaction_eq [OF sorted] assms(3) lowest_after_le(1) [of _ m "tx_id t"] lowest_after_le(2) [of m "tx_id t"]
    by (auto simp: recent low_def)
qed

theorem removal_collects_exactly_witness:
  "\<exists>m t m' info. mgr_reachable 0 (m, []) \<and> t \<in> set (active_transactions m) \<and>
     RemoveTransaction t (changes_made t) m = (m', info) \<and> recently_committed_transactions m' = []"
proof -
  obtain m2 t1 t2 where r: "mgr_reachable 0 (m2, [])" and s: "active_transactions m2 = [t1, t2]"
    "recently_committed_transactions m2 = []"
    by (rule example_started)
  obtain m' info where rem: "RemoveTransaction t1 (changes_made t1) m2 = (m', info)" by fastforce
  have "t1 \<in> set (active_transactions m2)" using s(1) by simp
  with removal_collects_exactly [OF r this rem] r rem s(2) show ?thesis
    by (intro exI [of _ m2] exI [of _ t1] exI [of _ m'] exI [of _ info]) simp
qed

text \<open>
  A commit checkpoints in full only when no other transaction is active, concurrently only when
  others are and the commit neither updated rows nor dropped catalog entries, and only with the
  exclusive checkpoint lock in hand; system, read-only and still loading databases never checkpoint.
\<close>

theorem commit_checkpoint_decision:
  assumes "CanCheckpoint env props tid m = (decision, locked)"
  shows "(decision = DoCheckpoint FULL_CHECKPOINT \<longrightarrow> \<not> HasOtherTransactions tid m) \<and>
    (decision = DoCheckpoint CONCURRENT_CHECKPOINT \<longrightarrow>
       HasOtherTransactions tid m \<and> \<not> has_updates props \<and> \<not> has_dropped_entries props) \<and>
    (decision = DoCheckpoint VACUUM_ONLY \<longrightarrow> \<not> HasOtherTransactions tid m \<and> in_memory env \<and> \<not> compression_enabled env) \<and>
    ((\<exists>kind. decision = DoCheckpoint kind) \<longrightarrow> locked \<and> lock_available env \<and> \<not> is_system env \<and>
       \<not> tx_read_only env \<and> storage_loaded env \<and> automatic_checkpoint env)"
  using assms by (auto simp: CanCheckpoint_def Let_def split: if_splits)

theorem commit_checkpoint_decision_witness:
  "\<exists>decision locked. CanCheckpoint \<lparr>is_system = False, tx_read_only = False, storage_loaded = True,
       automatic_checkpoint = True, debug_skip = False, lock_available = True, in_memory = False,
       compression_enabled = True\<rparr> example_props TRANSACTION_ID_START (DuckTransactionManager_new 0) = (decision, locked) \<and>
     decision = DoCheckpoint FULL_CHECKPOINT \<and> locked"
proof -
  let ?env = "\<lparr>is_system = False, tx_read_only = False, storage_loaded = True,
       automatic_checkpoint = True, debug_skip = False, lock_available = True, in_memory = False,
       compression_enabled = True\<rparr>"
  have d: "CanCheckpoint ?env example_props TRANSACTION_ID_START (DuckTransactionManager_new 0) =
      (DoCheckpoint FULL_CHECKPOINT, True)"
    by (simp add: CanCheckpoint_def HasOtherTransactions_def DuckTransactionManager_new_def)
  with commit_checkpoint_decision [OF d] show ?thesis by blast
qed

lemma RemoveTransaction_fields:
  assumes "RemoveTransaction t s m = (m', info)"
  shows "active_transactions m' = filter (\<lambda>u. tx_id u \<noteq> tx_id t) (active_transactions m)" "last_commit m' = last_commit m"
    "current_start_timestamp m' = current_start_timestamp m" "cleanup_queue m' = cleanup_queue m"
  using assms by (auto simp: RemoveTransaction_def Let_def split: prod.splits)

lemma schedule_queue: "\<exists>own. cleanup_queue (schedule info m) = cleanup_queue m @ own \<and> length own \<le> 1 \<and> (\<forall>i\<in>set own. ci_transactions i \<noteq> [])"
  by (cases "ScheduleCleanup info") (simp_all add: schedule_def ScheduleCleanup_def)

lemma schedule_fields:
  "active_transactions (schedule info m) = active_transactions m" "last_commit (schedule info m) = last_commit m"
  "current_start_timestamp (schedule info m) = current_start_timestamp m"
  by (simp_all add: schedule_def)

text \<open>What the section under the lock does, on every branch.\<close>

lemma commit_section_effect:
  fixes wal_error :: "exn option" and commit_result :: "transaction_t \<Rightarrow> bool \<Rightarrow> exn option" and t :: DuckTransaction and m :: DuckTransactionManager
  defines "failure \<equiv> (if wal_error \<noteq> None then wal_error
      else commit_result (current_start_timestamp m) (\<exists>u\<in>set (active_transactions m). tx_id u \<noteq> tx_id t))"
  shows "case commit_section props wal_error commit_result rollback_error t m of
      Inl e \<Rightarrow> failure \<noteq> None \<and> rollback_error \<noteq> None \<and>
        e = FatalException ''Failed to rollback transaction. Cannot continue operation.''
    | Inr (m', err) \<Rightarrow> (failure \<noteq> None \<longrightarrow> rollback_error = None) \<and> err = failure \<and>
        active_transactions m' = filter (\<lambda>u. tx_id u \<noteq> tx_id t) (active_transactions m) \<and>
        last_commit m' = (if failure = None then current_start_timestamp m else last_commit m) \<and>
        current_start_timestamp m' = current_start_timestamp m + 1 \<and>
        (\<exists>own. cleanup_queue m' = cleanup_queue m @ own \<and> length own \<le> 1 \<and> (\<forall>i\<in>set own. ci_transactions i \<noteq> []))"
proof -
  define m0 where "m0 = m\<lparr>current_start_timestamp := current_start_timestamp m + 1\<rparr>"
  have m: "GetCommitTimestamp m = (m0, current_start_timestamp m)" "active_transactions m0 = active_transactions m"
    "last_commit m0 = last_commit m" "cleanup_queue m0 = cleanup_queue m" "current_start_timestamp m0 = current_start_timestamp m + 1"
    by (simp_all add: GetCommitTimestamp_def m0_def)
  have other: "HasOtherTransactions (tx_id t) m0 = (\<exists>u\<in>set (active_transactions m). tx_id u \<noteq> tx_id t)"
    by (auto simp: HasOtherTransactions_def m(2) list_ex_iff)
  have err: "(case wal_error of Some e \<Rightarrow> Some e | None \<Rightarrow> commit_result (current_start_timestamp m) (HasOtherTransactions (tx_id t) m0)) = failure"
    by (cases wal_error) (simp_all add: failure_def other)
  show ?thesis
  proof (cases failure)
    case (Some e)
    obtain m2 info where r: "RemoveTransaction (t\<lparr>commit_id := 0\<rparr>) True m0 = (m2, info)" by fastforce
    have sect: "commit_section props wal_error commit_result rollback_error t m = (if rollback_error \<noteq> None then
        Inl (FatalException ''Failed to rollback transaction. Cannot continue operation.'') else Inr (schedule info m2, Some e))"
      unfolding commit_section_def m(1) Let_def prod.case err Some option.case r by (rule refl)
    show ?thesis
    proof (cases "rollback_error = None")
      case True
      have "\<exists>own. cleanup_queue (schedule info m2) = cleanup_queue m @ own \<and> length own \<le> 1 \<and> (\<forall>i\<in>set own. ci_transactions i \<noteq> [])"
        using schedule_queue [of info m2] unfolding RemoveTransaction_fields(4) [OF r] m(4) .
      then show ?thesis using RemoveTransaction_fields(1-3) [OF r] unfolding sect by (simp add: True Some schedule_fields m)
    qed (unfold sect, simp add: Some)
  next
    case None
    define u where "u = (if catalog_version t \<ge> unat TRANSACTION_ID_START
      then (m0\<lparr>last_commit := current_start_timestamp m, last_committed_version := last_committed_version m0 + 1\<rparr>,
            t\<lparr>commit_id := current_start_timestamp m, catalog_version := last_committed_version m0 + 1\<rparr>)
      else (m0\<lparr>last_commit := current_start_timestamp m\<rparr>, t\<lparr>commit_id := current_start_timestamp m\<rparr>))"
    obtain m2 info where r: "RemoveTransaction (snd u) (has_updates props \<or> has_index_deletes props \<or> has_catalog_changes props) (fst u) = (m2, info)"
      by fastforce
    have f: "active_transactions (fst u) = active_transactions m" "last_commit (fst u) = current_start_timestamp m" "tx_id (snd u) = tx_id t"
      "current_start_timestamp (fst u) = current_start_timestamp m + 1" "cleanup_queue (fst u) = cleanup_queue m"
      by (simp_all add: u_def m)
    have "commit_section props wal_error commit_result rollback_error t m = Inr (schedule info m2, None)"
      using r by (simp add: commit_section_def m(1) Let_def err None u_def split: if_splits)
    moreover have "\<exists>own. cleanup_queue (schedule info m2) = cleanup_queue m @ own \<and> length own \<le> 1 \<and> (\<forall>i\<in>set own. ci_transactions i \<noteq> [])"
      using schedule_queue [of info m2] unfolding RemoveTransaction_fields(4) [OF r] f(5) .
    ultimately show ?thesis using RemoveTransaction_fields(1-3) [OF r] None by (simp add: schedule_fields f)
  qed
qed

lemma commit_reaches:
  assumes "\<exists>log. mgr_reachable unset (m1, log) \<and> t \<in> set (active_transactions m1) \<and> current_start_timestamp m1 < TRANSACTION_ID_START"
    and "commit_section props wal_error commit_result rollback_error t m1 = Inr (m2, err)" "run_cleanup m2 = (m', cleaned)"
  shows "\<exists>log log'. mgr_reachable unset (m1, log) \<and> mgr_reachable unset (m', log') \<and>
    log' = (if err = None then (tx_id t, current_start_timestamp m1, leaves_versions props) # log else log)"
proof -
  obtain log where r: "mgr_reachable unset (m1, log)" "t \<in> set (active_transactions m1)" "current_start_timestamp m1 < TRANSACTION_ID_START"
    using assms(1) by blast
  let ?log = "if err = None then (tx_id t, current_start_timestamp m1, leaves_versions props) # log else log"
  have "mgr_step (m1, log) (m2, ?log)"
  proof (cases err)
    case None
    then show ?thesis using mgr_step.commit [OF r(2,3)] assms(2) by simp
  next
    case (Some e)
    then show ?thesis using mgr_step.failed_commit [OF r(2,3)] assms(2) by simp
  qed
  then have "mgr_reachable unset (m', ?log)"
    using mgr_reachable.step [OF mgr_reachable.step [OF r(1)]] mgr_step.cleanup [OF assms(3)] by blast
  then show ?thesis using r(1) by blast
qed

text \<open>
  C10. A whole commit, on every branch. A transaction that changed a database it may only read is refused
  before anything else. When no checkpoint is decided on and there is a log to write, the lock is given away
  for the write, and the rest works on what other threads have left of the manager. A failed write is the
  error of the commit, which is then not attempted; otherwise it is the commit, told the next timestamp and
  whether other transactions are active, that may fail. A failed commit is rolled back, and it is fatal when
  that fails. In every other case the transaction is removed, the clock moves, exactly a successful commit
  enters the log of commits and sets the last commit, and the oldest waiting clean-up is run, its own when
  there is no other. A checkpoint is attempted only after a successful commit that holds the exclusive lock,
  and its failure is reported. The state left is again one that the steps of the manager reach.
\<close>

theorem commit_transaction_steps:
  fixes props :: UndoBufferProperties and env :: commit_env
  assumes "\<forall>x \<in> {m, during_wal env m}. (\<exists>log. mgr_reachable unset (x, log)) \<and> t \<in> set (active_transactions x) \<and>
      current_start_timestamp x < TRANSACTION_ID_START"
  defines "read_only \<equiv> tx_read_only (ce_checkpoint env) \<and> changes_made t \<and> \<not> is_system (ce_checkpoint env) \<and> \<not> ce_temporary env"
    and "logged \<equiv> (\<nexists>kind. fst (CanCheckpoint (ce_checkpoint env) props (tx_id t) m) = DoCheckpoint kind) \<and> should_write_to_wal env"
  defines "m1 \<equiv> (if logged then during_wal env m else m)"
  defines "failure \<equiv> (if logged \<and> recovery_default env \<and> write_to_wal_error env \<noteq> None then write_to_wal_error env
      else commit_error env (current_start_timestamp m1) (\<exists>u\<in>set (active_transactions m1). tx_id u \<noteq> tx_id t))"
  shows "case CommitTransaction env props t m of
      Inl e \<Rightarrow> if read_only
        then e = InternalException ''Attempting to commit a transaction that is read-only but has made changes - this should not be possible''
        else failure \<noteq> None \<and> undo_error env \<noteq> None \<and>
          e = FatalException ''Failed to rollback transaction. Cannot continue operation.''
    | Inr (m', cleaned, wal_size, attempted, error) \<Rightarrow>
        \<not> read_only \<and> (failure \<noteq> None \<longrightarrow> undo_error env = None) \<and>
        (\<exists>log log'. mgr_reachable unset (m1, log) \<and> mgr_reachable unset (m', log') \<and>
          log' = (if failure = None then (tx_id t, current_start_timestamp m1, leaves_versions props) # log else log)) \<and>
        active_transactions m' = filter (\<lambda>u. tx_id u \<noteq> tx_id t) (active_transactions m1) \<and>
        last_commit m' = (if failure = None then current_start_timestamp m1 else last_commit m1) \<and>
        current_start_timestamp m' = current_start_timestamp m1 + 1 \<and>
        (\<exists>own. length own \<le> 1 \<and> (\<forall>i\<in>set own. ci_transactions i \<noteq> []) \<and>
          (case cleanup_queue m1 @ own of
             [] \<Rightarrow> cleaned = [] \<and> cleanup_queue m' = []
           | info # infos \<Rightarrow> cleaned = DuckCleanupInfo_Cleanup info \<and> cleanup_queue m' = infos)) \<and>
        (case attempted of
           None \<Rightarrow> error = failure \<and> (failure = None \<longrightarrow> (\<nexists>kind. fst (CanCheckpoint (ce_checkpoint env) props (tx_id t) m) = DoCheckpoint kind))
         | Some kind \<Rightarrow> failure = None \<and> fst (CanCheckpoint (ce_checkpoint env) props (tx_id t) m) = DoCheckpoint kind \<and>
             lock_available (ce_checkpoint env) \<and> error = create_checkpoint_error env kind)"
proof (cases read_only)
  case True
  then have "CommitTransaction env props t m = Inl (InternalException ''Attempting to commit a transaction that is read-only but has made changes - this should not be possible'')"
    by (simp add: CommitTransaction_def commit_decision_def read_only_def)
  then show ?thesis using True by simp
next
  case writable: False
  obtain decision locked where d: "CanCheckpoint (ce_checkpoint env) props (tx_id t) m = (decision, locked)" by fastforce
  have lock: "lock_available (ce_checkpoint env)" if "decision = DoCheckpoint kind" for kind
    using d that by (auto simp: CanCheckpoint_def Let_def split: if_splits)
  define kind where "kind = (case decision of DoCheckpoint kind \<Rightarrow> Some kind | NoCheckpoint r \<Rightarrow> None)"
  define wal_error where "wal_error = (if logged \<and> recovery_default env then write_to_wal_error env else None)"
  have logged: "logged = (kind = None \<and> should_write_to_wal env)"
    by (simp add: logged_def d kind_def split: CheckpointDecision.splits)
  have kinds: "(\<nexists>k. decision = DoCheckpoint k) = (kind = None)" "(decision = DoCheckpoint k) = (kind = Some k)" for k
    by (simp_all add: kind_def split: CheckpointDecision.splits)
  have cd: "commit_decision (ce_checkpoint env) props (ce_temporary env) t m = Inr (decision, locked)"
    using writable d by (auto simp: commit_decision_def read_only_def)
  have failure: "failure = (if wal_error \<noteq> None then wal_error
      else commit_error env (current_start_timestamp m1) (\<exists>u\<in>set (active_transactions m1). tx_id u \<noteq> tx_id t))"
    by (cases "write_to_wal_error env") (simp_all add: failure_def wal_error_def)
  note eff = commit_section_effect [where wal_error = wal_error and commit_result = "commit_error env" and rollback_error = "undo_error env"
      and t = t and m = m1 and props = props, folded failure]
  have whole: "CommitTransaction env props t m = (case commit_section props wal_error (commit_error env) (undo_error env) t m1 of
      Inl e \<Rightarrow> Inl e
    | Inr (m2, error) \<Rightarrow> (let (m3, cleaned) = run_cleanup m2; attempted = (if error = None then kind else None)
        in Inr (m3, cleaned, if \<not> is_system (ce_checkpoint env) \<and> (in_memory (ce_checkpoint env) \<or> no_wal_writes env)
             then estimated_size props else 0, attempted,
           case attempted of Some kind \<Rightarrow> create_checkpoint_error env kind | None \<Rightarrow> error)))"
    unfolding CommitTransaction_def cd m1_def wal_error_def logged kind_def by (simp add: Let_def split: sum.splits)
  show ?thesis
  proof (cases "commit_section props wal_error (commit_error env) (undo_error env) t m1")
    case (Inl e)
    then show ?thesis using eff writable by (simp add: whole)
  next
    case (Inr r)
    obtain m2 where sect: "commit_section props wal_error (commit_error env) (undo_error env) t m1 = Inr (m2, failure)"
      using Inr eff by (cases r) simp
    obtain m' cleaned where clean: "run_cleanup m2 = (m', cleaned)" by fastforce
    have run: "active_transactions m' = active_transactions m2" "last_commit m' = last_commit m2"
      "current_start_timestamp m' = current_start_timestamp m2"
      "case cleanup_queue m2 of [] \<Rightarrow> cleaned = [] \<and> cleanup_queue m' = []
         | info # infos \<Rightarrow> cleaned = DuckCleanupInfo_Cleanup info \<and> cleanup_queue m' = infos"
      using clean by (auto simp: run_cleanup_def split: list.splits)
    have reach: "\<exists>log log'. mgr_reachable unset (m1, log) \<and> mgr_reachable unset (m', log') \<and>
        log' = (if failure = None then (tx_id t, current_start_timestamp m1, leaves_versions props) # log else log)"
      using commit_reaches [OF _ sect clean, of unset] assms(1) by (auto simp: m1_def)
    have queue: "\<exists>own. length own \<le> 1 \<and> (\<forall>i\<in>set own. ci_transactions i \<noteq> []) \<and>
        (case cleanup_queue m1 @ own of [] \<Rightarrow> cleaned = [] \<and> cleanup_queue m' = []
         | info # infos \<Rightarrow> cleaned = DuckCleanupInfo_Cleanup info \<and> cleanup_queue m' = infos)"
      using eff sect run(4) by force
    show ?thesis
      unfolding whole sect using eff sect clean reach queue run(1-3) writable lock kinds
      by (cases failure; cases kind) (auto simp: d)
  qed
qed

definition example_env :: commit_env where
  "example_env = \<lparr>ce_checkpoint = \<lparr>is_system = False, tx_read_only = False, storage_loaded = True,
       automatic_checkpoint = False, debug_skip = False, lock_available = False, in_memory = False,
       compression_enabled = True\<rparr>, ce_temporary = False, should_write_to_wal = True, recovery_default = True,
     no_wal_writes = False, during_wal = (\<lambda>m. m), write_to_wal_error = None, commit_error = (\<lambda>_ _. None),
     undo_error = None, create_checkpoint_error = (\<lambda>_. None)\<rparr>"

theorem commit_transaction_steps_witness:
  "\<exists>m t m' cleaned log log'. CommitTransaction example_env example_props t m = Inr (m', cleaned, 0, None, None) \<and>
     mgr_reachable 0 (m, log) \<and> mgr_reachable 0 (m', log') \<and> log' \<noteq> log \<and> last_commit m' = 4"
proof -
  obtain m t1 t2 where r: "mgr_reachable 0 (m, [])" and s: "active_transactions m = [t1, t2]"
    "current_start_timestamp m = 4" "catalog_version t1 = 0"
    by (rule example_started)
  have ok: "\<forall>x \<in> {m, during_wal example_env m}. (\<exists>log. mgr_reachable 0 (x, log)) \<and> t1 \<in> set (active_transactions x) \<and>
      current_start_timestamp x < TRANSACTION_ID_START"
    using r s TRANSACTION_ID_START_gt by (auto simp: example_env_def)
  have "catalog_version t1 < unat TRANSACTION_ID_START" using s(3) by (simp add: TRANSACTION_ID_START_def)
  then obtain m2 where "commit_section example_props None (\<lambda>_ _. None) None t1 m = Inr (m2, None)"
    using example_commit_section by blast
  then obtain m' cleaned where c: "CommitTransaction example_env example_props t1 m = Inr (m', cleaned, 0, None, None)"
    by (cases "run_cleanup m2")
       (simp add: CommitTransaction_def commit_decision_def CanCheckpoint_def example_env_def Let_def)
  note env = example_env_def [THEN arg_cong, of during_wal, simplified] example_env_def [THEN arg_cong, of write_to_wal_error, simplified]
    example_env_def [THEN arg_cong, of commit_error, simplified]
  from commit_transaction_steps [OF ok, of example_props, unfolded c sum.case prod.case] obtain log log' where "mgr_reachable 0 (m, log)"
    "mgr_reachable 0 (m', log')" "log' \<noteq> log" "last_commit m' = 4"
    using s(2) by (auto simp: env split: if_splits)
  then show ?thesis using c
    by (intro exI [of _ m] exI [of _ t1] exI [of _ m'] exI [of _ cleaned] exI [of _ log] exI [of _ log']) simp
qed

text \<open>No step before a commit sets \<open>last_commit\<close>.\<close>

lemma no_commit_keeps_last_commit:
  assumes "mgr_reachable unset h"
  shows "snd h = [] \<longrightarrow> last_commit (fst h) = unset"
  using assms
proof (induction rule: mgr_reachable.induct)
  case initial
  then show ?case by (simp add: DuckTransactionManager_new_def)
next
  case (step h h')
  obtain m log where h: "h = (m, log)" by fastforce
  have remove: "RemoveTransaction t s m = (m', info) \<Longrightarrow> last_commit m' = last_commit m" for t s m m' info
    by (auto simp: RemoveTransaction_def Let_def split: prod.splits)
  have sched: "last_commit (schedule info m) = last_commit m" for info m by (simp add: schedule_def)
  show ?case
    using step.hyps(2) step.IH unfolding h
    by (cases rule: mgr_stepE)
       (auto simp: StartTransaction_def Let_def make_changes_def update_active_def PushCatalogEntry_def
          PushAttach_def commit_section_def GetCommitTimestamp_def rollback_section_def run_cleanup_def
          GetNewCheckpointId_def ResetCheckpointId_def sched
          split: if_splits option.splits prod.splits list.splits dest!: remove)
qed

text \<open>
  A checkpoint taken before the first commit takes as its id the value the constructor happened
  to leave in \<open>last_commit\<close>: no step before a commit sets that member.
\<close>

theorem first_checkpoint_id_unset:
  assumes "mgr_reachable unset (m, [])" "GetNewCheckpointId m = Inr (m', cid)"
  shows "cid = unset"
  using no_commit_keeps_last_commit [OF assms(1)] assms(2) by (auto simp: GetNewCheckpointId_def split: if_splits)

theorem first_checkpoint_id_unset_witness:
  "\<exists>m'. GetNewCheckpointId (DuckTransactionManager_new 12345) = Inr (m', 12345)"
proof -
  obtain m' cid where c: "GetNewCheckpointId (DuckTransactionManager_new 12345) = Inr (m', cid)"
    by (simp add: GetNewCheckpointId_def DuckTransactionManager_new_def)
  with first_checkpoint_id_unset [OF mgr_reachable.initial c] show ?thesis by simp
qed

end
