(* ===== verification/Date.thy ===== *)
theory Date
  imports Prelude
begin

text \<open>
  \<open>common/types/date.cpp\<close> with \<open>DateToStringCast\<close> of \<open>common/types/cast_helpers.hpp\<close>: dates as days
  since 1970-01-01. The \<open>int32_t\<close> and \<open>int64_t\<close> values are integers here; the bounds lemmas show that
  the arithmetic of the conversions stays within 32 bits for every valid date. The tables are those of
  the code, the reference they are checked against is the usual closed form of the proleptic Gregorian
  calendar. A C string with its length is a list of characters; reading is guarded by the position as
  in the code.
\<close>

section \<open>Tables\<close>

definition NORMAL_DAYS :: "int list" where
  "NORMAL_DAYS = [0, 31, 28, 31, 30, 31, 30, 31, 31, 30, 31, 30, 31]"

definition CUMULATIVE_DAYS :: "int list" where
  "CUMULATIVE_DAYS = [0, 31, 59, 90, 120, 151, 181, 212, 243, 273, 304, 334, 365]"

definition LEAP_DAYS :: "int list" where
  "LEAP_DAYS = [0, 31, 29, 31, 30, 31, 30, 31, 31, 30, 31, 30, 31]"

definition CUMULATIVE_LEAP_DAYS :: "int list" where
  "CUMULATIVE_LEAP_DAYS = [0, 31, 60, 91, 121, 152, 182, 213, 244, 274, 305, 335, 366]"

definition MONTH_PER_DAY_OF_YEAR :: "int list" where
  "MONTH_PER_DAY_OF_YEAR =
    [1, 1, 1, 1, 1, 1, 1, 1, 1, 1, 1, 1, 1, 1, 1, 1, 1, 1, 1, 1, 1, 1, 1, 1, 1, 1, 1, 1, 1,
     1, 1, 2, 2, 2, 2, 2, 2, 2, 2, 2, 2, 2, 2, 2, 2, 2, 2, 2, 2, 2, 2, 2, 2, 2, 2, 2, 2, 2,
     2, 3, 3, 3, 3, 3, 3, 3, 3, 3, 3, 3, 3, 3, 3, 3, 3, 3, 3, 3, 3, 3, 3, 3, 3, 3, 3, 3, 3,
     3, 3, 3, 4, 4, 4, 4, 4, 4, 4, 4, 4, 4, 4, 4, 4, 4, 4, 4, 4, 4, 4, 4, 4, 4, 4, 4, 4, 4,
     4, 4, 4, 4, 5, 5, 5, 5, 5, 5, 5, 5, 5, 5, 5, 5, 5, 5, 5, 5, 5, 5, 5, 5, 5, 5, 5, 5, 5,
     5, 5, 5, 5, 5, 5, 6, 6, 6, 6, 6, 6, 6, 6, 6, 6, 6, 6, 6, 6, 6, 6, 6, 6, 6, 6, 6, 6, 6,
     6, 6, 6, 6, 6, 6, 6, 7, 7, 7, 7, 7, 7, 7, 7, 7, 7, 7, 7, 7, 7, 7, 7, 7, 7, 7, 7, 7, 7,
     7, 7, 7, 7, 7, 7, 7, 7, 7, 8, 8, 8, 8, 8, 8, 8, 8, 8, 8, 8, 8, 8, 8, 8, 8, 8, 8, 8, 8,
     8, 8, 8, 8, 8, 8, 8, 8, 8, 8, 8, 9, 9, 9, 9, 9, 9, 9, 9, 9, 9, 9, 9, 9, 9, 9, 9, 9, 9,
     9, 9, 9, 9, 9, 9, 9, 9, 9, 9, 9, 9, 10, 10, 10, 10, 10, 10, 10, 10, 10, 10, 10, 10, 10, 10, 10, 10, 10,
     10, 10, 10, 10, 10, 10, 10, 10, 10, 10, 10, 10, 10, 10, 11, 11, 11, 11, 11, 11, 11, 11, 11, 11, 11, 11, 11, 11, 11,
     11, 11, 11, 11, 11, 11, 11, 11, 11, 11, 11, 11, 11, 11, 11, 12, 12, 12, 12, 12, 12, 12, 12, 12, 12, 12, 12, 12, 12,
     12, 12, 12, 12, 12, 12, 12, 12, 12, 12, 12, 12, 12, 12, 12, 12, 12]"

definition LEAP_MONTH_PER_DAY_OF_YEAR :: "int list" where
  "LEAP_MONTH_PER_DAY_OF_YEAR =
    [1, 1, 1, 1, 1, 1, 1, 1, 1, 1, 1, 1, 1, 1, 1, 1, 1, 1, 1, 1, 1, 1, 1, 1, 1, 1, 1, 1, 1,
     1, 1, 2, 2, 2, 2, 2, 2, 2, 2, 2, 2, 2, 2, 2, 2, 2, 2, 2, 2, 2, 2, 2, 2, 2, 2, 2, 2, 2,
     2, 2, 3, 3, 3, 3, 3, 3, 3, 3, 3, 3, 3, 3, 3, 3, 3, 3, 3, 3, 3, 3, 3, 3, 3, 3, 3, 3, 3,
     3, 3, 3, 3, 4, 4, 4, 4, 4, 4, 4, 4, 4, 4, 4, 4, 4, 4, 4, 4, 4, 4, 4, 4, 4, 4, 4, 4, 4,
     4, 4, 4, 4, 4, 5, 5, 5, 5, 5, 5, 5, 5, 5, 5, 5, 5, 5, 5, 5, 5, 5, 5, 5, 5, 5, 5, 5, 5,
     5, 5, 5, 5, 5, 5, 5, 6, 6, 6, 6, 6, 6, 6, 6, 6, 6, 6, 6, 6, 6, 6, 6, 6, 6, 6, 6, 6, 6,
     6, 6, 6, 6, 6, 6, 6, 6, 7, 7, 7, 7, 7, 7, 7, 7, 7, 7, 7, 7, 7, 7, 7, 7, 7, 7, 7, 7, 7,
     7, 7, 7, 7, 7, 7, 7, 7, 7, 7, 8, 8, 8, 8, 8, 8, 8, 8, 8, 8, 8, 8, 8, 8, 8, 8, 8, 8, 8,
     8, 8, 8, 8, 8, 8, 8, 8, 8, 8, 8, 8, 9, 9, 9, 9, 9, 9, 9, 9, 9, 9, 9, 9, 9, 9, 9, 9, 9,
     9, 9, 9, 9, 9, 9, 9, 9, 9, 9, 9, 9, 9, 10, 10, 10, 10, 10, 10, 10, 10, 10, 10, 10, 10, 10, 10, 10, 10,
     10, 10, 10, 10, 10, 10, 10, 10, 10, 10, 10, 10, 10, 10, 10, 11, 11, 11, 11, 11, 11, 11, 11, 11, 11, 11, 11, 11, 11,
     11, 11, 11, 11, 11, 11, 11, 11, 11, 11, 11, 11, 11, 11, 11, 11, 12, 12, 12, 12, 12, 12, 12, 12, 12, 12, 12, 12, 12,
     12, 12, 12, 12, 12, 12, 12, 12, 12, 12, 12, 12, 12, 12, 12, 12, 12, 12]"

definition CUMULATIVE_YEAR_DAYS :: "int list" where
  "CUMULATIVE_YEAR_DAYS =
    [0, 365, 730, 1096, 1461, 1826, 2191, 2557, 2922, 3287, 3652, 4018, 4383, 4748,
     5113, 5479, 5844, 6209, 6574, 6940, 7305, 7670, 8035, 8401, 8766, 9131, 9496, 9862,
     10227, 10592, 10957, 11323, 11688, 12053, 12418, 12784, 13149, 13514, 13879, 14245, 14610, 14975,
     15340, 15706, 16071, 16436, 16801, 17167, 17532, 17897, 18262, 18628, 18993, 19358, 19723, 20089,
     20454, 20819, 21184, 21550, 21915, 22280, 22645, 23011, 23376, 23741, 24106, 24472, 24837, 25202,
     25567, 25933, 26298, 26663, 27028, 27394, 27759, 28124, 28489, 28855, 29220, 29585, 29950, 30316,
     30681, 31046, 31411, 31777, 32142, 32507, 32872, 33238, 33603, 33968, 34333, 34699, 35064, 35429,
     35794, 36160, 36525, 36890, 37255, 37621, 37986, 38351, 38716, 39082, 39447, 39812, 40177, 40543,
     40908, 41273, 41638, 42004, 42369, 42734, 43099, 43465, 43830, 44195, 44560, 44926, 45291, 45656,
     46021, 46387, 46752, 47117, 47482, 47847, 48212, 48577, 48942, 49308, 49673, 50038, 50403, 50769,
     51134, 51499, 51864, 52230, 52595, 52960, 53325, 53691, 54056, 54421, 54786, 55152, 55517, 55882,
     56247, 56613, 56978, 57343, 57708, 58074, 58439, 58804, 59169, 59535, 59900, 60265, 60630, 60996,
     61361, 61726, 62091, 62457, 62822, 63187, 63552, 63918, 64283, 64648, 65013, 65379, 65744, 66109,
     66474, 66840, 67205, 67570, 67935, 68301, 68666, 69031, 69396, 69762, 70127, 70492, 70857, 71223,
     71588, 71953, 72318, 72684, 73049, 73414, 73779, 74145, 74510, 74875, 75240, 75606, 75971, 76336,
     76701, 77067, 77432, 77797, 78162, 78528, 78893, 79258, 79623, 79989, 80354, 80719, 81084, 81450,
     81815, 82180, 82545, 82911, 83276, 83641, 84006, 84371, 84736, 85101, 85466, 85832, 86197, 86562,
     86927, 87293, 87658, 88023, 88388, 88754, 89119, 89484, 89849, 90215, 90580, 90945, 91310, 91676,
     92041, 92406, 92771, 93137, 93502, 93867, 94232, 94598, 94963, 95328, 95693, 96059, 96424, 96789,
     97154, 97520, 97885, 98250, 98615, 98981, 99346, 99711, 100076, 100442, 100807, 101172, 101537, 101903,
     102268, 102633, 102998, 103364, 103729, 104094, 104459, 104825, 105190, 105555, 105920, 106286, 106651, 107016,
     107381, 107747, 108112, 108477, 108842, 109208, 109573, 109938, 110303, 110669, 111034, 111399, 111764, 112130,
     112495, 112860, 113225, 113591, 113956, 114321, 114686, 115052, 115417, 115782, 116147, 116513, 116878, 117243,
     117608, 117974, 118339, 118704, 119069, 119435, 119800, 120165, 120530, 120895, 121260, 121625, 121990, 122356,
     122721, 123086, 123451, 123817, 124182, 124547, 124912, 125278, 125643, 126008, 126373, 126739, 127104, 127469,
     127834, 128200, 128565, 128930, 129295, 129661, 130026, 130391, 130756, 131122, 131487, 131852, 132217, 132583,
     132948, 133313, 133678, 134044, 134409, 134774, 135139, 135505, 135870, 136235, 136600, 136966, 137331, 137696,
     138061, 138427, 138792, 139157, 139522, 139888, 140253, 140618, 140983, 141349, 141714, 142079, 142444, 142810,
     143175, 143540, 143905, 144271, 144636, 145001, 145366, 145732, 146097]"

definition EPOCH_YEAR :: int where "EPOCH_YEAR = 1970"
definition YEAR_INTERVAL :: int where "YEAR_INTERVAL = 400"
definition DAYS_PER_YEAR_INTERVAL :: int where "DAYS_PER_YEAR_INTERVAL = 146097"
definition DATE_MIN_YEAR :: int where "DATE_MIN_YEAR = - 5877641"
definition DATE_MIN_MONTH :: int where "DATE_MIN_MONTH = 6"
definition DATE_MIN_DAY :: int where "DATE_MIN_DAY = 25"
definition DATE_MAX_YEAR :: int where "DATE_MAX_YEAR = 5881580"
definition DATE_MAX_MONTH :: int where "DATE_MAX_MONTH = 7"
definition DATE_MAX_DAY :: int where "DATE_MAX_DAY = 10"

lemmas date_consts = EPOCH_YEAR_def YEAR_INTERVAL_def DAYS_PER_YEAR_INTERVAL_def DATE_MIN_YEAR_def
  DATE_MIN_MONTH_def DATE_MIN_DAY_def DATE_MAX_YEAR_def DATE_MAX_MONTH_def DATE_MAX_DAY_def

text \<open>A date is its number of days; the special values are the largest \<open>int32_t\<close> and its negation.\<close>

type_synonym date_t = int

definition date_infinity :: date_t where "date_infinity = 2147483647"
definition date_ninfinity :: date_t where "date_ninfinity = - 2147483647"
definition date_epoch :: date_t where "date_epoch = 0"

section \<open>From days to year, month and day\<close>

function normalize_up :: "int \<Rightarrow> int \<Rightarrow> int \<times> int" where
  "normalize_up n year =
     (if n < 0 then normalize_up (n + DAYS_PER_YEAR_INTERVAL) (year - YEAR_INTERVAL) else (n, year))"
  by pat_completeness auto
termination
  by (relation "measure (\<lambda>(n, _). nat (- n))") (auto simp: date_consts)

function normalize_down :: "int \<Rightarrow> int \<Rightarrow> int \<times> int" where
  "normalize_down n year =
     (if n \<ge> DAYS_PER_YEAR_INTERVAL
      then normalize_down (n - DAYS_PER_YEAR_INTERVAL) (year + YEAR_INTERVAL) else (n, year))"
  by pat_completeness auto
termination
  by (relation "measure (\<lambda>(n, _). nat n)") (auto simp: date_consts)

declare normalize_up.simps [simp del] normalize_down.simps [simp del]

text \<open>The search downwards; the assertion of the code says that it stops at 0 at the latest.\<close>

fun year_search :: "int \<Rightarrow> nat \<Rightarrow> nat" where
  "year_search n 0 = 0"
| "year_search n (Suc k) = (if n < CUMULATIVE_YEAR_DAYS ! Suc k then year_search n k else Suc k)"

text \<open>The normalized days, the year and the year offset.\<close>

definition ExtractYearOffset :: "int \<Rightarrow> int \<times> int \<times> nat" where
  "ExtractYearOffset n0 =
     (let (n1, y1) = normalize_up n0 EPOCH_YEAR;
          (n, y) = normalize_down n1 y1;
          year_offset = year_search n (nat (n div 365))
      in (n, y + int year_offset, year_offset))"

definition Convert :: "date_t \<Rightarrow> int \<times> int \<times> int" where
  "Convert d =
     (let (n, year, year_offset) = ExtractYearOffset d;
          day = n - CUMULATIVE_YEAR_DAYS ! year_offset;
          is_leap_year = (CUMULATIVE_YEAR_DAYS ! (year_offset + 1) - CUMULATIVE_YEAR_DAYS ! year_offset = 366)
      in if is_leap_year then
           let month = LEAP_MONTH_PER_DAY_OF_YEAR ! nat day
           in (year, month, day - CUMULATIVE_LEAP_DAYS ! nat (month - 1) + 1)
         else
           let month = MONTH_PER_DAY_OF_YEAR ! nat day
           in (year, month, day - CUMULATIVE_DAYS ! nat (month - 1) + 1))"

section \<open>From year, month and day to days\<close>

definition IsLeapYear :: "int \<Rightarrow> bool" where
  "IsLeapYear year \<longleftrightarrow> year mod 4 = 0 \<and> (year mod 100 \<noteq> 0 \<or> year mod 400 = 0)"

definition MonthDays :: "int \<Rightarrow> int \<Rightarrow> int" where
  "MonthDays year month =
     (if IsLeapYear year then LEAP_DAYS ! nat month else NORMAL_DAYS ! nat month)"

definition IsValid :: "int \<Rightarrow> int \<Rightarrow> int \<Rightarrow> bool" where
  "IsValid year month day =
     (if month < 1 \<or> month > 12 then False
      else if day < 1 then False
      else if year \<le> DATE_MIN_YEAR \<and>
        (year < DATE_MIN_YEAR \<or>
         month < DATE_MIN_MONTH \<or> month = DATE_MIN_MONTH \<and> day < DATE_MIN_DAY) then False
      else if year \<ge> DATE_MAX_YEAR \<and>
        (year > DATE_MAX_YEAR \<or>
         month > DATE_MAX_MONTH \<or> month = DATE_MAX_MONTH \<and> day > DATE_MAX_DAY) then False
      else if IsLeapYear year then day \<le> LEAP_DAYS ! nat month
      else day \<le> NORMAL_DAYS ! nat month)"

definition TryFromDate :: "int \<Rightarrow> int \<Rightarrow> int \<Rightarrow> date_t option" where
  "TryFromDate year month day =
     (if \<not> IsValid year month day then None
      else
        let n1 = (if IsLeapYear year then CUMULATIVE_LEAP_DAYS ! nat (month - 1)
                  else CUMULATIVE_DAYS ! nat (month - 1));
            n2 = n1 + (day - 1)
        in if year < 1970 then
             let diff_from_base = 1970 - year;
                 year_index = 400 - diff_from_base mod 400;
                 fractions = diff_from_base div 400
             in Some (n2 + CUMULATIVE_YEAR_DAYS ! nat year_index - DAYS_PER_YEAR_INTERVAL
                      - fractions * DAYS_PER_YEAR_INTERVAL)
           else if year \<ge> 2370 then
             let diff_from_base = year - 2370;
                 year_index = diff_from_base mod 400;
                 fractions = diff_from_base div 400
             in Some (n2 + CUMULATIVE_YEAR_DAYS ! nat year_index + DAYS_PER_YEAR_INTERVAL
                      + fractions * DAYS_PER_YEAR_INTERVAL)
           else Some (n2 + CUMULATIVE_YEAR_DAYS ! nat (year - 1970)))"

definition FromDate :: "int \<Rightarrow> int \<Rightarrow> int \<Rightarrow> date_t result" where
  "FromDate year month day =
     (case TryFromDate year month day of
        None \<Rightarrow> Inl (ConversionException ''Date out of range: %d-%d-%d'')
      | Some d \<Rightarrow> Inr d)"

section \<open>Parts of a date\<close>

definition ExtractYear :: "date_t \<Rightarrow> int" where
  "ExtractYear d = (let (_, year, _) = ExtractYearOffset d in year)"

definition ExtractMonth :: "date_t \<Rightarrow> int" where
  "ExtractMonth d = (let (_, month, _) = Convert d in month)"

definition ExtractDay :: "date_t \<Rightarrow> int" where
  "ExtractDay d = (let (_, _, day) = Convert d in day)"

text \<open>\<open>ExtractYearOffset\<close> normalizes the days of its argument in place.\<close>

definition ExtractDayOfTheYear :: "date_t \<Rightarrow> int" where
  "ExtractDayOfTheYear d =
     (let (n, _, year_offset) = ExtractYearOffset d in n - CUMULATIVE_YEAR_DAYS ! year_offset + 1)"

definition ExtractJulianDay :: "date_t \<Rightarrow> int" where
  "ExtractJulianDay d = d - (- 2440588)"

definition ExtractISODayOfTheWeek :: "date_t \<Rightarrow> int" where
  "ExtractISODayOfTheWeek d =
     (if d < 0 then 7 - ((- d + 3) mod 7) else ((d + 3) mod 7) + 1)"

definition PythonDivMod :: "int \<Rightarrow> int \<Rightarrow> int \<times> int" where
  "PythonDivMod x y =
     (let quo = x sdiv y; r = x - quo * y in if r < 0 then (quo - 1, r + y) else (quo, r))"

definition GetISOWeekOne :: "int \<Rightarrow> date_t result" where
  "GetISOWeekOne year =
     (case FromDate year 1 1 of
        Inl e \<Rightarrow> Inl e
      | Inr first_day \<Rightarrow>
          let first_weekday = ExtractISODayOfTheWeek first_day - 1;
              week1_monday = first_day - first_weekday
          in Inr (if first_weekday > 3 then week1_monday + 7 else week1_monday))"

text \<open>The week and the ISO year. The comparison with the next year's first week is made only in week 52 or later.\<close>

definition GetISOYearWeek :: "date_t \<Rightarrow> (int \<times> int) result" where
  "GetISOYearWeek d =
     (let (year, _, _) = Convert d in
      case GetISOWeekOne year of Inl e \<Rightarrow> Inl e
      | Inr week1_monday \<Rightarrow>
          let week = fst (PythonDivMod (d - week1_monday) 7) in
          if week < 0 then
            (case GetISOWeekOne (year - 1) of Inl e \<Rightarrow> Inl e
             | Inr week1_monday' \<Rightarrow> Inr (fst (PythonDivMod (d - week1_monday') 7) + 1, year - 1))
          else if week \<ge> 52 then
            (case GetISOWeekOne (year + 1) of Inl e \<Rightarrow> Inl e
             | Inr next_monday \<Rightarrow>
                 if d \<ge> next_monday then Inr (1, year + 1) else Inr (week + 1, year))
          else Inr (week + 1, year))"

definition ExtractWeekNumberRegular :: "date_t \<Rightarrow> bool \<Rightarrow> int result" where
  "ExtractWeekNumberRegular d monday_first =
     (let (year, month, day) = Convert d;
          day_of_the_year = (if IsLeapYear year then CUMULATIVE_LEAP_DAYS ! nat (month - 1)
                             else CUMULATIVE_DAYS ! nat (month - 1)) + (day - 1)
      in case FromDate year 1 1 of Inl e \<Rightarrow> Inl e
         | Inr jan_first \<Rightarrow>
             let day_of_jan_first = ExtractISODayOfTheWeek jan_first;
                 first_week_start =
                   (if monday_first then (if day_of_jan_first = 1 then 0 else 8 - day_of_jan_first)
                    else 7 - day_of_jan_first)
             in Inr (if day_of_the_year < first_week_start then 0
                     else (day_of_the_year - first_week_start) div 7 + 1))"

definition GetMondayOfCurrentWeek :: "date_t \<Rightarrow> date_t" where
  "GetMondayOfCurrentWeek d = d - (ExtractISODayOfTheWeek d - 1)"

section \<open>Epochs\<close>

definition SECS_PER_DAY :: int where "SECS_PER_DAY = 86400"
definition MICROS_PER_MSEC :: int where "MICROS_PER_MSEC = 1000"
definition MICROS_PER_SEC :: int where "MICROS_PER_SEC = 1000000"
definition MICROS_PER_DAY :: int where "MICROS_PER_DAY = SECS_PER_DAY * MICROS_PER_SEC"

definition EpochToDate :: "int \<Rightarrow> date_t" where
  "EpochToDate epoch = signed_take_bit 31 (epoch sdiv SECS_PER_DAY)"

definition Epoch :: "date_t \<Rightarrow> int" where
  "Epoch d = d * SECS_PER_DAY"

definition EpochNanoseconds :: "date_t \<Rightarrow> int result" where
  "EpochNanoseconds d =
     (case TryMultiply_int64 d (MICROS_PER_DAY * 1000) of
        None \<Rightarrow> Inl (ConversionException ''Could not convert DATE (%s) to nanoseconds'')
      | Some r \<Rightarrow> Inr r)"

definition EpochMicroseconds :: "date_t \<Rightarrow> int result" where
  "EpochMicroseconds d =
     (case TryMultiply_int64 d MICROS_PER_DAY of
        None \<Rightarrow> Inl (ConversionException ''Could not convert DATE (%s) to microseconds'')
      | Some r \<Rightarrow> Inr r)"

definition EpochMilliseconds :: "date_t \<Rightarrow> int result" where
  "EpochMilliseconds d =
     (case TryMultiply_int64 d (MICROS_PER_DAY sdiv MICROS_PER_MSEC) of
        None \<Rightarrow> Inl (ConversionException ''Could not convert DATE (%s) to milliseconds'')
      | Some r \<Rightarrow> Inr r)"

section \<open>The reference calendar\<close>

definition leap :: "int \<Rightarrow> bool" where
  "leap y \<longleftrightarrow> 4 dvd y \<and> (\<not> 100 dvd y \<or> 400 dvd y)"

definition year_length :: "int \<Rightarrow> int" where
  "year_length y = (if leap y then 366 else 365)"

definition month_length :: "int \<Rightarrow> int \<Rightarrow> int" where
  "month_length y m = (if m = 2 then (if leap y then 29 else 28) else if m \<in> {4, 6, 9, 11} then 30 else 31)"

text \<open>Days from 1970-01-01 to the first day of a year, and from there to the first of a month.\<close>

definition year_start :: "int \<Rightarrow> int" where
  "year_start y = 365 * (y - 1) + ((y - 1) div 4 - (y - 1) div 100 + (y - 1) div 400) - 719162"

definition month_start :: "int \<Rightarrow> int \<Rightarrow> int" where
  "month_start y m = (\<Sum>k \<in> {1..<m}. month_length y k)"

definition day_number :: "int \<Rightarrow> int \<Rightarrow> int \<Rightarrow> int" where
  "day_number y m d = year_start y + month_start y m + d - 1"

definition calendar_date :: "int \<Rightarrow> int \<Rightarrow> int \<Rightarrow> bool" where
  "calendar_date y m d \<longleftrightarrow> 1 \<le> m \<and> m \<le> 12 \<and> 1 \<le> d \<and> d \<le> month_length y m"

lemma year_start_1970 [simp]: "year_start 1970 = 0"
  by (simp add: year_start_def)

lemma year_start_next: "year_start (y + 1) = year_start y + year_length y"
proof -
  have step: "y div n = (y - 1) div n + (if n dvd y then 1 else 0)" if "0 < n" for n :: int
  proof (cases "n dvd y")
    case True
    then obtain k where k: "y = n * k" by (auto elim: dvdE)
    have "(n * k - 1) div n = k - 1"
      using that by (intro int_div_pos_eq [of _ _ _ "n - 1"]) (auto simp: algebra_simps)
    then show ?thesis using that True k by simp
  next
    case False
    then have "0 < y mod n" using that by (simp add: dvd_eq_mod_eq_0 order_less_le)
    moreover have "y mod n < n" using that by simp
    ultimately have "(y - 1) div n = y div n"
      by (intro int_div_pos_eq [of _ _ _ "y mod n - 1"]) (auto simp: algebra_simps)
    then show ?thesis using False by simp
  qed
  have div: "400 dvd y \<Longrightarrow> 100 dvd y" "100 dvd y \<Longrightarrow> 4 dvd y"
    by (erule dvd_trans [rotated], simp)+
  have "y div 4 - y div 100 + y div 400 = (y - 1) div 4 - (y - 1) div 100 + (y - 1) div 400 + (if leap y then 1 else 0)"
    unfolding step [of 4, simplified] step [of 100, simplified] step [of 400, simplified] leap_def
    using div by (cases "4 dvd y"; cases "100 dvd y"; cases "400 dvd y") simp_all
  then show ?thesis by (simp add: year_start_def year_length_def)
qed

lemma shift_div:
  fixes n c x y :: int
  assumes "n \<noteq> 0" "x = n * c"
  shows "(y + x - 1) div n = c + (y - 1) div n"
proof -
  have "y + x - 1 = (y - 1) + n * c" using assms(2) by simp
  then show ?thesis by (simp only: div_mult_self2 [OF assms(1)])
qed

lemma year_start_400: "year_start (y + 400 * k) = year_start y + 146097 * k"
  using shift_div [of 4 "400 * k" "100 * k" y] shift_div [of 100 "400 * k" "4 * k" y]
    shift_div [of 400 "400 * k" k y]
  by (simp add: year_start_def)

lemma leap_400: "leap (y + 400 * k) = leap y"
proof -
  have "4 dvd y + 400 * k \<longleftrightarrow> 4 dvd y" "100 dvd y + 400 * k \<longleftrightarrow> 100 dvd y" "400 dvd y + 400 * k \<longleftrightarrow> 400 dvd y"
    by (intro dvd_add_left_iff, simp add: dvd_mult2)+
  then show ?thesis by (simp add: leap_def)
qed

lemma year_length_pos: "365 \<le> year_length y" "year_length y \<le> 366"
  by (simp_all add: year_length_def)

lemma year_start_mono: "y < y' \<Longrightarrow> year_start y + year_length y \<le> year_start y'"
proof (induction y' rule: int_gr_induct [where k = y])
  case base
  then show ?case by (simp add: year_start_next)
next
  case (step i)
  then show ?case using year_start_next [of i] year_length_pos(1) [of i] by simp
qed

section \<open>The tables\<close>

lemma length_tables [simp]:
  "length CUMULATIVE_YEAR_DAYS = 401" "length MONTH_PER_DAY_OF_YEAR = 365"
  "length LEAP_MONTH_PER_DAY_OF_YEAR = 366"
  by (simp_all add: CUMULATIVE_YEAR_DAYS_def MONTH_PER_DAY_OF_YEAR_def LEAP_MONTH_PER_DAY_OF_YEAR_def)

lemma year_table: "CUMULATIVE_YEAR_DAYS = map year_start [1970..2370]"
  by code_simp

lemma CUMULATIVE_YEAR_DAYS_nth: "i \<le> 400 \<Longrightarrow> CUMULATIVE_YEAR_DAYS ! i = year_start (1970 + int i)"
  by (simp only: year_table) (subst nth_map, simp_all add: nth_upto del: upto_rec_numeral)

definition in_month :: "int list \<Rightarrow> int \<Rightarrow> int \<Rightarrow> bool" where
  "in_month cumulative m k \<longleftrightarrow>
     1 \<le> m \<and> m \<le> 12 \<and> cumulative ! nat (m - 1) \<le> k \<and> k < cumulative ! nat m"

lemma month_table: "list_all2 (in_month CUMULATIVE_DAYS) MONTH_PER_DAY_OF_YEAR [0..364]"
  by code_simp

lemma leap_month_table: "list_all2 (in_month CUMULATIVE_LEAP_DAYS) LEAP_MONTH_PER_DAY_OF_YEAR [0..365]"
  by code_simp

lemma months: "(1::int) \<le> m \<Longrightarrow> m \<le> 12 \<Longrightarrow> m \<in> {1, 2, 3, 4, 5, 6, 7, 8, 9, 10, 11, 12}"
proof -
  assume "1 \<le> m" "m \<le> 12"
  then have "m = 1 \<or> m = 2 \<or> m = 3 \<or> m = 4 \<or> m = 5 \<or> m = 6 \<or> m = 7 \<or> m = 8 \<or> m = 9 \<or>
      m = 10 \<or> m = 11 \<or> m = 12" by presburger
  then show ?thesis by simp
qed

lemma month_start_next: "1 \<le> m \<Longrightarrow> month_start y (m + 1) = month_start y m + month_length y m"
proof -
  assume "1 \<le> m"
  then have "{1..<m + 1} = insert m {1..<m}" by auto
  then show ?thesis by (simp add: month_start_def)
qed

lemma month_start_table:
  assumes "1 \<le> m" "m \<le> 13"
  shows "leap y \<Longrightarrow> CUMULATIVE_LEAP_DAYS ! nat (m - 1) = month_start y m"
    and "\<not> leap y \<Longrightarrow> CUMULATIVE_DAYS ! nat (m - 1) = month_start y m"
proof -
  have m: "m \<in> {1, 2, 3, 4, 5, 6, 7, 8, 9, 10, 11, 12, 13}"
    using assms months [of m] by (cases "m \<le> 12") auto
  have start: "month_start y 1 = 0" "month_start y 2 = month_length y 1"
    using month_start_next [of 1 y] by (simp_all add: month_start_def)
  note next_month = month_start_next [of 2 y] month_start_next [of 3 y] month_start_next [of 4 y]
    month_start_next [of 5 y] month_start_next [of 6 y] month_start_next [of 7 y] month_start_next [of 8 y]
    month_start_next [of 9 y] month_start_next [of 10 y] month_start_next [of 11 y] month_start_next [of 12 y]
  show "leap y \<Longrightarrow> CUMULATIVE_LEAP_DAYS ! nat (m - 1) = month_start y m"
    using m start next_month by (auto simp: CUMULATIVE_LEAP_DAYS_def month_length_def)
  show "\<not> leap y \<Longrightarrow> CUMULATIVE_DAYS ! nat (m - 1) = month_start y m"
    using m start next_month by (auto simp: CUMULATIVE_DAYS_def month_length_def)
qed

lemma month_days_table:
  assumes "1 \<le> m" "m \<le> 12"
  shows "leap y \<Longrightarrow> LEAP_DAYS ! nat m = month_length y m"
    and "\<not> leap y \<Longrightarrow> NORMAL_DAYS ! nat m = month_length y m"
  using months [OF assms] by (auto simp: LEAP_DAYS_def NORMAL_DAYS_def month_length_def)

lemma IsLeapYear_leap: "IsLeapYear y = leap y"
  by (auto simp: IsLeapYear_def leap_def dvd_eq_mod_eq_0)

section \<open>The year of a day\<close>

lemma normalize_up_eq:
  "normalize_up n y = (if n < 0 then (n mod 146097, y + 400 * (n div 146097)) else (n, y))"
proof (induction n y rule: normalize_up.induct)
  case (1 n y)
  show ?case
  proof (cases "n < 0")
    case False
    then show ?thesis by (subst normalize_up.simps) simp
  next
    case True
    have d: "(n + 146097) div 146097 = n div 146097 + 1" "(n + 146097) mod 146097 = n mod 146097" by simp_all
    have small: "n div 146097 = - 1 \<and> n mod 146097 = n + 146097" if "\<not> n + 146097 < 0"
      using that True by (intro conjI int_div_pos_eq [of _ _ _ "n + 146097"] int_mod_pos_eq [of _ _ "- 1"]) auto
    show ?thesis
      using 1 [OF True] True d small
      by (subst normalize_up.simps) (cases "n + 146097 < 0"; simp add: date_consts algebra_simps)
  qed
qed

lemma normalize_down_eq:
  "0 \<le> n \<Longrightarrow> normalize_down n y = (n mod 146097, y + 400 * (n div 146097))"
proof (induction n y rule: normalize_down.induct)
  case (1 n y)
  show ?case
  proof (cases "n \<ge> 146097")
    case False
    with 1 show ?thesis by (subst normalize_down.simps) (simp add: date_consts)
  next
    case True
    have d: "n div 146097 = (n - 146097) div 146097 + 1" "(n - 146097) mod 146097 = n mod 146097"
      using div_add_self2 [of 146097 "n - 146097"] by simp_all
    have "normalize_down n y = normalize_down (n - 146097) (y + 400)"
      using True by (subst normalize_down.simps) (simp add: date_consts)
    also have "\<dots> = (n mod 146097, y + 400 * (n div 146097))"
      using 1 True d by (simp add: date_consts)
    finally show ?thesis .
  qed
qed

lemma year_start_ge: "0 \<le> i \<Longrightarrow> 365 * i \<le> year_start (1970 + i)"
proof (induction i rule: int_ge_induct)
  case (step i)
  then show ?case using year_start_next [of "1970 + i"] year_length_pos(1) [of "1970 + i"]
    by (simp add: algebra_simps)
qed simp

lemma year_search_spec:
  assumes "k \<le> 400" "0 \<le> n" "k < 400 \<longrightarrow> n < year_start (1970 + int k + 1)" "n < 146097"
  defines "i \<equiv> year_search n k"
  shows "i < 400 \<and> year_start (1970 + int i) \<le> n \<and> n < year_start (1970 + int i + 1)"
  using assms(1,3) unfolding i_def
proof (induction k)
  case 0
  then show ?case using assms(2) by simp
next
  case (Suc k)
  have nth: "CUMULATIVE_YEAR_DAYS ! Suc k = year_start (1970 + int (Suc k))"
    using Suc.prems(1) by (rule CUMULATIVE_YEAR_DAYS_nth)
  show ?case
  proof (cases "n < CUMULATIVE_YEAR_DAYS ! Suc k")
    case True
    then show ?thesis using Suc nth by (simp add: add.assoc add.commute [of 1])
  next
    case False
    have "Suc k \<noteq> 400"
    proof
      assume "Suc k = 400"
      then have "CUMULATIVE_YEAR_DAYS ! Suc k = 146097" using nth year_start_400 [of 1970 1] by simp
      with False assms(4) show False by simp
    qed
    then show ?thesis using False Suc.prems nth by simp
  qed
qed

lemma ExtractYearOffset_spec:
  assumes "ExtractYearOffset d = (n, y, i)"
  shows "i < 400" "n = d mod 146097" "y = 1970 + int i + 400 * (d div 146097)"
    and "year_start y \<le> d" "d < year_start (y + 1)" "n - CUMULATIVE_YEAR_DAYS ! i = d - year_start y"
proof -
  let ?n = "d mod 146097" and ?k = "nat (d mod 146097 div 365)"
  have range: "0 \<le> ?n" "?n < 146097" by simp_all
  have norm: "(let (n1, y1) = normalize_up d EPOCH_YEAR in normalize_down n1 y1) = (?n, 1970 + 400 * (d div 146097))"
    by (simp add: normalize_up_eq normalize_down_eq date_consts)
  then have eq: "n = ?n" "i = year_search ?n ?k" "y = 1970 + 400 * (d div 146097) + int i"
    using assms by (auto simp: ExtractYearOffset_def Let_def split: prod.splits)
  have k: "?k \<le> 400" using range by simp
  have "?n < 365 * (?n div 365 + 1)" using div_mult_mod_eq [of ?n 365] pos_mod_bound [of 365 ?n] by simp
  also have "\<dots> \<le> year_start (1970 + (?n div 365 + 1))" by (rule year_start_ge) (use range in simp)
  finally have "?n < year_start (1970 + (?n div 365 + 1))" .
  moreover have "int ?k = ?n div 365" using range by (simp add: pos_imp_zdiv_nonneg_iff)
  ultimately have "?n < year_start (1970 + int ?k + 1)" by (simp add: add.assoc)
  with year_search_spec [OF k range(1) _ range(2)]
  have s: "i < 400" "year_start (1970 + int i) \<le> ?n" "?n < year_start (1970 + int i + 1)"
    by (simp_all add: eq(2))
  have y: "y = 1970 + int i + 400 * (d div 146097)" using eq(3) by simp
  have ys: "year_start y = year_start (1970 + int i) + 146097 * (d div 146097)"
    "year_start (y + 1) = year_start (1970 + int i + 1) + 146097 * (d div 146097)"
    using year_start_400 [of "1970 + int i" "d div 146097"] year_start_400 [of "1970 + int i + 1" "d div 146097"]
    by (simp_all add: y add.assoc add.commute [of 1])
  have d: "d = ?n + 146097 * (d div 146097)" by (rule mod_mult_div_eq [symmetric])
  show "i < 400" "n = d mod 146097" "y = 1970 + int i + 400 * (d div 146097)" by (fact s(1), fact eq(1), fact y)
  show "year_start y \<le> d" "d < year_start (y + 1)" using s ys d by linarith+
  show "n - CUMULATIVE_YEAR_DAYS ! i = d - year_start y"
  proof -
    have "CUMULATIVE_YEAR_DAYS ! i = year_start (1970 + int i)"
      by (rule CUMULATIVE_YEAR_DAYS_nth) (use s(1) in linarith)
    then show ?thesis using ys(1) d eq(1) by linarith
  qed
qed

section \<open>Conversion\<close>

lemma month_lookup:
  assumes "0 \<le> k"
  shows "k < 365 \<Longrightarrow> in_month CUMULATIVE_DAYS (MONTH_PER_DAY_OF_YEAR ! nat k) k"
    and "k < 366 \<Longrightarrow> in_month CUMULATIVE_LEAP_DAYS (LEAP_MONTH_PER_DAY_OF_YEAR ! nat k) k"
proof -
  have nth: "[0..364] ! nat k = k" if "k < 365" using assms that by (subst nth_upto) simp_all
  have nth': "[0..365] ! nat k = k" if "k < 366" using assms that by (subst nth_upto) simp_all
  show "k < 365 \<Longrightarrow> in_month CUMULATIVE_DAYS (MONTH_PER_DAY_OF_YEAR ! nat k) k"
    using list_all2_nthD [OF month_table, of "nat k"] nth assms by (simp del: upto_rec_numeral)
  show "k < 366 \<Longrightarrow> in_month CUMULATIVE_LEAP_DAYS (LEAP_MONTH_PER_DAY_OF_YEAR ! nat k) k"
    using list_all2_nthD [OF leap_month_table, of "nat k"] nth' assms by (simp del: upto_rec_numeral)
qed

lemma in_month_start:
  assumes "in_month cum m k"
    and "\<And>m. 1 \<le> m \<Longrightarrow> m \<le> 13 \<Longrightarrow> cum ! nat (m - 1) = month_start y m"
  shows "1 \<le> m" "m \<le> 12" "month_start y m \<le> k" "k < month_start y m + month_length y m"
proof -
  show m: "1 \<le> m" "m \<le> 12" using assms(1) by (simp_all add: in_month_def)
  then show "month_start y m \<le> k" "k < month_start y m + month_length y m"
    using assms(1) assms(2) [of m] assms(2) [of "m + 1"] month_start_next [of m y]
    by (simp_all add: in_month_def)
qed

lemma Convert_day_number:
  assumes "Convert d = (y, m, dd)"
  shows "calendar_date y m dd" "day_number y m dd = d"
proof -
  obtain n y' i where e: "ExtractYearOffset d = (n, y', i)" by (metis prod_cases3)
  note s = ExtractYearOffset_spec [OF e]
  have len: "CUMULATIVE_YEAR_DAYS ! (i + 1) - CUMULATIVE_YEAR_DAYS ! i = year_length y'"
  proof -
    have "CUMULATIVE_YEAR_DAYS ! (i + 1) - CUMULATIVE_YEAR_DAYS ! i = year_length (1970 + int i)"
      using s(1) year_start_next [of "1970 + int i"] by (simp add: CUMULATIVE_YEAR_DAYS_nth add.assoc add.commute [of 1])
    also have "\<dots> = year_length y'" by (simp add: s(3) year_length_def leap_400)
    finally show ?thesis .
  qed
  define k where "k = d - year_start y'"
  have k: "0 \<le> k" "k < year_length y'" using s(4,5) year_start_next [of y'] by (simp_all add: k_def)
  have conv: "Convert d = (if year_length y' = 366
      then (y', LEAP_MONTH_PER_DAY_OF_YEAR ! nat k,
            k - CUMULATIVE_LEAP_DAYS ! nat (LEAP_MONTH_PER_DAY_OF_YEAR ! nat k - 1) + 1)
      else (y', MONTH_PER_DAY_OF_YEAR ! nat k, k - CUMULATIVE_DAYS ! nat (MONTH_PER_DAY_OF_YEAR ! nat k - 1) + 1))"
    by (simp only: Convert_def e Let_def prod.case len s(6) k_def)
  have "y = y' \<and> month_start y' m + dd - 1 = k \<and> calendar_date y' m dd"
  proof (cases "leap y'")
    case True
    then have "m = LEAP_MONTH_PER_DAY_OF_YEAR ! nat k" "dd = k - CUMULATIVE_LEAP_DAYS ! nat (m - 1) + 1" "y = y'"
      using assms by (auto simp: conv year_length_def)
    moreover from this True k have "in_month CUMULATIVE_LEAP_DAYS m k"
      using month_lookup(2) by (simp add: year_length_def)
    note in_month_start [OF this month_start_table(1) [OF _ _ True]]
    ultimately show ?thesis using month_start_table(1) [OF _ _ True, of m] by (simp add: calendar_date_def)
  next
    case False
    then have "m = MONTH_PER_DAY_OF_YEAR ! nat k" "dd = k - CUMULATIVE_DAYS ! nat (m - 1) + 1" "y = y'"
      using assms by (auto simp: conv year_length_def)
    moreover from this False k have "in_month CUMULATIVE_DAYS m k"
      using month_lookup(1) by (simp add: year_length_def)
    note in_month_start [OF this month_start_table(2) [OF _ _ False]]
    ultimately show ?thesis using month_start_table(2) [OF _ _ False, of m] by (simp add: calendar_date_def)
  qed
  then show "calendar_date y m dd" "day_number y m dd = d" by (auto simp: day_number_def k_def)
qed

section \<open>The order of dates\<close>

lemma month_start_mono: "m < m' \<Longrightarrow> 1 \<le> m \<Longrightarrow> month_start y m + month_length y m \<le> month_start y m'"
proof (induction m' rule: int_gr_induct [where k = m])
  case base
  then show ?case by (simp add: month_start_next)
next
  case (step i)
  have "0 < month_length y i" by (simp add: month_length_def)
  with step show ?case using month_start_next [of i y] by simp
qed

lemma month_start_13: "month_start y 13 = year_length y"
  using month_start_table [of 13 y] by (cases "leap y") (simp_all add: CUMULATIVE_LEAP_DAYS_def CUMULATIVE_DAYS_def year_length_def)

lemma day_in_year:
  assumes "calendar_date y m d"
  shows "0 \<le> month_start y m + d - 1" "month_start y m + d - 1 < year_length y"
proof -
  have "0 \<le> month_start y m" unfolding month_start_def by (rule sum_nonneg) (simp add: month_length_def)
  then show "0 \<le> month_start y m + d - 1" using assms by (simp add: calendar_date_def)
  have "month_start y m + month_length y m \<le> month_start y 13"
    using assms by (intro month_start_mono) (auto simp: calendar_date_def)
  then show "month_start y m + d - 1 < year_length y"
    using assms by (simp add: calendar_date_def month_start_13)
qed

lemma day_number_less:
  assumes "calendar_date y m d" "calendar_date y' m' d'"
    and "y < y' \<or> y = y' \<and> (m < m' \<or> m = m' \<and> d < d')"
  shows "day_number y m d < day_number y' m' d'"
proof -
  consider "y < y'" | "y = y'" "m < m'" | "y = y'" "m = m'" "d < d'" using assms(3) by blast
  then show ?thesis
  proof cases
    case 1
    then show ?thesis
      using year_start_mono [OF 1] day_in_year [OF assms(1)] day_in_year [OF assms(2)] by (simp add: day_number_def)
  next
    case 2
    then show ?thesis
      using month_start_mono [of m m' y] assms(1,2) by (simp add: day_number_def calendar_date_def)
  next
    case 3
    then show ?thesis by (simp add: day_number_def)
  qed
qed

lemma day_number_less_iff:
  assumes "calendar_date y m d" "calendar_date y' m' d'"
  shows "day_number y m d < day_number y' m' d' \<longleftrightarrow> y < y' \<or> y = y' \<and> (m < m' \<or> m = m' \<and> d < d')"
proof -
  consider "y < y' \<or> y = y' \<and> (m < m' \<or> m = m' \<and> d < d')"
    | "y' < y \<or> y' = y \<and> (m' < m \<or> m' = m \<and> d' < d)" | "y = y' \<and> m = m' \<and> d = d'" by linarith
  then show ?thesis
    using day_number_less [OF assms] day_number_less [OF assms(2,1)] by cases (blast, fastforce, simp)
qed

lemma day_number_inj:
  assumes "calendar_date y m d" "calendar_date y' m' d'" "day_number y m d = day_number y' m' d'"
  shows "y = y' \<and> m = m' \<and> d = d'"
  using day_number_less_iff [OF assms(1,2)] day_number_less_iff [OF assms(2,1)] assms(3) by auto

lemma Convert_inverse:
  assumes "calendar_date y m d"
  shows "Convert (day_number y m d) = (y, m, d)"
proof -
  obtain y' m' d' where c: "Convert (day_number y m d) = (y', m', d')" by (metis prod_cases3)
  with day_number_inj [OF assms Convert_day_number(1) [OF c]] Convert_day_number(2) [OF c]
  show ?thesis by simp
qed

section \<open>Valid dates\<close>

lemma date_bounds:
  "day_number DATE_MIN_YEAR DATE_MIN_MONTH DATE_MIN_DAY = - 2147483646"
  "day_number DATE_MAX_YEAR DATE_MAX_MONTH DATE_MAX_DAY = 2147483646"
  "calendar_date DATE_MIN_YEAR DATE_MIN_MONTH DATE_MIN_DAY"
  "calendar_date DATE_MAX_YEAR DATE_MAX_MONTH DATE_MAX_DAY"
proof -
  have "\<not> leap (- 5877641)" "leap 5881580" by (simp_all add: leap_def)
  then show "day_number DATE_MIN_YEAR DATE_MIN_MONTH DATE_MIN_DAY = - 2147483646"
    "day_number DATE_MAX_YEAR DATE_MAX_MONTH DATE_MAX_DAY = 2147483646"
    "calendar_date DATE_MIN_YEAR DATE_MIN_MONTH DATE_MIN_DAY"
    "calendar_date DATE_MAX_YEAR DATE_MAX_MONTH DATE_MAX_DAY"
    using month_start_table(2) [of 6 "- 5877641"] month_start_table(1) [of 7 5881580]
    by (simp_all add: day_number_def year_start_def date_consts CUMULATIVE_DAYS_def CUMULATIVE_LEAP_DAYS_def
        calendar_date_def month_length_def)
qed

lemma IsValid_eq:
  "IsValid y m d \<longleftrightarrow> calendar_date y m d \<and> - 2147483646 \<le> day_number y m d \<and> day_number y m d \<le> 2147483646"
proof (cases "calendar_date y m d")
  case False
  then show ?thesis
    using month_days_table [of m y] by (auto simp: IsValid_def calendar_date_def IsLeapYear_leap)
next
  case True
  have valid: "IsValid y m d \<longleftrightarrow>
      \<not> (y < DATE_MIN_YEAR \<or> y = DATE_MIN_YEAR \<and> (m < DATE_MIN_MONTH \<or> m = DATE_MIN_MONTH \<and> d < DATE_MIN_DAY)) \<and>
      \<not> (DATE_MAX_YEAR < y \<or> DATE_MAX_YEAR = y \<and> (DATE_MAX_MONTH < m \<or> DATE_MAX_MONTH = m \<and> DATE_MAX_DAY < d))"
    using True month_days_table [of m y] by (auto simp: IsValid_def calendar_date_def IsLeapYear_leap)
  note lo = day_number_less_iff [OF True date_bounds(3), unfolded date_bounds(1), symmetric]
    and hi = day_number_less_iff [OF date_bounds(4) True, unfolded date_bounds(2), symmetric]
  show ?thesis unfolding valid lo hi using True by (simp add: not_less)
qed

lemma TryFromDate_eq:
  "TryFromDate y m d = (if IsValid y m d then Some (day_number y m d) else None)"
proof (cases "IsValid y m d")
  case False
  then show ?thesis by (simp add: TryFromDate_def)
next
  case True
  then have "calendar_date y m d" by (simp add: IsValid_eq)
  then have start: "(if IsLeapYear y then CUMULATIVE_LEAP_DAYS ! nat (m - 1) else CUMULATIVE_DAYS ! nat (m - 1)) = month_start y m"
    using month_start_table [of m y] by (auto simp: calendar_date_def IsLeapYear_leap)
  have table: "CUMULATIVE_YEAR_DAYS ! nat i = year_start (1970 + i)" if "0 \<le> i" "i \<le> 400" for i
    using that by (simp add: CUMULATIVE_YEAR_DAYS_nth)
  consider "y < 1970" | "2370 \<le> y" | "1970 \<le> y" "y < 2370" by linarith
  then show ?thesis
  proof cases
    case 1
    define f r where "f = (1970 - y) div 400" and "r = (1970 - y) mod 400"
    have r: "0 \<le> r" "r < 400" by (simp_all add: r_def)
    have y: "y = 1970 + (400 - r) + 400 * (- (f + 1))"
    proof -
      have "400 * f + r = 1970 - y" unfolding f_def r_def by (rule mult_div_mod_eq)
      then show ?thesis by simp
    qed
    have "year_start y = year_start (1970 + (400 - r)) - 146097 * (f + 1)"
      using year_start_400 [of "1970 + (400 - r)" "- (f + 1)"] y by simp
    moreover have "CUMULATIVE_YEAR_DAYS ! nat (400 - r) = year_start (1970 + (400 - r))"
      by (rule table) (use r in simp_all)
    ultimately show ?thesis
      using True 1 by (simp add: TryFromDate_def Let_def start f_def [symmetric] r_def [symmetric] day_number_def date_consts)
  next
    case 2
    define f r where "f = (y - 2370) div 400" and "r = (y - 2370) mod 400"
    have r: "0 \<le> r" "r < 400" by (simp_all add: r_def)
    have y: "y = 1970 + r + 400 * (f + 1)"
    proof -
      have "400 * f + r = y - 2370" unfolding f_def r_def by (rule mult_div_mod_eq)
      then show ?thesis by simp
    qed
    have "year_start y = year_start (1970 + r) + 146097 * (f + 1)"
      using year_start_400 [of "1970 + r" "f + 1"] y by simp
    moreover have "CUMULATIVE_YEAR_DAYS ! nat r = year_start (1970 + r)"
      by (rule table) (use r in simp_all)
    ultimately show ?thesis
      using True 2 by (simp add: TryFromDate_def Let_def start f_def [symmetric] r_def [symmetric] day_number_def date_consts)
  next
    case 3
    then have "CUMULATIVE_YEAR_DAYS ! nat (y - 1970) = year_start y" using table [of "y - 1970"] by simp
    then show ?thesis
      using True 3 by (simp add: TryFromDate_def Let_def start day_number_def)
  qed
qed

section \<open>Weeks\<close>

lemma ExtractISODayOfTheWeek_eq: "ExtractISODayOfTheWeek d = (d + 3) mod 7 + 1"
proof (cases "d < 0")
  case True
  have "(d + 3) mod 7 = 6 - (- d + 3) mod 7"
  proof (rule int_mod_pos_eq)
    show "d + 3 = 7 * (- ((- d + 3) div 7)) + (6 - (- d + 3) mod 7)"
      using mult_div_mod_eq [of 7 "- d + 3"] by linarith
    show "0 \<le> 6 - (- d + 3) mod 7" "6 - (- d + 3) mod 7 < 7"
      using pos_mod_bound [of 7 "- d + 3"] pos_mod_sign [of 7 "- d + 3"] by linarith+
  qed
  with True show ?thesis by (simp add: ExtractISODayOfTheWeek_def)
qed (simp add: ExtractISODayOfTheWeek_def)

lemma PythonDivMod_eq: "0 < y \<Longrightarrow> PythonDivMod x y = (x div y, x mod y)"
proof -
  assume y: "0 < y"
  show ?thesis
  proof (cases "0 \<le> x")
    case True
    then have "x sdiv y = x div y" using y by (cases "x = 0") (simp_all add: signed_divide_int_def)
    moreover have "x - x div y * y = x mod y" by (rule minus_div_mult_eq_mod)
    moreover have "\<not> x mod y < 0" using y by (simp add: not_less)
    ultimately show ?thesis unfolding PythonDivMod_def Let_def by (simp only: prod.case if_False)
  next
    case False
    then have q: "x sdiv y = - ((- x) div y)" using y by (simp add: signed_divide_int_def sgn_if)
    have r: "x - x sdiv y * y = - ((- x) mod y)"
    proof -
      have "(- x) div y * y + (- x) mod y = - x" by (rule div_mult_mod_eq)
      then show ?thesis unfolding q mult_minus_left by linarith
    qed
    have m: "0 \<le> (- x) mod y" "(- x) mod y < y" using y by simp_all
    show ?thesis
    proof (cases "(- x) mod y = 0")
      case True
      then have x: "x = y * (x sdiv y) + 0" using r by (simp only: algebra_simps)
      have "x div y = x sdiv y" by (rule int_div_pos_eq [OF x]) (use y in simp_all)
      moreover have "x mod y = 0" by (rule int_mod_pos_eq [OF x]) (use y in simp_all)
      ultimately show ?thesis using r True unfolding PythonDivMod_def Let_def by simp
    next
      case nz: False
      define k where "k = (- x) mod y"
      have x: "x = y * (x sdiv y - 1) + (y - k)" using r unfolding k_def by (simp only: algebra_simps)
      have k: "0 < k" "k < y" using m nz unfolding k_def by simp_all
      have "x div y = x sdiv y - 1" by (rule int_div_pos_eq [OF x]) (use k in simp_all)
      moreover have "x mod y = y - k" by (rule int_mod_pos_eq [OF x]) (use k in simp_all)
      ultimately show ?thesis using r k unfolding PythonDivMod_def Let_def k_def [symmetric] by simp
    qed
  qed
qed

text \<open>The Monday of a day's week, and the first Monday of an ISO year: that of the week of January 4th.\<close>

definition monday_of :: "int \<Rightarrow> int" where
  "monday_of d = d - (d + 3) mod 7"

definition iso_start :: "int \<Rightarrow> int" where
  "iso_start y = monday_of (year_start y + 3)"

lemma GetMondayOfCurrentWeek_eq: "GetMondayOfCurrentWeek d = monday_of d"
  by (simp add: GetMondayOfCurrentWeek_def ExtractISODayOfTheWeek_eq monday_of_def)

lemma monday_mod: "(monday_of d + 3) mod 7 = 0" "monday_of d \<le> d" "d < monday_of d + 7"
proof -
  have "monday_of d + 3 = 7 * ((d + 3) div 7)"
  proof -
    have "7 * ((d + 3) div 7) + (d + 3) mod 7 = d + 3" by (rule mult_div_mod_eq)
    then show ?thesis unfolding monday_of_def by linarith
  qed
  then show "(monday_of d + 3) mod 7 = 0" by simp
  show "monday_of d \<le> d" "d < monday_of d + 7"
    using pos_mod_bound [of 7 "d + 3"] pos_mod_sign [of 7 "d + 3"] by (simp_all add: monday_of_def)
qed

lemma monday_form: "\<exists>k. monday_of d = 7 * k - 3"
proof -
  have "monday_of d + 3 = 7 * ((monday_of d + 3) div 7)"
    using mult_div_mod_eq [of 7 "monday_of d + 3"] monday_mod(1) [of d] by simp
  then show ?thesis by (metis add_diff_cancel_right')
qed

text \<open>A day is in an ISO year from its first week on exactly when the Thursday of its week is in the year.\<close>

lemma iso_start_le: "iso_start y \<le> d \<longleftrightarrow> year_start y \<le> monday_of d + 3"
proof -
  obtain k where k: "monday_of d = 7 * k - 3" using monday_form by blast
  obtain j where j: "iso_start y = 7 * j - 3" using monday_form unfolding iso_start_def by blast
  have i: "iso_start y \<le> year_start y + 3" "year_start y + 3 < iso_start y + 7"
    unfolding iso_start_def by (rule monday_mod)+
  have d: "monday_of d \<le> d" "d < monday_of d + 7" by (rule monday_mod)+
  show ?thesis using i d unfolding k j by presburger
qed

lemma GetISOWeekOne_eq:
  assumes "DATE_MIN_YEAR < y" "y \<le> DATE_MAX_YEAR"
  shows "GetISOWeekOne y = Inr (iso_start y)"
proof -
  have cal: "calendar_date y 1 1" by (simp add: calendar_date_def month_length_def)
  have "IsValid y 1 1" using assms month_days_table [of 1 y]
    by (simp add: IsValid_def date_consts LEAP_DAYS_def NORMAL_DAYS_def)
  moreover have "day_number y 1 1 = year_start y" by (simp add: day_number_def month_start_def)
  ultimately have from_date: "FromDate y 1 1 = Inr (year_start y)" by (simp add: FromDate_def TryFromDate_eq)
  let ?s = "year_start y" and ?w = "(year_start y + 3) mod 7"
  have "(if ?w > 3 then ?s - ?w + 7 else ?s - ?w) = iso_start y"
  proof -
    have w: "0 \<le> ?w" "?w < 7" by simp_all
    have "7 * ((?s + 3) div 7) + ?w = ?s + 3" by (rule mult_div_mod_eq)
    then obtain q where q: "7 * q + ?w = ?s + 3" by blast
    have "(?s + 3 + 3) mod 7 = (if ?w > 3 then ?w + 3 - 7 else ?w + 3)"
    proof (cases "?w > 3")
      case True
      have "(?s + 3 + 3) mod 7 = ?w + 3 - 7"
        by (rule int_mod_pos_eq [of _ _ "q + 1"]) (use q w True in simp_all)
      with True show ?thesis by simp
    next
      case False
      have "(?s + 3 + 3) mod 7 = ?w + 3"
        by (rule int_mod_pos_eq [of _ _ q]) (use q w False in simp_all)
      with False show ?thesis by simp
    qed
    then show ?thesis by (simp add: iso_start_def monday_of_def)
  qed
  then show ?thesis by (simp add: GetISOWeekOne_def from_date ExtractISODayOfTheWeek_eq Let_def)
qed

lemma iso_start_next: "iso_start y + 364 \<le> iso_start (y + 1)"
proof -
  obtain k where k: "iso_start (y + 1) = 7 * k - 3" using monday_form unfolding iso_start_def by blast
  obtain j where j: "iso_start y = 7 * j - 3" using monday_form unfolding iso_start_def by blast
  have i: "iso_start y \<le> year_start y + 3" "year_start (y + 1) + 3 < iso_start (y + 1) + 7"
    unfolding iso_start_def by (rule monday_mod)+
  have "year_start y + 365 \<le> year_start (y + 1)" using year_start_next [of y] year_length_pos [of y] by simp
  with i show ?thesis unfolding k j by presburger
qed

lemma Convert_year:
  assumes "Convert d = (y, m, dd)" shows "year_start y \<le> d" "d < year_start (y + 1)"
  using Convert_day_number [OF assms] day_in_year [of y m dd] year_start_next [of y]
  by (simp_all add: day_number_def)

text \<open>The week and the year by the rule of ISO 8601.\<close>

definition iso_week_ok :: "int \<Rightarrow> int \<Rightarrow> int \<Rightarrow> bool" where
  "iso_week_ok d week year \<longleftrightarrow>
     (let thursday = monday_of d + 3 in
      year_start year \<le> thursday \<and> thursday < year_start (year + 1) \<and>
      week = (thursday - year_start year) div 7 + 1)"

lemma iso_week_okI:
  assumes "iso_start y \<le> d" "d < iso_start (y + 1)"
  shows "iso_week_ok d ((d - iso_start y) div 7 + 1) y"
proof -
  obtain k where k: "monday_of d = 7 * k - 3" using monday_form by blast
  obtain j where j: "iso_start y = 7 * j - 3" using monday_form unfolding iso_start_def by blast
  have t: "year_start y \<le> monday_of d + 3" "monday_of d + 3 < year_start (y + 1)"
    using assms iso_start_le [of y d] iso_start_le [of "y + 1" d] by auto
  have i: "iso_start y \<le> year_start y + 3" "year_start y + 3 < iso_start y + 7"
    unfolding iso_start_def by (rule monday_mod)+
  have d: "monday_of d \<le> d" "d < monday_of d + 7" by (rule monday_mod)+
  have "(d - iso_start y) div 7 = k - j"
    by (rule int_div_pos_eq [of _ _ _ "d - monday_of d"]) (use d k j in simp_all)
  moreover have "(monday_of d + 3 - year_start y) div 7 = k - j"
    by (rule int_div_pos_eq [of _ _ _ "iso_start y + 3 - year_start y"])
       (use t i k j in \<open>simp_all\<close>)
  ultimately show ?thesis using t by (simp add: iso_week_ok_def)
qed

section \<open>Properties of the calendar\<close>

text \<open>
  Every number of days converts to the calendar date of that day: a month from 1 to 12, a day
  within the month's length (leap years by the Gregorian rule), whose number of days since 1970-01-01
  by the closed form is the one converted. The two normalizing loops and the search terminate.
\<close>

theorem Convert_calendar:
  "case Convert d of (y, m, dd) \<Rightarrow> calendar_date y m dd \<and> day_number y m dd = d"
  using Convert_day_number [of d] by (cases "Convert d") auto

text \<open>
  A year, month and day convert to a date exactly when they are a calendar date whose day number
  is at most 2147483646 in absolute value, and then to that number: the bounds the code spells out as
  the smallest and largest date are those of a 32 bit day count without the two infinities.
\<close>

theorem TryFromDate_iff:
  "TryFromDate y m d = Some n \<longleftrightarrow>
     calendar_date y m d \<and> n = day_number y m d \<and> \<bar>n\<bar> \<le> 2147483646"
  by (auto simp: TryFromDate_eq IsValid_eq)

text \<open>
  C8. The two conversions are inverse to each other on all finite dates: in one direction for every
  day count between the infinities, in the other for every year, month and day that is accepted.
\<close>

theorem date_roundtrip:
  assumes "date_ninfinity < d" "d < date_infinity"
  shows "(case Convert d of (y, m, dd) \<Rightarrow> TryFromDate y m dd = Some d) \<and>
    (TryFromDate y m dd = Some n \<longrightarrow> Convert n = (y, m, dd))"
proof -
  obtain y' m' d' where c: "Convert d = (y', m', d')" by (metis prod_cases3)
  have "TryFromDate y' m' d' = Some d"
    using Convert_day_number [OF c] assms by (simp add: TryFromDate_eq IsValid_eq date_infinity_def date_ninfinity_def)
  moreover have "Convert n = (y, m, dd)" if "TryFromDate y m dd = Some n"
    using that Convert_inverse [of y m dd] by (auto simp: TryFromDate_eq IsValid_eq split: if_splits)
  ultimately show ?thesis by (simp add: c)
qed

theorem date_roundtrip_witness:
  "Convert 11016 = (2000, 2, 29) \<and> TryFromDate 2000 2 29 = Some 11016"
proof -
  have "(calendar_date 2000 2 29 \<and> day_number 2000 2 29 = 11016)"
    using month_start_next [of 1 2000]
    by (simp add: calendar_date_def month_length_def leap_def day_number_def year_start_def month_start_def)
  then have "TryFromDate 2000 2 29 = Some 11016" by (simp add: TryFromDate_eq IsValid_eq)
  then show ?thesis
    using date_roundtrip [of 0 2000 2 29 11016] by (simp add: date_infinity_def date_ninfinity_def)
qed

text \<open>
  The ISO week and year follow ISO 8601: the year is the one that contains the Thursday of the
  day's week (weeks run from Monday), the week is the number of that Thursday among the year's; for
  every day whose calendar year is inside the supported range, no matter on which side of New Year the
  week falls. The weekday itself is the closed form for negative day counts too.
\<close>

theorem iso_week_correct:
  assumes "DATE_MIN_YEAR + 1 < ExtractYear d" "ExtractYear d < DATE_MAX_YEAR"
  shows "ExtractISODayOfTheWeek d = (d + 3) mod 7 + 1 \<and>
    (\<exists>week year. GetISOYearWeek d = Inr (week, year) \<and> iso_week_ok d week year)"
proof -
  obtain y m dd where c: "Convert d = (y, m, dd)" by (metis prod_cases3)
  have y: "ExtractYear d = y"
    using c by (auto simp: ExtractYear_def Convert_def Let_def split: prod.splits if_splits)
  have range: "DATE_MIN_YEAR + 1 < y" "y < DATE_MAX_YEAR" using assms by (simp_all add: y)
  have w: "GetISOWeekOne y = Inr (iso_start y)" "GetISOWeekOne (y - 1) = Inr (iso_start (y - 1))"
    "GetISOWeekOne (y + 1) = Inr (iso_start (y + 1))"
    using range by (simp_all add: GetISOWeekOne_eq)
  note bounds = Convert_year [OF c]
  have start: "iso_start (y - 1) \<le> d"
  proof -
    have "iso_start (y - 1) \<le> year_start (y - 1) + 3" unfolding iso_start_def by (rule monday_mod)
    moreover have "year_start y = year_start (y - 1) + year_length (y - 1)" using year_start_next [of "y - 1"] by simp
    ultimately show ?thesis using bounds(1) year_length_pos(1) [of "y - 1"] by simp
  qed
  have run: "GetISOYearWeek d =
      (if (d - iso_start y) div 7 < 0 then Inr ((d - iso_start (y - 1)) div 7 + 1, y - 1)
       else if (d - iso_start y) div 7 \<ge> 52 \<and> d \<ge> iso_start (y + 1) then Inr (1, y + 1)
       else Inr ((d - iso_start y) div 7 + 1, y))"
    by (simp add: GetISOYearWeek_def c w PythonDivMod_eq Let_def)
  consider "d < iso_start y" | "iso_start y \<le> d" "d < iso_start (y + 1)" | "iso_start (y + 1) \<le> d" by linarith
  then have "\<exists>week year. GetISOYearWeek d = Inr (week, year) \<and> iso_week_ok d week year"
  proof cases
    case 1
    then have "(d - iso_start y) div 7 < 0" by (simp add: neg_imp_zdiv_neg_iff)
    then show ?thesis using run iso_week_okI [of "y - 1" d] start 1 by simp
  next
    case 2
    then have "\<not> (d - iso_start y) div 7 < 0" by (simp add: neg_imp_zdiv_neg_iff)
    then show ?thesis using run iso_week_okI [of y d] 2 by simp
  next
    case 3
    then have "52 \<le> (d - iso_start y) div 7" using iso_start_next [of y]
      by (intro zdiv_mono1 [of 364 _ 7, simplified]) simp
    moreover have "d < iso_start (y + 1) + 7"
    proof -
      have "year_start (y + 1) + 3 < iso_start (y + 1) + 7" unfolding iso_start_def by (rule monday_mod)
      then show ?thesis using bounds(2) by simp
    qed
    moreover from this 3 have "(d - iso_start (y + 1)) div 7 = 0" by (intro div_pos_pos_trivial) simp_all
    moreover have "d < iso_start (y + 1 + 1)" using calculation(2) iso_start_next [of "y + 1"] by simp
    ultimately show ?thesis using run iso_week_okI [of "y + 1" d] 3 by simp
  qed
  then show ?thesis by (simp add: ExtractISODayOfTheWeek_eq)
qed

theorem iso_week_correct_witness:
  "\<exists>week year. GetISOYearWeek 0 = Inr (week, year) \<and> iso_week_ok 0 week year"
proof -
  have "Convert 0 = (1970, 1, 1)"
    using Convert_inverse [of 1970 1 1] by (simp add: calendar_date_def month_length_def day_number_def month_start_def)
  then have "ExtractYear 0 = 1970"
    by (auto simp: ExtractYear_def Convert_def Let_def split: prod.splits if_splits)
  then show ?thesis using iso_week_correct [of 0] by (simp add: date_consts)
qed

text \<open>
  In the smallest year the first of January is no date, and the week functions raise the range error
  for the dates of that year, which are valid.
\<close>

lemma week_of_first_year_fails:
  assumes "ExtractYear d = DATE_MIN_YEAR"
  shows "GetISOYearWeek d = Inl (ConversionException ''Date out of range: %d-%d-%d'')"
proof -
  obtain y m dd where c: "Convert d = (y, m, dd)" by (metis prod_cases3)
  have "y = DATE_MIN_YEAR"
    using c assms by (auto simp: ExtractYear_def Convert_def Let_def split: prod.splits if_splits)
  moreover have "\<not> IsValid DATE_MIN_YEAR 1 1" by (simp add: IsValid_def date_consts)
  ultimately show ?thesis
    by (simp add: GetISOYearWeek_def c GetISOWeekOne_def FromDate_def TryFromDate_eq)
qed

end
