(* ===== verification/Temporal.thy ===== *)
theory Temporal
  imports Date
begin

unbundle bit_operations_syntax

text \<open>
  Times, timestamps and intervals: \<open>common/types/time.cpp\<close>, \<open>timestamp.cpp\<close> and \<open>interval.cpp\<close> with
  \<open>datetime.hpp\<close>, \<open>timestamp.hpp\<close> and \<open>interval.hpp\<close>, without the text forms. The 32 and 64 bit values
  are integers, the checked operators give nothing on overflow, the unchecked narrowing casts keep the
  low bits. A time with a time zone is the code's packed 64 bit word.
\<close>

section \<open>Constants\<close>

definition MONTHS_PER_YEAR :: int where "MONTHS_PER_YEAR = 12"
definition DAYS_PER_MONTH :: int where "DAYS_PER_MONTH = 30"
definition SECS_PER_MINUTE :: int where "SECS_PER_MINUTE = 60"
definition MINS_PER_HOUR :: int where "MINS_PER_HOUR = 60"
definition HOURS_PER_DAY :: int where "HOURS_PER_DAY = 24"
definition MICROS_PER_MINUTE :: int where "MICROS_PER_MINUTE = MICROS_PER_SEC * SECS_PER_MINUTE"
definition MICROS_PER_HOUR :: int where "MICROS_PER_HOUR = MICROS_PER_MINUTE * MINS_PER_HOUR"
definition MICROS_PER_MONTH :: int where "MICROS_PER_MONTH = MICROS_PER_DAY * DAYS_PER_MONTH"
definition NANOS_PER_MICRO :: int where "NANOS_PER_MICRO = 1000"
definition NANOS_PER_MSEC :: int where "NANOS_PER_MSEC = NANOS_PER_MICRO * MICROS_PER_MSEC"
definition NANOS_PER_SEC :: int where "NANOS_PER_SEC = NANOS_PER_MSEC * 1000"
definition NANOS_PER_DAY :: int where "NANOS_PER_DAY = NANOS_PER_SEC * 60 * 60 * 24"

lemmas temporal_consts = MONTHS_PER_YEAR_def DAYS_PER_MONTH_def SECS_PER_MINUTE_def MINS_PER_HOUR_def
  HOURS_PER_DAY_def MICROS_PER_MINUTE_def MICROS_PER_HOUR_def MICROS_PER_MONTH_def NANOS_PER_MICRO_def
  NANOS_PER_MSEC_def NANOS_PER_SEC_def NANOS_PER_DAY_def SECS_PER_DAY_def MICROS_PER_MSEC_def
  MICROS_PER_SEC_def MICROS_PER_DAY_def

text \<open>The narrowing cast to \<open>int32_t\<close> and the checked 32 bit addition.\<close>

definition cast_int32 :: "int \<Rightarrow> int" where
  "cast_int32 x = signed_take_bit 31 x"

definition TryAdd_int32 :: "int \<Rightarrow> int \<Rightarrow> int option" where
  "TryAdd_int32 a b = (if - (2 ^ 31) \<le> a + b \<and> a + b < 2 ^ 31 then Some (a + b) else None)"

section \<open>Times of day\<close>

type_synonym dtime_t = int

definition FromTime :: "int \<Rightarrow> int \<Rightarrow> int \<Rightarrow> int \<Rightarrow> dtime_t" where
  "FromTime hour minute second microseconds =
     ((hour * MINS_PER_HOUR + minute) * SECS_PER_MINUTE + second) * MICROS_PER_SEC + microseconds"

definition ToNanoTime :: "int \<Rightarrow> int \<Rightarrow> int \<Rightarrow> int \<Rightarrow> int" where
  "ToNanoTime hour minute second nanoseconds =
     ((hour * MINS_PER_HOUR + minute) * SECS_PER_MINUTE + second) * NANOS_PER_SEC + nanoseconds"

definition IsValidTime :: "int \<Rightarrow> int \<Rightarrow> int \<Rightarrow> int \<Rightarrow> bool" where
  "IsValidTime hour minute second microseconds =
     (if hour < 0 \<or> hour \<ge> 24 then hour = 24 \<and> minute = 0 \<and> second = 0 \<and> microseconds = 0
      else if minute < 0 \<or> minute \<ge> 60 then False
      else if second < 0 \<or> second > 60 then False
      else if microseconds < 0 \<or> microseconds > 1000000 then False
      else True)"

definition Time_Convert :: "dtime_t \<Rightarrow> int \<times> int \<times> int \<times> int" where
  "Time_Convert t0 =
     (let hour = cast_int32 (t0 sdiv MICROS_PER_HOUR);
          t1 = t0 - hour * MICROS_PER_HOUR;
          minute = cast_int32 (t1 sdiv MICROS_PER_MINUTE);
          t2 = t1 - minute * MICROS_PER_MINUTE;
          second = cast_int32 (t2 sdiv MICROS_PER_SEC);
          t3 = t2 - second * MICROS_PER_SEC
      in (hour, minute, second, cast_int32 t3))"

definition FromTimeMs :: "int \<Rightarrow> dtime_t result" where
  "FromTimeMs time_ms =
     (case TryMultiply_int64 time_ms MICROS_PER_MSEC of
        None \<Rightarrow> Inl (ConversionException ''Could not convert Time(MS) to Time(US)'') | Some r \<Rightarrow> Inr r)"

definition FromTimeNs :: "int \<Rightarrow> dtime_t" where
  "FromTimeNs time_ns = time_ns sdiv NANOS_PER_MICRO"

section \<open>Times with a time zone\<close>

type_synonym dtime_tz_t = uint64_t

definition OFFSET_BITS :: nat where "OFFSET_BITS = 24"
definition OFFSET_MASK :: uint64_t where "OFFSET_MASK = drop_bit 40 (NOT 0)"
definition MAX_OFFSET :: int where "MAX_OFFSET = 16 * 60 * 60 - 1"
definition MIN_OFFSET :: int where "MIN_OFFSET = - MAX_OFFSET"

definition encode_offset :: "int \<Rightarrow> uint64_t" where "encode_offset off = word_of_int (MAX_OFFSET - off)"
definition decode_offset :: "uint64_t \<Rightarrow> int" where
  "decode_offset bits = MAX_OFFSET - cast_int32 (uint (bits AND OFFSET_MASK))"
definition encode_micros :: "uint64_t \<Rightarrow> uint64_t" where "encode_micros micros = push_bit OFFSET_BITS micros"
definition decode_micros :: "uint64_t \<Rightarrow> int" where "decode_micros bits = sint (drop_bit OFFSET_BITS bits)"

definition dtime_tz :: "dtime_t \<Rightarrow> int \<Rightarrow> dtime_tz_t" where
  "dtime_tz t off = encode_micros (word_of_int t) OR encode_offset off"

definition tz_time :: "dtime_tz_t \<Rightarrow> dtime_t" where "tz_time bits = decode_micros bits"
definition tz_offset :: "dtime_tz_t \<Rightarrow> int" where "tz_offset bits = decode_offset bits"

definition tz_sort_key :: "dtime_tz_t \<Rightarrow> uint64_t" where
  "tz_sort_key bits = bits + encode_micros ((bits AND OFFSET_MASK) * 1000000)"

definition tz_less :: "dtime_tz_t \<Rightarrow> dtime_tz_t \<Rightarrow> bool" where
  "tz_less a b \<longleftrightarrow> tz_sort_key a < tz_sort_key b"

section \<open>Timestamps\<close>

type_synonym timestamp_t = int

definition timestamp_infinity :: timestamp_t where "timestamp_infinity = 9223372036854775807"
definition timestamp_ninfinity :: timestamp_t where "timestamp_ninfinity = - 9223372036854775807"

definition Timestamp_IsFinite :: "timestamp_t \<Rightarrow> bool" where
  "Timestamp_IsFinite ts \<longleftrightarrow> ts \<noteq> timestamp_infinity \<and> ts \<noteq> timestamp_ninfinity"

definition Date_IsFinite :: "date_t \<Rightarrow> bool" where
  "Date_IsFinite d \<longleftrightarrow> d \<noteq> date_infinity \<and> d \<noteq> date_ninfinity"

definition timestamp_minus :: "timestamp_t \<Rightarrow> timestamp_t \<Rightarrow> int result" where
  "timestamp_minus a b = (case TrySubtract_int64 a b of
     None \<Rightarrow> Inl (OutOfRangeException ''Overflow in timestamp subtraction'') | Some r \<Rightarrow> Inr r)"

definition timestamp_increment :: "timestamp_t \<Rightarrow> int \<Rightarrow> timestamp_t result" where
  "timestamp_increment a delta = (case TryAdd_int64 a delta of
     None \<Rightarrow> Inl (OutOfRangeException ''Overflow in timestamp increment'') | Some r \<Rightarrow> Inr r)"

definition timestamp_decrement :: "timestamp_t \<Rightarrow> int \<Rightarrow> timestamp_t result" where
  "timestamp_decrement a delta = (case TrySubtract_int64 a delta of
     None \<Rightarrow> Inl (OutOfRangeException ''Overflow in timestamp decrement'') | Some r \<Rightarrow> Inr r)"

definition TemporalRound :: "int \<Rightarrow> int \<Rightarrow> int" where
  "TemporalRound v scale = (let negative = (if v < 0 then 1 else 0) in (v + negative) sdiv scale - negative)"

definition GetDate :: "timestamp_t \<Rightarrow> date_t" where
  "GetDate ts =
     (if ts = timestamp_infinity then date_infinity
      else if ts = timestamp_ninfinity then date_ninfinity
      else let negative = (if ts < 0 then 1 else 0)
           in cast_int32 ((ts + negative) sdiv MICROS_PER_DAY - negative))"

definition GetTime :: "timestamp_t \<Rightarrow> dtime_t result" where
  "GetTime ts =
     (if \<not> Timestamp_IsFinite ts then Inl (ConversionException ''Can't get TIME of infinite TIMESTAMP'')
      else Inr (ts - GetDate ts * MICROS_PER_DAY))"

definition TryFromDatetime :: "date_t \<Rightarrow> dtime_t \<Rightarrow> timestamp_t option" where
  "TryFromDatetime d t =
     (case TryMultiply_int64 d MICROS_PER_DAY of None \<Rightarrow> None
      | Some v \<Rightarrow>
          (case TryAdd_int64 v t of None \<Rightarrow> None
           | Some r \<Rightarrow> if Timestamp_IsFinite r then Some r else None))"

definition TryFromDatetime_tz :: "date_t \<Rightarrow> dtime_tz_t \<Rightarrow> timestamp_t option" where
  "TryFromDatetime_tz d timetz =
     (case TryFromDatetime d (tz_time timetz) of None \<Rightarrow> None
      | Some v \<Rightarrow>
          (case TryAdd_int64 v (- (tz_offset timetz * MICROS_PER_SEC)) of None \<Rightarrow> None
           | Some r \<Rightarrow> if Timestamp_IsFinite r then Some r else None))"

definition FromDatetime :: "date_t \<Rightarrow> dtime_t \<Rightarrow> timestamp_t result" where
  "FromDatetime d t = (case TryFromDatetime d t of
     None \<Rightarrow> Inl (ConversionException ''Date and time not in timestamp range'') | Some r \<Rightarrow> Inr r)"

definition Timestamp_Convert :: "timestamp_t \<Rightarrow> (date_t \<times> dtime_t) result" where
  "Timestamp_Convert ts =
     (let d = GetDate ts in
      case TryMultiply_int64 d MICROS_PER_DAY of
        None \<Rightarrow> Inl (ConversionException ''Date out of range in timestamp conversion'')
      | Some days_micros \<Rightarrow> Inr (d, ts - days_micros))"

definition Timestamp_Convert_ns :: "int \<Rightarrow> (date_t \<times> dtime_t \<times> int) result" where
  "Timestamp_Convert_ns ns =
     (let d = GetDate (TemporalRound ns NANOS_PER_MICRO) in
      case TryMultiply_int64 d NANOS_PER_DAY of
        None \<Rightarrow> Inl (ConversionException ''Date out of range in timestamp_ns conversion'')
      | Some days_nanos \<Rightarrow>
          Inr (d, (ns - days_nanos) sdiv NANOS_PER_MICRO, cast_int32 ((ns - days_nanos) smod NANOS_PER_MICRO)))"

definition TryFromTimestampNanos :: "timestamp_t \<Rightarrow> int \<Rightarrow> int option" where
  "TryFromTimestampNanos ts nanos =
     (if \<not> Timestamp_IsFinite ts then Some ts
      else case TryMultiply_int64 ts NANOS_PER_MICRO of None \<Rightarrow> None
        | Some v \<Rightarrow>
            (case TryAdd_int64 v nanos of None \<Rightarrow> None
             | Some r \<Rightarrow> if Timestamp_IsFinite r then Some r else None))"

definition GetTimeNs :: "int \<Rightarrow> int result" where
  "GetTimeNs ns =
     (if \<not> Timestamp_IsFinite ns then Inl (ConversionException ''Can't get TIME_NS of infinite TIMESTAMP'')
      else
        let d = GetDate (ns sdiv NANOS_PER_MICRO) in
        case TryMultiply_int64 d NANOS_PER_DAY of
          None \<Rightarrow> Inl (ConversionException ''Overflow extracting TIME_NS of TIMESTAMP'')
        | Some nanos \<Rightarrow> Inr (ns - nanos))"

section \<open>Epochs of a timestamp\<close>

definition FromEpochSeconds :: "int \<Rightarrow> timestamp_t result" where
  "FromEpochSeconds s = (case TryMultiply_int64 s MICROS_PER_SEC of
     None \<Rightarrow> Inl (ConversionException ''Could not convert Timestamp(S) to Timestamp(US)'') | Some r \<Rightarrow> Inr r)"

definition FromEpochMs :: "int \<Rightarrow> timestamp_t result" where
  "FromEpochMs ms = (case TryMultiply_int64 ms MICROS_PER_MSEC of
     None \<Rightarrow> Inl (ConversionException ''Could not convert Timestamp(MS) to Timestamp(US)'') | Some r \<Rightarrow> Inr r)"

definition FromEpochNanoSeconds :: "int \<Rightarrow> timestamp_t" where
  "FromEpochNanoSeconds ns = ns sdiv NANOS_PER_MICRO"

definition TimestampNsFromEpochMillis :: "int \<Rightarrow> int result" where
  "TimestampNsFromEpochMillis millis = (case TryMultiply_int64 millis NANOS_PER_MICRO of
     None \<Rightarrow> Inl (ConversionException ''Could not convert Timestamp(US) to Timestamp(NS)'') | Some r \<Rightarrow> Inr r)"

definition TimestampNsFromEpochMicros :: "int \<Rightarrow> int result" where
  "TimestampNsFromEpochMicros micros = (case TryMultiply_int64 micros NANOS_PER_MSEC of
     None \<Rightarrow> Inl (ConversionException ''Could not convert Timestamp(MS) to Timestamp(NS)'') | Some r \<Rightarrow> Inr r)"

definition GetEpochSeconds :: "timestamp_t \<Rightarrow> int" where "GetEpochSeconds ts = ts sdiv MICROS_PER_SEC"
definition GetEpochMs :: "timestamp_t \<Rightarrow> int" where "GetEpochMs ts = ts sdiv MICROS_PER_MSEC"

definition GetEpochNanoSeconds :: "timestamp_t \<Rightarrow> int result" where
  "GetEpochNanoSeconds ts = (case TryMultiply_int64 ts NANOS_PER_MICRO of
     None \<Rightarrow> Inl (ConversionException ''Could not convert Timestamp(US) to Timestamp(NS)'') | Some r \<Rightarrow> Inr r)"

definition GetEpochRounded :: "timestamp_t \<Rightarrow> int \<Rightarrow> int" where
  "GetEpochRounded ts power_of_ten =
     (let scaling = power_of_ten sdiv 2; v = ts sdiv scaling
      in (if v < 0 then v - 1 else v + 1) sdiv 2)"

record TimestampComponents =
  c_year :: int
  c_month :: int
  c_day :: int
  c_hour :: int
  c_minute :: int
  c_second :: int
  c_microsecond :: int

definition GetComponents :: "timestamp_t \<Rightarrow> TimestampComponents result" where
  "GetComponents ts =
     (case Timestamp_Convert ts of Inl e \<Rightarrow> Inl e
      | Inr (d, t) \<Rightarrow>
          let (year, month, day) = Convert d; (hour, minute, second, microsecond) = Time_Convert t
          in Inr \<lparr>c_year = year, c_month = month, c_day = day, c_hour = hour, c_minute = minute,
                  c_second = second, c_microsecond = microsecond\<rparr>)"

section \<open>Intervals\<close>

record interval_t =
  i_months :: int
  i_days :: int
  i_micros :: int

text \<open>The three 64 bit parts after carrying to the left: \<open>(months, days, micros)\<close>.\<close>

definition Normalize_parts :: "interval_t \<Rightarrow> int \<times> int \<times> int" where
  "Normalize_parts input =
     (let carry_days = i_micros input sdiv MICROS_PER_DAY;
          micros = i_micros input - carry_days * MICROS_PER_DAY;
          days0 = i_days input + carry_days;
          carry_months = days0 sdiv DAYS_PER_MONTH;
          days = days0 - carry_months * DAYS_PER_MONTH
      in (i_months input + carry_months, days, micros))"

text \<open>The 32 bit field and the lower part with the excess.\<close>

definition Borrow :: "int \<Rightarrow> int \<Rightarrow> int \<Rightarrow> int \<times> int" where
  "Borrow msf lsf scale =
     (if msf > 2147483647 then (2147483647, lsf + (msf - 2147483647) * scale)
      else if msf < - 2147483648 then (- 2147483648, lsf + (msf - (- 2147483648)) * scale)
      else (cast_int32 msf, lsf))"

definition Normalize :: "interval_t \<Rightarrow> interval_t" where
  "Normalize input =
     (let (mm, dd, micros) = Normalize_parts input;
          (months, dd') = Borrow mm dd DAYS_PER_MONTH;
          (days, micros') = Borrow dd' micros MICROS_PER_DAY
      in \<lparr>i_months = months, i_days = days, i_micros = micros'\<rparr>)"

definition interval_eq :: "interval_t \<Rightarrow> interval_t \<Rightarrow> bool" where
  "interval_eq left right \<longleftrightarrow>
     (if i_months left = i_months right \<and> i_days left = i_days right \<and> i_micros left = i_micros right then True
      else let (lmonths, ldays, lmicros) = Normalize_parts left; (rmonths, rdays, rmicros) = Normalize_parts right
           in lmonths = rmonths \<and> ldays = rdays \<and> lmicros = rmicros)"

definition interval_greater :: "interval_t \<Rightarrow> interval_t \<Rightarrow> bool" where
  "interval_greater left right \<longleftrightarrow>
     (let (lmonths, ldays, lmicros) = Normalize_parts left; (rmonths, rdays, rmicros) = Normalize_parts right
      in if lmonths > rmonths then True else if lmonths < rmonths then False
         else if ldays > rdays then True else if ldays < rdays then False
         else lmicros > rmicros)"

definition interval_less :: "interval_t \<Rightarrow> interval_t \<Rightarrow> bool" where
  "interval_less left right \<longleftrightarrow> interval_greater right left"

definition interval_less_eq :: "interval_t \<Rightarrow> interval_t \<Rightarrow> bool" where
  "interval_less_eq left right \<longleftrightarrow> \<not> interval_greater left right"

definition FromMicro :: "int \<Rightarrow> interval_t" where
  "FromMicro delta_us =
     \<lparr>i_months = 0, i_days = cast_int32 (delta_us sdiv MICROS_PER_DAY), i_micros = delta_us smod MICROS_PER_DAY\<rparr>"

definition Invert :: "interval_t \<Rightarrow> interval_t" where
  "Invert i = \<lparr>i_months = - i_months i, i_days = - i_days i, i_micros = - i_micros i\<rparr>"

definition GetMilli :: "interval_t \<Rightarrow> int result" where
  "GetMilli v =
     (let failure = Inl (ConversionException ''Could not convert Interval to Milliseconds'') in
      case TryMultiply_int64 (i_months v) (MICROS_PER_MONTH sdiv 1000) of None \<Rightarrow> failure
      | Some milli_month \<Rightarrow>
          (case TryMultiply_int64 (i_days v) (MICROS_PER_DAY sdiv 1000) of None \<Rightarrow> failure
           | Some milli_day \<Rightarrow>
               (case TryAdd_int64 (i_micros v sdiv 1000) milli_month of None \<Rightarrow> failure
                | Some milli \<Rightarrow> (case TryAdd_int64 milli milli_day of None \<Rightarrow> failure | Some r \<Rightarrow> Inr r))))"

definition TryGetMicro :: "interval_t \<Rightarrow> int option" where
  "TryGetMicro v =
     (case TryMultiply_int64 (i_months v) MICROS_PER_MONTH of None \<Rightarrow> None
      | Some micro_month \<Rightarrow>
          (case TryMultiply_int64 (i_days v) MICROS_PER_DAY of None \<Rightarrow> None
           | Some micro_day \<Rightarrow>
               (case TryAdd_int64 (i_micros v) micro_month of None \<Rightarrow> None
                | Some micro_total \<Rightarrow> TryAdd_int64 micro_total micro_day)))"

definition GetMicro :: "interval_t \<Rightarrow> int result" where
  "GetMicro v =
     (case TryMultiply_int64 (i_months v) MICROS_PER_MONTH of
        None \<Rightarrow> Inl (ConversionException ''Could not convert Month to Microseconds'')
      | Some micro_month \<Rightarrow>
          (case TryMultiply_int64 (i_days v) MICROS_PER_DAY of
             None \<Rightarrow> Inl (ConversionException ''Could not convert Day to Microseconds'')
           | Some micro_day \<Rightarrow>
               (case TryAdd_int64 (i_micros v) micro_month of
                  None \<Rightarrow> Inl (ConversionException ''Could not convert Interval to Microseconds'')
                | Some micro_total \<Rightarrow>
                    (case TryAdd_int64 micro_total micro_day of
                       None \<Rightarrow> Inl (ConversionException ''Could not convert Interval to Microseconds'')
                     | Some r \<Rightarrow> Inr r))))"

definition GetNanoseconds :: "interval_t \<Rightarrow> int result" where
  "GetNanoseconds v =
     (case GetMicro v of Inl e \<Rightarrow> Inl e
      | Inr micro_total \<Rightarrow>
          (case TryMultiply_int64 micro_total NANOS_PER_MICRO of
             None \<Rightarrow> Inl (ConversionException ''Could not convert Interval to Nanoseconds'') | Some r \<Rightarrow> Inr r))"

section \<open>Ages and differences\<close>

text \<open>
  \<open>while (field < 0) { field += unit; next--; }\<close>. The units are the positive constants and the length
  of a month; the guard on the unit makes the function total.
\<close>

function propagate :: "int \<Rightarrow> int \<Rightarrow> int \<Rightarrow> int \<times> int" where
  "propagate unit field next_field =
     (if field < 0 \<and> 0 < unit then propagate unit (field + unit) (next_field - 1) else (field, next_field))"
  by pat_completeness auto
termination
  by (relation "measure (\<lambda>(u, f, _). nat (- f))") auto

declare propagate.simps [simp del]

definition GetAge_components :: "TimestampComponents \<Rightarrow> TimestampComponents \<Rightarrow> bool \<Rightarrow> interval_t" where
  "GetAge_components ts1 ts2 is_negative =
     (let flip = (\<lambda>x :: int. if is_negative then - x else x);
          year0 = flip (c_year ts1 - c_year ts2);
          month0 = flip (c_month ts1 - c_month ts2);
          day0 = flip (c_day ts1 - c_day ts2);
          hour0 = flip (c_hour ts1 - c_hour ts2);
          min0 = flip (c_minute ts1 - c_minute ts2);
          sec0 = flip (c_second ts1 - c_second ts2);
          micros0 = flip (c_microsecond ts1 - c_microsecond ts2);
          (micros, sec1) = propagate MICROS_PER_SEC micros0 sec0;
          (sec, min1) = propagate SECS_PER_MINUTE sec1 min0;
          (minute, hour1) = propagate MINS_PER_HOUR min1 hour0;
          (hour, day1) = propagate HOURS_PER_DAY hour1 day0;
          ts = (if is_negative then ts1 else ts2);
          (day, month1) = propagate (MonthDays (c_year ts) (c_month ts)) day1 month0;
          (month, year) = propagate MONTHS_PER_YEAR month1 year0
      in \<lparr>i_months = flip year * MONTHS_PER_YEAR + flip month, i_days = flip day,
          i_micros = FromTime (flip hour) (flip minute) (flip sec) (flip micros)\<rparr>)"

definition GetAge :: "timestamp_t \<Rightarrow> timestamp_t \<Rightarrow> interval_t result" where
  "GetAge a b =
     (case GetComponents a of Inl e \<Rightarrow> Inl e
      | Inr ts1 \<Rightarrow> (case GetComponents b of Inl e \<Rightarrow> Inl e
                   | Inr ts2 \<Rightarrow> Inr (GetAge_components ts1 ts2 (a < b))))"

definition GetDifference :: "timestamp_t \<Rightarrow> timestamp_t \<Rightarrow> interval_t result" where
  "GetDifference a b =
     (if \<not> Timestamp_IsFinite a \<or> \<not> Timestamp_IsFinite b
      then Inl (InvalidInputException ''Cannot subtract infinite timestamps'')
      else case TrySubtract_int64 a b of
          None \<Rightarrow> Inl (ConversionException ''Timestamp difference is out of bounds'')
        | Some delta_us \<Rightarrow> Inr (FromMicro delta_us))"

section \<open>Adding an interval\<close>

text \<open>The part of \<open>Interval::Add\<close> for dates that moves by months and clips the day to the month.\<close>

definition add_months :: "date_t \<Rightarrow> int \<Rightarrow> date_t result" where
  "add_months left right_months =
     (let (year0, month0, day0) = Convert left;
          year_diff = right_months sdiv MONTHS_PER_YEAR;
          year1 = year0 + year_diff;
          month1 = month0 + (right_months - year_diff * MONTHS_PER_YEAR);
          (year, month) =
            (if month1 > MONTHS_PER_YEAR then (year1 + 1, month1 - MONTHS_PER_YEAR)
             else if month1 \<le> 0 then (year1 - 1, month1 + MONTHS_PER_YEAR)
             else (year1, month1))
      in FromDate year month (min day0 (MonthDays year month)))"

definition Add_date :: "date_t \<Rightarrow> interval_t \<Rightarrow> date_t result" where
  "Add_date left right =
     (if \<not> Date_IsFinite left then Inr left
      else
        case (if i_months right \<noteq> 0 then add_months left (i_months right) else Inr left) of
          Inl e \<Rightarrow> Inl e
        | Inr d0 \<Rightarrow>
           (case (if i_days right \<noteq> 0 then TryAdd_int32 d0 (i_days right) else Some d0) of
              None \<Rightarrow> Inl (OutOfRangeException ''Date out of range'')
            | Some d1 \<Rightarrow>
               (case (if i_micros right \<noteq> 0
                      then TryAdd_int32 d1 (cast_int32 (i_micros right sdiv MICROS_PER_DAY)) else Some d1) of
                  None \<Rightarrow> Inl (OutOfRangeException ''Date out of range'')
                | Some d2 \<Rightarrow>
                    if \<not> Date_IsFinite d2 then Inl (OutOfRangeException ''Date out of range'') else Inr d2)))"

text \<open>The new time and the date with the carry.\<close>

definition Add_time :: "dtime_t \<Rightarrow> interval_t \<Rightarrow> date_t \<Rightarrow> dtime_t \<times> date_t" where
  "Add_time left0 right d =
     (let diff = i_micros right - (i_micros right sdiv MICROS_PER_DAY) * MICROS_PER_DAY;
          left = left0 + diff
      in if left \<ge> MICROS_PER_DAY then (left - MICROS_PER_DAY, d + 1)
         else if left < 0 then (left + MICROS_PER_DAY, d - 1)
         else (left, d))"

definition Add_time_tz :: "dtime_tz_t \<Rightarrow> interval_t \<Rightarrow> date_t \<Rightarrow> dtime_tz_t \<times> date_t" where
  "Add_time_tz left right d =
     (let (t, d') = Add_time (tz_time left) right d in (dtime_tz t (tz_offset left), d'))"

definition NormalizeTimeTZ :: "dtime_tz_t \<Rightarrow> dtime_t" where
  "NormalizeTimeTZ timetz =
     fst (Add_time (tz_time timetz) \<lparr>i_months = 0, i_days = 0, i_micros = - tz_offset timetz * MICROS_PER_SEC\<rparr> 0)"

definition Add_timestamp :: "timestamp_t \<Rightarrow> interval_t \<Rightarrow> timestamp_t result" where
  "Add_timestamp left right =
     (if \<not> Timestamp_IsFinite left then Inr left
      else
        case Timestamp_Convert left of Inl e \<Rightarrow> Inl e
        | Inr (d, t) \<Rightarrow>
            (case Add_date d right of Inl e \<Rightarrow> Inl e
             | Inr new_date \<Rightarrow>
                 let (new_time, new_date') = Add_time t right new_date
                 in FromDatetime new_date' new_time))"

section \<open>Division and casts\<close>

lemma cast_int32_id: "- (2 ^ 31) \<le> x \<Longrightarrow> x < 2 ^ 31 \<Longrightarrow> cast_int32 x = x"
  unfolding cast_int32_def by (rule signed_take_bit_int_eq_self) simp_all

lemma sdiv_nonneg: "0 \<le> x \<Longrightarrow> 0 < y \<Longrightarrow> x sdiv y = x div (y :: int)"
  by (cases "x = 0") (simp_all add: signed_divide_int_def)

lemma sdiv_neg: "x < 0 \<Longrightarrow> 0 < y \<Longrightarrow> x sdiv y = - ((- x) div (y :: int))"
  by (simp add: signed_divide_int_def sgn_if)

text \<open>The quotient is the number that leaves a remainder of the dividend's sign.\<close>

lemma sdiv_smod_int:
  assumes "0 < (y :: int)"
  shows "x = x sdiv y * y + x smod y" "\<bar>x smod y\<bar> < y" "0 \<le> x \<Longrightarrow> 0 \<le> x smod y" "x < 0 \<Longrightarrow> x smod y \<le> 0"
proof -
  have r: "x smod y = x - x sdiv y * y" using sdiv_mult_smod_eq [of x y] by linarith
  then show "x = x sdiv y * y + x smod y" by simp
  show "\<bar>x smod y\<bar> < y" "0 \<le> x \<Longrightarrow> 0 \<le> x smod y" "x < 0 \<Longrightarrow> x smod y \<le> 0"
  proof -
    have m: "0 \<le> x mod y" "x mod y < y" "0 \<le> (- x) mod y" "(- x) mod y < y" using assms by simp_all
    have p: "0 \<le> x \<Longrightarrow> x smod y = x mod y"
      unfolding r by (simp add: sdiv_nonneg assms minus_div_mult_eq_mod)
    have n: "x smod y = - ((- x) mod y)" if "x < 0"
    proof -
      have "(- x) div y * y + (- x) mod y = - x" by (rule div_mult_mod_eq)
      then show ?thesis using that unfolding r sdiv_neg [OF that assms] mult_minus_left by linarith
    qed
    show "\<bar>x smod y\<bar> < y" using p n m by (cases "x < 0") simp_all
    show "0 \<le> x \<Longrightarrow> 0 \<le> x smod y" using p m by simp
    show "x < 0 \<Longrightarrow> x smod y \<le> 0" using n m by simp
  qed
qed

lemma MICROS_PER_DAY_eq: "MICROS_PER_DAY = 86400000000"
  by (simp add: temporal_consts)

text \<open>The rounding trick of \<open>TemporalRound\<close> and \<open>GetDate\<close> is the division that rounds down.\<close>

lemma TemporalRound_floor:
  assumes "0 < s" shows "TemporalRound v s = v div s"
proof (cases "v < 0")
  case True
  have q: "(v + 1) sdiv s = - ((- v - 1) div s)"
  proof (cases "v + 1 < 0")
    case True
    then show ?thesis by (simp add: sdiv_neg assms)
  next
    case False
    with \<open>v < 0\<close> have "v = - 1" by simp
    then show ?thesis by (simp add: signed_divide_int_def)
  qed
  have "(- v - 1) div s * s + (- v - 1) mod s = - v - 1" by (rule div_mult_mod_eq)
  then have v: "v = s * (- ((- v - 1) div s) - 1) + (s - 1 - (- v - 1) mod s)"
    by (simp only: right_diff_distrib mult_minus_right mult.commute [of s])
  have "0 \<le> (- v - 1) mod s" "(- v - 1) mod s < s" using assms by simp_all
  then have "v div s = - ((- v - 1) div s) - 1" by (intro int_div_pos_eq [OF v]) linarith+
  with True show ?thesis by (simp add: TemporalRound_def q)
next
  case False
  with assms show ?thesis by (simp add: TemporalRound_def sdiv_nonneg)
qed

lemma day_range:
  assumes "fits_int64 ts" shows "- 106751992 \<le> ts div MICROS_PER_DAY" "ts div MICROS_PER_DAY \<le> 106751991"
proof -
  have "ts div MICROS_PER_DAY * MICROS_PER_DAY + ts mod MICROS_PER_DAY = ts" by (rule div_mult_mod_eq)
  moreover have "0 \<le> ts mod MICROS_PER_DAY" "ts mod MICROS_PER_DAY < MICROS_PER_DAY" by (simp_all add: MICROS_PER_DAY_eq)
  moreover have "- 9223372036854775808 \<le> ts" "ts < 9223372036854775808" using assms by (simp_all add: fits_int64_def)
  ultimately show "- 106751992 \<le> ts div MICROS_PER_DAY" "ts div MICROS_PER_DAY \<le> 106751991"
    unfolding MICROS_PER_DAY_eq by linarith+
qed

lemma GetDate_floor:
  assumes "Timestamp_IsFinite ts" "fits_int64 ts" shows "GetDate ts = ts div MICROS_PER_DAY"
proof -
  have "(let negative = (if ts < 0 then 1 else 0) in (ts + negative) sdiv MICROS_PER_DAY - negative) = ts div MICROS_PER_DAY"
    using TemporalRound_floor [of MICROS_PER_DAY ts] by (simp add: TemporalRound_def MICROS_PER_DAY_eq)
  with assms day_range [OF assms(2)] show ?thesis
    by (simp add: GetDate_def Timestamp_IsFinite_def Let_def cast_int32_id)
qed

section \<open>Timestamps as a date and a time\<close>

text \<open>The first moment whose day can be multiplied out again.\<close>

definition TIMESTAMP_MIN :: timestamp_t where
  "TIMESTAMP_MIN = - 9223372022400000000"

lemma days_fit:
  assumes "fits_int64 ts"
  shows "fits_int64 (ts div MICROS_PER_DAY * MICROS_PER_DAY) \<longleftrightarrow> TIMESTAMP_MIN \<le> ts"
proof -
  have e: "ts div MICROS_PER_DAY * MICROS_PER_DAY + ts mod MICROS_PER_DAY = ts" by (rule div_mult_mod_eq)
  have m: "0 \<le> ts mod MICROS_PER_DAY" "ts mod MICROS_PER_DAY < MICROS_PER_DAY" by (simp_all add: MICROS_PER_DAY_eq)
  have b: "- 9223372036854775808 \<le> ts" "ts < 9223372036854775808" using assms by (simp_all add: fits_int64_def)
  show ?thesis
  proof
    assume "fits_int64 (ts div MICROS_PER_DAY * MICROS_PER_DAY)"
    then have "- 9223372036854775808 \<le> ts div MICROS_PER_DAY * 86400000000"
      by (simp add: fits_int64_def MICROS_PER_DAY_eq)
    then have "- 106751991 \<le> ts div MICROS_PER_DAY" by linarith
    then show "TIMESTAMP_MIN \<le> ts" using e m unfolding TIMESTAMP_MIN_def MICROS_PER_DAY_eq by linarith
  next
    assume "TIMESTAMP_MIN \<le> ts"
    then have "- 106751991 \<le> ts div MICROS_PER_DAY" using e m unfolding TIMESTAMP_MIN_def MICROS_PER_DAY_eq by linarith
    then show "fits_int64 (ts div MICROS_PER_DAY * MICROS_PER_DAY)"
      using e m b unfolding fits_int64_def MICROS_PER_DAY_eq by simp
  qed
qed

lemma Timestamp_Convert_eq:
  assumes "Timestamp_IsFinite ts" "fits_int64 ts"
  shows "Timestamp_Convert ts =
    (if TIMESTAMP_MIN \<le> ts then Inr (ts div MICROS_PER_DAY, ts mod MICROS_PER_DAY)
     else Inl (ConversionException ''Date out of range in timestamp conversion''))"
  using days_fit [OF assms(2)]
  by (simp add: Timestamp_Convert_def GetDate_floor [OF assms] TryMultiply_int64_def minus_div_mult_eq_mod Let_def)

lemma div_mod_unique:
  assumes "ts = d * MICROS_PER_DAY + t" "0 \<le> t" "t < MICROS_PER_DAY"
  shows "ts div MICROS_PER_DAY = d" "ts mod MICROS_PER_DAY = t"
proof -
  have ts: "ts = MICROS_PER_DAY * d + t" using assms(1) by (simp only: mult.commute)
  show "ts div MICROS_PER_DAY = d" by (rule int_div_pos_eq [OF ts assms(2,3)])
  show "ts mod MICROS_PER_DAY = t" by (rule int_mod_pos_eq [OF ts assms(2,3)])
qed

lemma TryFromDatetime_iff:
  assumes "0 \<le> t" "t < MICROS_PER_DAY"
  shows "TryFromDatetime d t = Some ts \<longleftrightarrow>
    Timestamp_IsFinite ts \<and> fits_int64 ts \<and> TIMESTAMP_MIN \<le> ts \<and> d = ts div MICROS_PER_DAY \<and> t = ts mod MICROS_PER_DAY"
proof
  assume "TryFromDatetime d t = Some ts"
  then have fits: "fits_int64 (d * MICROS_PER_DAY)" and ts: "ts = d * MICROS_PER_DAY + t" "fits_int64 ts" "Timestamp_IsFinite ts"
    by (auto simp: TryFromDatetime_def TryMultiply_int64_def TryAdd_int64_def split: if_splits)
  show "Timestamp_IsFinite ts \<and> fits_int64 ts \<and> TIMESTAMP_MIN \<le> ts \<and> d = ts div MICROS_PER_DAY \<and> t = ts mod MICROS_PER_DAY"
    using ts(2,3) fits days_fit [OF ts(2)] div_mod_unique [OF ts(1) assms] by simp
next
  assume r: "Timestamp_IsFinite ts \<and> fits_int64 ts \<and> TIMESTAMP_MIN \<le> ts \<and> d = ts div MICROS_PER_DAY \<and> t = ts mod MICROS_PER_DAY"
  then have "fits_int64 (d * MICROS_PER_DAY)" "d * MICROS_PER_DAY + t = ts" using days_fit [of ts] by simp_all
  then show "TryFromDatetime d t = Some ts" using r by (simp add: TryFromDatetime_def TryMultiply_int64_def TryAdd_int64_def)
qed

section \<open>Differences\<close>

lemma FromMicro_fits:
  assumes "fits_int64 delta"
  shows "i_months (FromMicro delta) = 0" "i_days (FromMicro delta) = delta sdiv MICROS_PER_DAY"
    "i_micros (FromMicro delta) = delta smod MICROS_PER_DAY" "\<bar>delta sdiv MICROS_PER_DAY\<bar> \<le> 106751992"
proof -
  have p: "0 < MICROS_PER_DAY" by (simp add: MICROS_PER_DAY_eq)
  have "delta = delta sdiv MICROS_PER_DAY * MICROS_PER_DAY + delta smod MICROS_PER_DAY"
    "\<bar>delta smod MICROS_PER_DAY\<bar> < MICROS_PER_DAY" using sdiv_smod_int [OF p, of delta] by simp_all
  moreover have "- 9223372036854775808 \<le> delta" "delta < 9223372036854775808"
    using assms by (simp_all add: fits_int64_def)
  ultimately show b: "\<bar>delta sdiv MICROS_PER_DAY\<bar> \<le> 106751992" unfolding MICROS_PER_DAY_eq by linarith
  show "i_months (FromMicro delta) = 0" "i_days (FromMicro delta) = delta sdiv MICROS_PER_DAY"
    "i_micros (FromMicro delta) = delta smod MICROS_PER_DAY"
    using b by (simp_all add: FromMicro_def cast_int32_id)
qed

lemma small_sdiv: "\<bar>x\<bar> < y \<Longrightarrow> x sdiv (y :: int) = 0"
  by (simp add: signed_divide_int_def)

lemma Add_date_days:
  assumes "\<bar>d\<bar> \<le> 106751992" "i_months i = 0" "\<bar>i_days i\<bar> \<le> 213503984" "\<bar>i_micros i\<bar> < MICROS_PER_DAY"
  shows "Add_date d i = Inr (d + i_days i)"
proof -
  have "Date_IsFinite d" "Date_IsFinite (d + i_days i)" using assms(1,3)
    by (auto simp: Date_IsFinite_def date_infinity_def date_ninfinity_def)
  moreover have "TryAdd_int32 d (i_days i) = Some (d + i_days i)" "TryAdd_int32 (d + i_days i) 0 = Some (d + i_days i)"
    using assms(1,3) by (auto simp: TryAdd_int32_def)
  moreover have "cast_int32 (i_micros i sdiv MICROS_PER_DAY) = 0"
    by (simp add: small_sdiv [OF assms(4)] cast_int32_id)
  ultimately show ?thesis using assms(2) by (auto simp: Add_date_def)
qed

lemma Add_time_exact:
  assumes "0 \<le> t" "t < MICROS_PER_DAY" "\<bar>i_micros i\<bar> < MICROS_PER_DAY" "Add_time t i d = (t', d')"
  shows "0 \<le> t'" "t' < MICROS_PER_DAY" "d' * MICROS_PER_DAY + t' = d * MICROS_PER_DAY + t + i_micros i"
  using assms small_sdiv [OF assms(3)]
  by (auto simp: Add_time_def Let_def MICROS_PER_DAY_eq algebra_simps split: if_splits)

lemma difference_added:
  assumes "Timestamp_IsFinite a" "fits_int64 a" "TIMESTAMP_MIN \<le> a" "Timestamp_IsFinite b" "fits_int64 b" "TIMESTAMP_MIN \<le> b"
    and "GetDifference a b = Inr i"
  shows "Add_timestamp b i = Inr a"
proof -
  have p: "0 < MICROS_PER_DAY" by (simp add: MICROS_PER_DAY_eq)
  have fits: "fits_int64 (a - b)" and i: "i = FromMicro (a - b)"
    using assms(1,4,7) by (auto simp: GetDifference_def TrySubtract_int64_def split: if_splits)
  note parts = FromMicro_fits [OF fits, folded i]
  define d t where "d = b div MICROS_PER_DAY" and "t = b mod MICROS_PER_DAY"
  have b: "d * MICROS_PER_DAY + t = b" "0 \<le> t" "t < MICROS_PER_DAY" using p by (simp_all add: d_def t_def)
  have micros: "\<bar>i_micros i\<bar> < MICROS_PER_DAY" unfolding parts(3) by (rule sdiv_smod_int(2) [OF p])
  have new_date: "Add_date d i = Inr (d + i_days i)"
    using day_range [OF assms(5)] parts micros by (intro Add_date_days) (simp_all add: d_def)
  obtain t' d' where add: "Add_time t i (d + i_days i) = (t', d')" by fastforce
  note exact = Add_time_exact [OF b(2,3) micros add]
  have "d' * MICROS_PER_DAY + t' = (d * MICROS_PER_DAY + t) + ((a - b) sdiv MICROS_PER_DAY * MICROS_PER_DAY + (a - b) smod MICROS_PER_DAY)"
    unfolding exact(3) parts by (simp only: distrib_right)
  also have "\<dots> = a" using sdiv_smod_int(1) [OF p, of "a - b"] b(1) by linarith
  finally have a: "a = d' * MICROS_PER_DAY + t'" by simp
  have "TryFromDatetime d' t' = Some a"
    using assms(1-3) div_mod_unique [OF a exact(1,2)] by (simp add: TryFromDatetime_iff [OF exact(1,2)])
  then show ?thesis
    using assms(4-6) new_date add
    by (simp add: Add_timestamp_def Timestamp_Convert_eq d_def t_def FromDatetime_def)
qed

section \<open>Months\<close>

lemma MonthDays_eq: "1 \<le> m \<Longrightarrow> m \<le> 12 \<Longrightarrow> MonthDays y m = month_length y m"
  using month_days_table [of m y] by (simp add: MonthDays_def IsLeapYear_leap)

text \<open>The month that is \<open>n\<close> months later, counted from the year 0.\<close>

lemma add_months_eq:
  fixes n :: int
  assumes "Convert d = (y, m, dd)"
  defines "k \<equiv> y * 12 + (m - 1) + n"
  shows "add_months d n = FromDate (k div 12) (k mod 12 + 1) (min dd (month_length (k div 12) (k mod 12 + 1)))"
proof -
  have m: "1 \<le> m" "m \<le> 12" using Convert_day_number(1) [OF assms(1)] by (simp_all add: calendar_date_def)
  define q r where "q = n sdiv 12" and "r = n - n sdiv 12 * 12"
  have r: "\<bar>r\<bar> < 12" "n = q * 12 + r" using sdiv_smod_int(2) [of 12 n] minus_sdiv_mult_eq_smod [of n 12]
    by (simp_all add: q_def r_def)
  define Y M where "Y = (if m + r > 12 then y + q + 1 else if m + r \<le> 0 then y + q - 1 else y + q)"
    and "M = (if m + r > 12 then m + r - 12 else if m + r \<le> 0 then m + r + 12 else m + r)"
  have M: "1 \<le> M" "M \<le> 12" using m r(1) by (auto simp: M_def)
  have "k = 12 * Y + (M - 1)" unfolding k_def r(2) Y_def M_def by (simp add: algebra_simps)
  then have "k div 12 = Y" "k mod 12 = M - 1" using M
    by (auto intro: int_div_pos_eq int_mod_pos_eq)
  moreover have pair: "(if m + r > MONTHS_PER_YEAR then (y + q + 1, m + r - MONTHS_PER_YEAR)
      else if m + r \<le> 0 then (y + q - 1, m + r + MONTHS_PER_YEAR) else (y + q, m + r)) = (Y, M)"
    by (simp add: Y_def M_def MONTHS_PER_YEAR_def)
  have qr: "n sdiv MONTHS_PER_YEAR = q" "n - q * MONTHS_PER_YEAR = r"
    by (simp_all add: q_def r_def MONTHS_PER_YEAR_def)
  have "add_months d n = FromDate Y M (min dd (MonthDays Y M))"
    unfolding add_months_def assms(1) Let_def prod.case qr pair by (rule refl)
  ultimately show ?thesis using MonthDays_eq [OF M] by simp
qed

section \<open>The order of intervals\<close>

definition interval_total :: "interval_t \<Rightarrow> int" where
  "interval_total i = (i_months i * DAYS_PER_MONTH + i_days i) * MICROS_PER_DAY + i_micros i"

lemma Normalize_parts_total:
  assumes "Normalize_parts i = (mm, dd, us)"
  shows "(mm * DAYS_PER_MONTH + dd) * MICROS_PER_DAY + us = interval_total i"
    "\<bar>us\<bar> < MICROS_PER_DAY" "\<bar>dd\<bar> < DAYS_PER_MONTH"
    "0 \<le> i_days i \<Longrightarrow> 0 \<le> i_micros i \<Longrightarrow> 0 \<le> us \<and> 0 \<le> dd"
proof -
  have p: "0 < MICROS_PER_DAY" "0 < DAYS_PER_MONTH" by (simp_all add: MICROS_PER_DAY_eq DAYS_PER_MONTH_def)
  define c where "c = i_micros i sdiv MICROS_PER_DAY"
  define e where "e = (i_days i + c) sdiv DAYS_PER_MONTH"
  have parts: "us = i_micros i smod MICROS_PER_DAY" "dd = (i_days i + c) smod DAYS_PER_MONTH" "mm = i_months i + e"
    using assms by (simp_all add: Normalize_parts_def Let_def c_def e_def minus_sdiv_mult_eq_smod)
  have us: "i_micros i = c * MICROS_PER_DAY + us" using sdiv_smod_int(1) [OF p(1)] by (simp add: parts c_def)
  have dd: "i_days i + c = e * DAYS_PER_MONTH + dd" using sdiv_smod_int(1) [OF p(2)] by (simp add: parts e_def)
  have "mm * DAYS_PER_MONTH + dd = i_months i * DAYS_PER_MONTH + (i_days i + c)"
    unfolding dd parts(3) by (simp add: distrib_right)
  then show "(mm * DAYS_PER_MONTH + dd) * MICROS_PER_DAY + us = interval_total i"
    unfolding interval_total_def us by (simp add: algebra_simps)
  show "\<bar>us\<bar> < MICROS_PER_DAY" "\<bar>dd\<bar> < DAYS_PER_MONTH"
    unfolding parts by (rule sdiv_smod_int(2) [OF p(1)], rule sdiv_smod_int(2) [OF p(2)])
  assume nn: "0 \<le> i_days i" "0 \<le> i_micros i"
  then have "0 \<le> c" using p(1) by (simp add: c_def sdiv_nonneg pos_imp_zdiv_nonneg_iff)
  then show "0 \<le> us \<and> 0 \<le> dd" using nn sdiv_smod_int(3) [OF p(1), of "i_micros i"]
      sdiv_smod_int(3) [OF p(2), of "i_days i + c"] by (simp add: parts)
qed

lemma lexicographic_total:
  fixes u v a b x y :: int
  assumes "0 \<le> a" "a < s" "0 \<le> b" "b < s"
  shows "u * s + a < v * s + b \<longleftrightarrow> u < v \<or> u = v \<and> a < b"
proof (cases "u = v")
  case False
  then consider "u + 1 \<le> v" | "v + 1 \<le> u" by linarith
  then show ?thesis
  proof cases
    case 1
    then have "(u + 1) * s \<le> v * s" using assms by (intro mult_right_mono) auto
    with 1 assms show ?thesis by (simp add: distrib_right)
  next
    case 2
    then have "(v + 1) * s \<le> u * s" using assms by (intro mult_right_mono) auto
    with 2 assms show ?thesis by (simp add: distrib_right)
  qed
qed simp

lemma interval_greater_total:
  assumes "0 \<le> i_days a" "0 \<le> i_micros a" "0 \<le> i_days b" "0 \<le> i_micros b"
  shows "interval_greater a b \<longleftrightarrow> interval_total a > interval_total b"
proof -
  obtain am ad au where a: "Normalize_parts a = (am, ad, au)" by (metis prod_cases3)
  obtain bm bd bu where b: "Normalize_parts b = (bm, bd, bu)" by (metis prod_cases3)
  note ta = Normalize_parts_total [OF a] and tb = Normalize_parts_total [OF b]
  have "interval_total b < interval_total a \<longleftrightarrow>
    bm * DAYS_PER_MONTH + bd < am * DAYS_PER_MONTH + ad \<or> bm * DAYS_PER_MONTH + bd = am * DAYS_PER_MONTH + ad \<and> bu < au"
    unfolding ta(1) [symmetric] tb(1) [symmetric] using ta tb assms by (intro lexicographic_total) auto
  also have "bm * DAYS_PER_MONTH + bd < am * DAYS_PER_MONTH + ad \<longleftrightarrow> bm < am \<or> bm = am \<and> bd < ad"
    using ta tb assms by (intro lexicographic_total) auto
  also have "bm * DAYS_PER_MONTH + bd = am * DAYS_PER_MONTH + ad \<longleftrightarrow> bm = am \<and> bd = ad"
    using lexicographic_total [of bd DAYS_PER_MONTH ad bm am] lexicographic_total [of ad DAYS_PER_MONTH bd am bm] ta tb assms
    by auto
  finally show ?thesis by (auto simp: interval_greater_def a b)
qed

lemma interval_eq_greater: "interval_eq a b \<longleftrightarrow> \<not> interval_greater a b \<and> \<not> interval_greater b a"
  by (cases a; cases b; cases "Normalize_parts a"; cases "Normalize_parts b")
     (auto simp: interval_eq_def interval_greater_def)

lemma interval_greater_trans: "interval_greater a b \<Longrightarrow> interval_greater b c \<Longrightarrow> interval_greater a c"
  by (cases "Normalize_parts a"; cases "Normalize_parts b"; cases "Normalize_parts c")
     (auto simp: interval_greater_def split: if_splits)

text \<open>With fields of different signs the order is not that of the totals: a month less a day is not 29 days.\<close>

lemma mixed_sign_order:
  "interval_greater \<lparr>i_months = 1, i_days = - 1, i_micros = 0\<rparr> \<lparr>i_months = 0, i_days = 29, i_micros = 0\<rparr>"
  "interval_total \<lparr>i_months = 1, i_days = - 1, i_micros = 0\<rparr> = interval_total \<lparr>i_months = 0, i_days = 29, i_micros = 0\<rparr>"
  by (simp_all add: interval_greater_def Normalize_parts_def interval_total_def DAYS_PER_MONTH_def MICROS_PER_DAY_eq
      signed_divide_int_def Let_def)

text \<open>
  Normalising puts an interval into the fields it has: what does not fit into the months goes into the days,
  and what does not fit there into the microseconds, which have room for it.
\<close>

definition interval_fits :: "interval_t \<Rightarrow> bool" where
  "interval_fits i \<longleftrightarrow> i_months i \<in> {- 2147483648..2147483647} \<and> i_days i \<in> {- 2147483648..2147483647} \<and>
     i_micros i \<in> {- 9223372036854775808..9223372036854775807}"

lemma sdiv_smod_cases:
  fixes x y :: int
  assumes "0 < y"
  obtains "0 \<le> x" "0 \<le> x sdiv y" "0 \<le> x smod y" | "x \<le> 0" "x sdiv y \<le> 0" "x smod y \<le> 0"
  using sdiv_smod_int(3,4) [OF assms, of x] assms
  by (cases "0 \<le> x") (simp_all add: sdiv_nonneg sdiv_neg pos_imp_zdiv_nonneg_iff)

lemma Normalize_parts_signs:
  assumes "Normalize_parts i = (mm, dd, us)" "interval_fits i"
  shows "\<bar>us\<bar> < 86400000000" "\<bar>dd\<bar> < 30"
    "2147483647 < mm \<Longrightarrow> 0 \<le> dd \<and> dd + (mm - 2147483647) * 30 \<le> i_days i + i_micros i sdiv 86400000000"
    "mm < - 2147483648 \<Longrightarrow> dd \<le> 0 \<and> i_days i + i_micros i sdiv 86400000000 \<le> dd + (mm + 2147483648) * 30"
    "i_micros i = i_micros i sdiv 86400000000 * 86400000000 + us"
    "0 < i_micros i sdiv 86400000000 \<Longrightarrow> 0 \<le> us" "i_micros i sdiv 86400000000 < 0 \<Longrightarrow> us \<le> 0"
proof -
  show "\<bar>us\<bar> < 86400000000" "\<bar>dd\<bar> < 30"
    using Normalize_parts_total(2,3) [OF assms(1)] by (simp_all add: MICROS_PER_DAY_eq DAYS_PER_MONTH_def)
  define c where "c = i_micros i sdiv 86400000000"
  define e where "e = (i_days i + c) sdiv 30"
  have parts: "us = i_micros i - c * 86400000000" "dd = i_days i + c - e * 30" "mm = i_months i + e"
    using assms(1) by (simp_all add: Normalize_parts_def Let_def c_def e_def MICROS_PER_DAY_eq DAYS_PER_MONTH_def)
  have smod: "us = i_micros i smod 86400000000" "dd = (i_days i + c) smod 30"
    by (simp_all add: parts c_def e_def minus_sdiv_mult_eq_smod)
  show "i_micros i = i_micros i sdiv 86400000000 * 86400000000 + us" by (simp add: parts c_def)
  have fit: "i_months i \<le> 2147483647" "- 2147483648 \<le> i_months i" using assms(2) by (simp_all add: interval_fits_def)
  have us: "(0 \<le> c \<and> 0 \<le> us) \<or> (c \<le> 0 \<and> us \<le> 0)"
    unfolding smod(1) c_def by (rule sdiv_smod_cases [of 86400000000 "i_micros i"]) simp_all
  have dd: "(0 \<le> e \<and> 0 \<le> dd) \<or> (e \<le> 0 \<and> dd \<le> 0)"
    unfolding smod(2) e_def by (rule sdiv_smod_cases [of 30 "i_days i + c"]) simp_all
  show "0 < i_micros i sdiv 86400000000 \<Longrightarrow> 0 \<le> us" "i_micros i sdiv 86400000000 < 0 \<Longrightarrow> us \<le> 0"
    using us by (auto simp: c_def)
  show "0 \<le> dd \<and> dd + (mm - 2147483647) * 30 \<le> i_days i + i_micros i sdiv 86400000000" if "2147483647 < mm"
    using that dd fit parts(2,3) unfolding c_def [symmetric] by auto
  show "dd \<le> 0 \<and> i_days i + i_micros i sdiv 86400000000 \<le> dd + (mm + 2147483648) * 30" if "mm < - 2147483648"
    using that dd fit parts(2,3) unfolding c_def [symmetric] by auto
qed

lemma cast_int32_in: "- 2147483648 \<le> x \<Longrightarrow> x \<le> 2147483647 \<Longrightarrow> cast_int32 x = x"
  by (rule cast_int32_id) simp_all

text \<open>The five ways in which normalising ends.\<close>

lemma Normalize_cases:
  assumes "Normalize_parts i = (mm, dd, us)" "interval_fits i"
  obtains (fits) "- 2147483648 \<le> mm" "mm \<le> 2147483647" "\<bar>dd\<bar> < 30" "\<bar>us\<bar> < 86400000000"
      "Normalize i = \<lparr>i_months = mm, i_days = dd, i_micros = us\<rparr>"
  | (days_above) "2147483647 < mm" "0 \<le> dd" "dd < 30" "\<bar>us\<bar> < 86400000000" "dd + (mm - 2147483647) * 30 \<le> 2147483647"
      "Normalize i = \<lparr>i_months = 2147483647, i_days = dd + (mm - 2147483647) * 30, i_micros = us\<rparr>"
  | (micros_above) "2147483647 < mm" "0 \<le> dd" "dd < 30" "0 \<le> us" "us < 86400000000" "2147483647 < dd + (mm - 2147483647) * 30"
      "Normalize i = \<lparr>i_months = 2147483647, i_days = 2147483647, i_micros = us + (dd + (mm - 2147483647) * 30 - 2147483647) * 86400000000\<rparr>"
      "us + (dd + (mm - 2147483647) * 30 - 2147483647) * 86400000000 \<le> 9223372036854775807"
  | (days_below) "mm < - 2147483648" "dd \<le> 0" "- 30 < dd" "\<bar>us\<bar> < 86400000000" "- 2147483648 \<le> dd + (mm + 2147483648) * 30"
      "Normalize i = \<lparr>i_months = - 2147483648, i_days = dd + (mm + 2147483648) * 30, i_micros = us\<rparr>"
  | (micros_below) "mm < - 2147483648" "dd \<le> 0" "- 30 < dd" "us \<le> 0" "- 86400000000 < us" "dd + (mm + 2147483648) * 30 < - 2147483648"
      "Normalize i = \<lparr>i_months = - 2147483648, i_days = - 2147483648, i_micros = us + (dd + (mm + 2147483648) * 30 + 2147483648) * 86400000000\<rparr>"
      "- 9223372036854775808 \<le> us + (dd + (mm + 2147483648) * 30 + 2147483648) * 86400000000"
proof -
  define c where "c = i_micros i sdiv 86400000000"
  note p = Normalize_parts_signs [OF assms, folded c_def]
  have fit: "i_days i \<le> 2147483647" "- 2147483648 \<le> i_days i" "i_micros i \<le> 9223372036854775807" "- 9223372036854775808 \<le> i_micros i"
    using assms(2) by (simp_all add: interval_fits_def)
  consider "- 2147483648 \<le> mm" "mm \<le> 2147483647" | "2147483647 < mm" | "mm < - 2147483648" by linarith
  then show thesis
  proof cases
    case 1
    have "Normalize i = \<lparr>i_months = mm, i_days = dd, i_micros = us\<rparr>"
      using 1 p(2) by (auto simp: Normalize_def assms(1) Borrow_def cast_int32_in abs_less_iff)
    then show ?thesis using 1 p(1,2) fits by blast
  next
    case 2
    let ?D = "dd + (mm - 2147483647) * 30"
    have d: "0 \<le> dd" "dd < 30" "?D \<le> i_days i + c" using p(2,3) 2 by auto
    show ?thesis
    proof (cases "?D \<le> 2147483647")
      case True
      have "Normalize i = \<lparr>i_months = 2147483647, i_days = ?D, i_micros = us\<rparr>"
        using 2 True d by (simp add: Normalize_def assms(1) Borrow_def cast_int32_in DAYS_PER_MONTH_def)
      then show ?thesis using 2 True d p(1) days_above by blast
    next
      case False
      have us: "0 \<le> us" using False d fit by (intro p(6)) linarith
      have "Normalize i = \<lparr>i_months = 2147483647, i_days = 2147483647, i_micros = us + (?D - 2147483647) * 86400000000\<rparr>"
        using 2 False d by (simp add: Normalize_def assms(1) Borrow_def DAYS_PER_MONTH_def MICROS_PER_DAY_eq)
      moreover have "us + (?D - 2147483647) * 86400000000 \<le> 9223372036854775807"
      proof -
        have "?D - 2147483647 \<le> c" using d(3) fit(1) by linarith
        then have "(?D - 2147483647) * 86400000000 \<le> c * 86400000000" by (rule mult_right_mono) simp
        then have "us + (?D - 2147483647) * 86400000000 \<le> i_micros i" unfolding p(5) by simp
        also note fit(3)
        finally show ?thesis .
      qed
      ultimately show ?thesis using 2 False d us p(1) micros_above by auto
    qed
  next
    case 3
    let ?D = "dd + (mm + 2147483648) * 30"
    have d: "dd \<le> 0" "- 30 < dd" "i_days i + c \<le> ?D" using p(2,4) 3 by auto
    show ?thesis
    proof (cases "- 2147483648 \<le> ?D")
      case True
      have "Normalize i = \<lparr>i_months = - 2147483648, i_days = ?D, i_micros = us\<rparr>"
        using 3 True d by (simp add: Normalize_def assms(1) Borrow_def cast_int32_in DAYS_PER_MONTH_def)
      then show ?thesis using 3 True d p(1) days_below by blast
    next
      case False
      have us: "us \<le> 0" using False d fit by (intro p(7)) linarith
      have "Normalize i = \<lparr>i_months = - 2147483648, i_days = - 2147483648, i_micros = us + (?D + 2147483648) * 86400000000\<rparr>"
        using 3 False d by (simp add: Normalize_def assms(1) Borrow_def DAYS_PER_MONTH_def MICROS_PER_DAY_eq)
      moreover have "- 9223372036854775808 \<le> us + (?D + 2147483648) * 86400000000"
      proof -
        have "c \<le> ?D + 2147483648" using d(3) fit(2) by linarith
        then have "c * 86400000000 \<le> (?D + 2147483648) * 86400000000" by (rule mult_right_mono) simp
        then have "i_micros i \<le> us + (?D + 2147483648) * 86400000000" unfolding p(5) by simp
        with fit(4) show ?thesis by (rule order_trans)
      qed
      ultimately show ?thesis using 3 False d us p(1) micros_below by auto
    qed
  qed
qed

lemma Normalize_fits: "interval_fits i \<Longrightarrow> interval_fits (Normalize i)"
proof -
  assume f: "interval_fits i"
  obtain mm dd us where p: "Normalize_parts i = (mm, dd, us)" by (metis prod_cases3)
  from Normalize_cases [OF p f] show ?thesis by cases (auto simp: interval_fits_def abs_less_iff)
qed

definition fields_less :: "interval_t \<Rightarrow> interval_t \<Rightarrow> bool" where
  "fields_less a b \<longleftrightarrow> i_months a < i_months b \<or> i_months a = i_months b \<and>
     (i_days a < i_days b \<or> i_days a = i_days b \<and> i_micros a < i_micros b)"

lemma Normalize_monotone:
  assumes "interval_fits a" "interval_fits b" "interval_greater b a"
  shows "fields_less (Normalize a) (Normalize b)"
proof -
  obtain am ad au where a: "Normalize_parts a = (am, ad, au)" by (metis prod_cases3)
  obtain bm bd bu where b: "Normalize_parts b = (bm, bd, bu)" by (metis prod_cases3)
  have less: "am < bm \<or> am = bm \<and> (ad < bd \<or> ad = bd \<and> au < bu)"
    using assms(3) by (auto simp: interval_greater_def a b split: if_splits)
  from Normalize_cases [OF a assms(1)] show ?thesis
  proof cases
    case a: 1
    from Normalize_cases [OF b assms(2)] show ?thesis
      by cases (use less a in \<open>auto simp: fields_less_def abs_less_iff\<close>)
  next
    case a: 2
    from Normalize_cases [OF b assms(2)] show ?thesis
      by cases (use less a in \<open>auto simp: fields_less_def abs_less_iff\<close>)
  next
    case a: 3
    from Normalize_cases [OF b assms(2)] show ?thesis
      by cases (use less a in \<open>auto simp: fields_less_def abs_less_iff\<close>)
  next
    case a: 4
    from Normalize_cases [OF b assms(2)] show ?thesis
      by cases (use less a in \<open>auto simp: fields_less_def abs_less_iff\<close>)
  next
    case a: 5
    from Normalize_cases [OF b assms(2)] show ?thesis
      by cases (use less a in \<open>auto simp: fields_less_def abs_less_iff\<close>)
  qed
qed

lemma Normalize_equal:
  assumes "\<not> interval_greater a b" "\<not> interval_greater b a"
  shows "Normalize a = Normalize b"
proof -
  have "Normalize_parts a = Normalize_parts b"
    using assms by (cases "Normalize_parts a"; cases "Normalize_parts b") (auto simp: interval_greater_def split: if_splits)
  then show ?thesis by (simp add: Normalize_def)
qed

section \<open>Rounding\<close>

lemma GetEpochRounded_eq:
  assumes "0 < s"
  shows "GetEpochRounded ts (2 * s) = sgn ts * ((\<bar>ts\<bar> + s) div (2 * s))"
proof -
  have scaling: "(2 * s) sdiv 2 = s" using assms by (simp add: sdiv_nonneg)
  have half: "(x div s + 1) div 2 = (x + s) div (2 * s)" for x
  proof -
    have "(x + s) div (s * 2) = (x + s) div s div 2" by (rule zdiv_zmult2_eq) simp
    moreover have "(x + s) div s = x div s + 1" using assms by (intro div_add_self2) simp
    ultimately show ?thesis by (simp only: mult.commute)
  qed
  show ?thesis
  proof (cases "0 \<le> ts")
    case True
    then have "0 \<le> ts div s" using assms by (simp add: pos_imp_zdiv_nonneg_iff)
    then have "GetEpochRounded ts (2 * s) = (ts + s) div (2 * s)"
      using True assms half [of ts] by (simp add: GetEpochRounded_def scaling sdiv_nonneg Let_def)
    moreover have "ts = 0 \<Longrightarrow> s div (2 * s) = 0" using assms by simp
    ultimately show ?thesis using True by (auto simp: sgn_if)
  next
    case False
    then have q: "ts sdiv s = - ((- ts) div s)" using assms by (simp add: sdiv_neg)
    have nn: "0 \<le> (- ts) div s" using False assms by (simp add: pos_imp_zdiv_nonneg_iff)
    show ?thesis
    proof (cases "(- ts) div s = 0")
      case True
      then have "- ts < s" using False assms by (simp add: zdiv_eq_0_iff)
      then have "(- ts + s) div (2 * s) = 0" using False assms by (intro div_pos_pos_trivial) auto
      with True False show ?thesis
        by (simp add: GetEpochRounded_def scaling q Let_def sdiv_nonneg)
    next
      case nz: False
      then have neg: "- ((- ts) div s) < 0" using nn by simp
      then have "(- ((- ts) div s) - 1) sdiv 2 = - (((- ts) div s + 1) div 2)"
        by (subst sdiv_neg) (simp_all add: algebra_simps)
      then have "GetEpochRounded ts (2 * s) = - ((- ts + s) div (2 * s))"
        using neg half [of "- ts"] by (simp add: GetEpochRounded_def scaling q Let_def)
      with False show ?thesis by simp
    qed
  qed
qed

section \<open>Packed times\<close>

lemma OFFSET_MASK_eq: "OFFSET_MASK = mask 24"
  by (simp add: OFFSET_MASK_def mask_eq_exp_minus_1)

lemma uint_field: "0 \<le> v \<Longrightarrow> v < 2 ^ 64 \<Longrightarrow> uint (word_of_int v :: uint64_t) = v"
  by (simp add: unsigned_of_int take_bit_int_eq_self)

lemma dtime_tz_uint:
  assumes "0 \<le> t" "t < 2 ^ 38" "\<bar>off\<bar> \<le> MAX_OFFSET"
  shows "uint (dtime_tz t off) = t * 2 ^ 24 + (MAX_OFFSET - off)"
proof -
  define v where "v = MAX_OFFSET - off"
  have v: "0 \<le> v" "v < 2 ^ 24" using assms(3) by (simp_all add: MAX_OFFSET_def v_def)
  let ?a = "word_of_int (t * 2 ^ 24) :: uint64_t" and ?b = "word_of_int v :: uint64_t"
  have a: "uint ?a = t * 2 ^ 24" using assms(1,2) by (intro uint_field) simp_all
  have b: "uint ?b = v" using v by (intro uint_field) simp_all
  have shift: "push_bit 24 (word_of_int t :: uint64_t) = ?a" by (simp add: push_bit_eq_mult)
  have "uint (?a AND ?b) = uint ?a AND uint ?b" by (rule uint_and)
  also have "\<dots> = push_bit 24 t AND take_bit 24 v"
    unfolding a b using v by (simp add: push_bit_eq_mult take_bit_int_eq_self)
  also have "\<dots> = 0" by (rule bit_eqI) (auto simp: bit_simps)
  finally have "uint (?a AND ?b) = uint (0 :: uint64_t)" by (simp only: uint_0_eq)
  then have "?a AND ?b = 0" by (simp only: word_uint_eq_iff)
  then have "dtime_tz t off = ?a + ?b"
    by (simp add: dtime_tz_def encode_micros_def encode_offset_def OFFSET_BITS_def shift v_def [symmetric] disjunctive_add_eq_or)
  also have "\<dots> = word_of_int (t * 2 ^ 24 + v)" by simp
  finally have "uint (dtime_tz t off) = t * 2 ^ 24 + v"
    using assms(1,2) v by (simp only:) (rule uint_field; simp)
  then show ?thesis by (simp add: v_def)
qed

lemma dtime_tz_parts:
  assumes "0 \<le> t" "t < 2 ^ 38" "\<bar>off\<bar> \<le> MAX_OFFSET"
  shows "tz_time (dtime_tz t off) = t" "tz_offset (dtime_tz t off) = off"
    "uint (dtime_tz t off AND OFFSET_MASK) = MAX_OFFSET - off"
proof -
  note u = dtime_tz_uint [OF assms]
  have v: "0 \<le> MAX_OFFSET - off" "MAX_OFFSET - off < 2 ^ 24" using assms(3) by (simp_all add: MAX_OFFSET_def)
  have e: "t * 2 ^ 24 + (MAX_OFFSET - off) = 2 ^ 24 * t + (MAX_OFFSET - off)" by simp
  have "uint (drop_bit 24 (dtime_tz t off)) = drop_bit 24 (uint (dtime_tz t off))" proof -
    have "take_bit 64 (uint (dtime_tz t off)) = uint (dtime_tz t off)"
      using uint_lt2p [of "dtime_tz t off"] by (intro take_bit_int_eq_self) simp_all
    then show ?thesis by (simp add: unsigned_drop_bit_eq)
  qed
  also have "\<dots> = t" unfolding drop_bit_eq_div u by (rule int_div_pos_eq [OF e v])
  finally have t: "uint (drop_bit 24 (dtime_tz t off)) = t" .
  have "sint (drop_bit 24 (dtime_tz t off)) = signed_take_bit 63 (uint (drop_bit 24 (dtime_tz t off)))"
    by (simp add: sint_uint)
  also have "\<dots> = t" unfolding t using assms(1,2) by (intro signed_take_bit_int_eq_self) simp_all
  finally show "tz_time (dtime_tz t off) = t" by (simp add: tz_time_def decode_micros_def OFFSET_BITS_def)
  have "uint (dtime_tz t off AND OFFSET_MASK) = take_bit 24 (uint (dtime_tz t off))"
    by (simp add: OFFSET_MASK_eq uint_and take_bit_eq_mask uint_mask_eq)
  also have "\<dots> = MAX_OFFSET - off" unfolding take_bit_eq_mod u by (rule int_mod_pos_eq [OF e v])
  finally show m: "uint (dtime_tz t off AND OFFSET_MASK) = MAX_OFFSET - off" .
  show "tz_offset (dtime_tz t off) = off"
    unfolding tz_offset_def decode_offset_def m using v by (subst cast_int32_id) simp_all
qed

lemma tz_sort_key_uint:
  assumes "0 \<le> t" "t < 2 ^ 38" "\<bar>off\<bar> \<le> MAX_OFFSET"
  shows "uint (tz_sort_key (dtime_tz t off)) = (t + (MAX_OFFSET - off) * 1000000) * 2 ^ 24 + (MAX_OFFSET - off)"
proof -
  define v where "v = MAX_OFFSET - off"
  have v: "0 \<le> v" "v \<le> 115198" using assms(3) by (simp_all add: MAX_OFFSET_def v_def)
  have w: "dtime_tz t off = word_of_int (t * 2 ^ 24 + v)"
    using dtime_tz_uint [OF assms] by (metis v_def word_of_int_uint)
  have "dtime_tz t off AND OFFSET_MASK = word_of_int v"
    using dtime_tz_parts(3) [OF assms] by (metis v_def word_of_int_uint)
  then have "tz_sort_key (dtime_tz t off) = word_of_int (t * 2 ^ 24 + v + v * 1000000 * 2 ^ 24)"
    unfolding tz_sort_key_def encode_micros_def OFFSET_BITS_def push_bit_eq_mult w by simp
  moreover have "uint (word_of_int (t * 2 ^ 24 + v + v * 1000000 * 2 ^ 24) :: uint64_t) = t * 2 ^ 24 + v + v * 1000000 * 2 ^ 24"
    using v assms(1,2) by (intro uint_field) auto
  ultimately have "uint (tz_sort_key (dtime_tz t off)) = t * 2 ^ 24 + v + v * 1000000 * 2 ^ 24" by (simp only:)
  then show ?thesis unfolding v_def [symmetric] by (simp add: distrib_right)
qed

section \<open>Properties of times, timestamps and intervals\<close>

text \<open>
  A finite timestamp splits into its day and the microseconds of the day by division that rounds
  down, before the epoch too, or raises an error exactly when it is before the first moment whose day
  can be multiplied out in 64 bits; and a day and a time of day make up a timestamp exactly when that
  timestamp splits into them.
\<close>

theorem timestamp_split:
  assumes "fits_int64 ts" "Timestamp_IsFinite ts"
  shows "Timestamp_Convert ts =
      (if - 9223372022400000000 \<le> ts then Inr (ts div 86400000000, ts mod 86400000000)
       else Inl (ConversionException ''Date out of range in timestamp conversion'')) \<and>
    (0 \<le> t \<and> t < 86400000000 \<longrightarrow> (TryFromDatetime d t = Some ts \<longleftrightarrow> Timestamp_Convert ts = Inr (d, t)))"
  using assms Timestamp_Convert_eq [OF assms(2,1)] TryFromDatetime_iff [of t d ts]
  by (auto simp: TIMESTAMP_MIN_def MICROS_PER_DAY_eq)

theorem timestamp_split_witness:
  "Timestamp_Convert (- 1) = Inr (- 1, 86399999999) \<and> TryFromDatetime (- 1) 86399999999 = Some (- 1)"
proof -
  have "fits_int64 (- 1)" "Timestamp_IsFinite (- 1)"
    by (simp_all add: fits_int64_def Timestamp_IsFinite_def timestamp_infinity_def timestamp_ninfinity_def)
  from timestamp_split [OF this, of 86399999999 "- 1"] show ?thesis by simp
qed

text \<open>
  Adding the difference of two timestamps to the second gives the first, for all timestamps that
  can be split, whatever their order and whether the time of day has to carry into the day; the
  difference is an error exactly when it does not fit in 64 bits.
\<close>

theorem difference_roundtrip:
  assumes "fits_int64 a" "Timestamp_IsFinite a" "- 9223372022400000000 \<le> a"
    and "fits_int64 b" "Timestamp_IsFinite b" "- 9223372022400000000 \<le> b"
  shows "(if fits_int64 (a - b) then \<exists>i. GetDifference a b = Inr i \<and> Add_timestamp b i = Inr a
    else GetDifference a b = Inl (ConversionException ''Timestamp difference is out of bounds''))"
proof (cases "fits_int64 (a - b)")
  case True
  then have "GetDifference a b = Inr (FromMicro (a - b))"
    using assms(2,5) by (simp add: GetDifference_def TrySubtract_int64_def)
  moreover from this have "Add_timestamp b (FromMicro (a - b)) = Inr a"
    using assms by (intro difference_added) (simp_all add: TIMESTAMP_MIN_def)
  ultimately show ?thesis using True by simp
next
  case False
  then show ?thesis using assms(2,5) by (simp add: GetDifference_def TrySubtract_int64_def)
qed

theorem difference_roundtrip_witness:
  "\<exists>i. GetDifference (- 5) 90000000000 = Inr i \<and> Add_timestamp 90000000000 i = Inr (- 5)"
  using difference_roundtrip [of "- 5" 90000000000]
  by (simp add: fits_int64_def Timestamp_IsFinite_def timestamp_infinity_def timestamp_ninfinity_def)

text \<open>
  Adding months to a date moves it by exactly that many months, forwards and backwards across
  years, and clips the day to the length of the month reached (leap years by the Gregorian rule); it
  fails exactly when that calendar date is no date. No other interval field takes part.
\<close>

theorem add_months_clips:
  assumes "date_ninfinity < d" "d < date_infinity" "n \<noteq> 0" "Convert d = (y, m, dd)"
  defines "k \<equiv> y * 12 + (m - 1) + n"
  shows "(case Add_date d \<lparr>i_months = n, i_days = 0, i_micros = 0\<rparr> of
      Inr r \<Rightarrow> Convert r = (k div 12, k mod 12 + 1, min dd (month_length (k div 12) (k mod 12 + 1)))
    | Inl e \<Rightarrow> \<not> IsValid (k div 12) (k mod 12 + 1) (min dd (month_length (k div 12) (k mod 12 + 1))))"
proof -
  let ?Y = "k div 12" and ?M = "k mod 12 + 1"
  let ?D = "min dd (month_length ?Y ?M)"
  have add: "add_months d n = FromDate ?Y ?M ?D" unfolding k_def by (rule add_months_eq [OF assms(4)])
  have fin: "Date_IsFinite d" using assms(1,2) by (simp add: Date_IsFinite_def)
  show ?thesis
  proof (cases "IsValid ?Y ?M ?D")
    case True
    then have r: "add_months d n = Inr (day_number ?Y ?M ?D)" by (simp add: add FromDate_def TryFromDate_eq)
    have "Date_IsFinite (day_number ?Y ?M ?D)" and cal: "calendar_date ?Y ?M ?D"
      using True by (auto simp: IsValid_eq Date_IsFinite_def date_infinity_def date_ninfinity_def)
    then have "Add_date d \<lparr>i_months = n, i_days = 0, i_micros = 0\<rparr> = Inr (day_number ?Y ?M ?D)"
      using r fin assms(3) by (simp add: Add_date_def)
    then show ?thesis using Convert_inverse [OF cal] by simp
  next
    case False
    then have "add_months d n = Inl (ConversionException ''Date out of range: %d-%d-%d'')"
      by (simp add: add FromDate_def TryFromDate_eq)
    then show ?thesis using False fin assms(3) by (simp add: Add_date_def)
  qed
qed

theorem add_months_clips_witness:
  "Convert 11016 = (2000, 2, 29) \<and> Add_date 11016 \<lparr>i_months = 12, i_days = 0, i_micros = 0\<rparr> = Inr 11381 \<and>
   Convert 11381 = (2001, 2, 28)"
proof -
  have c: "Convert 11016 = (2000, 2, 29)"
    using Convert_inverse [of 2000 2 29] month_start_next [of 1 2000]
    by (simp add: calendar_date_def month_length_def leap_def day_number_def year_start_def month_start_def)
  have l: "min 29 (month_length 2001 2) = 28" by (simp add: month_length_def leap_def)
  have n: "day_number 2001 2 28 = 11381" using month_start_next [of 1 2001]
    by (simp add: month_length_def leap_def day_number_def year_start_def month_start_def)
  have v: "IsValid 2001 2 28" by (simp add: IsValid_eq n calendar_date_def month_length_def leap_def)
  note clip = add_months_clips [OF _ _ _ c, of 12, unfolded date_infinity_def date_ninfinity_def]
  have "add_months 11016 12 = Inr 11381"
    using add_months_eq [OF c, of 12] by (simp add: l v n FromDate_def TryFromDate_eq)
  then have a: "Add_date 11016 \<lparr>i_months = 12, i_days = 0, i_micros = 0\<rparr> = Inr 11381"
    by (simp add: Add_date_def Date_IsFinite_def date_infinity_def date_ninfinity_def)
  with clip c l show ?thesis by simp
qed

text \<open>
  Intervals without negative fields are ordered by their length with months of 30 days: greater,
  equal and less are those of the total number of microseconds, although the comparison only carries
  from the lower fields and never computes the total (which need not fit).
\<close>

theorem interval_order:
  assumes "0 \<le> i_days a" "0 \<le> i_micros a" "0 \<le> i_days b" "0 \<le> i_micros b"
  shows "(interval_greater a b \<longleftrightarrow> interval_total a > interval_total b) \<and>
    (interval_eq a b \<longleftrightarrow> interval_total a = interval_total b) \<and>
    (interval_less a b \<longleftrightarrow> interval_total a < interval_total b)"
  using interval_greater_total [OF assms] interval_greater_total [OF assms(3,4,1,2)]
  by (auto simp: interval_eq_greater interval_less_def)

theorem interval_order_witness:
  "interval_eq \<lparr>i_months = 1, i_days = 1, i_micros = 0\<rparr> \<lparr>i_months = 0, i_days = 30, i_micros = 86400000000\<rparr>"
  using interval_order [of "\<lparr>i_months = 1, i_days = 1, i_micros = 0\<rparr>" "\<lparr>i_months = 0, i_days = 30, i_micros = 86400000000\<rparr>"]
  by (simp add: interval_total_def DAYS_PER_MONTH_def MICROS_PER_DAY_eq)

text \<open>
  A time with an offset keeps both in its 64 bits, and the order of the packed words is the order
  of the moments they denote in UTC, with the larger offset first among equal moments.
\<close>

theorem time_tz_order:
  assumes "0 \<le> t" "t < 2 ^ 38" "\<bar>off\<bar> \<le> MAX_OFFSET" "0 \<le> u" "u < 2 ^ 38" "\<bar>off'\<bar> \<le> MAX_OFFSET"
  shows "tz_time (dtime_tz t off) = t \<and> tz_offset (dtime_tz t off) = off \<and>
    (tz_less (dtime_tz t off) (dtime_tz u off') \<longleftrightarrow>
       t - off * 1000000 < u - off' * 1000000 \<or> t - off * 1000000 = u - off' * 1000000 \<and> off' < off)"
proof -
  have "tz_less (dtime_tz t off) (dtime_tz u off') \<longleftrightarrow>
    (t + (MAX_OFFSET - off) * 1000000) * 2 ^ 24 + (MAX_OFFSET - off) < (u + (MAX_OFFSET - off') * 1000000) * 2 ^ 24 + (MAX_OFFSET - off')"
    unfolding tz_less_def word_less_def tz_sort_key_uint [OF assms(1-3)] tz_sort_key_uint [OF assms(4-6)] by (rule refl)
  also have "\<dots> \<longleftrightarrow> t + (MAX_OFFSET - off) * 1000000 < u + (MAX_OFFSET - off') * 1000000 \<or>
    t + (MAX_OFFSET - off) * 1000000 = u + (MAX_OFFSET - off') * 1000000 \<and> MAX_OFFSET - off < MAX_OFFSET - off'"
    using assms by (intro lexicographic_total) (simp_all add: MAX_OFFSET_def)
  also have "\<dots> \<longleftrightarrow> t - off * 1000000 < u - off' * 1000000 \<or> t - off * 1000000 = u - off' * 1000000 \<and> off' < off"
    by auto
  finally show ?thesis using dtime_tz_parts [OF assms(1-3)] by simp
qed

theorem time_tz_order_witness:
  "tz_less (dtime_tz 0 3600) (dtime_tz 0 0)"
  using time_tz_order [of 0 3600 0 0] by (simp add: MAX_OFFSET_def)

text \<open>
  Rounding to a coarser unit rounds to the nearest multiple, halves away from the epoch, on both
  sides of it, for every even unit.
\<close>

theorem epoch_rounded:
  assumes "0 < s"
  shows "GetEpochRounded ts (2 * s) = sgn ts * ((\<bar>ts\<bar> + s) div (2 * s))"
  using assms by (rule GetEpochRounded_eq)

theorem epoch_rounded_witness: "GetEpochRounded (- 1500) 1000 = - 2 \<and> GetEpochRounded (- 1499) 1000 = - 1"
  using epoch_rounded [of 500 "- 1500"] epoch_rounded [of 500 "- 1499"] by simp

text \<open>
  The two conversions to nanoseconds have each other's factor: milliseconds are multiplied by the
  nanoseconds of a microsecond, microseconds by those of a millisecond.
\<close>

theorem epoch_nanos_swapped:
  assumes "fits_int64 (x * 1000000)" "x \<noteq> 0"
  shows "TimestampNsFromEpochMillis x = Inr (x * 1000) \<and> TimestampNsFromEpochMicros x = Inr (x * 1000000) \<and>
    TimestampNsFromEpochMillis x \<noteq> Inr (x * 1000000)"
  using assms by (auto simp: TimestampNsFromEpochMillis_def TimestampNsFromEpochMicros_def TryMultiply_int64_def
      fits_int64_def NANOS_PER_MICRO_def NANOS_PER_MSEC_def MICROS_PER_MSEC_def)

theorem epoch_nanos_swapped_witness: "TimestampNsFromEpochMillis 1 = Inr 1000"
  using epoch_nanos_swapped [of 1] by (simp add: fits_int64_def)

text \<open>A date can be moved below the negative infinity: the sum is compared with the two infinities only.\<close>

lemma date_below_infinity:
  "Add_date (- 2147483646) \<lparr>i_months = 0, i_days = - 2, i_micros = 0\<rparr> = Inr (- 2147483648)"
  by (simp add: Add_date_def Date_IsFinite_def TryAdd_int32_def date_infinity_def date_ninfinity_def)

end
