(* ===== verification/Decimal_Text.thy ===== *)
theory Decimal_Text
  imports Prelude
begin

text \<open>
  Characters and decimal digits: the character predicates of \<open>common/string_util.hpp\<close>, the digit
  table of the formatting library and \<open>NumericHelper::FormatUnsigned\<close> of
  \<open>common/types/cast_helpers.hpp\<close>, which writes two digits at a time from the end of the buffer. A
  buffer that is filled from its end is a list that grows at the front. The reference for all number
  formatting is \<open>decimal\<close>, one digit at a time, with its value and its length.
\<close>

section \<open>Characters\<close>

definition CharacterIsSpace :: "char \<Rightarrow> bool" where
  "CharacterIsSpace c \<longleftrightarrow> of_char c \<in> {32 :: nat, 9, 10, 11, 12, 13}"

definition CharacterIsDigit :: "char \<Rightarrow> bool" where
  "CharacterIsDigit c \<longleftrightarrow> (48 :: nat) \<le> of_char c \<and> of_char c \<le> (57 :: nat)"

definition CharacterToLower :: "char \<Rightarrow> char" where
  "CharacterToLower c =
     (if (65 :: nat) \<le> of_char c \<and> of_char c \<le> (90 :: nat) then char_of (of_char c + 32 :: nat) else c)"

definition digit_value :: "char \<Rightarrow> int" where
  "digit_value c = of_char c - 48"

fun skip_spaces :: "string \<Rightarrow> string" where
  "skip_spaces [] = []"
| "skip_spaces (c # cs) = (if CharacterIsSpace c then skip_spaces cs else c # cs)"

section \<open>Formatting numbers\<close>

definition digits :: string where
  "digits =
    ''0001020304050607080910111213141516171819'' @
    ''2021222324252627282930313233343536373839'' @
    ''4041424344454647484950515253545556575859'' @
    ''6061626364656667686970717273747576777879'' @
    ''8081828384858687888990919293949596979899''"

function FormatUnsigned :: "nat \<Rightarrow> string \<Rightarrow> string" where
  "FormatUnsigned value ptr =
     (if value \<ge> 100 then
        let index = (value mod 100) * 2
        in FormatUnsigned (value div 100) (digits ! index # digits ! (index + 1) # ptr)
      else if value < 10 then char_of (48 + value) # ptr
      else let index = value * 2 in digits ! index # digits ! (index + 1) # ptr)"
  by pat_completeness auto
termination
  by (relation "measure fst") auto

declare FormatUnsigned.simps [simp del]

definition FormatTwoDigits :: "nat \<Rightarrow> string" where
  "FormatTwoDigits value =
     (if value < 10 then [CHR ''0'', char_of (48 + value)]
      else let index = value * 2 in [digits ! index, digits ! (index + 1)])"

section \<open>Numbers as digits\<close>

text \<open>The reference: one decimal digit at a time.\<close>

definition digit_char :: "nat \<Rightarrow> char" where
  "digit_char k = char_of (48 + k)"

fun decimal :: "nat \<Rightarrow> string" where
  "decimal n = (if n < 10 then [digit_char n] else decimal (n div 10) @ [digit_char (n mod 10)])"

declare decimal.simps [simp del]

definition digits_value :: "int \<Rightarrow> string \<Rightarrow> int" where
  "digits_value = foldl (\<lambda>a c. digit_value c + a * 10)"

lemma digits_value_simps [simp]:
  "digits_value a [] = a"
  "digits_value a (c # cs) = digits_value (digit_value c + a * 10) cs"
  "digits_value a (xs @ ys) = digits_value (digits_value a xs) ys"
  by (simp_all add: digits_value_def)

lemma digit_char_digit [simp]:
  assumes "k < 10"
  shows "CharacterIsDigit (digit_char k)" "digit_value (digit_char k) = int k" "\<not> CharacterIsSpace (digit_char k)"
    "digit_char k \<noteq> CHR ''-''" "digit_char k \<noteq> CHR ''(''" "digit_char k \<noteq> CHR ''.''"
proof -
  have "(of_char (digit_char k) :: nat) = 48 + k" using assms by (simp add: digit_char_def)
  moreover from this have "(of_char (digit_char k) :: int) = 48 + int k" by (metis of_nat_of_char of_nat_add of_nat_numeral)
  ultimately show "CharacterIsDigit (digit_char k)" "digit_value (digit_char k) = int k"
    "\<not> CharacterIsSpace (digit_char k)" "digit_char k \<noteq> CHR ''-''" "digit_char k \<noteq> CHR ''(''" "digit_char k \<noteq> CHR ''.''"
    using assms by (auto simp: CharacterIsDigit_def digit_value_def CharacterIsSpace_def)
qed

lemma digit_char_0: "CHR ''0'' = digit_char 0" "char_of (48 + k) = digit_char k"
  by (simp_all add: digit_char_def char_of_def bit_0)

lemma digits_table: "\<forall>k \<in> set [0..<100]. digits ! (k * 2) = digit_char (k div 10) \<and> digits ! (k * 2 + 1) = digit_char (k mod 10)"
  by code_simp

lemma digits_nth:
  "k < 100 \<Longrightarrow> digits ! (k * 2) = digit_char (k div 10)" "k < 100 \<Longrightarrow> digits ! Suc (k * 2) = digit_char (k mod 10)"
  using digits_table by auto

lemma FormatUnsigned_decimal: "FormatUnsigned v ptr = decimal v @ ptr"
proof (induction v ptr rule: FormatUnsigned.induct)
  case (1 v ptr)
  show ?case
  proof (cases "v \<ge> 100")
    case True
    have "v div 10 \<ge> 10" using True by simp
    then have "decimal v = decimal (v div 100) @ [digit_char (v div 10 mod 10), digit_char (v mod 10)]"
      using True by (simp add: decimal.simps [of v] decimal.simps [of "v div 10"] div_mult2_eq [symmetric])
    moreover have "v mod 100 div 10 = v div 10 mod 10" "v mod 100 mod 10 = v mod 10"
      by (simp_all add: mod_mult2_eq [of v 10 10, simplified] mod_mod_cancel)
    ultimately show ?thesis
      using 1 [OF True refl] True digits_nth [of "v mod 100"] by (simp add: FormatUnsigned.simps [of v])
  next
    case False
    then show ?thesis using digits_nth [of v]
      by (auto simp: FormatUnsigned.simps [of v] decimal.simps [of v] decimal.simps [of "v div 10"] digit_char_0 Let_def)
  qed
qed

lemma decimal_digits: "c \<in> set (decimal n) \<Longrightarrow> CharacterIsDigit c"
proof (induction n rule: decimal.induct)
  case (1 n)
  then show ?case by (cases "n < 10") (auto simp: decimal.simps [of n])
qed

lemma decimal_not_Nil [simp]: "decimal n \<noteq> []"
  by (simp add: decimal.simps [of n])

lemma decimal_value: "digits_value 0 (decimal n) = int n"
proof (induction n rule: decimal.induct)
  case (1 n)
  then show ?case
    by (cases "n < 10") (simp_all add: decimal.simps [of n] zdiv_int zmod_int)
qed

lemma decimal_length: "length (decimal n) \<le> Suc k \<longleftrightarrow> n < 10 ^ Suc k"
proof (induction k arbitrary: n)
  case 0
  show ?case by (cases "n < 10") (simp_all add: decimal.simps [of n] Suc_le_eq)
next
  case (Suc k)
  have "n div 10 < 10 ^ Suc k \<longleftrightarrow> n < 10 ^ Suc (Suc k)" by (simp add: div_less_iff_less_mult mult.commute)
  with Suc [of "n div 10"] show ?case
    by (cases "n < 10") (simp_all add: decimal.simps [of n])
qed

lemma FormatTwoDigits_eq: "v < 100 \<Longrightarrow> FormatTwoDigits v = [digit_char (v div 10), digit_char (v mod 10)]"
  using digits_nth [of v] by (auto simp: FormatTwoDigits_def digit_char_0 Let_def)

lemma digit_value_nonneg: "CharacterIsDigit c \<Longrightarrow> 0 \<le> digit_value c"
proof -
  assume "CharacterIsDigit c"
  then have "int 48 \<le> int (of_char c)" unfolding CharacterIsDigit_def by (intro of_nat_mono) simp
  then show ?thesis unfolding digit_value_def of_nat_of_char by simp
qed

lemma digits_value_mono: "\<forall>c \<in> set ds. CharacterIsDigit c \<Longrightarrow> 0 \<le> a \<Longrightarrow> a \<le> digits_value a ds"
proof (induction ds arbitrary: a)
  case (Cons c cs)
  have "0 \<le> digit_value c" using Cons.prems(1) by (simp add: digit_value_nonneg)
  then have "a \<le> digit_value c + a * 10" "0 \<le> digit_value c + a * 10" using Cons.prems(2) by auto
  moreover have "digit_value c + a * 10 \<le> digits_value (digit_value c + a * 10) cs"
    using Cons.prems(1) calculation(2) by (intro Cons.IH) simp_all
  ultimately show ?case by simp
qed simp

end
