(* ===== verification/Date_Text.thy ===== *)
theory Date_Text
  imports Date Decimal_Text
begin

text \<open>
  Reading and printing dates: \<open>DateToStringCast\<close> of \<open>common/types/cast_helpers.hpp\<close>, and the text functions of
  \<open>common/types/date.cpp\<close>. A buffer with a position is the list of the characters from the position
  on, so that \<open>pos < len\<close> is that the list is not empty; the position a reader reports is given by the
  rest it leaves. A buffer that is filled from its end is a list that grows at the front.
\<close>

section \<open>Printing a date\<close>

text \<open>The length of the text, the year as it is printed, the number of its characters, and the suffix flag.\<close>

definition YearLength :: "int \<Rightarrow> nat \<times> int \<times> nat \<times> bool" where
  "YearLength year0 =
     (let add_bc = (year0 \<le> 0);
          year = (if add_bc then - year0 + 1 else year0);
          ylen = 4 + (if year \<ge> 10000 then 1 else 0) + (if year \<ge> 100000 then 1 else 0)
            + (if year \<ge> 1000000 then 1 else 0) + (if year \<ge> 10000000 then 1 else 0)
      in (6 + (if add_bc then 5 else 0) + ylen, year, ylen, add_bc))"

definition FormatComponent :: "int \<Rightarrow> string" where
  "FormatComponent number =
     (if number < 10 then [CHR ''-'', CHR ''0'', char_of (48 + nat number)]
      else let index = nat number * 2 in [CHR ''-'', digits ! index, digits ! (index + 1)])"

text \<open>The year's digits are written backwards from the end of its field, the rest of the field is filled with zeros.\<close>

definition Date_Format :: "int \<Rightarrow> int \<Rightarrow> int \<Rightarrow> nat \<Rightarrow> bool \<Rightarrow> string" where
  "Date_Format year month day ylen add_bc =
     (let ds = FormatUnsigned (nat year) []
      in replicate (ylen - length ds) CHR ''0'' @ ds @ FormatComponent month @ FormatComponent day @
         (if add_bc then '' (BC)'' else ''''))"

type_synonym date_special = "string \<times> nat"

definition PINF :: date_special where "PINF = (''infinity'', 3)"
definition NINF :: date_special where "NINF = (''-infinity'', 4)"
definition EPOCH :: date_special where "EPOCH = (''epoch'', 5)"

definition Date_ToString :: "date_t \<Rightarrow> string" where
  "Date_ToString d =
     (if d = date_infinity then fst PINF
      else if d = date_ninfinity then fst NINF
      else
        let (year, month, day) = Convert d;
            (len, year', ylen, add_bc) = YearLength year
        in Date_Format year' month day ylen add_bc)"

definition Date_FormatYMD :: "int \<Rightarrow> int \<Rightarrow> int \<Rightarrow> string result" where
  "Date_FormatYMD year month day =
     (case FromDate year month day of Inl e \<Rightarrow> Inl e | Inr d \<Rightarrow> Inr (Date_ToString d))"

section \<open>Reading a date\<close>

fun ParseDoubleDigit :: "string \<Rightarrow> (int \<times> string) option" where
  "ParseDoubleDigit [] = None"
| "ParseDoubleDigit (c # cs) =
     (if CharacterIsDigit c then
        (case cs of
           [] \<Rightarrow> Some (digit_value c, [])
         | c' # cs' \<Rightarrow>
             if CharacterIsDigit c' then Some (digit_value c' + digit_value c * 10, cs')
             else Some (digit_value c, cs))
      else None)"

text \<open>The comparison stops at the end of the buffer or of the word.\<close>

fun special_loop :: "string \<Rightarrow> string \<Rightarrow> (string \<times> string) option" where
  "special_loop (c # cs) (x # xs) = (if CharacterToLower c \<noteq> x then None else special_loop cs xs)"
| "special_loop cs xs = Some (cs, xs)"

definition TryConvertDateSpecial :: "string \<Rightarrow> date_special \<Rightarrow> string option" where
  "TryConvertDateSpecial buf s =
     (case special_loop buf (fst s) of
        None \<Rightarrow> None
      | Some (rest, special) \<Rightarrow>
          if special \<noteq> [] \<and> length buf - length rest \<noteq> snd s then None else Some rest)"

text \<open>The digits of the year, their number, and the rest; \<open>None\<close> is the range error.\<close>

fun year_loop :: "string \<Rightarrow> int \<Rightarrow> nat \<Rightarrow> (int \<times> nat \<times> string) option" where
  "year_loop [] year n = Some (year, n, [])"
| "year_loop (c # cs) year n =
     (if CharacterIsDigit c then
        if year \<ge> 100000000 then None
        else year_loop cs (digit_value c + year * 10) (Suc n)
      else Some (year, n, c # cs))"

datatype DateCastResult =
    DATE_SUCCESS date_t bool string
  | DATE_INCORRECT_FORMAT
  | DATE_RANGE

text \<open>The optional suffix \<open>(BC)\<close> with its leading space.\<close>

definition bc_suffix :: "string \<Rightarrow> bool" where
  "bc_suffix s \<longleftrightarrow> 5 \<le> length s \<and> CharacterIsSpace (s ! 0) \<and> s ! 1 = CHR ''('' \<and>
     CharacterToLower (s ! 2) = CHR ''b'' \<and> CharacterToLower (s ! 3) = CHR ''c'' \<and> s ! 4 = CHR '')''"

text \<open>The part after the day: the suffix, the check of the rest, the conversion.\<close>

definition date_tail :: "bool \<Rightarrow> bool \<Rightarrow> int \<Rightarrow> int \<Rightarrow> int \<Rightarrow> string \<Rightarrow> DateCastResult" where
  "date_tail strict yearneg year0 month day s0 =
     (if bc_suffix s0 \<and> (yearneg \<or> year0 = 0) then DATE_INCORRECT_FORMAT
      else
        let (year, s1) = (if bc_suffix s0 then (- year0 + 1, drop 5 s0) else (year0, s0));
            s2 = (if strict then skip_spaces s1 else s1)
        in if strict \<and> s2 \<noteq> [] then DATE_INCORRECT_FORMAT
           else if \<not> strict \<and> s2 \<noteq> [] \<and> CharacterIsDigit (hd s2) then DATE_INCORRECT_FORMAT
           else (case TryFromDate year month day of
                   Some d \<Rightarrow> DATE_SUCCESS d False s2 | None \<Rightarrow> DATE_RANGE))"

definition date_fields :: "bool \<Rightarrow> bool \<Rightarrow> string \<Rightarrow> DateCastResult" where
  "date_fields strict yearneg s0 =
     (case year_loop s0 0 0 of
        None \<Rightarrow> DATE_RANGE
      | Some (year0, ylen, s1) \<Rightarrow>
          if ylen < 2 \<and> strict then DATE_INCORRECT_FORMAT
          else
            let year = (if yearneg then - year0 else year0) in
            (case s1 of
               [] \<Rightarrow> DATE_INCORRECT_FORMAT
             | sep # s2 \<Rightarrow>
                 if sep \<notin> {CHR '' '', CHR ''-'', CHR ''/'', CHR 0x5C} then DATE_INCORRECT_FORMAT
                 else
                   (case ParseDoubleDigit s2 of
                      None \<Rightarrow> DATE_INCORRECT_FORMAT
                    | Some (month, s3) \<Rightarrow>
                        (case s3 of
                           [] \<Rightarrow> DATE_INCORRECT_FORMAT
                         | c # s4 \<Rightarrow>
                             if c \<noteq> sep then DATE_INCORRECT_FORMAT
                             else if s4 = [] then DATE_INCORRECT_FORMAT
                             else
                               (case ParseDoubleDigit s4 of
                                  None \<Rightarrow> DATE_INCORRECT_FORMAT
                                | Some (day, s5) \<Rightarrow> date_tail strict yearneg year month day s5)))))"

definition TryConvertDate :: "bool \<Rightarrow> string \<Rightarrow> DateCastResult" where
  "TryConvertDate strict buf =
     (case skip_spaces buf of
        [] \<Rightarrow> DATE_INCORRECT_FORMAT
      | c # cs \<Rightarrow>
          let yearneg = (c = CHR ''-''); s = (if yearneg then cs else c # cs) in
          if s = [] then DATE_INCORRECT_FORMAT
          else if \<not> CharacterIsDigit (hd s) then
            (case (case TryConvertDateSpecial s PINF of
                     Some rest \<Rightarrow> Some (if yearneg then date_ninfinity else date_infinity, rest)
                   | None \<Rightarrow> (case TryConvertDateSpecial s EPOCH of
                       Some rest \<Rightarrow> Some (date_epoch, rest)
                     | None \<Rightarrow> None)) of
               None \<Rightarrow> DATE_INCORRECT_FORMAT
             | Some (d, rest) \<Rightarrow>
                 (if skip_spaces rest = [] then DATE_SUCCESS d True [] else DATE_INCORRECT_FORMAT))
          else date_fields strict yearneg s)"

definition Date_FromCString :: "bool \<Rightarrow> string \<Rightarrow> date_t result" where
  "Date_FromCString strict buf =
     (case TryConvertDate strict buf of
        DATE_INCORRECT_FORMAT \<Rightarrow> Inl (ConversionException ''invalid date field format, expected format is (YYYY-MM-DD)'')
      | DATE_RANGE \<Rightarrow> Inl (ConversionException ''date field value out of range'')
      | DATE_SUCCESS d special rest \<Rightarrow> Inr d)"

section \<open>Components of a printed date\<close>

lemma FormatComponent_eq:
  "0 \<le> n \<Longrightarrow> n < 100 \<Longrightarrow> FormatComponent n = CHR ''-'' # FormatTwoDigits (nat n)"
  by (auto simp: FormatComponent_def FormatTwoDigits_def digit_char_0 Let_def)

lemma ParseDoubleDigit_two:
  assumes "v < 100" shows "ParseDoubleDigit (FormatTwoDigits v @ rest) = Some (int v, rest)"
proof -
  have "v div 10 < 10" "v mod 10 < 10" using assms by auto
  then show ?thesis using assms by (simp add: FormatTwoDigits_eq zdiv_int zmod_int)
qed

lemma year_loop_digits:
  assumes "\<forall>c \<in> set ds. CharacterIsDigit c" "0 \<le> y" "digits_value y ds < 1000000000"
    and "rest = [] \<or> \<not> CharacterIsDigit (hd rest)"
  shows "year_loop (ds @ rest) y n = Some (digits_value y ds, n + length ds, rest)"
  using assms
proof (induction ds arbitrary: y n)
  case Nil
  then show ?case by (cases rest) auto
next
  case (Cons c cs)
  have c: "CharacterIsDigit c" "0 \<le> digit_value c" using Cons.prems(1) by (simp_all add: digit_value_nonneg)
  then have "digit_value c + y * 10 \<le> digits_value (digit_value c + y * 10) cs"
    using Cons.prems(1,2) by (intro digits_value_mono) auto
  then have "y < 100000000" using Cons.prems(3) c by simp
  with c Cons show ?case by simp
qed

section \<open>Printed dates are read back\<close>

text \<open>The year as it is printed has at most as many digits as its field.\<close>

lemma YearLength_eq:
  assumes "\<bar>y\<bar> < 9999999"
  shows "\<exists>ylen. YearLength y = (6 + (if y \<le> 0 then 5 else 0) + ylen, if y \<le> 0 then 1 - y else y, ylen, y \<le> 0) \<and>
    4 \<le> ylen \<and> length (decimal (nat (if y \<le> 0 then 1 - y else y))) \<le> ylen"
proof -
  define Y where "Y = (if y \<le> 0 then 1 - y else y)"
  have Y: "0 < Y" "Y < 10000000" using assms by (auto simp: Y_def)
  define l where "l = (4 + (if Y \<ge> 10000 then 1 else 0) + (if Y \<ge> 100000 then 1 else 0)
    + (if Y \<ge> 1000000 then 1 else 0) + (if Y \<ge> 10000000 then 1 else 0) :: nat)"
  have "YearLength y = (6 + (if y \<le> 0 then 5 else 0) + l, Y, l, y \<le> 0)"
    by (simp add: YearLength_def Y_def l_def Let_def)
  moreover have "length (decimal (nat Y)) \<le> l"
  proof -
    consider "Y < 10000" | "10000 \<le> Y" "Y < 100000" | "100000 \<le> Y" "Y < 1000000" | "1000000 \<le> Y" by linarith
    then show ?thesis
    proof cases
      case 1
      then show ?thesis using decimal_length [of "nat Y" 3] by (simp add: l_def nat_less_iff)
    next
      case 2
      then show ?thesis using decimal_length [of "nat Y" 4] by (simp add: l_def nat_less_iff)
    next
      case 3
      then show ?thesis using decimal_length [of "nat Y" 5] by (simp add: l_def nat_less_iff)
    next
      case 4
      then show ?thesis using Y decimal_length [of "nat Y" 6] by (simp add: l_def nat_less_iff)
    qed
  qed
  moreover have "4 \<le> l" by (simp add: l_def)
  ultimately show ?thesis unfolding Y_def by blast
qed

definition year_field :: "nat \<Rightarrow> nat \<Rightarrow> string" where
  "year_field width v = replicate (width - length (decimal v)) (digit_char 0) @ decimal v"

lemma year_field_digits: "c \<in> set (year_field width v) \<Longrightarrow> CharacterIsDigit c"
  by (auto simp: year_field_def decimal_digits)

lemma year_field_value: "digits_value 0 (year_field width v) = int v"
proof -
  have "digits_value 0 (replicate k (digit_char 0)) = 0" for k by (induction k) auto
  then show ?thesis by (simp add: year_field_def decimal_value)
qed

lemma year_field_length: "length (decimal v) \<le> width \<Longrightarrow> length (year_field width v) = width"
  by (simp add: year_field_def)

lemma Date_Format_eq:
  assumes "0 \<le> month" "month < 100" "0 \<le> day" "day < 100"
  shows "Date_Format year month day width add_bc =
    year_field width (nat year) @ CHR ''-'' # FormatTwoDigits (nat month) @ CHR ''-'' # FormatTwoDigits (nat day) @
    (if add_bc then '' (BC)'' else '''')"
  using assms by (simp add: Date_Format_def FormatUnsigned_decimal FormatComponent_eq year_field_def digit_char_0 Let_def)

lemma lower_BC [simp]: "CharacterToLower CHR ''B'' = CHR ''b''" "CharacterToLower CHR ''C'' = CHR ''c''"
  by code_simp+

lemma bc_suffix_BC: "bc_suffix ('' (BC)'' @ rest)"
  by (simp add: bc_suffix_def CharacterIsSpace_def)

text \<open>What may follow a date: not a digit and not a suffix of its own.\<close>

definition date_rest :: "string \<Rightarrow> bool" where
  "date_rest r \<longleftrightarrow> (r = [] \<or> \<not> CharacterIsDigit (hd r)) \<and> \<not> bc_suffix r"

lemma skip_spaces_digit: "CharacterIsDigit c \<Longrightarrow> skip_spaces (c # cs) = c # cs"
  by (auto simp: CharacterIsDigit_def CharacterIsSpace_def)

lemma date_tail_printed:
  assumes "date_rest r" "strict \<Longrightarrow> r = []" "TryFromDate y m d = Some n"
  shows "date_tail strict False (if y \<le> 0 then 1 - y else y) m d ((if y \<le> 0 then '' (BC)'' else '''') @ r) =
    DATE_SUCCESS n False r"
proof (cases "y \<le> 0")
  case True
  then show ?thesis using assms bc_suffix_BC [of r] by (auto simp: date_tail_def date_rest_def Let_def)
next
  case False
  then show ?thesis using assms by (auto simp: date_tail_def date_rest_def Let_def)
qed

lemma date_fields_printed:
  assumes valid: "TryFromDate y m d = Some n" "1 \<le> m" "m < 100" "1 \<le> d" "d < 100"
    and year: "Y = (if y \<le> 0 then 1 - y else y)" "Y < 10000000"
    and width: "4 \<le> width" "length (decimal (nat Y)) \<le> width"
    and rest: "date_rest r" "strict \<Longrightarrow> r = []"
  shows "date_fields strict False (Date_Format Y m d width (y \<le> 0) @ r) = DATE_SUCCESS n False r"
proof -
  let ?s1 = "CHR ''-'' # FormatTwoDigits (nat m) @ CHR ''-'' # FormatTwoDigits (nat d) @
    (if y \<le> 0 then '' (BC)'' else '''') @ r"
  have Y: "0 < Y" using year(1) by auto
  have shown: "Date_Format Y m d width (y \<le> 0) @ r = year_field width (nat Y) @ ?s1"
    using valid by (simp add: Date_Format_eq)
  have all: "\<forall>c \<in> set (year_field width (nat Y)). CharacterIsDigit c" by (simp add: year_field_digits)
  have dash: "\<not> CharacterIsDigit CHR ''-''" by (simp add: CharacterIsDigit_def)
  have "year_loop (year_field width (nat Y) @ ?s1) 0 0 = Some (Y, width, ?s1)"
    using Y year(2) width
    by (subst year_loop_digits) (simp_all add: all dash year_field_value year_field_length)
  moreover have "ParseDoubleDigit (FormatTwoDigits (nat m) @ CHR ''-'' # FormatTwoDigits (nat d) @
      (if y \<le> 0 then '' (BC)'' else '''') @ r) =
    Some (m, CHR ''-'' # FormatTwoDigits (nat d) @ (if y \<le> 0 then '' (BC)'' else '''') @ r)"
    using valid by (subst ParseDoubleDigit_two) simp_all
  moreover have "ParseDoubleDigit (FormatTwoDigits (nat d) @ (if y \<le> 0 then '' (BC)'' else '''') @ r) =
    Some (d, (if y \<le> 0 then '' (BC)'' else '''') @ r)"
    using valid by (subst ParseDoubleDigit_two) simp_all
  moreover have "FormatTwoDigits (nat d) \<noteq> []" using valid by (simp add: FormatTwoDigits_eq)
  moreover have "date_tail strict False Y m d ((if y \<le> 0 then '' (BC)'' else '''') @ r) = DATE_SUCCESS n False r"
    unfolding year(1) by (rule date_tail_printed [OF rest valid(1)])
  ultimately show ?thesis using width(1) unfolding shown date_fields_def by simp
qed

lemma Date_ToString_finite:
  assumes "date_ninfinity < d" "d < date_infinity"
  obtains y m dd Y width where "Convert d = (y, m, dd)" "TryFromDate y m dd = Some d" "1 \<le> m" "m < 100" "1 \<le> dd" "dd < 100"
    "Y = (if y \<le> 0 then 1 - y else y)" "Y < 10000000" "4 \<le> width" "length (decimal (nat Y)) \<le> width"
    "Date_ToString d = Date_Format Y m dd width (y \<le> 0)"
    "fst (YearLength y) = 6 + (if y \<le> 0 then 5 else 0) + width"
proof -
  obtain y m dd where c: "Convert d = (y, m, dd)" by (metis prod_cases3)
  have cal: "calendar_date y m dd" "day_number y m dd = d" using Convert_day_number [OF c] by auto
  then have conv: "TryFromDate y m dd = Some d" using assms
    by (simp add: TryFromDate_eq IsValid_eq date_infinity_def date_ninfinity_def)
  then have "IsValid y m dd" by (simp add: TryFromDate_eq split: if_splits)
  then have y: "\<bar>y\<bar> < 9999999" by (auto simp: IsValid_def date_consts split: if_splits)
  have md: "1 \<le> m" "m < 100" "1 \<le> dd" "dd < 100" using cal(1) by (auto simp: calendar_date_def month_length_def split: if_splits)
  obtain w where w: "YearLength y = (6 + (if y \<le> 0 then 5 else 0) + w, if y \<le> 0 then 1 - y else y, w, y \<le> 0)"
    "4 \<le> w" "length (decimal (nat (if y \<le> 0 then 1 - y else y))) \<le> w" using YearLength_eq [OF y] by blast
  have "Date_ToString d = Date_Format (if y \<le> 0 then 1 - y else y) m dd w (y \<le> 0)"
    using assms by (simp add: Date_ToString_def c w(1))
  moreover have "(if y \<le> 0 then 1 - y else y) < 10000000" using y by auto
  ultimately show thesis using that [OF c conv md refl _ w(2,3)] w(1) by simp
qed

lemma TryConvertDate_printed:
  assumes "date_ninfinity < d" "d < date_infinity" "date_rest r" "strict \<Longrightarrow> r = []"
  shows "TryConvertDate strict (Date_ToString d @ r) = DATE_SUCCESS d False r"
proof -
  obtain y m dd Y width where s: "TryFromDate y m dd = Some d" "1 \<le> m" "m < 100" "1 \<le> dd" "dd < 100"
    "Y = (if y \<le> 0 then 1 - y else y)" "Y < 10000000" "4 \<le> width" "length (decimal (nat Y)) \<le> width"
    and shown: "Date_ToString d = Date_Format Y m dd width (y \<le> 0)"
    by (rule Date_ToString_finite [OF assms(1,2)]) blast
  have "year_field width (nat Y) \<noteq> []" by (simp add: year_field_def)
  then obtain c cs where f: "year_field width (nat Y) = c # cs" by (meson neq_Nil_conv)
  then have digit: "CharacterIsDigit c" using year_field_digits [of c width "nat Y"] by simp
  then have "c \<noteq> CHR ''-''" by (auto simp: CharacterIsDigit_def)
  moreover obtain tail where t: "Date_Format Y m dd width (y \<le> 0) @ r = c # tail"
    using s f by (simp add: Date_Format_eq)
  moreover have "date_fields strict False (Date_Format Y m dd width (y \<le> 0) @ r) = DATE_SUCCESS d False r"
    by (rule date_fields_printed [OF s assms(3,4)])
  ultimately show ?thesis using digit
    by (simp add: TryConvertDate_def shown skip_spaces_digit Let_def del: skip_spaces.simps)
qed

lemma infinity_text:
  "TryConvertDate strict (Date_ToString date_infinity) = DATE_SUCCESS date_infinity True []"
  "TryConvertDate strict (Date_ToString date_ninfinity) = DATE_SUCCESS date_ninfinity True []"
  by (simp_all add: Date_ToString_def PINF_def NINF_def date_infinity_def date_ninfinity_def TryConvertDate_def
      TryConvertDateSpecial_def CharacterIsSpace_def CharacterIsDigit_def CharacterToLower_def Let_def)

section \<open>Properties of the text form\<close>

text \<open>
  C38. Reading a printed date gives the date back, in strict mode and not: every day count that is a
  date, years before the common era with their suffix and years of more than four digits included, and
  the two infinities, which alone are reported as special; the whole text is consumed.
\<close>

theorem date_text_roundtrip:
  assumes "date_ninfinity \<le> d" "d \<le> date_infinity"
  shows "TryConvertDate strict (Date_ToString d) = DATE_SUCCESS d (d = date_infinity \<or> d = date_ninfinity) []"
proof -
  consider "d = date_infinity" | "d = date_ninfinity" | "date_ninfinity < d" "d < date_infinity"
    using assms by linarith
  then show ?thesis
  proof cases
    case 3
    then show ?thesis using TryConvertDate_printed [of d "[]" strict] by (simp add: date_rest_def bc_suffix_def)
  qed (simp_all add: infinity_text)
qed

theorem date_text_roundtrip_witness:
  "TryConvertDate True (Date_ToString (- 800000)) = DATE_SUCCESS (- 800000) False []"
  using date_text_roundtrip [of "- 800000" True] by (simp add: date_infinity_def date_ninfinity_def)

text \<open>
  The buffer of \<open>DateToStringCast\<close> is allocated with the length \<open>YearLength\<close> computes, and the text
  fills exactly that.
\<close>

lemma Date_ToString_length:
  assumes "date_ninfinity < d" "d < date_infinity"
  shows "length (Date_ToString d) = fst (YearLength (fst (Convert d)))"
proof -
  obtain y m dd Y width where s: "Convert d = (y, m, dd)" "1 \<le> m" "m < 100" "1 \<le> dd" "dd < 100"
    "length (decimal (nat Y)) \<le> width" "Date_ToString d = Date_Format Y m dd width (y \<le> 0)"
    "fst (YearLength y) = 6 + (if y \<le> 0 then 5 else 0) + width"
    by (rule Date_ToString_finite [OF assms]) blast
  then show ?thesis by (simp add: Date_Format_eq FormatTwoDigits_eq year_field_length)
qed

text \<open>The sign before the word \<open>epoch\<close> is accepted and has no effect.\<close>

lemma negative_epoch: "TryConvertDate True ''-epoch'' = DATE_SUCCESS date_epoch True []"
  by (simp add: TryConvertDate_def TryConvertDateSpecial_def PINF_def EPOCH_def CharacterIsSpace_def
      CharacterIsDigit_def CharacterToLower_def Let_def)

end
