(* ===== verification/Temporal_Text.thy ===== *)
theory Temporal_Text
  imports Temporal Date_Text
begin

text \<open>
  Reading and printing times and timestamps: \<open>TimeToStringCast\<close> of \<open>common/types/cast_helpers.hpp\<close> and
  the text functions of \<open>common/types/time.cpp\<close> and \<open>timestamp.cpp\<close>. A buffer with a position is the
  list of the characters that follow, as for dates. The pointer to the nanoseconds is an option: absent,
  or the value it holds.
\<close>

section \<open>Printing\<close>

definition FormatMicros :: "int \<Rightarrow> string" where
  "FormatMicros microseconds =
     (let ds = FormatUnsigned (nat microseconds) [] in replicate (6 - length ds) CHR ''0'' @ ds)"

text \<open>The loop over the positions 5 to 1 of the buffer.\<close>

fun trailing_zeros_loop :: "nat \<Rightarrow> string \<Rightarrow> nat \<Rightarrow> nat" where
  "trailing_zeros_loop 0 micro_buffer n = n"
| "trailing_zeros_loop (Suc i) micro_buffer n =
     (if micro_buffer ! Suc i \<noteq> CHR ''0'' then n else trailing_zeros_loop i micro_buffer (Suc n))"

definition MicrosLength :: "int \<Rightarrow> nat" where
  "MicrosLength micros =
     (if micros = 0 then 8 else 15 - trailing_zeros_loop 5 (FormatMicros micros) 0)"

definition Time_Format :: "nat \<Rightarrow> int \<Rightarrow> int \<Rightarrow> int \<Rightarrow> string \<Rightarrow> string" where
  "Time_Format len hour minute second micro_buffer =
     FormatTwoDigits (nat hour) @ [CHR '':''] @ FormatTwoDigits (nat minute) @ [CHR '':''] @
     FormatTwoDigits (nat second) @ (if len > 8 then CHR ''.'' # take (len - 9) micro_buffer else [])"

definition Time_ToString :: "dtime_t \<Rightarrow> string" where
  "Time_ToString t =
     (let (hour, minute, second, micros) = Time_Convert t
      in Time_Format (MicrosLength micros) hour minute second (FormatMicros micros))"

definition ToUTCOffset :: "int \<Rightarrow> int \<Rightarrow> string" where
  "ToUTCOffset hour_offset minute_offset =
     (let t = (hour_offset * MINS_PER_HOUR + minute_offset) * MICROS_PER_MINUTE;
          (hour, minute, second, micros) = Time_Convert \<bar>t\<bar>
      in (if t < 0 then CHR ''-'' else CHR ''+'') # FormatTwoDigits (nat hour) @
         (if minute \<noteq> 0 then CHR '':'' # FormatTwoDigits (nat minute) else []))"

definition Timestamp_ToString :: "timestamp_t \<Rightarrow> string result" where
  "Timestamp_ToString ts =
     (if ts = timestamp_infinity then Inr (fst PINF)
      else if ts = timestamp_ninfinity then Inr (fst NINF)
      else case Timestamp_Convert ts of Inl e \<Rightarrow> Inl e
        | Inr (d, t) \<Rightarrow> Inr (Date_ToString d @ '' '' @ Time_ToString t))"

section \<open>Reading a time\<close>

text \<open>Up to nine digits of hours.\<close>

fun hour_loop :: "string \<Rightarrow> int \<Rightarrow> int \<Rightarrow> (int \<times> string) option" where
  "hour_loop [] hour n = Some (hour, [])"
| "hour_loop (c # cs) hour n =
     (if CharacterIsDigit c then
        if n > 0 then hour_loop cs (hour * 10 + digit_value c) (n - 1) else None
      else Some (hour, c # cs))"

fun fraction_loop :: "string \<Rightarrow> int \<Rightarrow> int \<Rightarrow> int \<times> string" where
  "fraction_loop [] micros mult = (micros, [])"
| "fraction_loop (c # cs) micros mult =
     (if CharacterIsDigit c then
        fraction_loop cs (if mult > 0 then micros + digit_value c * mult else micros) (mult div 10)
      else (micros, c # cs))"

text \<open>The minutes or seconds behind a separator; at the end of the buffer they may be missing unless strict.\<close>

definition sixty :: "bool \<Rightarrow> string \<Rightarrow> (int \<times> string) option" where
  "sixty strict s =
     (if s = [] \<and> \<not> strict then Some (0, [])
      else case ParseDoubleDigit s of None \<Rightarrow> None
        | Some (v, rest) \<Rightarrow> if v < 0 \<or> v \<ge> 60 then None else Some (v, rest))"

text \<open>
  The seconds. At the end of the buffer they are 0, in strict mode only behind two digits of minutes;
  otherwise the code reads a separator, with one digit of minutes at the end of the buffer that is the
  character behind it, and fails whatever it is.
\<close>

definition seconds_part :: "bool \<Rightarrow> nat \<Rightarrow> string \<Rightarrow> (int \<times> string) option" where
  "seconds_part strict minute_digits s =
     (if s = [] \<and> (\<not> strict \<or> minute_digits = 2) then Some (0, [])
      else case s of [] \<Rightarrow> None
        | c # cs \<Rightarrow> if c \<noteq> CHR '':'' then None else sixty strict cs)"

definition fraction_part :: "int option \<Rightarrow> string \<Rightarrow> int \<times> int option \<times> string" where
  "fraction_part nanos s =
     (case s of
        [] \<Rightarrow> (0, nanos, [])
      | c # cs \<Rightarrow>
          if c \<noteq> CHR ''.'' then (0, nanos, c # cs)
          else case nanos of
              None \<Rightarrow> (let (micros, rest) = fraction_loop cs 0 100000 in (micros, None, rest))
            | Some v \<Rightarrow> (let (frac, rest) = fraction_loop cs 0 (100000 * NANOS_PER_MICRO)
                in (frac sdiv NANOS_PER_MICRO, Some (frac smod NANOS_PER_MICRO), rest)))"

definition TryConvertInternal :: "bool \<Rightarrow> int option \<Rightarrow> string \<Rightarrow> (dtime_t \<times> int option \<times> string) option" where
  "TryConvertInternal strict nanos buf =
     (let s0 = skip_spaces buf in
      if s0 = [] \<or> \<not> CharacterIsDigit (hd s0) then None
      else case hour_loop s0 0 9 of
          None \<Rightarrow> None
        | Some (hour, s1) \<Rightarrow>
            (case s1 of
               [] \<Rightarrow> None
             | sep # s2 \<Rightarrow>
                 if sep \<noteq> CHR '':'' then None
                 else case sixty strict s2 of
                     None \<Rightarrow> None
                   | Some (minute, s3) \<Rightarrow>
                       (case seconds_part strict (length s2 - length s3) s3 of
                          None \<Rightarrow> None
                        | Some (second, s4) \<Rightarrow>
                            let (micros, nanos', s5) = fraction_part nanos s4;
                                s6 = (if strict then skip_spaces s5 else s5)
                            in if strict \<and> s6 \<noteq> [] then None
                               else Some (FromTime hour minute second micros, nanos', s6))))"

section \<open>Reading a timestamp\<close>

text \<open>Hours, minutes and seconds of an offset, and the rest.\<close>

definition two_digits :: "string \<Rightarrow> bool" where
  "two_digits s \<longleftrightarrow> 2 \<le> length s \<and> CharacterIsDigit (s ! 0) \<and> CharacterIsDigit (s ! 1)"

definition two_digit_value :: "string \<Rightarrow> int" where
  "two_digit_value s = digit_value (s ! 0) * 10 + digit_value (s ! 1)"

definition TryParseUTCOffset :: "string \<Rightarrow> (int \<times> int \<times> int \<times> string) option" where
  "TryParseUTCOffset s =
     (if length s < 3 then None
      else
        let sign_char = s ! 0; s1 = drop 1 s; flip = (\<lambda>x :: int. if sign_char = CHR ''-'' then - x else x) in
        if sign_char \<noteq> CHR ''+'' \<and> sign_char \<noteq> CHR ''-'' then None
        else if \<not> two_digits s1 then None
        else
          let hh = flip (two_digit_value s1); s2 = drop 2 s1 in
          if s2 = [] then Some (hh, 0, 0, [])
          else
            let colons_used = (hd s2 = CHR '':''); s3 = (if colons_used then tl s2 else s2) in
            if \<not> two_digits s3 then Some (hh, 0, 0, s3)
            else
              let mm = flip (two_digit_value s3); s4 = drop 2 s3 in
              if s4 = [] \<or> \<not> colons_used \<or> hd s4 \<noteq> CHR '':'' then Some (hh, mm, 0, s4)
              else
                let s5 = tl s4 in
                if \<not> two_digits s5 then Some (hh, mm, 0, s5)
                else Some (hh, mm, flip (two_digit_value s5), drop 2 s5))"

definition CharacterIsTimeZone :: "char \<Rightarrow> bool" where
  "CharacterIsTimeZone c \<longleftrightarrow>
     ((65 :: nat) \<le> of_char c \<and> of_char c \<le> (90 :: nat) \<or> (97 :: nat) \<le> of_char c \<and> of_char c \<le> (122 :: nat)) \<or>
     CharacterIsDigit c \<or> c \<in> {CHR ''_'', CHR ''/'', CHR ''+'', CHR ''-''}"

datatype TimestampCastResult =
    TS_SUCCESS timestamp_t bool string "int option"
  | TS_INCORRECT_FORMAT
  | TS_NON_UTC_TIMEZONE
  | TS_RANGE
  | TS_STRICT_UTC timestamp_t

text \<open>
  What may follow the time: a \<open>Z\<close>, an offset, or a zone name behind a space; then only spaces. The flag
  for an offset starts as the flag for a special date.
\<close>

definition timestamp_tail :: "bool \<Rightarrow> bool \<Rightarrow> int option \<Rightarrow> timestamp_t \<Rightarrow> string \<Rightarrow> TimestampCastResult" where
  "timestamp_tail use_offset has_offset0 nanos ts s =
     (let finish = (\<lambda>r has_offset tz rest.
            if skip_spaces rest \<noteq> [] then TS_INCORRECT_FORMAT else TS_SUCCESS r has_offset tz nanos)
      in if s = [] then TS_SUCCESS ts has_offset0 '''' nanos
         else if hd s = CHR ''Z'' then finish ts True '''' (tl s)
         else case TryParseUTCOffset s of
             Some (hh, mm, ss, rest) \<Rightarrow>
               let delta = hh * MICROS_PER_HOUR + mm * MICROS_PER_MINUTE + ss * MICROS_PER_SEC in
               if use_offset then
                 (case TrySubtract_int64 ts delta of
                    None \<Rightarrow> TS_RANGE | Some ts' \<Rightarrow> finish ts' True '''' rest)
               else finish ts True '''' rest
           | None \<Rightarrow>
               if hd s \<noteq> CHR '' '' then TS_NON_UTC_TIMEZONE
               else finish ts has_offset0 (takeWhile CharacterIsTimeZone (tl s)) (dropWhile CharacterIsTimeZone (tl s)))"

definition TryConvertTimestampTZ :: "bool \<Rightarrow> int option \<Rightarrow> string \<Rightarrow> TimestampCastResult" where
  "TryConvertTimestampTZ use_offset nanos str =
     (case TryConvertDate False str of
        DATE_INCORRECT_FORMAT \<Rightarrow> TS_INCORRECT_FORMAT
      | DATE_RANGE \<Rightarrow> TS_RANGE
      | DATE_SUCCESS d special rest \<Rightarrow>
          if rest = [] then
            if d = date_infinity then TS_SUCCESS timestamp_infinity special '''' nanos
            else if d = date_ninfinity then TS_SUCCESS timestamp_ninfinity special '''' nanos
            else (case TryFromDatetime d 0 of
                    None \<Rightarrow> TS_RANGE | Some ts \<Rightarrow> TS_SUCCESS ts special '''' nanos)
          else
            let s = (if hd rest = CHR '' '' \<or> hd rest = CHR ''T'' then tl rest else rest) in
            case TryConvertInternal False nanos s of
              None \<Rightarrow> TS_INCORRECT_FORMAT
            | Some (t, nanos', s') \<Rightarrow>
                if t > MICROS_PER_DAY then TS_RANGE
                else (case TryFromDatetime d t of
                        None \<Rightarrow> TS_RANGE
                      | Some ts \<Rightarrow> timestamp_tail use_offset special nanos' ts s'))"

definition TryConvertTimestamp :: "bool \<Rightarrow> int option \<Rightarrow> bool \<Rightarrow> string \<Rightarrow> TimestampCastResult" where
  "TryConvertTimestamp use_offset nanos strict str =
     (case TryConvertTimestampTZ use_offset nanos str of
        TS_SUCCESS ts has_offset tz nanos' \<Rightarrow>
          if tz = '''' then
            (if strict \<and> has_offset then TS_STRICT_UTC ts else TS_SUCCESS ts has_offset tz nanos')
          else if length tz = 3 \<and> tz ! 0 \<in> {CHR ''u'', CHR ''U''} \<and> tz ! 1 \<in> {CHR ''t'', CHR ''T''} \<and>
              tz ! 2 \<in> {CHR ''c'', CHR ''C''} then
            (if strict \<and> has_offset then TS_STRICT_UTC ts else TS_SUCCESS ts has_offset tz nanos')
          else TS_NON_UTC_TIMEZONE
      | failure \<Rightarrow> failure)"

definition TryConvertTimestamp_ns :: "string \<Rightarrow> TimestampCastResult" where
  "TryConvertTimestamp_ns str =
     (case TryConvertTimestamp True (Some 0) False str of
        TS_SUCCESS ts has_offset tz nanos \<Rightarrow>
          (case TryFromTimestampNanos ts (case nanos of Some n \<Rightarrow> n | None \<Rightarrow> 0) of
             None \<Rightarrow> TS_INCORRECT_FORMAT | Some ns \<Rightarrow> TS_SUCCESS ns has_offset tz nanos)
      | failure \<Rightarrow> failure)"

definition Timestamp_FromCString :: "bool \<Rightarrow> int option \<Rightarrow> string \<Rightarrow> timestamp_t result" where
  "Timestamp_FromCString use_offset nanos str =
     (case TryConvertTimestamp use_offset nanos False str of
        TS_SUCCESS ts has_offset tz nanos' \<Rightarrow> Inr ts
      | TS_STRICT_UTC ts \<Rightarrow> Inr ts
      | TS_NON_UTC_TIMEZONE \<Rightarrow> Inl (ConversionException ''timestamp field value has a timestamp that is not UTC'')
      | TS_INCORRECT_FORMAT \<Rightarrow> Inl (ConversionException ''invalid timestamp field format'')
      | TS_RANGE \<Rightarrow> Inl (ConversionException ''timestamp field value out of range''))"

section \<open>Times that may be given as timestamps\<close>

definition TryConvertTime :: "bool \<Rightarrow> int option \<Rightarrow> string \<Rightarrow> (dtime_t \<times> int option) option" where
  "TryConvertTime strict nanos buf =
     (case TryConvertInternal strict nanos buf of
        Some (t, nanos', rest) \<Rightarrow> if t \<le> MICROS_PER_DAY then Some (t, nanos') else None
      | None \<Rightarrow>
          if strict then None
          else (case TryConvertTimestamp False nanos False buf of
                  TS_SUCCESS ts has_offset tz nanos' \<Rightarrow>
                    (case GetTime ts of Inl e \<Rightarrow> None | Inr t \<Rightarrow> Some (t, nanos'))
                | _ \<Rightarrow> None))"

definition Time_FromCString :: "bool \<Rightarrow> int option \<Rightarrow> string \<Rightarrow> dtime_t result" where
  "Time_FromCString strict nanos buf =
     (case TryConvertTime strict nanos buf of
        None \<Rightarrow> Inl (ConversionException ''time field value out of range, expected format is ([YYYY-MM-DD ]HH:MM:SS[.MS])'')
      | Some (t, nanos') \<Rightarrow> Inr t)"

text \<open>The time with its offset, and whether an offset was given.\<close>

definition TryConvertTimeTZ :: "bool \<Rightarrow> int option \<Rightarrow> string \<Rightarrow> (dtime_tz_t \<times> bool) option" where
  "TryConvertTimeTZ strict nanos buf =
     (case TryConvertInternal False nanos buf of
        None \<Rightarrow>
          if strict then None
          else (case TryConvertTimestamp True nanos False buf of
                  TS_SUCCESS ts has_offset tz nanos' \<Rightarrow>
                    (case GetTime ts of Inl e \<Rightarrow> None | Inr t \<Rightarrow> Some (dtime_tz t 0, False))
                | _ \<Rightarrow> None)
      | Some (time_part, nanos', rest) \<Rightarrow>
          let s = skip_spaces rest; has_offset = (s \<noteq> []) in
          case (if has_offset then TryParseUTCOffset s else Some (0, 0, 0, [])) of
            None \<Rightarrow> None
          | Some (hh, mm, ss, s') \<Rightarrow>
              let off = (hh * MINS_PER_HOUR + mm) * SECS_PER_MINUTE + ss in
              if off < MIN_OFFSET \<or> off > MAX_OFFSET then None
              else if strict \<and> skip_spaces s' \<noteq> [] then None
              else Some (dtime_tz time_part off, has_offset))"

section \<open>Hours, minutes, seconds and microseconds\<close>

lemma cascade:
  fixes t :: int
  assumes "0 \<le> t" "0 < u"
  shows "t sdiv u = t div u" "t - t div u * u = t mod u" "0 \<le> t mod u" "t mod u < u"
  using assms by (simp_all add: sdiv_nonneg minus_div_mult_eq_mod)

lemma div_upper: "0 \<le> (t :: int) \<Longrightarrow> t < n * u \<Longrightarrow> 0 < u \<Longrightarrow> 0 \<le> t div u \<and> t div u < n"
proof -
  assume t: "0 \<le> t" "t < n * u" "0 < u"
  have "t div u * u \<le> t" using t(3) by (simp add: minus_mod_eq_div_mult [symmetric])
  then have "t div u * u < n * u" using t(2) by (rule order.strict_trans1)
  then show ?thesis using t by (simp add: pos_imp_zdiv_nonneg_iff)
qed

text \<open>The three divisions, for any units.\<close>

lemma cascade_parts:
  fixes t H M S :: int
  assumes "0 \<le> t" "0 < S" "M = 60 * S" "H = 60 * M" "t \<le> 24 * H" "S \<le> 1000000"
  defines "h \<equiv> t div H" and "m \<equiv> t mod H div M" and "s \<equiv> t mod H mod M div S" and "u \<equiv> t mod H mod M mod S"
  shows "t sdiv H = h" "t - h * H = t mod H" "t mod H sdiv M = m" "t mod H - m * M = t mod H mod M"
    "t mod H mod M sdiv S = s" "t mod H mod M - s * S = u"
    "0 \<le> h" "h \<le> 24" "0 \<le> m" "m < 60" "0 \<le> s" "s < 60" "0 \<le> u" "u < S" "((h * 60 + m) * 60 + s) * S + u = t"
proof -
  have pos: "0 < M" "0 < H" using assms(2-4) by simp_all
  have r: "0 \<le> t mod H" "t mod H < H" "0 \<le> t mod H mod M" "t mod H mod M < M" using pos by simp_all
  show "t sdiv H = h" "t - h * H = t mod H" "t mod H sdiv M = m" "t mod H - m * M = t mod H mod M"
    "t mod H mod M sdiv S = s" "t mod H mod M - s * S = u"
    using assms(1,2) pos r by (simp_all only: h_def m_def s_def u_def sdiv_nonneg minus_div_mult_eq_mod)
  show "0 \<le> h" "0 \<le> m" "0 \<le> s" "0 \<le> u" "u < S"
    using assms(1,2) pos r by (simp_all add: h_def m_def s_def u_def pos_imp_zdiv_nonneg_iff)
  show "h \<le> 24" using div_upper [of t 25 H] assms(1,5) pos by (simp add: h_def)
  show "m < 60" using div_upper [of "t mod H" 60 M] r assms(4) pos by (simp add: m_def)
  show "s < 60" using div_upper [of "t mod H mod M" 60 S] r assms(2,3) by (simp add: s_def)
  have "h * H + t mod H = t" "m * M + t mod H mod M = t mod H" "s * S + u = t mod H mod M"
    unfolding h_def m_def s_def u_def by (rule div_mult_mod_eq)+
  then show "((h * 60 + m) * 60 + s) * S + u = t" using assms(3,4) by (simp add: distrib_right)
qed

lemma Time_Convert_parts:
  assumes "0 \<le> t" "t \<le> MICROS_PER_DAY" "Time_Convert t = (hour, minute, second, micros)"
  shows "FromTime hour minute second micros = t" "0 \<le> hour" "hour \<le> 24" "0 \<le> minute" "minute < 60" "0 \<le> second"
    "second < 60" "0 \<le> micros" "micros < 1000000"
proof -
  have units: "0 < MICROS_PER_SEC" "MICROS_PER_MINUTE = 60 * MICROS_PER_SEC" "MICROS_PER_HOUR = 60 * MICROS_PER_MINUTE"
    "t \<le> 24 * MICROS_PER_HOUR" "MICROS_PER_SEC \<le> 1000000" using assms(2) by (simp_all add: temporal_consts)
  note c = cascade_parts [OF assms(1) units]
  have id: "0 \<le> x \<Longrightarrow> x < 1000000 \<Longrightarrow> cast_int32 x = x" for x by (rule cast_int32_id) simp_all
  have p: "hour = t div MICROS_PER_HOUR" "minute = t mod MICROS_PER_HOUR div MICROS_PER_MINUTE"
    "second = t mod MICROS_PER_HOUR mod MICROS_PER_MINUTE div MICROS_PER_SEC"
    "micros = t mod MICROS_PER_HOUR mod MICROS_PER_MINUTE mod MICROS_PER_SEC"
    using assms(3) id [OF c(7)] id [OF c(9)] id [OF c(11)] id [OF c(13)] c units(5)
    by (simp_all add: Time_Convert_def Let_def)
  show "0 \<le> hour" "hour \<le> 24" "0 \<le> minute" "minute < 60" "0 \<le> second" "second < 60" "0 \<le> micros" "micros < 1000000"
    unfolding p using c units(5) by simp_all
  show "FromTime hour minute second micros = t"
    unfolding p FromTime_def MINS_PER_HOUR_def SECS_PER_MINUTE_def by (rule c(15))
qed

section \<open>Fractions\<close>

lemma digits_value_shift: "digits_value a ds = a * 10 ^ length ds + digits_value 0 ds"
proof (induction ds arbitrary: a)
  case (Cons c cs)
  show ?case using Cons [of "digit_value c + a * 10"] Cons [of "digit_value c"] by (simp add: distrib_right)
qed simp

lemma fraction_loop_digits:
  assumes "\<forall>c \<in> set ds. CharacterIsDigit c" "length ds \<le> Suc k" "rest = [] \<or> \<not> CharacterIsDigit (hd rest)"
  shows "fraction_loop (ds @ rest) a (10 ^ k) = (a + digits_value 0 ds * 10 ^ (Suc k - length ds), rest)"
  using assms
proof (induction ds arbitrary: a k)
  case Nil
  then show ?case by (cases rest) auto
next
  case (Cons c cs)
  show ?case
  proof (cases k)
    case 0
    then have "cs = []" using Cons.prems(2) by simp
    then show ?thesis using 0 Cons.prems by (cases rest) auto
  next
    case (Suc j)
    have "digits_value (digit_value c) cs = digit_value c * 10 ^ length cs + digits_value 0 cs"
      by (rule digits_value_shift)
    moreover have "(10 :: int) ^ length cs * 10 ^ (Suc j - length cs) = 10 * 10 ^ j"
      using Cons.prems(2) Suc by (simp add: power_add [symmetric])
    ultimately have "digits_value (digit_value c) cs * 10 ^ (Suc j - length cs) =
        digit_value c * (10 * 10 ^ j) + digits_value 0 cs * 10 ^ (Suc j - length cs)"
      by (simp only: distrib_right mult.assoc)
    then show ?thesis using Suc Cons by simp
  qed
qed

lemma trailing_zeros_loop_zeros:
  assumes "trailing_zeros_loop i buf n = z"
  shows "n \<le> z \<and> z \<le> n + i \<and> (\<forall>j. i - (z - n) < j \<and> j \<le> i \<longrightarrow> buf ! j = CHR ''0'')"
  using assms
proof (induction i buf n rule: trailing_zeros_loop.induct)
  case (2 i buf n)
  show ?case
  proof (cases "buf ! Suc i = CHR ''0''")
    case True
    with 2 have "Suc n \<le> z \<and> z \<le> Suc n + i \<and> (\<forall>j. i - (z - Suc n) < j \<and> j \<le> i \<longrightarrow> buf ! j = CHR ''0'')" by simp
    with True show ?thesis by (auto simp: le_Suc_eq)
  next
    case False
    with 2 show ?thesis by auto
  qed
qed simp

lemma FormatMicros_eq:
  assumes "0 \<le> us" "us < 1000000"
  shows "length (FormatMicros us) = 6" "\<forall>c \<in> set (FormatMicros us). CharacterIsDigit c"
    "digits_value 0 (FormatMicros us) = us"
proof -
  have f: "FormatMicros us = year_field 6 (nat us)"
    by (simp add: FormatMicros_def year_field_def FormatUnsigned_decimal digit_char_0 Let_def)
  have "length (decimal (nat us)) \<le> 6" using assms decimal_length [of "nat us" 5] by (simp add: nat_less_iff)
  then show "length (FormatMicros us) = 6" by (simp add: f year_field_length)
  show "\<forall>c \<in> set (FormatMicros us). CharacterIsDigit c" by (simp add: f year_field_digits)
  show "digits_value 0 (FormatMicros us) = us" using assms(1) by (simp add: f year_field_value)
qed

text \<open>The digits that are printed, with the zeros that are left out.\<close>

lemma printed_fraction:
  assumes "0 < us" "us < 1000000"
  obtains ds z where "MicrosLength us = 15 - z" "z \<le> 5" "ds = take (6 - z) (FormatMicros us)" "length ds = 6 - z"
    "\<forall>c \<in> set ds. CharacterIsDigit c" "digits_value 0 ds * 10 ^ z = us"
proof -
  define buf where "buf = FormatMicros us"
  note buf = FormatMicros_eq [of us, folded buf_def]
  define z where "z = trailing_zeros_loop 5 buf 0"
  have z: "z \<le> 5" "\<forall>j. 5 - z < j \<and> j \<le> 5 \<longrightarrow> buf ! j = CHR ''0''"
    using trailing_zeros_loop_zeros [of 5 buf 0 z] by (simp_all add: z_def)
  have "drop (6 - z) buf = replicate z (digit_char 0)"
  proof (rule nth_equalityI)
    fix i assume i: "i < length (drop (6 - z) buf)"
    then have "i < z" using z(1) buf(1) assms by simp
    then have "5 - z < 6 - z + i \<and> 6 - z + i \<le> 5" using z(1) by arith
    with z(2) have "buf ! (6 - z + i) = CHR ''0''" by blast
    with i show "drop (6 - z) buf ! i = replicate z (digit_char 0) ! i"
      using z(1) buf(1) assms by (simp add: digit_char_0)
  qed (use z(1) buf(1) assms in simp)
  then have "buf = take (6 - z) buf @ replicate z (digit_char 0)" by (metis append_take_drop_id)
  moreover have "digits_value a (replicate z (digit_char 0)) = a * 10 ^ z" for a
    by (induction z arbitrary: a) simp_all
  ultimately have "digits_value 0 buf = digits_value 0 (take (6 - z) buf) * 10 ^ z"
    by (metis digits_value_simps(3))
  then have "digits_value 0 (take (6 - z) buf) * 10 ^ z = us" using buf(3) assms by simp
  moreover have "\<forall>c \<in> set (take (6 - z) buf). CharacterIsDigit c" using buf(2) assms by (auto dest: in_set_takeD)
  ultimately show thesis
    using that [of z "take (6 - z) buf"] z(1) buf(1) assms by (simp add: MicrosLength_def buf_def z_def)
qed

section \<open>Printed times are read back\<close>

lemma sixty_printed:
  "0 \<le> v \<Longrightarrow> v < 60 \<Longrightarrow> sixty strict (FormatTwoDigits (nat v) @ rest) = Some (v, rest)"
  by (simp add: sixty_def ParseDoubleDigit_two) (simp add: FormatTwoDigits_eq)

lemma hour_loop_printed:
  assumes "0 \<le> v" "v < 100" "rest = [] \<or> \<not> CharacterIsDigit (hd rest)"
  shows "hour_loop (FormatTwoDigits (nat v) @ rest) 0 9 = Some (v, rest)"
proof -
  have "nat v div 10 < 10" "nat v mod 10 < 10" using assms by auto
  moreover have "int (nat v div 10) * 10 + int (nat v mod 10) = v" using assms(1) by (simp add: zdiv_int zmod_int)
  ultimately show ?thesis using assms by (cases rest) (auto simp: FormatTwoDigits_eq)
qed

definition time_rest :: "string \<Rightarrow> bool" where
  "time_rest r \<longleftrightarrow> r = [] \<or> \<not> CharacterIsDigit (hd r) \<and> hd r \<noteq> CHR ''.''"

lemma fraction_part_printed:
  assumes "0 \<le> us" "us < 1000000" "time_rest r"
  shows "fraction_part None ((if MicrosLength us > 8 then CHR ''.'' # take (MicrosLength us - 9) (FormatMicros us) else []) @ r) =
    (us, None, r)"
proof (cases "us = 0")
  case True
  then show ?thesis using assms(3) by (cases r) (auto simp: MicrosLength_def fraction_part_def time_rest_def)
next
  case False
  then have "0 < us" using assms(1) by simp
  from printed_fraction [OF this assms(2)] obtain ds z where d: "MicrosLength us = 15 - z" "z \<le> 5"
    "ds = take (6 - z) (FormatMicros us)" "length ds = 6 - z" "\<forall>c \<in> set ds. CharacterIsDigit c" "digits_value 0 ds * 10 ^ z = us" .
  have "rest_ok": "r = [] \<or> \<not> CharacterIsDigit (hd r)" using assms(3) by (auto simp: time_rest_def)
  have "fraction_loop (ds @ r) 0 (10 ^ 5) = (0 + digits_value 0 ds * 10 ^ (Suc 5 - length ds), r)"
    using d by (intro fraction_loop_digits rest_ok) simp_all
  moreover have "Suc 5 - length ds = z" using d(2,4) by simp
  moreover have "take (MicrosLength us - 9) (FormatMicros us) = ds" "MicrosLength us > 8" using d(1-3) by simp_all
  ultimately show ?thesis using d(6) by (simp add: fraction_part_def)
qed

lemma TryConvertInternal_printed:
  assumes "0 \<le> t" "t \<le> MICROS_PER_DAY" "time_rest r" "strict \<Longrightarrow> r = []"
  shows "TryConvertInternal strict None (Time_ToString t @ r) = Some (t, None, r)"
proof -
  obtain hour minute second us where c: "Time_Convert t = (hour, minute, second, us)" by (metis prod_cases4)
  note p = Time_Convert_parts [OF assms(1,2) c]
  let ?frac = "(if MicrosLength us > 8 then CHR ''.'' # take (MicrosLength us - 9) (FormatMicros us) else []) @ r"
  let ?sec = "CHR '':'' # FormatTwoDigits (nat second) @ ?frac"
  let ?min = "FormatTwoDigits (nat minute) @ ?sec"
  have shown: "Time_ToString t @ r = FormatTwoDigits (nat hour) @ CHR '':'' # ?min"
    by (simp add: Time_ToString_def c Time_Format_def)
  have "nat hour div 10 < 10" using p(3) by auto
  then have hd: "CharacterIsDigit (hd (FormatTwoDigits (nat hour) @ CHR '':'' # ?min))"
    and ne: "FormatTwoDigits (nat hour) @ CHR '':'' # ?min \<noteq> []"
    and sk: "skip_spaces (FormatTwoDigits (nat hour) @ CHR '':'' # ?min) = FormatTwoDigits (nat hour) @ CHR '':'' # ?min"
    using p(2,3) by (simp_all add: FormatTwoDigits_eq)
  have colon: "\<not> CharacterIsDigit CHR '':''" by (simp add: CharacterIsDigit_def)
  have h: "hour_loop (FormatTwoDigits (nat hour) @ CHR '':'' # ?min) 0 9 = Some (hour, CHR '':'' # ?min)"
    using p(2,3) colon by (intro hour_loop_printed) simp_all
  have m: "sixty strict ?min = Some (minute, ?sec)" using p(4,5) by (rule sixty_printed)
  have s: "seconds_part strict n ?sec = Some (second, ?frac)" for n
    using sixty_printed [OF p(6,7), of strict ?frac] by (simp add: seconds_part_def)
  have f: "fraction_part None ?frac = (us, None, r)" by (rule fraction_part_printed [OF p(8,9) assms(3)])
  have e: "skip_spaces r = r" if strict using assms(4) that by simp
  show ?thesis unfolding TryConvertInternal_def shown sk Let_def h
    using hd ne m s f e assms(4) p(1) by auto
qed

section \<open>Printed timestamps are read back\<close>

lemma Time_ToString_head:
  assumes "0 \<le> t" "t \<le> MICROS_PER_DAY"
  obtains c cs where "Time_ToString t = c # cs" "CharacterIsDigit c"
proof -
  obtain hour minute second us where c: "Time_Convert t = (hour, minute, second, us)" by (metis prod_cases4)
  note p = Time_Convert_parts [OF assms c]
  have "nat hour div 10 < 10" using p(3) by auto
  then show thesis using p(2,3) that
    by (simp add: Time_ToString_def c Time_Format_def FormatTwoDigits_eq)
qed

lemma date_rest_time:
  assumes "0 \<le> t" "t \<le> MICROS_PER_DAY"
  shows "date_rest (CHR '' '' # Time_ToString t)"
proof -
  obtain c cs where c: "Time_ToString t = c # cs" "CharacterIsDigit c" by (rule Time_ToString_head [OF assms])
  then have "c \<noteq> CHR ''(''" by (auto simp: CharacterIsDigit_def)
  with c show ?thesis by (simp add: date_rest_def bc_suffix_def CharacterIsDigit_def)
qed

lemma TryConvertTimestampTZ_printed:
  assumes "fits_int64 ts" "Timestamp_IsFinite ts" "TIMESTAMP_MIN \<le> ts"
  shows "TryConvertTimestampTZ use_offset None
    (Date_ToString (ts div MICROS_PER_DAY) @ '' '' @ Time_ToString (ts mod MICROS_PER_DAY)) = TS_SUCCESS ts False '''' None"
proof -
  let ?d = "ts div MICROS_PER_DAY" and ?t = "ts mod MICROS_PER_DAY"
  have t: "0 \<le> ?t" "?t < MICROS_PER_DAY" by (simp_all add: MICROS_PER_DAY_eq)
  have d: "date_ninfinity < ?d" "?d < date_infinity"
    using day_range [OF assms(1)] unfolding date_infinity_def date_ninfinity_def by linarith+
  have read_date: "TryConvertDate False (Date_ToString ?d @ CHR '' '' # Time_ToString ?t) =
      DATE_SUCCESS ?d False (CHR '' '' # Time_ToString ?t)"
    using t by (intro TryConvertDate_printed [OF d] date_rest_time) simp_all
  have read_time: "TryConvertInternal False None (Time_ToString ?t) = Some (?t, None, [])"
    using TryConvertInternal_printed [of ?t "[]" False] t by (simp add: time_rest_def)
  have "TryFromDatetime ?d ?t = Some ts" using assms by (simp add: TryFromDatetime_iff [OF t])
  then show ?thesis using t
    by (simp add: TryConvertTimestampTZ_def read_date read_time timestamp_tail_def)
qed

lemma infinite_timestamp_text:
  "TryConvertTimestampTZ use_offset None (fst PINF) = TS_SUCCESS timestamp_infinity True '''' None"
  "TryConvertTimestampTZ use_offset None (fst NINF) = TS_SUCCESS timestamp_ninfinity True '''' None"
proof -
  have "fst PINF = Date_ToString date_infinity" "fst NINF = Date_ToString date_ninfinity"
    by (simp_all add: Date_ToString_def date_infinity_def date_ninfinity_def)
  then show "TryConvertTimestampTZ use_offset None (fst PINF) = TS_SUCCESS timestamp_infinity True '''' None"
    "TryConvertTimestampTZ use_offset None (fst NINF) = TS_SUCCESS timestamp_ninfinity True '''' None"
    by (simp_all add: TryConvertTimestampTZ_def infinity_text) (simp add: date_infinity_def date_ninfinity_def)
qed

section \<open>Properties of the text forms\<close>

text \<open>
  Reading a printed time gives the time back, in strict mode and not, for every time of day from
  00:00:00 to 24:00:00 with its microseconds: the fraction is printed without its trailing zeros and
  read with the weight of its position.
\<close>

theorem time_text_roundtrip:
  assumes "0 \<le> t" "t \<le> 86400000000"
  shows "TryConvertTime strict None (Time_ToString t) = Some (t, None)"
  using TryConvertInternal_printed [of t "[]" strict] assms
  by (simp add: TryConvertTime_def time_rest_def MICROS_PER_DAY_eq)

theorem time_text_roundtrip_witness: "TryConvertTime True None (Time_ToString 3723000450) = Some (3723000450, None)"
  using time_text_roundtrip [of 3723000450 True] by simp

text \<open>
  C37. Reading a printed timestamp gives it back, with and without offsets: every timestamp that splits
  into a date and a time, also before the common era and before the epoch, and the two infinities. In
  strict mode, where an offset is refused, the infinities are refused too, since the flag of a special
  date is taken for an offset.
\<close>

theorem timestamp_text_roundtrip:
  assumes "fits_int64 ts" "- 9223372022400000000 \<le> ts \<or> ts = timestamp_ninfinity"
  shows "\<exists>s. Timestamp_ToString ts = Inr s \<and>
    TryConvertTimestamp use_offset None strict s =
      (if Timestamp_IsFinite ts then TS_SUCCESS ts False '''' None
       else if strict then TS_STRICT_UTC ts else TS_SUCCESS ts True '''' None)"
proof (cases "Timestamp_IsFinite ts")
  case True
  then have min: "TIMESTAMP_MIN \<le> ts" using assms(2) by (simp add: Timestamp_IsFinite_def TIMESTAMP_MIN_def)
  have "Timestamp_ToString ts = Inr (Date_ToString (ts div MICROS_PER_DAY) @ '' '' @ Time_ToString (ts mod MICROS_PER_DAY))"
    using True min by (simp add: Timestamp_ToString_def Timestamp_Convert_eq [OF True assms(1)] Timestamp_IsFinite_def)
  then show ?thesis using True TryConvertTimestampTZ_printed [OF assms(1) True min]
    by (simp add: TryConvertTimestamp_def)
next
  case False
  then have "ts = timestamp_infinity \<or> ts = timestamp_ninfinity" by (simp add: Timestamp_IsFinite_def)
  then show ?thesis using False infinite_timestamp_text
    by (auto simp: Timestamp_ToString_def TryConvertTimestamp_def timestamp_infinity_def timestamp_ninfinity_def)
qed

theorem timestamp_text_roundtrip_witness:
  "\<exists>s. Timestamp_ToString (- 1) = Inr s \<and> TryConvertTimestamp True None True s = TS_SUCCESS (- 1) False '''' None"
  using timestamp_text_roundtrip [of "- 1" True True]
  by (simp add: fits_int64_def Timestamp_IsFinite_def timestamp_infinity_def timestamp_ninfinity_def)

end
