(* ===== verification/Uhugeint.thy ===== *)
theory Uhugeint
  imports Decimal_Text
begin

text \<open>
  Unsigned 128 bit integers, \<open>common/types/uhugeint.cpp\<close>: two words of 64 bits with addition,
  subtraction, multiplication in both of its forms (with the compiler's 128 bit integers and with pieces
  of 32 bits), shifts, long division, conversions and printing. \<open>uval\<close> is the number the two words
  denote and \<open>uhuge\<close> the integer with a given value modulo \<open>2 ^ 128\<close>; the lemmas give every operation
  by its value. The first section holds what the signed integers share. Conversions from and to
  floating point numbers and from text are not modelled.
\<close>

unbundle bit_operations_syntax

section \<open>Arithmetic of wide integers\<close>

text \<open>Carries and borrows of 64 bit words, as the code computes them.\<close>

lemma add_carry:
  fixes a b :: uint64_t
  shows "uint (a + b) = uint a + uint b - (if a + b < a then 2 ^ 64 else 0)"
    and "a + b < a \<longleftrightarrow> 2 ^ 64 \<le> uint a + uint b"
proof -
  have "uint a < 2 ^ 64" "uint b < 2 ^ 64" "0 \<le> uint a" "0 \<le> uint b"
    using uint_lt2p [of a] uint_lt2p [of b] by simp_all
  moreover have "uint (a + b) = (if uint a + uint b < 2 ^ 64 then uint a + uint b else uint a + uint b - 2 ^ 64)"
    by (simp add: uint_plus_if')
  ultimately show "uint (a + b) = uint a + uint b - (if a + b < a then 2 ^ 64 else 0)"
    "a + b < a \<longleftrightarrow> 2 ^ 64 \<le> uint a + uint b"
    by (auto simp: word_less_def)
qed

lemma sub_borrow:
  fixes a b :: uint64_t
  shows "uint (a - b) = uint a - uint b + (if a - b > a then 2 ^ 64 else 0)"
    and "a - b > a \<longleftrightarrow> uint a < uint b"
proof -
  have "uint a < 2 ^ 64" "uint b < 2 ^ 64" "0 \<le> uint a" "0 \<le> uint b"
    using uint_lt2p [of a] uint_lt2p [of b] by simp_all
  moreover have "uint (a - b) = (if uint b \<le> uint a then uint a - uint b else uint a - uint b + 2 ^ 64)"
    by (simp add: uint_sub_if')
  ultimately show "uint (a - b) = uint a - uint b + (if a - b > a then 2 ^ 64 else 0)"
    "a - b > a \<longleftrightarrow> uint a < uint b"
    by (auto simp: word_less_def)
qed

lemma div_le_self: "0 \<le> x \<Longrightarrow> 0 < k \<Longrightarrow> x div k \<le> x" for x k :: int
  using zdiv_mono2 [of x 1 k] by simp

subsection \<open>Long division\<close>

text \<open>One step: the next bit of the dividend comes into the remainder.\<close>

lemma long_division_step:
  fixes n r q m :: int
  assumes "n div 2 ^ Suc x = q * r + m" "0 \<le> q" "0 \<le> m" "m < r"
  defines "m' \<equiv> 2 * m + (if bit n x then 1 else 0)"
  shows "n div 2 ^ x = 2 * q * r + m'" and "0 \<le> m'" "m' < 2 * r" "m' \<le> n div 2 ^ x" "2 * q \<le> n div 2 ^ x"
    and "r \<le> m' \<Longrightarrow> 2 * q + 1 \<le> n div 2 ^ x"
proof -
  have "n div 2 ^ x = 2 * (n div 2 ^ x div 2) + n div 2 ^ x mod 2" by simp
  also have "n div 2 ^ x div 2 = n div 2 ^ Suc x" by (simp only: power_Suc2 zdiv_zmult2_eq)
  also have "n div 2 ^ x mod 2 = (if bit n x then 1 else 0)" by (simp add: bit_iff_odd mod_2_eq_odd)
  finally show eq: "n div 2 ^ x = 2 * q * r + m'"
    using assms(1) by (auto simp: m'_def algebra_simps)
  show m': "0 \<le> m'" "m' < 2 * r" using assms(3,4) by (auto simp: m'_def)
  have "2 * q * 1 \<le> 2 * q * r" using assms(2-4) by (intro mult_left_mono) simp_all
  then show "2 * q \<le> n div 2 ^ x" "r \<le> m' \<Longrightarrow> 2 * q + 1 \<le> n div 2 ^ x" using eq m' assms(3,4) by linarith+
  show "m' \<le> n div 2 ^ x" using eq assms(2-4) by simp
qed

text \<open>
  The contract of a division loop: each round brings in a bit of the dividend and subtracts the divisor
  where it fits, as long as the numbers stay below the dividend. A loop that keeps it divides.
\<close>

locale long_division =
  fixes dividend divisor :: int
    and qval :: "'q \<Rightarrow> int" and rval :: "'r \<Rightarrow> int"
    and loop :: "nat \<Rightarrow> 'q \<Rightarrow> 'r \<Rightarrow> 'q \<times> 'r"
  assumes loop_done: "loop 0 q r = (q, r)"
    and loop_step: "\<lbrakk>0 \<le> dividend; 0 < divisor; x < 128; 0 \<le> qval q; 0 \<le> rval r; rval r < divisor;
        m = 2 * rval r + (if bit dividend x then 1 else 0); m \<le> dividend; m < 2 * divisor; 2 * qval q \<le> dividend;
        divisor \<le> m \<Longrightarrow> 2 * qval q + 1 \<le> dividend\<rbrakk> \<Longrightarrow>
      \<exists>q' r'. loop (Suc x) q r = loop x q' r' \<and>
        qval q' = (if divisor \<le> m then 2 * qval q + 1 else 2 * qval q) \<and>
        rval r' = (if divisor \<le> m then m - divisor else m)"
begin

lemma loop_invariant:
  assumes "0 \<le> dividend" "0 < divisor"
  shows "\<lbrakk>x \<le> 128; 0 \<le> qval q; 0 \<le> rval r; rval r < divisor; dividend div 2 ^ x = qval q * divisor + rval r\<rbrakk> \<Longrightarrow>
    dividend = qval (fst (loop x q r)) * divisor + rval (snd (loop x q r)) \<and>
    0 \<le> rval (snd (loop x q r)) \<and> rval (snd (loop x q r)) < divisor"
proof (induction x arbitrary: q r)
  case 0
  then show ?case by (simp add: loop_done)
next
  case (Suc x)
  define m where "m = 2 * rval r + (if bit dividend x then 1 else 0)"
  note step = long_division_step [OF Suc.prems(5,2-4), folded m_def]
  have "dividend div 2 ^ x \<le> dividend" using assms by (intro div_le_self) simp_all
  then have below: "m \<le> dividend" "2 * qval q \<le> dividend" "divisor \<le> m \<Longrightarrow> 2 * qval q + 1 \<le> dividend"
    using step(4-6) by simp_all
  obtain q' r' where l: "loop (Suc x) q r = loop x q' r'"
    "qval q' = (if divisor \<le> m then 2 * qval q + 1 else 2 * qval q)" "rval r' = (if divisor \<le> m then m - divisor else m)"
    using loop_step [OF assms _ Suc.prems(2-4) m_def below(1) step(3) below(2,3)] Suc.prems(1) by auto
  have "dividend div 2 ^ x = qval q' * divisor + rval r'" using step(1) l(2,3) by (simp add: algebra_simps)
  then show ?case unfolding l(1) using step(2,3) l(2,3) Suc.prems(1,2) by (intro Suc.IH) (simp_all split: if_splits)
qed

lemma loop_divides:
  assumes "0 \<le> dividend" "0 < divisor" "x \<le> 128" "dividend < 2 ^ x" "qval q = 0" "rval r = 0"
  shows "qval (fst (loop x q r)) = dividend div divisor" "rval (snd (loop x q r)) = dividend mod divisor"
proof -
  have inv: "dividend = qval (fst (loop x q r)) * divisor + rval (snd (loop x q r)) \<and>
    0 \<le> rval (snd (loop x q r)) \<and> rval (snd (loop x q r)) < divisor"
    using assms by (intro loop_invariant) simp_all
  have eq: "dividend = divisor * qval (fst (loop x q r)) + rval (snd (loop x q r))" using inv by (simp only: mult.commute)
  show "qval (fst (loop x q r)) = dividend div divisor"
    using inv by (intro int_div_pos_eq [OF eq, symmetric]) simp_all
  show "rval (snd (loop x q r)) = dividend mod divisor"
    using inv by (intro int_mod_pos_eq [OF eq, symmetric]) simp_all
qed

end

text \<open>The number of bits of a word, counted by shifting it to zero.\<close>

function bit_count_loop :: "uint64_t \<Rightarrow> nat \<Rightarrow> nat" where
  "bit_count_loop up out = (if up = 0 then out else bit_count_loop (drop_bit 1 up) (out + 1))"
  by pat_completeness auto
termination
proof (relation "measure (\<lambda>(up, _). unat up)", goal_cases)
  case (2 up out)
  then have "unat up div 2 < unat up" by (simp add: unat_gt_0)
  then show ?case by (simp add: drop_bit_eq_div unat_div_distrib)
qed simp

declare bit_count_loop.simps [simp del]

lemma bit_count_loop_bound:
  "\<exists>k. bit_count_loop up out = out + k \<and> uint up < 2 ^ k \<and> (up \<noteq> 0 \<longrightarrow> 0 < k \<and> 2 ^ (k - 1) \<le> uint up) \<and> (up = 0 \<longrightarrow> k = 0)"
proof (induction up out rule: bit_count_loop.induct)
  case (1 up out)
  show ?case
  proof (cases "up = 0")
    case False
    then obtain k where k: "bit_count_loop (drop_bit 1 up) (out + 1) = out + 1 + k" "uint (drop_bit 1 up) < 2 ^ k"
      "drop_bit 1 up \<noteq> 0 \<longrightarrow> 0 < k \<and> 2 ^ (k - 1) \<le> uint (drop_bit 1 up)" "drop_bit 1 up = 0 \<longrightarrow> k = 0"
      using 1 by blast
    have half: "uint (drop_bit 1 up) = uint up div 2" by (simp add: drop_bit_eq_div uint_div_distrib)
    have "uint up > 0" using False by (simp add: word_neq_0_conv word_less_def)
    moreover have "2 ^ k \<le> uint up" if "drop_bit 1 up \<noteq> 0"
    proof -
      have "2 * 2 ^ (k - 1) = (2 :: int) ^ k" using k(3) that by (metis power_minus_mult mult.commute)
      then show ?thesis using k(3) that half by linarith
    qed
    ultimately have "2 ^ k \<le> uint up" using k(4) by (cases "drop_bit 1 up = 0") auto
    moreover have "uint up < 2 ^ Suc k" using k(2) half by simp
    ultimately show ?thesis using k(1) False
      by (intro exI [of _ "Suc k"]) (simp add: bit_count_loop.simps [of up])
  qed (simp add: bit_count_loop.simps [of 0])
qed

section \<open>Unsigned 128 bit integers\<close>

record uhugeint_t =
  u_lower :: uint64_t
  u_upper :: uint64_t

definition uhugeint_of :: "uint64_t \<Rightarrow> uhugeint_t" where
  "uhugeint_of value = \<lparr>u_lower = value, u_upper = 0\<rparr>"

definition uhugeint_Maximum :: uhugeint_t where
  "uhugeint_Maximum = \<lparr>u_lower = - 1, u_upper = - 1\<rparr>"

definition Uhugeint_Equals :: "uhugeint_t \<Rightarrow> uhugeint_t \<Rightarrow> bool" where
  "Uhugeint_Equals lhs rhs \<longleftrightarrow>
     (let lower_equals = (u_lower lhs = u_lower rhs); upper_equals = (u_upper lhs = u_upper rhs)
      in lower_equals \<and> upper_equals)"

definition Uhugeint_GreaterThan :: "uhugeint_t \<Rightarrow> uhugeint_t \<Rightarrow> bool" where
  "Uhugeint_GreaterThan lhs rhs \<longleftrightarrow>
     (let upper_bigger = (u_upper lhs > u_upper rhs); upper_equal = (u_upper lhs = u_upper rhs);
          lower_bigger = (u_lower lhs > u_lower rhs)
      in upper_bigger \<or> (upper_equal \<and> lower_bigger))"

definition Uhugeint_GreaterThanEquals :: "uhugeint_t \<Rightarrow> uhugeint_t \<Rightarrow> bool" where
  "Uhugeint_GreaterThanEquals lhs rhs \<longleftrightarrow>
     (let upper_bigger = (u_upper lhs > u_upper rhs); upper_equal = (u_upper lhs = u_upper rhs);
          lower_bigger_equals = (u_lower lhs \<ge> u_lower rhs)
      in upper_bigger \<or> (upper_equal \<and> lower_bigger_equals))"

definition Uhugeint_LessThan :: "uhugeint_t \<Rightarrow> uhugeint_t \<Rightarrow> bool" where
  "Uhugeint_LessThan lhs rhs \<longleftrightarrow>
     (let upper_smaller = (u_upper lhs < u_upper rhs); upper_equal = (u_upper lhs = u_upper rhs);
          lower_smaller = (u_lower lhs < u_lower rhs)
      in upper_smaller \<or> (upper_equal \<and> lower_smaller))"

definition Uhugeint_LessThanEquals :: "uhugeint_t \<Rightarrow> uhugeint_t \<Rightarrow> bool" where
  "Uhugeint_LessThanEquals lhs rhs \<longleftrightarrow>
     (let upper_smaller = (u_upper lhs < u_upper rhs); upper_equal = (u_upper lhs = u_upper rhs);
          lower_smaller_equals = (u_lower lhs \<le> u_lower rhs)
      in upper_smaller \<or> (upper_equal \<and> lower_smaller_equals))"

definition uhugeint_plus :: "uhugeint_t \<Rightarrow> uhugeint_t \<Rightarrow> uhugeint_t" where
  "uhugeint_plus a rhs =
     \<lparr>u_lower = u_lower a + u_lower rhs,
      u_upper = u_upper a + u_upper rhs + (if u_lower a + u_lower rhs < u_lower a then 1 else 0)\<rparr>"

definition uhugeint_minus :: "uhugeint_t \<Rightarrow> uhugeint_t \<Rightarrow> uhugeint_t" where
  "uhugeint_minus a rhs =
     \<lparr>u_lower = u_lower a - u_lower rhs,
      u_upper = u_upper a - u_upper rhs - (if u_lower a - u_lower rhs > u_lower a then 1 else 0)\<rparr>"

definition uhugeint_shiftr :: "uhugeint_t \<Rightarrow> uhugeint_t \<Rightarrow> uhugeint_t" where
  "uhugeint_shiftr a rhs =
     (let shift = unat (u_lower rhs) in
      if u_upper rhs \<noteq> 0 \<or> shift \<ge> 128 then uhugeint_of 0
      else if shift = 0 then a
      else if shift = 64 then \<lparr>u_lower = u_upper a, u_upper = 0\<rparr>
      else if shift < 64 then
        \<lparr>u_lower = push_bit (64 - shift) (u_upper a) + drop_bit shift (u_lower a),
         u_upper = drop_bit shift (u_upper a)\<rparr>
      else if 128 > shift \<and> shift > 64 then \<lparr>u_lower = drop_bit (shift - 64) (u_upper a), u_upper = 0\<rparr>
      else uhugeint_of 0)"

definition uhugeint_shiftl :: "uhugeint_t \<Rightarrow> uhugeint_t \<Rightarrow> uhugeint_t" where
  "uhugeint_shiftl a rhs =
     (let shift = unat (u_lower rhs) in
      if u_upper rhs \<noteq> 0 \<or> shift \<ge> 128 then uhugeint_of 0
      else if shift = 0 then a
      else if shift = 64 then \<lparr>u_lower = 0, u_upper = u_lower a\<rparr>
      else if shift < 64 then
        \<lparr>u_lower = push_bit shift (u_lower a),
         u_upper = push_bit shift (u_upper a) + drop_bit (64 - shift) (u_lower a)\<rparr>
      else if 128 > shift \<and> shift > 64 then \<lparr>u_lower = 0, u_upper = push_bit (shift - 64) (u_lower a)\<rparr>
      else uhugeint_of 0)"

definition uhugeint_and :: "uhugeint_t \<Rightarrow> uhugeint_t \<Rightarrow> uhugeint_t" where
  "uhugeint_and a rhs = \<lparr>u_lower = u_lower a AND u_lower rhs, u_upper = u_upper a AND u_upper rhs\<rparr>"

definition uhugeint_or :: "uhugeint_t \<Rightarrow> uhugeint_t \<Rightarrow> uhugeint_t" where
  "uhugeint_or a rhs = \<lparr>u_lower = u_lower a OR u_lower rhs, u_upper = u_upper a OR u_upper rhs\<rparr>"

definition uhugeint_xor :: "uhugeint_t \<Rightarrow> uhugeint_t \<Rightarrow> uhugeint_t" where
  "uhugeint_xor a rhs = \<lparr>u_lower = u_lower a XOR u_lower rhs, u_upper = u_upper a XOR u_upper rhs\<rparr>"

definition uhugeint_not :: "uhugeint_t \<Rightarrow> uhugeint_t" where
  "uhugeint_not a = \<lparr>u_lower = NOT (u_lower a), u_upper = NOT (u_upper a)\<rparr>"

definition Uhugeint_NegateInPlace :: "uhugeint_t \<Rightarrow> uhugeint_t" where
  "Uhugeint_NegateInPlace input = uhugeint_minus (uhugeint_of 0) input"

definition Uhugeint_TryNegate :: "uhugeint_t \<Rightarrow> uhugeint_t option" where
  "Uhugeint_TryNegate input = Some (Uhugeint_NegateInPlace input)"

text \<open>The two additions that report an overflow leave the sum in place either way.\<close>

definition Uhugeint_TryAddInPlace :: "uhugeint_t \<Rightarrow> uhugeint_t \<Rightarrow> uhugeint_t \<times> bool" where
  "Uhugeint_TryAddInPlace lhs rhs =
     (let new_upper0 = u_upper lhs + u_upper rhs;
          no_overflow0 = (\<not> (new_upper0 < u_upper lhs \<or> new_upper0 < u_upper rhs));
          new_upper = new_upper0 + (if u_lower lhs + u_lower rhs < u_lower lhs then 1 else 0);
          no_overflow = (if new_upper < u_upper lhs \<or> new_upper < u_upper rhs then False else no_overflow0)
      in (\<lparr>u_lower = u_lower lhs + u_lower rhs, u_upper = new_upper\<rparr>, no_overflow))"

definition Uhugeint_TrySubtractInPlace :: "uhugeint_t \<Rightarrow> uhugeint_t \<Rightarrow> uhugeint_t \<times> bool" where
  "Uhugeint_TrySubtractInPlace lhs rhs =
     (let new_upper = u_upper lhs - u_upper rhs - (if u_lower lhs - u_lower rhs > u_lower lhs then 1 else 0);
          no_overflow = (\<not> new_upper > u_upper lhs)
      in (\<lparr>u_lower = u_lower lhs - u_lower rhs, u_upper = new_upper\<rparr>, no_overflow))"

definition Uhugeint_Add :: "uhugeint_t \<Rightarrow> uhugeint_t \<Rightarrow> uhugeint_t result" where
  "Uhugeint_Add lhs rhs =
     (case Uhugeint_TryAddInPlace lhs rhs of
        (r, True) \<Rightarrow> Inr r
      | (r, False) \<Rightarrow> Inl (OutOfRangeException ''Overflow in UHUGEINT addition: %s + %s''))"

definition Uhugeint_Subtract :: "uhugeint_t \<Rightarrow> uhugeint_t \<Rightarrow> uhugeint_t result" where
  "Uhugeint_Subtract lhs rhs =
     (case Uhugeint_TrySubtractInPlace lhs rhs of
        (r, True) \<Rightarrow> Inr r
      | (r, False) \<Rightarrow> Inl (OutOfRangeException ''Underflow in HUGEINT subtraction: %s - %s''))"

text \<open>
  Multiplication with the compiler's 128 bit integers: the product and, for the checked form, the
  overflow flag of \<open>__builtin_mul_overflow\<close>.
\<close>

definition uint128 :: "uhugeint_t \<Rightarrow> 128 word" where
  "uint128 a = ucast (u_lower a) + push_bit 64 (ucast (u_upper a))"

definition split128 :: "128 word \<Rightarrow> uhugeint_t" where
  "split128 r = \<lparr>u_lower = ucast (r AND 0xffffffffffffffff), u_upper = ucast (drop_bit 64 r)\<rparr>"

definition mul_overflow :: "128 word \<Rightarrow> 128 word \<Rightarrow> bool" where
  "mul_overflow left right \<longleftrightarrow> uint left * uint right \<ge> 2 ^ 128"

definition Uhugeint_TryMultiply :: "uhugeint_t \<Rightarrow> uhugeint_t \<Rightarrow> uhugeint_t option" where
  "Uhugeint_TryMultiply lhs rhs =
     (let left = uint128 lhs; right = uint128 rhs
      in if mul_overflow left right then None else Some (split128 (left * right)))"

definition Uhugeint_Multiply_wrap :: "uhugeint_t \<Rightarrow> uhugeint_t \<Rightarrow> uhugeint_t" where
  "Uhugeint_Multiply_wrap lhs rhs = split128 (uint128 lhs * uint128 rhs)"

definition Uhugeint_Multiply :: "uhugeint_t \<Rightarrow> uhugeint_t \<Rightarrow> uhugeint_t result" where
  "Uhugeint_Multiply lhs rhs =
     (case Uhugeint_TryMultiply lhs rhs of
        None \<Rightarrow> Inl (OutOfRangeException ''Overflow in UHUGEINT multiplication: %s * %s'')
      | Some r \<Rightarrow> Inr r)"

text \<open>
  Multiplication without them: the operands in four pieces of 32 bits, most significant first, all
  products of two pieces, and the products added up by columns.
\<close>

definition Uhugeint_pieces :: "uhugeint_t \<Rightarrow> uint64_t list" where
  "Uhugeint_pieces a =
     [drop_bit 32 (u_upper a), u_upper a AND 0xffffffff, drop_bit 32 (u_lower a), u_lower a AND 0xffffffff]"

definition Uhugeint_products :: "uhugeint_t \<Rightarrow> uhugeint_t \<Rightarrow> nat \<Rightarrow> nat \<Rightarrow> uint64_t" where
  "Uhugeint_products lhs rhs i y = Uhugeint_pieces lhs ! (3 - i) * Uhugeint_pieces rhs ! y"

text \<open>The columns before the carries are cut off: \<open>first32\<close>, \<open>second32\<close>, \<open>third32\<close>, \<open>fourth32\<close>.\<close>

definition Uhugeint_columns :: "(nat \<Rightarrow> nat \<Rightarrow> uint64_t) \<Rightarrow> uint64_t \<times> uint64_t \<times> uint64_t \<times> uint64_t" where
  "Uhugeint_columns products =
     (let low = (\<lambda>p. p AND 0xffffffff); high = (\<lambda>p. drop_bit 32 p);
          fourth0 = low (products 0 3);
          third0 = low (products 0 2) + high (products 0 3) + low (products 1 3);
          second0 = low (products 0 1) + high (products 0 2) + (low (products 1 2) + high (products 1 3))
            + low (products 2 3);
          first0 = low (products 0 0) + high (products 0 1) + (low (products 1 1) + high (products 1 2))
            + (low (products 2 2) + high (products 2 3)) + low (products 3 3);
          third1 = third0 + high fourth0;
          second1 = second0 + high third1;
          first1 = first0 + high second1
      in (first1, second1, third1, fourth0))"

definition Uhugeint_combine :: "uint64_t \<times> uint64_t \<times> uint64_t \<times> uint64_t \<Rightarrow> uhugeint_t" where
  "Uhugeint_combine columns =
     (case columns of (first32, second32, third32, fourth32) \<Rightarrow>
        \<lparr>u_lower = push_bit 32 (third32 AND 0xffffffff) OR (fourth32 AND 0xffffffff),
         u_upper = push_bit 32 (first32 AND 0xffffffff) OR (second32 AND 0xffffffff)\<rparr>)"

definition Uhugeint_TryMultiply_portable :: "uhugeint_t \<Rightarrow> uhugeint_t \<Rightarrow> uhugeint_t option" where
  "Uhugeint_TryMultiply_portable lhs rhs =
     (let products = Uhugeint_products lhs rhs in
      if products 2 1 \<noteq> 0 \<or> products 1 0 \<noteq> 0 \<or> products 2 0 \<noteq> 0 then None
      else if products 1 1 AND 0xffffffff00000000 \<noteq> 0 \<or> products 3 0 AND 0xffffffff00000000 \<noteq> 0 \<or>
          products 3 3 AND 0xffffffff00000000 \<noteq> 0 \<or> products 3 2 AND 0xffffffff00000000 \<noteq> 0 \<or>
          products 3 1 AND 0xffffffff00000000 \<noteq> 0 \<or> products 2 2 AND 0xffffffff00000000 \<noteq> 0 \<or>
          products 0 0 AND 0xffffffff00000000 \<noteq> 0 then None
      else Some (Uhugeint_combine (Uhugeint_columns products)))"

definition Uhugeint_Multiply_portable :: "uhugeint_t \<Rightarrow> uhugeint_t \<Rightarrow> uhugeint_t" where
  "Uhugeint_Multiply_portable lhs rhs = Uhugeint_combine (Uhugeint_columns (Uhugeint_products lhs rhs))"

definition Uhugeint_Bits :: "uhugeint_t \<Rightarrow> nat" where
  "Uhugeint_Bits x = (if u_upper x \<noteq> 0 then bit_count_loop (u_upper x) 64 else bit_count_loop (u_lower x) 0)"

fun Uhugeint_divmod_loop :: "uhugeint_t \<Rightarrow> uhugeint_t \<Rightarrow> nat \<Rightarrow> uhugeint_t \<Rightarrow> uhugeint_t \<Rightarrow> uhugeint_t \<times> uhugeint_t" where
  "Uhugeint_divmod_loop lhs rhs 0 r remainder = (r, remainder)"
| "Uhugeint_divmod_loop lhs rhs (Suc idx) r remainder =
     (let r1 = uhugeint_shiftl r (uhugeint_of 1);
          remainder1 = uhugeint_shiftl remainder (uhugeint_of 1);
          b = uhugeint_and (uhugeint_shiftr lhs (uhugeint_of (of_nat idx))) (uhugeint_of 1);
          remainder2 = (if \<not> Uhugeint_Equals b (uhugeint_of 0) then uhugeint_plus remainder1 (uhugeint_of 1)
                        else remainder1)
      in if Uhugeint_GreaterThanEquals remainder2 rhs then
           Uhugeint_divmod_loop lhs rhs idx (uhugeint_plus r1 (uhugeint_of 1)) (uhugeint_minus remainder2 rhs)
         else Uhugeint_divmod_loop lhs rhs idx r1 remainder2)"

definition Uhugeint_DivMod :: "uhugeint_t \<Rightarrow> uhugeint_t \<Rightarrow> uhugeint_t \<times> uhugeint_t" where
  "Uhugeint_DivMod lhs rhs =
     (if Uhugeint_Equals rhs (uhugeint_of 0) then (uhugeint_of 0, lhs)
      else if Uhugeint_Equals rhs (uhugeint_of 1) then (lhs, uhugeint_of 0)
      else if Uhugeint_Equals lhs rhs then (uhugeint_of 1, uhugeint_of 0)
      else if Uhugeint_Equals lhs (uhugeint_of 0) \<or> Uhugeint_LessThan lhs rhs then (uhugeint_of 0, lhs)
      else Uhugeint_divmod_loop lhs rhs (Uhugeint_Bits lhs) (uhugeint_of 0) (uhugeint_of 0))"

definition Uhugeint_Divide :: "uhugeint_t \<Rightarrow> uhugeint_t \<Rightarrow> uhugeint_t result" where
  "Uhugeint_Divide lhs rhs =
     (if Uhugeint_Equals rhs (uhugeint_of 0)
      then Inl (OutOfRangeException ''Division of UHUGEINT by zero: %s / %s'')
      else Inr (fst (Uhugeint_DivMod lhs rhs)))"

definition Uhugeint_Modulo :: "uhugeint_t \<Rightarrow> uhugeint_t \<Rightarrow> uhugeint_t result" where
  "Uhugeint_Modulo lhs rhs =
     (if Uhugeint_Equals rhs (uhugeint_of 0)
      then Inl (OutOfRangeException ''Modulo of UHUGEINT by zero: %s %% %s'')
      else Inr (snd (Uhugeint_DivMod lhs rhs)))"

text \<open>Conversions to and from the narrower integers; the target is given by its largest value.\<close>

definition UhugeintTryCastInteger :: "int \<Rightarrow> uhugeint_t \<Rightarrow> int option" where
  "UhugeintTryCastInteger maximum input =
     (if u_upper input = 0 \<and> u_lower input \<le> word_of_int maximum then Some (uint (u_lower input)) else None)"

definition Uhugeint_TryConvert :: "int \<Rightarrow> uhugeint_t option" where
  "Uhugeint_TryConvert value =
     (if value < 0 then None else Some \<lparr>u_lower = word_of_int value, u_upper = 0\<rparr>)"

section \<open>Values of unsigned 128 bit integers\<close>

definition uval :: "uhugeint_t \<Rightarrow> int" where
  "uval a = uint (u_upper a) * 2 ^ 64 + uint (u_lower a)"

definition uhuge :: "int \<Rightarrow> uhugeint_t" where
  "uhuge z = \<lparr>u_lower = word_of_int z, u_upper = word_of_int (z div 2 ^ 64)\<rparr>"

lemma uint64_range: "0 \<le> uint (w :: uint64_t)" "uint (w :: uint64_t) < 2 ^ 64"
  using uint_lt2p [of w] by simp_all

lemma uint64_bound: "uint (w :: uint64_t) < 18446744073709551616"
  using uint64_range(2) [of w] by simp

lemma uval_range: "0 \<le> uval a" "uval a < 2 ^ 128"
  using uint64_range [of "u_upper a"] uint64_range [of "u_lower a"] by (auto simp: uval_def)

lemma uval_mod [simp]: "uval a mod 2 ^ 128 = uval a" "uval a mod 340282366920938463463374607431768211456 = uval a"
  using uval_range [of a] by simp_all

lemma uval_uhuge [simp]: "uval (uhuge z) = z mod 2 ^ 128"
proof -
  have "(z div 2 ^ 64) mod 2 ^ 64 * 2 ^ 64 + z mod 2 ^ 64 = z mod (2 ^ 64 * 2 ^ 64)"
    by (subst zmod_zmult2_eq) simp_all
  then show ?thesis by (simp add: uval_def uhuge_def uint_word_of_int)
qed

lemma uval_upper: "uval a div 2 ^ 64 = uint (u_upper a)"
  using uint64_range [of "u_lower a"] by (simp add: uval_def)

lemma uval_lower: "uval a mod 2 ^ 64 = uint (u_lower a)"
  using uint64_range [of "u_lower a"] by (simp add: uval_def)

lemma uval_inject: "uval a = uval b \<longleftrightarrow> a = b"
  by (metis uval_upper uval_lower uhugeint_t.equality unit.exhaust word_uint_eq_iff)

lemma uhuge_uval [simp]: "uhuge (uval a) = a"
  by (simp flip: uval_inject)

lemma uhuge_eqI: "uval a = z mod 2 ^ 128 \<Longrightarrow> a = uhuge z"
  by (simp flip: uval_inject)

lemma uval_of [simp]: "uval (uhugeint_of v) = uint v"
  by (simp add: uval_def uhugeint_of_def)

lemma pair_less:
  fixes u v l k :: int
  assumes "0 \<le> l" "l < 2 ^ 64" "0 \<le> k" "k < 2 ^ 64"
  shows "u * 2 ^ 64 + l < v * 2 ^ 64 + k \<longleftrightarrow> u < v \<or> u = v \<and> l < k"
  using assms by (cases u v rule: linorder_cases) simp_all

lemma uval_compare:
  "Uhugeint_Equals a b \<longleftrightarrow> uval a = uval b"
  "Uhugeint_LessThan a b \<longleftrightarrow> uval a < uval b"
  "Uhugeint_GreaterThan a b \<longleftrightarrow> uval a > uval b"
  "Uhugeint_LessThanEquals a b \<longleftrightarrow> uval a \<le> uval b"
  "Uhugeint_GreaterThanEquals a b \<longleftrightarrow> uval a \<ge> uval b"
proof -
  show "Uhugeint_Equals a b \<longleftrightarrow> uval a = uval b"
    unfolding uval_inject by (cases a; cases b) (auto simp: Uhugeint_Equals_def)
  have less: "uval c < uval d \<longleftrightarrow> uint (u_upper c) < uint (u_upper d) \<or>
      uint (u_upper c) = uint (u_upper d) \<and> uint (u_lower c) < uint (u_lower d)" for c d
    unfolding uval_def by (rule pair_less) (rule uint64_range)+
  show "Uhugeint_LessThan a b \<longleftrightarrow> uval a < uval b" "Uhugeint_GreaterThan a b \<longleftrightarrow> uval a > uval b"
    by (auto simp: less Uhugeint_LessThan_def Uhugeint_GreaterThan_def word_less_def word_uint_eq_iff)
  show "Uhugeint_LessThanEquals a b \<longleftrightarrow> uval a \<le> uval b" "Uhugeint_GreaterThanEquals a b \<longleftrightarrow> uval a \<ge> uval b"
    by (auto simp: less Uhugeint_LessThanEquals_def Uhugeint_GreaterThanEquals_def word_less_def word_le_def
        word_uint_eq_iff not_less [symmetric])
qed

lemma add_carry_div: "(if u + v < u then 1 else 0) = (word_of_int ((uint u + uint v) div 2 ^ 64) :: uint64_t)"
  for u v :: uint64_t
proof -
  have "(uint u + uint v) div 2 ^ 64 = (if 2 ^ 64 \<le> uint u + uint v then 1 else 0)"
    using uint64_range [of u] uint64_range [of v] by auto
  then show ?thesis by (simp add: add_carry(2))
qed

lemma diff_div:
  fixes x y :: int
  assumes "0 \<le> x" "x < 2 ^ 64" "0 \<le> y" "y < 2 ^ 64"
  shows "(x - y) div 2 ^ 64 = (if x < y then - 1 else 0)"
  using assms div_pos_neg_trivial [of "x - y" "2 ^ 64"] by auto

lemma sub_borrow_div: "(if u - v > u then 1 else 0) = - (word_of_int ((uint u - uint v) div 2 ^ 64) :: uint64_t)"
  for u v :: uint64_t
  using diff_div [OF uint64_range [of u] uint64_range [of v]] by (simp add: sub_borrow(2))

lemma two_64_word: "(18446744073709551616 :: uint64_t) = 0"
  by simp

lemma uhugeint_plus_eq: "uhugeint_plus a b = uhuge (uval a + uval b)"
proof -
  have "uval a + uval b = uint (u_lower a) + uint (u_lower b) + (uint (u_upper a) + uint (u_upper b)) * 2 ^ 64"
    by (simp add: uval_def algebra_simps)
  then have "(uval a + uval b) div 2 ^ 64 = uint (u_upper a) + uint (u_upper b) + (uint (u_lower a) + uint (u_lower b)) div 2 ^ 64"
    by simp
  then show ?thesis
    by (simp add: uhugeint_plus_def uhuge_def add_carry_div) (simp add: uval_def two_64_word)
qed

lemma uhugeint_minus_eq: "uhugeint_minus a b = uhuge (uval a - uval b)"
proof -
  have "uval a - uval b = uint (u_lower a) - uint (u_lower b) + (uint (u_upper a) - uint (u_upper b)) * 2 ^ 64"
    by (simp add: uval_def algebra_simps)
  then have "(uval a - uval b) div 2 ^ 64 = uint (u_upper a) - uint (u_upper b) + (uint (u_lower a) - uint (u_lower b)) div 2 ^ 64"
    by (simp only: div_mult_self1 [of "2 ^ 64 :: int", simplified]) simp
  then show ?thesis
    by (simp add: uhugeint_minus_def uhuge_def sub_borrow_div) (simp add: uval_def two_64_word)
qed

lemma push_bit_word: "push_bit n (w :: uint64_t) = word_of_int (uint w * 2 ^ n)"
  by (simp add: push_bit_eq_mult)

lemma uint_drop: "uint (drop_bit n (w :: uint64_t)) = uint w div 2 ^ n"
  using uint64_range [of w] by (simp add: unsigned_drop_bit_eq take_bit_int_eq_self flip: drop_bit_eq_div)

lemma drop_bit_word: "drop_bit n (w :: uint64_t) = word_of_int (uint w div 2 ^ n)"
  by (metis uint_drop word_of_int_uint)

lemma word_pos: "w \<noteq> 0 \<Longrightarrow> 1 \<le> uint w" for w :: uint64_t
  using uint64_range(1) [of w] by (metis int_one_le_iff_zero_less order_le_less uint_0_iff)

lemma pair_large: "1 \<le> x \<Longrightarrow> 0 \<le> y \<Longrightarrow> 2 ^ 64 \<le> x * 2 ^ 64 + y" for x y :: int
  by simp

lemma shift_amount:
  "u_upper rhs \<noteq> 0 \<or> 128 \<le> unat (u_lower rhs) \<longleftrightarrow> 128 \<le> uval rhs"
  "uval rhs < 128 \<Longrightarrow> u_upper rhs = 0 \<and> unat (u_lower rhs) = nat (uval rhs)"
proof -
  have big: "u_upper rhs \<noteq> 0 \<Longrightarrow> 2 ^ 64 \<le> uval rhs"
    unfolding uval_def by (intro pair_large uint64_range word_pos)
  have small: "u_upper rhs = 0 \<Longrightarrow> uval rhs = uint (u_lower rhs)" by (simp add: uval_def)
  have low: "128 \<le> unat (u_lower rhs) \<longleftrightarrow> 128 \<le> uint (u_lower rhs)"
    by (simp add: unat_eq_nat_uint le_nat_iff uint64_range del: nat_uint_eq)
  show "u_upper rhs \<noteq> 0 \<or> 128 \<le> unat (u_lower rhs) \<longleftrightarrow> 128 \<le> uval rhs"
    using big small low by (cases "u_upper rhs = 0") simp_all
  show "u_upper rhs = 0 \<and> unat (u_lower rhs) = nat (uval rhs)" if "uval rhs < 128"
    using big small that by (cases "u_upper rhs = 0") simp_all
qed

lemma uval_shiftl: "uhugeint_shiftl a rhs = uhuge (uval a * 2 ^ nat (uval rhs))"
proof -
  define s where "s = nat (uval rhs)"
  show ?thesis
  proof (cases "uval rhs < 128")
    case False
    then have "uhugeint_shiftl a rhs = uhugeint_of 0"
      using shift_amount(1) [of rhs] by (simp add: uhugeint_shiftl_def)
    moreover have "128 \<le> s" using False by (simp add: s_def)
    then have "(2 :: int) ^ 128 dvd 2 ^ s" by (rule le_imp_power_dvd)
    then have "(uval a * 2 ^ s) mod 2 ^ 128 = 0" by (intro dvd_imp_mod_0 dvd_mult)
    ultimately show ?thesis by (simp only: s_def [symmetric] uval_uhuge uval_of flip: uval_inject) simp
  next
    case True
    then have up: "u_upper rhs = 0" and low: "unat (u_lower rhs) = s"
      using shift_amount(2) [of rhs] by (simp_all add: s_def)
    have s: "s < 128" using True by (simp add: s_def)
    let ?u = "uint (u_upper a)" and ?l = "uint (u_lower a)"
    consider "s = 0" | "s = 64" | "0 < s" "s < 64" | "64 < s" by linarith
    then show ?thesis
    proof cases
      case 3
      have p: "(2 :: int) ^ 64 = 2 ^ (64 - s) * 2 ^ s" using 3 by (subst power_add [symmetric]) simp
      have "uval a * 2 ^ s div 2 ^ 64 = ((?u * 2 ^ s) * 2 ^ 64 + ?l * 2 ^ s) div 2 ^ 64"
        by (simp add: uval_def algebra_simps)
      also have "\<dots> = ?u * 2 ^ s + ?l * 2 ^ s div 2 ^ 64" by simp
      also have "?l * 2 ^ s div 2 ^ 64 = ?l div 2 ^ (64 - s)" unfolding p by simp
      finally have "uhuge (uval a * 2 ^ s) = \<lparr>u_lower = push_bit s (u_lower a), u_upper = push_bit s (u_upper a) + drop_bit (64 - s) (u_lower a)\<rparr>"
        by (simp add: uhuge_def push_bit_word drop_bit_word uval_def two_64_word)
      then show ?thesis using 3 s up low by (simp add: uhugeint_shiftl_def s_def [symmetric])
    next
      case 4
      have p: "(2 :: int) ^ s = 2 ^ (s - 64) * 2 ^ 64" using 4 by (subst power_add [symmetric]) simp
      have "uhuge (uval a * 2 ^ s) = \<lparr>u_lower = 0, u_upper = push_bit (s - 64) (u_lower a)\<rparr>"
        unfolding p uhuge_def by (simp add: push_bit_word two_64_word flip: mult.assoc)
          (simp add: uval_def two_64_word)
      then show ?thesis using 4 s up low by (simp add: uhugeint_shiftl_def s_def [symmetric])
    next
      case 2
      then show ?thesis using up low
        by (simp add: uhugeint_shiftl_def s_def [symmetric] uhuge_def two_64_word) (simp add: uval_def two_64_word)
    qed (use up low in \<open>simp add: uhugeint_shiftl_def s_def [symmetric]\<close>)
  qed
qed

lemma uval_shiftr: "uhugeint_shiftr a rhs = uhuge (uval a div 2 ^ nat (uval rhs))"
proof -
  define s where "s = nat (uval rhs)"
  show ?thesis
  proof (cases "uval rhs < 128")
    case False
    then have "uhugeint_shiftr a rhs = uhugeint_of 0"
      using shift_amount(1) [of rhs] by (simp add: uhugeint_shiftr_def)
    moreover have "128 \<le> s" using False by (simp add: s_def)
    then have "(2 :: int) ^ 128 \<le> 2 ^ s" by (intro power_increasing) simp_all
    then have "uval a div 2 ^ s = 0" using uval_range [of a] by (intro div_pos_pos_trivial) linarith+
    ultimately show ?thesis by (simp only: s_def [symmetric] uval_uhuge uval_of flip: uval_inject) simp
  next
    case True
    then have up: "u_upper rhs = 0" and low: "unat (u_lower rhs) = s"
      using shift_amount(2) [of rhs] by (simp_all add: s_def)
    have s: "s < 128" using True by (simp add: s_def)
    let ?u = "uint (u_upper a)" and ?l = "uint (u_lower a)"
    have swap: "uval a div 2 ^ s div 2 ^ 64 = ?u div 2 ^ s"
      by (metis uval_upper zdiv_zmult2_eq mult.commute zero_le_power zero_le_numeral)
    consider "s = 0" | "s = 64" | "0 < s" "s < 64" | "64 < s" by linarith
    then show ?thesis
    proof cases
      case 3
      have p: "(2 :: int) ^ 64 = 2 ^ (64 - s) * 2 ^ s" using 3 by (subst power_add [symmetric]) simp
      have "uval a div 2 ^ s = (?u * 2 ^ (64 - s) * 2 ^ s + ?l) div 2 ^ s" unfolding uval_def p mult.assoc ..
      also have "\<dots> = ?u * 2 ^ (64 - s) + ?l div 2 ^ s" by simp
      finally have "uhuge (uval a div 2 ^ s) =
          \<lparr>u_lower = push_bit (64 - s) (u_upper a) + drop_bit s (u_lower a), u_upper = drop_bit s (u_upper a)\<rparr>"
        using swap by (simp add: uhuge_def push_bit_word drop_bit_word)
      then show ?thesis using 3 s up low by (simp add: uhugeint_shiftr_def s_def [symmetric])
    next
      case 4
      have p: "(2 :: int) ^ s = 2 ^ 64 * 2 ^ (s - 64)" using 4 by (subst power_add [symmetric]) simp
      have "uval a div 2 ^ s = ?u div 2 ^ (s - 64)" unfolding p by (subst zdiv_zmult2_eq) (simp_all only: uval_upper, simp)
      moreover have "?u div 2 ^ s = 0"
      proof -
        have "(2 :: int) ^ 64 \<le> 2 ^ s" using 4 by (intro power_increasing) simp_all
        then show ?thesis using uint64_range [of "u_upper a"] by simp
      qed
      ultimately have "uhuge (uval a div 2 ^ s) = \<lparr>u_lower = drop_bit (s - 64) (u_upper a), u_upper = 0\<rparr>"
        using swap by (simp add: uhuge_def drop_bit_word)
      then show ?thesis using 4 s up low by (simp add: uhugeint_shiftr_def s_def [symmetric])
    next
      case 2
      then show ?thesis using up low uval_upper [of a] uint64_bound [of "u_upper a"] uint64_range(1) [of "u_upper a"]
        by (simp add: uhugeint_shiftr_def s_def [symmetric] uhuge_def)
    qed (use up low in \<open>simp add: uhugeint_shiftr_def s_def [symmetric]\<close>)
  qed
qed

lemma uval_and_one: "uval (uhugeint_and a (uhugeint_of 1)) = uval a mod 2"
proof -
  have "uint (u_lower a AND 1) = uint (u_lower a) mod 2" by (simp add: and_one_eq uint_mod_distrib)
  moreover have "uval a = uint (u_lower a) + 2 * (uint (u_upper a) * 2 ^ 63)" by (simp add: uval_def)
  then have "uval a mod 2 = uint (u_lower a) mod 2" by presburger
  ultimately show ?thesis by (simp add: uval_def uhugeint_and_def uhugeint_of_def)
qed

lemma Uhugeint_Negate_eq: "Uhugeint_NegateInPlace a = uhuge (- uval a)"
  by (simp add: Uhugeint_NegateInPlace_def uhugeint_minus_eq)

text \<open>The checked addition is exact; the checked subtraction misses one kind of underflow.\<close>

lemma add_overflow_check:
  fixes u v c :: int
  assumes "0 \<le> u" "u < 2 ^ 64" "0 \<le> v" "v < 2 ^ 64" "c = 0 \<or> c = 1"
  defines "w \<equiv> (if u + v < 2 ^ 64 then u + v else u + v - 2 ^ 64)"
  shows "\<not> ((if w + c < 2 ^ 64 then w + c else w + c - 2 ^ 64) < u \<or> (if w + c < 2 ^ 64 then w + c else w + c - 2 ^ 64) < v) \<and>
    \<not> (w < u \<or> w < v) \<longleftrightarrow> u + v + c < 2 ^ 64"
  using assms(1-5) by (auto simp: w_def split: if_splits)

lemma sub_underflow_check:
  fixes u v c :: int
  assumes "0 \<le> u" "u < 2 ^ 64" "0 \<le> v" "v < 2 ^ 64" "c = 0 \<or> c = 1"
  defines "w \<equiv> (if v \<le> u then u - v else u - v + 2 ^ 64)"
  shows "\<not> u < (if c \<le> w then w - c else w - c + 2 ^ 64) \<longleftrightarrow> v + c \<le> u \<or> v + c = 2 ^ 64"
  using assms(1-5) by (auto simp: w_def split: if_splits)

lemma Uhugeint_TryAdd_eq:
  "Uhugeint_TryAddInPlace a b = (uhuge (uval a + uval b), uval a + uval b < 2 ^ 128)"
proof -
  have sum: "fst (Uhugeint_TryAddInPlace a b) = uhugeint_plus a b"
    by (simp add: Uhugeint_TryAddInPlace_def uhugeint_plus_def Let_def)
  let ?u = "uint (u_upper a)" and ?v = "uint (u_upper b)" and ?l = "uint (u_lower a)" and ?k = "uint (u_lower b)"
  note r = uint64_range [of "u_upper a"] uint64_range [of "u_upper b"] uint64_range [of "u_lower a"] uint64_range [of "u_lower b"]
  define c where "c = (if 2 ^ 64 \<le> ?l + ?k then 1 else 0 :: int)"
  have carry: "(if u_lower a + u_lower b < u_lower a then 1 else 0 :: uint64_t) = word_of_int c"
    by (simp add: c_def add_carry(2))
  have up: "uint (u_upper a + u_upper b) = (if ?u + ?v < 2 ^ 64 then ?u + ?v else ?u + ?v - 2 ^ 64)"
    by (simp add: uint_plus_if')
  have nu: "uint (u_upper a + u_upper b + word_of_int c) =
      (if uint (u_upper a + u_upper b) + c < 2 ^ 64 then uint (u_upper a + u_upper b) + c else uint (u_upper a + u_upper b) + c - 2 ^ 64)"
    by (simp add: uint_plus_if' c_def)
  have "snd (Uhugeint_TryAddInPlace a b) \<longleftrightarrow>
      \<not> (u_upper a + u_upper b + word_of_int c < u_upper a \<or> u_upper a + u_upper b + word_of_int c < u_upper b) \<and>
      \<not> (u_upper a + u_upper b < u_upper a \<or> u_upper a + u_upper b < u_upper b)"
    unfolding Uhugeint_TryAddInPlace_def Let_def carry snd_conv by simp
  also have "\<dots> \<longleftrightarrow> ?u + ?v + c < 2 ^ 64"
    unfolding word_less_def nu up by (rule add_overflow_check [OF uint64_range uint64_range]) (simp add: c_def)
  also have "\<dots> \<longleftrightarrow> uval a + uval b < 2 ^ 128"
  proof -
    have "x + y + (if 2 ^ 64 \<le> l + k then 1 else 0) < 2 ^ 64 \<longleftrightarrow> x * 2 ^ 64 + l + (y * 2 ^ 64 + k) < 2 ^ 128"
      if "0 \<le> x" "0 \<le> y" "0 \<le> l" "0 \<le> k" "l < 2 ^ 64" "k < 2 ^ 64" for x y l k :: int using that by auto
    from this [of ?u ?v ?l ?k] r show ?thesis unfolding c_def uval_def by (simp only: simp_thms)
  qed
  finally show ?thesis using sum by (simp add: uhugeint_plus_eq prod_eq_iff)
qed

lemma Uhugeint_TrySubtract_eq:
  "Uhugeint_TrySubtractInPlace a b =
     (uhuge (uval a - uval b),
      uval b \<le> uval a \<or> u_upper b = - 1 \<and> u_lower a < u_lower b)"
proof -
  have diff: "fst (Uhugeint_TrySubtractInPlace a b) = uhugeint_minus a b"
    by (simp add: Uhugeint_TrySubtractInPlace_def uhugeint_minus_def Let_def)
  let ?u = "uint (u_upper a)" and ?v = "uint (u_upper b)" and ?l = "uint (u_lower a)" and ?k = "uint (u_lower b)"
  note r = uint64_range [of "u_upper a"] uint64_range [of "u_upper b"] uint64_range [of "u_lower a"] uint64_range [of "u_lower b"]
  define c where "c = (if ?l < ?k then 1 else 0 :: int)"
  have borrow: "(if u_lower a - u_lower b > u_lower a then 1 else 0 :: uint64_t) = word_of_int c"
    by (simp add: c_def sub_borrow(2))
  have up: "uint (u_upper a - u_upper b) = (if ?v \<le> ?u then ?u - ?v else ?u - ?v + 2 ^ 64)"
    by (simp add: uint_sub_if')
  have nu: "uint (u_upper a - u_upper b - word_of_int c) =
      (if c \<le> uint (u_upper a - u_upper b) then uint (u_upper a - u_upper b) - c else uint (u_upper a - u_upper b) - c + 2 ^ 64)"
    by (simp add: uint_sub_if' c_def)
  have "snd (Uhugeint_TrySubtractInPlace a b) \<longleftrightarrow> \<not> u_upper a < u_upper a - u_upper b - word_of_int c"
    unfolding Uhugeint_TrySubtractInPlace_def Let_def borrow snd_conv ..
  also have "\<dots> \<longleftrightarrow> ?v + c \<le> ?u \<or> ?v + c = 2 ^ 64"
    unfolding word_less_def nu up by (rule sub_underflow_check [OF uint64_range uint64_range]) (simp add: c_def)
  finally have flag: "snd (Uhugeint_TrySubtractInPlace a b) \<longleftrightarrow> ?v + c \<le> ?u \<or> ?v + c = 2 ^ 64" .
  have "u_upper b = - 1 \<longleftrightarrow> ?v = 2 ^ 64 - 1" by (simp add: word_uint_eq_iff unsigned_minus_1_eq_mask mask_eq_exp_minus_1)
  moreover have "y + (if l < k then 1 else 0) \<le> x \<longleftrightarrow> y * 2 ^ 64 + k \<le> x * 2 ^ 64 + l"
    if "0 \<le> l" "0 \<le> k" "l < 2 ^ 64" "k < 2 ^ 64" for x y l k :: int
    using pair_less [of l k x y] that by (auto simp: not_less [symmetric])
  from this [of ?l ?k ?v ?u] have "?v + c \<le> ?u \<longleftrightarrow> uval b \<le> uval a"
    using r unfolding c_def uval_def by (simp only: simp_thms)
  moreover have "?v + c = 2 ^ 64 \<longleftrightarrow> ?v = 2 ^ 64 - 1 \<and> u_lower a < u_lower b"
    using r by (auto simp: c_def word_less_def)
  ultimately show ?thesis using diff flag by (simp add: uhugeint_minus_eq prod_eq_iff)
qed

section \<open>Multiplication\<close>

lemma low_word: "(w :: uint64_t) AND 0xffffffff = word_of_int (uint w mod 2 ^ 32)"
proof -
  have "w AND 0xffffffff = take_bit 32 w" by (simp add: take_bit_eq_mask mask_eq_exp_minus_1)
  then have "uint (w AND 0xffffffff) = uint w mod 2 ^ 32" by (simp add: take_bit_eq_mod uint_mod_distrib)
  then show ?thesis by (metis word_of_int_uint)
qed

lemma glue_words:
  "push_bit 32 ((x :: uint64_t) AND 0xffffffff) OR (y AND 0xffffffff) = word_of_int (uint x mod 2 ^ 32 * 2 ^ 32 + uint y mod 2 ^ 32)"
proof -
  have m: "(0xffffffff :: uint64_t) = mask 32" by (simp add: mask_eq_exp_minus_1)
  have "push_bit 32 (x AND 0xffffffff) OR (y AND 0xffffffff) = push_bit 32 (x AND 0xffffffff) + (y AND 0xffffffff)"
    by (rule disjunctive_add [symmetric]) (auto simp: m bit_simps)
  then show ?thesis by (simp add: low_word push_bit_eq_mult)
qed

lemma uint128_eq: "uint128 a = word_of_int (uval a)"
  by (simp only: uint128_def uval_def push_bit_eq_mult ucast_eq of_int_add of_int_mult of_int_power of_int_numeral add.commute)

lemma split128_eq: "split128 r = uhuge (uint r)"
proof -
  have "r AND 0xffffffffffffffff = take_bit 64 r" by (simp add: take_bit_eq_mask mask_eq_exp_minus_1)
  then have "uint (r AND 0xffffffffffffffff) = uint r mod 2 ^ 64" by (simp add: take_bit_eq_mod uint_mod_distrib)
  moreover have "uint (drop_bit 64 r) = uint r div 2 ^ 64"
    by (simp add: drop_bit_eq_div uint_div_distrib)
  moreover have "(word_of_int (uint r mod 2 ^ 64) :: uint64_t) = word_of_int (uint r)"
    by (simp only: word_uint_eq_iff uint_word_of_int) simp
  ultimately show ?thesis by (simp only: split128_def uhuge_def ucast_eq)
qed

lemma uint_product128: "uint (uint128 a * uint128 b) = uval a * uval b mod 2 ^ 128" "uint (uint128 a) = uval a"
  by (simp_all only: uint128_eq of_int_mult [symmetric] uint_word_of_int) simp_all

lemma Uhugeint_Multiply_wrap_eq: "Uhugeint_Multiply_wrap a b = uhuge (uval a * uval b)"
  by (simp only: Uhugeint_Multiply_wrap_def split128_eq uint_product128 flip: uval_inject) simp

lemma Uhugeint_TryMultiply_eq:
  "Uhugeint_TryMultiply a b = (if uval a * uval b < 2 ^ 128 then Some (uhuge (uval a * uval b)) else None)"
  using Uhugeint_Multiply_wrap_eq [of a b]
  by (simp add: Uhugeint_TryMultiply_def mul_overflow_def uint_product128 Uhugeint_Multiply_wrap_def not_le [symmetric] Let_def)

text \<open>The columns of the portable multiplication, over arbitrary partial products.\<close>

lemma column_word:
  fixes x :: int
  assumes "0 \<le> x" "x < 2 ^ 64"
  shows "drop_bit 32 (word_of_int x :: uint64_t) = word_of_int (x div 2 ^ 32)"
    and "(word_of_int x :: uint64_t) AND 0xffffffff = word_of_int (x mod 2 ^ 32)"
  using assms by (simp_all add: drop_bit_word low_word uint_word_of_int)

lemma glue_word:
  fixes x y :: int
  assumes "0 \<le> x" "x < 2 ^ 64" "0 \<le> y" "y < 2 ^ 64"
  shows "push_bit 32 ((word_of_int x :: uint64_t) AND 0xffffffff) OR (word_of_int y AND 0xffffffff) =
    word_of_int (x mod 2 ^ 32 * 2 ^ 32 + y mod 2 ^ 32)"
  using assms by (simp only: glue_words uint_word_of_int) simp

lemma high_range: "0 \<le> uint (w :: uint64_t) div 2 ^ 32" "uint (w :: uint64_t) div 2 ^ 32 < 2 ^ 32"
  using uint64_range [of w] by (simp_all add: div_less_iff_less_mult pos_imp_zdiv_nonneg_iff)

lemma carried_columns:
  fixes a b c d :: int
  defines "c1 \<equiv> c + d div 2 ^ 32" defines "b1 \<equiv> b + c1 div 2 ^ 32" defines "a1 \<equiv> a + b1 div 2 ^ 32"
  shows "a1 * 2 ^ 96 + b1 mod 2 ^ 32 * 2 ^ 64 + c1 mod 2 ^ 32 * 2 ^ 32 + d mod 2 ^ 32 = d + c * 2 ^ 32 + b * 2 ^ 64 + a * 2 ^ 96"
proof -
  define d' c' b' where "d' = d div 2 ^ 32" and "c' = c1 div 2 ^ 32" and "b' = b1 div 2 ^ 32"
  define dl cl bl where "dl = d mod 2 ^ 32" and "cl = c1 mod 2 ^ 32" and "bl = b1 mod 2 ^ 32"
  note defs = d'_def c'_def b'_def dl_def cl_def bl_def
  have dec: "d = d' * 2 ^ 32 + dl" "c1 = c' * 2 ^ 32 + cl" "b1 = b' * 2 ^ 32 + bl" unfolding defs by simp_all
  show ?thesis unfolding dl_def [symmetric] cl_def [symmetric] bl_def [symmetric]
    using dec c1_def b1_def a1_def d'_def c'_def b'_def by (simp add: algebra_simps)
qed

text \<open>The columns hold the sum of the products of at most \<open>2 ^ 96\<close>, less what the highest ones carry out.\<close>

lemma columns_value:
  obtains a1 b1 c1 d :: int where "Uhugeint_columns p = (word_of_int a1, word_of_int b1, word_of_int c1, word_of_int d)"
    "0 \<le> a1" "a1 < 2 ^ 37" "0 \<le> b1" "b1 < 2 ^ 37" "0 \<le> c1" "c1 < 2 ^ 37" "0 \<le> d" "d < 2 ^ 37"
    "a1 * 2 ^ 96 + b1 mod 2 ^ 32 * 2 ^ 64 + c1 mod 2 ^ 32 * 2 ^ 32 + d mod 2 ^ 32
      + (uint (p 0 0) div 2 ^ 32 + uint (p 1 1) div 2 ^ 32 + uint (p 2 2) div 2 ^ 32 + uint (p 3 3) div 2 ^ 32) * 2 ^ 128 =
     uint (p 0 3) + (uint (p 0 2) + uint (p 1 3)) * 2 ^ 32 + (uint (p 0 1) + uint (p 1 2) + uint (p 2 3)) * 2 ^ 64
      + (uint (p 0 0) + uint (p 1 1) + uint (p 2 2) + uint (p 3 3)) * 2 ^ 96"
proof -
  let ?l = "\<lambda>i y. uint (p i y) mod 2 ^ 32" and ?h = "\<lambda>i y. uint (p i y) div 2 ^ 32"
  define d where "d = ?l 0 3"
  define c where "c = ?l 0 2 + ?h 0 3 + ?l 1 3"
  define b where "b = ?l 0 1 + ?h 0 2 + (?l 1 2 + ?h 1 3) + ?l 2 3"
  define a where "a = ?l 0 0 + ?h 0 1 + (?l 1 1 + ?h 1 2) + (?l 2 2 + ?h 2 3) + ?l 3 3"
  have lr: "0 \<le> ?l i y" "?l i y < 2 ^ 32" for i y by simp_all
  note hr = high_range [of "p i y" for i y]
  have d: "0 \<le> d" "d < 2 ^ 36" unfolding d_def using lr [of 0 3] by simp_all
  have c: "0 \<le> c" "c < 2 ^ 36" unfolding c_def using lr [of 0 2] lr [of 1 3] hr [of 0 3] by simp_all
  have b: "0 \<le> b" "b < 2 ^ 36" unfolding b_def using lr [of 0 1] lr [of 1 2] lr [of 2 3] hr [of 0 2] hr [of 1 3] by simp_all
  have sum7: "x1 + x2 + (x3 + x4) + (x5 + x6) + x7 < 2 ^ 36"
    if "x1 < 2 ^ 32" "x2 < 2 ^ 32" "x3 < 2 ^ 32" "x4 < 2 ^ 32" "x5 < 2 ^ 32" "x6 < 2 ^ 32" "x7 < 2 ^ 32"
    for x1 x2 x3 x4 x5 x6 x7 :: int using that by simp
  have a: "0 \<le> a" "a < 2 ^ 36"
    unfolding a_def by (intro add_nonneg_nonneg lr hr) (intro sum7 lr hr)
  define c1 where "c1 = c + d div 2 ^ 32"
  define b1 where "b1 = b + c1 div 2 ^ 32"
  define a1 where "a1 = a + b1 div 2 ^ 32"
  have c1: "0 \<le> c1" "c1 < 2 ^ 37" using c d by (auto simp: c1_def)
  have b1: "0 \<le> b1" "b1 < 2 ^ 37" using b c1 by (auto simp: b1_def)
  have a1: "0 \<le> a1" "a1 < 2 ^ 37" using a b1 by (auto simp: a1_def)
  have big: "x < 2 ^ 36 \<Longrightarrow> x < 2 ^ 64" "x < 2 ^ 37 \<Longrightarrow> x < 2 ^ 64" for x :: int by simp_all
  have columns: "Uhugeint_columns p = (word_of_int a1, word_of_int b1, word_of_int c1, word_of_int d)"
    unfolding Uhugeint_columns_def Let_def low_word [of "p i y" for i y] drop_bit_word [of 32 "p i y" for i y] of_int_add [symmetric]
      d_def [symmetric] c_def [symmetric] b_def [symmetric] a_def [symmetric]
      column_word(1) [OF d(1) big(1) [OF d(2)]] c1_def [symmetric] column_word(1) [OF c1(1) big(2) [OF c1(2)]] b1_def [symmetric]
      column_word(1) [OF b1(1) big(2) [OF b1(2)]] a1_def [symmetric] ..
  have "d + c * 2 ^ 32 + b * 2 ^ 64 + a * 2 ^ 96 + (?h 0 0 + ?h 1 1 + ?h 2 2 + ?h 3 3) * 2 ^ 128 =
      uint (p 0 3) + (uint (p 0 2) + uint (p 1 3)) * 2 ^ 32 + (uint (p 0 1) + uint (p 1 2) + uint (p 2 3)) * 2 ^ 64
      + (uint (p 0 0) + uint (p 1 1) + uint (p 2 2) + uint (p 3 3)) * 2 ^ 96"
  proof -
    define H L where "H = ?h" and "L = ?l"
    have HL: "?h i y = H i y" "?l i y = L i y" for i y by (simp_all add: H_def L_def)
    have s: "uint (p i y) = H i y * 2 ^ 32 + L i y" for i y by (simp add: H_def L_def)
    show ?thesis
      unfolding d_def c_def b_def a_def HL unfolding s by (simp add: algebra_simps)
  qed
  note total = this [folded carried_columns [of a b c d, folded c1_def, folded b1_def, folded a1_def]]
  have "d < 2 ^ 37" using d(2) by simp
  show ?thesis by (rule that [OF columns a1 b1 c1 d(1) \<open>d < 2 ^ 37\<close> total])
qed

lemma uval_combine:
  "uval (Uhugeint_combine (Uhugeint_columns p)) =
     (uint (p 0 3) + (uint (p 0 2) + uint (p 1 3)) * 2 ^ 32 + (uint (p 0 1) + uint (p 1 2) + uint (p 2 3)) * 2 ^ 64
      + (uint (p 0 0) + uint (p 1 1) + uint (p 2 2) + uint (p 3 3)) * 2 ^ 96) mod 2 ^ 128" (is "_ = ?total mod _")
proof -
  obtain a1 b1 c1 d :: int where cols: "Uhugeint_columns p = (word_of_int a1, word_of_int b1, word_of_int c1, word_of_int d)"
    and r: "0 \<le> a1" "a1 < 2 ^ 37" "0 \<le> b1" "b1 < 2 ^ 37" "0 \<le> c1" "c1 < 2 ^ 37" "0 \<le> d" "d < 2 ^ 37"
    and total: "a1 * 2 ^ 96 + b1 mod 2 ^ 32 * 2 ^ 64 + c1 mod 2 ^ 32 * 2 ^ 32 + d mod 2 ^ 32
      + (uint (p 0 0) div 2 ^ 32 + uint (p 1 1) div 2 ^ 32 + uint (p 2 2) div 2 ^ 32 + uint (p 3 3) div 2 ^ 32) * 2 ^ 128 = ?total"
    by (rule columns_value)
  have big: "x < 2 ^ 37 \<Longrightarrow> x < 2 ^ 64" for x :: int by simp
  have "uint (word_of_int (x mod 2 ^ 32 * 2 ^ 32 + y mod 2 ^ 32) :: uint64_t) = x mod 2 ^ 32 * 2 ^ 32 + y mod 2 ^ 32" for x y :: int
  proof -
    have "0 \<le> x mod 2 ^ 32" "x mod 2 ^ 32 < 2 ^ 32" "0 \<le> y mod 2 ^ 32" "y mod 2 ^ 32 < 2 ^ 32" by simp_all
    then show ?thesis unfolding uint_word_of_int by (intro mod_pos_pos_trivial) simp_all
  qed
  then have val: "uval (Uhugeint_combine (Uhugeint_columns p)) =
      (a1 mod 2 ^ 32 * 2 ^ 32 + b1 mod 2 ^ 32) * 2 ^ 64 + (c1 mod 2 ^ 32 * 2 ^ 32 + d mod 2 ^ 32)"
    unfolding cols Uhugeint_combine_def prod.case
      glue_word [OF r(5) big [OF r(6)] r(7) big [OF r(8)]] glue_word [OF r(1) big [OF r(2)] r(3) big [OF r(4)]]
    by (simp only: uval_def uhugeint_t.simps)
  define q al where "q = a1 div 2 ^ 32" and "al = a1 mod 2 ^ 32"
  have a1: "a1 = q * 2 ^ 32 + al" by (simp add: q_def al_def)
  define bl cl dl where "bl = b1 mod 2 ^ 32" and "cl = c1 mod 2 ^ 32" and "dl = d mod 2 ^ 32"
  define k where "k = uint (p 0 0) div 2 ^ 32 + uint (p 1 1) div 2 ^ 32 + uint (p 2 2) div 2 ^ 32 + uint (p 3 3) div 2 ^ 32"
  have "?total = (al * 2 ^ 32 + bl) * 2 ^ 64 + (cl * 2 ^ 32 + dl) + (q + k) * 2 ^ 128"
    unfolding total [symmetric] k_def [symmetric] bl_def [symmetric] cl_def [symmetric] dl_def [symmetric]
    by (simp add: a1 algebra_simps)
  then have "?total mod 2 ^ 128 = ((al * 2 ^ 32 + bl) * 2 ^ 64 + (cl * 2 ^ 32 + dl) + (q + k) * 2 ^ 128) mod 2 ^ 128"
    by (rule arg_cong)
  then have "?total mod 2 ^ 128 = ((al * 2 ^ 32 + bl) * 2 ^ 64 + (cl * 2 ^ 32 + dl)) mod 2 ^ 128" by (simp only: mod_mult_self1)
  moreover have "0 \<le> al" "al < 2 ^ 32" "0 \<le> bl" "bl < 2 ^ 32" "0 \<le> cl" "cl < 2 ^ 32" "0 \<le> dl" "dl < 2 ^ 32"
    by (simp_all add: al_def bl_def cl_def dl_def)
  ultimately show ?thesis unfolding val al_def [symmetric] bl_def [symmetric] cl_def [symmetric] dl_def [symmetric] by simp
qed

lemma piece_product:
  assumes "uint (a :: uint64_t) < 2 ^ 32" "uint (b :: uint64_t) < 2 ^ 32"
  shows "uint (a * b) = uint a * uint b"
proof -
  have "uint a * uint b \<le> (2 ^ 32 - 1) * (2 ^ 32 - 1)" using assms uint64_range(1) [of a] uint64_range(1) [of b]
    by (intro mult_mono) simp_all
  then have "uint a * uint b < 2 ^ 64" by simp
  then show ?thesis using uint64_range(1) [of a] uint64_range(1) [of b] by (simp add: uint_word_ariths)
qed

text \<open>A 128 bit number in four digits of 32 bits.\<close>

definition pieces_value :: "uint64_t list \<Rightarrow> int" where
  "pieces_value ps = uint (ps ! 0) * 2 ^ 96 + uint (ps ! 1) * 2 ^ 64 + uint (ps ! 2) * 2 ^ 32 + uint (ps ! 3)"

lemma halves: "uint (w :: uint64_t) = uint (drop_bit 32 w) * 2 ^ 32 + uint (w AND 0xffffffff)"
  "uint (drop_bit 32 (w :: uint64_t)) < 2 ^ 32" "uint ((w :: uint64_t) AND 0xffffffff) < 2 ^ 32"
proof -
  have "0 \<le> uint w mod 2 ^ 32" "uint w mod 2 ^ 32 < 2 ^ 32" by simp_all
  then have l: "uint (w AND 0xffffffff) = uint w mod 2 ^ 32" by (simp add: low_word uint_word_of_int)
  show "uint (w :: uint64_t) = uint (drop_bit 32 w) * 2 ^ 32 + uint (w AND 0xffffffff)" unfolding uint_drop l by simp
  show "uint (drop_bit 32 w) < 2 ^ 32" unfolding uint_drop by (rule high_range)
  show "uint (w AND 0xffffffff) < 2 ^ 32" unfolding l by simp
qed

lemma piece_bound: "i < 4 \<Longrightarrow> uint (Uhugeint_pieces a ! i) < 2 ^ 32"
  using halves(2,3) [of "u_upper a"] halves(2,3) [of "u_lower a"]
  by (auto simp: Uhugeint_pieces_def less_Suc_eq numeral_eq_Suc simp del: uint_bounded)

lemma uval_pieces: "uval a = pieces_value (Uhugeint_pieces a)"
proof -
  have "uval a = (uint (drop_bit 32 (u_upper a)) * 2 ^ 32 + uint (u_upper a AND 0xffffffff)) * 2 ^ 64 +
      (uint (drop_bit 32 (u_lower a)) * 2 ^ 32 + uint (u_lower a AND 0xffffffff))"
    unfolding uval_def halves(1) [symmetric] ..
  then show ?thesis by (simp add: pieces_value_def Uhugeint_pieces_def algebra_simps)
qed

lemma Uhugeint_products_eq:
  "i < 4 \<Longrightarrow> y < 4 \<Longrightarrow> uint (Uhugeint_products a b i y) = uint (Uhugeint_pieces a ! (3 - i)) * uint (Uhugeint_pieces b ! y)"
  unfolding Uhugeint_products_def by (intro piece_product piece_bound) simp_all

text \<open>All sixteen products by the power of two they stand for.\<close>

lemma product_expansion:
  fixes a b :: uhugeint_t
  defines "p \<equiv> \<lambda>i y. uint (Uhugeint_products a b i y)"
  shows "uval a * uval b =
     p 0 3 + (p 0 2 + p 1 3) * 2 ^ 32 + (p 0 1 + p 1 2 + p 2 3) * 2 ^ 64 + (p 0 0 + p 1 1 + p 2 2 + p 3 3) * 2 ^ 96
     + (p 1 0 + p 2 1 + p 3 2 + (p 2 0 + p 3 1) * 2 ^ 32 + p 3 0 * 2 ^ 64) * 2 ^ 128"
proof -
  define A B where "A i = uint (Uhugeint_pieces a ! i)" and "B i = uint (Uhugeint_pieces b ! i)" for i
  have p: "p i y = A (3 - i) * B y" if "i < 4" "y < 4" for i y
    unfolding p_def A_def B_def by (rule Uhugeint_products_eq [OF that])
  have "uval a * uval b = (A 0 * 2 ^ 96 + A 1 * 2 ^ 64 + A 2 * 2 ^ 32 + A 3) * (B 0 * 2 ^ 96 + B 1 * 2 ^ 64 + B 2 * 2 ^ 32 + B 3)"
    by (simp only: uval_pieces pieces_value_def A_def B_def)
  also have "\<dots> = A 3 * B 3 + (A 3 * B 2 + A 2 * B 3) * 2 ^ 32 + (A 3 * B 1 + A 2 * B 2 + A 1 * B 3) * 2 ^ 64
      + (A 3 * B 0 + A 2 * B 1 + A 1 * B 2 + A 0 * B 3) * 2 ^ 96
      + (A 2 * B 0 + A 1 * B 1 + A 0 * B 2 + (A 1 * B 0 + A 0 * B 1) * 2 ^ 32 + A 0 * B 0 * 2 ^ 64) * 2 ^ 128"
    by (simp add: algebra_simps)
  finally show ?thesis by (simp add: p)
qed

lemma Uhugeint_Multiply_portable_eq: "Uhugeint_Multiply_portable a b = uhuge (uval a * uval b)"
proof (rule uhuge_eqI)
  show "uval (Uhugeint_Multiply_portable a b) = uval a * uval b mod 2 ^ 128"
    unfolding Uhugeint_Multiply_portable_def uval_combine product_expansion by (rule mod_mult_self1 [symmetric])
qed

lemma piece_product_le:
  assumes "i < 4" "j < 4"
  shows "uint (Uhugeint_pieces a ! i) * uint (Uhugeint_pieces b ! j) * (2 ^ (32 * (3 - i)) * 2 ^ (32 * (3 - j))) \<le> uval a * uval b"
proof -
  have part: "uint (Uhugeint_pieces c ! k) * 2 ^ (32 * (3 - k)) \<le> uval c" if "k < 4" for c k
  proof -
    have "k = 0 \<or> k = 1 \<or> k = 2 \<or> k = 3" using that by linarith
    then show ?thesis unfolding uval_pieces pieces_value_def by (auto simp: uint64_range(1))
  qed
  have "(uint (Uhugeint_pieces a ! i) * 2 ^ (32 * (3 - i))) * (uint (Uhugeint_pieces b ! j) * 2 ^ (32 * (3 - j))) \<le> uval a * uval b"
    by (intro mult_mono part assms uval_range(1)) (simp add: uint64_range(1))
  then show ?thesis by (simp only: ac_simps)
qed

lemma div_zero_iff: "0 \<le> x \<Longrightarrow> x div 2 ^ 32 = 0 \<longleftrightarrow> x < 2 ^ 32" for x :: int
  by (auto simp: zdiv_eq_0_iff)

lemma high_bits: "(w :: uint64_t) AND 0xffffffff00000000 \<noteq> 0 \<longleftrightarrow> 2 ^ 32 \<le> uint w"
proof -
  have m: "(0xffffffff00000000 :: uint64_t) = push_bit 32 (mask 32)" by (simp add: mask_eq_exp_minus_1)
  have "w AND 0xffffffff00000000 = push_bit 32 (drop_bit 32 w)"
    unfolding m by (rule bit_eqI) (auto simp: bit_simps)
  moreover have "uint (push_bit 32 (drop_bit 32 w)) = uint w div 2 ^ 32 * 2 ^ 32"
  proof -
    have "0 \<le> uint w div 2 ^ 32 * 2 ^ 32" "uint w div 2 ^ 32 * 2 ^ 32 < 2 ^ 64"
      using high_range [of w] by simp_all
    then show ?thesis unfolding push_bit_word uint_drop uint_word_of_int by simp
  qed
  moreover have "uint w div 2 ^ 32 = 0 \<longleftrightarrow> uint w < 2 ^ 32"
    using uint64_range(1) [of w] by (rule div_zero_iff)
  ultimately show ?thesis by (auto simp: word_uint_eq_iff not_le)
qed

lemma product_term_le:
  assumes "i < 4" "y < 4"
  shows "uint (Uhugeint_products a b i y) * 2 ^ (32 * (i + (3 - y))) \<le> uval a * uval b"
proof -
  have "32 * (3 - (3 - i)) + 32 * (3 - y) = 32 * (i + (3 - y))" using assms by simp
  moreover have "3 - i < 4" by linarith
  ultimately show ?thesis using piece_product_le [of "3 - i" y a b] assms
    by (simp add: Uhugeint_products_eq power_add [symmetric])
qed

lemma product_beyond:
  assumes "uval a * uval b < 2 ^ 128" "i < 4" "y < i"
  shows "Uhugeint_products a b i y = 0"
proof (rule ccontr)
  assume "Uhugeint_products a b i y \<noteq> 0"
  then have "1 \<le> uint (Uhugeint_products a b i y)" by (rule word_pos)
  moreover have "(2 :: int) ^ 128 \<le> 2 ^ (32 * (i + (3 - y)))" using assms by (intro power_increasing) simp_all
  ultimately have "1 * 2 ^ 128 \<le> uint (Uhugeint_products a b i y) * 2 ^ (32 * (i + (3 - y)))" by (intro mult_mono) simp_all
  then show False using product_term_le [of i y a b] assms by simp
qed

lemma portable_accepts:
  assumes "uval a * uval b < 2 ^ 128"
  shows "Uhugeint_TryMultiply_portable a b = Some (uhuge (uval a * uval b))"
proof -
  have diag: "\<not> 2 ^ 32 \<le> uint (Uhugeint_products a b i i)" if "i < 4" for i
  proof
    assume "2 ^ 32 \<le> uint (Uhugeint_products a b i i)"
    then have "2 ^ 32 * 2 ^ 96 \<le> uint (Uhugeint_products a b i i) * 2 ^ 96" by (intro mult_right_mono) simp_all
    then show False using product_term_le [of i i a b] that assms by simp
  qed
  show ?thesis
    using product_beyond [OF assms] diag Uhugeint_Multiply_portable_eq [of a b]
    by (simp add: Uhugeint_TryMultiply_portable_def Uhugeint_Multiply_portable_def high_bits Let_def)
qed

lemma portable_misses_overflow:
  "Uhugeint_TryMultiply_portable (uhuge (2 ^ 96)) (uhuge (2 ^ 96)) = Some (uhugeint_of 0)"
  by code_simp

section \<open>Division\<close>

lemma bits_enough: "uval a < 2 ^ Uhugeint_Bits a"
proof (cases "u_upper a = 0")
  case True
  obtain k where "bit_count_loop (u_lower a) 0 = 0 + k" "uint (u_lower a) < 2 ^ k" using bit_count_loop_bound by blast
  then show ?thesis using True by (simp add: Uhugeint_Bits_def uval_def)
next
  case False
  obtain k where k: "bit_count_loop (u_upper a) 64 = 64 + k" "uint (u_upper a) < 2 ^ k" using bit_count_loop_bound by blast
  have "uval a < (uint (u_upper a) + 1) * 2 ^ 64" using uint64_range(2) [of "u_lower a"] unfolding uval_def by simp
  also have "\<dots> \<le> 2 ^ k * 2 ^ 64" using k(2) by (intro mult_right_mono) simp_all
  finally show ?thesis using False k(1) by (simp add: Uhugeint_Bits_def power_add mult.commute)
qed

lemma bits_bound: "Uhugeint_Bits a \<le> 128"
proof -
  have small: "k \<le> 64" if "up \<noteq> 0 \<longrightarrow> 0 < k \<and> 2 ^ (k - 1) \<le> uint (up :: uint64_t)" "up = 0 \<longrightarrow> k = 0" for up k
  proof (rule ccontr)
    assume "\<not> k \<le> 64"
    then have "(2 :: int) ^ 64 \<le> 2 ^ (k - 1)" by (intro power_increasing) simp_all
    then show False using that uint64_range(2) [of up] \<open>\<not> k \<le> 64\<close> by (cases "up = 0") (auto dest: order_trans)
  qed
  obtain k where "bit_count_loop (u_lower a) 0 = 0 + k" "k \<le> 64" using bit_count_loop_bound small by blast
  moreover obtain k' where "bit_count_loop (u_upper a) 64 = 64 + k'" "k' \<le> 64" using bit_count_loop_bound small by blast
  ultimately show ?thesis by (simp add: Uhugeint_Bits_def)
qed

lemma zdiv_less_bound: "uval n div 2 ^ x < 2 ^ 128"
  using div_le_self [OF uval_range(1), of "2 ^ x" n] uval_range(2) [of n] by simp

interpretation udivision: long_division "uval n" "uval R" uval uval "Uhugeint_divmod_loop n R" for n R
proof
  show "Uhugeint_divmod_loop n R 0 q r = (q, r)" for q r by simp
next
  fix x q r m
  assume prems: "x < 128" "0 < uval R" "0 \<le> uval r" "m = 2 * uval r + (if bit (uval n) x then 1 else 0)"
    "m \<le> uval n" "2 * uval q \<le> uval n" "uval R \<le> m \<Longrightarrow> 2 * uval q + 1 \<le> uval n"
  note N = uval_range(2) [of n]
  have x: "uint (of_nat x :: uint64_t) = int x" using prems(1) by (simp add: unsigned_of_nat take_bit_nat_eq_self)
  have "uval n div 2 ^ x mod 2 ^ 128 = uval n div 2 ^ x"
    using zdiv_less_bound [of n x] uval_range(1) [of n] by (intro mod_pos_pos_trivial) (simp_all add: pos_imp_zdiv_nonneg_iff)
  then have bit: "uval (uhugeint_and (uhugeint_shiftr n (uhugeint_of (of_nat x))) (uhugeint_of 1)) = (if bit (uval n) x then 1 else 0)"
    by (simp add: uval_and_one uval_shiftr x bit_iff_odd mod_2_eq_odd)
  have r1: "uval (uhugeint_shiftl q (uhugeint_of 1)) = 2 * uval q"
    using prems(6) N uval_range(1) [of q] by (simp add: uval_shiftl)
  define m' where "m' = (if \<not> Uhugeint_Equals (uhugeint_and (uhugeint_shiftr n (uhugeint_of (of_nat x))) (uhugeint_of 1)) (uhugeint_of 0)
      then uhugeint_plus (uhugeint_shiftl r (uhugeint_of 1)) (uhugeint_of 1) else uhugeint_shiftl r (uhugeint_of 1))"
  have rem: "uval m' = m"
    using prems(4,5) N uval_range(1) [of r]
    by (auto simp: m'_def uval_compare bit uval_shiftl uhugeint_plus_eq split: if_splits)
  have loop: "Uhugeint_divmod_loop n R (Suc x) q r =
      (if uval R \<le> m then Uhugeint_divmod_loop n R x (uhugeint_plus (uhugeint_shiftl q (uhugeint_of 1)) (uhugeint_of 1)) (uhugeint_minus m' R)
       else Uhugeint_divmod_loop n R x (uhugeint_shiftl q (uhugeint_of 1)) m')"
    by (simp only: Uhugeint_divmod_loop.simps Let_def m'_def [symmetric] uval_compare(5) rem)
  show "\<exists>q' r'. Uhugeint_divmod_loop n R (Suc x) q r = Uhugeint_divmod_loop n R x q' r' \<and>
      uval q' = (if uval R \<le> m then 2 * uval q + 1 else 2 * uval q) \<and> uval r' = (if uval R \<le> m then m - uval R else m)"
  proof (cases "uval R \<le> m")
    case True
    have "uval (uhugeint_plus (uhugeint_shiftl q (uhugeint_of 1)) (uhugeint_of 1)) = 2 * uval q + 1"
      using prems(7) [OF True] N uval_range(1) [of q] by (simp add: uhugeint_plus_eq r1)
    moreover have "uval (uhugeint_minus m' R) = m - uval R"
      using True prems(2,5) N by (simp add: uhugeint_minus_eq rem)
    ultimately show ?thesis unfolding loop using True by auto
  next
    case False
    then show ?thesis unfolding loop using r1 rem by auto
  qed
qed

lemma Uhugeint_DivMod_eq:
  assumes "0 < uval b"
  shows "uval (fst (Uhugeint_DivMod a b)) = uval a div uval b" "uval (snd (Uhugeint_DivMod a b)) = uval a mod uval b"
proof -
  have "uval (fst (Uhugeint_DivMod a b)) = uval a div uval b \<and> uval (snd (Uhugeint_DivMod a b)) = uval a mod uval b"
  proof (cases "uval b = 1 \<or> uval a = uval b \<or> uval a < uval b")
    case True
    then show ?thesis using assms uval_range(1) [of a]
      by (auto simp: Uhugeint_DivMod_def uval_compare)
  next
    case False
    then have "Uhugeint_DivMod a b = Uhugeint_divmod_loop a b (Uhugeint_Bits a) (uhugeint_of 0) (uhugeint_of 0)"
      using assms uval_range(1) [of a] by (auto simp: Uhugeint_DivMod_def uval_compare)
    then show ?thesis using assms bits_bound bits_enough uval_range(1) [of a] by (simp add: udivision.loop_divides)
  qed
  then show "uval (fst (Uhugeint_DivMod a b)) = uval a div uval b" "uval (snd (Uhugeint_DivMod a b)) = uval a mod uval b" by auto
qed

section \<open>Printing\<close>

lemma digit_step:
  assumes "0 < uval a"
  shows "nat (uval (fst (Uhugeint_DivMod a (uhugeint_of 10)))) < nat (uval a)"
  using assms by (simp add: Uhugeint_DivMod_eq)

lemma uval_zero: "u_lower a = 0 \<and> u_upper a = 0 \<longleftrightarrow> uval a = 0"
  using uval_inject [of a "uhugeint_of 0"] by (cases a) (auto simp: uhugeint_of_def uval_def)

function Uhugeint_ToString_loop :: "uhugeint_t \<Rightarrow> string \<Rightarrow> string" where
  "Uhugeint_ToString_loop input r =
     (if u_lower input = 0 \<and> u_upper input = 0 then r
      else let (quotient, remainder) = Uhugeint_DivMod input (uhugeint_of 10)
           in Uhugeint_ToString_loop quotient (char_of (48 + unat (u_lower remainder)) # r))"
  by pat_completeness auto
termination
proof (relation "measure (\<lambda>(input, _). nat (uval input))", goal_cases)
  case (2 input r d quotient remainder)
  then have "0 < uval input" using uval_range(1) [of input] uval_zero [of input] by linarith
  moreover have "quotient = fst (Uhugeint_DivMod input (uhugeint_of 10))" using 2(2,3) by (metis fst_conv)
  ultimately show ?case using digit_step [of input] by simp
qed simp

declare Uhugeint_ToString_loop.simps [simp del]

definition Uhugeint_ToString :: "uhugeint_t \<Rightarrow> string" where
  "Uhugeint_ToString input =
     (let r = Uhugeint_ToString_loop input '''' in if r = '''' then ''0'' else r)"

lemma Uhugeint_ToString_loop_eq:
  "0 < uval a \<Longrightarrow> Uhugeint_ToString_loop a r = decimal (nat (uval a)) @ r"
proof (induction a r rule: Uhugeint_ToString_loop.induct)
  case (1 a r)
  define q m where "q = fst (Uhugeint_DivMod a (uhugeint_of 10))" and "m = snd (Uhugeint_DivMod a (uhugeint_of 10))"
  have qm: "uval q = uval a div 10" "uval m = uval a mod 10" by (simp_all add: q_def m_def Uhugeint_DivMod_eq)
  have "u_upper m = 0" "unat (u_lower m) = nat (uval m)" using shift_amount(2) [of m] qm(2) by auto
  then have d: "unat (u_lower m) = nat (uval a) mod 10" using qm(2) 1(2) by (simp add: nat_mod_distrib)
  have nz: "\<not> (u_lower a = 0 \<and> u_upper a = 0)" using uval_zero [of a] 1(2) by linarith
  have step: "Uhugeint_ToString_loop a r = Uhugeint_ToString_loop q (digit_char (nat (uval a) mod 10) # r)"
    by (subst Uhugeint_ToString_loop.simps, subst if_not_P [OF nz])
      (simp add: d [symmetric] digit_char_def q_def m_def case_prod_unfold Let_def)
  show ?case
  proof (cases "uval q = 0")
    case True
    then have "uval a < 10" "Uhugeint_ToString_loop q (digit_char (nat (uval a) mod 10) # r) = digit_char (nat (uval a) mod 10) # r"
      using qm(1) 1(2) uval_zero [of q] by (simp_all add: Uhugeint_ToString_loop.simps [of q])
    then show ?thesis using step 1(2) by (simp add: decimal.simps [of "nat (uval a)"])
  next
    case False
    then have "0 < uval q" using uval_range(1) [of q] by linarith
    then have "Uhugeint_ToString_loop q (digit_char (nat (uval a) mod 10) # r) = decimal (nat (uval q)) @ digit_char (nat (uval a) mod 10) # r"
      using 1(1) [OF nz, of "(q, m)" q m] d by (simp add: q_def m_def digit_char_def)
    moreover have "\<not> uval a < 10" using False qm(1) 1(2) by auto
    ultimately show ?thesis using step qm(1) 1(2)
      by (simp add: decimal.simps [of "nat (uval a)"] nat_div_distrib)
  qed
qed

lemma Uhugeint_ToString_eq: "Uhugeint_ToString a = decimal (nat (uval a))"
proof (cases "uval a = 0")
  case True
  then show ?thesis using uval_zero [of a]
    by (simp add: Uhugeint_ToString_def Uhugeint_ToString_loop.simps [of a] decimal.simps [of 0] digit_char_0)
next
  case False
  then have "0 < uval a" using uval_range(1) [of a] by linarith
  then show ?thesis by (simp add: Uhugeint_ToString_def Uhugeint_ToString_loop_eq)
qed

section \<open>Conversions\<close>

lemma UhugeintTryCast_eq:
  assumes "0 \<le> maximum" "maximum < 2 ^ 64"
  shows "UhugeintTryCastInteger maximum a = (if uval a \<le> maximum then Some (uval a) else None)"
proof (cases "u_upper a = 0")
  case True
  then show ?thesis using assms by (simp add: UhugeintTryCastInteger_def uval_def word_le_def uint_word_of_int)
next
  case False
  then have "2 ^ 64 \<le> uval a" unfolding uval_def by (intro pair_large uint64_range word_pos)
  then show ?thesis using False assms by (simp add: UhugeintTryCastInteger_def)
qed

lemma Uhugeint_TryConvert_eq:
  assumes "v < 2 ^ 64"
  shows "Uhugeint_TryConvert v = (if 0 \<le> v then Some (uhuge v) else None)"
  using assms by (simp add: Uhugeint_TryConvert_def uhuge_def)

section \<open>Properties of the unsigned wide integers\<close>

text \<open>
  The checked subtraction misses an underflow: where the upper words of the subtrahend are all
  ones and the lower words borrow, it returns the wrapped difference instead of an error. Everywhere
  else it fails exactly when the difference is negative.
\<close>

lemma uhugeint_subtract_check:
  "Uhugeint_Subtract a b =
    (if uval b \<le> uval a \<or> 2 ^ 128 - 2 ^ 64 \<le> uval b \<and> uval a mod 2 ^ 64 < uval b mod 2 ^ 64
     then Inr (uhuge (uval a - uval b))
     else Inl (OutOfRangeException ''Underflow in HUGEINT subtraction: %s - %s''))"
proof -
  have "2 ^ 128 - 2 ^ 64 \<le> uval b \<longleftrightarrow> u_upper b = - 1"
  proof -
    have "u_upper b = - 1 \<longleftrightarrow> uint (u_upper b) = 2 ^ 64 - 1"
      by (simp add: word_uint_eq_iff unsigned_minus_1_eq_mask mask_eq_exp_minus_1)
    moreover have "2 ^ 128 - 2 ^ 64 \<le> u * 2 ^ 64 + l \<longleftrightarrow> u = 2 ^ 64 - 1"
      if "u < 2 ^ 64" "0 \<le> l" "l < 2 ^ 64" for u l :: int using that by auto
    ultimately show ?thesis using uint64_range [of "u_upper b"] uint64_range [of "u_lower b"] unfolding uval_def by metis
  qed
  then show ?thesis
    by (simp only: Uhugeint_Subtract_def Uhugeint_TrySubtract_eq uval_lower word_less_def) (simp split: bool.split)
qed

lemma portable_checked_wraps: "Uhugeint_TryMultiply_portable a b \<in> {None, Some (uhuge (uval a * uval b))}"
  using Uhugeint_Multiply_portable_eq [of a b]
  by (simp add: Uhugeint_TryMultiply_portable_def Uhugeint_Multiply_portable_def Let_def)

text \<open>
  C16. The unsigned 128 bit arithmetic computes on the numbers the two words denote: sums, differences,
  products and shifts modulo \<open>2 ^ 128\<close>, comparisons exactly; the multiplication of 32 bit pieces, for
  compilers without 128 bit integers, wraps to the same product. Of the checked forms, the addition and the
  multiplication by 128 bit integers fail exactly when the result does not fit. The subtraction never fails
  where it fits, but it misses the underflows where the upper word of the subtrahend is all ones and
  the lower words borrow. The checked multiplication of 32 bit pieces never fails on a product that fits and
  never returns anything but the wrapped product, but it may return that instead of failing.
\<close>

theorem uhugeint_arithmetic:
  "uval (uhugeint_plus a b) = (uval a + uval b) mod 2 ^ 128 \<and>
   uval (uhugeint_minus a b) = (uval a - uval b) mod 2 ^ 128 \<and>
   uval (Uhugeint_Multiply_wrap a b) = uval a * uval b mod 2 ^ 128 \<and>
   Uhugeint_Multiply_portable a b = Uhugeint_Multiply_wrap a b \<and>
   uval (uhugeint_shiftl a b) = uval a * 2 ^ nat (uval b) mod 2 ^ 128 \<and>
   uval (uhugeint_shiftr a b) = uval a div 2 ^ nat (uval b) \<and>
   (Uhugeint_LessThan a b \<longleftrightarrow> uval a < uval b) \<and>
   Uhugeint_Add a b = (if uval a + uval b < 2 ^ 128 then Inr (uhuge (uval a + uval b))
     else Inl (OutOfRangeException ''Overflow in UHUGEINT addition: %s + %s'')) \<and>
   Uhugeint_Multiply a b = (if uval a * uval b < 2 ^ 128 then Inr (uhuge (uval a * uval b))
     else Inl (OutOfRangeException ''Overflow in UHUGEINT multiplication: %s * %s'')) \<and>
   Uhugeint_Subtract a b =
    (if uval b \<le> uval a \<or> 2 ^ 128 - 2 ^ 64 \<le> uval b \<and> uval a mod 2 ^ 64 < uval b mod 2 ^ 64
     then Inr (uhuge (uval a - uval b))
     else Inl (OutOfRangeException ''Underflow in HUGEINT subtraction: %s - %s'')) \<and>
   (if uval a * uval b < 2 ^ 128 then Uhugeint_TryMultiply_portable a b = Some (uhuge (uval a * uval b))
    else Uhugeint_TryMultiply_portable a b \<in> {None, Some (uhuge (uval a * uval b))}) \<and>
   Uhugeint_TryMultiply_portable (uhuge (2 ^ 96)) (uhuge (2 ^ 96)) = Some (uhuge 0)"
proof (intro conjI)
  have "0 \<le> uval a div 2 ^ nat (uval b)" using uval_range(1) [of a] by (simp add: pos_imp_zdiv_nonneg_iff)
  then show "uval (uhugeint_shiftr a b) = uval a div 2 ^ nat (uval b)"
    using zdiv_less_bound [of a "nat (uval b)"] by (simp add: uval_shiftr del: of_nat_nat)
  show "Uhugeint_Subtract a b =
    (if uval b \<le> uval a \<or> 2 ^ 128 - 2 ^ 64 \<le> uval b \<and> uval a mod 2 ^ 64 < uval b mod 2 ^ 64
     then Inr (uhuge (uval a - uval b))
     else Inl (OutOfRangeException ''Underflow in HUGEINT subtraction: %s - %s''))" by (rule uhugeint_subtract_check)
  show "if uval a * uval b < 2 ^ 128 then Uhugeint_TryMultiply_portable a b = Some (uhuge (uval a * uval b))
    else Uhugeint_TryMultiply_portable a b \<in> {None, Some (uhuge (uval a * uval b))}"
    using portable_accepts [of a b] portable_checked_wraps [of a b] by simp
  show "Uhugeint_TryMultiply_portable (uhuge (2 ^ 96)) (uhuge (2 ^ 96)) = Some (uhuge 0)" by code_simp
qed (auto simp: uhugeint_plus_eq uhugeint_minus_eq Uhugeint_Multiply_wrap_eq Uhugeint_Multiply_portable_eq uval_shiftl
    uval_compare Uhugeint_Add_def Uhugeint_TryAdd_eq Uhugeint_Multiply_def Uhugeint_TryMultiply_eq)

text \<open>
  Unsigned division and remainder: an error exactly when the divisor is zero, otherwise the
  quotient and the remainder, and printing shows the decimal digits of the number without leading
  zeros.
\<close>

theorem uhugeint_division:
  "Uhugeint_Divide a b = (if uval b = 0 then Inl (OutOfRangeException ''Division of UHUGEINT by zero: %s / %s'')
     else Inr (uhuge (uval a div uval b))) \<and>
   Uhugeint_Modulo a b = (if uval b = 0 then Inl (OutOfRangeException ''Modulo of UHUGEINT by zero: %s %% %s'')
     else Inr (uhuge (uval a mod uval b))) \<and>
   Uhugeint_ToString a = decimal (nat (uval a))"
proof -
  have "fst (Uhugeint_DivMod a b) = uhuge (uval a div uval b) \<and> snd (Uhugeint_DivMod a b) = uhuge (uval a mod uval b)"
    if "uval b \<noteq> 0"
  proof -
    have "0 < uval b" using that uval_range(1) [of b] by linarith
    from Uhugeint_DivMod_eq [OF this, of a] show ?thesis by (metis uhuge_uval)
  qed
  then show ?thesis by (simp add: Uhugeint_Divide_def Uhugeint_Modulo_def uval_compare Uhugeint_ToString_eq)
qed

lemma subtract_underflow_missed: "Uhugeint_Subtract (uhugeint_of 0) uhugeint_Maximum = Inr (uhugeint_of 1)"
  by code_simp

end
