(* ===== verification/Hugeint.thy ===== *)
theory Hugeint
  imports Uhugeint
begin

text \<open>
  Signed 128 bit integers, after \<open>common/types/hugeint.cpp\<close> and
  \<open>include/duckdb/common/types/hugeint.hpp\<close>. The upper word is an \<open>int64_t\<close>, kept by
  its bits and read with \<open>sint\<close> where the code compares it; a signed addition that overflows in C++
  wraps here. \<open>hval\<close> gives the integer a pair of words stands for, \<open>huge\<close> the pair of an
  integer modulo \<open>2 ^ 128\<close>; every operation is first shown to be one on that integer, and the
  properties are read off. Conversions from and to floats and the parsing of text are not modelled.
\<close>

section \<open>Signed 128 bit integers\<close>

text \<open>The upper word is an \<open>int64_t\<close>: its bits, read with \<open>sint\<close> where the code compares it.\<close>

record hugeint_t =
  h_lower :: uint64_t
  h_upper :: uint64_t

definition hugeint_Minimum :: hugeint_t where
  "hugeint_Minimum = \<lparr>h_lower = 0, h_upper = 0x8000000000000000\<rparr>"

definition hugeint_Maximum :: hugeint_t where
  "hugeint_Maximum = \<lparr>h_lower = - 1, h_upper = 0x7fffffffffffffff\<rparr>"

definition HugeintConvertInteger :: "int \<Rightarrow> hugeint_t" where
  "HugeintConvertInteger input = \<lparr>h_lower = word_of_int input, h_upper = (if input < 0 then - 1 else 0)\<rparr>"

definition uhugeint_of_hugeint :: "hugeint_t \<Rightarrow> uhugeint_t" where
  "uhugeint_of_hugeint a = \<lparr>u_lower = h_lower a, u_upper = h_upper a\<rparr>"

definition hugeint_of_uhugeint :: "uhugeint_t \<Rightarrow> hugeint_t" where
  "hugeint_of_uhugeint a = \<lparr>h_lower = u_lower a, h_upper = u_upper a\<rparr>"

definition Hugeint_Equals :: "hugeint_t \<Rightarrow> hugeint_t \<Rightarrow> bool" where
  "Hugeint_Equals lhs rhs \<longleftrightarrow>
     (let lower_equals = (h_lower lhs = h_lower rhs); upper_equals = (h_upper lhs = h_upper rhs)
      in lower_equals \<and> upper_equals)"

definition Hugeint_GreaterThan :: "hugeint_t \<Rightarrow> hugeint_t \<Rightarrow> bool" where
  "Hugeint_GreaterThan lhs rhs \<longleftrightarrow>
     (let upper_bigger = (sint (h_upper lhs) > sint (h_upper rhs)); upper_equal = (h_upper lhs = h_upper rhs);
          lower_bigger = (h_lower lhs > h_lower rhs)
      in upper_bigger \<or> (upper_equal \<and> lower_bigger))"

definition Hugeint_GreaterThanEquals :: "hugeint_t \<Rightarrow> hugeint_t \<Rightarrow> bool" where
  "Hugeint_GreaterThanEquals lhs rhs \<longleftrightarrow>
     (let upper_bigger = (sint (h_upper lhs) > sint (h_upper rhs)); upper_equal = (h_upper lhs = h_upper rhs);
          lower_bigger_equals = (h_lower lhs \<ge> h_lower rhs)
      in upper_bigger \<or> (upper_equal \<and> lower_bigger_equals))"

definition Hugeint_LessThan :: "hugeint_t \<Rightarrow> hugeint_t \<Rightarrow> bool" where
  "Hugeint_LessThan lhs rhs \<longleftrightarrow>
     (let upper_smaller = (sint (h_upper lhs) < sint (h_upper rhs)); upper_equal = (h_upper lhs = h_upper rhs);
          lower_smaller = (h_lower lhs < h_lower rhs)
      in upper_smaller \<or> (upper_equal \<and> lower_smaller))"

definition Hugeint_LessThanEquals :: "hugeint_t \<Rightarrow> hugeint_t \<Rightarrow> bool" where
  "Hugeint_LessThanEquals lhs rhs \<longleftrightarrow>
     (let upper_smaller = (sint (h_upper lhs) < sint (h_upper rhs)); upper_equal = (h_upper lhs = h_upper rhs);
          lower_smaller_equals = (h_lower lhs \<le> h_lower rhs)
      in upper_smaller \<or> (upper_equal \<and> lower_smaller_equals))"

definition hugeint_plus :: "hugeint_t \<Rightarrow> hugeint_t \<Rightarrow> hugeint_t" where
  "hugeint_plus a rhs =
     \<lparr>h_lower = h_lower a + h_lower rhs,
      h_upper = h_upper a + h_upper rhs + (if h_lower a + h_lower rhs < h_lower a then 1 else 0)\<rparr>"

definition hugeint_minus :: "hugeint_t \<Rightarrow> hugeint_t \<Rightarrow> hugeint_t" where
  "hugeint_minus a rhs =
     \<lparr>h_lower = h_lower a - h_lower rhs,
      h_upper = h_upper a - h_upper rhs - (if h_lower a - h_lower rhs > h_lower a then 1 else 0)\<rparr>"

definition hugeint_shiftr :: "hugeint_t \<Rightarrow> hugeint_t \<Rightarrow> hugeint_t" where
  "hugeint_shiftr a rhs =
     (let shift = unat (h_lower rhs) in
      if h_upper rhs \<noteq> 0 \<or> shift \<ge> 128 then HugeintConvertInteger 0
      else if shift = 0 then a
      else if shift = 64 then \<lparr>h_lower = h_upper a, h_upper = (if sint (h_upper a) < 0 then - 1 else 0)\<rparr>
      else if shift < 64 then
        \<lparr>h_lower = push_bit (64 - shift) (h_upper a) OR drop_bit shift (h_lower a),
         h_upper = signed_drop_bit shift (h_upper a)\<rparr>
      else \<lparr>h_lower = signed_drop_bit (shift - 64) (h_upper a), h_upper = (if sint (h_upper a) < 0 then - 1 else 0)\<rparr>)"

definition hugeint_shiftl :: "hugeint_t \<Rightarrow> hugeint_t \<Rightarrow> hugeint_t" where
  "hugeint_shiftl a rhs =
     (if sint (h_upper a) < 0 then HugeintConvertInteger 0
      else
        let shift = unat (h_lower rhs) in
        if h_upper rhs \<noteq> 0 \<or> shift \<ge> 128 then HugeintConvertInteger 0
        else if shift = 64 then \<lparr>h_lower = 0, h_upper = h_lower a\<rparr>
        else if shift = 0 then a
        else if shift < 64 then
          \<lparr>h_lower = push_bit shift (h_lower a),
           h_upper = (push_bit shift (h_upper a) + drop_bit (64 - shift) (h_lower a)) AND 0x7fffffffffffffff\<rparr>
        else \<lparr>h_lower = 0, h_upper = push_bit (shift - 64) (h_lower a) AND 0x7fffffffffffffff\<rparr>)"

definition hugeint_and :: "hugeint_t \<Rightarrow> hugeint_t \<Rightarrow> hugeint_t" where
  "hugeint_and a rhs = \<lparr>h_lower = h_lower a AND h_lower rhs, h_upper = h_upper a AND h_upper rhs\<rparr>"

definition hugeint_or :: "hugeint_t \<Rightarrow> hugeint_t \<Rightarrow> hugeint_t" where
  "hugeint_or a rhs = \<lparr>h_lower = h_lower a OR h_lower rhs, h_upper = h_upper a OR h_upper rhs\<rparr>"

definition hugeint_xor :: "hugeint_t \<Rightarrow> hugeint_t \<Rightarrow> hugeint_t" where
  "hugeint_xor a rhs = \<lparr>h_lower = h_lower a XOR h_lower rhs, h_upper = h_upper a XOR h_upper rhs\<rparr>"

definition hugeint_not :: "hugeint_t \<Rightarrow> hugeint_t" where
  "hugeint_not a = \<lparr>h_lower = NOT (h_lower a), h_upper = NOT (h_upper a)\<rparr>"

definition Hugeint_NegateInPlace :: "hugeint_t \<Rightarrow> hugeint_t" where
  "Hugeint_NegateInPlace input =
     (let lower = - 1 - h_lower input + 1
      in \<lparr>h_lower = lower, h_upper = - 1 - h_upper input + (if lower = 0 then 1 else 0)\<rparr>)"

definition Hugeint_TryNegate :: "hugeint_t \<Rightarrow> hugeint_t option" where
  "Hugeint_TryNegate input =
     (if h_upper input = 0x8000000000000000 \<and> h_lower input = 0 then None else Some (Hugeint_NegateInPlace input))"

definition Hugeint_Negate :: "hugeint_t \<Rightarrow> hugeint_t result" where
  "Hugeint_Negate input =
     (case Hugeint_TryNegate input of
        None \<Rightarrow> Inl (OutOfRangeException ''Negation of HUGEINT is out of range!'')
      | Some r \<Rightarrow> Inr r)"

definition Hugeint_Abs :: "hugeint_t \<Rightarrow> hugeint_t result" where
  "Hugeint_Abs n = (if Hugeint_LessThan n (HugeintConvertInteger 0) then Hugeint_Negate n else Inr n)"

text \<open>
  Checked addition and subtraction. The bounds are compared as \<open>int64_t\<close>; none of these differences
  overflows, since the sign of \<open>rhs.upper\<close> is known where they are computed.
\<close>

definition Hugeint_TryAddInPlace :: "hugeint_t \<Rightarrow> hugeint_t \<Rightarrow> hugeint_t option" where
  "Hugeint_TryAddInPlace lhs rhs =
     (let overflow = (if h_lower lhs + h_lower rhs < h_lower lhs then 1 else 0 :: int) in
      if sint (h_upper rhs) \<ge> 0 then
        if sint (h_upper lhs) > 2 ^ 63 - 1 - sint (h_upper rhs) - overflow then None
        else Some \<lparr>h_lower = h_lower lhs + h_lower rhs,
                   h_upper = h_upper lhs + word_of_int overflow + h_upper rhs\<rparr>
      else
        if sint (h_upper lhs) < - (2 ^ 63) - sint (h_upper rhs) - overflow then None
        else Some \<lparr>h_lower = h_lower lhs + h_lower rhs,
                   h_upper = h_upper lhs + (word_of_int overflow + h_upper rhs)\<rparr>)"

definition Hugeint_TrySubtractInPlace :: "hugeint_t \<Rightarrow> hugeint_t \<Rightarrow> hugeint_t option" where
  "Hugeint_TrySubtractInPlace lhs rhs =
     (let underflow = (if h_lower lhs - h_lower rhs > h_lower lhs then 1 else 0 :: int) in
      if sint (h_upper rhs) \<ge> 0 then
        if sint (h_upper lhs) < - (2 ^ 63) + sint (h_upper rhs) + underflow then None
        else Some \<lparr>h_lower = h_lower lhs - h_lower rhs,
                   h_upper = h_upper lhs - h_upper rhs - word_of_int underflow\<rparr>
      else
        if sint (h_upper lhs) > - (2 ^ 63) \<and> sint (h_upper lhs) - 1 \<ge> 2 ^ 63 - 1 + sint (h_upper rhs) + underflow then None
        else Some \<lparr>h_lower = h_lower lhs - h_lower rhs,
                   h_upper = h_upper lhs - (h_upper rhs + word_of_int underflow)\<rparr>)"

definition Hugeint_Add :: "hugeint_t \<Rightarrow> hugeint_t \<Rightarrow> hugeint_t result" where
  "Hugeint_Add lhs rhs =
     (case Hugeint_TryAddInPlace lhs rhs of
        None \<Rightarrow> Inl (OutOfRangeException ''Overflow in HUGEINT addition: %s + %s'')
      | Some r \<Rightarrow> Inr r)"

definition Hugeint_Subtract :: "hugeint_t \<Rightarrow> hugeint_t \<Rightarrow> hugeint_t result" where
  "Hugeint_Subtract lhs rhs =
     (case Hugeint_TrySubtractInPlace lhs rhs of
        None \<Rightarrow> Inl (OutOfRangeException ''Underflow in HUGEINT subtraction: %s - %s'')
      | Some r \<Rightarrow> Inr r)"

text \<open>Multiplication of the absolute values with the compiler's 128 bit integers.\<close>

definition int128 :: "hugeint_t \<Rightarrow> 128 word" where
  "int128 a = ucast (h_lower a) + push_bit 64 (scast (h_upper a))"

definition Hugeint_TryMultiply :: "hugeint_t \<Rightarrow> hugeint_t \<Rightarrow> hugeint_t option" where
  "Hugeint_TryMultiply lhs0 rhs0 =
     (if Hugeint_Equals lhs0 hugeint_Minimum \<or> Hugeint_Equals rhs0 hugeint_Minimum then
        if Hugeint_Equals lhs0 (HugeintConvertInteger 0) \<or> Hugeint_Equals rhs0 (HugeintConvertInteger 0)
        then Some (HugeintConvertInteger 0)
        else if Hugeint_Equals lhs0 (HugeintConvertInteger 1) \<or> Hugeint_Equals rhs0 (HugeintConvertInteger 1)
        then Some hugeint_Minimum
        else None
      else
        let lhs_negative = (sint (h_upper lhs0) < 0); rhs_negative = (sint (h_upper rhs0) < 0) in
        case (if lhs_negative then Hugeint_TryNegate lhs0 else Some lhs0) of
          None \<Rightarrow> None
        | Some lhs \<Rightarrow>
            (case (if rhs_negative then Hugeint_TryNegate rhs0 else Some rhs0) of
               None \<Rightarrow> None
             | Some rhs \<Rightarrow>
                 let left = int128 lhs; right = int128 rhs in
                 if mul_overflow left right then None
                 else
                   let result_i128 = left * right; upper = (ucast (drop_bit 64 result_i128) :: uint64_t) in
                   if upper AND 0x8000000000000000 \<noteq> 0 then None
                   else
                     let r = \<lparr>h_lower = ucast (result_i128 AND 0xffffffffffffffff), h_upper = upper\<rparr>
                     in Some (if lhs_negative \<noteq> rhs_negative then Hugeint_NegateInPlace r else r)))"

definition Hugeint_Multiply :: "hugeint_t \<Rightarrow> hugeint_t \<Rightarrow> hugeint_t result" where
  "Hugeint_Multiply lhs rhs =
     (case Hugeint_TryMultiply lhs rhs of
        None \<Rightarrow> Inl (OutOfRangeException ''Overflow in HUGEINT multiplication: %s * %s'')
      | Some r \<Rightarrow> Inr r)"

definition Hugeint_Multiply_wrap :: "hugeint_t \<Rightarrow> hugeint_t \<Rightarrow> hugeint_t" where
  "Hugeint_Multiply_wrap lhs0 rhs0 =
     (let lhs_negative = (sint (h_upper lhs0) < 0); rhs_negative = (sint (h_upper rhs0) < 0);
          lhs = (if lhs_negative then Hugeint_NegateInPlace lhs0 else lhs0);
          rhs = (if rhs_negative then Hugeint_NegateInPlace rhs0 else rhs0);
          result_i128 = int128 lhs * int128 rhs;
          r = \<lparr>h_lower = ucast (result_i128 AND 0xffffffffffffffff), h_upper = ucast (drop_bit 64 result_i128)\<rparr>
      in if lhs_negative \<noteq> rhs_negative then Hugeint_NegateInPlace r else r)"

text \<open>And with pieces of 32 bits, the most significant first.\<close>

definition Hugeint_pieces :: "hugeint_t \<Rightarrow> uint64_t list" where
  "Hugeint_pieces a =
     [drop_bit 32 (h_upper a), h_upper a AND 0xffffffff, drop_bit 32 (h_lower a), h_lower a AND 0xffffffff]"

definition Hugeint_products :: "hugeint_t \<Rightarrow> hugeint_t \<Rightarrow> nat \<Rightarrow> nat \<Rightarrow> uint64_t" where
  "Hugeint_products lhs rhs x y = Hugeint_pieces lhs ! x * Hugeint_pieces rhs ! y"

text \<open>The columns before the carries are cut off: \<open>first32\<close>, \<open>second32\<close>, \<open>third32\<close>, \<open>fourth32\<close>.\<close>

definition Hugeint_columns :: "(nat \<Rightarrow> nat \<Rightarrow> uint64_t) \<Rightarrow> uint64_t \<times> uint64_t \<times> uint64_t \<times> uint64_t" where
  "Hugeint_columns products =
     (let low = (\<lambda>p. p AND 0xffffffff); high = (\<lambda>p. drop_bit 32 p);
          fourth0 = low (products 3 3);
          third0 = low (products 3 2) + high (products 3 3) + low (products 2 3);
          second0 = low (products 3 1) + high (products 3 2) + (low (products 2 2) + high (products 2 3))
            + low (products 1 3);
          first0 = low (products 3 0) + high (products 3 1) + (low (products 2 1) + high (products 2 2))
            + (low (products 1 2) + high (products 1 3)) + low (products 0 3);
          third1 = third0 + high fourth0;
          second1 = second0 + high third1;
          first1 = first0 + high second1
      in (first1, second1, third1, fourth0))"

definition Hugeint_combine :: "uint64_t \<times> uint64_t \<times> uint64_t \<times> uint64_t \<Rightarrow> hugeint_t" where
  "Hugeint_combine columns =
     (case columns of (first32, second32, third32, fourth32) \<Rightarrow>
        \<lparr>h_lower = push_bit 32 (third32 AND 0xffffffff) OR (fourth32 AND 0xffffffff),
         h_upper = push_bit 32 (first32 AND 0xffffffff) OR (second32 AND 0xffffffff)\<rparr>)"

definition Hugeint_TryMultiply_portable :: "hugeint_t \<Rightarrow> hugeint_t \<Rightarrow> hugeint_t option" where
  "Hugeint_TryMultiply_portable lhs0 rhs0 =
     (if Hugeint_Equals lhs0 hugeint_Minimum \<or> Hugeint_Equals rhs0 hugeint_Minimum then
        if Hugeint_Equals lhs0 (HugeintConvertInteger 0) \<or> Hugeint_Equals rhs0 (HugeintConvertInteger 0)
        then Some (HugeintConvertInteger 0)
        else if Hugeint_Equals lhs0 (HugeintConvertInteger 1) \<or> Hugeint_Equals rhs0 (HugeintConvertInteger 1)
        then Some hugeint_Minimum
        else None
      else
        let lhs_negative = (sint (h_upper lhs0) < 0); rhs_negative = (sint (h_upper rhs0) < 0) in
        case (if lhs_negative then Hugeint_TryNegate lhs0 else Some lhs0) of
          None \<Rightarrow> None
        | Some lhs \<Rightarrow>
            (case (if rhs_negative then Hugeint_TryNegate rhs0 else Some rhs0) of
               None \<Rightarrow> None
             | Some rhs \<Rightarrow>
                 let products = Hugeint_products lhs rhs in
                 if products 0 0 \<noteq> 0 \<or> products 0 1 \<noteq> 0 \<or> products 0 2 \<noteq> 0 \<or> products 1 0 \<noteq> 0 \<or>
                    products 2 0 \<noteq> 0 \<or> products 1 1 \<noteq> 0 then None
                 else if products 0 3 AND 0xffffffff80000000 \<noteq> 0 \<or> products 1 2 AND 0xffffffff80000000 \<noteq> 0 \<or>
                    products 2 1 AND 0xffffffff80000000 \<noteq> 0 \<or> products 3 0 AND 0xffffffff80000000 \<noteq> 0 then None
                 else
                   let columns = Hugeint_columns products in
                   if fst columns AND 0xffffff80000000 \<noteq> 0 then None
                   else
                     let r = Hugeint_combine columns
                     in Some (if lhs_negative \<noteq> rhs_negative then Hugeint_NegateInPlace r else r)))"

definition Hugeint_Multiply_portable :: "hugeint_t \<Rightarrow> hugeint_t \<Rightarrow> hugeint_t" where
  "Hugeint_Multiply_portable lhs0 rhs0 =
     (let lhs_negative = (sint (h_upper lhs0) < 0); rhs_negative = (sint (h_upper rhs0) < 0);
          lhs = (if lhs_negative then Hugeint_NegateInPlace lhs0 else lhs0);
          rhs = (if rhs_negative then Hugeint_NegateInPlace rhs0 else rhs0);
          r = Hugeint_combine (Hugeint_columns (Hugeint_products lhs rhs))
      in if lhs_negative \<noteq> rhs_negative then Hugeint_NegateInPlace r else r)"

text \<open>Long division of positive numbers, by a 64 bit divisor and by a wide one.\<close>

definition PositiveHugeintHighestBit :: "hugeint_t \<Rightarrow> nat" where
  "PositiveHugeintHighestBit bits =
     (if h_upper bits \<noteq> 0 then bit_count_loop (h_upper bits) 64 else bit_count_loop (h_lower bits) 0)"

definition PositiveHugeintIsBitSet :: "hugeint_t \<Rightarrow> nat \<Rightarrow> bool" where
  "PositiveHugeintIsBitSet lhs bit_position \<longleftrightarrow>
     (if bit_position < 64 then h_lower lhs AND push_bit bit_position 1 \<noteq> 0
      else h_upper lhs AND push_bit (bit_position - 64) 1 \<noteq> 0)"

definition PositiveHugeintLeftShift :: "hugeint_t \<Rightarrow> nat \<Rightarrow> hugeint_t" where
  "PositiveHugeintLeftShift lhs amount =
     \<lparr>h_lower = push_bit amount (h_lower lhs),
      h_upper = push_bit amount (h_upper lhs) + drop_bit (64 - amount) (h_lower lhs)\<rparr>"

fun divmod_positive_loop :: "hugeint_t \<Rightarrow> uint64_t \<Rightarrow> nat \<Rightarrow> hugeint_t \<Rightarrow> uint64_t \<Rightarrow> hugeint_t \<times> uint64_t" where
  "divmod_positive_loop lhs rhs 0 div_result remainder = (div_result, remainder)"
| "divmod_positive_loop lhs rhs (Suc x) div_result remainder =
     (let div1 = PositiveHugeintLeftShift div_result 1;
          remainder1 = push_bit 1 remainder;
          remainder2 = (if PositiveHugeintIsBitSet lhs x then remainder1 + 1 else remainder1)
      in if remainder2 \<ge> rhs then
           let lower = h_lower div1 + 1
           in divmod_positive_loop lhs rhs x
                \<lparr>h_lower = lower, h_upper = (if lower = 0 then h_upper div1 + 1 else h_upper div1)\<rparr> (remainder2 - rhs)
         else divmod_positive_loop lhs rhs x div1 remainder2)"

definition DivModPositive :: "hugeint_t \<Rightarrow> uint64_t \<Rightarrow> hugeint_t \<times> uint64_t" where
  "DivModPositive lhs rhs =
     divmod_positive_loop lhs rhs (PositiveHugeintHighestBit lhs) \<lparr>h_lower = 0, h_upper = 0\<rparr> 0"

fun hugeint_divmod_loop :: "hugeint_t \<Rightarrow> hugeint_t \<Rightarrow> nat \<Rightarrow> hugeint_t \<Rightarrow> hugeint_t \<Rightarrow> hugeint_t \<times> hugeint_t" where
  "hugeint_divmod_loop lhs rhs 0 div_result remainder = (div_result, remainder)"
| "hugeint_divmod_loop lhs rhs (Suc x) div_result remainder =
     (let div1 = PositiveHugeintLeftShift div_result 1;
          remainder1 = PositiveHugeintLeftShift remainder 1;
          remainder2 = (if PositiveHugeintIsBitSet lhs x then hugeint_plus remainder1 (HugeintConvertInteger 1)
                        else remainder1)
      in if Hugeint_GreaterThanEquals remainder2 rhs then
           hugeint_divmod_loop lhs rhs x (hugeint_plus div1 (HugeintConvertInteger 1)) (hugeint_minus remainder2 rhs)
         else hugeint_divmod_loop lhs rhs x div1 remainder2)"

definition hugeint_Sign :: "hugeint_t \<Rightarrow> int" where
  "hugeint_Sign n =
     (if Hugeint_GreaterThan n (HugeintConvertInteger 0) then 1 else 0)
      - (if Hugeint_LessThan n (HugeintConvertInteger 0) then 1 else 0)"

definition hugeint_Abs :: "hugeint_t \<Rightarrow> hugeint_t" where
  "hugeint_Abs n = Hugeint_Multiply_wrap n (HugeintConvertInteger (hugeint_Sign n))"

lemma Minimum_succ_not_Minimum: "hugeint_plus hugeint_Minimum (HugeintConvertInteger 1) \<noteq> hugeint_Minimum"
  by code_simp

text \<open>
  The general division turns a division with the smallest number, which has no negation, into one with
  its successor, and back.
\<close>

function Hugeint_DivMod :: "hugeint_t \<Rightarrow> hugeint_t \<Rightarrow> hugeint_t \<times> hugeint_t"
  and DivModMinimum :: "hugeint_t \<Rightarrow> hugeint_t \<Rightarrow> hugeint_t \<times> hugeint_t" where
  "Hugeint_DivMod lhs0 rhs0 =
     (if Hugeint_Equals rhs0 (HugeintConvertInteger 0) then (HugeintConvertInteger 0, lhs0)
      else if Hugeint_Equals lhs0 hugeint_Minimum \<or> Hugeint_Equals rhs0 hugeint_Minimum then DivModMinimum lhs0 rhs0
      else
        let lhs_negative = (sint (h_upper lhs0) < 0); rhs_negative = (sint (h_upper rhs0) < 0);
            lhs = (if lhs_negative then Hugeint_NegateInPlace lhs0 else lhs0);
            rhs = (if rhs_negative then Hugeint_NegateInPlace rhs0 else rhs0);
            (div_result, remainder) =
              hugeint_divmod_loop lhs rhs (PositiveHugeintHighestBit lhs)
                \<lparr>h_lower = 0, h_upper = 0\<rparr> \<lparr>h_lower = 0, h_upper = 0\<rparr>
        in (if lhs_negative \<noteq> rhs_negative then Hugeint_NegateInPlace div_result else div_result,
            if lhs_negative then Hugeint_NegateInPlace remainder else remainder))"
| "DivModMinimum lhs rhs =
     (if Hugeint_Equals rhs hugeint_Minimum then
        if Hugeint_Equals lhs hugeint_Minimum then (HugeintConvertInteger 1, HugeintConvertInteger 0)
        else (HugeintConvertInteger 0, lhs)
      else
        let (r, remainder) = Hugeint_DivMod (hugeint_plus hugeint_Minimum (HugeintConvertInteger 1)) rhs
        in if Hugeint_Equals (hugeint_plus (hugeint_Abs remainder) (HugeintConvertInteger 1)) (hugeint_Abs rhs)
           then (hugeint_minus r (HugeintConvertInteger (hugeint_Sign rhs)), HugeintConvertInteger 0)
           else (r, hugeint_minus remainder (HugeintConvertInteger 1)))"
  by pat_completeness auto
termination
  by (relation "measure (\<lambda>s. case s of Inl (lhs, rhs) \<Rightarrow> if lhs = hugeint_Minimum \<or> rhs = hugeint_Minimum then 2 else 0
        | Inr (lhs, rhs) \<Rightarrow> 1)")
    (auto simp: Hugeint_Equals_def Let_def Minimum_succ_not_Minimum)

definition Hugeint_TryDivMod :: "hugeint_t \<Rightarrow> hugeint_t \<Rightarrow> (hugeint_t \<times> hugeint_t) option" where
  "Hugeint_TryDivMod lhs rhs =
     (if Hugeint_Equals rhs (HugeintConvertInteger 0) then None
      else if Hugeint_Equals lhs hugeint_Minimum \<and> Hugeint_Equals rhs (HugeintConvertInteger (- 1)) then None
      else Some (Hugeint_DivMod lhs rhs))"

definition Hugeint_Divide :: "hugeint_t \<Rightarrow> hugeint_t \<Rightarrow> hugeint_t result" where
  "Hugeint_Divide lhs rhs =
     (if Hugeint_Equals rhs (HugeintConvertInteger 0)
      then Inl (OutOfRangeException ''Division of HUGEINT by zero: %s / %s'')
      else if Hugeint_Equals lhs hugeint_Minimum \<and> Hugeint_Equals rhs (HugeintConvertInteger (- 1))
      then Inl (OutOfRangeException ''Overflow in HUGEINT division: %s / %s'')
      else Inr (fst (Hugeint_DivMod lhs rhs)))"

definition Hugeint_Modulo :: "hugeint_t \<Rightarrow> hugeint_t \<Rightarrow> hugeint_t result" where
  "Hugeint_Modulo lhs rhs =
     (if Hugeint_Equals rhs (HugeintConvertInteger 0)
      then Inl (OutOfRangeException ''Modulo of HUGEINT by zero: %s %% %s'')
      else if Hugeint_Equals lhs hugeint_Minimum \<and> Hugeint_Equals rhs (HugeintConvertInteger (- 1))
      then Inl (OutOfRangeException ''Overflow in HUGEINT modulo: %s %% %s'')
      else Inr (snd (Hugeint_DivMod lhs rhs)))"

text \<open>Casts to narrower integers, which are given by their largest value and their sign.\<close>

definition HugeintTryCastInteger :: "int \<Rightarrow> bool \<Rightarrow> hugeint_t \<Rightarrow> int option" where
  "HugeintTryCastInteger maximum is_signed input =
     (if h_upper input = 0 then
        if h_lower input \<le> word_of_int maximum then Some (uint (h_lower input)) else None
      else if h_upper input = - 1 then
        if \<not> is_signed then None
        else if h_lower input \<ge> - 1 - word_of_int maximum then Some (- uint (- 1 - h_lower input) - 1)
        else None
      else None)"

definition Hugeint_TryCast_uhugeint :: "hugeint_t \<Rightarrow> uhugeint_t option" where
  "Hugeint_TryCast_uhugeint input =
     (if Hugeint_LessThan input (HugeintConvertInteger 0) then None
      else Some \<lparr>u_lower = h_lower input, u_upper = h_upper input\<rparr>)"

definition Uhugeint_TryCast_hugeint :: "uhugeint_t \<Rightarrow> hugeint_t option" where
  "Uhugeint_TryCast_hugeint input =
     (if Uhugeint_GreaterThan input (uhugeint_of_hugeint hugeint_Maximum) then None
      else Some \<lparr>h_lower = u_lower input, h_upper = u_upper input\<rparr>)"

section \<open>Values of signed 128 bit integers\<close>

definition hval :: "hugeint_t \<Rightarrow> int" where
  "hval a = sint (h_upper a) * 2 ^ 64 + uint (h_lower a)"

text \<open>The representative of an integer modulo \<open>2 ^ 128\<close> between \<open>- (2 ^ 127)\<close> and \<open>2 ^ 127\<close>.\<close>

definition wrap128 :: "int \<Rightarrow> int" where
  "wrap128 z = (z + 2 ^ 127) mod 2 ^ 128 - 2 ^ 127"

definition huge :: "int \<Rightarrow> hugeint_t" where
  "huge z = hugeint_of_uhugeint (uhuge z)"

definition fits_int128 :: "int \<Rightarrow> bool" where
  "fits_int128 z \<longleftrightarrow> - (2 ^ 127) \<le> z \<and> z < 2 ^ 127"

lemma sint_cases: "sint w = (if uint w < 2 ^ 63 then uint w else uint w - 2 ^ 64)" for w :: uint64_t
proof -
  have shift: "(x + 2 ^ 63) mod 2 ^ 64 - 2 ^ 63 = (if x < 2 ^ 63 then x else x - 2 ^ 64)"
    if "0 \<le> x" "x < 2 ^ 64" for x :: int
  proof (cases "x < 2 ^ 63")
    case False
    have "(x + 2 ^ 63) mod 2 ^ 64 = (x + 2 ^ 63 - 2 ^ 64) mod 2 ^ 64" by (rule minus_mod_self2 [symmetric])
    also have "\<dots> = x + 2 ^ 63 - 2 ^ 64" using that False by (intro mod_pos_pos_trivial) simp_all
    finally show ?thesis using False by simp
  qed (use that in simp)
  show ?thesis
    by (subst shift [OF uint64_range, symmetric]) (simp add: sint_uint signed_take_bit_eq_take_bit_shift take_bit_eq_mod)
qed

lemma uval_of_huge: "uval (uhugeint_of_hugeint a) = (if hval a < 0 then hval a + 2 ^ 128 else hval a)"
proof -
  have "u * 2 ^ 64 + l = (if (if u < 2 ^ 63 then u else u - 2 ^ 64) * 2 ^ 64 + l < 0
      then (if u < 2 ^ 63 then u else u - 2 ^ 64) * 2 ^ 64 + l + 2 ^ 128 else (if u < 2 ^ 63 then u else u - 2 ^ 64) * 2 ^ 64 + l)"
    if "0 \<le> u" "u < 2 ^ 64" "0 \<le> l" "l < 2 ^ 64" for u l :: int using that by (auto simp: algebra_simps)
  from this [OF uint64_range uint64_range, of "h_upper a" "h_lower a"] show ?thesis
    unfolding hval_def uval_def uhugeint_of_hugeint_def sint_cases by (simp only: uhugeint_t.simps)
qed

lemma hval_range: "- (2 ^ 127) \<le> hval a" "hval a < 2 ^ 127"
proof -
  have "- (2 ^ 127) \<le> (if u < 2 ^ 63 then u else u - 2 ^ 64) * 2 ^ 64 + l \<and> (if u < 2 ^ 63 then u else u - 2 ^ 64) * 2 ^ 64 + l < 2 ^ 127"
    if "0 \<le> u" "u < 2 ^ 64" "0 \<le> l" "l < 2 ^ 64" for u l :: int using that by (auto simp: algebra_simps)
  from this [OF uint64_range uint64_range, of "h_upper a" "h_lower a"]
  show "- (2 ^ 127) \<le> hval a" "hval a < 2 ^ 127" unfolding hval_def sint_cases by simp_all
qed

lemma fits_hval [simp]: "fits_int128 (hval a)"
  by (simp only: fits_int128_def hval_range simp_thms)

lemma wrap128_id: "fits_int128 z \<Longrightarrow> wrap128 z = z"
  by (simp add: wrap128_def fits_int128_def)

lemma of_uhugeint_inverse [simp]:
  "uhugeint_of_hugeint (hugeint_of_uhugeint u) = u" "hugeint_of_uhugeint (uhugeint_of_hugeint a) = a"
  by (simp_all add: uhugeint_of_hugeint_def hugeint_of_uhugeint_def)

lemma hval_mod: "uval (uhugeint_of_hugeint a) = hval a mod 2 ^ 128"
proof -
  have "x mod 2 ^ 128 = (if x < 0 then x + 2 ^ 128 else x)" if "- (2 ^ 127) \<le> x" "x < 2 ^ 127" for x :: int
  proof (cases "x < 0")
    case True
    have "x mod 2 ^ 128 = (x + 2 ^ 128) mod 2 ^ 128" by simp
    also have "\<dots> = x + 2 ^ 128" using that True by (intro mod_pos_pos_trivial) simp_all
    finally show ?thesis using True by simp
  qed (use that in simp)
  from this [OF hval_range] show ?thesis unfolding uval_of_huge ..
qed

lemma wrap128_cong: "z mod 2 ^ 128 = w mod 2 ^ 128 \<Longrightarrow> wrap128 z = wrap128 w"
  unfolding wrap128_def by (metis mod_add_left_eq)

lemma hval_huge_mod: "hval (huge z) mod 2 ^ 128 = z mod 2 ^ 128"
  unfolding huge_def hval_mod [symmetric] by simp

lemma hval_huge: "hval (huge z) = wrap128 z"
  using wrap128_cong [OF hval_huge_mod] wrap128_id [OF fits_hval] by simp

lemma hval_inject: "hval a = hval b \<longleftrightarrow> a = b"
  by (metis hval_mod uval_inject of_uhugeint_inverse(2))

lemma huge_eqI: "hval a mod 2 ^ 128 = z mod 2 ^ 128 \<Longrightarrow> a = huge z"
  unfolding hval_inject [symmetric] hval_huge using wrap128_cong wrap128_id [OF fits_hval] by metis

lemma huge_hval [simp]: "huge (hval a) = a"
  by (rule huge_eqI [symmetric]) simp

lemma huge_cong: "z mod 2 ^ 128 = w mod 2 ^ 128 \<Longrightarrow> huge z = huge w"
  unfolding hval_inject [symmetric] hval_huge by (rule wrap128_cong)

lemma hval_huge_fits: "fits_int128 z \<Longrightarrow> hval (huge z) = z"
  by (simp add: hval_huge wrap128_id)

lemma hval_sign: "sint (h_upper a) < 0 \<longleftrightarrow> hval a < 0"
proof -
  have "s < 0 \<longleftrightarrow> s * 2 ^ 64 + l < 0" if "0 \<le> l" "l < 2 ^ 64" for s l :: int using that by auto
  from this [OF uint64_range] show ?thesis unfolding hval_def .
qed

lemma hval_nonneg: "0 \<le> hval a \<Longrightarrow> uval (uhugeint_of_hugeint a) = hval a"
  by (simp add: uval_of_huge)

lemma hval_Minimum [simp]: "hval hugeint_Minimum = - (2 ^ 127)"
  by (simp add: hval_def hugeint_Minimum_def sint_cases)

lemma hval_Maximum [simp]: "hval hugeint_Maximum = 2 ^ 127 - 1"
  by (simp add: hval_def hugeint_Maximum_def sint_cases unsigned_minus_1_eq_mask mask_eq_exp_minus_1)

lemma hval_convert: "- (2 ^ 63) \<le> v \<Longrightarrow> v < 2 ^ 64 \<Longrightarrow> hval (HugeintConvertInteger v) = v"
proof -
  assume v: "- (2 ^ 63) \<le> v" "v < 2 ^ 64"
  have "v mod 2 ^ 64 = (if v < 0 then v + 2 ^ 64 else v)"
  proof (cases "v < 0")
    case True
    have "v mod 2 ^ 64 = (v + 2 ^ 64) mod 2 ^ 64" by simp
    also have "\<dots> = v + 2 ^ 64" using v True by (intro mod_pos_pos_trivial) simp_all
    finally show ?thesis using True by simp
  qed (use v in simp)
  then have "uint (word_of_int v :: uint64_t) = (if v < 0 then v + 2 ^ 64 else v)" by (simp only: uint_word_of_int) simp
  then show ?thesis unfolding hval_def HugeintConvertInteger_def by simp
qed

lemma hval_small [simp]:
  "hval (HugeintConvertInteger 0) = 0" "hval (HugeintConvertInteger 1) = 1" "hval (HugeintConvertInteger (- 1)) = - 1"
  by (simp_all add: hval_convert)

lemma hval_compare:
  "Hugeint_Equals a b \<longleftrightarrow> hval a = hval b"
  "Hugeint_LessThan a b \<longleftrightarrow> hval a < hval b"
  "Hugeint_GreaterThan a b \<longleftrightarrow> hval a > hval b"
  "Hugeint_LessThanEquals a b \<longleftrightarrow> hval a \<le> hval b"
  "Hugeint_GreaterThanEquals a b \<longleftrightarrow> hval a \<ge> hval b"
proof -
  show "Hugeint_Equals a b \<longleftrightarrow> hval a = hval b"
    unfolding hval_inject by (cases a; cases b) (auto simp: Hugeint_Equals_def)
  have inj: "u = v \<longleftrightarrow> sint u = sint v" for u v :: uint64_t by (metis signed_word_eqI)
  have less: "hval c < hval d \<longleftrightarrow> sint (h_upper c) < sint (h_upper d) \<or>
      h_upper c = h_upper d \<and> uint (h_lower c) < uint (h_lower d)" for c d
    unfolding hval_def inj by (rule pair_less) (rule uint64_range)+
  show "Hugeint_LessThan a b \<longleftrightarrow> hval a < hval b" "Hugeint_GreaterThan a b \<longleftrightarrow> hval a > hval b"
    by (auto simp: less Hugeint_LessThan_def Hugeint_GreaterThan_def word_less_def)
  show "Hugeint_LessThanEquals a b \<longleftrightarrow> hval a \<le> hval b" "Hugeint_GreaterThanEquals a b \<longleftrightarrow> hval a \<ge> hval b"
    unfolding not_less [symmetric] less Hugeint_LessThanEquals_def Hugeint_GreaterThanEquals_def word_le_def Let_def inj
    by (auto simp: word_less_def)
qed

lemma unsigned_plus: "uhugeint_of_hugeint (hugeint_plus a b) = uhugeint_plus (uhugeint_of_hugeint a) (uhugeint_of_hugeint b)"
  by (simp add: hugeint_plus_def uhugeint_plus_def uhugeint_of_hugeint_def)

lemma unsigned_minus: "uhugeint_of_hugeint (hugeint_minus a b) = uhugeint_minus (uhugeint_of_hugeint a) (uhugeint_of_hugeint b)"
  by (simp add: hugeint_minus_def uhugeint_minus_def uhugeint_of_hugeint_def)

lemma hugeint_plus_eq: "hugeint_plus a b = huge (hval a + hval b)"
  by (rule huge_eqI, subst hval_mod [symmetric]) (simp only: unsigned_plus uhugeint_plus_eq uval_uhuge hval_mod mod_add_eq)

lemma hugeint_minus_eq: "hugeint_minus a b = huge (hval a - hval b)"
  by (rule huge_eqI, subst hval_mod [symmetric]) (simp only: unsigned_minus uhugeint_minus_eq uval_uhuge hval_mod mod_diff_eq)

lemma Negate_eq: "Hugeint_NegateInPlace a = huge (- hval a)"
proof -
  have "uhugeint_of_hugeint (Hugeint_NegateInPlace a) = uhugeint_minus (uhugeint_of 0) (uhugeint_of_hugeint a)"
  proof -
    have "0 < - w \<longleftrightarrow> w \<noteq> 0" for w :: uint64_t by (simp add: word_gt_0)
    then show ?thesis
      by (simp add: uhugeint_of_hugeint_def Hugeint_NegateInPlace_def uhugeint_minus_def uhugeint_of_def Let_def)
  qed
  then have "hval (Hugeint_NegateInPlace a) mod 2 ^ 128 = (0 - hval a mod 2 ^ 128) mod 2 ^ 128"
    unfolding hval_mod [symmetric] by (simp add: uhugeint_minus_eq)
  then show ?thesis by (intro huge_eqI) (simp only: mod_diff_right_eq, simp)
qed

lemma TryNegate_eq: "Hugeint_TryNegate a = (if hval a = - (2 ^ 127) then None else Some (huge (- hval a)))"
proof -
  have "h_upper a = 0x8000000000000000 \<and> h_lower a = 0 \<longleftrightarrow> a = hugeint_Minimum"
    by (cases a) (auto simp: hugeint_Minimum_def)
  then show ?thesis unfolding Hugeint_TryNegate_def Negate_eq hval_inject [symmetric] by simp
qed

lemma add_upper:
  "hugeint_plus a b = \<lparr>h_lower = h_lower a + h_lower b,
     h_upper = h_upper a + word_of_int (if h_lower a + h_lower b < h_lower a then 1 else 0) + h_upper b\<rparr>"
  by (simp add: hugeint_plus_def)

lemma sub_upper:
  "hugeint_minus a b = \<lparr>h_lower = h_lower a - h_lower b,
     h_upper = h_upper a - h_upper b - word_of_int (if h_lower a - h_lower b > h_lower a then 1 else 0)\<rparr>"
  by (simp add: hugeint_minus_def)

lemma sum_fits:
  fixes s t l k :: int
  assumes "0 \<le> l" "l < 2 ^ 64" "0 \<le> k" "k < 2 ^ 64"
  shows "fits_int128 ((s * 2 ^ 64 + l) + (t * 2 ^ 64 + k)) \<longleftrightarrow>
    - (2 ^ 63) \<le> s + t + (if 2 ^ 64 \<le> l + k then 1 else 0) \<and> s + t + (if 2 ^ 64 \<le> l + k then 1 else 0) < 2 ^ 63"
  using assms by (auto simp: fits_int128_def)

lemma difference_fits:
  fixes s t l k :: int
  assumes "0 \<le> l" "l < 2 ^ 64" "0 \<le> k" "k < 2 ^ 64"
  shows "fits_int128 ((s * 2 ^ 64 + l) - (t * 2 ^ 64 + k)) \<longleftrightarrow>
    - (2 ^ 63) \<le> s - t - (if l < k then 1 else 0) \<and> s - t - (if l < k then 1 else 0) < 2 ^ 63"
  using assms by (auto simp: fits_int128_def)

lemma sint_range: "- (2 ^ 63) \<le> sint w" "sint w < 2 ^ 63" for w :: uint64_t
  using sint_ge [of w] sint_lt [of w] by simp_all

lemma TryAdd_eq:
  "Hugeint_TryAddInPlace a b = (if fits_int128 (hval a + hval b) then Some (huge (hval a + hval b)) else None)"
proof -
  define c :: int where "c = (if h_lower a + h_lower b < h_lower a then 1 else 0)"
  have c: "c = 0 \<or> c = 1" by (simp add: c_def)
  have fits: "fits_int128 (hval a + hval b) \<longleftrightarrow> - (2 ^ 63) \<le> sint (h_upper a) + sint (h_upper b) + c \<and> sint (h_upper a) + sint (h_upper b) + c < 2 ^ 63"
    unfolding hval_def sum_fits [OF uint64_range uint64_range] c_def add_carry(2) ..
  have r: "Some (huge (hval a + hval b)) = Some \<lparr>h_lower = h_lower a + h_lower b, h_upper = h_upper a + word_of_int c + h_upper b\<rparr>"
    unfolding hugeint_plus_eq [symmetric] add_upper c_def ..
  have r': "h_upper a + (word_of_int c + h_upper b) = h_upper a + word_of_int c + h_upper b" by simp
  show ?thesis
    unfolding Hugeint_TryAddInPlace_def Let_def c_def [symmetric] r r' fits
    using sint_range [of "h_upper a"] sint_range [of "h_upper b"] c by (auto simp del: of_int_add)
qed

lemma TrySubtract_eq:
  "Hugeint_TrySubtractInPlace a b = (if fits_int128 (hval a - hval b) then Some (huge (hval a - hval b)) else None)"
proof -
  define c :: int where "c = (if h_lower a - h_lower b > h_lower a then 1 else 0)"
  have c: "c = 0 \<or> c = 1" by (simp add: c_def)
  have fits: "fits_int128 (hval a - hval b) \<longleftrightarrow> - (2 ^ 63) \<le> sint (h_upper a) - sint (h_upper b) - c \<and> sint (h_upper a) - sint (h_upper b) - c < 2 ^ 63"
    unfolding hval_def difference_fits [OF uint64_range uint64_range] c_def sub_borrow(2) ..
  have r: "Some (huge (hval a - hval b)) = Some \<lparr>h_lower = h_lower a - h_lower b, h_upper = h_upper a - h_upper b - word_of_int c\<rparr>"
    unfolding hugeint_minus_eq [symmetric] sub_upper c_def ..
  have r': "h_upper a - (h_upper b + word_of_int c) = h_upper a - h_upper b - word_of_int c" by simp
  show ?thesis
    unfolding Hugeint_TrySubtractInPlace_def Let_def c_def [symmetric] r r' fits
    using sint_range [of "h_upper a"] sint_range [of "h_upper b"] c by (auto simp del: of_int_add)
qed

section \<open>Multiplication\<close>

lemma int128_eq: "int128 a = word_of_int (hval a)"
  by (simp only: int128_def hval_def push_bit_eq_mult ucast_eq scast_eq of_int_add of_int_mult of_int_power of_int_numeral add.commute)

lemma product128: "uint (int128 a * int128 b) = hval a * hval b mod 2 ^ 128" "uint (int128 a) = hval a mod 2 ^ 128"
  by (simp_all only: int128_eq of_int_mult [symmetric] uint_word_of_int) simp_all

lemma split128_huge:
  "\<lparr>h_lower = ucast ((r :: 128 word) AND 0xffffffffffffffff), h_upper = ucast (drop_bit 64 r)\<rparr> = huge (uint r)"
  unfolding huge_def split128_eq [symmetric] by (simp add: split128_def hugeint_of_uhugeint_def)

lemma top_bit: "(ucast (drop_bit 64 (r :: 128 word)) :: uint64_t) AND 0x8000000000000000 \<noteq> 0 \<longleftrightarrow> 2 ^ 127 \<le> uint r"
proof -
  have m: "(0x8000000000000000 :: uint64_t) = 2 ^ 63" by simp
  have "(ucast (drop_bit 64 r) :: uint64_t) AND 0x8000000000000000 \<noteq> 0 \<longleftrightarrow> bit (ucast (drop_bit 64 r) :: uint64_t) 63"
    unfolding m and_exp_eq_0_iff_not_bit by simp
  also have "\<dots> \<longleftrightarrow> bit r 127" by (simp add: bit_simps)
  also have "\<dots> \<longleftrightarrow> odd (uint r div 2 ^ 127)" unfolding bit_iff_odd [of "uint r", symmetric] by (simp add: bit_unsigned_iff)
  also have "\<dots> \<longleftrightarrow> 2 ^ 127 \<le> uint r"
  proof -
    have "odd (x div 2 ^ 127) \<longleftrightarrow> 2 ^ 127 \<le> x" if "0 \<le> x" "x < 2 ^ 128" for x :: int
    proof (cases "2 ^ 127 \<le> x")
      case True
      then have "x div 2 ^ 127 = 1" using that by (intro int_div_pos_eq [of _ _ _ "x - 2 ^ 127"]) simp_all
      then show ?thesis using True by simp
    qed (use that in simp)
    then show ?thesis using uint_lt2p [of r] by simp
  qed
  finally show ?thesis .
qed

text \<open>The absolute values of both factors, where they have one.\<close>

lemma absolute:
  assumes "hval a \<noteq> - (2 ^ 127)"
  shows "(if sint (h_upper a) < 0 then Hugeint_TryNegate a else Some a) = Some (huge \<bar>hval a\<bar>)"
    and "(if sint (h_upper a) < 0 then Hugeint_NegateInPlace a else a) = huge \<bar>hval a\<bar>" and "hval (huge \<bar>hval a\<bar>) = \<bar>hval a\<bar>"
proof -
  have abs: "hval a < 0 \<Longrightarrow> \<bar>hval a\<bar> = - hval a" "\<not> hval a < 0 \<Longrightarrow> \<bar>hval a\<bar> = hval a" by simp_all
  show "(if sint (h_upper a) < 0 then Hugeint_TryNegate a else Some a) = Some (huge \<bar>hval a\<bar>)"
    using assms abs by (simp add: hval_sign TryNegate_eq)
  show "(if sint (h_upper a) < 0 then Hugeint_NegateInPlace a else a) = huge \<bar>hval a\<bar>"
    using assms abs by (simp add: hval_sign Negate_eq)
  show "hval (huge \<bar>hval a\<bar>) = \<bar>hval a\<bar>"
    using assms hval_range [of a] by (intro hval_huge_fits) (auto simp: fits_int128_def abs_if)
qed

lemma product_sign: "(x < 0) \<noteq> (y < 0) \<Longrightarrow> - (\<bar>x\<bar> * \<bar>y\<bar>) = x * y" "(x < 0) = (y < 0) \<Longrightarrow> \<bar>x\<bar> * \<bar>y\<bar> = x * y" for x y :: int
  by (auto simp: abs_if)

text \<open>The product fits, or is the smallest number times zero or one.\<close>

definition multiply_fits :: "int \<Rightarrow> int \<Rightarrow> bool" where
  "multiply_fits x y \<longleftrightarrow>
     (if x = - (2 ^ 127) then y = 0 \<or> y = 1 else if y = - (2 ^ 127) then x = 0 \<or> x = 1 else \<bar>x * y\<bar> < 2 ^ 127)"

lemma Negate_huge: "Hugeint_NegateInPlace (huge z) = huge (- z)"
  unfolding Negate_eq by (rule huge_cong) (metis hval_huge_mod mod_minus_eq)

lemma TryMultiply_extreme:
  assumes "hval a = - (2 ^ 127) \<or> hval b = - (2 ^ 127)"
  shows "Hugeint_TryMultiply a b = (if multiply_fits (hval a) (hval b) then Some (huge (hval a * hval b)) else None)"
proof -
  have min: "huge (- (2 ^ 127)) = hugeint_Minimum" "huge 0 = HugeintConvertInteger 0"
    by (simp_all only: hval_inject [symmetric] hval_Minimum hval_small) (simp_all add: hval_huge_fits fits_int128_def)
  show ?thesis using assms by (auto simp: Hugeint_TryMultiply_def hval_compare multiply_fits_def min min(1) [simplified])
qed

lemma TryMultiply_eq:
  "Hugeint_TryMultiply a b = (if multiply_fits (hval a) (hval b) then Some (huge (hval a * hval b)) else None)"
proof (cases "hval a = - (2 ^ 127) \<or> hval b = - (2 ^ 127)")
  case False
  define x y where "x = hval a" and "y = hval b"
  have eq: "hval a = x" "hval b = y" by (simp_all add: x_def y_def)
  have na: "x \<noteq> - (2 ^ 127)" "y \<noteq> - (2 ^ 127)" using False by (simp_all add: x_def y_def)
  have u: "uint (int128 (huge \<bar>x\<bar>)) = \<bar>x\<bar>" "uint (int128 (huge \<bar>y\<bar>)) = \<bar>y\<bar>"
    using absolute(3) [OF na(1) [folded eq]] absolute(3) [OF na(2) [folded eq]] hval_range [of a] hval_range [of b] na
    unfolding eq by (simp_all add: product128)
  have pos: "0 \<le> \<bar>x\<bar> * \<bar>y\<bar>" by simp
  have prod: "uint (int128 (huge \<bar>x\<bar>) * int128 (huge \<bar>y\<bar>)) = \<bar>x\<bar> * \<bar>y\<bar> mod 2 ^ 128"
    unfolding product128 absolute(3) [OF na(1) [folded eq], unfolded eq] absolute(3) [OF na(2) [folded eq], unfolded eq] ..
  have fits: "multiply_fits x y \<longleftrightarrow> \<bar>x\<bar> * \<bar>y\<bar> < 2 ^ 127" using na by (simp add: multiply_fits_def abs_mult)
  have "Hugeint_TryMultiply a b =
    (if 2 ^ 128 \<le> \<bar>x\<bar> * \<bar>y\<bar> then None
     else if 2 ^ 127 \<le> \<bar>x\<bar> * \<bar>y\<bar> mod 2 ^ 128 then None
     else Some (if (x < 0) \<noteq> (y < 0) then Hugeint_NegateInPlace (huge (\<bar>x\<bar> * \<bar>y\<bar> mod 2 ^ 128)) else huge (\<bar>x\<bar> * \<bar>y\<bar> mod 2 ^ 128)))"
    unfolding Hugeint_TryMultiply_def Let_def absolute(1) [OF na(1) [folded eq]] absolute(1) [OF na(2) [folded eq]] option.case
    unfolding hval_compare hval_Minimum split128_huge top_bit mul_overflow_def hval_sign eq u prod
    using na by (simp only: if_False simp_thms)
  also have "\<dots> = (if multiply_fits x y then Some (huge (x * y)) else None)"
  proof (cases "\<bar>x\<bar> * \<bar>y\<bar> < 2 ^ 127")
    case True
    then have m: "\<bar>x\<bar> * \<bar>y\<bar> mod 2 ^ 128 = \<bar>x\<bar> * \<bar>y\<bar>" using pos by simp
    show ?thesis unfolding m fits using True product_sign [of x y] by (auto simp: Negate_huge)
  next
    case False
    then have "\<not> 2 ^ 128 \<le> \<bar>x\<bar> * \<bar>y\<bar> \<Longrightarrow> \<bar>x\<bar> * \<bar>y\<bar> mod 2 ^ 128 = \<bar>x\<bar> * \<bar>y\<bar>" using pos by simp
    then show ?thesis unfolding fits using False by auto
  qed
  finally show ?thesis unfolding eq .
qed (rule TryMultiply_extreme)

lemma Multiply_wrap_eq: "Hugeint_Multiply_wrap a b = huge (hval a * hval b)"
proof -
  define x y where "x = (if sint (h_upper a) < 0 then Hugeint_NegateInPlace a else a)"
    and "y = (if sint (h_upper b) < 0 then Hugeint_NegateInPlace b else b)"
  have sign: "hval x mod 2 ^ 128 = (if hval a < 0 then - hval a else hval a) mod 2 ^ 128"
    "hval y mod 2 ^ 128 = (if hval b < 0 then - hval b else hval b) mod 2 ^ 128"
    unfolding x_def y_def hval_sign Negate_eq by (simp_all only: hval_huge_mod if_True if_False split: if_split) simp_all
  have "huge (uint (int128 x * int128 y)) = huge ((if hval a < 0 then - hval a else hval a) * (if hval b < 0 then - hval b else hval b))"
    unfolding product128 by (rule huge_cong) (metis mod_mod_trivial mod_mult_eq sign)
  then have r: "huge (uint (int128 x * int128 y)) = huge (\<bar>hval a\<bar> * \<bar>hval b\<bar>)" by (simp only: abs_if)
  show ?thesis
    unfolding Hugeint_Multiply_wrap_def Let_def x_def [symmetric] y_def [symmetric] split128_huge r unfolding hval_sign
    using product_sign [of "hval a" "hval b"] by (auto simp: Negate_huge)
qed

text \<open>The portable multiplication is the unsigned one on the same bits.\<close>

lemma portable_product:
  "Hugeint_combine (Hugeint_columns (Hugeint_products a b)) =
     hugeint_of_uhugeint (Uhugeint_Multiply_portable (uhugeint_of_hugeint a) (uhugeint_of_hugeint b))"
proof -
  have pieces: "Hugeint_pieces c = Uhugeint_pieces (uhugeint_of_hugeint c)" for c
    by (simp add: Hugeint_pieces_def Uhugeint_pieces_def uhugeint_of_hugeint_def)
  have "Hugeint_columns (Hugeint_products a b) = Uhugeint_columns (Uhugeint_products (uhugeint_of_hugeint a) (uhugeint_of_hugeint b))"
    unfolding Hugeint_columns_def Uhugeint_columns_def Hugeint_products_def Uhugeint_products_def pieces by simp
  then show ?thesis
    by (simp add: Uhugeint_Multiply_portable_def Hugeint_combine_def Uhugeint_combine_def hugeint_of_uhugeint_def split: prod.splits)
qed

lemma portable_huge: "Hugeint_combine (Hugeint_columns (Hugeint_products a b)) = huge (hval a * hval b)"
proof -
  have "huge (hval a * hval b) = huge (uval (uhugeint_of_hugeint a) * uval (uhugeint_of_hugeint b))"
    unfolding hval_mod by (rule huge_cong) (simp only: mod_mult_eq)
  then show ?thesis by (simp add: portable_product Uhugeint_Multiply_portable_eq huge_def)
qed

lemma Multiply_portable_eq: "Hugeint_Multiply_portable a b = Hugeint_Multiply_wrap a b"
proof -
  have "huge (uint (int128 x * int128 y)) = huge (hval x * hval y)" for x y
    unfolding product128 by (rule huge_cong) simp
  then show ?thesis
    unfolding Hugeint_Multiply_portable_def Hugeint_Multiply_wrap_def portable_huge split128_huge by simp
qed

lemma two_31_32: "(2 :: int) ^ 31 < 2 ^ 32"
  by simp

lemma high_bits_31: "(w :: uint64_t) AND 0xffffffff80000000 \<noteq> 0 \<longleftrightarrow> 2 ^ 31 \<le> uint w"
proof -
  have m: "(0xffffffff80000000 :: uint64_t) = NOT (mask 31)" by (simp add: mask_eq_exp_minus_1)
  have w: "w AND 0xffffffff80000000 = push_bit 31 (drop_bit 31 w)"
    unfolding m by (rule bit_eqI) (auto simp: bit_simps)
  have z: "uint w div 2 ^ 31 = 0 \<longleftrightarrow> uint w < 2 ^ 31"
    using uint64_range(1) [of w] by (auto simp: zdiv_eq_0_iff)
  have "push_bit 31 (drop_bit 31 w) = 0 \<longleftrightarrow> drop_bit 31 w = 0" 
  proof -
    have "drop_bit 31 (push_bit 31 (drop_bit 31 w)) = drop_bit 31 w"
      by (rule bit_eqI) (auto simp: bit_simps dest: bit_imp_le_length)
    then show ?thesis by (metis drop_bit_of_0 push_bit_of_0)
  qed
  also have "\<dots> \<longleftrightarrow> uint w div 2 ^ 31 = 0" by (simp only: word_uint_eq_iff uint_drop) simp
  finally show ?thesis using w z by (simp add: not_less)
qed

lemma high_bits_31_56:
  assumes "0 \<le> x" "x < 2 ^ 37"
  shows "(word_of_int x :: uint64_t) AND 0xffffff80000000 \<noteq> 0 \<longleftrightarrow> 2 ^ 31 \<le> x"
proof -
  have u: "uint (word_of_int x :: uint64_t) = x" using assms by (simp add: uint_word_of_int)
  define w :: uint64_t where "w = word_of_int x"
  have short: "n < 56" if "bit w n" for n
  proof (rule ccontr)
    assume "\<not> n < 56"
    then have "(2 :: int) ^ 37 \<le> 2 ^ n" by (intro power_increasing) simp_all
    then have "x div 2 ^ n = 0" using assms by (intro div_pos_pos_trivial) linarith+
    then have "\<not> bit x n" by (simp add: bit_iff_odd)
    then show False using that by (simp add: w_def bit_simps)
  qed
  have m: "(0xffffff80000000 :: uint64_t) = push_bit 31 (mask 25)" "(0xffffffff80000000 :: uint64_t) = push_bit 31 (mask 33)"
    by (simp_all add: mask_eq_exp_minus_1)
  have "w AND 0xffffff80000000 = w AND 0xffffffff80000000"
    unfolding m by (rule bit_eqI) (auto simp: bit_simps dest: short)
  then have "word_of_int x AND 0xffffff80000000 = (word_of_int x :: uint64_t) AND 0xffffffff80000000" unfolding w_def .
  then show ?thesis using high_bits_31 [of "word_of_int x"] u by simp
qed

lemma top_digit: "0 \<le> r \<Longrightarrow> r < 2 ^ 96 \<Longrightarrow> x * 2 ^ 96 + r < 2 ^ 127 \<longleftrightarrow> x < 2 ^ 31" for x r :: int
  by auto

lemma three_digits:
  fixes x y z :: int
  assumes "0 \<le> x" "x < 2 ^ 32" "0 \<le> y" "y < 2 ^ 32" "0 \<le> z" "z < 2 ^ 32"
  shows "0 \<le> x * 2 ^ 64 + y * 2 ^ 32 + z" "x * 2 ^ 64 + y * 2 ^ 32 + z < 2 ^ 96"
  using assms by simp_all

text \<open>The checks of the portable multiplication of positive numbers find exactly the products that do not fit.\<close>

lemma portable_checks:
  fixes a b :: hugeint_t
  assumes "0 \<le> hval a" "0 \<le> hval b"
  defines "p \<equiv> Hugeint_products a b"
  shows "(p 0 0 = 0 \<and> p 0 1 = 0 \<and> p 0 2 = 0 \<and> p 1 0 = 0 \<and> p 2 0 = 0 \<and> p 1 1 = 0) \<and>
      \<not> (p 0 3 AND 0xffffffff80000000 \<noteq> 0 \<or> p 1 2 AND 0xffffffff80000000 \<noteq> 0 \<or>
         p 2 1 AND 0xffffffff80000000 \<noteq> 0 \<or> p 3 0 AND 0xffffffff80000000 \<noteq> 0) \<and>
      \<not> fst (Hugeint_columns p) AND 0xffffff80000000 \<noteq> 0 \<longleftrightarrow> hval a * hval b < 2 ^ 127"
  (is "?zero \<and> \<not> ?high \<and> \<not> ?top \<longleftrightarrow> _")
proof -
  define u v where "u = uhugeint_of_hugeint a" and "v = uhugeint_of_hugeint b"
  define q where "q = Uhugeint_products u v"
  have uv: "uval u * uval v = hval a * hval b" using assms by (simp add: u_def v_def hval_nonneg)
  have pieces: "Hugeint_pieces c = Uhugeint_pieces (uhugeint_of_hugeint c)" for c
    by (simp add: Hugeint_pieces_def Uhugeint_pieces_def uhugeint_of_hugeint_def)
  have pq: "p x y = q (3 - x) y" if "x < 4" for x y
    using that by (simp add: p_def q_def Hugeint_products_def Uhugeint_products_def pieces u_def v_def)
  have columns: "Hugeint_columns p = Uhugeint_columns q"
    unfolding Hugeint_columns_def Uhugeint_columns_def by (simp add: pq)
  obtain a1 b1 c1 d :: int where cols: "Uhugeint_columns q = (word_of_int a1, word_of_int b1, word_of_int c1, word_of_int d)"
    and r: "0 \<le> a1" "a1 < 2 ^ 37" 
    and total: "a1 * 2 ^ 96 + b1 mod 2 ^ 32 * 2 ^ 64 + c1 mod 2 ^ 32 * 2 ^ 32 + d mod 2 ^ 32
      + (uint (q 0 0) div 2 ^ 32 + uint (q 1 1) div 2 ^ 32 + uint (q 2 2) div 2 ^ 32 + uint (q 3 3) div 2 ^ 32) * 2 ^ 128 =
      uint (q 0 3) + (uint (q 0 2) + uint (q 1 3)) * 2 ^ 32 + (uint (q 0 1) + uint (q 1 2) + uint (q 2 3)) * 2 ^ 64
      + (uint (q 0 0) + uint (q 1 1) + uint (q 2 2) + uint (q 3 3)) * 2 ^ 96"
    by (rule columns_value)
  have top: "?top \<longleftrightarrow> 2 ^ 31 \<le> a1" unfolding columns cols fst_conv by (rule high_bits_31_56 [OF r])
  have exact: "hval a * hval b < 2 ^ 127 \<longleftrightarrow> a1 < 2 ^ 31" if z: ?zero and h: "\<not> ?high"
  proof -
    have zero: "q 3 0 = 0" "q 3 1 = 0" "q 3 2 = 0" "q 2 0 = 0" "q 1 0 = 0" "q 2 1 = 0" using z by (simp_all add: pq)
    have "uint (q i i) < 2 ^ 31" if "i < 4" for i
    proof -
      have "i = 0 \<or> i = 1 \<or> i = 2 \<or> i = 3" using that by linarith
      then show ?thesis using h unfolding high_bits_31 by (auto simp: pq not_le)
    qed
    then have "uint (q i i) < 2 ^ 32" if "i < 4" for i using that by (blast intro: less_trans two_31_32)
    then have "uint (q i i) div 2 ^ 32 = 0" if "i < 4" for i
      using that uint64_range(1) [of "q i i"] by (intro div_pos_pos_trivial)
    from this [of 0] this [of 1] this [of 2] this [of 3]
    have "hval a * hval b = a1 * 2 ^ 96 + (b1 mod 2 ^ 32 * 2 ^ 64 + c1 mod 2 ^ 32 * 2 ^ 32 + d mod 2 ^ 32)"
      using total unfolding uv [symmetric] product_expansion q_def [symmetric] by (simp add: zero del: One_nat_def)
    moreover have "0 \<le> x mod 2 ^ 32" "x mod 2 ^ 32 < 2 ^ 32" for x :: int by simp_all
    from three_digits [OF this [of b1] this [of c1] this [of d]]
    have "0 \<le> b1 mod 2 ^ 32 * 2 ^ 64 + c1 mod 2 ^ 32 * 2 ^ 32 + d mod 2 ^ 32"
      "b1 mod 2 ^ 32 * 2 ^ 64 + c1 mod 2 ^ 32 * 2 ^ 32 + d mod 2 ^ 32 < 2 ^ 96" .
    ultimately show ?thesis by (simp only: top_digit)
  qed
  have accepts: ?zero "\<not> ?high" if fit: "hval a * hval b < 2 ^ 127"
  proof -
    have beyond: "q i y = 0" if "i < 4" "y < i" for i y
      unfolding q_def using fit that by (intro product_beyond) (simp_all add: uv)
    then show ?zero by (simp add: pq)
    have "\<not> 2 ^ 31 \<le> uint (q i i)" if "i < 4" for i
    proof
      assume "2 ^ 31 \<le> uint (q i i)"
      then have "2 ^ 31 * 2 ^ 96 \<le> uint (q i i) * 2 ^ 96" by (intro mult_right_mono) simp_all
      then show False using product_term_le [of i i u v, folded q_def] that fit uv by simp
    qed
    then show "\<not> ?high" unfolding high_bits_31 by (simp add: pq)
  qed
  show ?thesis using exact accepts top by (metis not_less)
qed

lemma TryMultiply_portable_eq: "Hugeint_TryMultiply_portable a b = Hugeint_TryMultiply a b"
proof (cases "hval a = - (2 ^ 127) \<or> hval b = - (2 ^ 127)")
  case True
  then show ?thesis
    unfolding TryMultiply_extreme [OF True]
    by (subst TryMultiply_extreme [OF True, symmetric])
      (auto simp: Hugeint_TryMultiply_portable_def Hugeint_TryMultiply_def hval_compare)
next
  case False
  define x y where "x = hval a" and "y = hval b"
  have eq: "hval a = x" "hval b = y" by (simp_all add: x_def y_def)
  have na: "x \<noteq> - (2 ^ 127)" "y \<noteq> - (2 ^ 127)" using False by (simp_all add: x_def y_def)
  note pos = absolute(3) [OF na(1) [folded eq], unfolded eq] absolute(3) [OF na(2) [folded eq], unfolded eq]
  define p where "p = Hugeint_products (huge \<bar>x\<bar>) (huge \<bar>y\<bar>)"
  have fits: "multiply_fits x y \<longleftrightarrow> \<bar>x\<bar> * \<bar>y\<bar> < 2 ^ 127" using na by (simp add: multiply_fits_def abs_mult)
  note checks = portable_checks [of "huge \<bar>x\<bar>" "huge \<bar>y\<bar>", folded p_def, unfolded pos, OF abs_ge_zero abs_ge_zero, folded fits]
  have r: "Hugeint_combine (Hugeint_columns p) = huge (\<bar>x\<bar> * \<bar>y\<bar>)"
    unfolding p_def portable_huge pos ..
  have "Hugeint_TryMultiply_portable a b =
    (if multiply_fits x y then Some (if (x < 0) \<noteq> (y < 0) then Hugeint_NegateInPlace (huge (\<bar>x\<bar> * \<bar>y\<bar>)) else huge (\<bar>x\<bar> * \<bar>y\<bar>)) else None)"
    unfolding Hugeint_TryMultiply_portable_def Let_def absolute(1) [OF na(1) [folded eq]] absolute(1) [OF na(2) [folded eq]] option.case
    unfolding hval_compare hval_Minimum hval_sign eq p_def [symmetric] r
    using na checks by (auto simp del: hval_small)
  then show ?thesis unfolding TryMultiply_eq eq using product_sign [of x y] by (auto simp: Negate_huge)
qed

section \<open>Division\<close>

lemma highest_bit: "PositiveHugeintHighestBit a = Uhugeint_Bits (uhugeint_of_hugeint a)"
  by (simp add: PositiveHugeintHighestBit_def Uhugeint_Bits_def uhugeint_of_hugeint_def)

lemma highest_bit_enough:
  assumes "0 \<le> hval a"
  shows "hval a < 2 ^ PositiveHugeintHighestBit a" "PositiveHugeintHighestBit a \<le> 128"
  using bits_enough [of "uhugeint_of_hugeint a"] bits_bound [of "uhugeint_of_hugeint a"] assms
  by (simp_all add: highest_bit hval_nonneg)

lemma bit_and_exp: "(w :: uint64_t) AND push_bit n 1 \<noteq> 0 \<longleftrightarrow> bit w n"
  by (simp add: push_bit_eq_mult and_exp_eq_0_iff_not_bit)

lemma bit_set_unsigned: "PositiveHugeintIsBitSet a n \<longleftrightarrow> bit (uval (uhugeint_of_hugeint a)) n"
proof (cases "n < 64")
  case True
  have v: "uval (uhugeint_of_hugeint a) = uint (h_upper a) * 2 ^ 64 + uint (h_lower a)" by (simp add: uval_def uhugeint_of_hugeint_def)
  have p: "(2 :: int) ^ 64 = 2 ^ (64 - n) * 2 ^ n" using True by (subst power_add [symmetric]) simp
  have "uval (uhugeint_of_hugeint a) div 2 ^ n = uint (h_upper a) * 2 ^ (64 - n) + uint (h_lower a) div 2 ^ n"
    unfolding v p mult.assoc [symmetric] by simp
  moreover have "even (2 ^ (64 - n) :: int)" using True by simp
  ultimately have "bit (uval (uhugeint_of_hugeint a)) n \<longleftrightarrow> odd (uint (h_lower a) div 2 ^ n)" by (simp add: bit_iff_odd)
  also have "\<dots> \<longleftrightarrow> bit (h_lower a) n" using True by (simp add: bit_iff_odd [of "uint (h_lower a)", symmetric] bit_unsigned_iff)
  finally show ?thesis unfolding PositiveHugeintIsBitSet_def bit_and_exp using True by simp
next
  case False
  have p: "(2 :: int) ^ n = 2 ^ 64 * 2 ^ (n - 64)" using False by (subst power_add [symmetric]) simp
  have "uval (uhugeint_of_hugeint a) div 2 ^ 64 = uint (h_upper a)" by (simp only: uval_upper) (simp add: uhugeint_of_hugeint_def)
  then have "uval (uhugeint_of_hugeint a) div 2 ^ n = uint (h_upper a) div 2 ^ (n - 64)" unfolding p by (subst zdiv_zmult2_eq) simp_all
  then have "bit (uval (uhugeint_of_hugeint a)) n \<longleftrightarrow> bit (uint (h_upper a)) (n - 64)" by (simp only: bit_iff_odd)
  also have "\<dots> \<longleftrightarrow> bit (h_upper a) (n - 64)"
    by (auto simp: bit_unsigned_iff dest: bit_imp_le_length)
  finally show ?thesis unfolding PositiveHugeintIsBitSet_def bit_and_exp using False by simp
qed

lemma bit_set: "0 \<le> hval a \<Longrightarrow> PositiveHugeintIsBitSet a n \<longleftrightarrow> bit (hval a) n"
  by (simp add: bit_set_unsigned hval_nonneg)

lemma left_shift: "PositiveHugeintLeftShift a 1 = huge (2 * hval a)"
proof -
  have "PositiveHugeintLeftShift a 1 = hugeint_of_uhugeint (uhugeint_shiftl (uhugeint_of_hugeint a) (uhugeint_of 1))"
    by (simp add: PositiveHugeintLeftShift_def hugeint_of_uhugeint_def uhugeint_of_hugeint_def uhugeint_shiftl_def uhugeint_of_def)
  also have "\<dots> = huge (uval (uhugeint_of_hugeint a) * 2)" by (simp add: uval_shiftl huge_def)
  also have "\<dots> = huge (2 * hval a)" unfolding hval_mod by (rule huge_cong) (metis mod_mult_left_eq mult.commute)
  finally show ?thesis .
qed

lemma small_fits: "0 \<le> x \<Longrightarrow> x \<le> hval n \<Longrightarrow> hval (huge x) = x"
  using hval_range(2) [of n] by (intro hval_huge_fits) (simp add: fits_int128_def)

interpretation hdivision: long_division "hval n" "hval R" hval hval "hugeint_divmod_loop n R" for n R
proof
  show "hugeint_divmod_loop n R 0 q r = (q, r)" for q r by simp
next
  fix x q r m
  assume prems: "0 \<le> hval n" "0 < hval R" "0 \<le> hval q" "0 \<le> hval r" "m = 2 * hval r + (if bit (hval n) x then 1 else 0)"
    "m \<le> hval n" "2 * hval q \<le> hval n" "hval R \<le> m \<Longrightarrow> 2 * hval q + 1 \<le> hval n"
  have q: "hval (huge (2 * hval q)) = 2 * hval q" using prems by (intro small_fits [of _ n]) simp_all
  have r: "hval (huge (2 * hval r)) = 2 * hval r" using prems by (intro small_fits [of _ n]) (auto split: if_splits)
  define m' where "m' = (if PositiveHugeintIsBitSet n x then hugeint_plus (huge (2 * hval r)) (HugeintConvertInteger 1)
      else huge (2 * hval r))"
  have "0 \<le> m" using prems by simp
  then have m: "hval m' = m"
    using prems(5) small_fits [OF _ prems(6)] unfolding m'_def bit_set [OF prems(1)] hugeint_plus_eq r
    by (auto split: if_splits)
  have loop: "hugeint_divmod_loop n R (Suc x) q r =
      (if hval R \<le> m then hugeint_divmod_loop n R x (hugeint_plus (huge (2 * hval q)) (HugeintConvertInteger 1)) (hugeint_minus m' R)
       else hugeint_divmod_loop n R x (huge (2 * hval q)) m')"
    by (simp only: hugeint_divmod_loop.simps Let_def m'_def [symmetric] hval_compare(5) m left_shift)
  show "\<exists>q' r'. hugeint_divmod_loop n R (Suc x) q r = hugeint_divmod_loop n R x q' r' \<and>
      hval q' = (if hval R \<le> m then 2 * hval q + 1 else 2 * hval q) \<and> hval r' = (if hval R \<le> m then m - hval R else m)"
  proof (cases "hval R \<le> m")
    case True
    have "hval (hugeint_plus (huge (2 * hval q)) (HugeintConvertInteger 1)) = 2 * hval q + 1"
      using prems(3) prems(8) [OF True] by (simp add: hugeint_plus_eq q small_fits [of _ n])
    moreover have "hval (hugeint_minus m' R) = m - hval R"
      using True prems(2,6) by (simp add: hugeint_minus_eq m small_fits [of _ n])
    ultimately show ?thesis unfolding loop using True by auto
  next
    case False
    then show ?thesis unfolding loop using q m by auto
  qed
qed

lemma left_shift_unsigned: "uhugeint_of_hugeint (PositiveHugeintLeftShift a 1) = uhuge (2 * uval (uhugeint_of_hugeint a))"
proof -
  have "PositiveHugeintLeftShift a 1 = hugeint_of_uhugeint (uhugeint_shiftl (uhugeint_of_hugeint a) (uhugeint_of 1))"
    by (simp add: PositiveHugeintLeftShift_def hugeint_of_uhugeint_def uhugeint_of_hugeint_def uhugeint_shiftl_def uhugeint_of_def)
  then show ?thesis by (simp add: uval_shiftl mult.commute)
qed

text \<open>
  The division by a word reads the dividend as unsigned. Its divisor must not be above \<open>2 ^ 63\<close>: beyond
  it the remainder, shifted, can lose its top bit.
\<close>

interpretation pdivision: long_division "uval (uhugeint_of_hugeint n)" "if uint R \<le> 2 ^ 63 then uint R else 0"
  "\<lambda>q. uval (uhugeint_of_hugeint q)" uint "divmod_positive_loop n R" for n R
proof
  show "divmod_positive_loop n R 0 q r = (q, r)" for q r by simp
next
  fix x q m and r :: uint64_t
  let ?v = "\<lambda>q. uval (uhugeint_of_hugeint q)" and ?R = "if uint R \<le> 2 ^ 63 then uint R else 0"
  assume "0 < ?R"
  then have R: "?R = uint R" "uint R \<le> 2 ^ 63" "0 < uint R" by (auto split: if_splits)
  assume prems: "0 \<le> uint r" "m = 2 * uint r + (if bit (?v n) x then 1 else 0)" "m < 2 * ?R"
    "2 * ?v q \<le> ?v n" "?R \<le> m \<Longrightarrow> 2 * ?v q + 1 \<le> ?v n"
  define m' where "m' = (if PositiveHugeintIsBitSet n x then push_bit 1 r + 1 else push_bit 1 r)"
  have lt: "m < 2 ^ 64" "0 \<le> m" using prems(1,2,3) R by simp_all
  have m': "m' = word_of_int m"
    unfolding m'_def bit_set_unsigned by (simp add: prems(2) push_bit_eq_mult)
  have m: "uint m' = m" unfolding m' using lt by (simp add: uint_word_of_int)
  have ge: "m' \<ge> R \<longleftrightarrow> uint R \<le> m" by (simp add: word_le_def m)
  define d where "d = PositiveHugeintLeftShift q 1"
  have d: "?v d = 2 * ?v q"
    unfolding d_def left_shift_unsigned using prems(4) uval_range [of "uhugeint_of_hugeint n"] uval_range(1) [of "uhugeint_of_hugeint q"] by simp
  define q1 where "q1 = \<lparr>h_lower = h_lower d + 1, h_upper = (if h_lower d + 1 = 0 then h_upper d + 1 else h_upper d)\<rparr>"
  have "w + 1 < w \<longleftrightarrow> w + 1 = 0" for w :: uint64_t
  proof -
    have "uint w + 1 \<noteq> 0" using uint64_range(1) [of w] by linarith
    then show ?thesis using uint64_range(2) [of w] by (auto simp: add_carry(2) word_uint_eq_iff uint_plus_if')
  qed
  then have "uhugeint_of_hugeint q1 = uhugeint_plus (uhugeint_of_hugeint d) (uhugeint_of 1)"
    by (simp add: q1_def uhugeint_plus_def uhugeint_of_hugeint_def uhugeint_of_def)
  then have q1: "?v q1 = (2 * ?v q + 1) mod 2 ^ 128" by (simp add: uhugeint_plus_eq d)
  have loop: "divmod_positive_loop n R (Suc x) q r =
      (if uint R \<le> m then divmod_positive_loop n R x q1 (m' - R) else divmod_positive_loop n R x d m')"
    by (simp only: divmod_positive_loop.simps Let_def m'_def [symmetric] ge d_def [symmetric] q1_def [symmetric])
  show "\<exists>q' r'. divmod_positive_loop n R (Suc x) q r = divmod_positive_loop n R x q' r' \<and>
      ?v q' = (if ?R \<le> m then 2 * ?v q + 1 else 2 * ?v q) \<and> uint r' = (if ?R \<le> m then m - ?R else m)"
  proof (cases "uint R \<le> m")
    case True
    have "?v q1 = 2 * ?v q + 1"
      using prems(5) True uval_range [of "uhugeint_of_hugeint n"] uval_range(1) [of "uhugeint_of_hugeint q"]
      unfolding q1 R(1) by (intro mod_pos_pos_trivial) simp_all
    moreover have "uint (m' - R) = m - uint R" using True m by (simp add: uint_sub_if')
    ultimately show ?thesis unfolding loop R(1) using True by auto
  next
    case False
    then show ?thesis unfolding loop R(1) using d m by auto
  qed
qed

lemma DivModPositive_unsigned:
  assumes "0 < uint R" "uint R \<le> 2 ^ 63"
  shows "uval (uhugeint_of_hugeint (fst (DivModPositive a R))) = uval (uhugeint_of_hugeint a) div uint R"
    "uint (snd (DivModPositive a R)) = uval (uhugeint_of_hugeint a) mod uint R"
proof -
  have z: "uval (uhugeint_of_hugeint \<lparr>h_lower = 0, h_upper = 0\<rparr>) = 0" by (simp add: uval_def uhugeint_of_hugeint_def)
  have "uval (uhugeint_of_hugeint a) < 2 ^ PositiveHugeintHighestBit a" "PositiveHugeintHighestBit a \<le> 128"
    unfolding highest_bit by (rule bits_enough bits_bound)+
  then show "uval (uhugeint_of_hugeint (fst (DivModPositive a R))) = uval (uhugeint_of_hugeint a) div uint R"
    "uint (snd (DivModPositive a R)) = uval (uhugeint_of_hugeint a) mod uint R"
    using assms uval_range(1) [of "uhugeint_of_hugeint a"]
      pdivision.loop_divides [of a R "PositiveHugeintHighestBit a" "\<lparr>h_lower = 0, h_upper = 0\<rparr>" 0]
    by (simp_all add: DivModPositive_def z)
qed

lemma DivModPositive_eq:
  assumes "0 \<le> hval a" "0 < uint R" "uint R \<le> 2 ^ 63"
  shows "hval (fst (DivModPositive a R)) = hval a div uint R" "uint (snd (DivModPositive a R)) = hval a mod uint R"
proof -
  note u = DivModPositive_unsigned [OF assms(2,3), of a, unfolded hval_nonneg [OF assms(1)]]
  show "uint (snd (DivModPositive a R)) = hval a mod uint R" by (rule u)
  have "hval a div uint R \<le> hval a" using assms by (intro div_le_self)
  then have "hval a div uint R < 2 ^ 127" using hval_range(2) [of a] by simp
  then have "\<not> hval (fst (DivModPositive a R)) < 0" using u(1) hval_range(1) [of "fst (DivModPositive a R)"]
    unfolding uval_of_huge by (auto split: if_splits)
  then show "hval (fst (DivModPositive a R)) = hval a div uint R" using u(1) by (simp add: uval_of_huge)
qed

lemma succ_div:
  fixes m k :: int
  assumes "0 < k"
  shows "m mod k + 1 = k \<Longrightarrow> (m + 1) div k = m div k + 1 \<and> (m + 1) mod k = 0"
    and "m mod k + 1 \<noteq> k \<Longrightarrow> (m + 1) div k = m div k \<and> (m + 1) mod k = m mod k + 1"
proof -
  have m: "m = k * (m div k) + m mod k" by simp
  have r: "0 \<le> m mod k" "m mod k < k" using assms by simp_all
  show "(m + 1) div k = m div k + 1 \<and> (m + 1) mod k = 0" if "m mod k + 1 = k"
  proof -
    have eq: "m + 1 = k * (m div k + 1) + 0" unfolding distrib_left using m that by linarith
    show ?thesis using int_div_pos_eq [OF eq] int_mod_pos_eq [OF eq] assms by simp
  qed
  show "(m + 1) div k = m div k \<and> (m + 1) mod k = m mod k + 1" if "m mod k + 1 \<noteq> k"
  proof -
    have eq: "m + 1 = k * (m div k) + (m mod k + 1)" using m by (simp add: algebra_simps)
    have "m mod k + 1 < k" using that r by linarith
    then show ?thesis using int_div_pos_eq [OF eq] int_mod_pos_eq [OF eq] r by simp
  qed
qed

lemma sdiv_parts: "x sdiv y = sgn x * sgn y * (\<bar>x\<bar> div \<bar>y\<bar>)" "x smod y = sgn x * (\<bar>x\<bar> mod \<bar>y\<bar>)" for x y :: int
  by (simp_all add: signed_divide_int_def signed_modulo_int_def)

lemma DivMod_regular:
  assumes "hval a \<noteq> - (2 ^ 127)" "hval b \<noteq> - (2 ^ 127)" "hval b \<noteq> 0"
  shows "Hugeint_DivMod a b = (huge (hval a sdiv hval b), huge (hval a smod hval b))"
proof -
  let ?x = "hval a" and ?y = "hval b"
  define q m where "q = fst (hugeint_divmod_loop (huge \<bar>?x\<bar>) (huge \<bar>?y\<bar>) (PositiveHugeintHighestBit (huge \<bar>?x\<bar>)) \<lparr>h_lower = 0, h_upper = 0\<rparr> \<lparr>h_lower = 0, h_upper = 0\<rparr>)"
    and "m = snd (hugeint_divmod_loop (huge \<bar>?x\<bar>) (huge \<bar>?y\<bar>) (PositiveHugeintHighestBit (huge \<bar>?x\<bar>)) \<lparr>h_lower = 0, h_upper = 0\<rparr> \<lparr>h_lower = 0, h_upper = 0\<rparr>)"
  have z: "hval \<lparr>h_lower = 0, h_upper = 0\<rparr> = 0" by (simp add: hval_def)
  note x = absolute(3) [OF assms(1)] and y = absolute(3) [OF assms(2)]
  have "0 \<le> hval (huge \<bar>?x\<bar>)" "0 < hval (huge \<bar>?y\<bar>)" using assms(3) unfolding x y by simp_all
  from hdivision.loop_divides [OF this highest_bit_enough(2) [OF this(1)] highest_bit_enough(1) [OF this(1)] z z]
  have "hval q = \<bar>?x\<bar> div \<bar>?y\<bar>" "hval m = \<bar>?x\<bar> mod \<bar>?y\<bar>" unfolding q_def m_def x y by simp_all
  then have qm: "q = huge (\<bar>?x\<bar> div \<bar>?y\<bar>)" "m = huge (\<bar>?x\<bar> mod \<bar>?y\<bar>)" by (metis huge_hval)+
  have "Hugeint_DivMod a b =
      (if (?x < 0) \<noteq> (?y < 0) then Hugeint_NegateInPlace q else q, if ?x < 0 then Hugeint_NegateInPlace m else m)"
    unfolding Hugeint_DivMod.simps [of a b] Let_def absolute(2) [OF assms(1)] absolute(2) [OF assms(2)]
    unfolding hval_compare hval_Minimum hval_small hval_sign using assms by (simp add: q_def m_def case_prod_unfold)
  also have "\<dots> = (huge (?x sdiv ?y), huge (?x smod ?y))"
    unfolding qm sdiv_parts using assms(3) by (auto simp: Negate_huge sgn_if)
  finally show ?thesis .
qed

lemma huge_literals: "huge 0 = HugeintConvertInteger 0" "huge 1 = HugeintConvertInteger 1"
  by (simp_all only: hval_inject [symmetric] hval_small) (simp_all add: hval_huge_fits fits_int128_def)

lemma Sign_eq: "hugeint_Sign a = sgn (hval a)"
  by (simp add: hugeint_Sign_def hval_compare sgn_if)

lemma Abs_eq: "hugeint_Abs a = huge \<bar>hval a\<bar>"
proof -
  have "hval (HugeintConvertInteger (sgn (hval a))) = sgn (hval a)" by (rule hval_convert) (simp_all add: sgn_if)
  then show ?thesis by (simp add: hugeint_Abs_def Sign_eq Multiply_wrap_eq mult_sgn_abs abs_sgn)
qed

lemma DivMod_eq:
  assumes "hval b \<noteq> 0"
  shows "Hugeint_DivMod a b = (huge (hval a sdiv hval b), huge (hval a smod hval b))"
proof -
  consider "hval a \<noteq> - (2 ^ 127)" "hval b \<noteq> - (2 ^ 127)" | "hval b = - (2 ^ 127)"
    | "hval a = - (2 ^ 127)" "hval b \<noteq> - (2 ^ 127)" by blast
  then show ?thesis
  proof cases
    case 1
    then show ?thesis using assms by (rule DivMod_regular)
  next
    case 2
    have "hval a \<noteq> - (2 ^ 127) \<Longrightarrow> \<bar>hval a\<bar> < 2 ^ 127" using hval_range [of a] by (auto simp: abs_if)
    then have "\<bar>hval a\<bar> div 2 ^ 127 = (if hval a = - (2 ^ 127) then 1 else 0)"
      "sgn (hval a) * (\<bar>hval a\<bar> mod 2 ^ 127) = (if hval a = - (2 ^ 127) then 0 else hval a)"
      by (auto simp: mult_sgn_abs sgn_mult_abs)
    then show ?thesis using 2
      by (simp add: Hugeint_DivMod.simps [of a b] DivModMinimum.simps [of a b] hval_compare sdiv_parts huge_literals del: Hugeint_DivMod.simps DivModMinimum.simps)
  next
    case 3
    define k where "k = \<bar>hval b\<bar>"
    have k: "0 < k" using assms by (simp add: k_def)
    have min1: "hval (hugeint_plus hugeint_Minimum (HugeintConvertInteger 1)) = - (2 ^ 127 - 1)"
      by (simp add: hugeint_plus_eq hval_huge_fits fits_int128_def)
    have "Hugeint_DivMod (hugeint_plus hugeint_Minimum (HugeintConvertInteger 1)) b =
        (huge (- (2 ^ 127 - 1) sdiv hval b), huge (- (2 ^ 127 - 1) smod hval b))"
      using 3 assms DivMod_regular [of "hugeint_plus hugeint_Minimum (HugeintConvertInteger 1)" b] unfolding min1 by simp
    moreover define d m where "d = (2 ^ 127 - 1) div k" and "m = (2 ^ 127 - 1) mod k"
    have "- (2 ^ 127 - 1) sdiv hval b = - (sgn (hval b) * d)" "- (2 ^ 127 - 1) smod hval b = - m"
      unfolding sdiv_parts k_def [symmetric] d_def m_def by simp_all
    ultimately have step: "Hugeint_DivMod (hugeint_plus hugeint_Minimum (HugeintConvertInteger 1)) b = (huge (- (sgn (hval b) * d)), huge (- m))"
      by simp
    have m: "0 \<le> m" "m < k" using k by (simp_all add: m_def)
    have kr: "k < 2 ^ 127" using 3(2) hval_range [of b] by (auto simp: k_def abs_if)
    have abs: "hval (hugeint_plus (hugeint_Abs (huge (- m))) (HugeintConvertInteger 1)) = m + 1" "hval (hugeint_Abs b) = k"
      "hval (huge (- m)) = - m"
      using m kr by (simp_all add: Abs_eq hugeint_plus_eq hval_huge_fits fits_int128_def k_def)
    have s: "hval (HugeintConvertInteger (sgn (hval b))) = sgn (hval b)" by (rule hval_convert) (simp_all add: sgn_if)
    have "Hugeint_DivMod a b = DivModMinimum a b" using 3 assms by (simp add: Hugeint_DivMod.simps [of a b] hval_compare del: Hugeint_DivMod.simps DivModMinimum.simps)
    also have "\<dots> = (if m + 1 = k then (hugeint_minus (huge (- (sgn (hval b) * d))) (HugeintConvertInteger (sgn (hval b))), HugeintConvertInteger 0)
        else (huge (- (sgn (hval b) * d)), hugeint_minus (huge (- m)) (HugeintConvertInteger 1)))"
      using 3 by (simp add: DivModMinimum.simps [of a b] step hval_compare abs Sign_eq del: Hugeint_DivMod.simps DivModMinimum.simps)
    also have "\<dots> = (huge (- (2 ^ 127) sdiv hval b), huge (- (2 ^ 127) smod hval b))"
    proof -
      have parts: "- (2 ^ 127) sdiv hval b = - (sgn (hval b) * ((2 ^ 127 - 1 + 1) div k))" "- (2 ^ 127) smod hval b = - ((2 ^ 127 - 1 + 1) mod k)"
        unfolding sdiv_parts k_def [symmetric] by simp_all
      have minus: "hugeint_minus (huge x) c = huge (x - hval c)" for x c
        unfolding hugeint_minus_eq by (rule huge_cong) (metis hval_huge_mod mod_diff_left_eq)
      show ?thesis
      proof (cases "m + 1 = k")
        case True
        then have "(2 ^ 127 - 1 + 1) div k = d + 1 \<and> (2 ^ 127 - 1 + 1) mod k = 0"
          unfolding d_def m_def by (rule succ_div(1) [OF k])
        moreover have "- (sgn (hval b) * (d + 1)) = - (sgn (hval b) * d) - sgn (hval b)" by (simp add: distrib_left)
        ultimately show ?thesis unfolding parts minus s using True by (simp add: huge_literals)
      next
        case False
        then have "(2 ^ 127 - 1 + 1) div k = d \<and> (2 ^ 127 - 1 + 1) mod k = m + 1"
          unfolding d_def m_def by (rule succ_div(2) [OF k])
        then show ?thesis unfolding parts minus using False by simp
      qed
    qed
    finally show ?thesis unfolding 3(1) .
  qed
qed

section \<open>Shifts\<close>

lemma signed_drop_bit_word: "signed_drop_bit n (w :: uint64_t) = word_of_int (sint w div 2 ^ n)"
proof -
  have "(word_of_int (sint (signed_drop_bit n w)) :: uint64_t) = signed_drop_bit n w" by simp
  then show ?thesis by (simp only: sint_signed_drop_bit_eq drop_bit_eq_div)
qed

lemma shift_amount_signed:
  "h_upper rhs \<noteq> 0 \<or> 128 \<le> unat (h_lower rhs) \<longleftrightarrow> \<not> (0 \<le> hval rhs \<and> hval rhs < 128)"
  "0 \<le> hval rhs \<Longrightarrow> hval rhs < 128 \<Longrightarrow> h_upper rhs = 0 \<and> unat (h_lower rhs) = nat (hval rhs)"
  using shift_amount [of "uhugeint_of_hugeint rhs"] hval_range(1) [of rhs] unfolding uval_of_huge
  by (auto simp: uhugeint_of_hugeint_def split: if_splits)

lemma half_range: "- 1 \<le> sint (w :: uint64_t) div 2 ^ 64" "sint (w :: uint64_t) div 2 ^ 64 \<le> 0"
  "sint (w :: uint64_t) div 2 ^ 64 = (if sint w < 0 then - 1 else 0)"
proof -
  have "x div 2 ^ 64 = (if x < 0 then - 1 else 0)" if "- (2 ^ 63) \<le> x" "x < 2 ^ 63" for x :: int
    using that div_pos_neg_trivial [of x "2 ^ 64"] by auto
  from this [OF sint_range] show "sint (w :: uint64_t) div 2 ^ 64 = (if sint w < 0 then - 1 else 0)"
    "- 1 \<le> sint w div 2 ^ 64" "sint w div 2 ^ 64 \<le> 0" by (auto split: if_splits)
qed

lemma huge_words: "huge z = \<lparr>h_lower = word_of_int z, h_upper = word_of_int (z div 2 ^ 64)\<rparr>"
  by (simp add: huge_def hugeint_of_uhugeint_def uhuge_def)

text \<open>Shifting right divides, rounding down, by fewer than 128 places; further it gives zero, also for negative numbers.\<close>

lemma shiftr_eq:
  "hugeint_shiftr a b = huge (if 0 \<le> hval b \<and> hval b < 128 then hval a div 2 ^ nat (hval b) else 0)"
proof (cases "0 \<le> hval b \<and> hval b < 128")
  case False
  then have "h_upper b \<noteq> 0 \<or> 128 \<le> unat (h_lower b)" using shift_amount_signed(1) [of b] by blast
  then have "hugeint_shiftr a b = HugeintConvertInteger 0" by (simp add: hugeint_shiftr_def)
  then show ?thesis by (simp only: False if_False huge_literals)
next
  case True
  define s where "s = nat (hval b)"
  have s: "h_upper b = 0" "unat (h_lower b) = s" "s < 128" using True shift_amount_signed(2) [of b] by (auto simp: s_def)
  let ?u = "sint (h_upper a)" and ?l = "uint (h_lower a)"
  have low: "hval a div 2 ^ 64 = ?u" using uint64_range [of "h_lower a"] by (simp add: hval_def)
  have swap: "hval a div 2 ^ s div 2 ^ 64 = ?u div 2 ^ s"
    unfolding low [symmetric] by (metis zdiv_zmult2_eq mult.commute zero_le_power zero_le_numeral)
  consider "s = 0" | "s = 64" | "0 < s" "s < 64" | "64 < s" by linarith
  then have "hugeint_shiftr a b = huge (hval a div 2 ^ s)"
  proof cases
    case 1
    then show ?thesis using s by (simp add: hugeint_shiftr_def)
  next
    case 2
    have "huge ?u = \<lparr>h_lower = h_upper a, h_upper = (if ?u < 0 then - 1 else 0)\<rparr>"
      by (simp only: huge_words half_range) simp
    moreover have "hval a div 2 ^ s = ?u" using low 2 by simp
    ultimately show ?thesis using s 2 by (simp add: hugeint_shiftr_def)
  next
    case 3
    have p: "(2 :: int) ^ 64 = 2 ^ (64 - s) * 2 ^ s" using 3 by (subst power_add [symmetric]) simp
    have z: "hval a div 2 ^ s = ?u * 2 ^ (64 - s) + ?l div 2 ^ s"
      unfolding hval_def p mult.assoc [symmetric] by simp
    have "push_bit (64 - s) (h_upper a) OR drop_bit s (h_lower a) = push_bit (64 - s) (h_upper a) + drop_bit s (h_lower a)"
      by (rule disjunctive_add [symmetric]) (auto simp: bit_simps dest: bit_imp_le_length)
    also have "\<dots> = word_of_int (hval a div 2 ^ s)"
      unfolding z drop_bit_word push_bit_eq_mult by simp
    finally have "huge (hval a div 2 ^ s) = \<lparr>h_lower = push_bit (64 - s) (h_upper a) OR drop_bit s (h_lower a),
        h_upper = signed_drop_bit s (h_upper a)\<rparr>"
      by (simp only: huge_words swap signed_drop_bit_word)
    then show ?thesis using s 3 by (simp add: hugeint_shiftr_def)
  next
    case 4
    have p: "(2 :: int) ^ s = 2 ^ 64 * 2 ^ (s - 64)" using 4 by (subst power_add [symmetric]) simp
    have z: "hval a div 2 ^ s = ?u div 2 ^ (s - 64)" unfolding p low [symmetric] by (subst zdiv_zmult2_eq) simp_all
    have "?u div 2 ^ s = (if ?u < 0 then - 1 else 0)"
    proof -
      have "?u div 2 ^ s = ?u div 2 ^ 64 div 2 ^ (s - 64)" unfolding p by (subst zdiv_zmult2_eq) simp_all
      also have "\<dots> = (if ?u < 0 then - 1 else 0)" unfolding half_range(3) by (simp add: div_eq_minus1)
      finally show ?thesis .
    qed
    then have "huge (hval a div 2 ^ s) = \<lparr>h_lower = signed_drop_bit (s - 64) (h_upper a), h_upper = (if ?u < 0 then - 1 else 0)\<rparr>"
      by (simp only: huge_words swap) (simp add: z signed_drop_bit_word)
    then show ?thesis using s 4 by (simp add: hugeint_shiftr_def)
  qed
  then show ?thesis using True by (simp add: s_def)
qed

text \<open>
  Shifting a number left that is not negative multiplies and drops the bits from the sign on, but by 64
  places it keeps the sign bit; a negative number becomes zero.
\<close>

lemma clear_sign: "uval \<lparr>u_lower = l, u_upper = u AND 0x7fffffffffffffff\<rparr> = uval \<lparr>u_lower = l, u_upper = u\<rparr> mod 2 ^ 127"
proof -
  have "u AND 0x7fffffffffffffff = take_bit 63 u" by (simp add: take_bit_eq_mask mask_eq_exp_minus_1)
  then have "uint (u AND 0x7fffffffffffffff) = uint u mod 2 ^ 63" by (simp add: take_bit_eq_mod uint_mod_distrib)
  moreover have "(x * 2 ^ 64 + y) mod 2 ^ 127 = x mod 2 ^ 63 * 2 ^ 64 + y" if "0 \<le> y" "y < 2 ^ 64" for x y :: int
  proof -
    have "x = 2 ^ 63 * q + m \<Longrightarrow> x * 2 ^ 64 + y = 2 ^ 127 * q + (m * 2 ^ 64 + y)" for q m by simp
    from this [OF mult_div_mod_eq [symmetric]] have eq: "x * 2 ^ 64 + y = 2 ^ 127 * (x div 2 ^ 63) + (x mod 2 ^ 63 * 2 ^ 64 + y)" .
    have "0 \<le> x mod 2 ^ 63" "x mod 2 ^ 63 < 2 ^ 63" by simp_all
    then have "0 \<le> x mod 2 ^ 63 * 2 ^ 64 + y" "x mod 2 ^ 63 * 2 ^ 64 + y < 2 ^ 127" using that by simp_all
    from int_mod_pos_eq [OF eq this] show ?thesis .
  qed
  from this [OF uint64_range, of "uint u" l] show ?thesis unfolding uval_def by (simp only: uhugeint_t.simps calculation)
qed

lemma shiftl_eq:
  "hugeint_shiftl a b = huge (if hval a < 0 \<or> \<not> (0 \<le> hval b \<and> hval b < 128) then 0
     else if hval b = 64 then hval a * 2 ^ 64 else hval a * 2 ^ nat (hval b) mod 2 ^ 127)"
proof (cases "hval a < 0 \<or> \<not> (0 \<le> hval b \<and> hval b < 128)")
  case True
  then have "sint (h_upper a) < 0 \<or> h_upper b \<noteq> 0 \<or> 128 \<le> unat (h_lower b)" using shift_amount_signed(1) [of b] hval_sign [of a] by blast
  then have "hugeint_shiftl a b = HugeintConvertInteger 0" by (auto simp: hugeint_shiftl_def)
  then show ?thesis by (simp only: True if_True huge_literals)
next
  case False
  define s where "s = nat (hval b)"
  have s: "h_upper b = 0" "unat (h_lower b) = s" "s < 128" using False shift_amount_signed(2) [of b] by (auto simp: s_def)
  have nonneg: "\<not> sint (h_upper a) < 0" "0 \<le> hval a" using False hval_sign [of a] by auto
  have ub: "uval (uhugeint_of_hugeint b) = int s" using False by (simp add: uval_of_huge s_def)
  define r where "r = uhugeint_shiftl (uhugeint_of_hugeint a) (uhugeint_of_hugeint b)"
  have r: "uval r = hval a * 2 ^ s mod 2 ^ 128" unfolding r_def uval_shiftl ub hval_nonneg [OF nonneg(2)] by simp
  have cut: "hugeint_of_uhugeint \<lparr>u_lower = u_lower r, u_upper = u_upper r AND 0x7fffffffffffffff\<rparr> = huge (hval a * 2 ^ s mod 2 ^ 127)"
  proof -
    have "\<lparr>u_lower = u_lower r, u_upper = u_upper r AND 0x7fffffffffffffff\<rparr> = uhuge (hval a * 2 ^ s mod 2 ^ 127)"
    proof (rule uhuge_eqI)
      have "(2 :: int) ^ 127 dvd 2 ^ 128" by (rule le_imp_power_dvd) simp
      then have "hval a * 2 ^ s mod 2 ^ 128 mod 2 ^ 127 = hval a * 2 ^ s mod 2 ^ 127" by (rule mod_mod_cancel)
      moreover have "uval \<lparr>u_lower = u_lower r, u_upper = u_upper r\<rparr> = uval r" by (cases r) simp
      moreover have "y mod 2 ^ 127 mod 2 ^ 128 = y mod 2 ^ 127" for y :: int
      proof -
        have "0 \<le> y mod 2 ^ 127" "y mod 2 ^ 127 < 2 ^ 127" by simp_all
        then show ?thesis by (intro mod_pos_pos_trivial) simp_all
      qed
      ultimately show "uval \<lparr>u_lower = u_lower r, u_upper = u_upper r AND 0x7fffffffffffffff\<rparr> = hval a * 2 ^ s mod 2 ^ 127 mod 2 ^ 128"
        unfolding clear_sign r by simp
    qed
    then show ?thesis by (simp add: huge_def)
  qed
  consider "s = 0" | "s = 64" | "0 < s" "s < 64" | "64 < s" by linarith
  then have "hugeint_shiftl a b = huge (if s = 64 then hval a * 2 ^ 64 else hval a * 2 ^ s mod 2 ^ 127)"
  proof cases
    case 1
    then show ?thesis using s nonneg hval_range(2) [of a] by (simp add: hugeint_shiftl_def)
  next
    case 2
    have "r = \<lparr>u_lower = 0, u_upper = h_lower a\<rparr>"
      using s 2 by (simp add: r_def uhugeint_shiftl_def uhugeint_of_hugeint_def)
    then have "hugeint_of_uhugeint r = \<lparr>h_lower = 0, h_upper = h_lower a\<rparr>" by (simp add: hugeint_of_uhugeint_def)
    moreover have "hugeint_of_uhugeint r = huge (hval a * 2 ^ s)"
      unfolding huge_def r_def uval_shiftl ub hval_nonneg [OF nonneg(2)] by simp
    ultimately show ?thesis using s nonneg 2 by (simp add: hugeint_shiftl_def)
  next
    case 3
    have "r = \<lparr>u_lower = push_bit s (h_lower a), u_upper = push_bit s (h_upper a) + drop_bit (64 - s) (h_lower a)\<rparr>"
      using s 3 by (simp add: r_def uhugeint_shiftl_def uhugeint_of_hugeint_def)
    then show ?thesis using s nonneg 3 cut by (simp add: hugeint_shiftl_def hugeint_of_uhugeint_def)
  next
    case 4
    have "r = \<lparr>u_lower = 0, u_upper = push_bit (s - 64) (h_lower a)\<rparr>"
      using s 4 by (simp add: r_def uhugeint_shiftl_def uhugeint_of_hugeint_def)
    then show ?thesis using s nonneg 4 cut by (simp add: hugeint_shiftl_def hugeint_of_uhugeint_def)
  qed
  moreover have "s = 64 \<longleftrightarrow> hval b = 64" using False by (auto simp: s_def)
  ultimately show ?thesis using False by (simp add: s_def)
qed

section \<open>Printing\<close>

lemma hval_zero: "h_lower a = 0 \<and> h_upper a = 0 \<longleftrightarrow> hval a = 0"
  using hval_inject [of a "\<lparr>h_lower = 0, h_upper = 0\<rparr>"] by (cases a) (auto simp: hval_def)

lemma signed_digit_step:
  assumes "\<not> (h_lower a = 0 \<and> h_upper a = 0)"
  shows "nat (uval (uhugeint_of_hugeint (fst (DivModPositive a 10)))) < nat (uval (uhugeint_of_hugeint a))"
proof -
  have "hval a \<noteq> 0" using assms hval_zero [of a] by blast
  then have "0 < uval (uhugeint_of_hugeint a)" using hval_range(1) [of a] by (auto simp: uval_of_huge)
  then show ?thesis using DivModPositive_unsigned(1) [of 10 a] by simp
qed

function Hugeint_ToString_loop :: "hugeint_t \<Rightarrow> string \<Rightarrow> string" where
  "Hugeint_ToString_loop input r =
     (if h_lower input = 0 \<and> h_upper input = 0 then r
      else let (quotient, remainder) = DivModPositive input 10
           in Hugeint_ToString_loop quotient (char_of (48 + unat remainder) # r))"
  by pat_completeness auto
termination
proof (relation "measure (\<lambda>(input, _). nat (uval (uhugeint_of_hugeint input)))", goal_cases)
  case (2 input r d quotient remainder)
  have "quotient = fst (DivModPositive input 10)" using 2(2,3) by (metis fst_conv)
  then show ?case using signed_digit_step [OF 2(1)] by simp
qed simp

declare Hugeint_ToString_loop.simps [simp del]

definition HUGEINT_MINIMUM_STRING :: string where
  "HUGEINT_MINIMUM_STRING = ''-170141183460469231731687303715884105728''"

definition Hugeint_ToString :: "hugeint_t \<Rightarrow> string result" where
  "Hugeint_ToString input0 =
     (if Hugeint_Equals input0 hugeint_Minimum then Inr HUGEINT_MINIMUM_STRING
      else
        let negative = (sint (h_upper input0) < 0) in
        case (if negative then Hugeint_Negate input0 else Inr input0) of
          Inl e \<Rightarrow> Inl e
        | Inr input \<Rightarrow>
            let r = Hugeint_ToString_loop input '''' in
            if r = '''' then Inr ''0'' else Inr (if negative then ''-'' @ r else r))"

lemma Hugeint_ToString_loop_eq:
  "0 < hval a \<Longrightarrow> Hugeint_ToString_loop a r = decimal (nat (hval a)) @ r"
proof (induction a r rule: Hugeint_ToString_loop.induct)
  case (1 a r)
  define q m where "q = fst (DivModPositive a 10)" and "m = snd (DivModPositive a 10)"
  have qm: "hval q = hval a div 10" "uint m = hval a mod 10" using DivModPositive_eq [of a 10] 1(2) by (simp_all add: q_def m_def)
  have "int (unat m) = int (nat (hval a) mod 10)" using qm(2) 1(2) by (simp add: zmod_int)
  then have d: "unat m = nat (hval a) mod 10" by (simp only: of_nat_eq_iff)
  have nz: "\<not> (h_lower a = 0 \<and> h_upper a = 0)" using hval_zero [of a] 1(2) by linarith
  have step: "Hugeint_ToString_loop a r = Hugeint_ToString_loop q (digit_char (nat (hval a) mod 10) # r)"
    by (subst Hugeint_ToString_loop.simps, subst if_not_P [OF nz])
      (simp add: d [symmetric] digit_char_def q_def m_def case_prod_unfold Let_def)
  show ?case
  proof (cases "hval q = 0")
    case True
    then have "hval a < 10" "Hugeint_ToString_loop q (digit_char (nat (hval a) mod 10) # r) = digit_char (nat (hval a) mod 10) # r"
      using qm(1) 1(2) hval_zero [of q] by (simp_all add: Hugeint_ToString_loop.simps [of q])
    then show ?thesis using step 1(2) by (simp add: decimal.simps [of "nat (hval a)"])
  next
    case False
    then have "0 < hval q" using qm(1) 1(2) by simp
    then have "Hugeint_ToString_loop q (digit_char (nat (hval a) mod 10) # r) = decimal (nat (hval q)) @ digit_char (nat (hval a) mod 10) # r"
      using 1(1) [OF nz, of "(q, m)" q m] d by (simp add: q_def m_def digit_char_def)
    moreover have "\<not> hval a < 10" using False qm(1) 1(2) by auto
    ultimately show ?thesis using step qm(1) 1(2)
      by (simp add: decimal.simps [of "nat (hval a)"] nat_div_distrib)
  qed
qed

text \<open>The decimal digits of an integer with its sign.\<close>

definition signed_decimal :: "int \<Rightarrow> string" where
  "signed_decimal x = (if x < 0 then ''-'' else '''') @ decimal (nat \<bar>x\<bar>)"

lemma Hugeint_ToString_eq: "Hugeint_ToString a = Inr (signed_decimal (hval a))"
proof (cases "hval a = - (2 ^ 127)")
  case True
  have "signed_decimal (- (2 ^ 127)) = HUGEINT_MINIMUM_STRING"
    by (simp add: signed_decimal_def HUGEINT_MINIMUM_STRING_def decimal.simps digit_char_def char_of_def bit_0)
  then show ?thesis using True by (simp add: Hugeint_ToString_def hval_compare)
next
  case False
  note a = absolute [OF False]
  have input: "(if sint (h_upper a) < 0 then Hugeint_Negate a else Inr a) = Inr (huge \<bar>hval a\<bar>)"
    using a(1) by (auto simp: Hugeint_Negate_def split: if_splits)
  have "Hugeint_ToString_loop (huge \<bar>hval a\<bar>) '''' = (if hval a = 0 then '''' else decimal (nat \<bar>hval a\<bar>))"
    using Hugeint_ToString_loop_eq [of "huge \<bar>hval a\<bar>"] hval_zero [of "huge \<bar>hval a\<bar>"] unfolding a(3)
    by (auto simp: Hugeint_ToString_loop.simps [of "huge \<bar>hval a\<bar>"])
  then show ?thesis using False unfolding Hugeint_ToString_def Let_def input
    by (auto simp: hval_compare hval_sign signed_decimal_def decimal.simps [of 0] digit_char_0)
qed

section \<open>Conversions\<close>

lemma upper_zero: "h_upper a = 0 \<longleftrightarrow> 0 \<le> hval a \<and> hval a < 2 ^ 64"
  and upper_ones: "h_upper a = - 1 \<longleftrightarrow> - (2 ^ 64) \<le> hval a \<and> hval a < 0"
proof -
  have inj: "u = v \<longleftrightarrow> sint u = sint v" for u v :: uint64_t by (metis signed_word_eqI)
  have "s = 0 \<longleftrightarrow> 0 \<le> s * 2 ^ 64 + l \<and> s * 2 ^ 64 + l < 2 ^ 64" "s = - 1 \<longleftrightarrow> - (2 ^ 64) \<le> s * 2 ^ 64 + l \<and> s * 2 ^ 64 + l < 0"
    if "0 \<le> l" "l < 2 ^ 64" for s l :: int using that by auto
  from this [OF uint64_range] show "h_upper a = 0 \<longleftrightarrow> 0 \<le> hval a \<and> hval a < 2 ^ 64" "h_upper a = - 1 \<longleftrightarrow> - (2 ^ 64) \<le> hval a \<and> hval a < 0"
    unfolding hval_def inj by simp_all
qed

lemma HugeintTryCast_signed:
  assumes "0 \<le> maximum" "maximum < 2 ^ 63"
  shows "HugeintTryCastInteger maximum True a = (if - maximum - 1 \<le> hval a \<and> hval a \<le> maximum then Some (hval a) else None)"
proof -
  have m: "uint (word_of_int maximum :: uint64_t) = maximum" using assms by (simp add: uint_word_of_int)
  have ones: "uint (- 1 :: uint64_t) = 2 ^ 64 - 1" by (simp add: unsigned_minus_1_eq_mask mask_eq_exp_minus_1)
  have down: "uint (- 1 - w) = 2 ^ 64 - 1 - uint w" for w :: uint64_t
    using uint64_range [of w] by (simp add: uint_sub_if' ones)
  consider "h_upper a = 0" | "h_upper a = - 1" | "h_upper a \<noteq> 0" "h_upper a \<noteq> - 1" by blast
  then show ?thesis
  proof cases
    case 1
    then have v: "hval a = uint (h_lower a)" by (simp add: hval_def)
    have "- maximum - 1 \<le> uint (h_lower a)" using assms uint64_range(1) [of "h_lower a"] by linarith
    then show ?thesis unfolding HugeintTryCastInteger_def v word_le_def m using 1 by auto
  next
    case 2
    then have v: "hval a = uint (h_lower a) - 2 ^ 64" by (simp add: hval_def)
    show ?thesis unfolding HugeintTryCastInteger_def v word_le_def down m using 2 assms uint64_range(2) [of "h_lower a"] by auto
  next
    case 3
    then have "\<not> (- (2 ^ 64) \<le> hval a \<and> hval a < 2 ^ 64)" using upper_zero [of a] upper_ones [of a] by auto
    then show ?thesis using 3 assms by (auto simp: HugeintTryCastInteger_def)
  qed
qed

lemma HugeintTryCast_unsigned:
  assumes "0 \<le> maximum" "maximum < 2 ^ 64"
  shows "HugeintTryCastInteger maximum False a = (if 0 \<le> hval a \<and> hval a \<le> maximum then Some (hval a) else None)"
proof (cases "h_upper a = 0")
  case True
  then have v: "hval a = uint (h_lower a)" by (simp add: hval_def)
  have m: "uint (word_of_int maximum :: uint64_t) = maximum" using assms by (simp add: uint_word_of_int)
  show ?thesis unfolding HugeintTryCastInteger_def v word_le_def m using True uint64_range(1) [of "h_lower a"] by auto
next
  case False
  then show ?thesis using upper_zero [of a] assms by (auto simp: HugeintTryCastInteger_def)
qed

lemma TryCast_uhugeint_eq:
  "Hugeint_TryCast_uhugeint a = (if 0 \<le> hval a then Some (uhuge (hval a)) else None)"
proof -
  have "\<lparr>u_lower = h_lower a, u_upper = h_upper a\<rparr> = uhuge (hval a)"
    using hval_mod [of a] by (intro uhuge_eqI) (simp add: uhugeint_of_hugeint_def)
  then show ?thesis by (auto simp: Hugeint_TryCast_uhugeint_def hval_compare)
qed

lemma TryCast_hugeint_eq:
  "Uhugeint_TryCast_hugeint u = (if uval u < 2 ^ 127 then Some (huge (uval u)) else None)"
proof -
  have max: "uval (uhugeint_of_hugeint hugeint_Maximum) = 2 ^ 127 - 1" by (simp add: uval_of_huge)
  have "\<lparr>h_lower = u_lower u, h_upper = u_upper u\<rparr> = huge (uval u)" by (simp add: huge_def hugeint_of_uhugeint_def)
  then show ?thesis unfolding Uhugeint_TryCast_hugeint_def uval_compare max by auto
qed

section \<open>Properties of the signed wide integers\<close>

text \<open>
  The signed 128 bit arithmetic computes on the numbers the two words denote: sums, differences and
  products modulo \<open>2 ^ 128\<close>, comparisons exactly; the checked addition and subtraction fail exactly when
  the result does not fit, negation exactly for the smallest number, and the multiplication of 32 bit
  pieces, with its own overflow checks, is the one of 128 bit integers, checked and unchecked.
\<close>

theorem hugeint_arithmetic:
  "hval (hugeint_plus a b) = wrap128 (hval a + hval b) \<and>
   hval (hugeint_minus a b) = wrap128 (hval a - hval b) \<and>
   hval (Hugeint_Multiply_wrap a b) = wrap128 (hval a * hval b) \<and>
   Hugeint_Multiply_portable a b = Hugeint_Multiply_wrap a b \<and>
   Hugeint_TryMultiply_portable a b = Hugeint_TryMultiply a b \<and>
   (Hugeint_LessThan a b \<longleftrightarrow> hval a < hval b) \<and>
   Hugeint_Negate a = (if hval a = - (2 ^ 127) then Inl (OutOfRangeException ''Negation of HUGEINT is out of range!'')
     else Inr (huge (- hval a))) \<and>
   Hugeint_Add a b = (if fits_int128 (hval a + hval b) then Inr (huge (hval a + hval b))
     else Inl (OutOfRangeException ''Overflow in HUGEINT addition: %s + %s'')) \<and>
   Hugeint_Subtract a b = (if fits_int128 (hval a - hval b) then Inr (huge (hval a - hval b))
     else Inl (OutOfRangeException ''Underflow in HUGEINT subtraction: %s - %s''))"
  by (simp add: hugeint_plus_eq hugeint_minus_eq Multiply_wrap_eq Multiply_portable_eq TryMultiply_portable_eq hval_huge
      hval_compare Hugeint_Negate_def TryNegate_eq Hugeint_Add_def TryAdd_eq Hugeint_Subtract_def TrySubtract_eq)

text \<open>
  C15. The checked signed multiplication returns the product where it succeeds, and fails where the
  product does not fit, but also where it is the smallest number without being that number times one:
  the product is formed from the absolute values, whose product must have no sign bit. The code for compilers
  without 128 bit integers, which multiplies pieces of 32 bits, succeeds on the same numbers with the same product.
\<close>

theorem hugeint_multiply_check:
  "Hugeint_Multiply a b =
     (if fits_int128 (hval a * hval b) \<and> (hval a * hval b = - (2 ^ 127) \<longrightarrow> hval a = 1 \<or> hval b = 1)
      then Inr (huge (hval a * hval b))
      else Inl (OutOfRangeException ''Overflow in HUGEINT multiplication: %s * %s'')) \<and>
   Hugeint_TryMultiply_portable a b =
     (if fits_int128 (hval a * hval b) \<and> (hval a * hval b = - (2 ^ 127) \<longrightarrow> hval a = 1 \<or> hval b = 1)
      then Some (huge (hval a * hval b)) else None)"
proof -
  have min: "fits_int128 (- (2 ^ 127) * y) \<and> (- (2 ^ 127) * y = - (2 ^ 127) \<longrightarrow> y = 1) \<longleftrightarrow> y = 0 \<or> y = 1" for y :: int
    by (auto simp: fits_int128_def)
  have "multiply_fits x y \<longleftrightarrow> fits_int128 (x * y) \<and> (x * y = - (2 ^ 127) \<longrightarrow> x = 1 \<or> y = 1)" for x y
  proof -
    consider "x = - (2 ^ 127)" | "x \<noteq> - (2 ^ 127)" "y = - (2 ^ 127)" | "x \<noteq> - (2 ^ 127)" "y \<noteq> - (2 ^ 127)" by blast
    then show ?thesis
    proof cases
      case 1
      then show ?thesis using min [of y] by (simp add: multiply_fits_def)
    next
      case 2
      then show ?thesis using min [of x] by (simp add: multiply_fits_def mult.commute)
    next
      case 3
      then have "x * y = - (2 ^ 127) \<Longrightarrow> \<not> (x = 1 \<or> y = 1)" by auto
      then show ?thesis using 3 by (auto simp: multiply_fits_def fits_int128_def abs_if)
    qed
  qed
  then show ?thesis by (simp add: Hugeint_Multiply_def TryMultiply_portable_eq TryMultiply_eq)
qed

theorem hugeint_multiply_check_witness:
  "Hugeint_Multiply (huge (2 ^ 64)) (huge (- (2 ^ 63))) =
     Inl (OutOfRangeException ''Overflow in HUGEINT multiplication: %s * %s'') \<and> fits_int128 (2 ^ 64 * - (2 ^ 63))"
  using hugeint_multiply_check [of "huge (2 ^ 64)" "huge (- (2 ^ 63))"] by (simp add: hval_huge_fits fits_int128_def)

text \<open>
  C17. Signed division truncates towards zero and the remainder has the sign of the dividend, also with
  the smallest number, which the code divides by way of its successor; division by zero and the division
  of the smallest number by minus one are the errors. Printing shows the sign and the decimal digits.
\<close>

theorem hugeint_division:
  "Hugeint_Divide a b =
     (if hval b = 0 then Inl (OutOfRangeException ''Division of HUGEINT by zero: %s / %s'')
      else if fits_int128 (hval a sdiv hval b) then Inr (huge (hval a sdiv hval b))
      else Inl (OutOfRangeException ''Overflow in HUGEINT division: %s / %s'')) \<and>
   Hugeint_TryDivMod a b =
     (if hval b = 0 then None
      else if fits_int128 (hval a sdiv hval b) then Some (huge (hval a sdiv hval b), huge (hval a smod hval b))
      else None) \<and>
   Hugeint_ToString a = Inr (signed_decimal (hval a))"
proof -
  have fits: "fits_int128 (hval a sdiv hval b) \<longleftrightarrow> \<not> (hval a = - (2 ^ 127) \<and> hval b = - 1)" if "hval b \<noteq> 0"
  proof (cases "hval b = - 1")
    case True
    then have "hval a sdiv hval b = - hval a" by (simp add: sdiv_parts sgn_if)
    then show ?thesis using True hval_range [of a] by (auto simp: fits_int128_def)
  next
    case False
    have q: "0 \<le> \<bar>hval a\<bar> div \<bar>hval b\<bar>" "\<bar>hval a\<bar> div \<bar>hval b\<bar> \<le> \<bar>hval a\<bar>"
      using that by (simp_all add: div_le_self pos_imp_zdiv_nonneg_iff)
    show ?thesis
    proof (cases "hval b = 1")
      case True
      then show ?thesis using hval_range [of a] by (simp add: sdiv_parts sgn_mult_abs mult_sgn_abs fits_int128_def)
    next
      case b: False
      have "2 \<le> \<bar>hval b\<bar>" using that False b by linarith
      then have "\<bar>hval a\<bar> div \<bar>hval b\<bar> \<le> \<bar>hval a\<bar> div 2" by (intro zdiv_mono2) simp_all
      then have "\<bar>hval a\<bar> div \<bar>hval b\<bar> < 2 ^ 127" using hval_range [of a] by (auto simp: abs_if)
      then show ?thesis using q(1) False by (auto simp: fits_int128_def sdiv_parts sgn_if)
    qed
  qed
  then show ?thesis
    using DivMod_eq [of b a] by (auto simp: Hugeint_Divide_def Hugeint_TryDivMod_def hval_compare Hugeint_ToString_eq)
qed

text \<open>
  Signed shifts. To the right they divide rounding down by fewer than 128 places, and further give
  zero even for a negative number; to the left a negative number becomes zero and the others lose the
  bits from the sign on, except by exactly 64 places, where the sign bit is kept.
\<close>

theorem hugeint_shifts:
  "hval (hugeint_shiftr a b) = (if 0 \<le> hval b \<and> hval b < 128 then hval a div 2 ^ nat (hval b) else 0) \<and>
   hval (hugeint_shiftl a b) =
     (if hval a < 0 \<or> hval b < 0 \<or> 128 \<le> hval b then 0
      else if hval b = 64 then wrap128 (hval a * 2 ^ 64)
      else hval a * 2 ^ nat (hval b) mod 2 ^ 127)"
proof
  have "- (2 ^ 127) \<le> x div 2 ^ n \<and> x div 2 ^ n < 2 ^ 127" if "- (2 ^ 127) \<le> x" "x < 2 ^ 127" for x :: int and n
  proof (cases "0 \<le> x")
    case True
    then have "0 \<le> x div 2 ^ n" "x div 2 ^ n \<le> x" by (simp_all add: pos_imp_zdiv_nonneg_iff div_le_self)
    then show ?thesis using that by simp
  next
    case False
    then have "x div 1 \<le> x div 2 ^ n" by (intro zdiv_mono2_neg) simp_all
    moreover have "x div 2 ^ n < 0" using False by (simp add: pos_imp_zdiv_neg_iff)
    ultimately show ?thesis using that by simp
  qed
  from this [OF hval_range] show "hval (hugeint_shiftr a b) = (if 0 \<le> hval b \<and> hval b < 128 then hval a div 2 ^ nat (hval b) else 0)"
    unfolding shiftr_eq by (intro hval_huge_fits [THEN trans]) (auto simp: fits_int128_def simp del: of_nat_nat)
  have "fits_int128 (y mod 2 ^ 127)" for y by (simp add: fits_int128_def order.trans [of _ 0])
  then show "hval (hugeint_shiftl a b) =
     (if hval a < 0 \<or> hval b < 0 \<or> 128 \<le> hval b then 0
      else if hval b = 64 then wrap128 (hval a * 2 ^ 64) else hval a * 2 ^ nat (hval b) mod 2 ^ 127)"
    unfolding shiftl_eq by (auto simp: hval_huge wrap128_id not_le not_less fits_int128_def)
qed

text \<open>
  The casts between the wide integers and to the narrower ones succeed exactly on the values of the
  target, which they keep.
\<close>

theorem hugeint_casts:
  assumes "0 \<le> s" "s < 2 ^ 63" "0 \<le> m" "m < 2 ^ 64"
  shows "HugeintTryCastInteger s True a = (if - s - 1 \<le> hval a \<and> hval a \<le> s then Some (hval a) else None) \<and>
    HugeintTryCastInteger m False a = (if 0 \<le> hval a \<and> hval a \<le> m then Some (hval a) else None) \<and>
    UhugeintTryCastInteger m u = (if uval u \<le> m then Some (uval u) else None) \<and>
    map_option uval (Hugeint_TryCast_uhugeint a) = (if 0 \<le> hval a then Some (hval a) else None) \<and>
    map_option hval (Uhugeint_TryCast_hugeint u) = (if uval u < 2 ^ 127 then Some (uval u) else None)"
proof -
  have "0 \<le> hval a \<Longrightarrow> hval a mod 2 ^ 128 = hval a" using hval_range(2) [of a] by simp
  moreover have "uval u < 2 ^ 127 \<Longrightarrow> hval (huge (uval u)) = uval u"
    using uval_range(1) [of u] by (intro hval_huge_fits) (simp add: fits_int128_def)
  ultimately show ?thesis
    using assms by (simp add: HugeintTryCast_signed HugeintTryCast_unsigned UhugeintTryCast_eq TryCast_uhugeint_eq TryCast_hugeint_eq)
qed

theorem hugeint_casts_witness:
  "HugeintTryCastInteger 127 True (huge (- 128)) = Some (- 128) \<and> HugeintTryCastInteger 255 False (huge 256) = None"
  using hugeint_casts [of 127 255 "huge (- 128)" "uhuge 0"] hugeint_casts [of 127 255 "huge 256" "uhuge 0"]
  by (simp add: hval_huge_fits fits_int128_def)

end
