(* ===== verification/Catalog_Set.thy ===== *)
theory Catalog_Set
  imports Chunk_Info Decimal_Text "HOL-Library.AList" "HOL-Library.List_Lexorder" "HOL-Library.Char_ord"
begin

text \<open>
  The versioned sets of the catalog, after \<open>catalog/catalog_set.cpp\<close> and
  \<open>include/duckdb/catalog/catalog_set.hpp\<close>. A set maps names, up to case, to chains of versions.
  An entry in the code points to its child and its parent; here a chain is the list of its versions, the
  newest first, and a pointer to a version is the key of the chain and an address. The locks of the set
  and of the catalog are held during each operation; where they are released, to make a default entry or
  to ask the dependency manager, what happens meanwhile is an argument. The contents of entries, their
  serialisation and what their classes do on an alteration are arguments too.
\<close>

section \<open>Names\<close>

definition CharacterToUpper :: "char \<Rightarrow> char" where
  "CharacterToUpper c =
     (if (97 :: nat) \<le> of_char c \<and> of_char c \<le> (122 :: nat) then char_of (of_char c - 32 :: nat) else c)"

text \<open>
  The comparison of the map of names. The loop also looks at the position after the shorter name, where
  the code reads the terminating zero.
\<close>

definition char_at :: "string \<Rightarrow> nat \<Rightarrow> nat" where
  "char_at s i = (if i < length s then of_char (CharacterToUpper (s ! i)) else 0)"

fun ci_less_loop :: "string \<Rightarrow> string \<Rightarrow> nat \<Rightarrow> nat \<Rightarrow> nat \<times> nat \<Rightarrow> nat \<times> nat" where
  "ci_less_loop s1 s2 i 0 us = us"
| "ci_less_loop s1 s2 i (Suc n) us =
     (let u1 = char_at s1 i; u2 = char_at s2 i
      in if u1 \<noteq> u2 then (u1, u2) else ci_less_loop s1 s2 (Suc i) n (u1, u2))"

definition CILessThan :: "string \<Rightarrow> string \<Rightarrow> bool" where
  "CILessThan s1 s2 \<longleftrightarrow>
     (let len = min (length s1) (length s2) + (if length s1 \<noteq> length s2 then 1 else 0);
          (u1, u2) = ci_less_loop s1 s2 0 len (0, 0)
      in u1 < u2)"

definition CIEquals :: "string \<Rightarrow> string \<Rightarrow> bool" where
  "CIEquals l1 l2 \<longleftrightarrow>
     length l1 = length l2 \<and> list_all (\<lambda>c. CharacterToLower (l1 ! c) = CharacterToLower (l2 ! c)) [0..<length l1]"

text \<open>The key of a name: two names without zero bytes are equivalent for the map when their keys are equal.\<close>

definition ci_key :: "string \<Rightarrow> string" where
  "ci_key name = map CharacterToUpper name"

section \<open>Entries and their chains\<close>

datatype CatalogType =
    INVALID | TABLE_ENTRY | SCHEMA_ENTRY | VIEW_ENTRY | INDEX_ENTRY | PREPARED_STATEMENT | SEQUENCE_ENTRY
  | COLLATION_ENTRY | TYPE_ENTRY | DATABASE_ENTRY | TABLE_FUNCTION_ENTRY | SCALAR_FUNCTION_ENTRY
  | AGGREGATE_FUNCTION_ENTRY | PRAGMA_FUNCTION_ENTRY | COPY_FUNCTION_ENTRY | MACRO_ENTRY | TABLE_MACRO_ENTRY
  | DELETED_ENTRY | RENAMED_ENTRY | SECRET_ENTRY | SECRET_TYPE_ENTRY | SECRET_FUNCTION_ENTRY | DEPENDENCY_ENTRY

record CatalogEntry =
  entry_addr :: nat
  entry_type :: CatalogType
  entry_name :: string
  entry_deleted :: bool
  entry_temporary :: bool
  entry_internal :: bool
  entry_timestamp :: transaction_t
  entry_comment :: string

record CatalogTransaction =
  ct_has_transaction :: bool
  ct_has_context :: bool
  ct_transaction_id :: transaction_t
  ct_start_time :: transaction_t

type_synonym chain = "CatalogEntry list"
type_synonym entry_ref = "string \<times> nat"

text \<open>
  The entries of a set by key, in the order of the map, each with its chain of versions, the newest
  first: the child of an entry is the next of its chain, its parent the one before. A reference to an
  entry is the key of its chain and its address; an entry gets its address when it is linked. The undo
  buffers hold, for each transaction, the references pushed so far, the oldest first.
\<close>

record CatalogSet =
  entries :: "(string \<times> chain) list"
  created_all_entries :: bool
  next_addr :: nat
  undo_buffers :: "transaction_t \<Rightarrow> entry_ref list"

definition CatalogEntry_new :: "CatalogType \<Rightarrow> string \<Rightarrow> CatalogEntry" where
  "CatalogEntry_new type name =
     \<lparr>entry_addr = 0, entry_type = type, entry_name = name, entry_deleted = False, entry_temporary = False,
      entry_internal = False, entry_timestamp = 0, entry_comment = ''''\<rparr>"

definition Map_GetEntry :: "string \<Rightarrow> CatalogSet \<Rightarrow> chain option" where
  "Map_GetEntry name s = map_of (entries s) (ci_key name)"

definition Map_AddEntry :: "CatalogEntry \<Rightarrow> CatalogSet \<Rightarrow> CatalogSet result" where
  "Map_AddEntry entry s =
     (let name = entry_name entry in
      if Map_GetEntry name s \<noteq> None then Inl (InternalException ''Entry with name %s already exists'')
      else Inr (s\<lparr>entries := insort_key fst (ci_key name, [entry\<lparr>entry_addr := next_addr s\<rparr>]) (entries s),
                  next_addr := Suc (next_addr s)\<rparr>))"

definition Map_UpdateEntry :: "CatalogEntry \<Rightarrow> CatalogSet \<Rightarrow> CatalogSet result" where
  "Map_UpdateEntry catalog_entry s =
     (let name = entry_name catalog_entry in
      case Map_GetEntry name s of
        None \<Rightarrow> Inl (InternalException ''Entry with name %s does not exist'')
      | Some existing \<Rightarrow>
          Inr (s\<lparr>entries := AList.update (ci_key name) (catalog_entry\<lparr>entry_addr := next_addr s\<rparr> # existing) (entries s),
                 next_addr := Suc (next_addr s)\<rparr>))"

text \<open>
  The entries newer than a reference, the entry itself, and the older ones. A reference to no entry, which
  the code could not follow, is an error of the model.
\<close>

definition resolve :: "entry_ref \<Rightarrow> CatalogSet \<Rightarrow> (chain \<times> CatalogEntry \<times> chain) result" where
  "resolve r s =
     (case map_of (entries s) (fst r) of
        None \<Rightarrow> Inl (InternalException ''Attempting to drop entry with name %s but no chain with that name exists'')
      | Some c \<Rightarrow>
          (case dropWhile (\<lambda>e. entry_addr e \<noteq> snd r) c of
             [] \<Rightarrow> Inl (InternalException ''dangling entry'')
           | e # older \<Rightarrow> Inr (takeWhile (\<lambda>e. entry_addr e \<noteq> snd r) c, e, older)))"

definition Map_DropEntry :: "entry_ref \<Rightarrow> CatalogSet \<Rightarrow> CatalogSet result" where
  "Map_DropEntry r s =
     (case resolve r s of
        Inl e \<Rightarrow> Inl e
      | Inr (newer, entry, older) \<Rightarrow>
          if newer = [] then
            if older \<noteq> [] then Inr (s\<lparr>entries := AList.update (fst r) older (entries s)\<rparr>)
            else Inr (s\<lparr>entries := AList.delete (fst r) (entries s)\<rparr>)
          else Inr (s\<lparr>entries := AList.update (fst r) (newer @ older) (entries s)\<rparr>))"

section \<open>Visibility\<close>

definition CreatedByOtherActiveTransaction :: "CatalogTransaction \<Rightarrow> transaction_t \<Rightarrow> bool" where
  "CreatedByOtherActiveTransaction t timestamp \<longleftrightarrow>
     timestamp \<ge> TRANSACTION_ID_START \<and> timestamp \<noteq> ct_transaction_id t"

definition CommittedAfterStarting :: "CatalogTransaction \<Rightarrow> transaction_t \<Rightarrow> bool" where
  "CommittedAfterStarting t timestamp \<longleftrightarrow> timestamp < TRANSACTION_ID_START \<and> timestamp > ct_start_time t"

definition HasConflict :: "CatalogTransaction \<Rightarrow> transaction_t \<Rightarrow> bool" where
  "HasConflict t timestamp \<longleftrightarrow> CreatedByOtherActiveTransaction t timestamp \<or> CommittedAfterStarting t timestamp"

definition IsCommitted :: "transaction_t \<Rightarrow> bool" where
  "IsCommitted timestamp \<longleftrightarrow> timestamp < TRANSACTION_ID_START"

definition UseTimestamp :: "CatalogTransaction \<Rightarrow> transaction_t \<Rightarrow> bool" where
  "UseTimestamp t timestamp \<longleftrightarrow>
     (if timestamp = ct_transaction_id t then True else if timestamp < ct_start_time t then True else False)"

fun GetEntryForTransaction :: "CatalogTransaction \<Rightarrow> CatalogEntry \<Rightarrow> chain \<Rightarrow> CatalogEntry \<times> bool" where
  "GetEntryForTransaction t current [] = (current, False)"
| "GetEntryForTransaction t current (child # older) =
     (if UseTimestamp t (entry_timestamp current) then (current, True) else GetEntryForTransaction t child older)"

fun GetCommittedEntry :: "CatalogEntry \<Rightarrow> chain \<Rightarrow> CatalogEntry" where
  "GetCommittedEntry current [] = current"
| "GetCommittedEntry current (child # older) =
     (if entry_timestamp current < TRANSACTION_ID_START then current else GetCommittedEntry child older)"

section \<open>Default entries\<close>

definition CreateCommittedEntry :: "CatalogEntry \<Rightarrow> CatalogSet \<Rightarrow> (CatalogSet \<times> CatalogEntry) option" where
  "CreateCommittedEntry entry s =
     (case Map_GetEntry (entry_name entry) s of
        Some existing_entry \<Rightarrow> None
      | None \<Rightarrow>
          let e = entry\<lparr>entry_timestamp := 0, entry_addr := next_addr s\<rparr> in
          (case Map_AddEntry e s of Inl error \<Rightarrow> None | Inr s1 \<Rightarrow> Some (s1, e)))"

datatype EntryLookup = LookupSuccess CatalogEntry | LookupDeleted | LookupNotPresent | LookupInvisible

fun lookup_result :: "EntryLookup \<Rightarrow> CatalogEntry option" where
  "lookup_result (LookupSuccess e) = Some e"
| "lookup_result l = None"

definition lookup_chain :: "CatalogTransaction \<Rightarrow> chain \<Rightarrow> EntryLookup" where
  "lookup_chain t c =
     (let (current, visible) = GetEntryForTransaction t (hd c) (tl c)
      in if entry_deleted current then (if \<not> visible then LookupInvisible else LookupDeleted)
         else LookupSuccess current)"

text \<open>
  The default generator makes an entry for a name, if it knows one. The set is unlocked while it works
  and again before a retry; what other threads do then are the two functions at the head of a list, one
  pair for each attempt. Where the list is used up nothing interferes any more. The result \<open>None\<close>
  is a lookup that retries forever, which it does when the generator makes an entry of another name.
\<close>

record default_env =
  generator :: "(CatalogTransaction \<Rightarrow> string \<Rightarrow> CatalogEntry option) option"
  default_names :: "string list"

type_synonym interference = "CatalogSet \<Rightarrow> CatalogSet"

function CreateDefaultEntry ::
  "default_env \<Rightarrow> CatalogTransaction \<Rightarrow> string \<Rightarrow> (interference \<times> interference) list \<Rightarrow> CatalogSet
   \<Rightarrow> (CatalogSet \<times> CatalogEntry option) option"
  and GetEntryDetailed ::
  "default_env \<Rightarrow> CatalogTransaction \<Rightarrow> string \<Rightarrow> (interference \<times> interference) list \<Rightarrow> CatalogSet
   \<Rightarrow> (CatalogSet \<times> EntryLookup) option" where
  "CreateDefaultEntry env t name others s =
     (case generator env of
        None \<Rightarrow> Some (s, None)
      | Some generate \<Rightarrow>
          if created_all_entries s then Some (s, None)
          else
            let s1 = (case others of [] \<Rightarrow> s | (during, before_retry) # rest \<Rightarrow> during s) in
            (case generate t name of
               None \<Rightarrow> Some (s1, None)
             | Some entry \<Rightarrow>
                 (case CreateCommittedEntry entry s1 of
                    Some (s2, e) \<Rightarrow> Some (s2, Some e)
                  | None \<Rightarrow>
                      (case others of
                         [] \<Rightarrow> None
                       | (during, before_retry) # rest \<Rightarrow>
                           map_option (map_prod id lookup_result)
                             (GetEntryDetailed env t name rest (before_retry s1))))))"
| "GetEntryDetailed env t name others s =
     (case Map_GetEntry name s of
        Some c \<Rightarrow> Some (s, lookup_chain t c)
      | None \<Rightarrow>
          map_option (map_prod id (\<lambda>default. case default of None \<Rightarrow> LookupNotPresent | Some e \<Rightarrow> LookupSuccess e))
            (CreateDefaultEntry env t name others s))"
  by pat_completeness auto
termination
  by (relation "measure (\<lambda>x. case x of Inl (_, _, _, others, _) \<Rightarrow> 2 * length others
        | Inr (_, _, _, others, _) \<Rightarrow> 2 * length others + 1)") auto

declare CreateDefaultEntry.simps [simp del] GetEntryDetailed.simps [simp del]

definition GetEntry ::
  "default_env \<Rightarrow> CatalogTransaction \<Rightarrow> string \<Rightarrow> (interference \<times> interference) list \<Rightarrow> CatalogSet
   \<Rightarrow> (CatalogSet \<times> CatalogEntry option) option" where
  "GetEntry env t name others s = map_option (map_prod id lookup_result) (GetEntryDetailed env t name others s)"

text \<open>One function of the list per default entry that is missing, applied while the set is unlocked.\<close>

fun create_defaults_loop ::
  "(CatalogTransaction \<Rightarrow> string \<Rightarrow> CatalogEntry option) \<Rightarrow> CatalogTransaction \<Rightarrow> string list \<Rightarrow> interference list
   \<Rightarrow> CatalogSet \<Rightarrow> CatalogSet \<times> unit result" where
  "create_defaults_loop generate t [] others s = (s\<lparr>created_all_entries := True\<rparr>, Inr ())"
| "create_defaults_loop generate t (name # names) others s =
     (case Map_GetEntry name s of
        Some c \<Rightarrow> create_defaults_loop generate t names others s
      | None \<Rightarrow>
          let s1 = (case others of [] \<Rightarrow> s | other # rest \<Rightarrow> other s) in
          (case generate t name of
             None \<Rightarrow> (s1, Inl (InternalException ''Failed to create default entry for %s''))
           | Some entry \<Rightarrow>
               create_defaults_loop generate t names (drop 1 others)
                 (case CreateCommittedEntry entry s1 of None \<Rightarrow> s1 | Some (s2, e) \<Rightarrow> s2)))"

definition CreateDefaultEntries ::
  "default_env \<Rightarrow> CatalogTransaction \<Rightarrow> interference list \<Rightarrow> CatalogSet \<Rightarrow> CatalogSet \<times> unit result" where
  "CreateDefaultEntries env t others s =
     (case generator env of
        None \<Rightarrow> (s, Inr ())
      | Some generate \<Rightarrow>
          if created_all_entries s then (s, Inr ())
          else create_defaults_loop generate t (default_names env) others s)"

section \<open>Scans\<close>

text \<open>The entries the callback is called with, in order.\<close>

definition visible_entries :: "CatalogTransaction \<Rightarrow> (string \<times> chain) list \<Rightarrow> CatalogEntry list" where
  "visible_entries t kvs =
     filter (\<lambda>e. \<not> entry_deleted e) (map (\<lambda>(k, c). fst (GetEntryForTransaction t (hd c) (tl c))) kvs)"

definition Scan :: "default_env \<Rightarrow> CatalogTransaction \<Rightarrow> interference list \<Rightarrow> CatalogSet \<Rightarrow> CatalogSet \<times> CatalogEntry list result" where
  "Scan env t others s =
     (case CreateDefaultEntries env t others s of
        (s1, Inl e) \<Rightarrow> (s1, Inl e)
      | (s1, Inr u) \<Rightarrow> (s1, Inr (visible_entries t (entries s1))))"

text \<open>The callback that answers whether to go on is a predicate; the entries up to the first it rejects.\<close>

fun scan_until :: "(CatalogEntry \<Rightarrow> bool) \<Rightarrow> CatalogEntry list \<Rightarrow> CatalogEntry list" where
  "scan_until callback [] = []"
| "scan_until callback (e # es) = (if \<not> callback e then [e] else e # scan_until callback es)"

definition ScanWithReturn ::
  "default_env \<Rightarrow> CatalogTransaction \<Rightarrow> (CatalogEntry \<Rightarrow> bool) \<Rightarrow> interference list \<Rightarrow> CatalogSet
   \<Rightarrow> CatalogSet \<times> CatalogEntry list result" where
  "ScanWithReturn env t callback others s =
     (case Scan env t others s of
        (s1, Inl e) \<Rightarrow> (s1, Inl e)
      | (s1, Inr es) \<Rightarrow> (s1, Inr (scan_until callback es)))"

definition ScanWithPrefix ::
  "default_env \<Rightarrow> CatalogTransaction \<Rightarrow> string \<Rightarrow> interference list \<Rightarrow> CatalogSet \<Rightarrow> CatalogSet \<times> CatalogEntry list result" where
  "ScanWithPrefix env t pre others s =
     (case CreateDefaultEntries env t others s of
        (s1, Inl e) \<Rightarrow> (s1, Inl e)
      | (s1, Inr u) \<Rightarrow>
          let from_lower = dropWhile (\<lambda>(k, c). k < ci_key pre) (entries s1);
              to_upper = takeWhile (\<lambda>(k, c). \<not> ci_key (pre @ [char_of (255 :: nat)]) < k) from_lower
          in (s1, Inr (visible_entries t to_upper)))"

definition ScanCommitted :: "CatalogSet \<Rightarrow> CatalogEntry list" where
  "ScanCommitted s =
     filter (\<lambda>e. \<not> entry_deleted e) (map (\<lambda>(k, c). GetCommittedEntry (hd c) (tl c)) (entries s))"

section \<open>Changing entries\<close>

text \<open>What the operations ask of the catalog the set belongs to.\<close>

record Catalog =
  is_system_catalog :: bool
  is_temporary_catalog :: bool

definition DEFAULT_SCHEMA :: string where
  "DEFAULT_SCHEMA = ''main''"

definition CheckCatalogEntryInvariants :: "Catalog \<Rightarrow> CatalogEntry \<Rightarrow> string \<Rightarrow> unit result" where
  "CheckCatalogEntryInvariants catalog value name =
     (if entry_internal value \<and> \<not> is_system_catalog catalog \<and> name \<noteq> DEFAULT_SCHEMA then
        Inl (InternalException ''Attempting to create internal entry %s in non-system catalog - internal entries can only be created in the system catalog'')
      else if \<not> entry_internal value then
        if \<not> entry_temporary value \<and> is_system_catalog catalog \<and> entry_type value \<noteq> DEPENDENCY_ENTRY then
          Inl (InternalException ''Attempting to create non-internal entry %s in system catalog - the system catalog can only contain internal entries'')
        else if entry_temporary value \<and> \<not> is_temporary_catalog catalog then
          Inl (InternalException ''Attempting to create temporary entry %s in non-temporary catalog'')
        else if \<not> entry_temporary value \<and> is_temporary_catalog catalog \<and> name \<noteq> DEFAULT_SCHEMA then
          Inl (InvalidInputException ''Cannot create non-temporary entry %s in temporary catalog'')
        else Inr ()
      else Inr ())"

definition push_catalog_entry :: "CatalogTransaction \<Rightarrow> entry_ref \<Rightarrow> CatalogSet \<Rightarrow> CatalogSet" where
  "push_catalog_entry t r s =
     s\<lparr>undo_buffers := (undo_buffers s)(ct_transaction_id t := undo_buffers s (ct_transaction_id t) @ [r])\<rparr>"

text \<open>The reference to the child of the newest entry of a name.\<close>

definition child_ref :: "string \<Rightarrow> CatalogSet \<Rightarrow> entry_ref" where
  "child_ref name s = (ci_key name, entry_addr (the (Map_GetEntry name s) ! 1))"

text \<open>A new version is put on top of its chain and the version below it is pushed to the undo buffer.\<close>

definition link_version :: "CatalogTransaction \<Rightarrow> CatalogEntry \<Rightarrow> CatalogSet \<Rightarrow> CatalogSet \<times> bool result" where
  "link_version t value s =
     (case Map_UpdateEntry value s of
        Inl e \<Rightarrow> (s, Inl e)
      | Inr s1 \<Rightarrow>
          (if ct_has_transaction t then push_catalog_entry t (child_ref (entry_name value) s1) s1 else s1, Inr True))"

definition VerifyVacancy :: "CatalogTransaction \<Rightarrow> CatalogEntry \<Rightarrow> bool result" where
  "VerifyVacancy t entry =
     (if HasConflict t (entry_timestamp entry) then
        Inl (TransactionException ''Catalog write-write conflict on create with %s'')
      else Inr (entry_deleted entry))"

definition StartChain ::
  "default_env \<Rightarrow> CatalogTransaction \<Rightarrow> string \<Rightarrow> (interference \<times> interference) list \<Rightarrow> CatalogSet
   \<Rightarrow> (CatalogSet \<times> bool result) option" where
  "StartChain env t name others s =
     (case CreateDefaultEntry env t name others s of
        None \<Rightarrow> None
      | Some (s1, Some entry) \<Rightarrow> Some (s1, Inr False)
      | Some (s1, None) \<Rightarrow>
          (case Map_AddEntry ((CatalogEntry_new INVALID name)\<lparr>entry_deleted := True\<rparr>) s1 of
             Inl e \<Rightarrow> Some (s1, Inl e)
           | Inr s2 \<Rightarrow> Some (s2, Inr True)))"

definition CreateEntryInternal ::
  "default_env \<Rightarrow> CatalogTransaction \<Rightarrow> string \<Rightarrow> CatalogEntry \<Rightarrow> bool \<Rightarrow> (interference \<times> interference) list
   \<Rightarrow> CatalogSet \<Rightarrow> (CatalogSet \<times> bool result) option" where
  "CreateEntryInternal env t name value should_be_empty others s =
     (case Map_GetEntry name s of
        None \<Rightarrow>
          (case StartChain env t name others s of
             None \<Rightarrow> None
           | Some (s1, Inl e) \<Rightarrow> Some (s1, Inl e)
           | Some (s1, Inr started) \<Rightarrow> if started then Some (link_version t value s1) else Some (s1, Inr False))
      | Some c \<Rightarrow>
          if should_be_empty then
            (case VerifyVacancy t (hd c) of
               Inl e \<Rightarrow> Some (s, Inl e)
             | Inr vacant \<Rightarrow> if vacant then Some (link_version t value s) else Some (s, Inr False))
          else Some (link_version t value s))"

text \<open>
  The dependency manager is asked before the locks are taken. It may change this set too, as a cascading
  drop does, and other threads may run; the argument \<open>add_object\<close> is all that happens until the locks
  are held.
\<close>

definition CreateEntry ::
  "default_env \<Rightarrow> Catalog \<Rightarrow> CatalogTransaction \<Rightarrow> string \<Rightarrow> CatalogEntry
   \<Rightarrow> (CatalogEntry \<Rightarrow> CatalogSet \<Rightarrow> CatalogSet \<times> exn option) \<Rightarrow> (interference \<times> interference) list \<Rightarrow> CatalogSet
   \<Rightarrow> (CatalogSet \<times> bool result) option" where
  "CreateEntry env catalog t name value0 add_object others s =
     (case CheckCatalogEntryInvariants catalog value0 name of
        Inl e \<Rightarrow> Some (s, Inl e)
      | Inr u \<Rightarrow>
          let value = value0\<lparr>entry_timestamp := ct_transaction_id t\<rparr> in
          (case add_object value s of
             (s1, Some e) \<Rightarrow> Some (s1, Inl e)
           | (s1, None) \<Rightarrow> CreateEntryInternal env t name value True others s1))"

definition GetEntryInternal :: "CatalogTransaction \<Rightarrow> string \<Rightarrow> CatalogSet \<Rightarrow> CatalogEntry option result" where
  "GetEntryInternal t name s =
     (case Map_GetEntry name s of
        None \<Rightarrow> Inr None
      | Some c \<Rightarrow>
          let catalog_entry = hd c in
          if HasConflict t (entry_timestamp catalog_entry) then
            Inl (TransactionException ''Catalog write-write conflict on alter with %s'')
          else if entry_deleted catalog_entry then Inr None
          else Inr (Some catalog_entry))"

definition DropEntryInternal :: "CatalogTransaction \<Rightarrow> string \<Rightarrow> bool \<Rightarrow> CatalogSet \<Rightarrow> CatalogSet \<times> bool result" where
  "DropEntryInternal t name allow_drop_internal s =
     (case GetEntryInternal t name s of
        Inl e \<Rightarrow> (s, Inl e)
      | Inr None \<Rightarrow> (s, Inr False)
      | Inr (Some entry) \<Rightarrow>
          if entry_internal entry \<and> \<not> allow_drop_internal then
            (s, Inl (CatalogException ''Cannot drop entry %s because it is an internal system entry''))
          else
            link_version t
              ((CatalogEntry_new DELETED_ENTRY (entry_name entry))
                 \<lparr>entry_timestamp := ct_transaction_id t, entry_deleted := True\<rparr>) s)"

definition DropDependencies ::
  "default_env \<Rightarrow> CatalogTransaction \<Rightarrow> string \<Rightarrow> bool \<Rightarrow> (CatalogEntry \<Rightarrow> CatalogSet \<Rightarrow> CatalogSet \<times> exn option)
   \<Rightarrow> (interference \<times> interference) list \<Rightarrow> CatalogSet \<Rightarrow> (CatalogSet \<times> bool result) option" where
  "DropDependencies env t name allow_drop_internal drop_object others s =
     (case GetEntry env t name others s of
        None \<Rightarrow> None
      | Some (s1, None) \<Rightarrow> Some (s1, Inr False)
      | Some (s1, Some entry) \<Rightarrow>
          if entry_internal entry \<and> \<not> allow_drop_internal then
            Some (s1, Inl (CatalogException ''Cannot drop entry %s because it is an internal system entry''))
          else
            (case drop_object entry s1 of
               (s2, Some e) \<Rightarrow> Some (s2, Inl e)
             | (s2, None) \<Rightarrow> Some (s2, Inr True)))"

definition DropEntry ::
  "default_env \<Rightarrow> CatalogTransaction \<Rightarrow> string \<Rightarrow> bool \<Rightarrow> (CatalogEntry \<Rightarrow> CatalogSet \<Rightarrow> CatalogSet \<times> exn option)
   \<Rightarrow> (interference \<times> interference) list \<Rightarrow> CatalogSet \<Rightarrow> (CatalogSet \<times> bool result) option" where
  "DropEntry env t name allow_drop_internal drop_object others s =
     (case DropDependencies env t name allow_drop_internal drop_object others s of
        None \<Rightarrow> None
      | Some (s1, Inl e) \<Rightarrow> Some (s1, Inl e)
      | Some (s1, Inr found) \<Rightarrow>
          if \<not> found then Some (s1, Inr False) else Some (DropEntryInternal t name allow_drop_internal s1))"

text \<open>
  A rename puts two versions on the old name, a marker that it was no drop and a tombstone, and a marker
  on the new one, on top of which the renamed entry goes. A failure half way leaves what was linked; the
  undo buffer has it.
\<close>

definition RENAMED_node :: "CatalogTransaction \<Rightarrow> string \<Rightarrow> CatalogEntry" where
  "RENAMED_node t name = (CatalogEntry_new RENAMED_ENTRY name)\<lparr>entry_timestamp := ct_transaction_id t\<rparr>"

definition RenameEntryInternal ::
  "default_env \<Rightarrow> CatalogTransaction \<Rightarrow> CatalogEntry \<Rightarrow> string \<Rightarrow> (interference \<times> interference) list \<Rightarrow> CatalogSet
   \<Rightarrow> (CatalogSet \<times> bool result) option" where
  "RenameEntryInternal env t old new_name others s =
     (let original_name = entry_name old in
      if \<not> ct_has_context t then
        Some (s, Inl (InternalException ''Attempting to dereference an optional pointer that is not set''))
      else if (case Map_GetEntry new_name s of
                 None \<Rightarrow> False
               | Some c \<Rightarrow> \<not> entry_deleted (fst (GetEntryForTransaction t (hd c) (tl c)))) then
        Some (s, Inl (CatalogException ''Could not rename %s to %s: another entry with this name already exists!''))
      else
        (case CreateEntryInternal env t original_name (RENAMED_node t original_name) False others s of
           None \<Rightarrow> None
         | Some (s1, Inl e) \<Rightarrow> Some (s1, Inl e)
         | Some (s1, Inr created) \<Rightarrow>
             if \<not> created then Some (s1, Inr False)
             else
               (case DropEntryInternal t original_name False s1 of
                  (s2, Inl e) \<Rightarrow> Some (s2, Inl e)
                | (s2, Inr dropped) \<Rightarrow>
                    if \<not> dropped then Some (s2, Inr False)
                    else CreateEntryInternal env t new_name (RENAMED_node t new_name) True others s2)))"

text \<open>
  An alteration of the entry, with what its class provides: a copy, or the altered entry, or nothing
  when there is nothing to alter.
\<close>

record AlterInfo =
  allow_internal :: bool
  set_comment :: "string option"

definition altered_value ::
  "CatalogTransaction \<Rightarrow> AlterInfo \<Rightarrow> (CatalogEntry \<Rightarrow> CatalogEntry option result) \<Rightarrow> CatalogEntry
   \<Rightarrow> CatalogEntry option result" where
  "altered_value t info alter entry =
     (if \<not> allow_internal info \<and> entry_internal entry then
        Inl (CatalogException ''Cannot alter entry %s because it is an internal system entry'')
      else
        (case set_comment info of
           Some comment_value \<Rightarrow>
             if \<not> ct_has_context t then
               Inl (InternalException ''Cannot AlterEntry::SET_COMMENT without client context'')
             else map_sum id (map_option (\<lambda>value. value\<lparr>entry_comment := comment_value\<rparr>)) (alter entry)
         | None \<Rightarrow> alter entry))"

definition link_altered :: "CatalogTransaction \<Rightarrow> CatalogEntry \<Rightarrow> CatalogSet \<Rightarrow> CatalogSet \<times> bool result" where
  "link_altered t value s =
     (case Map_UpdateEntry value s of
        Inl e \<Rightarrow> (s, Inl e)
      | Inr s1 \<Rightarrow>
          if ct_has_transaction t then (push_catalog_entry t (child_ref (entry_name value) s1) s1, Inr True)
          else
            let key = ci_key (entry_name value)
            in (s1\<lparr>entries := AList.update key [hd (the (map_of (entries s1) key))] (entries s1)\<rparr>, Inr True))"

definition AlterEntry ::
  "default_env \<Rightarrow> CatalogTransaction \<Rightarrow> string \<Rightarrow> AlterInfo \<Rightarrow> (CatalogEntry \<Rightarrow> CatalogEntry option result)
   \<Rightarrow> interference \<Rightarrow> exn option \<Rightarrow> (interference \<times> interference) list \<Rightarrow> CatalogSet
   \<Rightarrow> (CatalogSet \<times> bool result) option" where
  "AlterEntry env t name info alter until_locked alter_object others s =
     (case GetEntry env t name others s of
        None \<Rightarrow> None
      | Some (s1, None) \<Rightarrow> Some (s1, Inr False)
      | Some (s1, Some entry0) \<Rightarrow>
          (case altered_value t info alter entry0 of
             Inl e \<Rightarrow> Some (s1, Inl e)
           | Inr None \<Rightarrow> Some (s1, Inr True)
           | Inr (Some value0) \<Rightarrow>
               let s2 = until_locked s1 in
               (case GetEntryInternal t name s2 of
                  Inl e \<Rightarrow> Some (s2, Inl e)
                | Inr None \<Rightarrow>
                    Some (s2, Inl (InternalException ''Attempting to dereference an optional pointer that is not set''))
                | Inr (Some entry) \<Rightarrow>
                    let value = value0\<lparr>entry_timestamp := ct_transaction_id t\<rparr> in
                    (case (if \<not> CIEquals (entry_name value) (entry_name entry)
                           then RenameEntryInternal env t entry (entry_name value) others s2
                           else Some (s2, Inr True)) of
                       None \<Rightarrow> None
                     | Some (s3, Inl e) \<Rightarrow> Some (s3, Inl e)
                     | Some (s3, Inr renamed) \<Rightarrow>
                         if \<not> renamed then Some (s3, Inr False)
                         else
                           (case link_altered t value s3 of
                              (s4, Inl e) \<Rightarrow> Some (s4, Inl e)
                            | (s4, Inr altered) \<Rightarrow>
                                Some (s4, (case alter_object of Some e \<Rightarrow> Inl e | None \<Rightarrow> Inr True)))))))"

section \<open>Ending a transaction\<close>

definition UpdateTimestamp :: "entry_ref \<Rightarrow> transaction_t \<Rightarrow> CatalogSet \<Rightarrow> CatalogSet" where
  "UpdateTimestamp r timestamp s =
     (case map_of (entries s) (fst r) of
        None \<Rightarrow> s
      | Some c \<Rightarrow>
          s\<lparr>entries := AList.update (fst r)
              (map (\<lambda>e. if entry_addr e = snd r then e\<lparr>entry_timestamp := timestamp\<rparr> else e) c) (entries s)\<rparr>)"

definition Parent_ref :: "entry_ref \<Rightarrow> CatalogSet \<Rightarrow> entry_ref result" where
  "Parent_ref r s =
     (case resolve r s of
        Inl e \<Rightarrow> Inl e
      | Inr (newer, entry, older) \<Rightarrow>
          if newer = [] then Inl (InternalException ''entry without a parent'')
          else Inr (fst r, entry_addr (last newer)))"

definition Undo :: "entry_ref \<Rightarrow> CatalogSet \<Rightarrow> CatalogSet result" where
  "Undo r s =
     (case resolve r s of
        Inl e \<Rightarrow> Inl e
      | Inr (newer, entry, older) \<Rightarrow>
          (case Parent_ref r s of
             Inl e \<Rightarrow> Inl e
           | Inr to_be_removed_node \<Rightarrow>
               (case Map_DropEntry to_be_removed_node s of
                  Inl e \<Rightarrow> Inl e
                | Inr s1 \<Rightarrow> if entry_type entry = INVALID then Map_DropEntry r s1 else Inr s1)))"

definition CleanupEntry :: "entry_ref \<Rightarrow> CatalogSet \<Rightarrow> CatalogSet result" where
  "CleanupEntry r s =
     (case Parent_ref r s of
        Inl e \<Rightarrow> Inl e
      | Inr parent \<Rightarrow>
          (case Map_DropEntry r s of
             Inl e \<Rightarrow> Inl e
           | Inr s1 \<Rightarrow>
               (case resolve parent s1 of
                  Inl e \<Rightarrow> Inl e
                | Inr (newer, p, older) \<Rightarrow>
                    if entry_deleted p \<and> older = [] \<and> newer = [] then Map_DropEntry parent s1 else Inr s1)))"

end
