(* ===== verification/Catalog_Versions.thy ===== *)
theory Catalog_Versions
  imports Catalog_Set
begin

text \<open>
  What the operations of a set do to its chains. Each one makes elementary changes only: a chain is
  started with its dummy, or a version is put on top of a chain the transaction may write
  (\<open>changes\<close>). The invariant \<open>set_ok\<close> and the agreement of an undo buffer with the chains,
  \<open>undo_ok\<close>, are kept by both. Then the ends of a transaction, after
  \<open>transaction/commit_state.cpp\<close>, \<open>rollback_state.cpp\<close>, \<open>cleanup_state.cpp\<close> and
  \<open>undo_buffer.cpp\<close>, for the entries of a catalog: a commit stamps exactly the versions of the
  transaction, a rollback removes exactly these, a clean-up removes a version nobody reads any more.
\<close>

section \<open>Keys\<close>

lemma of_char_less: "of_char c < (256 :: nat)"
  using nat_of_char_less_256 [of c] by simp

lemma ToUpper_code: "of_char (CharacterToUpper c) =
   (if (97 :: nat) \<le> of_char c \<and> of_char c \<le> (122 :: nat) then of_char c - 32 else (of_char c :: nat))"
  and ToLower_code: "of_char (CharacterToLower c) =
   (if (65 :: nat) \<le> of_char c \<and> of_char c \<le> (90 :: nat) then of_char c + 32 else (of_char c :: nat))"
  by (auto simp: CharacterToUpper_def CharacterToLower_def)

lemma ToUpper_ToLower: "CharacterToUpper c = CharacterToUpper d \<longleftrightarrow> CharacterToLower c = CharacterToLower d"
proof -
  have inj: "x = y \<longleftrightarrow> of_char x = (of_char y :: nat)" for x y :: char by (metis char_of_char)
  have "((if 97 \<le> m \<and> m \<le> 122 then m - 32 else m) = (if 97 \<le> n \<and> n \<le> 122 then n - 32 else n)) \<longleftrightarrow>
      ((if 65 \<le> m \<and> m \<le> 90 then m + 32 else m) = (if 65 \<le> n \<and> n \<le> 90 then n + 32 else n))" for m n :: nat
    by (cases "97 \<le> m \<and> m \<le> 122"; cases "97 \<le> n \<and> n \<le> 122") auto
  then show ?thesis unfolding inj ToUpper_code ToLower_code .
qed

lemma CIEquals_key: "CIEquals a b \<longleftrightarrow> ci_key a = ci_key b"
  unfolding ci_key_def list_eq_iff_nth_eq by (auto simp: CIEquals_def list_all_iff ToUpper_ToLower)

lemma upper_zero_iff: "of_char (CharacterToUpper c) = (0 :: nat) \<longleftrightarrow> of_char c = (0 :: nat)"
  by (simp add: ToUpper_code)

lemma ci_less_loop_key:
  assumes "length p = length q" "(0 :: nat) \<notin> of_char ` set a" "(0 :: nat) \<notin> of_char ` set b"
  shows "(case ci_less_loop (p @ a) (q @ b) (length p)
            (min (length a) (length b) + (if length a \<noteq> length b then 1 else 0)) (u, u) of (u1, u2) \<Rightarrow> u1 < u2)
         \<longleftrightarrow> ci_key a < ci_key b"
  using assms
proof (induction a b arbitrary: p q u rule: list_induct2')
  case (2 x xs)
  then show ?case by (auto simp: ci_key_def char_at_def nth_append Let_def split: if_splits)
next
  case (3 y ys)
  have "of_char y \<noteq> (0 :: nat)" using 3(3) by (auto simp: image_iff)
  then have "0 < (of_char (CharacterToUpper y) :: nat)" using upper_zero_iff [of y] by simp
  then show ?case using 3(1) by (auto simp: ci_key_def char_at_def nth_append)
next
  case (4 x xs y ys)
  have at: "char_at (p @ x # xs) (length p) = of_char (CharacterToUpper x)"
    "char_at (q @ y # ys) (length p) = of_char (CharacterToUpper y)"
    using 4(2) by (simp_all add: char_at_def nth_append)
  have "(case ci_less_loop ((p @ [x]) @ xs) ((q @ [y]) @ ys) (length (p @ [x]))
      (min (length xs) (length ys) + (if length xs \<noteq> length ys then 1 else 0)) (v, v) of (u1, u2) \<Rightarrow> u1 < u2)
      \<longleftrightarrow> ci_key xs < ci_key ys" for v
    using 4(2-4) by (intro 4(1)) auto
  moreover have "(of_char c :: nat) = of_char d \<longleftrightarrow> c = d" for c d :: char by (metis char_of_char)
  ultimately show ?case using at by (auto simp: ci_key_def Let_def less_char_def)
qed (simp add: ci_key_def)

text \<open>The comparison of the map orders names as the keys are ordered, if they have no zero byte.\<close>

lemma CILessThan_key:
  assumes "(0 :: nat) \<notin> of_char ` set a" "(0 :: nat) \<notin> of_char ` set b"
  shows "CILessThan a b \<longleftrightarrow> ci_key a < ci_key b"
  using ci_less_loop_key [of "[]" "[]" a b 0] assms by (simp add: CILessThan_def)

section \<open>The chains of a set\<close>

definition chain_at :: "CatalogSet \<Rightarrow> string \<Rightarrow> chain option" where
  "chain_at s = map_of (entries s)"

lemma Map_GetEntry_at: "Map_GetEntry name s = chain_at s (ci_key name)"
  by (simp add: Map_GetEntry_def chain_at_def)

lemma map_of_insort_key: "k \<notin> fst ` set xs \<Longrightarrow> map_of (insort_key fst (k, v) xs) = (map_of xs)(k \<mapsto> v)"
  by (induction xs) (auto simp: fun_eq_iff)

lemma chain_at_insert: "chain_at s k = None \<Longrightarrow> map_of (insort_key fst (k, c) (entries s)) = (chain_at s)(k \<mapsto> c)"
  unfolding chain_at_def by (intro map_of_insort_key) (simp add: map_of_eq_None_iff)

lemma chain_at_update: "map_of (AList.update k c (entries s)) = (chain_at s)(k \<mapsto> c)"
  by (simp add: chain_at_def AList.update_conv')

lemma chain_at_delete: "map_of (AList.delete k (entries s)) = (chain_at s)(k := None)"
  by (simp add: chain_at_def AList.delete_conv')

definition keys_ok :: "CatalogSet \<Rightarrow> bool" where
  "keys_ok s \<longleftrightarrow> sorted (map fst (entries s)) \<and> distinct (map fst (entries s))"

lemma keys_ok_insert:
  assumes "keys_ok s" "chain_at s k = None"
  shows "keys_ok (s\<lparr>entries := insort_key fst (k, c) (entries s), next_addr := n\<rparr>)"
proof -
  have "map fst (insort_key fst (k, c) xs) = insort k (map fst xs)" for xs :: "(string \<times> chain) list"
    by (induction xs) auto
  then show ?thesis
    using assms by (simp add: keys_ok_def chain_at_def sorted_insort distinct_insort map_of_eq_None_iff)
qed

lemma chain_at_key: "chain_at s k = Some c \<Longrightarrow> k \<in> fst ` set (entries s)"
  unfolding chain_at_def by (drule map_of_SomeD) force

lemma update_fst: "k \<in> fst ` set xs \<Longrightarrow> map fst (AList.update k c xs) = map fst xs"
  by (simp add: AList.update_keys)

lemma delete_fst: "map fst (AList.delete k xs) = filter (\<lambda>x. x \<noteq> k) (map fst xs)"
  by (induction xs) auto

lemma keys_ok_update: "keys_ok s \<Longrightarrow> chain_at s k \<noteq> None \<Longrightarrow> keys_ok (s\<lparr>entries := AList.update k c (entries s)\<rparr>)"
  by (simp add: keys_ok_def chain_at_def update_fst map_of_eq_None_iff)

lemma keys_ok_delete: "keys_ok s \<Longrightarrow> keys_ok (s\<lparr>entries := AList.delete k (entries s)\<rparr>)"
  by (simp add: keys_ok_def delete_fst sorted_wrt_filter)

section \<open>The invariant of a set\<close>

text \<open>
  Along a chain the addresses and the timestamps grow towards the newest entry, the dummy that started a
  chain can only be its oldest entry, and all uncommitted versions are of one transaction.
\<close>

definition newer_than :: "CatalogEntry \<Rightarrow> CatalogEntry \<Rightarrow> bool" where
  "newer_than e f \<longleftrightarrow> entry_addr f < entry_addr e \<and> entry_timestamp f \<le> entry_timestamp e \<and> entry_type e \<noteq> INVALID"

definition one_writer :: "chain \<Rightarrow> bool" where
  "one_writer c \<longleftrightarrow> (\<forall>e\<in>set c. \<forall>f\<in>set c. \<not> IsCommitted (entry_timestamp e) \<longrightarrow> \<not> IsCommitted (entry_timestamp f)
     \<longrightarrow> entry_timestamp e = entry_timestamp f)"

definition chain_ok :: "string \<Rightarrow> nat \<Rightarrow> chain \<Rightarrow> bool" where
  "chain_ok k n c \<longleftrightarrow> c \<noteq> [] \<and> sorted_wrt newer_than c \<and> one_writer c \<and>
     (\<forall>e\<in>set c. ci_key (entry_name e) = k \<and> entry_addr e < n \<and> (entry_type e = INVALID \<longrightarrow> entry_deleted e))"

definition set_ok :: "CatalogSet \<Rightarrow> bool" where
  "set_ok s \<longleftrightarrow> keys_ok s \<and> (\<forall>k c. chain_at s k = Some c \<longrightarrow> chain_ok k (next_addr s) c)"

text \<open>The number of versions of a transaction on top of a chain.\<close>

definition own :: "transaction_t \<Rightarrow> chain \<Rightarrow> nat" where
  "own u c = length (takeWhile (\<lambda>e. entry_timestamp e = u) c)"

text \<open>The references a transaction has pushed for a chain are those to the children of its versions.\<close>

fun own_refs :: "transaction_t \<Rightarrow> string \<Rightarrow> chain option \<Rightarrow> entry_ref list" where
  "own_refs u k None = []"
| "own_refs u k (Some c) = rev (map (\<lambda>e. (k, entry_addr e)) (take (own u c) (tl c)))"

definition refs_ok :: "transaction_t \<Rightarrow> entry_ref list \<Rightarrow> CatalogSet \<Rightarrow> bool" where
  "refs_ok u refs s \<longleftrightarrow>
     (\<forall>k. filter (\<lambda>r. fst r = k) refs = own_refs u k (chain_at s k) \<and>
          (\<forall>c. chain_at s k = Some c \<longrightarrow> own u c < length c))"

definition undo_ok :: "transaction_t \<Rightarrow> CatalogSet \<Rightarrow> bool" where
  "undo_ok u s \<longleftrightarrow> refs_ok u (undo_buffers s u) s"

lemma own_Cons: "own u (e # c) = (if entry_timestamp e = u then Suc (own u c) else 0)"
  by (simp add: own_def)

lemma own_Nil [simp]: "own u [] = 0"
  by (simp add: own_def)

lemma chain_ok_mono: "chain_ok k m c \<Longrightarrow> m \<le> n \<Longrightarrow> chain_ok k n c"
  by (auto simp: chain_ok_def)

lemma set_ok_chain: "set_ok s \<Longrightarrow> chain_at s k = Some c \<Longrightarrow> chain_ok k (next_addr s) c"
  by (simp add: set_ok_def)

section \<open>The two elementary changes\<close>

definition with_dummy :: "string \<Rightarrow> CatalogSet \<Rightarrow> CatalogSet" where
  "with_dummy name s =
     s\<lparr>entries := insort_key fst (ci_key name, [(CatalogEntry_new INVALID name)\<lparr>entry_deleted := True, entry_addr := next_addr s\<rparr>])
          (entries s), next_addr := Suc (next_addr s)\<rparr>"

definition linked :: "CatalogTransaction \<Rightarrow> CatalogEntry \<Rightarrow> CatalogSet \<Rightarrow> CatalogSet" where
  "linked t v s = fst (link_version t v s)"

lemma AddEntry_dummy:
  "chain_at s (ci_key name) = None \<Longrightarrow>
   Map_AddEntry ((CatalogEntry_new INVALID name)\<lparr>entry_deleted := True\<rparr>) s = Inr (with_dummy name s)"
  by (simp add: Map_AddEntry_def Map_GetEntry_at with_dummy_def CatalogEntry_new_def)

lemma with_dummy_simps:
  assumes "chain_at s (ci_key name) = None"
  shows "chain_at (with_dummy name s) = (chain_at s)(ci_key name \<mapsto>
      [(CatalogEntry_new INVALID name)\<lparr>entry_deleted := True, entry_addr := next_addr s\<rparr>])"
    and "undo_buffers (with_dummy name s) = undo_buffers s" "next_addr (with_dummy name s) = Suc (next_addr s)"
    and "created_all_entries (with_dummy name s) = created_all_entries s"
  using chain_at_insert [OF assms] by (simp_all add: with_dummy_def chain_at_def)

lemma link_version_eq:
  assumes "chain_at s (ci_key (entry_name v)) = Some c" "c \<noteq> []"
  shows "link_version t v s = (linked t v s, Inr True)"
    and "chain_at (linked t v s) = (chain_at s)(ci_key (entry_name v) \<mapsto> v\<lparr>entry_addr := next_addr s\<rparr> # c)"
    and "next_addr (linked t v s) = Suc (next_addr s)"
    and "undo_buffers (linked t v s) = (if ct_has_transaction t
           then (undo_buffers s)(ct_transaction_id t := undo_buffers s (ct_transaction_id t) @ [(ci_key (entry_name v), entry_addr (hd c))])
           else undo_buffers s)"
    and "keys_ok s \<Longrightarrow> keys_ok (linked t v s)"
proof -
  let ?s1 = "s\<lparr>entries := AList.update (ci_key (entry_name v)) (v\<lparr>entry_addr := next_addr s\<rparr> # c) (entries s),
      next_addr := Suc (next_addr s)\<rparr>"
  have up: "Map_UpdateEntry v s = Inr ?s1" using assms by (simp add: Map_UpdateEntry_def Map_GetEntry_at)
  have ch: "chain_at ?s1 = (chain_at s)(ci_key (entry_name v) \<mapsto> v\<lparr>entry_addr := next_addr s\<rparr> # c)"
    by (simp add: chain_at_def [of ?s1] chain_at_update)
  have ref: "child_ref (entry_name v) ?s1 = (ci_key (entry_name v), entry_addr (hd c))"
    using ch assms(2) by (simp add: child_ref_def Map_GetEntry_at hd_conv_nth)
  have res: "link_version t v s = (if ct_has_transaction t
      then push_catalog_entry t (ci_key (entry_name v), entry_addr (hd c)) ?s1 else ?s1, Inr True)"
    by (simp only: link_version_def up ref sum.case)
  then show "link_version t v s = (linked t v s, Inr True)" by (simp add: linked_def)
  have lk: "linked t v s = (if ct_has_transaction t
      then push_catalog_entry t (ci_key (entry_name v), entry_addr (hd c)) ?s1 else ?s1)"
    by (simp only: linked_def res fst_conv)
  have "entries (linked t v s) = entries ?s1" by (simp add: lk push_catalog_entry_def)
  then show "chain_at (linked t v s) = (chain_at s)(ci_key (entry_name v) \<mapsto> v\<lparr>entry_addr := next_addr s\<rparr> # c)"
    using ch by (simp only: chain_at_def)
  show "next_addr (linked t v s) = Suc (next_addr s)"
    by (simp add: lk push_catalog_entry_def)
  show "undo_buffers (linked t v s) = (if ct_has_transaction t
           then (undo_buffers s)(ct_transaction_id t := undo_buffers s (ct_transaction_id t) @ [(ci_key (entry_name v), entry_addr (hd c))])
           else undo_buffers s)"
    by (simp add: lk push_catalog_entry_def)
  show "keys_ok (linked t v s)" if "keys_ok s"
    using that update_fst [OF chain_at_key [OF assms(1)]] by (simp add: lk push_catalog_entry_def keys_ok_def)
qed

inductive changes :: "CatalogTransaction \<Rightarrow> CatalogSet \<Rightarrow> CatalogSet \<Rightarrow> bool" for t where
  stay: "changes t s s"
| start: "changes t s s1 \<Longrightarrow> chain_at s1 (ci_key name) = None \<Longrightarrow> ci_key (entry_name v) = ci_key name \<Longrightarrow>
    entry_timestamp v = ct_transaction_id t \<Longrightarrow> entry_type v \<noteq> INVALID \<Longrightarrow>
    changes t s (linked t v (with_dummy name s1))"
| link: "changes t s s1 \<Longrightarrow> chain_at s1 (ci_key (entry_name v)) = Some c \<Longrightarrow> c \<noteq> [] \<Longrightarrow>
    \<not> HasConflict t (entry_timestamp (hd c)) \<Longrightarrow> entry_timestamp v = ct_transaction_id t \<Longrightarrow> entry_type v \<noteq> INVALID \<Longrightarrow>
    changes t s (linked t v s1)"

lemma changes_trans: "changes t s2 s3 \<Longrightarrow> changes t s1 s2 \<Longrightarrow> changes t s1 s3"
  by (induction rule: changes.induct) (auto intro: changes.intros)

text \<open>A transaction that is running: its id is no commit id, its start time is one.\<close>

definition running :: "CatalogTransaction \<Rightarrow> bool" where
  "running t \<longleftrightarrow> \<not> IsCommitted (ct_transaction_id t) \<and> IsCommitted (ct_start_time t) \<and> ct_has_transaction t"

lemma no_conflict_cases:
  assumes "running t" "\<not> HasConflict t ts"
  obtains "ts = ct_transaction_id t" | "IsCommitted ts" "ts \<le> ct_start_time t" "ts \<le> ct_transaction_id t" "ts \<noteq> ct_transaction_id t"
proof (cases "ts = ct_transaction_id t")
  case False
  then have "ts < TRANSACTION_ID_START" "\<not> ts > ct_start_time t"
    using assms unfolding HasConflict_def CreatedByOtherActiveTransaction_def CommittedAfterStarting_def by auto
  moreover have "TRANSACTION_ID_START \<le> ct_transaction_id t" using assms(1) by (simp add: running_def IsCommitted_def not_less)
  ultimately show ?thesis using False by (intro that(2)) (simp_all add: IsCommitted_def not_less)
qed (rule that(1))

lemma own_pos: "c \<noteq> [] \<Longrightarrow> entry_timestamp (hd c) \<noteq> u \<Longrightarrow> own u c = 0"
  by (cases c) (simp_all add: own_Cons)

lemma chain_ok_link:
  assumes c: "chain_ok k n c" and t: "running t" and nc: "\<not> HasConflict t (entry_timestamp (hd c))"
    and v: "entry_timestamp v = ct_transaction_id t" "entry_type v \<noteq> INVALID" "ci_key (entry_name v) = k"
  shows "chain_ok k (Suc n) (v\<lparr>entry_addr := n\<rparr> # c)"
proof -
  obtain e es where ces: "c = e # es" using c by (cases c) (auto simp: chain_ok_def)
  have below: "entry_timestamp f \<le> entry_timestamp e" if "f \<in> set c" for f
    using that c ces by (auto simp: chain_ok_def newer_than_def)
  have top: "entry_timestamp e \<le> ct_transaction_id t" "\<not> IsCommitted (entry_timestamp e) \<Longrightarrow> entry_timestamp e = ct_transaction_id t"
    by (rule no_conflict_cases [OF t nc]; use ces in simp)+
  have w: "entry_timestamp f = ct_transaction_id t" if "f \<in> set c" "\<not> IsCommitted (entry_timestamp f)" for f
  proof -
    have "\<not> IsCommitted (entry_timestamp e)" using that below [of f] by (auto simp: IsCommitted_def)
    then show ?thesis using that c ces top(2) by (auto simp: chain_ok_def one_writer_def)
  qed
  have "one_writer (v\<lparr>entry_addr := n\<rparr> # c)" unfolding one_writer_def using w v(1) by (simp, metis)
  moreover have "newer_than (v\<lparr>entry_addr := n\<rparr>) f" if "f \<in> set c" for f
    using that below [of f] top(1) v c by (auto simp: newer_than_def chain_ok_def)
  ultimately show ?thesis using c v by (auto simp: chain_ok_def less_SucI)
qed

lemma undo_ok_link:
  assumes s: "set_ok s" and k: "chain_at s (ci_key (entry_name v)) = Some c" and t: "running t"
    and nc: "\<not> HasConflict t (entry_timestamp (hd c))" and v: "entry_timestamp v = ct_transaction_id t"
    and u: "\<not> IsCommitted u" "undo_ok u s"
  shows "undo_ok u (linked t v s)"
proof -
  have c: "c \<noteq> []" using set_ok_chain [OF s k] by (simp add: chain_ok_def)
  note eqs = link_version_eq [OF k c, of t]
  let ?k = "ci_key (entry_name v)"
  have old: "own u c < length c" "filter (\<lambda>r. fst r = ?k) (undo_buffers s u) = own_refs u ?k (Some c)"
    using u(2) k unfolding undo_ok_def refs_ok_def by auto
  have other: "own u c = 0" if "u \<noteq> ct_transaction_id t"
    using that u(1) own_pos [OF c, of u] by (cases "entry_timestamp (hd c) = u") (use no_conflict_cases [OF t nc] in blast)+
  have tk: "take (Suc n) c = hd c # take n (tl c)" for n using c by (cases c) auto
  have "filter (\<lambda>r. fst r = k') (undo_buffers (linked t v s) u) = own_refs u k' (chain_at (linked t v s) k') \<and>
      (\<forall>c'. chain_at (linked t v s) k' = Some c' \<longrightarrow> own u c' < length c')" for k'
  proof (cases "k' = ?k")
    case True
    then show ?thesis using old other v t tk [of "own u c"] by (auto simp: eqs(2,4) own_Cons running_def)
  next
    case False
    have "filter (\<lambda>r. fst r = k') (undo_buffers s u) = own_refs u k' (chain_at s k')" using u(2) by (simp add: undo_ok_def refs_ok_def)
    then show ?thesis using False u(2) by (auto simp: eqs(2,4) undo_ok_def refs_ok_def)
  qed
  then show ?thesis by (simp add: undo_ok_def refs_ok_def)
qed

lemma set_ok_link:
  assumes "set_ok s" "chain_at s (ci_key (entry_name v)) = Some c" "running t" "\<not> HasConflict t (entry_timestamp (hd c))"
    "entry_timestamp v = ct_transaction_id t" "entry_type v \<noteq> INVALID"
  shows "set_ok (linked t v s)"
proof -
  have c: "chain_ok (ci_key (entry_name v)) (next_addr s) c" using assms set_ok_chain by blast
  then have "c \<noteq> []" by (simp add: chain_ok_def)
  note eqs = link_version_eq [OF assms(2) this, of t]
  have "keys_ok (linked t v s)" using assms(1) by (intro eqs(5)) (simp add: set_ok_def)
  moreover have "chain_ok (ci_key (entry_name v)) (Suc (next_addr s)) (v\<lparr>entry_addr := next_addr s\<rparr> # c)"
    using chain_ok_link [OF c assms(3-6)] by simp
  ultimately show ?thesis
    using assms(1) chain_ok_mono [of _ "next_addr s" _ "Suc (next_addr s)"]
    by (auto simp: set_ok_def eqs(2,3))
qed

lemma set_ok_dummy:
  assumes "set_ok s" "chain_at s (ci_key name) = None"
  shows "set_ok (with_dummy name s)"
proof -
  have "keys_ok (with_dummy name s)"
    using assms keys_ok_insert unfolding set_ok_def with_dummy_def by blast
  moreover have "chain_ok (ci_key name) (Suc n) [(CatalogEntry_new INVALID name)\<lparr>entry_deleted := True, entry_addr := n\<rparr>]" for n
    by (simp add: chain_ok_def one_writer_def CatalogEntry_new_def)
  ultimately show ?thesis
    using assms chain_ok_mono [of _ "next_addr s" _ "Suc (next_addr s)"]
    by (auto simp: set_ok_def with_dummy_simps)
qed

lemma undo_ok_dummy:
  assumes "chain_at s (ci_key name) = None" "\<not> IsCommitted u" "undo_ok u s"
  shows "undo_ok u (with_dummy name s)"
proof -
  have "u \<noteq> 0" using assms(2) by (auto simp: IsCommitted_def TRANSACTION_ID_START_def)
  then have "own u [(CatalogEntry_new INVALID name)\<lparr>entry_deleted := True, entry_addr := a\<rparr>] = 0" for a
    by (simp add: own_def CatalogEntry_new_def)
  moreover have "filter (\<lambda>r. fst r = ci_key name) (undo_buffers s u) = []"
    using assms(1,3) by (simp add: undo_ok_def refs_ok_def)
  ultimately show ?thesis
    using assms(1,3) unfolding undo_ok_def refs_ok_def with_dummy_simps [OF assms(1)] by auto
qed

lemma dummy_vacant:
  "chain_at s (ci_key name) = None \<Longrightarrow> ci_key n = ci_key name \<Longrightarrow>
   \<exists>d. chain_at (with_dummy name s) (ci_key n) = Some [d] \<and> entry_timestamp d = 0 \<and> entry_type d = INVALID \<and> entry_deleted d"
  by (simp add: with_dummy_simps CatalogEntry_new_def)

lemma no_conflict_dummy: "\<not> HasConflict t 0"
  by (auto simp: HasConflict_def CreatedByOtherActiveTransaction_def CommittedAfterStarting_def TRANSACTION_ID_START_def)

text \<open>Outside an operation no chain consists of its dummy.\<close>

definition no_bare_dummy :: "CatalogSet \<Rightarrow> bool" where
  "no_bare_dummy s \<longleftrightarrow> (\<forall>k c. chain_at s k = Some c \<longrightarrow> entry_type (hd c) \<noteq> INVALID)"

lemma started:
  assumes "set_ok s" "chain_at s (ci_key name) = None" "ci_key (entry_name v) = ci_key name"
    "entry_timestamp v = ct_transaction_id t" "entry_type v \<noteq> INVALID" "running t"
  shows "set_ok (linked t v (with_dummy name s))"
    and "\<not> IsCommitted u \<Longrightarrow> undo_ok u s \<Longrightarrow> undo_ok u (linked t v (with_dummy name s))"
    and "\<exists>d n. chain_at (linked t v (with_dummy name s)) = (chain_at s)(ci_key name \<mapsto> [v\<lparr>entry_addr := n\<rparr>, d]) \<and>
      entry_type d = INVALID \<and> entry_deleted d \<and> entry_timestamp d = 0"
proof -
  obtain d where d: "chain_at (with_dummy name s) (ci_key (entry_name v)) = Some [d]" "entry_timestamp d = 0"
    "entry_type d = INVALID" "entry_deleted d"
    using dummy_vacant [OF assms(2,3)] by blast
  have nc: "\<not> HasConflict t (entry_timestamp (hd [d]))" using d(2) no_conflict_dummy by simp
  note ok = set_ok_dummy [OF assms(1,2)]
  show "set_ok (linked t v (with_dummy name s))" by (rule set_ok_link [OF ok d(1) assms(6) nc assms(4,5)])
  show "undo_ok u (linked t v (with_dummy name s))" if "\<not> IsCommitted u" "undo_ok u s"
    by (rule undo_ok_link [OF ok d(1) assms(6) nc assms(4) that(1)]) (rule undo_ok_dummy [OF assms(2) that])
  show "\<exists>d n. chain_at (linked t v (with_dummy name s)) = (chain_at s)(ci_key name \<mapsto> [v\<lparr>entry_addr := n\<rparr>, d]) \<and>
      entry_type d = INVALID \<and> entry_deleted d \<and> entry_timestamp d = 0"
    using link_version_eq(2) [OF d(1), of t] d assms(2,3) by (auto simp: with_dummy_simps)
qed

lemma changes_inv:
  assumes "changes t s s'" "running t" "set_ok s"
  shows "set_ok s' \<and> (\<forall>u. \<not> IsCommitted u \<longrightarrow> undo_ok u s \<longrightarrow> undo_ok u s') \<and> (no_bare_dummy s \<longrightarrow> no_bare_dummy s')"
  using assms
proof (induction rule: changes.induct)
  case (start s s1 name v)
  then show ?case
    using started [of s1 name v t] by (fastforce simp: no_bare_dummy_def split: if_splits)
next
  case (link s s1 v c)
  then show ?case
    using link_version_eq(2) [OF link(2,3), of t]
    by (auto intro: set_ok_link undo_ok_link simp: no_bare_dummy_def split: if_splits)
qed simp

section \<open>What a transaction sees\<close>

fun visible_version :: "CatalogTransaction \<Rightarrow> chain option \<Rightarrow> CatalogEntry option" where
  "visible_version t None = None"
| "visible_version t (Some c) = lookup_result (lookup_chain t c)"

definition visible_entry :: "CatalogTransaction \<Rightarrow> string \<Rightarrow> CatalogSet \<Rightarrow> CatalogEntry option" where
  "visible_entry t name s = visible_version t (chain_at s (ci_key name))"

lemma GetEntry_eq:
  assumes "generator env = None"
  shows "GetEntry env t name others s = Some (s, visible_entry t name s)"
proof (cases "chain_at s (ci_key name)")
  case None
  then show ?thesis using assms
    by (simp add: GetEntry_def visible_entry_def GetEntryDetailed.simps CreateDefaultEntry.simps Map_GetEntry_at map_prod_def)
next
  case (Some c)
  then show ?thesis
    by (simp add: GetEntry_def visible_entry_def GetEntryDetailed.simps Map_GetEntry_at map_prod_def)
qed

lemma visible_link:
  assumes "c \<noteq> []"
  shows "visible_version u (Some (v # c)) =
    (if UseTimestamp u (entry_timestamp v) then if entry_deleted v then None else Some v else visible_version u (Some c))"
  using assms by (cases c) (simp_all add: lookup_chain_def)

lemma visible_single: "visible_version u (Some [v]) = (if entry_deleted v then None else Some v)"
  by (simp add: lookup_chain_def)

lemma running_uses_own: "UseTimestamp t (ct_transaction_id t)"
  by (simp add: UseTimestamp_def)

lemma running_ignores_others:
  "running t \<Longrightarrow> running u \<Longrightarrow> ct_transaction_id u \<noteq> ct_transaction_id t \<Longrightarrow> \<not> UseTimestamp u (ct_transaction_id t)"
  by (auto simp: UseTimestamp_def running_def IsCommitted_def)

lemma changes_visible:
  assumes "changes t s s'" "running t" "running u" "ct_transaction_id u \<noteq> ct_transaction_id t" "set_ok s"
  shows "visible_version u (chain_at s' k) = visible_version u (chain_at s k)"
  using assms(1,5)
proof (induction rule: changes.induct)
  case (start s s1 name v)
  have ok: "set_ok s1" using changes_inv [OF start(1) assms(2) start.prems] by blast
  obtain d n where "chain_at (linked t v (with_dummy name s1)) = (chain_at s1)(ci_key name \<mapsto> [v\<lparr>entry_addr := n\<rparr>, d])"
    "entry_deleted d"
    using started(3) [OF ok start(2-5) assms(2)] by blast
  then show ?case
    using start running_ignores_others [OF assms(2-4)]
    by (cases "k = ci_key name") (auto simp: visible_link visible_single simp del: visible_version.simps(2))
next
  case (link s s1 v c)
  have old: "visible_version u (chain_at s1 k) = visible_version u (chain_at s k)" using link by blast
  show ?case
  proof (cases "k = ci_key (entry_name v)")
    case True
    then show ?thesis
      using old link running_ignores_others [OF assms(2-4)] by (simp add: link_version_eq(2) visible_link del: visible_version.simps)
  next
    case False
    then show ?thesis using old link_version_eq(2) [OF link(2,3)] by simp
  qed
qed simp

lemma HasConflict_iff:
  "running t \<Longrightarrow> HasConflict t ts \<longleftrightarrow> ts \<noteq> ct_transaction_id t \<and> ct_start_time t < ts"
  unfolding HasConflict_def CreatedByOtherActiveTransaction_def CommittedAfterStarting_def running_def IsCommitted_def by auto

lemma no_conflict_own: "running t \<Longrightarrow> \<not> HasConflict t (ct_transaction_id t)"
  by (simp add: HasConflict_iff)

section \<open>The operations as elementary changes\<close>

lemma StartChain_eq:
  assumes "generator env = None" "chain_at s (ci_key name) = None"
  shows "StartChain env t name others s = Some (with_dummy name s, Inr True)"
  using assms by (simp add: StartChain_def CreateDefaultEntry.simps AddEntry_dummy)

lemma CreateEntryInternal_eq:
  assumes "generator env = None" "ci_key (entry_name v) = ci_key name" "set_ok s"
  shows "CreateEntryInternal env t name v should_be_empty others s =
     Some (case chain_at s (ci_key name) of
             None \<Rightarrow> (linked t v (with_dummy name s), Inr True)
           | Some c \<Rightarrow>
               if should_be_empty \<and> HasConflict t (entry_timestamp (hd c))
               then (s, Inl (TransactionException ''Catalog write-write conflict on create with %s''))
               else if should_be_empty \<and> \<not> entry_deleted (hd c) then (s, Inr False)
               else (linked t v s, Inr True))"
proof (cases "chain_at s (ci_key name)")
  case None
  obtain d where "chain_at (with_dummy name s) (ci_key (entry_name v)) = Some [d]" using dummy_vacant [OF None assms(2)] by blast
  from link_version_eq(1) [OF this, of t] show ?thesis
    using None assms(1) by (simp add: CreateEntryInternal_def Map_GetEntry_at StartChain_eq)
next
  case (Some c)
  then have "link_version t v s = (linked t v s, Inr True)"
    using assms by (intro link_version_eq(1)) (auto dest: set_ok_chain simp: chain_ok_def)
  then show ?thesis
    using Some by (simp add: CreateEntryInternal_def Map_GetEntry_at VerifyVacancy_def)
qed

lemma CreateEntryInternal_total:
  assumes "generator env = None" "ci_key (entry_name v) = ci_key name" "set_ok s"
  obtains s1 r where "CreateEntryInternal env t name v should_be_empty others s = Some (s1, r)"
proof -
  obtain x where "CreateEntryInternal env t name v should_be_empty others s = Some x"
    using CreateEntryInternal_eq [OF assms] by blast
  then show thesis using that by (cases x) simp
qed

lemma changes_create:
  assumes "generator env = None" "ci_key (entry_name v) = ci_key name" "set_ok s" "running t"
    and "entry_timestamp v = ct_transaction_id t" "entry_type v \<noteq> INVALID"
    and "should_be_empty \<or> (\<exists>c. chain_at s (ci_key name) = Some c \<and> \<not> HasConflict t (entry_timestamp (hd c)))"
    and "CreateEntryInternal env t name v should_be_empty others s = Some (s', r)"
  shows "changes t s s'" "r = Inr True \<Longrightarrow> \<exists>c n. c \<noteq> [] \<and> chain_at s' (ci_key name) = Some (v\<lparr>entry_addr := n\<rparr> # c)"
proof -
  have "changes t s s' \<and> (r = Inr True \<longrightarrow> (\<exists>c n. c \<noteq> [] \<and> chain_at s' (ci_key name) = Some (v\<lparr>entry_addr := n\<rparr> # c)))"
  proof (cases "chain_at s (ci_key name)")
    case None
    have s': "s' = linked t v (with_dummy name s)" using assms None by (simp add: CreateEntryInternal_eq)
    have "changes t s s'" unfolding s' using assms None by (intro changes.start changes.stay) simp_all
    then show ?thesis unfolding s' using started(3) [OF assms(3) None assms(2,5,6,4)] by fastforce
  next
    case (Some c)
    have ne: "c \<noteq> []" using set_ok_chain [OF assms(3) Some] by (simp add: chain_ok_def)
    have key: "chain_at s (ci_key (entry_name v)) = Some c" using Some assms(2) by simp
    consider "s' = s" "r \<noteq> Inr True" | "s' = linked t v s" "\<not> HasConflict t (entry_timestamp (hd c))"
      using assms Some by (auto simp: CreateEntryInternal_eq split: if_splits)
    then show ?thesis
    proof cases
      case 1
      then show ?thesis by (simp add: changes.stay)
    next
      case 2
      then have "changes t s s'" using key ne assms by (auto intro: changes.intros)
      then show ?thesis using 2 link_version_eq(2) [OF key ne] ne assms(2) by auto
    qed
  qed
  then show "changes t s s'" "r = Inr True \<Longrightarrow> \<exists>c n. c \<noteq> [] \<and> chain_at s' (ci_key name) = Some (v\<lparr>entry_addr := n\<rparr> # c)" by blast+
qed

definition tombstone :: "CatalogTransaction \<Rightarrow> string \<Rightarrow> CatalogEntry" where
  "tombstone t name = (CatalogEntry_new DELETED_ENTRY name)\<lparr>entry_timestamp := ct_transaction_id t, entry_deleted := True\<rparr>"

lemma DropEntryInternal_eq:
  assumes "set_ok s"
  shows "DropEntryInternal t name allow s =
     (case chain_at s (ci_key name) of
        None \<Rightarrow> (s, Inr False)
      | Some c \<Rightarrow>
          if HasConflict t (entry_timestamp (hd c))
          then (s, Inl (TransactionException ''Catalog write-write conflict on alter with %s''))
          else if entry_deleted (hd c) then (s, Inr False)
          else if entry_internal (hd c) \<and> \<not> allow
          then (s, Inl (CatalogException ''Cannot drop entry %s because it is an internal system entry''))
          else (linked t (tombstone t (entry_name (hd c))) s, Inr True))"
proof (cases "chain_at s (ci_key name)")
  case (Some c)
  have ok: "chain_ok (ci_key name) (next_addr s) c" using set_ok_chain [OF assms Some] .
  then have "chain_at s (ci_key (entry_name (tombstone t (entry_name (hd c))))) = Some c"
    using Some by (auto simp: chain_ok_def tombstone_def CatalogEntry_new_def)
  from link_version_eq(1) [OF this, of t] show ?thesis
    using Some ok by (simp add: DropEntryInternal_def GetEntryInternal_def Map_GetEntry_at tombstone_def chain_ok_def Let_def)
qed (simp add: DropEntryInternal_def GetEntryInternal_def Map_GetEntry_at)

lemma changes_drop:
  assumes "set_ok s" "running t" "DropEntryInternal t name allow s = (s', r)"
  shows "changes t s s'"
    "r = Inr True \<Longrightarrow> \<exists>c v. c \<noteq> [] \<and> chain_at s' = (chain_at s)(ci_key name \<mapsto> v # c) \<and> entry_deleted v \<and> entry_timestamp v = ct_transaction_id t"
proof -
  have "changes t s s' \<and> (r = Inr True \<longrightarrow> (\<exists>c v. c \<noteq> [] \<and> chain_at s' = (chain_at s)(ci_key name \<mapsto> v # c) \<and> entry_deleted v \<and>
      entry_timestamp v = ct_transaction_id t))"
  proof (cases "chain_at s (ci_key name)")
    case None
    then show ?thesis using assms by (auto simp: DropEntryInternal_eq changes.stay)
  next
    case (Some c)
    have ok: "chain_ok (ci_key name) (next_addr s) c" using set_ok_chain [OF assms(1) Some] .
    then have ne: "c \<noteq> []" by (simp add: chain_ok_def)
    let ?v = "tombstone t (entry_name (hd c))"
    have v: "entry_timestamp ?v = ct_transaction_id t" "entry_type ?v \<noteq> INVALID" "entry_deleted ?v" "ci_key (entry_name ?v) = ci_key name"
      using ok by (auto simp: chain_ok_def tombstone_def CatalogEntry_new_def)
    have key: "chain_at s (ci_key (entry_name ?v)) = Some c" using Some v(4) by simp
    consider "s' = s" "r \<noteq> Inr True" | "s' = linked t ?v s" "\<not> HasConflict t (entry_timestamp (hd c))"
      using assms Some by (auto simp: DropEntryInternal_eq split: if_splits)
    then show ?thesis
    proof cases
      case 1
      then show ?thesis by (simp add: changes.stay)
    next
      case 2
      then have "changes t s s'" using key ne v by (auto intro: changes.intros)
      moreover have "chain_at s' = (chain_at s)(ci_key name \<mapsto> ?v\<lparr>entry_addr := next_addr s\<rparr> # c)"
        using 2 link_version_eq(2) [OF key ne] v(4) by simp
      moreover have "entry_deleted (?v\<lparr>entry_addr := next_addr s\<rparr>)"
        "entry_timestamp (?v\<lparr>entry_addr := next_addr s\<rparr>) = ct_transaction_id t" using v by simp_all
      ultimately show ?thesis using ne by blast
    qed
  qed
  then show "changes t s s'" "r = Inr True \<Longrightarrow> \<exists>c v. c \<noteq> [] \<and> chain_at s' = (chain_at s)(ci_key name \<mapsto> v # c) \<and> entry_deleted v \<and>
      entry_timestamp v = ct_transaction_id t" by blast+
qed

lemma changes_rename:
  assumes "generator env = None" "running t" "set_ok s" "chain_at s (ci_key (entry_name old)) = Some c"
    and "\<not> HasConflict t (entry_timestamp (hd c))" "ci_key new \<noteq> ci_key (entry_name old)"
    and "RenameEntryInternal env t old new others s = Some (s', r)"
  shows "changes t s s'"
    "r = Inr True \<Longrightarrow> (\<exists>c v. c \<noteq> [] \<and> chain_at s' (ci_key (entry_name old)) = Some (v # c) \<and> entry_deleted v \<and>
         entry_timestamp v = ct_transaction_id t) \<and>
       (\<exists>c v. chain_at s' (ci_key new) = Some (v # c) \<and> entry_timestamp v = ct_transaction_id t)"
proof -
  let ?old = "entry_name old"
  let ?own = "\<lambda>v. entry_timestamp v = ct_transaction_id t"
  have node: "ci_key (entry_name (RENAMED_node t n)) = ci_key n" "?own (RENAMED_node t n)"
    "entry_type (RENAMED_node t n) \<noteq> INVALID" for n by (simp_all add: RENAMED_node_def CatalogEntry_new_def)
  let ?dropped = "\<lambda>x. \<exists>c v. c \<noteq> [] \<and> chain_at x (ci_key ?old) = Some (v # c) \<and> entry_deleted v \<and> ?own v"
  let ?P = "changes t s s' \<and> (r = Inr True \<longrightarrow> ?dropped s' \<and> (\<exists>c v. chain_at s' (ci_key new) = Some (v # c) \<and> ?own v))"
  obtain s1 r1 where one: "CreateEntryInternal env t ?old (RENAMED_node t ?old) False others s = Some (s1, r1)"
    using CreateEntryInternal_total [OF assms(1) node(1) assms(3)] .
  have c1: "changes t s s1"
    using changes_create(1) [OF assms(1) node(1) assms(3,2) node(2,3) _ one] assms(4,5) by blast
  have ok1: "set_ok s1" using changes_inv [OF c1 assms(2,3)] by blast
  obtain s2 r2 where two: "DropEntryInternal t ?old False s1 = (s2, r2)" by (cases "DropEntryInternal t ?old False s1") auto
  note drop = changes_drop [OF ok1 assms(2) two]
  have c2: "changes t s s2" using changes_trans [OF drop(1) c1] .
  have ok2: "set_ok s2" using changes_inv [OF c2 assms(2,3)] by blast
  obtain s3 r3 where three: "CreateEntryInternal env t new (RENAMED_node t new) True others s2 = Some (s3, r3)"
    using CreateEntryInternal_total [OF assms(1) node(1) ok2] .
  note renamed = changes_create [OF assms(1) node(1) ok2 assms(2) node(2,3) disjI1 [OF TrueI] three]
  have c3: "changes t s s3" using changes_trans [OF renamed(1) c2] .
  have keep: "chain_at s3 (ci_key ?old) = chain_at s2 (ci_key ?old)"
  proof -
    have "ci_key (entry_name (RENAMED_node t new)) = ci_key new" by (rule node)
    then show ?thesis
      using three [unfolded CreateEntryInternal_eq [OF assms(1) node(1) ok2]] assms(6) set_ok_chain [OF ok2]
        dummy_vacant [of s2 new new] link_version_eq(2) [of s2 "RENAMED_node t new" _ t]
        link_version_eq(2) [of "with_dummy new s2" "RENAMED_node t new" _ t]
      by (auto simp: with_dummy_simps chain_ok_def split: option.splits if_splits)
  qed
  have "s' = s \<and> (\<exists>e. r = Inl e) \<or> s' = s1 \<and> r1 \<noteq> Inr True \<and> r = r1 \<or> s' = s2 \<and> r2 \<noteq> Inr True \<and> r = r2 \<or>
      s' = s3 \<and> r = r3 \<and> r2 = Inr True"
    using assms(7) one two three
    by (auto simp: RenameEntryInternal_def Let_def split: if_splits sum.splits option.splits)
  then have ?P
  proof (elim disjE conjE)
    assume 3: "s' = s3" "r = r3" "r2 = Inr True"
    have "?dropped s3" using drop(2) [OF 3(3)] keep by auto
    moreover have "\<exists>c v. chain_at s3 (ci_key new) = Some (v # c) \<and> ?own v" if r3: "r3 = Inr True"
    proof -
      obtain c n where "chain_at s3 (ci_key new) = Some (RENAMED_node t new\<lparr>entry_addr := n\<rparr> # c)"
        using renamed(2) [OF r3] by blast
      then show ?thesis using node(2) by auto
    qed
    ultimately show ?P using 3 c3 by blast
  qed (use c1 c2 changes.stay in auto)
  then show "changes t s s'"
    "r = Inr True \<Longrightarrow> (\<exists>c v. c \<noteq> [] \<and> chain_at s' (ci_key ?old) = Some (v # c) \<and> entry_deleted v \<and> ?own v) \<and>
       (\<exists>c v. chain_at s' (ci_key new) = Some (v # c) \<and> ?own v)" by blast+
qed

lemma link_altered_eq: "running t \<Longrightarrow> link_altered t v s = link_version t v s"
  by (simp add: link_altered_def link_version_def running_def split: sum.split)

lemma altered_value_type:
  assumes "altered_value t info alter e = Inr (Some v)" "\<And>x w. alter x = Inr (Some w) \<Longrightarrow> entry_type w \<noteq> INVALID"
  shows "entry_type v \<noteq> INVALID"
proof (cases "set_comment info")
  case None
  then show ?thesis using assms by (simp add: altered_value_def split: if_splits)
next
  case (Some x)
  then obtain w where "alter e = Inr (Some w)" "v = w\<lparr>entry_comment := x\<rparr>"
    using assms(1) by (cases "alter e") (auto simp: altered_value_def split: if_splits)
  then show ?thesis using assms(2) [of e w] by simp
qed

lemma changes_alter:
  assumes gen: "generator env = None" and t: "running t" and s: "set_ok s"
    and alter: "\<And>x w. alter x = Inr (Some w) \<Longrightarrow> entry_type w \<noteq> INVALID"
    and res: "AlterEntry env t name info alter id alter_object others s = Some (s', r)"
  shows "changes t s s'"
    "r = Inr True \<Longrightarrow> (\<exists>e. visible_entry t name s = Some e \<and> altered_value t info alter e = Inr None) \<or>
       (\<exists>e v n. visible_entry t name s = Some e \<and> altered_value t info alter e = Inr (Some v) \<and>
          visible_version t (chain_at s' (ci_key (entry_name v))) =
            (if entry_deleted v then None else Some (v\<lparr>entry_timestamp := ct_transaction_id t, entry_addr := n\<rparr>)) \<and>
          (ci_key (entry_name v) \<noteq> ci_key name \<longrightarrow> visible_entry t name s' = None))"
proof -
  let ?own = "\<lambda>v. entry_timestamp v = ct_transaction_id t"
  let ?Q = "(\<exists>e. visible_entry t name s = Some e \<and> altered_value t info alter e = Inr None) \<or>
       (\<exists>e v n. visible_entry t name s = Some e \<and> altered_value t info alter e = Inr (Some v) \<and>
          visible_version t (chain_at s' (ci_key (entry_name v))) =
            (if entry_deleted v then None else Some (v\<lparr>entry_timestamp := ct_transaction_id t, entry_addr := n\<rparr>)) \<and>
          (ci_key (entry_name v) \<noteq> ci_key name \<longrightarrow> visible_entry t name s' = None))"
  have "changes t s s' \<and> (r = Inr True \<longrightarrow> ?Q)"
  proof (cases "visible_entry t name s")
    case None
    then show ?thesis using res gen by (auto simp: AlterEntry_def GetEntry_eq changes.stay)
  next
    case (Some e)
    show ?thesis
    proof (cases "altered_value t info alter e")
      case (Inl x)
      then show ?thesis using res gen Some by (auto simp: AlterEntry_def GetEntry_eq changes.stay)
    next
      case (Inr vo)
      show ?thesis
      proof (cases vo)
        case None
        then show ?thesis using res gen Some Inr by (auto simp: AlterEntry_def GetEntry_eq changes.stay)
      next
        case v0: (Some v0)
        let ?v = "v0\<lparr>entry_timestamp := ct_transaction_id t\<rparr>"
        have av: "altered_value t info alter e = Inr (Some v0)" using Inr v0 by simp
        have vt: "entry_type ?v \<noteq> INVALID" "?own ?v" using altered_value_type [OF av alter] by simp_all
        obtain c where c: "chain_at s (ci_key name) = Some c"
          using Some by (cases "chain_at s (ci_key name)") (simp_all add: visible_entry_def)
        have cok: "chain_ok (ci_key name) (next_addr s) c" using set_ok_chain [OF s c] .
        then have ne: "c \<noteq> []" and hdkey: "ci_key (entry_name (hd c)) = ci_key name" by (auto simp: chain_ok_def)
        show ?thesis
        proof (cases "HasConflict t (entry_timestamp (hd c)) \<or> entry_deleted (hd c)")
          case True
          then have "GetEntryInternal t name s = Inr None \<or> (\<exists>x. GetEntryInternal t name s = Inl x)"
            using c by (auto simp: GetEntryInternal_def Map_GetEntry_at Let_def)
          then have "s' = s \<and> r \<noteq> Inr True"
            using res gen Some av by (auto simp: AlterEntry_def GetEntry_eq Let_def)
          then show ?thesis by (simp add: changes.stay)
        next
          case False
          then have intern: "GetEntryInternal t name s = Inr (Some (hd c))"
            using c by (simp add: GetEntryInternal_def Map_GetEntry_at)
          let ?ren = "if \<not> CIEquals (entry_name ?v) (entry_name (hd c))
              then RenameEntryInternal env t (hd c) (entry_name ?v) others s else Some (s, Inr True)"
          have step: "Some (s', r) = (case ?ren of None \<Rightarrow> None
                     | Some (s3, Inl e) \<Rightarrow> Some (s3, Inl e)
                     | Some (s3, Inr renamed) \<Rightarrow>
                         if \<not> renamed then Some (s3, Inr False)
                         else
                           (case link_altered t ?v s3 of
                              (s4, Inl e) \<Rightarrow> Some (s4, Inl e)
                            | (s4, Inr altered) \<Rightarrow>
                                Some (s4, (case alter_object of Some e \<Rightarrow> Inl e | None \<Rightarrow> Inr True))))"
            using res gen Some av intern by (simp add: AlterEntry_def GetEntry_eq Let_def)
          then obtain s3 r3 where ren: "?ren = Some (s3, r3)" by (cases ?ren) auto
          have mid: "changes t s s3 \<and> (r3 = Inr True \<longrightarrow>
              (\<exists>c'. c' \<noteq> [] \<and> chain_at s3 (ci_key (entry_name ?v)) = Some c' \<and> \<not> HasConflict t (entry_timestamp (hd c'))) \<and>
              (ci_key (entry_name ?v) \<noteq> ci_key name \<longrightarrow> (\<exists>c' w. c' \<noteq> [] \<and> chain_at s3 (ci_key name) = Some (w # c') \<and> entry_deleted w \<and> ?own w)))"
          proof (cases "CIEquals (entry_name ?v) (entry_name (hd c))")
            case True
            then show ?thesis using ren c ne False hdkey by (auto simp: CIEquals_key changes.stay)
          next
            case False2: False
            have R: "RenameEntryInternal env t (hd c) (entry_name ?v) others s = Some (s3, r3)" using ren False2 by simp
            have k: "ci_key (entry_name ?v) \<noteq> ci_key (entry_name (hd c))" using False2 by (simp add: CIEquals_key)
            have cc: "chain_at s (ci_key (entry_name (hd c))) = Some c" using c hdkey by simp
            have nc: "\<not> HasConflict t (entry_timestamp (hd c))" using False by simp
            note rn = changes_rename [OF gen t s cc nc k R]
            then show ?thesis using no_conflict_own [OF t] hdkey by fastforce
          qed
          show ?thesis
          proof (cases "r3 = Inr True")
            case False
            then show ?thesis using step ren mid by (auto split: sum.splits)
          next
            case True
            then obtain c' where c': "c' \<noteq> []" "chain_at s3 (ci_key (entry_name ?v)) = Some c'" "\<not> HasConflict t (entry_timestamp (hd c'))"
              using mid by blast
            have "s' = linked t ?v s3" "r = (case alter_object of Some e \<Rightarrow> Inl e | None \<Rightarrow> Inr True)"
              using step ren True link_version_eq(1) [OF c'(2,1), of t] t by (auto simp: link_altered_eq)
            moreover have "changes t s (linked t ?v s3)" using mid c' vt by (intro changes.link) auto
            moreover have "visible_version t (chain_at (linked t ?v s3) (ci_key (entry_name v0))) =
                (if entry_deleted v0 then None else Some (?v\<lparr>entry_addr := next_addr s3\<rparr>))"
              using link_version_eq(2) [OF c'(2,1), of t] c'(1) by (simp add: visible_link UseTimestamp_def del: visible_version.simps)
            moreover have "visible_entry t name (linked t ?v s3) = None" if d: "ci_key (entry_name v0) \<noteq> ci_key name"
            proof -
              obtain c2 w where "c2 \<noteq> []" "chain_at s3 (ci_key name) = Some (w # c2)" "entry_deleted w" "?own w"
                using mid True d by auto
              then show ?thesis
                using link_version_eq(2) [OF c'(2,1), of t] d
                by (simp add: visible_entry_def visible_link UseTimestamp_def del: visible_version.simps)
            qed
            ultimately show ?thesis using Some av by auto
          qed
        qed
      qed
    qed
  qed
  then show "changes t s s'" "r = Inr True \<Longrightarrow> ?Q" by blast+
qed

section \<open>References\<close>

lemma chain_ok_distinct: "chain_ok k n c \<Longrightarrow> distinct (map entry_addr c)"
proof -
  have "sorted_wrt newer_than c \<Longrightarrow> distinct (map entry_addr c)" by (induction c) (auto simp: newer_than_def)
  then show "chain_ok k n c \<Longrightarrow> distinct (map entry_addr c)" by (simp add: chain_ok_def)
qed

lemma resolve_nth:
  assumes "chain_at s k = Some c" "distinct (map entry_addr c)" "i < length c"
  shows "resolve (k, entry_addr (c ! i)) s = Inr (take i c, c ! i, drop (Suc i) c)"
proof -
  have ne: "entry_addr (c ! j) \<noteq> entry_addr (c ! i)" if "j < i" for j
    using that assms(2,3) by (auto simp: distinct_conv_nth)
  have tw: "takeWhile (\<lambda>e. entry_addr e \<noteq> entry_addr (c ! i)) c = take i c"
    using ne assms(3) by (intro takeWhile_eq_take_P_nth) auto
  have "dropWhile (\<lambda>e. entry_addr e \<noteq> entry_addr (c ! i)) c = drop i c"
    using tw assms(3) by (simp add: dropWhile_eq_drop)
  then show ?thesis
    using tw assms by (simp add: resolve_def chain_at_def Cons_nth_drop_Suc [symmetric])
qed

lemma Parent_ref_nth:
  assumes "chain_at s k = Some c" "distinct (map entry_addr c)" "Suc i < length c"
  shows "Parent_ref (k, entry_addr (c ! Suc i)) s = Inr (k, entry_addr (c ! i))"
  using resolve_nth [OF assms] assms(3) by (auto simp: Parent_ref_def last_conv_nth)

definition same_but_entries :: "CatalogSet \<Rightarrow> CatalogSet \<Rightarrow> bool" where
  "same_but_entries s s' \<longleftrightarrow> next_addr s' = next_addr s \<and> undo_buffers s' = undo_buffers s \<and>
     created_all_entries s' = created_all_entries s"

lemma same_but_entries_trans: "same_but_entries s1 s2 \<Longrightarrow> same_but_entries s2 s3 \<Longrightarrow> same_but_entries s1 s3"
  by (simp add: same_but_entries_def)

lemma DropEntry_nth:
  assumes "chain_at s k = Some c" "distinct (map entry_addr c)" "i < length c"
  obtains s' where "Map_DropEntry (k, entry_addr (c ! i)) s = Inr s'" "same_but_entries s s'" "keys_ok s \<Longrightarrow> keys_ok s'"
    "chain_at s' = (chain_at s)(k := if length c = 1 then None else Some (take i c @ drop (Suc i) c))"
proof -
  have empty: "take i c = [] \<longleftrightarrow> i = 0" using assms(3) by auto
  have res: "Map_DropEntry (k, entry_addr (c ! i)) s = Inr (if length c = 1
      then s\<lparr>entries := AList.delete k (entries s)\<rparr>
      else s\<lparr>entries := AList.update k (take i c @ drop (Suc i) c) (entries s)\<rparr>)"
    using resolve_nth [OF assms] assms(3) by (auto simp: Map_DropEntry_def empty)
  show thesis
  proof (rule that [OF res])
    show "same_but_entries s (if length c = 1 then s\<lparr>entries := AList.delete k (entries s)\<rparr>
        else s\<lparr>entries := AList.update k (take i c @ drop (Suc i) c) (entries s)\<rparr>)" by (simp add: same_but_entries_def)
    show "keys_ok (if length c = 1 then s\<lparr>entries := AList.delete k (entries s)\<rparr>
        else s\<lparr>entries := AList.update k (take i c @ drop (Suc i) c) (entries s)\<rparr>)" if "keys_ok s"
      using that assms(1) by (simp add: keys_ok_delete keys_ok_update)
  qed (simp add: chain_at_def [of "_\<lparr>entries := _\<rparr>"] chain_at_delete chain_at_update)
qed

section \<open>Rolling back\<close>

fun UndoEntries :: "entry_ref list \<Rightarrow> CatalogSet \<Rightarrow> CatalogSet result" where
  "UndoEntries [] s = Inr s"
| "UndoEntries (r # refs) s = (case Undo r s of Inl e \<Rightarrow> Inl e | Inr s1 \<Rightarrow> UndoEntries refs s1)"

text \<open>The chain without the versions of a transaction, and without the dummy that started the chain for it.\<close>

fun aborted :: "transaction_t \<Rightarrow> chain option \<Rightarrow> chain option" where
  "aborted u None = None"
| "aborted u (Some c) =
     (let rest = dropWhile (\<lambda>e. entry_timestamp e = u) c
      in if own u c > 0 \<and> entry_type (hd rest) = INVALID then None else Some rest)"

lemma Undo_top:
  assumes "set_ok s" "chain_at s k = Some (v # e # older)"
  obtains s' where "Undo (k, entry_addr e) s = Inr s'" "same_but_entries s s'" "set_ok s'"
    "chain_at s' = (chain_at s)(k := if entry_type e = INVALID then None else Some (e # older))"
proof -
  let ?c = "v # e # older"
  have ok: "chain_ok k (next_addr s) ?c" using set_ok_chain [OF assms] .
  note d = chain_ok_distinct [OF ok]
  have par: "Parent_ref (k, entry_addr e) s = Inr (k, entry_addr v)" using Parent_ref_nth [OF assms(2) d, of 0] by simp
  have res: "resolve (k, entry_addr e) s = Inr ([v], e, older)" using resolve_nth [OF assms(2) d, of 1] by simp
  obtain s1 where s1: "Map_DropEntry (k, entry_addr v) s = Inr s1" "same_but_entries s s1" "keys_ok s1"
    "chain_at s1 = (chain_at s)(k \<mapsto> e # older)"
    using DropEntry_nth [OF assms(2) d, of 0] assms(1) by (auto simp: set_ok_def)
  have old: "chain_ok k (next_addr s) (e # older)" using ok by (auto simp: chain_ok_def one_writer_def)
  have ok1: "set_ok s1" using s1 assms(1) old by (auto simp: set_ok_def same_but_entries_def)
  show thesis
  proof (cases "entry_type e = INVALID")
    case False
    then show ?thesis using that [of s1] s1 ok1 par res by (simp add: Undo_def)
  next
    case True
    then have "older = []" using old by (cases older) (auto simp: chain_ok_def newer_than_def)
    then have c1: "chain_at s1 k = Some [e]" using s1(4) by simp
    obtain s2 where s2: "Map_DropEntry (k, entry_addr e) s1 = Inr s2" "same_but_entries s1 s2" "keys_ok s2"
      "chain_at s2 = (chain_at s1)(k := None)"
      using DropEntry_nth [OF c1, of 0] s1(3) by auto
    have "set_ok s2" using s2 ok1 by (auto simp: set_ok_def same_but_entries_def split: if_splits)
    moreover have "chain_at s2 = (chain_at s)(k := None)" using s2(4) s1(4) by simp
    ultimately show ?thesis
      using that [of s2] s1 s2 par res True same_but_entries_trans by (simp add: Undo_def)
  qed
qed

lemma own_drop: "0 < own u c \<Longrightarrow> own u c = Suc (own u (tl c))"
  by (cases c) (auto simp: own_Cons split: if_splits)

lemma UndoEntries_aborts:
  assumes "set_ok s" "refs_ok u refs s" "\<not> IsCommitted u"
  obtains s' where "UndoEntries (rev refs) s = Inr s'" "same_but_entries s s'" "set_ok s'"
    "chain_at s' = (\<lambda>k. aborted u (chain_at s k))"
  using assms
proof (induction refs arbitrary: s thesis rule: rev_induct)
  case Nil
  have "aborted u (chain_at s k) = chain_at s k" for k
  proof (cases "chain_at s k")
    case (Some c)
    have "rev (map (\<lambda>e. (k, entry_addr e)) (take (own u c) (tl c))) = []" "own u c < length c"
      using Nil.prems(3) Some unfolding refs_ok_def by (auto dest: spec [of _ k])
    then have "own u c = 0" by (cases c) auto
    then show ?thesis using Some by (cases c) (auto simp: own_Cons split: if_splits)
  qed simp
  then show ?case using Nil.prems(1) [of s] Nil.prems(2) by (simp add: same_but_entries_def)
next
  case (snoc r refs)
  obtain k a where r: "r = (k, a)" by (cases r)
  have flt: "filter (\<lambda>r. fst r = k) refs @ [r] = own_refs u k (chain_at s k)"
    using snoc.prems(3) r by (auto simp: refs_ok_def dest: spec [of _ k])
  then obtain c where c: "chain_at s k = Some c" by (cases "chain_at s k") auto
  have len: "own u c < length c" using snoc.prems(3) c by (auto simp: refs_ok_def)
  have pos: "0 < own u c" using flt c by (cases "own u c") auto
  then obtain v e older where ces: "c = v # e # older" using len by (cases c; cases "tl c") auto
  have v: "entry_timestamp v = u" using pos ces by (simp add: own_Cons split: if_splits)
  have n: "own u c = Suc (own u (e # older))" using v ces by (simp add: own_Cons)
  have re: "r = (k, entry_addr e)" and rest: "filter (\<lambda>r. fst r = k) refs = own_refs u k (Some (e # older))"
    using flt c ces n by (auto simp: r)
  obtain s1 where s1: "Undo r s = Inr s1" "same_but_entries s s1" "set_ok s1"
    "chain_at s1 = (chain_at s)(k := if entry_type e = INVALID then None else Some (e # older))"
    using Undo_top [OF snoc.prems(2) c [unfolded ces]] re by blast
  have ok: "chain_ok k (next_addr s) c" using set_ok_chain [OF snoc.prems(2) c] .
  have dummy: "older = [] \<and> own u (e # older) = 0" if "entry_type e = INVALID"
  proof -
    have "older = []" using ok ces that by (cases older) (auto simp: chain_ok_def newer_than_def)
    then show ?thesis using len n ces by simp
  qed
  have "refs_ok u refs s1" unfolding refs_ok_def
  proof (intro allI)
    fix k'
    show "filter (\<lambda>r. fst r = k') refs = own_refs u k' (chain_at s1 k') \<and> (\<forall>c. chain_at s1 k' = Some c \<longrightarrow> own u c < length c)"
    proof (cases "k' = k")
      case True
      then show ?thesis using rest dummy len n ces s1(4) by auto
    next
      case False
      then show ?thesis using snoc.prems(3) s1(4) r by (auto simp: refs_ok_def dest: spec [of _ k'])
    qed
  qed
  from snoc.IH [OF _ s1(3) this snoc.prems(4)] obtain s2 where
    s2: "UndoEntries (rev refs) s1 = Inr s2" "same_but_entries s1 s2" "set_ok s2" "chain_at s2 = (\<lambda>k. aborted u (chain_at s1 k))"
    by blast
  have "aborted u (chain_at s1 k') = aborted u (chain_at s k')" for k'
    using s1(4) c ces v n dummy by (auto simp: own_Cons Let_def)
  then show ?case
    using snoc.prems(1) [of s2] s1 s2 same_but_entries_trans by auto
qed

section \<open>Committing\<close>

text \<open>
  Before the version above a reference is stamped, the dependency manager may object: to a dependency
  whose object is gone, and to a drop of something a dependency has been committed for. Its answer is the
  argument \<open>verify\<close>, of the new and the old entry. After the stamp the blocks of what was dropped or
  altered are given back to the storage, which may fail too: its answer is the argument \<open>drop_blocks\<close>.
\<close>

definition CommitEntry ::
  "(CatalogEntry \<Rightarrow> CatalogEntry \<Rightarrow> exn option) \<Rightarrow> (CatalogEntry \<Rightarrow> CatalogEntry \<Rightarrow> exn option) \<Rightarrow> transaction_t \<Rightarrow>
   entry_ref \<Rightarrow> CatalogSet \<Rightarrow> CatalogSet \<times> exn option" where
  "CommitEntry verify drop_blocks cid r s =
     (case resolve r s of
        Inl e \<Rightarrow> (s, Some e)
      | Inr (newer, old_entry, older) \<Rightarrow>
          if newer = [] then (s, Some (InternalException ''entry without a parent''))
          else
            let new_entry = last newer in
            (case (if entry_type new_entry = DEPENDENCY_ENTRY \<or> entry_type new_entry = DELETED_ENTRY
                   then verify new_entry old_entry else None) of
               Some e \<Rightarrow> (s, Some e)
             | None \<Rightarrow> (UpdateTimestamp (fst r, entry_addr new_entry) cid s, drop_blocks new_entry old_entry)))"

text \<open>The set, the references visited, the one that failed included, and the error.\<close>

fun CommitEntries ::
  "(CatalogEntry \<Rightarrow> CatalogEntry \<Rightarrow> exn option) \<Rightarrow> (CatalogEntry \<Rightarrow> CatalogEntry \<Rightarrow> exn option) \<Rightarrow> transaction_t \<Rightarrow>
   entry_ref list \<Rightarrow> CatalogSet \<Rightarrow> CatalogSet \<times> entry_ref list \<times> exn option" where
  "CommitEntries verify drop_blocks cid [] s = (s, [], None)"
| "CommitEntries verify drop_blocks cid (r # refs) s =
     (case CommitEntry verify drop_blocks cid r s of
        (s1, Some e) \<Rightarrow> (s1, [r], Some e)
      | (s1, None) \<Rightarrow> (let (s2, visited, e) = CommitEntries verify drop_blocks cid refs s1 in (s2, r # visited, e)))"

text \<open>
  After a commit that failed half way the references it visited are gone through again and the versions
  above them get the id of the transaction back. The entry itself gets it too where its name is not
  spelled as that of the version above.
\<close>

definition RevertEntry :: "transaction_t \<Rightarrow> entry_ref \<Rightarrow> CatalogSet \<Rightarrow> CatalogSet result" where
  "RevertEntry tid r s =
     (case resolve r s of
        Inl e \<Rightarrow> Inl e
      | Inr (newer, entry, older) \<Rightarrow>
          if newer = [] then Inl (InternalException ''entry without a parent'')
          else
            let parent = last newer;
                s1 = UpdateTimestamp (fst r, entry_addr parent) tid s
            in Inr (if entry_name entry \<noteq> entry_name parent then UpdateTimestamp r tid s1 else s1))"

fun RevertEntries :: "transaction_t \<Rightarrow> entry_ref list \<Rightarrow> CatalogSet \<Rightarrow> CatalogSet result" where
  "RevertEntries tid [] s = Inr s"
| "RevertEntries tid (r # refs) s =
     (case RevertEntry tid r s of Inl e \<Rightarrow> Inl e | Inr s1 \<Rightarrow> RevertEntries tid refs s1)"

text \<open>What a commit does when nothing fails, and a revert when the names are spelled alike.\<close>

fun stamp_all :: "transaction_t \<Rightarrow> entry_ref list \<Rightarrow> CatalogSet \<Rightarrow> CatalogSet result" where
  "stamp_all cid [] s = Inr s"
| "stamp_all cid (r # refs) s =
     (case Parent_ref r s of Inl e \<Rightarrow> Inl e | Inr parent \<Rightarrow> stamp_all cid refs (UpdateTimestamp parent cid s))"

lemma CommitEntry_stamps:
  "CommitEntry verify drop_blocks cid r s = (s1, error) \<Longrightarrow>
   (s1 = s \<and> error \<noteq> None) \<or> (\<exists>p. Parent_ref r s = Inr p \<and> s1 = UpdateTimestamp p cid s)"
  by (auto simp: CommitEntry_def Parent_ref_def Let_def split: sum.splits if_splits option.splits) metis+

lemma CommitEntry_none:
  "Parent_ref r s = Inr p \<Longrightarrow> CommitEntry (\<lambda>n e. None) (\<lambda>n e. None) cid r s = (UpdateTimestamp p cid s, None)"
  by (auto simp: CommitEntry_def Parent_ref_def split: sum.splits if_splits)

lemma CommitEntries_ok:
  "CommitEntries verify drop_blocks cid refs s = (s', visited, None) \<Longrightarrow> stamp_all cid refs s = Inr s' \<and> visited = refs"
proof (induction refs arbitrary: s visited)
  case (Cons r refs)
  then show ?case by (auto split: sum.splits prod.splits option.splits dest!: CommitEntry_stamps)
qed simp

lemma CommitEntries_none:
  "stamp_all cid refs s = Inr s' \<Longrightarrow> CommitEntries (\<lambda>n e. None) (\<lambda>n e. None) cid refs s = (s', refs, None)"
  by (induction refs arbitrary: s) (auto simp: CommitEntry_none split: sum.splits)

text \<open>Wherever a commit stops, it has stamped the parents of references it visited, and of no others.\<close>

lemma CommitEntries_prefix:
  "CommitEntries verify drop_blocks cid refs s = (s', visited, error) \<Longrightarrow>
   \<exists>dn. stamp_all cid dn s = Inr s' \<and> set dn \<subseteq> set visited \<and> set visited \<subseteq> set refs"
proof (induction refs arbitrary: s visited)
  case (Cons r refs)
  obtain s1 e where one: "CommitEntry verify drop_blocks cid r s = (s1, e)" by (cases "CommitEntry verify drop_blocks cid r s")
  show ?case
  proof (cases e)
    case None
    obtain p where p: "Parent_ref r s = Inr p" "s1 = UpdateTimestamp p cid s" using CommitEntry_stamps [OF one] None by blast
    obtain v where v: "CommitEntries verify drop_blocks cid refs s1 = (s', v, error)" "visited = r # v"
      using Cons.prems one None by (auto split: prod.splits)
    obtain dn where "stamp_all cid dn s1 = Inr s'" "set dn \<subseteq> set v" "set v \<subseteq> set refs" using Cons.IH [OF v(1)] by blast
    then show ?thesis using p v(2) by (intro exI [of _ "r # dn"]) auto
  next
    case (Some x)
    then have "s' = s1" "visited = [r]" using Cons.prems one by auto
    then show ?thesis using CommitEntry_stamps [OF one] by (auto intro: exI [of _ "[]"] exI [of _ "[r]"])
  qed
qed simp

definition stamped :: "(CatalogEntry \<Rightarrow> bool) \<Rightarrow> transaction_t \<Rightarrow> chain \<Rightarrow> chain" where
  "stamped P cid c = map (\<lambda>e. if P e then e\<lparr>entry_timestamp := cid\<rparr> else e) c"

lemma stamped_addr [simp]: "map entry_addr (stamped P cid c) = map entry_addr c"
  by (simp add: stamped_def)

lemma length_stamped [simp]: "length (stamped P cid c) = length c"
  by (simp add: stamped_def)

lemma nth_stamped_addr: "i < length c \<Longrightarrow> entry_addr (stamped P cid c ! i) = entry_addr (c ! i)"
  by (simp add: stamped_def)

lemma UpdateTimestamp_effect:
  assumes "chain_at s k = Some c"
  shows "chain_at (UpdateTimestamp (k, a) cid s) = (chain_at s)(k \<mapsto> stamped (\<lambda>e. entry_addr e = a) cid c)"
    and "same_but_entries s (UpdateTimestamp (k, a) cid s)"
    and "keys_ok s \<Longrightarrow> keys_ok (UpdateTimestamp (k, a) cid s)"
proof -
  have eq: "UpdateTimestamp (k, a) cid s = s\<lparr>entries := AList.update k (stamped (\<lambda>e. entry_addr e = a) cid c) (entries s)\<rparr>"
    using assms by (simp add: UpdateTimestamp_def chain_at_def stamped_def)
  show "chain_at (UpdateTimestamp (k, a) cid s) = (chain_at s)(k \<mapsto> stamped (\<lambda>e. entry_addr e = a) cid c)"
    unfolding eq by (simp add: chain_at_def [of "_\<lparr>entries := _\<rparr>"] chain_at_update)
  show "same_but_entries s (UpdateTimestamp (k, a) cid s)" by (simp add: eq same_but_entries_def)
  show "keys_ok s \<Longrightarrow> keys_ok (UpdateTimestamp (k, a) cid s)" unfolding eq using assms by (simp add: keys_ok_update)
qed

text \<open>The versions whose child is referenced.\<close>

definition parent_addrs :: "CatalogSet \<Rightarrow> entry_ref list \<Rightarrow> entry_ref set" where
  "parent_addrs s refs = {(k, entry_addr (c ! i)) | k c i.
     chain_at s k = Some c \<and> Suc i < length c \<and> (k, entry_addr (c ! Suc i)) \<in> set refs}"

definition stamped_set :: "entry_ref set \<Rightarrow> transaction_t \<Rightarrow> CatalogSet \<Rightarrow> string \<Rightarrow> chain option" where
  "stamped_set D cid s k = map_option (stamped (\<lambda>e. (k, entry_addr e) \<in> D) cid) (chain_at s k)"

lemma stamp_all_effect:
  assumes "\<forall>k c. chain_at s0 k = Some c \<longrightarrow> distinct (map entry_addr c)" "chain_at s = stamped_set D cid s0"
    and "\<forall>r\<in>set refs. \<exists>c i. chain_at s0 (fst r) = Some c \<and> Suc i < length c \<and> snd r = entry_addr (c ! Suc i)"
  obtains s' where "stamp_all cid refs s = Inr s'" "chain_at s' = stamped_set (D \<union> parent_addrs s0 refs) cid s0"
    "same_but_entries s s'" "keys_ok s \<Longrightarrow> keys_ok s'"
  using assms(2,3)
proof (induction refs arbitrary: s D thesis)
  case Nil
  show ?case by (rule Nil.prems(1) [of s]) (use Nil in \<open>simp_all add: parent_addrs_def same_but_entries_def\<close>)
next
  case (Cons r refs)
  obtain k a where r: "r = (k, a)" by (cases r)
  obtain c i where c: "chain_at s0 k = Some c" "Suc i < length c" "a = entry_addr (c ! Suc i)" using Cons.prems(3) r by auto
  have d: "distinct (map entry_addr c)" using assms(1) c(1) by blast
  let ?c = "stamped (\<lambda>e. (k, entry_addr e) \<in> D) cid c"
  have cs: "chain_at s k = Some ?c" using Cons.prems(2) c(1) by (simp add: stamped_set_def)
  have par: "Parent_ref r s = Inr (k, entry_addr (c ! i))"
    using Parent_ref_nth [OF cs, of i] d c(2,3) r by (simp add: nth_stamped_addr)
  let ?s1 = "UpdateTimestamp (k, entry_addr (c ! i)) cid s"
  note up = UpdateTimestamp_effect [OF cs, of "entry_addr (c ! i)" cid]
  let ?D = "insert (k, entry_addr (c ! i)) D"
  have s1: "chain_at ?s1 = stamped_set ?D cid s0"
  proof
    fix k'
    show "chain_at ?s1 k' = stamped_set ?D cid s0 k'"
      using Cons.prems(2) c(1) by (cases "k' = k") (auto simp: up(1) stamped_set_def stamped_def intro: option.map_cong)
  qed
  have one: "(k', entry_addr (c' ! j)) = (k, entry_addr (c ! i))"
    if "chain_at s0 k' = Some c'" "Suc j < length c'" "(k', entry_addr (c' ! Suc j)) = r" for k' c' j
  proof -
    have "k' = k" "c' = c" using that c(1) r by auto
    then have "Suc j = Suc i" using that(2,3) c d r by (auto simp: distinct_conv_nth) 
    then show ?thesis using \<open>k' = k\<close> \<open>c' = c\<close> by simp
  qed
  have "parent_addrs s0 (r # refs) = insert (k, entry_addr (c ! i)) (parent_addrs s0 refs)"
  proof (intro set_eqI iffI)
    fix x
    assume "x \<in> parent_addrs s0 (r # refs)"
    then obtain k' c' j where x: "x = (k', entry_addr (c' ! j))" "chain_at s0 k' = Some c'" "Suc j < length c'"
      "(k', entry_addr (c' ! Suc j)) \<in> set (r # refs)" by (auto simp: parent_addrs_def)
    show "x \<in> insert (k, entry_addr (c ! i)) (parent_addrs s0 refs)"
    proof (cases "(k', entry_addr (c' ! Suc j)) = r")
      case True
      then show ?thesis using one [OF x(2,3)] x(1) by blast
    next
      case False
      then have "(k', entry_addr (c' ! Suc j)) \<in> set refs" using x(4) by simp
      then show ?thesis using x(1-3) unfolding parent_addrs_def by blast
    qed
  next
    fix x
    assume "x \<in> insert (k, entry_addr (c ! i)) (parent_addrs s0 refs)"
    then show "x \<in> parent_addrs s0 (r # refs)"
    proof
      assume "x = (k, entry_addr (c ! i))"
      then show ?thesis using c r unfolding parent_addrs_def by auto
    next
      assume "x \<in> parent_addrs s0 refs"
      then show ?thesis unfolding parent_addrs_def by auto
    qed
  qed
  then have D: "?D \<union> parent_addrs s0 refs = D \<union> parent_addrs s0 (r # refs)" by auto
  obtain s2 where s2: "stamp_all cid refs ?s1 = Inr s2" "chain_at s2 = stamped_set (?D \<union> parent_addrs s0 refs) cid s0"
    "same_but_entries ?s1 s2" "keys_ok ?s1 \<Longrightarrow> keys_ok s2"
    using Cons.IH [OF _ s1] Cons.prems(3) by auto
  show ?case
    by (rule Cons.prems(1) [of s2])
      (use s2 up par D same_but_entries_trans in auto)
qed

lemma own_versions:
  assumes "chain_ok k n c" "\<not> IsCommitted u" "i < length c"
  shows "entry_timestamp (c ! i) = u \<longleftrightarrow> i < own u c"
proof
  assume "i < own u c"
  then show "entry_timestamp (c ! i) = u"
    unfolding own_def using nth_mem set_takeWhileD takeWhile_nth by fastforce
next
  assume ts: "entry_timestamp (c ! i) = u"
  show "i < own u c"
  proof (rule ccontr)
    assume not: "\<not> i < own u c"
    let ?j = "own u c"
    have j: "entry_timestamp (c ! ?j) \<noteq> u" "?j < length c"
      using nth_length_takeWhile [of "\<lambda>e. entry_timestamp e = u" c] not assms(3) by (auto simp: own_def)
    have "?j < i" using not ts j by (cases "?j = i") auto
    then have "newer_than (c ! ?j) (c ! i)" using assms(1,3) by (auto simp: chain_ok_def sorted_wrt_iff_nth_less)
    then have "\<not> IsCommitted (entry_timestamp (c ! ?j))" using ts assms(2) by (auto simp: newer_than_def IsCommitted_def)
    then show False using assms j ts nth_mem [OF assms(3)] nth_mem [OF j(2)] by (auto simp: chain_ok_def one_writer_def)
  qed
qed

lemma refs_of_own:
  assumes "refs_ok u refs s" "chain_at s k = Some c"
  shows "(k, a) \<in> set refs \<longleftrightarrow> (\<exists>i < own u c. a = entry_addr (c ! Suc i))"
proof -
  have len: "own u c < length c" and flt: "filter (\<lambda>r. fst r = k) refs = rev (map (\<lambda>e. (k, entry_addr e)) (take (own u c) (tl c)))"
    using assms unfolding refs_ok_def by (auto dest: spec [of _ k])
  have "(k, a) \<in> set refs \<longleftrightarrow> (k, a) \<in> set (filter (\<lambda>r. fst r = k) refs)" by simp
  also have "\<dots> \<longleftrightarrow> a \<in> entry_addr ` set (take (own u c) (tl c))" unfolding flt by auto
  also have "\<dots> \<longleftrightarrow> (\<exists>i < own u c. a = entry_addr (c ! Suc i))"
    using len by (auto simp: set_conv_nth image_iff nth_tl)
  finally show ?thesis .
qed

definition commit_before :: "transaction_t \<Rightarrow> CatalogSet \<Rightarrow> bool" where
  "commit_before clock s \<longleftrightarrow>
     (\<forall>k c. chain_at s k = Some c \<longrightarrow> (\<forall>e\<in>set c. IsCommitted (entry_timestamp e) \<longrightarrow> entry_timestamp e < clock))"

lemma chain_ok_stamped:
  assumes "chain_ok k n c" "\<not> IsCommitted u" "IsCommitted cid"
    and "\<forall>e\<in>set c. IsCommitted (entry_timestamp e) \<longrightarrow> entry_timestamp e < cid"
  shows "chain_ok k n (stamped (\<lambda>e. entry_timestamp e = u) cid c)"
proof -
  let ?f = "\<lambda>e. if entry_timestamp e = u then e\<lparr>entry_timestamp := cid\<rparr> else e"
  have w: "\<forall>e\<in>set c. \<forall>f\<in>set c. \<not> IsCommitted (entry_timestamp e) \<longrightarrow> \<not> IsCommitted (entry_timestamp f) \<longrightarrow> entry_timestamp e = entry_timestamp f"
    using assms(1) by (simp add: chain_ok_def one_writer_def)
  have keep: "newer_than (?f e) (?f f)" if "e \<in> set c" "f \<in> set c" "newer_than e f" for e f
  proof (cases "entry_timestamp e = u")
    case True
    then show ?thesis using that assms(2,4) w by (auto simp: newer_than_def order_less_imp_le)
  next
    case False
    have "entry_timestamp f \<noteq> u"
    proof
      assume fu: "entry_timestamp f = u"
      then have "\<not> IsCommitted (entry_timestamp e)" using that(3) assms(2) by (auto simp: newer_than_def IsCommitted_def)
      then show False using w that fu assms(2) False by metis
    qed
    then show ?thesis using False that(3) by simp
  qed
  have "sorted_wrt newer_than (map ?f c)"
    using sorted_wrt_mono_rel [of c newer_than "\<lambda>e f. newer_than (?f e) (?f f)"] keep assms(1)
    by (simp add: sorted_wrt_map chain_ok_def del: if_split)
  moreover have "one_writer (map ?f c)"
    unfolding one_writer_def set_map ball_simps using w assms(3) by simp
  ultimately show ?thesis using assms(1) by (auto simp: chain_ok_def stamped_def)
qed

lemma refs_resolve:
  assumes "refs_ok u refs s"
  shows "\<forall>r\<in>set refs. \<exists>c i. chain_at s (fst r) = Some c \<and> Suc i < length c \<and> snd r = entry_addr (c ! Suc i)"
proof
  fix r
  assume r: "r \<in> set refs"
  show "\<exists>c i. chain_at s (fst r) = Some c \<and> Suc i < length c \<and> snd r = entry_addr (c ! Suc i)"
  proof (cases "chain_at s (fst r)")
    case None
    then have "filter (\<lambda>q. fst q = fst r) refs = []" using assms unfolding refs_ok_def by (auto dest: spec [of _ "fst r"])
    then show ?thesis using r by (auto simp: filter_empty_conv)
  next
    case (Some c)
    have "own u c < length c" using assms Some unfolding refs_ok_def by blast
    moreover have "(fst r, snd r) \<in> set refs" using r by simp
    then obtain i where "i < own u c" "snd r = entry_addr (c ! Suc i)"
      unfolding refs_of_own [OF assms Some] by blast
    ultimately show ?thesis using Some by (intro exI [of _ c] exI [of _ i]) simp
  qed
qed

lemma set_ok_distinct: "set_ok s \<Longrightarrow> \<forall>k c. chain_at s k = Some c \<longrightarrow> distinct (map entry_addr c)"
  using chain_ok_distinct set_ok_chain by blast

lemma parent_addrs_own:
  assumes "set_ok s" "refs_ok u refs s" "\<not> IsCommitted u" "chain_at s k = Some c" "i < length c"
  shows "(k, entry_addr (c ! i)) \<in> parent_addrs s refs \<longleftrightarrow> entry_timestamp (c ! i) = u"
proof -
  have ok: "chain_ok k (next_addr s) c" using set_ok_chain [OF assms(1) assms(4)] .
  have len: "own u c < length c" using assms(2) assms(4) unfolding refs_ok_def by blast
  have inj: "i = j" if "i < length c" "j < length c" "entry_addr (c ! i) = entry_addr (c ! j)" for i j
  using that chain_ok_distinct [OF ok] by (auto simp: distinct_conv_nth)
  have "(k, entry_addr (c ! i)) \<in> parent_addrs s refs \<longleftrightarrow> Suc i < length c \<and> (k, entry_addr (c ! Suc i)) \<in> set refs"
    using assms(4,5) inj unfolding parent_addrs_def by (auto dest: Suc_lessD)
  also have "\<dots> \<longleftrightarrow> i < own u c"
  proof
    assume a: "Suc i < length c \<and> (k, entry_addr (c ! Suc i)) \<in> set refs"
    then obtain j where j: "j < own u c" "entry_addr (c ! Suc i) = entry_addr (c ! Suc j)"
      unfolding refs_of_own [OF assms(2) assms(4)] by blast
    then have "Suc i = Suc j" using inj [of "Suc i" "Suc j"] a len by linarith
    then show "i < own u c" using j(1) by simp
  next
    assume i: "i < own u c"
    then have "Suc i < length c" using len by linarith
    then show "Suc i < length c \<and> (k, entry_addr (c ! Suc i)) \<in> set refs"
      unfolding refs_of_own [OF assms(2) assms(4)] using i by blast
  qed
  also have "\<dots> \<longleftrightarrow> entry_timestamp (c ! i) = u" using own_versions [OF ok assms(3,5)] by simp
  finally show ?thesis .
qed

lemma stamped_none: "chain_at s = stamped_set {} cid s"
proof
  show "chain_at s k = stamped_set {} cid s k" for k by (cases "chain_at s k") (simp_all add: stamped_set_def stamped_def)
qed

lemma stamp_all_own:
  assumes "set_ok s" "refs_ok u refs s" "\<not> IsCommitted u" "IsCommitted cid" "commit_before cid s"
  obtains s' where "stamp_all cid refs s = Inr s'" "same_but_entries s s'" "set_ok s'"
    "\<And>k. chain_at s' k = map_option (stamped (\<lambda>e. entry_timestamp e = u) cid) (chain_at s k)"
proof -
  from stamp_all_effect [OF set_ok_distinct [OF assms(1)] stamped_none refs_resolve [OF assms(2)]] obtain s' where s': "stamp_all cid refs s = Inr s'" "chain_at s' = stamped_set ({} \<union> parent_addrs s refs) cid s"
    "same_but_entries s s'" "keys_ok s \<Longrightarrow> keys_ok s'"
    by blast
  have eff: "chain_at s' k = map_option (stamped (\<lambda>e. entry_timestamp e = u) cid) (chain_at s k)" for k
  proof (cases "chain_at s k")
    case (Some c)
    have "(k, entry_addr (c ! i)) \<in> parent_addrs s refs \<longleftrightarrow> entry_timestamp (c ! i) = u" if "i < length c" for i
      using parent_addrs_own [OF assms(1-3) Some that] .
    then have "stamped (\<lambda>e. (k, entry_addr e) \<in> parent_addrs s refs) cid c = stamped (\<lambda>e. entry_timestamp e = u) cid c"
      by (auto simp: stamped_def in_set_conv_nth)
    then show ?thesis using Some s'(2) by (simp add: stamped_set_def)
  qed (simp add: s'(2) stamped_set_def)
  have "set_ok s'" unfolding set_ok_def
  proof (intro conjI allI impI)
    show "keys_ok s'" using s'(4) assms(1) by (simp add: set_ok_def)
  next
    fix k c'
    assume "chain_at s' k = Some c'"
    then obtain c where c: "chain_at s k = Some c" "c' = stamped (\<lambda>e. entry_timestamp e = u) cid c" using eff by auto
    have "chain_ok k (next_addr s) c'" unfolding c(2)
      using chain_ok_stamped [OF set_ok_chain [OF assms(1) c(1)] assms(3,4)] assms(5) c(1) by (auto simp: commit_before_def)
    then show "chain_ok k (next_addr s') c'" using s'(3) by (simp add: same_but_entries_def)
  qed
  then show thesis using that s' eff by blast
qed

section \<open>Cleaning up\<close>

lemma chain_ok_remove:
  assumes "chain_ok k n (xs @ e # ys)" "xs \<noteq> []"
  shows "chain_ok k n (xs @ ys)"
  using assms by (auto simp: chain_ok_def sorted_wrt_append one_writer_def)

lemma CleanupEntry_effect:
  assumes "set_ok s" "chain_at s k = Some (xs @ p # e # ys)"
  obtains s' where "CleanupEntry (k, entry_addr e) s = Inr s'" "same_but_entries s s'" "set_ok s'"
    "chain_at s' = (chain_at s)(k := if entry_deleted p \<and> xs = [] \<and> ys = [] then None else Some (xs @ p # ys))"
proof -
  let ?c = "xs @ p # e # ys"
  have ok: "chain_ok k (next_addr s) ?c" using set_ok_chain [OF assms] .
  note d = chain_ok_distinct [OF ok]
  have e: "?c ! Suc (length xs) = e" "?c ! length xs = p" by (simp_all add: nth_append)
  have par: "Parent_ref (k, entry_addr e) s = Inr (k, entry_addr p)"
    using Parent_ref_nth [OF assms(2) d, of "length xs"] e by simp
  obtain s1 where s1: "Map_DropEntry (k, entry_addr e) s = Inr s1" "same_but_entries s s1" "keys_ok s1"
    "chain_at s1 = (chain_at s)(k \<mapsto> xs @ p # ys)"
    using DropEntry_nth [OF assms(2) d, of "Suc (length xs)"] assms(1) e by (auto simp: set_ok_def)
  have ok1: "chain_ok k (next_addr s) (xs @ p # ys)" using chain_ok_remove [of k _ "xs @ [p]" e ys] ok by simp
  have set1: "set_ok s1" using s1 assms(1) ok1 by (auto simp: set_ok_def same_but_entries_def)
  have c1: "chain_at s1 k = Some (xs @ p # ys)" using s1(4) by simp
  note d1 = chain_ok_distinct [OF ok1]
  have res: "resolve (k, entry_addr p) s1 = Inr (xs, p, ys)"
    using resolve_nth [OF c1 d1, of "length xs"] by (simp add: nth_append)
  show thesis
  proof (cases "entry_deleted p \<and> xs = [] \<and> ys = []")
    case True
    obtain s2 where s2: "Map_DropEntry (k, entry_addr p) s1 = Inr s2" "same_but_entries s1 s2" "keys_ok s2"
      "chain_at s2 = (chain_at s1)(k := None)"
      using DropEntry_nth [OF c1 d1, of 0] s1(3) True by auto
    have "set_ok s2" using s2 set1 by (auto simp: set_ok_def same_but_entries_def split: if_splits)
    moreover have "chain_at s2 = (chain_at s)(k := None)" using s2(4) s1(4) by simp
    ultimately show ?thesis
      using that [of s2] s1 s2 par res True same_but_entries_trans by (simp add: CleanupEntry_def)
  next
    case False
    then show ?thesis using that [of s1] s1 set1 par res by (auto simp: CleanupEntry_def)
  qed
qed

lemma visible_step: "c \<noteq> [] \<Longrightarrow> visible_version t (Some (v # c)) =
    (if UseTimestamp t (entry_timestamp v) then if entry_deleted v then None else Some v else visible_version t (Some c))"
  by (rule visible_link)

lemma visible_remove:
  assumes "UseTimestamp t (entry_timestamp p)"
  shows "visible_version t (Some (xs @ p # e # ys)) = visible_version t (Some (xs @ p # ys))"
proof (induction xs)
  case Nil
  show ?case using assms by (cases ys) (simp_all add: visible_link visible_single del: visible_version.simps(2))
next
  case (Cons x xs)
  then show ?case by (simp add: visible_link del: visible_version.simps(2))
qed

lemma visible_stamped:
  assumes "\<forall>e\<in>set c. P e \<longrightarrow> \<not> UseTimestamp t (entry_timestamp e)" "\<not> UseTimestamp t cid" "c \<noteq> []" "\<not> P (last c)"
  shows "visible_version t (Some (stamped P cid c)) = visible_version t (Some c)"
  using assms
proof (induction c)
  case (Cons e c)
  show ?case
  proof (cases "c = []")
    case True
    then show ?thesis using Cons.prems by (simp add: stamped_def visible_single del: visible_version.simps(2))
  next
    case False
    have "stamped P cid (e # c) = (if P e then e\<lparr>entry_timestamp := cid\<rparr> else e) # stamped P cid c" by (simp add: stamped_def)
    moreover have "stamped P cid c \<noteq> []" using False by (simp add: stamped_def)
    ultimately show ?thesis
      using Cons False by (simp add: visible_link del: visible_version.simps(2))
  qed
qed simp

lemma visible_aborted:
  assumes "set_ok s" "chain_at s k = Some c" "own u c < length c" "\<not> UseTimestamp t u"
  shows "visible_version t (aborted u (Some c)) = visible_version t (Some c)"
proof -
  have ok: "chain_ok k (next_addr s) c" using set_ok_chain [OF assms(1,2)] .
  have skip: "visible_version t (Some (dropWhile (\<lambda>e. entry_timestamp e = u) c)) = visible_version t (Some c)"
    if "own u c < length c" for c using that
  proof (induction c)
    case (Cons e c)
    show ?case
    proof (cases "entry_timestamp e = u")
      case True
      then have "c \<noteq> []" using Cons.prems by (auto simp: own_Cons)
      then show ?thesis using True Cons assms(4) by (simp add: own_Cons visible_link del: visible_version.simps(2))
    qed (simp add: own_Cons)
  qed simp
  let ?rest = "dropWhile (\<lambda>e. entry_timestamp e = u) c"
  have rest: "?rest = drop (own u c) c" by (simp add: own_def dropWhile_eq_drop)
  have "one_writer ?rest" using ok unfolding chain_ok_def rest one_writer_def by (meson in_set_dropD)
  then have rok: "chain_ok k (next_addr s) ?rest"
    using ok assms(3) sorted_wrt_drop unfolding chain_ok_def rest by (auto dest: in_set_dropD)
  have "visible_version t (Some ?rest) = None" if "entry_type (hd ?rest) = INVALID"
  proof -
    obtain d ds where ds: "?rest = d # ds" using rok by (cases ?rest) (auto simp: chain_ok_def)
    then have "ds = []" using rok that by (cases ds) (auto simp: chain_ok_def newer_than_def)
    then show ?thesis using rok ds that by (simp add: chain_ok_def visible_single del: visible_version.simps(2))
  qed
  then show ?thesis using skip [OF assms(3)] by (simp add: Let_def)
qed

end
