(* ===== verification/Catalog_History.thy ===== *)
theory Catalog_History
  imports Catalog_Versions
begin

text \<open>
  Histories of a set of the catalog: many transactions that begin, create, drop, alter and rename entries,
  commit, roll back and are cleaned up, one step after the other, as the lock of the set makes them. The
  invariant \<open>history_ok\<close> holds in every reachable history, and the properties are read off: stable
  snapshots, published commits, undone rollbacks and failed commits, write conflicts. The sets have no
  default generator here; lookups with one are treated at the end.
\<close>

section \<open>Commits that fail\<close>

text \<open>
  The revert of a failed commit writes the id of the transaction into an entry that is not spelled as the
  version above it. A reference is \<open>spelled_alike\<close> when that does not happen to it, and a transaction
  respells a name when it has a reference that is not: it has put a version on a name over a version that is
  spelled otherwise.
\<close>

definition spelled_alike :: "entry_ref \<Rightarrow> CatalogSet \<Rightarrow> bool" where
  "spelled_alike r s \<longleftrightarrow> (case chain_at s (fst r) of None \<Rightarrow> True
     | Some c \<Rightarrow> \<forall>i < length c - 1. entry_addr (c ! Suc i) = snd r \<longrightarrow> entry_name (c ! Suc i) = entry_name (c ! i))"

definition respells :: "transaction_t \<Rightarrow> CatalogSet \<Rightarrow> bool" where
  "respells u s \<longleftrightarrow> (\<exists>r\<in>set (undo_buffers s u). \<not> spelled_alike r s)"

lemma resolve_chain:
  assumes "resolve r s = Inr (newer, e, older)"
  shows "chain_at s (fst r) = Some (newer @ e # older)" "entry_addr e = snd r"
proof -
  obtain c where c: "chain_at s (fst r) = Some c"
    using assms by (cases "chain_at s (fst r)") (auto simp: resolve_def chain_at_def)
  then have d: "takeWhile (\<lambda>x. entry_addr x \<noteq> snd r) c = newer" "dropWhile (\<lambda>x. entry_addr x \<noteq> snd r) c = e # older"
    using assms by (auto simp: resolve_def chain_at_def split: list.splits)
  then show "chain_at s (fst r) = Some (newer @ e # older)" using c takeWhile_dropWhile_id by metis
  show "entry_addr e = snd r" using d(2) by (simp add: dropWhile_eq_Cons_conv)
qed

lemma spelled_alike_resolve:
  assumes "spelled_alike r s" "resolve r s = Inr (newer, e, older)" "newer \<noteq> []"
  shows "entry_name e = entry_name (last newer)"
proof -
  note c = resolve_chain [OF assms(2)]
  obtain ns l where n: "newer = ns @ [l]" using assms(3) by (cases newer rule: rev_cases) auto
  have "length ns < length (newer @ e # older) - 1" using n by simp
  with assms(1) have "entry_addr ((newer @ e # older) ! Suc (length ns)) = snd r \<longrightarrow>
      entry_name ((newer @ e # older) ! Suc (length ns)) = entry_name ((newer @ e # older) ! length ns)"
    unfolding spelled_alike_def c(1) option.case by blast
  then show ?thesis using c(2) n by (simp add: nth_append)
qed

lemma nth_stamped_name: "i < length c \<Longrightarrow> entry_name (stamped P cid c ! i) = entry_name (c ! i)"
  by (simp add: stamped_def)

lemma spelled_alike_stamped:
  assumes "chain_at s' (fst r) = map_option (stamped P cid) (chain_at s (fst r))"
  shows "spelled_alike r s' = spelled_alike r s"
proof (cases "chain_at s (fst r)")
  case (Some c)
  have "entry_addr (stamped P cid c ! Suc i) = entry_addr (c ! Suc i)" "entry_name (stamped P cid c ! Suc i) = entry_name (c ! Suc i)"
    "entry_name (stamped P cid c ! i) = entry_name (c ! i)" if "i < length c - 1" for i
    using that by (simp_all add: nth_stamped_addr nth_stamped_name)
  then show ?thesis using assms Some by (simp add: spelled_alike_def)
qed (simp add: assms spelled_alike_def)

lemma spelled_alike_set: "chain_at s' = stamped_set D cid s \<Longrightarrow> spelled_alike r s' = spelled_alike r s"
  by (rule spelled_alike_stamped [of _ _ "\<lambda>e. (fst r, entry_addr e) \<in> D" cid]) (simp add: stamped_set_def)

lemma spelled_alike_update: "spelled_alike r (UpdateTimestamp (k, a) cid s) = spelled_alike r s"
proof (cases "chain_at s k")
  case None
  then show ?thesis by (simp add: UpdateTimestamp_def chain_at_def)
next
  case (Some c)
  show ?thesis
  proof (cases "fst r = k")
    case True
    then show ?thesis
      by (intro spelled_alike_stamped [of _ _ "\<lambda>e. entry_addr e = a" cid]) (simp add: UpdateTimestamp_effect(1) [OF Some] Some)
  qed (simp add: spelled_alike_def UpdateTimestamp_effect(1) [OF Some])
qed

lemma RevertEntries_stamp:
  "\<forall>r\<in>set refs. spelled_alike r s \<Longrightarrow> RevertEntries tid refs s = stamp_all tid refs s"
proof (induction refs arbitrary: s)
  case (Cons r refs)
  have one: "RevertEntry tid r s = (case Parent_ref r s of Inl e \<Rightarrow> Inl e | Inr p \<Rightarrow> Inr (UpdateTimestamp p tid s))"
  proof (cases "resolve r s")
    case (Inr x)
    obtain newer e older where x: "x = (newer, e, older)" by (cases x)
    have "entry_name e = entry_name (last newer)" if "newer \<noteq> []"
      using spelled_alike_resolve [OF _ Inr [unfolded x] that] Cons.prems by simp
    then show ?thesis using Inr x by (simp add: RevertEntry_def Parent_ref_def Let_def)
  qed (simp add: RevertEntry_def Parent_ref_def)
  show ?case
  proof (cases "Parent_ref r s")
    case (Inr p)
    have "RevertEntries tid refs (UpdateTimestamp p tid s) = stamp_all tid refs (UpdateTimestamp p tid s)"
      using Cons.IH [of "UpdateTimestamp p tid s"] Cons.prems by (cases p) (simp add: spelled_alike_update)
    then show ?thesis using one Inr by simp
  qed (simp add: one)
qed simp

lemma parent_addrs_stamped: "parent_addrs (s1 :: CatalogSet) refs = parent_addrs s refs" if "chain_at s1 = stamped_set D cid s"
  unfolding parent_addrs_def that stamped_set_def
  by (auto simp: nth_stamped_addr Suc_lessD) (metis (no_types, lifting) Suc_lessD length_stamped nth_stamped_addr option.simps(9))+

lemma reverted:
  assumes s: "set_ok s" "refs_ok u refs s" "\<not> IsCommitted u" "\<forall>r\<in>set refs. spelled_alike r s"
    and c: "CommitEntries verify drop_blocks cid refs s = (s1, visited, error)"
  obtains s2 where "RevertEntries u visited s1 = Inr s2" "chain_at s2 = chain_at s" "same_but_entries s s2" "set_ok s2"
proof -
  obtain dn where dn: "stamp_all cid dn s = Inr s1" "set dn \<subseteq> set visited" "set visited \<subseteq> set refs"
    using CommitEntries_prefix [OF c] by blast
  have in_s: "\<forall>r\<in>set dn. \<exists>c i. chain_at s (fst r) = Some c \<and> Suc i < length c \<and> snd r = entry_addr (c ! Suc i)"
    using refs_resolve [OF s(2)] dn(2,3) by blast
  have s1: "chain_at s1 = stamped_set (parent_addrs s dn) cid s" "same_but_entries s s1" "keys_ok s1"
    using stamp_all_effect [OF set_ok_distinct [OF s(1)] stamped_none in_s, of cid] dn(1) s(1) by (auto simp: set_ok_def)
  have at1: "\<exists>c i. chain_at s1 (fst r) = Some c \<and> Suc i < length c \<and> snd r = entry_addr (c ! Suc i)" if r: "r \<in> set visited" for r
  proof -
    obtain c i where "chain_at s (fst r) = Some c" "Suc i < length c" "snd r = entry_addr (c ! Suc i)"
      using refs_resolve [OF s(2)] dn(3) r by blast
    then show ?thesis
      by (intro exI [of _ "stamped (\<lambda>e. (fst r, entry_addr e) \<in> parent_addrs s dn) cid c"] exI [of _ i])
        (simp add: s1(1) stamped_set_def nth_stamped_addr)
  qed
  have d1: "\<forall>k c. chain_at s1 k = Some c \<longrightarrow> distinct (map entry_addr c)"
    using set_ok_distinct [OF s(1)] by (auto simp: s1(1) stamped_set_def)
  obtain s2 where s2: "stamp_all u visited s1 = Inr s2" "chain_at s2 = stamped_set (parent_addrs s1 visited) u s1"
    "same_but_entries s1 s2" "keys_ok s2"
    using stamp_all_effect [OF d1 stamped_none, of visited u] at1 s1(3) by auto
  have rev: "RevertEntries u visited s1 = Inr s2"
    using RevertEntries_stamp [of visited s1 u] spelled_alike_set [OF s1(1)] s(4) dn(3) s2(1) by auto
  have "chain_at s2 k = chain_at s k" for k
  proof (cases "chain_at s k")
    case (Some c)
    have u: "entry_timestamp e = u" if "e \<in> set c" "(k, entry_addr e) \<in> parent_addrs s visited" for e
    proof -
      obtain i where "i < length c" "e = c ! i" using \<open>e \<in> set c\<close> by (metis in_set_conv_nth)
      moreover have "parent_addrs s visited \<subseteq> parent_addrs s refs" using dn(3) unfolding parent_addrs_def by blast
      ultimately show ?thesis using parent_addrs_own [OF s(1-3) Some, of i] that(2) by blast
    qed
    have sub: "parent_addrs s dn \<subseteq> parent_addrs s visited" using dn(2) unfolding parent_addrs_def by blast
    have "stamped (\<lambda>e. (k, entry_addr e) \<in> parent_addrs s visited) u (stamped (\<lambda>e. (k, entry_addr e) \<in> parent_addrs s dn) cid c) = c"
      unfolding stamped_def map_map by (rule map_idI) (use u sub in auto)
    then show ?thesis using Some by (simp add: s2(2) parent_addrs_stamped [OF s1(1)] s1(1) stamped_set_def)
  qed (simp add: s2(2) s1(1) stamped_set_def)
  then have at: "chain_at s2 = chain_at s" by blast
  have same: "same_but_entries s s2" using s1(2) s2(3) same_but_entries_trans by blast
  have "set_ok s2" using s(1) s2(4) at same by (simp add: set_ok_def same_but_entries_def)
  then show thesis using that rev at same by blast
qed

section \<open>Histories of a set\<close>

text \<open>
  The operations of many transactions on one set, one step after the other: the lock of the set is held
  during each. The clock gives start and commit times, and a transaction that starts has an empty undo
  buffer. A transaction ends when its undo buffer has been committed, the oldest reference first, or
  rolled back, the newest first. A commit takes the clock before anything can fail: it may fail before a
  reference is touched (the log could not be written), at any reference, or after the last one (another set
  of the same transaction, the flush of the log); then the references visited are reverted and the undo
  buffer is rolled back. A version is cleaned up when the version above it is committed and every
  active transaction started later.
\<close>

record set_history =
  h_set :: CatalogSet
  h_active :: "transaction_t \<Rightarrow> CatalogTransaction option"
  h_clock :: transaction_t

datatype catalog_action = Begins transaction_t | Works transaction_t | Commits transaction_t | Fails transaction_t | Rolls_back transaction_t | Cleans

fun of_transaction :: "transaction_t \<Rightarrow> catalog_action \<Rightarrow> bool" where
  "of_transaction u (Begins v) \<longleftrightarrow> v = u"
| "of_transaction u (Works v) \<longleftrightarrow> v = u"
| "of_transaction u (Commits v) \<longleftrightarrow> v = u"
| "of_transaction u (Fails v) \<longleftrightarrow> v = u"
| "of_transaction u (Rolls_back v) \<longleftrightarrow> v = u"
| "of_transaction u Cleans \<longleftrightarrow> False"

definition begun :: "CatalogTransaction \<Rightarrow> set_history \<Rightarrow> set_history" where
  "begun t h = h\<lparr>h_set := (h_set h)\<lparr>undo_buffers := (undo_buffers (h_set h))(ct_transaction_id t := [])\<rparr>,
     h_active := (h_active h)(ct_transaction_id t \<mapsto> t), h_clock := h_clock h + 1\<rparr>"

definition ended :: "transaction_t \<Rightarrow> set_history \<Rightarrow> set_history" where
  "ended u h = h\<lparr>h_active := (h_active h)(u := None)\<rparr>"

inductive catalog_step :: "catalog_action \<Rightarrow> set_history \<Rightarrow> set_history \<Rightarrow> bool" where
  begins: "h_active h (ct_transaction_id t) = None \<Longrightarrow> running t \<Longrightarrow> ct_start_time t = h_clock h \<Longrightarrow>
    catalog_step (Begins (ct_transaction_id t)) h (begun t h)"
| create: "h_active h u = Some t \<Longrightarrow> generator env = None \<Longrightarrow> ci_key (entry_name value) = ci_key name \<Longrightarrow>
    entry_type value \<noteq> INVALID \<Longrightarrow>
    CreateEntry env catalog t name value (\<lambda>v s. (s, refused v)) others (h_set h) = Some (s', r) \<Longrightarrow>
    catalog_step (Works u) h (h\<lparr>h_set := s'\<rparr>)"
| drop: "h_active h u = Some t \<Longrightarrow> generator env = None \<Longrightarrow>
    DropEntry env t name allow_drop (\<lambda>v s. (s, refused v)) others (h_set h) = Some (s', r) \<Longrightarrow>
    catalog_step (Works u) h (h\<lparr>h_set := s'\<rparr>)"
| alter: "h_active h u = Some t \<Longrightarrow> generator env = None \<Longrightarrow>
    (\<And>e v. alter e = Inr (Some v) \<Longrightarrow> entry_type v \<noteq> INVALID) \<Longrightarrow>
    AlterEntry env t name info alter id alter_object others (h_set h) = Some (s', r) \<Longrightarrow>
    catalog_step (Works u) h (h\<lparr>h_set := s'\<rparr>)"
| commit: "h_active h u = Some t \<Longrightarrow> IsCommitted (h_clock h) \<Longrightarrow>
    CommitEntries verify drop_blocks (h_clock h) (undo_buffers (h_set h) u) (h_set h) = (s', visited, None) \<Longrightarrow>
    catalog_step (Commits u) h (ended u (h\<lparr>h_set := s', h_clock := h_clock h + 1\<rparr>))"
| failed_early: "h_active h u = Some t \<Longrightarrow> IsCommitted (h_clock h) \<Longrightarrow>
    UndoEntries (rev (undo_buffers (h_set h) u)) (h_set h) = Inr s' \<Longrightarrow>
    catalog_step (Fails u) h (ended u (h\<lparr>h_set := s', h_clock := h_clock h + 1\<rparr>))"
| failed_commit: "h_active h u = Some t \<Longrightarrow> IsCommitted (h_clock h) \<Longrightarrow>
    CommitEntries verify drop_blocks (h_clock h) (undo_buffers (h_set h) u) (h_set h) = (s1, visited, error) \<Longrightarrow>
    RevertEntries u visited s1 = Inr s2 \<Longrightarrow> UndoEntries (rev (undo_buffers s2 u)) s2 = Inr s3 \<Longrightarrow>
    catalog_step (Fails u) h (ended u (h\<lparr>h_set := s3, h_clock := h_clock h + 1\<rparr>))"
| rollback: "h_active h u = Some t \<Longrightarrow> UndoEntries (rev (undo_buffers (h_set h) u)) (h_set h) = Inr s' \<Longrightarrow>
    catalog_step (Rolls_back u) h (ended u (h\<lparr>h_set := s'\<rparr>))"
| cleanup: "chain_at (h_set h) k = Some (xs @ p # e # ys) \<Longrightarrow> IsCommitted (entry_timestamp p) \<Longrightarrow>
    (\<And>u t. h_active h u = Some t \<Longrightarrow> entry_timestamp p < ct_start_time t) \<Longrightarrow>
    CleanupEntry (k, entry_addr e) (h_set h) = Inr s' \<Longrightarrow>
    catalog_step Cleans h (h\<lparr>h_set := s'\<rparr>)"

inductive_cases catalog_commitE: "catalog_step (Commits u) h h'"
inductive_cases catalog_failsE: "catalog_step (Fails u) h h'"
inductive_cases catalog_rollbackE: "catalog_step (Rolls_back u) h h'"
inductive_cases catalog_worksE: "catalog_step (Works u) h h'"

definition new_history :: "transaction_t \<Rightarrow> set_history" where
  "new_history clock =
     \<lparr>h_set = \<lparr>entries = [], created_all_entries = False, next_addr = 0, undo_buffers = \<lambda>u. []\<rparr>,
      h_active = \<lambda>u. None, h_clock = clock\<rparr>"

text \<open>A commit that fails is followed only where its transaction has not respelled a name.\<close>

fun spelling_kept :: "catalog_action \<Rightarrow> set_history \<Rightarrow> bool" where
  "spelling_kept (Fails u) h \<longleftrightarrow> \<not> respells u (h_set h)"
| "spelling_kept _ h \<longleftrightarrow> True"

inductive catalog_reachable :: "set_history \<Rightarrow> bool" where
  new: "0 < clock \<Longrightarrow> catalog_reachable (new_history clock)"
| step: "catalog_reachable h \<Longrightarrow> catalog_step a h h' \<Longrightarrow> spelling_kept a h \<Longrightarrow> catalog_reachable h'"

section \<open>Every operation makes elementary changes\<close>

lemma CreateEntry_changes:
  assumes "generator env = None" "ci_key (entry_name value) = ci_key name" "set_ok s" "running t" "entry_type value \<noteq> INVALID"
    and "CreateEntry env catalog t name value (\<lambda>v s. (s, refused v)) others s = Some (s', r)"
  shows "changes t s s'"
    "r = Inr True \<Longrightarrow> \<exists>c n. c \<noteq> [] \<and> chain_at s' (ci_key name) = Some (value\<lparr>entry_timestamp := ct_transaction_id t, entry_addr := n\<rparr> # c)"
proof -
  let ?v = "value\<lparr>entry_timestamp := ct_transaction_id t\<rparr>"
  have "s' = s \<and> r \<noteq> Inr True \<or> CreateEntryInternal env t name ?v True others s = Some (s', r)"
    using assms(6) by (auto simp: CreateEntry_def Let_def split: sum.splits option.splits)
  then have "changes t s s' \<and> (r = Inr True \<longrightarrow> (\<exists>c n. c \<noteq> [] \<and>
      chain_at s' (ci_key name) = Some (value\<lparr>entry_timestamp := ct_transaction_id t, entry_addr := n\<rparr> # c)))"
    using changes_create [of env ?v name s t True others s' r] assms(1-5) by (auto intro: changes.stay)
  then show "changes t s s'"
    "r = Inr True \<Longrightarrow> \<exists>c n. c \<noteq> [] \<and> chain_at s' (ci_key name) = Some (value\<lparr>entry_timestamp := ct_transaction_id t, entry_addr := n\<rparr> # c)"
    by blast+
qed

lemma DropEntry_changes:
  assumes "generator env = None" "set_ok s" "running t"
    and "DropEntry env t name allow (\<lambda>v s. (s, refused v)) others s = Some (s', r)"
  shows "changes t s s'"
    "r = Inr True \<Longrightarrow> \<exists>c v. c \<noteq> [] \<and> chain_at s' = (chain_at s)(ci_key name \<mapsto> v # c) \<and> entry_deleted v \<and> entry_timestamp v = ct_transaction_id t"
proof -
  have "s' = s \<and> r \<noteq> Inr True \<or> DropEntryInternal t name allow s = (s', r)"
    using assms(1,4) by (auto simp: DropEntry_def DropDependencies_def GetEntry_eq split: option.splits if_splits)
  then have "changes t s s' \<and> (r = Inr True \<longrightarrow> (\<exists>c v. c \<noteq> [] \<and> chain_at s' = (chain_at s)(ci_key name \<mapsto> v # c) \<and>
      entry_deleted v \<and> entry_timestamp v = ct_transaction_id t))"
    using changes_drop [OF assms(2,3), of name allow s' r] by (auto intro: changes.stay)
  then show "changes t s s'"
    "r = Inr True \<Longrightarrow> \<exists>c v. c \<noteq> [] \<and> chain_at s' = (chain_at s)(ci_key name \<mapsto> v # c) \<and> entry_deleted v \<and> entry_timestamp v = ct_transaction_id t"
    by blast+
qed

definition in_chains :: "CatalogEntry \<Rightarrow> CatalogSet \<Rightarrow> bool" where
  "in_chains e s \<longleftrightarrow> (\<exists>k c. chain_at s k = Some c \<and> e \<in> set c)"

lemma in_chainsI: "chain_at s k = Some c \<Longrightarrow> e \<in> set c \<Longrightarrow> in_chains e s"
  unfolding in_chains_def by blast

lemma changes_in_chains:
  assumes "changes t s s'" "set_ok s" "running t" "in_chains e s'"
  shows "in_chains e s \<or> entry_timestamp e = ct_transaction_id t \<or> entry_timestamp e = 0"
  using assms
proof (induction rule: changes.induct)
  case (start s s1 name v)
  have ok: "set_ok s1" using changes_inv [OF start(1) start.prems(2,1)] by blast
  obtain d n where "chain_at (linked t v (with_dummy name s1)) = (chain_at s1)(ci_key name \<mapsto> [v\<lparr>entry_addr := n\<rparr>, d])"
    "entry_timestamp d = 0"
    using started(3) [OF ok start(2-5) start.prems(2)] by blast
  then have "in_chains e s1 \<or> entry_timestamp e = ct_transaction_id t \<or> entry_timestamp e = 0"
    using start.prems(3) start(4) by (auto simp: in_chains_def split: if_splits)
  then show ?case using start by blast
next
  case (link s s1 v c)
  have "in_chains e s1 \<or> entry_timestamp e = ct_transaction_id t"
    using link.prems(3) link(2,5) link_version_eq(2) [OF link(2,3), of t] by (auto simp: in_chains_def split: if_splits)
  then show ?case using link by blast
qed simp

lemma changes_aborted:
  assumes "changes t s s'" "running t" "set_ok s" "no_bare_dummy s"
  shows "aborted (ct_transaction_id t) (chain_at s' k) = aborted (ct_transaction_id t) (chain_at s k)"
  using assms
proof (induction rule: changes.induct)
  case (start s s1 name v)
  have ok: "set_ok s1" using changes_inv [OF start(1) start.prems(1,2)] by blast
  obtain d n where "chain_at (linked t v (with_dummy name s1)) = (chain_at s1)(ci_key name \<mapsto> [v\<lparr>entry_addr := n\<rparr>, d])"
    "entry_type d = INVALID" "entry_timestamp d = 0"
    using started(3) [OF ok start(2-5) start.prems(1)] by blast
  moreover have "ct_transaction_id t \<noteq> 0" using start.prems(1) by (auto simp: running_def IsCommitted_def TRANSACTION_ID_START_def)
  ultimately show ?case using start by (auto simp: own_Cons)
next
  case (link s s1 v c)
  have "entry_type (hd c) \<noteq> INVALID"
    using changes_inv [OF link(1) link.prems(1,2)] link.prems(3) link(2) by (auto simp: no_bare_dummy_def)
  then have "aborted (ct_transaction_id t) (Some (v\<lparr>entry_addr := n\<rparr> # c)) = aborted (ct_transaction_id t) (Some c)" for n
    using link(3,5) by (cases c) (auto simp: own_Cons Let_def)
  then show ?case using link link_version_eq(2) [OF link(2,3), of t] by (cases "k = ci_key (entry_name v)") auto
qed simp

section \<open>The invariant of a history\<close>

definition writer_ok :: "set_history \<Rightarrow> transaction_t \<Rightarrow> CatalogTransaction \<Rightarrow> bool" where
  "writer_ok h u t \<longleftrightarrow> ct_transaction_id t = u \<and> running t \<and> ct_start_time t < h_clock h \<and> undo_ok u (h_set h)"

definition stamps_ok :: "set_history \<Rightarrow> bool" where
  "stamps_ok h \<longleftrightarrow> (\<forall>e. in_chains e (h_set h) \<longrightarrow>
     (if IsCommitted (entry_timestamp e) then entry_timestamp e < h_clock h else h_active h (entry_timestamp e) \<noteq> None))"

definition history_ok :: "set_history \<Rightarrow> bool" where
  "history_ok h \<longleftrightarrow> set_ok (h_set h) \<and> no_bare_dummy (h_set h) \<and> stamps_ok h \<and> 0 < h_clock h \<and>
     (\<forall>u t. h_active h u = Some t \<longrightarrow> writer_ok h u t)"

lemma history_active: "history_ok h \<Longrightarrow> h_active h u = Some t \<Longrightarrow> writer_ok h u t"
  by (simp add: history_ok_def)

lemma stamps_before: "stamps_ok h \<Longrightarrow> commit_before (h_clock h) (h_set h)"
  unfolding commit_before_def by (auto simp: stamps_ok_def dest: in_chainsI)

lemma clock_next: "IsCommitted n \<Longrightarrow> n < n + 1"
proof -
  assume "IsCommitted n"
  then have "unat n < 4611686018427388000" unfolding IsCommitted_def word_less_nat_alt TRANSACTION_ID_START_def by simp
  then show "n < n + 1" unfolding word_less_nat_alt by (simp add: unat_word_ariths)
qed

lemma clock_pos: "IsCommitted n \<Longrightarrow> 0 < n + 1"
  by (rule le_less_trans [OF word_zero_le clock_next])

lemma zero_committed: "IsCommitted 0"
  by (simp add: IsCommitted_def TRANSACTION_ID_START_def)

lemma history_ok_new: "0 < clock \<Longrightarrow> history_ok (new_history clock)"
  by (simp add: history_ok_def new_history_def set_ok_def keys_ok_def chain_at_def no_bare_dummy_def stamps_ok_def in_chains_def)

lemma history_ok_works:
  assumes "history_ok h" "h_active h u = Some t" "changes t (h_set h) s'"
  shows "history_ok (h\<lparr>h_set := s'\<rparr>)"
proof -
  have t: "writer_ok h u t" and s: "set_ok (h_set h)" using assms by (auto simp: history_ok_def)
  then have run: "running t" and id: "ct_transaction_id t = u" by (auto simp: writer_ok_def)
  note inv = changes_inv [OF assms(3) run s]
  have "stamps_ok (h\<lparr>h_set := s'\<rparr>)"
    unfolding stamps_ok_def
  proof (intro allI impI)
    fix e
    assume "in_chains e (h_set (h\<lparr>h_set := s'\<rparr>))"
    then have "in_chains e (h_set h) \<or> entry_timestamp e = u \<or> entry_timestamp e = 0"
      using changes_in_chains [OF assms(3) s run] id by simp
    then show "if IsCommitted (entry_timestamp e) then entry_timestamp e < h_clock (h\<lparr>h_set := s'\<rparr>)
        else h_active (h\<lparr>h_set := s'\<rparr>) (entry_timestamp e) \<noteq> None"
      using assms(1,2) run id zero_committed by (auto simp: history_ok_def stamps_ok_def running_def)
  qed
  moreover have "writer_ok (h\<lparr>h_set := s'\<rparr>) w x" if "h_active h w = Some x" for w x
    using history_active [OF assms(1) that] inv by (auto simp: writer_ok_def running_def)
  ultimately show ?thesis using assms(1) inv by (simp add: history_ok_def)
qed

lemma history_ok_begins:
  assumes "history_ok h" "h_active h (ct_transaction_id t) = None" "running t" "ct_start_time t = h_clock h"
  shows "history_ok (begun t h)"
proof -
  let ?u = "ct_transaction_id t"
  have chains: "chain_at (h_set (begun t h)) = chain_at (h_set h)" by (simp add: begun_def chain_at_def)
  have inch: "in_chains e (h_set (begun t h)) \<longleftrightarrow> in_chains e (h_set h)" for e by (simp add: in_chains_def chains)
  have com: "IsCommitted (h_clock h)" using assms(3,4) by (simp add: running_def)
  have "entry_timestamp e \<noteq> ?u" if "in_chains e (h_set h)" for e
    using assms(1-3) that by (auto simp: history_ok_def stamps_ok_def running_def)
  then have none: "own ?u c = 0" if "chain_at (h_set h) k = Some c" for k c
    using in_chainsI [OF that] by (cases c) (auto simp: own_Cons)
  have ne: "c \<noteq> []" if "chain_at (h_set h) k = Some c" for k c
    using assms(1) that by (auto simp: history_ok_def set_ok_def chain_ok_def)
  have "undo_ok ?u (h_set (begun t h))"
    unfolding undo_ok_def refs_ok_def chains
  proof
    fix k
    show "filter (\<lambda>r. fst r = k) (undo_buffers (h_set (begun t h)) ?u) = own_refs ?u k (chain_at (h_set h) k) \<and>
        (\<forall>c. chain_at (h_set h) k = Some c \<longrightarrow> own ?u c < length c)"
      using none [of k] ne [of k] by (cases "chain_at (h_set h) k") (simp_all add: begun_def)
  qed
  moreover have "undo_ok w (h_set (begun t h))" if "undo_ok w (h_set h)" "w \<noteq> ?u" for w
    using that unfolding undo_ok_def refs_ok_def chains by (simp add: begun_def)
  ultimately have act: "writer_ok (begun t h) w x" if "h_active (begun t h) w = Some x" for w x
    using that assms history_active [OF assms(1), of w x] clock_next [OF com]
    by (auto simp: writer_ok_def begun_def split: if_splits)
  have "stamps_ok (begun t h)"
    using assms(1) clock_next [OF com] unfolding stamps_ok_def inch
    by (fastforce simp: history_ok_def stamps_ok_def begun_def)
  moreover have "0 < h_clock (begun t h)" using clock_pos [OF com] by (simp add: begun_def)
  moreover have "set_ok (h_set (begun t h))" "no_bare_dummy (h_set (begun t h))"
    using assms(1) unfolding history_ok_def set_ok_def no_bare_dummy_def keys_ok_def chains by (simp_all add: begun_def)
  ultimately show ?thesis using act by (simp add: history_ok_def)
qed

lemma own_stamped:
  assumes "u \<noteq> w" "IsCommitted cid" "\<not> IsCommitted w"
  shows "own w (stamped (\<lambda>e. entry_timestamp e = u) cid c) = own w c"
proof (induction c)
  case (Cons e c)
  have "w \<noteq> cid" using assms by auto
  then show ?case using Cons assms(1) by (simp add: stamped_def own_Cons)
qed (simp add: stamped_def)

lemma own_refs_stamped:
  assumes "u \<noteq> w" "IsCommitted cid" "\<not> IsCommitted w"
  shows "own_refs w k (map_option (stamped (\<lambda>e. entry_timestamp e = u) cid) co) = own_refs w k co"
proof (cases co)
  case (Some c)
  have "map entry_addr (tl (stamped P cid c)) = map entry_addr (tl c)" for P
    by (metis map_tl stamped_addr)
  then have "map (\<lambda>e. (k, entry_addr e)) (take n (tl (stamped P cid c))) = map (\<lambda>e. (k, entry_addr e)) (take n (tl c))" for n P
    by (metis (mono_tags, lifting) list.map_comp map_eq_conv o_apply take_map)
  then show ?thesis using Some own_stamped [OF assms] by simp
qed simp

lemma stamped_mem: "e \<in> set (stamped P cid c) \<Longrightarrow> \<exists>f\<in>set c. e = (if P f then f\<lparr>entry_timestamp := cid\<rparr> else f)"
  by (auto simp: stamped_def)

lemma history_commit:
  assumes "history_ok h" "h_active h u = Some t" "IsCommitted (h_clock h)"
  obtains s' where "stamp_all (h_clock h) (undo_buffers (h_set h) u) (h_set h) = Inr s'" "same_but_entries (h_set h) s'"
    "\<And>k. chain_at s' k = map_option (stamped (\<lambda>e. entry_timestamp e = u) (h_clock h)) (chain_at (h_set h) k)"
    "history_ok (ended u (h\<lparr>h_set := s', h_clock := h_clock h + 1\<rparr>))"
proof -
  let ?cid = "h_clock h"
  have t: "writer_ok h u t" using history_active [OF assms(1,2)] .
  have s: "set_ok (h_set h)" "commit_before ?cid (h_set h)" using assms(1) stamps_before by (auto simp: history_ok_def)
  have nu: "\<not> IsCommitted u" using t by (auto simp: writer_ok_def running_def)
  have undo: "refs_ok u (undo_buffers (h_set h) u) (h_set h)" using t by (auto simp: writer_ok_def undo_ok_def)
  obtain s' where s': "stamp_all ?cid (undo_buffers (h_set h) u) (h_set h) = Inr s'" "same_but_entries (h_set h) s'" "set_ok s'"
    "\<And>k. chain_at s' k = map_option (stamped (\<lambda>e. entry_timestamp e = u) ?cid) (chain_at (h_set h) k)"
    using stamp_all_own [OF s(1) undo nu assms(3) s(2)] by blast
  let ?h = "ended u (h\<lparr>h_set := s', h_clock := ?cid + 1\<rparr>)"
  have "stamps_ok ?h" unfolding stamps_ok_def
  proof (intro allI impI)
    fix e
    assume "in_chains e (h_set ?h)"
    then obtain k c f where k: "chain_at (h_set h) k = Some c" "f \<in> set c"
      and e: "e = (if entry_timestamp f = u then f\<lparr>entry_timestamp := ?cid\<rparr> else f)"
      using s'(4) stamped_mem by (fastforce simp: in_chains_def ended_def)
    have "stamps_ok h" using assms(1) by (simp add: history_ok_def)
    with in_chainsI [OF k] have "if IsCommitted (entry_timestamp f) then entry_timestamp f < ?cid else h_active h (entry_timestamp f) \<noteq> None"
      by (simp add: stamps_ok_def)
    then show "if IsCommitted (entry_timestamp e) then entry_timestamp e < h_clock ?h else h_active ?h (entry_timestamp e) \<noteq> None"
      using e clock_next [OF assms(3)] assms(3) by (auto simp: ended_def split: if_splits)
  qed
  moreover have "writer_ok ?h w x" if act: "h_active ?h w = Some x" for w x
  proof -
    have w: "w \<noteq> u" "writer_ok h w x" using act history_active [OF assms(1), of w x] by (auto simp: ended_def split: if_splits)
    then have nw: "\<not> IsCommitted w" by (auto simp: writer_ok_def running_def)
    have "undo_ok w s'"
      using w s'(2) own_refs_stamped [OF w(1) [symmetric] assms(3) nw] own_stamped [OF w(1) [symmetric] assms(3) nw]
      unfolding writer_ok_def undo_ok_def refs_ok_def s'(4) by (auto simp: same_but_entries_def)
    then show ?thesis using w clock_next [OF assms(3)] by (auto simp: writer_ok_def ended_def)
  qed
  moreover have "no_bare_dummy s'" unfolding no_bare_dummy_def s'(4)
  proof (intro allI impI)
    fix k c
    assume "map_option (stamped (\<lambda>e. entry_timestamp e = u) ?cid) (chain_at (h_set h) k) = Some c"
    then obtain d where d: "chain_at (h_set h) k = Some d" "c = stamped (\<lambda>e. entry_timestamp e = u) ?cid d" by blast
    then have "d \<noteq> []" "entry_type (hd d) \<noteq> INVALID" using assms(1) by (auto simp: history_ok_def no_bare_dummy_def set_ok_def chain_ok_def)
    then show "entry_type (hd c) \<noteq> INVALID" using d(2) by (cases d) (auto simp: stamped_def)
  qed
  moreover have "0 < ?cid + 1" by (rule clock_pos [OF assms(3)])
  ultimately have "history_ok ?h" using s'(3) by (simp add: history_ok_def ended_def)
  then show thesis using that s' by blast
qed

lemma aborted_other:
  assumes "one_writer c" "\<not> IsCommitted u" "\<not> IsCommitted w" "u \<noteq> w" "0 < own u c"
  shows "own w c = 0" "own w (dropWhile (\<lambda>e. entry_timestamp e = u) c) = 0"
proof -
  obtain e c' where c: "c = e # c'" and e: "entry_timestamp e = u" using assms(5) by (cases c) (auto simp: own_Cons split: if_splits)
  then have nw: "entry_timestamp f \<noteq> w" if "f \<in> set c" for f using that assms(1-4) by (auto simp: one_writer_def)
  show "own w c = 0" using c e assms(4) by (simp add: own_Cons)
  show "own w (dropWhile (\<lambda>e. entry_timestamp e = u) c) = 0"
  proof (cases "dropWhile (\<lambda>e. entry_timestamp e = u) c")
    case (Cons f fs)
    then have "f \<in> set c" by (metis list.set_intros(1) set_dropWhileD)
    then show ?thesis using Cons nw by (simp add: own_Cons)
  qed (simp only: own_Nil)
qed

lemma aborted_cases:
  assumes "own u c < length c"
  obtains "own u c = 0" "aborted u (Some c) = Some c"
  | "0 < own u c" "aborted u (Some c) = None"
  | f fs where "0 < own u c" "dropWhile (\<lambda>e. entry_timestamp e = u) c = f # fs" "aborted u (Some c) = Some (f # fs)"
proof (cases "own u c = 0")
  case True
  then have "dropWhile (\<lambda>e. entry_timestamp e = u) c = c" by (cases c) (auto simp: own_Cons split: if_splits)
  then show ?thesis using True that(1) by simp
next
  case False
  have "dropWhile (\<lambda>e. entry_timestamp e = u) c = drop (own u c) c" by (simp add: own_def dropWhile_eq_drop)
  then have "dropWhile (\<lambda>e. entry_timestamp e = u) c \<noteq> []" using assms by simp
  then obtain f fs where "dropWhile (\<lambda>e. entry_timestamp e = u) c = f # fs" by (meson neq_Nil_conv)
  then show ?thesis using that(2,3) False by (cases "entry_type f = INVALID") (simp_all add: Let_def)
qed

lemma aborted_ok:
  assumes "chain_ok k n c" "\<not> IsCommitted u" "\<not> IsCommitted w" "u \<noteq> w" "own u c < length c"
  shows "own_refs w k (aborted u (Some c)) = own_refs w k (Some c)"
    and "aborted u (Some c) = Some d \<Longrightarrow> own w c < length c \<Longrightarrow> own w d < length d"
proof -
  have w: "one_writer c" using assms(1) by (simp add: chain_ok_def)
  note other = aborted_other [OF w assms(2-4)]
  show "own_refs w k (aborted u (Some c)) = own_refs w k (Some c)"
    by (rule aborted_cases [OF assms(5)]) (use other in \<open>simp_all del: aborted.simps\<close>)
  show "own w d < length d" if "aborted u (Some c) = Some d" "own w c < length c"
    by (rule aborted_cases [OF assms(5)]) (use other that in \<open>auto simp del: aborted.simps\<close>)
qed

lemma aborted_mem: "aborted u co = Some d \<Longrightarrow> e \<in> set d \<Longrightarrow> \<exists>c. co = Some c \<and> e \<in> set c"
  by (cases co) (auto simp: Let_def split: if_splits dest: set_dropWhileD)

lemma history_rollback:
  assumes "history_ok h" "h_active h u = Some t"
  obtains s' where "UndoEntries (rev (undo_buffers (h_set h) u)) (h_set h) = Inr s'" "same_but_entries (h_set h) s'"
    "chain_at s' = (\<lambda>k. aborted u (chain_at (h_set h) k))" "history_ok (ended u (h\<lparr>h_set := s'\<rparr>))"
proof -
  have t: "writer_ok h u t" using history_active [OF assms] .
  have s: "set_ok (h_set h)" "no_bare_dummy (h_set h)" using assms(1) by (auto simp: history_ok_def)
  have nu: "\<not> IsCommitted u" using t by (auto simp: writer_ok_def running_def)
  have undo: "refs_ok u (undo_buffers (h_set h) u) (h_set h)" using t by (auto simp: writer_ok_def undo_ok_def)
  obtain s' where s': "UndoEntries (rev (undo_buffers (h_set h) u)) (h_set h) = Inr s'" "same_but_entries (h_set h) s'" "set_ok s'"
    "chain_at s' = (\<lambda>k. aborted u (chain_at (h_set h) k))"
    using UndoEntries_aborts [OF s(1) undo nu] by blast
  let ?h = "ended u (h\<lparr>h_set := s'\<rparr>)"
  have top: "entry_timestamp e \<noteq> u" if ch: "in_chains e s'" for e
  proof
    assume u: "entry_timestamp e = u"
    obtain k d where d0: "aborted u (chain_at (h_set h) k) = Some d" "e \<in> set d" using ch s'(4) by (auto simp: in_chains_def)
    then obtain c where k: "chain_at (h_set h) k = Some c" by (cases "chain_at (h_set h) k") auto
    have e: "e \<in> set (dropWhile (\<lambda>e. entry_timestamp e = u) c)" using d0 k by (auto simp: Let_def split: if_splits)
    let ?d = "drop (own u c) c"
    have d: "dropWhile (\<lambda>e. entry_timestamp e = u) c = ?d" by (simp add: own_def dropWhile_eq_drop)
    obtain i where "i < length ?d" "e = ?d ! i" using e d by (metis in_set_conv_nth)
    then have "own u c + i < length c" "e = c ! (own u c + i)" by simp_all
    then show False
      using own_versions [OF set_ok_chain [OF s(1) k] nu, of "own u c + i"] u by simp
  qed
  have "stamps_ok ?h" unfolding stamps_ok_def
  proof (intro allI impI)
    fix e
    assume e: "in_chains e (h_set ?h)"
    then have "in_chains e s'" by (simp add: ended_def)
    then have "entry_timestamp e \<noteq> u" "in_chains e (h_set h)"
      using top s'(4) aborted_mem by (auto simp: in_chains_def, blast)
    then show "if IsCommitted (entry_timestamp e) then entry_timestamp e < h_clock ?h else h_active ?h (entry_timestamp e) \<noteq> None"
      using assms(1) by (simp add: history_ok_def stamps_ok_def ended_def)
  qed
  moreover have "writer_ok ?h w x" if act: "h_active ?h w = Some x" for w x
  proof -
    have w: "w \<noteq> u" "writer_ok h w x" using act history_active [OF assms(1), of w x] by (auto simp: ended_def split: if_splits)
    then have nw: "\<not> IsCommitted w" by (auto simp: writer_ok_def running_def)
    have "undo_ok w s'" unfolding undo_ok_def refs_ok_def
    proof
      fix k
      have old: "filter (\<lambda>r. fst r = k) (undo_buffers (h_set h) w) = own_refs w k (chain_at (h_set h) k)"
        "\<And>c. chain_at (h_set h) k = Some c \<Longrightarrow> own w c < length c"
        using w(2) unfolding writer_ok_def undo_ok_def refs_ok_def by blast+
      show "filter (\<lambda>r. fst r = k) (undo_buffers s' w) = own_refs w k (chain_at s' k) \<and>
          (\<forall>c. chain_at s' k = Some c \<longrightarrow> own w c < length c)"
      proof (cases "chain_at (h_set h) k")
        case None
        then show ?thesis using old(1) s'(2,4) by (simp add: same_but_entries_def)
      next
        case (Some c)
        have len: "own u c < length c" using undo Some by (simp add: refs_ok_def)
        note ab = aborted_ok [OF set_ok_chain [OF s(1) Some] nu nw w(1) [symmetric] len]
        have "filter (\<lambda>r. fst r = k) (undo_buffers s' w) = own_refs w k (chain_at s' k)"
          using old(1) s'(2) Some ab(1) unfolding s'(4) by (simp only: same_but_entries_def)
        moreover have "own w d < length d" if "chain_at s' k = Some d" for d
          using that ab(2) [of d] old(2) [OF Some] Some unfolding s'(4) by (simp only:)
        ultimately show ?thesis by blast
      qed
    qed
    then show ?thesis using w by (auto simp: writer_ok_def ended_def)
  qed
  moreover have "no_bare_dummy s'"
    using s(2) unfolding no_bare_dummy_def s'(4)
  proof (intro allI impI)
    fix k d
    assume old: "\<forall>k c. chain_at (h_set h) k = Some c \<longrightarrow> entry_type (hd c) \<noteq> INVALID" and d: "aborted u (chain_at (h_set h) k) = Some d"
    then obtain c where c: "chain_at (h_set h) k = Some c" by (cases "chain_at (h_set h) k") auto
    show "entry_type (hd d) \<noteq> INVALID"
    proof (cases "own u c = 0")
      case True
      then have "d = c" using d c by (cases c) (auto simp: own_Cons split: if_splits)
      then show ?thesis using old c by blast
    qed (use d c in \<open>auto simp: Let_def split: if_splits\<close>)
  qed
  ultimately have "history_ok ?h" using s'(3) assms(1) by (simp add: history_ok_def ended_def)
  then show thesis using that s' by blast
qed

lemma history_tick: "history_ok h \<Longrightarrow> IsCommitted (h_clock h) \<Longrightarrow> history_ok (h\<lparr>h_clock := h_clock h + 1\<rparr>)"
proof -
  assume h: "history_ok h" and c: "IsCommitted (h_clock h)"
  note lt = clock_next [OF c]
  have "stamps_ok (h\<lparr>h_clock := h_clock h + 1\<rparr>)" unfolding stamps_ok_def
  proof (intro allI impI)
    fix e
    assume "in_chains e (h_set (h\<lparr>h_clock := h_clock h + 1\<rparr>))"
    then have "if IsCommitted (entry_timestamp e) then entry_timestamp e < h_clock h else h_active h (entry_timestamp e) \<noteq> None"
      using h by (simp add: history_ok_def stamps_ok_def)
    then show "if IsCommitted (entry_timestamp e) then entry_timestamp e < h_clock (h\<lparr>h_clock := h_clock h + 1\<rparr>)
        else h_active (h\<lparr>h_clock := h_clock h + 1\<rparr>) (entry_timestamp e) \<noteq> None"
      using lt by (simp split: if_splits)
  qed
  moreover have "writer_ok (h\<lparr>h_clock := h_clock h + 1\<rparr>) u t" if "h_active h u = Some t" for u t
    using history_active [OF h that] lt less_trans [OF _ lt] by (auto simp: writer_ok_def)
  ultimately show ?thesis using h clock_pos [OF c] by (simp add: history_ok_def)
qed

lemma ended_tick: "ended u (h\<lparr>h_set := s, h_clock := n\<rparr>) = (ended u (h\<lparr>h_set := s\<rparr>))\<lparr>h_clock := n\<rparr>"
  by (cases h) (simp add: ended_def)

lemma ended_clock [simp]: "h_clock (ended u h) = h_clock h"
  by (simp add: ended_def)

lemma history_same_chains:
  assumes "history_ok h" "chain_at s = chain_at (h_set h)" "same_but_entries (h_set h) s" "set_ok s"
  shows "history_ok (h\<lparr>h_set := s\<rparr>)"
  using assms
  by (simp add: history_ok_def stamps_ok_def in_chains_def no_bare_dummy_def writer_ok_def undo_ok_def refs_ok_def same_but_entries_def)

lemma history_fail:
  assumes "history_ok h" "h_active h u = Some t" "IsCommitted (h_clock h)" "\<not> respells u (h_set h)"
    and "CommitEntries verify drop_blocks (h_clock h) (undo_buffers (h_set h) u) (h_set h) = (s1, visited, error)"
  obtains s2 s3 where "RevertEntries u visited s1 = Inr s2" "chain_at s2 = chain_at (h_set h)"
    "UndoEntries (rev (undo_buffers s2 u)) s2 = Inr s3" "chain_at s3 = (\<lambda>k. aborted u (chain_at (h_set h) k))"
    "history_ok (ended u (h\<lparr>h_set := s3, h_clock := h_clock h + 1\<rparr>))"
proof -
  have t: "\<not> IsCommitted u" "refs_ok u (undo_buffers (h_set h) u) (h_set h)" "set_ok (h_set h)"
    using history_active [OF assms(1,2)] assms(1) by (auto simp: writer_ok_def running_def undo_ok_def history_ok_def)
  have "\<forall>r\<in>set (undo_buffers (h_set h) u). spelled_alike r (h_set h)" using assms(4) by (simp add: respells_def)
  from reverted [OF t(3,2,1) this assms(5)] obtain s2 where s2: "RevertEntries u visited s1 = Inr s2"
    "chain_at s2 = chain_at (h_set h)" "same_but_entries (h_set h) s2" "set_ok s2" by blast
  let ?h = "h\<lparr>h_set := s2\<rparr>"
  have "history_ok ?h" by (rule history_same_chains [OF assms(1) s2(2-4)])
  moreover have "h_active ?h u = Some t" using assms(2) by simp
  ultimately obtain s3 where s3: "UndoEntries (rev (undo_buffers (h_set ?h) u)) (h_set ?h) = Inr s3"
    "chain_at s3 = (\<lambda>k. aborted u (chain_at (h_set ?h) k))" "history_ok (ended u (?h\<lparr>h_set := s3\<rparr>))"
    using history_rollback by blast
  have "history_ok (ended u (h\<lparr>h_set := s3, h_clock := h_clock h + 1\<rparr>))"
    using history_tick [OF s3(3)] assms(3) by (simp add: ended_tick)
  then show thesis using that [of s2 s3] s2(1,2) s3(1,2) by simp
qed

text \<open>Where a commit fails, the chains are those of a rollback.\<close>

lemma fails_aborts:
  assumes "catalog_step (Fails u) h h'" "history_ok h" "\<not> respells u (h_set h)"
  obtains t s' where "h_active h u = Some t" "IsCommitted (h_clock h)" "chain_at s' = (\<lambda>k. aborted u (chain_at (h_set h) k))"
    "h' = ended u (h\<lparr>h_set := s', h_clock := h_clock h + 1\<rparr>)" "history_ok h'"
  using assms(1)
proof (rule catalog_failsE)
  fix t s'
  assume a: "h' = ended u (h\<lparr>h_set := s', h_clock := h_clock h + 1\<rparr>)" "h_active h u = Some t" "IsCommitted (h_clock h)"
    "UndoEntries (rev (undo_buffers (h_set h) u)) (h_set h) = Inr s'"
  obtain s'' where s: "UndoEntries (rev (undo_buffers (h_set h) u)) (h_set h) = Inr s''"
    "chain_at s'' = (\<lambda>k. aborted u (chain_at (h_set h) k))" "history_ok (ended u (h\<lparr>h_set := s''\<rparr>))"
    using history_rollback [OF assms(2) a(2)] by blast
  have "s' = s''" using s(1) a(4) by simp
  moreover have "history_ok h'" using history_tick [OF s(3)] a(1,3) \<open>s' = s''\<close> by (simp add: ended_tick)
  ultimately show thesis using that a s(2) by blast
next
  fix t verify drop_blocks s1 visited error s2 s3
  assume a: "h' = ended u (h\<lparr>h_set := s3, h_clock := h_clock h + 1\<rparr>)" "h_active h u = Some t" "IsCommitted (h_clock h)"
    "CommitEntries verify drop_blocks (h_clock h) (undo_buffers (h_set h) u) (h_set h) = (s1, visited, error)"
    "RevertEntries u visited s1 = Inr s2" "UndoEntries (rev (undo_buffers s2 u)) s2 = Inr s3"
  obtain s2' s3' where s: "RevertEntries u visited s1 = Inr s2'" "UndoEntries (rev (undo_buffers s2' u)) s2' = Inr s3'"
    "chain_at s3' = (\<lambda>k. aborted u (chain_at (h_set h) k))"
    "history_ok (ended u (h\<lparr>h_set := s3', h_clock := h_clock h + 1\<rparr>))"
    using history_fail [OF assms(2) a(2,3) assms(3) a(4)] by blast
  have "s3 = s3'" using s(1,2) a(5,6) by simp
  then show thesis using that a(1-3) s(3,4) by blast
qed

lemma history_cleanup:
  assumes "history_ok h" "chain_at (h_set h) k = Some (xs @ p # e # ys)" "IsCommitted (entry_timestamp p)"
  obtains s' where "CleanupEntry (k, entry_addr e) (h_set h) = Inr s'" "same_but_entries (h_set h) s'"
    "chain_at s' = (chain_at (h_set h))(k := if entry_deleted p \<and> xs = [] \<and> ys = [] then None else Some (xs @ p # ys))"
    "history_ok (h\<lparr>h_set := s'\<rparr>)"
proof -
  have s: "set_ok (h_set h)" "no_bare_dummy (h_set h)" using assms(1) by (auto simp: history_ok_def)
  obtain s' where s': "CleanupEntry (k, entry_addr e) (h_set h) = Inr s'" "same_but_entries (h_set h) s'" "set_ok s'"
    "chain_at s' = (chain_at (h_set h))(k := if entry_deleted p \<and> xs = [] \<and> ys = [] then None else Some (xs @ p # ys))"
    using CleanupEntry_effect [OF s(1) assms(2)] by blast
  have "in_chains f (h_set h)" if "in_chains f s'" for f
    using that assms(2) s'(4) by (fastforce simp: in_chains_def split: if_splits)
  then have "stamps_ok (h\<lparr>h_set := s'\<rparr>)" using assms(1) by (simp add: history_ok_def stamps_ok_def)
  moreover have "writer_ok (h\<lparr>h_set := s'\<rparr>) w x" if act: "h_active (h\<lparr>h_set := s'\<rparr>) w = Some x" for w x
  proof -
    have w: "writer_ok h w x" using act history_active [OF assms(1), of w x] by simp
    then have nw: "\<not> IsCommitted w" by (auto simp: writer_ok_def running_def)
    then have pw: "entry_timestamp p \<noteq> w" using assms(3) by auto
    have own: "own w (xs @ p # zs) = own w xs" "own w xs \<le> length xs" for zs
      using pw by (induction xs) (auto simp: own_Cons)
    have take: "take (own w xs) (tl (xs @ p # e # ys)) = take (own w xs) (tl (xs @ p # ys))"
      using own(2) by (cases xs) (auto simp: take_Cons')
    have "undo_ok w s'" unfolding undo_ok_def refs_ok_def
    proof
      fix k'
      have old: "filter (\<lambda>r. fst r = k') (undo_buffers (h_set h) w) = own_refs w k' (chain_at (h_set h) k')"
        "\<And>c. chain_at (h_set h) k' = Some c \<Longrightarrow> own w c < length c"
        using w unfolding writer_ok_def undo_ok_def refs_ok_def by blast+
      show "filter (\<lambda>r. fst r = k') (undo_buffers s' w) = own_refs w k' (chain_at s' k') \<and>
          (\<forall>c. chain_at s' k' = Some c \<longrightarrow> own w c < length c)"
        using old s'(2,4) assms(2) own take by (cases "k' = k") (auto simp: same_but_entries_def le_imp_less_Suc trans_le_add1)
    qed
    then show ?thesis using w by (auto simp: writer_ok_def)
  qed
  moreover have "no_bare_dummy s'"
  proof -
    have "entry_type (hd (xs @ p # e # ys)) \<noteq> INVALID" using s(2) assms(2) unfolding no_bare_dummy_def by blast
    then have "entry_type (hd (xs @ p # ys)) \<noteq> INVALID" by (cases xs) auto
    then show ?thesis using s(2) s'(4) by (auto simp: no_bare_dummy_def split: if_splits)
  qed
  ultimately have "history_ok (h\<lparr>h_set := s'\<rparr>)" using s'(3) assms(1) by (simp add: history_ok_def)
  then show thesis using that s' by blast
qed

lemma works_changes:
  assumes "catalog_step (Works u) h h'" "history_ok h"
  obtains t s' where "h_active h u = Some t" "changes t (h_set h) s'" "h' = h\<lparr>h_set := s'\<rparr>"
proof -
  have run: "running t" "set_ok (h_set h)" if "h_active h u = Some t" for t
    using history_active [OF assms(2) that] assms(2) by (auto simp: writer_ok_def history_ok_def)
  from assms(1) show thesis
  proof cases
    case create
    then show ?thesis using that CreateEntry_changes(1) run by blast
  next
    case drop
    then show ?thesis using that DropEntry_changes(1) run by blast
  next
    case alter
    then show ?thesis using that changes_alter(1) run by blast
  qed
qed

lemma history_ok_step:
  assumes "catalog_step a h h'" "history_ok h" "spelling_kept a h"
  shows "history_ok h'"
proof (cases "\<exists>u. a = Fails u")
  case True
  then show ?thesis using fails_aborts assms by (metis spelling_kept.simps(1))
next
  case other: False
  from assms(1) show ?thesis
  proof cases
    case begins
    then show ?thesis using history_ok_begins [OF assms(2)] by blast
  next
    case (commit u t verify drop_blocks s' visited)
    then show ?thesis by (metis history_commit [OF assms(2) commit(3,4)] CommitEntries_ok sum.inject(2))
  next
    case (rollback u t s')
    then show ?thesis by (metis history_rollback [OF assms(2) rollback(3)] sum.inject(2))
  next
    case (cleanup k xs p e ys s')
    then show ?thesis by (metis history_cleanup [OF assms(2) cleanup(3,4)] sum.inject(2))
  qed (use other assms works_changes history_ok_works in metis)+
qed

lemma catalog_history_ok: "catalog_reachable h \<Longrightarrow> history_ok h"
  by (induction rule: catalog_reachable.induct) (blast intro: history_ok_new history_ok_step)+

section \<open>Snapshots\<close>

lemma running_uses: "running t \<Longrightarrow> IsCommitted ts \<Longrightarrow> UseTimestamp t ts \<longleftrightarrow> ts < ct_start_time t"
  by (auto simp: UseTimestamp_def running_def)

lemma last_not_own:
  assumes "chain_ok k n c" "\<not> IsCommitted u" "own u c < length c"
  shows "entry_timestamp (last c) \<noteq> u"
proof -
  have "c \<noteq> []" using assms(3) by auto
  then show ?thesis using own_versions [OF assms(1,2), of "length c - 1"] assms(3) by (simp add: last_conv_nth)
qed

lemma commit_keeps_view:
  assumes "history_ok h" "h_active h u = Some t" "running x" "ct_transaction_id x \<noteq> u" "ct_start_time x \<le> h_clock h"
    and "IsCommitted (h_clock h)" "chain_at (h_set h) k = Some c"
  shows "visible_version x (Some (stamped (\<lambda>e. entry_timestamp e = u) (h_clock h) c)) = visible_version x (Some c)"
proof -
  have t: "writer_ok h u t" using history_active [OF assms(1,2)] .
  have ok: "chain_ok k (next_addr (h_set h)) c" using assms(1,7) by (auto simp: history_ok_def set_ok_def)
  have "own u c < length c" using t assms(7) by (auto simp: writer_ok_def undo_ok_def refs_ok_def)
  moreover have nu: "\<not> IsCommitted u" using t by (auto simp: writer_ok_def running_def)
  ultimately have last: "entry_timestamp (last c) \<noteq> u" "c \<noteq> []" using last_not_own [OF ok] by auto
  have "\<not> UseTimestamp x u" using assms(3,4) nu by (auto simp: UseTimestamp_def running_def IsCommitted_def)
  moreover have "\<not> UseTimestamp x (h_clock h)" using assms(3,5,6) by (simp add: running_uses)
  ultimately show ?thesis using visible_stamped [of c "\<lambda>e. entry_timestamp e = u" x] last by simp
qed

lemma aborted_keeps_view:
  assumes "history_ok h" "h_active h w = Some t" "running x" "ct_transaction_id x \<noteq> w"
  shows "visible_version x (aborted w (chain_at (h_set h) k)) = visible_version x (chain_at (h_set h) k)"
proof (cases "chain_at (h_set h) k")
  case (Some c)
  have aw: "running t" "ct_transaction_id t = w" "undo_ok w (h_set h)" "set_ok (h_set h)"
    using history_active [OF assms(1,2)] assms(1) by (auto simp: writer_ok_def history_ok_def)
  then have "\<not> UseTimestamp x w" using assms(3,4) running_ignores_others [of t x] by auto
  moreover have "own w c < length c" using aw(3) Some by (simp add: undo_ok_def refs_ok_def)
  ultimately show ?thesis using visible_aborted [OF aw(4) Some] Some by (simp del: aborted.simps visible_version.simps)
qed simp

lemma step_keeps_view:
  assumes ok: "history_ok h" and x: "h_active h u = Some x" and step: "catalog_step a h h'" and other: "\<not> of_transaction u a"
    and kept: "spelling_kept a h"
  shows "h_active h' u = Some x \<and> (\<forall>k. visible_version x (chain_at (h_set h') k) = visible_version x (chain_at (h_set h) k))"
proof -
  have ax: "running x" "ct_transaction_id x = u" "ct_start_time x < h_clock h" "set_ok (h_set h)"
    using history_active [OF ok x] ok by (auto simp: writer_ok_def history_ok_def)
  show ?thesis
  proof (cases a)
    case (Works w)
    obtain t s' where t: "h_active h w = Some t" "changes t (h_set h) s'" "h' = h\<lparr>h_set := s'\<rparr>"
      using works_changes step ok Works by blast
    then have "running t" "ct_transaction_id t = w" using history_active [OF ok t(1)] by (auto simp: writer_ok_def)
    then show ?thesis using changes_visible [OF t(2) _ ax(1) _ ax(4)] t x ax(2) other Works by simp
  next
    case (Commits w)
    from step [unfolded Commits] obtain t verify drop_blocks s' visited where t: "h_active h w = Some t" "IsCommitted (h_clock h)"
      "CommitEntries verify drop_blocks (h_clock h) (undo_buffers (h_set h) w) (h_set h) = (s', visited, None)"
      "h' = ended w (h\<lparr>h_set := s', h_clock := h_clock h + 1\<rparr>)"
      by (rule catalog_commitE)
    have eff: "chain_at s' k = map_option (stamped (\<lambda>e. entry_timestamp e = w) (h_clock h)) (chain_at (h_set h) k)" for k
      using history_commit [OF ok t(1,2)] CommitEntries_ok [OF t(3)] by (metis sum.inject(2))
    have "visible_version x (chain_at s' k) = visible_version x (chain_at (h_set h) k)" for k
      using commit_keeps_view [OF ok t(1) ax(1) _ _ t(2), of k] ax(2,3) other Commits
      unfolding eff by (cases "chain_at (h_set h) k") (auto simp del: visible_version.simps(2))
    then show ?thesis using t(4) x other Commits by (simp add: ended_def)
  next
    case (Fails w)
    obtain t s' where f: "h_active h w = Some t" "chain_at s' = (\<lambda>k. aborted w (chain_at (h_set h) k))"
      "h' = ended w (h\<lparr>h_set := s', h_clock := h_clock h + 1\<rparr>)"
      using fails_aborts [OF _ ok] step kept Fails by (metis spelling_kept.simps(1))
    then show ?thesis using aborted_keeps_view [OF ok f(1) ax(1)] ax(2) x other Fails by (simp add: ended_def)
  next
    case (Rolls_back w)
    from step [unfolded Rolls_back] obtain t s' where t: "h_active h w = Some t"
      "UndoEntries (rev (undo_buffers (h_set h) w)) (h_set h) = Inr s'" "h' = ended w (h\<lparr>h_set := s'\<rparr>)"
      by (rule catalog_rollbackE)
    have eff: "chain_at s' = (\<lambda>k. aborted w (chain_at (h_set h) k))"
      using history_rollback [OF ok t(1)] t(2) by (metis sum.inject(2))
    show ?thesis using t(3) x other Rolls_back aborted_keeps_view [OF ok t(1) ax(1)] ax(2) by (simp add: eff ended_def)
  next
    case Cleans
    from step [unfolded Cleans] obtain k xs p e ys s' where c: "chain_at (h_set h) k = Some (xs @ p # e # ys)"
      "IsCommitted (entry_timestamp p)" "\<And>u t. h_active h u = Some t \<Longrightarrow> entry_timestamp p < ct_start_time t"
      "CleanupEntry (k, entry_addr e) (h_set h) = Inr s'" "h' = h\<lparr>h_set := s'\<rparr>"
      by (rule catalog_step.cases) auto
    have eff: "chain_at s' = (chain_at (h_set h))(k := if entry_deleted p \<and> xs = [] \<and> ys = [] then None else Some (xs @ p # ys))"
      using history_cleanup [OF ok c(1,2)] c(4) by (metis sum.inject(2))
    have "UseTimestamp x (entry_timestamp p)" using c(2) c(3) [OF x] ax(1) by (simp add: running_uses)
    from visible_remove [OF this, of xs e ys] have
      "visible_version x (chain_at s' k) = visible_version x (chain_at (h_set h) k)"
      using c(1) by (auto simp: eff visible_single simp del: visible_version.simps(2))
    then have "visible_version x (chain_at s' k') = visible_version x (chain_at (h_set h) k')" for k'
      by (cases "k' = k") (simp_all add: eff)
    then show ?thesis using c(5) x by simp
  next
    case (Begins w)
    from step [unfolded Begins] show ?thesis
    proof cases
      case (begins t)
      then show ?thesis using x other Begins by (auto simp: begun_def chain_at_def)
    qed
  qed
qed

inductive others_run :: "transaction_t \<Rightarrow> set_history \<Rightarrow> set_history \<Rightarrow> bool" for u where
  none: "others_run u h h"
| more: "others_run u h h1 \<Longrightarrow> catalog_step a h1 h2 \<Longrightarrow> \<not> of_transaction u a \<Longrightarrow> spelling_kept a h1 \<Longrightarrow> others_run u h h2"

lemma others_keep_view:
  assumes "others_run u h h'" "history_ok h" "h_active h u = Some x"
  shows "history_ok h' \<and> h_active h' u = Some x \<and> (\<forall>k. visible_version x (chain_at (h_set h') k) = visible_version x (chain_at (h_set h) k))"
  using assms
proof (induction rule: others_run.induct)
  case (more h h1 a h2)
  then have "history_ok h1" "h_active h1 u = Some x" by blast+
  then show ?case using more step_keeps_view [OF _ _ more(2,3,4)] history_ok_step [OF more(2) _ more(4)] by simp
qed simp

section \<open>Scans\<close>

lemma shown_version: "(let e = fst (GetEntryForTransaction t (hd c) (tl c)) in if entry_deleted e then None else Some e) = visible_version t (Some c)"
  by (simp add: lookup_chain_def Let_def case_prod_unfold)

lemma GetEntryForTransaction_mem: "fst (GetEntryForTransaction t e c) \<in> set (e # c)"
  by (induction t e c rule: GetEntryForTransaction.induct) auto

lemma visible_mem: "c \<noteq> [] \<Longrightarrow> visible_version t (Some c) = Some e \<Longrightarrow> e \<in> set c"
  using GetEntryForTransaction_mem [of t "hd c" "tl c"]
  by (auto simp: lookup_chain_def Let_def case_prod_unfold split: if_splits)

lemma visible_entries_filter: "visible_entries t kvs = List.map_filter (\<lambda>(k, c). visible_version t (Some c)) kvs"
proof (induction kvs)
  case (Cons kv kvs)
  obtain k c where "kv = (k, c)" by (cases kv)
  moreover have "visible_version t (Some c) = (if entry_deleted (fst (GetEntryForTransaction t (hd c) (tl c))) then None
      else Some (fst (GetEntryForTransaction t (hd c) (tl c))))"
    using shown_version [of t c] by (simp only: Let_def)
  ultimately show ?case using Cons by (simp add: visible_entries_def map_filter_simps del: visible_version.simps)
qed (simp add: visible_entries_def map_filter_simps)

lemma visible_entries_keys:
  assumes "\<forall>(k, c)\<in>set kvs. \<forall>e. visible_version t (Some c) = Some e \<longrightarrow> ci_key (entry_name e) = k"
    and "sorted (map fst kvs)" "distinct (map fst kvs)"
  shows "sorted (map (ci_key \<circ> entry_name) (visible_entries t kvs)) \<and> distinct (map (ci_key \<circ> entry_name) (visible_entries t kvs)) \<and>
    (ci_key \<circ> entry_name) ` set (visible_entries t kvs) \<subseteq> fst ` set kvs"
  using assms
proof (induction kvs)
  case (Cons kv kvs)
  obtain k c where kv: "kv = (k, c)" by (cases kv)
  show ?case
  proof (cases "visible_version t (Some c)")
    case None
    then have "visible_entries t (kv # kvs) = visible_entries t kvs"
      by (simp add: visible_entries_filter kv map_filter_simps del: visible_version.simps)
    then show ?thesis using Cons by auto
  next
    case (Some e)
    then have "visible_entries t (kv # kvs) = e # visible_entries t kvs" "ci_key (entry_name e) = k"
      using Cons.prems(1) by (simp_all add: visible_entries_filter kv map_filter_simps del: visible_version.simps)
    moreover have above: "\<forall>y\<in>fst ` set kvs. k \<le> y \<and> k \<noteq> y" using Cons.prems kv by auto
    moreover have rest: "sorted (map (ci_key \<circ> entry_name) (visible_entries t kvs)) \<and> distinct (map (ci_key \<circ> entry_name) (visible_entries t kvs)) \<and>
      (ci_key \<circ> entry_name) ` set (visible_entries t kvs) \<subseteq> fst ` set kvs"
      using Cons by (intro Cons.IH) (auto simp del: visible_version.simps)
    moreover from above rest have "\<forall>y\<in>(ci_key \<circ> entry_name) ` set (visible_entries t kvs). k \<le> y \<and> k \<noteq> y" by blast
    ultimately show ?thesis using kv by (auto simp: o_def)
  qed
qed (simp add: visible_entries_def)

lemma scan_set:
  assumes "set_ok s"
  shows "set (visible_entries t (entries s)) = {e. \<exists>k. visible_version t (chain_at s k) = Some e}"
proof -
  have d: "distinct (map fst (entries s))" using assms by (simp add: set_ok_def keys_ok_def)
  have "e \<in> set (visible_entries t (entries s)) \<longleftrightarrow> (\<exists>(k, c)\<in>set (entries s). visible_version t (Some c) = Some e)" for e
    unfolding visible_entries_filter map_filter_def by (force simp del: visible_version.simps)
  also have "\<dots> e \<longleftrightarrow> (\<exists>k c. chain_at s k = Some c \<and> visible_version t (Some c) = Some e)" for e
    using d unfolding chain_at_def by (auto simp del: visible_version.simps)
  also have "\<dots> e \<longleftrightarrow> (\<exists>k. visible_version t (chain_at s k) = Some e)" for e
    by (metis option.exhaust option.distinct(1) visible_version.simps(1))
  finally show ?thesis by blast
qed

lemma scan_unique:
  assumes "set_ok s" "set_ok s'" "\<forall>k. visible_version t (chain_at s' k) = visible_version t (chain_at s k)"
  shows "visible_entries t (entries s') = visible_entries t (entries s)"
proof -
  let ?f = "ci_key \<circ> entry_name"
  have key: "\<forall>(k, c)\<in>set (entries x). \<forall>e. visible_version t (Some c) = Some e \<longrightarrow> ci_key (entry_name e) = k"
    if "set_ok x" for x
  proof (clarify)
    fix k c e
    assume "(k, c) \<in> set (entries x)" "visible_version t (Some c) = Some e"
    moreover then have "chain_ok k (next_addr x) c"
      using that by (auto simp: set_ok_def keys_ok_def chain_at_def)
    ultimately show "ci_key (entry_name e) = k" using visible_mem [of c t e] by (auto simp: chain_ok_def)
  qed
  have sd: "sorted (map ?f (visible_entries t (entries x))) \<and> distinct (map ?f (visible_entries t (entries x)))" if "set_ok x" for x
    using visible_entries_keys [OF key [OF that]] that by (auto simp: set_ok_def keys_ok_def)
  have set: "set (visible_entries t (entries s')) = set (visible_entries t (entries s))"
    using scan_set [OF assms(1)] scan_set [OF assms(2)] assms(3) by simp
  have "inj_on ?f (set (visible_entries t (entries s)))" using sd [OF assms(1)] by (simp add: distinct_map)
  then show ?thesis
    using map_sorted_distinct_set_unique [of ?f "visible_entries t (entries s')" "visible_entries t (entries s)"] set sd assms(1,2)
    by simp
qed

section \<open>Properties\<close>

text \<open>A run for the examples: one transaction creates a table and commits while another one is active.\<close>

definition example_generators :: default_env where
  "example_generators = \<lparr>generator = None, default_names = []\<rparr>"

definition example_catalog :: Catalog where
  "example_catalog = \<lparr>is_system_catalog = False, is_temporary_catalog = False\<rparr>"

definition example_transaction :: "nat \<Rightarrow> CatalogTransaction" where
  "example_transaction n = \<lparr>ct_has_transaction = True, ct_has_context = True,
     ct_transaction_id = TRANSACTION_ID_START + of_nat n, ct_start_time = 2 + of_nat n\<rparr>"

definition example_table :: CatalogEntry where
  "example_table = CatalogEntry_new TABLE_ENTRY ''Orders''"

definition example_begun :: set_history where
  "example_begun = begun (example_transaction 1) (begun (example_transaction 0) (new_history 2))"

definition example_set :: CatalogSet where
  "example_set = fst (the (CreateEntry example_generators example_catalog (example_transaction 0) ''Orders'' example_table
     (\<lambda>v s. (s, None)) [] (h_set example_begun)))"

definition example_history :: set_history where
  "example_history = example_begun\<lparr>h_set := example_set\<rparr>"

lemma example_running: "running (example_transaction 0)" "running (example_transaction 1)"
  by (simp_all add: running_def example_transaction_def IsCommitted_def TRANSACTION_ID_START_def word_less_nat_alt)

lemma example_begins: "catalog_reachable example_begun"
  unfolding example_begun_def
proof (intro catalog_reachable.step [OF _ catalog_step.begins _] catalog_reachable.new spelling_kept.simps [THEN iffD2] TrueI)
  show "0 < (2 :: transaction_t)" by simp
qed (use example_running in \<open>simp_all add: begun_def new_history_def example_transaction_def\<close>)

lemma example_active:
  "h_active example_history TRANSACTION_ID_START = Some (example_transaction 0)"
  "h_active example_history (TRANSACTION_ID_START + 1) = Some (example_transaction 1)"
  "h_clock example_history = 4"
  by (simp_all add: example_history_def example_begun_def begun_def new_history_def example_transaction_def)

lemma example_create:
  "CreateEntry example_generators example_catalog (example_transaction 0) ''Orders'' example_table (\<lambda>v s. (s, None)) []
     (h_set example_begun) = Some (example_set, Inr True)"
proof -
  have ok: "set_ok (h_set example_begun)" using catalog_history_ok [OF example_begins] by (simp add: history_ok_def)
  have none: "chain_at (h_set example_begun) k = None" for k
    by (simp add: example_begun_def begun_def new_history_def chain_at_def)
  have inv: "CheckCatalogEntryInvariants example_catalog example_table ''Orders'' = Inr ()"
    by (simp add: CheckCatalogEntryInvariants_def example_catalog_def example_table_def CatalogEntry_new_def)
  let ?v = "example_table\<lparr>entry_timestamp := ct_transaction_id (example_transaction 0)\<rparr>"
  have "CreateEntry example_generators example_catalog (example_transaction 0) ''Orders'' example_table (\<lambda>v s. (s, None)) []
     (h_set example_begun) = Some (linked (example_transaction 0) ?v (with_dummy ''Orders'' (h_set example_begun)), Inr True)"
    using CreateEntryInternal_eq [of example_generators ?v "''Orders''" "h_set example_begun"] ok none inv
    by (simp add: CreateEntry_def example_generators_def example_table_def CatalogEntry_new_def)
  then show ?thesis by (simp add: example_set_def)
qed

lemma example_step: "catalog_step (Works TRANSACTION_ID_START) example_begun example_history"
proof -
  have "catalog_step (Works TRANSACTION_ID_START) example_begun (example_begun\<lparr>h_set := example_set\<rparr>)"
    by (rule catalog_step.create [OF _ _ _ _ example_create])
      (simp_all add: example_begun_def begun_def new_history_def example_transaction_def example_generators_def
        example_table_def CatalogEntry_new_def)
  then show ?thesis by (simp add: example_history_def)
qed

lemma example_reachable: "catalog_reachable example_history"
  by (rule catalog_reachable.step [OF example_begins example_step]) simp

lemma example_commits:
  obtains s' where "catalog_step (Commits TRANSACTION_ID_START) example_history
      (ended TRANSACTION_ID_START (example_history\<lparr>h_set := s', h_clock := 5\<rparr>))"
proof -
  have "IsCommitted (h_clock example_history)" by (simp add: example_active IsCommitted_def TRANSACTION_ID_START_def)
  note history_commit [OF catalog_history_ok [OF example_reachable] example_active(1) this]
  then obtain s' where "stamp_all 4 (undo_buffers (h_set example_history) TRANSACTION_ID_START) (h_set example_history) = Inr s'"
    by (auto simp: example_active)
  then have "catalog_step (Commits TRANSACTION_ID_START) example_history
      (ended TRANSACTION_ID_START (example_history\<lparr>h_set := s', h_clock := h_clock example_history + 1\<rparr>))"
    by (intro catalog_step.commit [OF example_active(1) _ CommitEntries_none]) (simp_all add: example_active IsCommitted_def TRANSACTION_ID_START_def)
  then show thesis using that by (simp add: example_active)
qed

text \<open>
  C1. A transaction looks at one version of the catalog: whatever the other transactions create, drop,
  alter, rename, commit, fail to commit or roll back, and whatever is cleaned up, a lookup by an active
  transaction that changes nothing itself gives the same entry, or the same absence, before and after. Of the
  commits that fail, those are left out whose transaction had put a version over one that is spelled
  differently: what they do is C20. The set has no default generator.
\<close>

theorem catalog_snapshot_stable:
  assumes "catalog_reachable h" "h_active h u = Some t" "others_run u h h'" "generator env = None"
  shows "h_active h' u = Some t \<and>
    map_option snd (GetEntry env t name others (h_set h')) = map_option snd (GetEntry env t name others (h_set h))"
  using others_keep_view [OF assms(3) catalog_history_ok [OF assms(1)] assms(2)]
  by (simp add: GetEntry_eq [OF assms(4)] visible_entry_def)

lemma example_others: "others_run (TRANSACTION_ID_START + 1) example_begun example_history"
  by (rule others_run.more [OF others_run.none example_step]) (simp_all add: TRANSACTION_ID_START_def)

theorem catalog_snapshot_stable_witness:
  "map_option snd (GetEntry example_generators (example_transaction 1) ''orders'' [] (h_set example_history)) =
   map_option snd (GetEntry example_generators (example_transaction 1) ''orders'' [] (h_set example_begun))"
  using catalog_snapshot_stable [OF example_begins _ example_others, of "example_transaction 1" example_generators "''orders''" "[]"]
  by (simp add: example_begun_def begun_def example_transaction_def example_generators_def)

text \<open>
  The same for a scan: an active transaction that changes nothing itself is given the same entries in
  the same order, however the chains are created, moved and removed under it.
\<close>

theorem catalog_scan_stable:
  assumes "catalog_reachable h" "h_active h u = Some t" "others_run u h h'" "generator env = None"
  shows "snd (Scan env t others (h_set h')) = snd (Scan env t others (h_set h))"
proof -
  note ok = catalog_history_ok [OF assms(1)]
  note keep = others_keep_view [OF assms(3) ok assms(2)]
  have "set_ok (h_set h)" "set_ok (h_set h')" using ok keep by (simp_all add: history_ok_def)
  from scan_unique [OF this] keep show ?thesis by (simp add: Scan_def CreateDefaultEntries_def assms(4))
qed

theorem catalog_scan_stable_witness:
  "snd (Scan example_generators (example_transaction 1) [] (h_set example_history)) = Inr []"
proof -
  have "snd (Scan example_generators (example_transaction 1) [] (h_set example_history)) =
      snd (Scan example_generators (example_transaction 1) [] (h_set example_begun))"
    by (rule catalog_scan_stable [OF example_begins _ example_others])
      (simp_all add: example_begun_def begun_def example_transaction_def example_generators_def)
  then show ?thesis
    by (simp add: Scan_def CreateDefaultEntries_def example_generators_def example_begun_def begun_def new_history_def visible_entries_def)
qed

text \<open>
  C18. A commit publishes: where a transaction has written a name, a transaction that starts at or after the
  next tick of the clock finds exactly the entry the writer saw, with the commit time as its timestamp, or
  finds nothing where the writer had dropped it.
\<close>

theorem catalog_commit_publishes:
  assumes "catalog_reachable h" "h_active h u = Some t" "catalog_step (Commits u) h h'"
    and "chain_at (h_set h) (ci_key name) = Some (v # c)" "entry_timestamp v = u"
    and "running x" "h_clock h' \<le> ct_start_time x"
  shows "visible_entry x name (h_set h') =
    map_option (\<lambda>e. e\<lparr>entry_timestamp := h_clock h\<rparr>) (visible_entry t name (h_set h))"
proof -
  note ok = catalog_history_ok [OF assms(1)]
  from assms(3) obtain t' verify drop_blocks s' visited where t': "h_active h u = Some t'" "IsCommitted (h_clock h)"
    "CommitEntries verify drop_blocks (h_clock h) (undo_buffers (h_set h) u) (h_set h) = (s', visited, None)" "h' = ended u (h\<lparr>h_set := s', h_clock := h_clock h + 1\<rparr>)"
    by (rule catalog_commitE)
  have eff: "chain_at s' k = map_option (stamped (\<lambda>e. entry_timestamp e = u) (h_clock h)) (chain_at (h_set h) k)" for k
    using history_commit [OF ok t'(1,2)] CommitEntries_ok [OF t'(3)] by (metis sum.inject(2))
  have at: "writer_ok h u t" using history_active [OF ok assms(2)] .
  have "own u (v # c) < length (v # c)" using at assms(4) unfolding writer_ok_def undo_ok_def refs_ok_def by blast
  then have ne: "c \<noteq> []" using assms(5) by (auto simp: own_Cons)
  have "h_clock h < ct_start_time x" using assms(7) t'(4) clock_next [OF t'(2)] by (simp add: ended_def)
  then have "UseTimestamp x (h_clock h)" using assms(6) t'(2) by (simp add: running_uses)
  moreover have "UseTimestamp t u" using at by (simp add: UseTimestamp_def writer_ok_def)
  ultimately show ?thesis
    using eff [of "ci_key name"] assms(4,5) ne t'(4)
    by (simp add: visible_entry_def ended_def stamped_def visible_link del: visible_version.simps)
qed

inductive works_run :: "transaction_t \<Rightarrow> set_history \<Rightarrow> set_history \<Rightarrow> bool" for u where
  none: "works_run u h h"
| more: "works_run u h h1 \<Longrightarrow> catalog_step (Works u) h1 h2 \<Longrightarrow> works_run u h h2"

lemma works_run_changes:
  assumes "works_run u h h'" "history_ok h" "h_active h u = Some t"
  shows "history_ok h' \<and> h_active h' u = Some t \<and> changes t (h_set h) (h_set h')"
  using assms
proof (induction rule: works_run.induct)
  case (more h h1 h2)
  then have "history_ok h1" "h_active h1 u = Some t" "changes t (h_set h) (h_set h1)" by blast+
  then show ?case using works_changes [OF more(2)] history_ok_step [OF more(2)] changes_trans by fastforce
qed (simp add: changes.stay)

lemma rollback_possible: "history_ok h \<Longrightarrow> h_active h u = Some t \<Longrightarrow> \<exists>h'. catalog_step (Rolls_back u) h h'"
  using history_rollback catalog_step.rollback by metis

lemma commit_possible: "history_ok h \<Longrightarrow> h_active h u = Some t \<Longrightarrow> IsCommitted (h_clock h) \<Longrightarrow> \<exists>h'. catalog_step (Commits u) h h'"
  using history_commit catalog_step.commit CommitEntries_none by metis

lemma begun_chains: "chain_at (h_set (begun t h)) = chain_at (h_set h)"
  by (simp add: begun_def chain_at_def)

lemma begun_own:
  assumes "history_ok h" "h_active h (ct_transaction_id t) = None" "running t"
  shows "aborted (ct_transaction_id t) (chain_at (h_set h) k) = chain_at (h_set h) k"
proof (cases "chain_at (h_set h) k")
  case (Some c)
  have "entry_timestamp e \<noteq> ct_transaction_id t" if "e \<in> set c" for e
    using in_chainsI [OF Some that] assms by (auto simp: history_ok_def stamps_ok_def running_def)
  then have "own (ct_transaction_id t) c = 0" by (cases c) (auto simp: own_Cons)
  moreover have "c \<noteq> []" using assms(1) Some by (auto simp: history_ok_def set_ok_def chain_ok_def)
  ultimately show ?thesis using aborted_cases [of "ct_transaction_id t" c] Some by auto
qed simp

text \<open>
  C4. A rollback restores: whatever a transaction has done to a set since it began, rolling back leaves
  every chain as it was, with no version of the transaction and no dummy of a chain it started.
\<close>

theorem catalog_rollback_restores:
  assumes "catalog_reachable h" "h_active h (ct_transaction_id t) = None" "running t" "ct_start_time t = h_clock h"
    and "works_run (ct_transaction_id t) (begun t h) h'" "catalog_step (Rolls_back (ct_transaction_id t)) h' h''"
  shows "chain_at (h_set h'') = chain_at (h_set h)"
proof
  fix k
  let ?u = "ct_transaction_id t"
  note ok = catalog_history_ok [OF assms(1)]
  note ok1 = history_ok_begins [OF ok assms(2-4)]
  have act: "h_active (begun t h) ?u = Some t" by (simp add: begun_def)
  note run = works_run_changes [OF assms(5) ok1 act]
  from assms(6) obtain t' s' where r: "h_active h' ?u = Some t'" "UndoEntries (rev (undo_buffers (h_set h') ?u)) (h_set h') = Inr s'"
    "h'' = ended ?u (h'\<lparr>h_set := s'\<rparr>)"
    by (rule catalog_rollbackE)
  have "chain_at s' k = aborted ?u (chain_at (h_set h') k)"
    using history_rollback [of h' ?u t] run r(2) by (metis sum.inject(2))
  also have "\<dots> = aborted ?u (chain_at (h_set (begun t h)) k)"
    using changes_aborted [of t "h_set (begun t h)" "h_set h'" k] run assms(3) ok1 by (simp add: history_ok_def)
  finally show "chain_at (h_set h'') k = chain_at (h_set h) k"
    using r(3) begun_own [OF ok assms(2,3)] by (simp add: begun_chains ended_def)
qed

theorem catalog_rollback_restores_witness:
  "\<exists>h h'. works_run TRANSACTION_ID_START (begun (example_transaction 0) (new_history 2)) h \<and>
     chain_at (h_set h) (ci_key ''orders'') \<noteq> None \<and> catalog_step (Rolls_back TRANSACTION_ID_START) h h' \<and>
     chain_at (h_set h') = chain_at (h_set (new_history 2))"
proof -
  let ?t = "example_transaction 0"
  let ?h = "begun ?t (new_history 2)"
  have ok: "history_ok ?h"
    by (rule history_ok_begins) (simp_all add: history_ok_new example_running, simp_all add: new_history_def example_transaction_def)
  have act: "h_active ?h TRANSACTION_ID_START = Some ?t" by (simp add: begun_def example_transaction_def)
  have none: "chain_at (h_set ?h) k = None" for k by (simp add: begun_def new_history_def chain_at_def)
  let ?v = "example_table\<lparr>entry_timestamp := ct_transaction_id ?t\<rparr>"
  let ?s = "linked ?t ?v (with_dummy ''Orders'' (h_set ?h))"
  have "CreateEntry example_generators example_catalog ?t ''Orders'' example_table (\<lambda>v s. (s, None)) [] (h_set ?h) = Some (?s, Inr True)"
    using CreateEntryInternal_eq [of example_generators ?v "''Orders''" "h_set ?h"] ok none
    by (simp add: CreateEntry_def CheckCatalogEntryInvariants_def example_catalog_def example_generators_def example_table_def
        CatalogEntry_new_def history_ok_def)
  from catalog_step.create [OF act _ _ _ this] have st: "catalog_step (Works TRANSACTION_ID_START) ?h (?h\<lparr>h_set := ?s\<rparr>)"
    by (simp add: example_generators_def example_table_def CatalogEntry_new_def)
  then have run: "works_run TRANSACTION_ID_START ?h (?h\<lparr>h_set := ?s\<rparr>)" by (rule works_run.more [OF works_run.none])
  have ok2: "history_ok (?h\<lparr>h_set := ?s\<rparr>)" using history_ok_step [OF st ok] by simp
  have act2: "h_active (?h\<lparr>h_set := ?s\<rparr>) TRANSACTION_ID_START = Some ?t" using act by simp
  obtain h'' where rb: "catalog_step (Rolls_back TRANSACTION_ID_START) (?h\<lparr>h_set := ?s\<rparr>) h''"
    using rollback_possible [OF ok2 act2] by blast
  have id: "ct_transaction_id ?t = TRANSACTION_ID_START" by (simp add: example_transaction_def)
  have "chain_at (h_set h'') = chain_at (h_set (new_history 2))"
    by (rule catalog_rollback_restores [of "new_history 2" ?t "?h\<lparr>h_set := ?s\<rparr>"])
      (use run rb id in \<open>simp_all add: catalog_reachable.new example_running, simp_all add: new_history_def example_transaction_def\<close>)
  moreover have "chain_at ?s (ci_key ''orders'') \<noteq> None"
  proof -
    have key: "ci_key ''orders'' = ci_key ''Orders''" by code_simp
    have name: "ci_key (entry_name ?v) = ci_key ''Orders''" "entry_timestamp ?v = ct_transaction_id ?t" "entry_type ?v \<noteq> INVALID"
      by (simp_all add: example_table_def CatalogEntry_new_def)
    have "set_ok (h_set ?h)" using ok by (simp add: history_ok_def)
    from started(3) [OF this none name example_running(1)] show ?thesis unfolding key by auto
  qed
  ultimately show ?thesis using run rb by auto
qed

text \<open>
  C34. A transaction can always end: no reference in its undo buffer dangles, so that its commit and its
  rollback both go through, and so does the clean-up of a version below a committed one. Whatever the
  dependency manager and the storage answer, its commit either ends as a commit or is reverted and rolled
  back, where it has not respelled a name.
\<close>

theorem catalog_transaction_ends:
  assumes "catalog_reachable h" "h_active h u = Some t" "IsCommitted (h_clock h)"
  shows "(\<exists>h'. catalog_step (Commits u) h h') \<and> (\<exists>h'. catalog_step (Rolls_back u) h h') \<and>
    (\<not> respells u (h_set h) \<longrightarrow> (\<forall>verify drop_blocks s1 visited error.
       CommitEntries verify drop_blocks (h_clock h) (undo_buffers (h_set h) u) (h_set h) = (s1, visited, error) \<longrightarrow>
       (\<exists>h'. catalog_step (if error = None then Commits u else Fails u) h h'))) \<and>
    (\<forall>k xs p e ys. chain_at (h_set h) k = Some (xs @ p # e # ys) \<longrightarrow> IsCommitted (entry_timestamp p) \<longrightarrow>
       (\<exists>s'. CleanupEntry (k, entry_addr e) (h_set h) = Inr s'))"
proof (intro conjI allI impI)
  note ok = catalog_history_ok [OF assms(1)]
  show "\<exists>h'. catalog_step (Commits u) h h'"
    by (rule commit_possible [OF ok assms(2,3)])
  show "\<exists>h'. catalog_step (Rolls_back u) h h'"
    by (rule rollback_possible [OF ok assms(2)])
  show "\<exists>h'. catalog_step (if error = None then Commits u else Fails u) h h'" if "\<not> respells u (h_set h)"
    "CommitEntries verify drop_blocks (h_clock h) (undo_buffers (h_set h) u) (h_set h) = (s1, visited, error)"
    for verify drop_blocks s1 visited error
  proof (cases "error = None")
    case True
    then show ?thesis using catalog_step.commit [OF assms(2,3), of verify drop_blocks s1 visited] that(2) by (simp, blast)
  next
    case False
    note fails = that
    obtain s2 s3 where "RevertEntries u visited s1 = Inr s2" "UndoEntries (rev (undo_buffers s2 u)) s2 = Inr s3"
      using history_fail [OF ok assms(2,3) fails] by blast
    then show ?thesis using catalog_step.failed_commit [OF assms(2,3) that(2)] False by (simp, blast)
  qed
  show "\<exists>s'. CleanupEntry (k, entry_addr e) (h_set h) = Inr s'"
    if "chain_at (h_set h) k = Some (xs @ p # e # ys)" "IsCommitted (entry_timestamp p)" for k xs p e ys
    using history_cleanup [OF ok that] by metis
qed

theorem catalog_transaction_ends_witness:
  "\<exists>h'. catalog_step (Commits TRANSACTION_ID_START) example_history h'"
  using catalog_transaction_ends [OF example_reachable example_active(1)]
  by (simp add: example_active IsCommitted_def TRANSACTION_ID_START_def)


lemma example_chain:
  obtains n d where "chain_at (h_set example_history) (ci_key ''Orders'') =
    Some [example_table\<lparr>entry_timestamp := TRANSACTION_ID_START, entry_addr := n\<rparr>, d]"
proof -
  let ?t = "example_transaction 0"
  let ?v = "example_table\<lparr>entry_timestamp := ct_transaction_id ?t\<rparr>"
  have ok: "set_ok (h_set example_begun)" using catalog_history_ok [OF example_begins] by (simp add: history_ok_def)
  have none: "chain_at (h_set example_begun) k = None" for k
    by (simp add: example_begun_def begun_def new_history_def chain_at_def)
  have v: "ci_key (entry_name ?v) = ci_key ''Orders''" "entry_timestamp ?v = ct_transaction_id ?t" "entry_type ?v \<noteq> INVALID"
    by (simp_all add: example_table_def CatalogEntry_new_def)
  have inv: "CheckCatalogEntryInvariants example_catalog example_table ''Orders'' = Inr ()"
    by (simp add: CheckCatalogEntryInvariants_def example_catalog_def example_table_def CatalogEntry_new_def)
  have "CreateEntryInternal example_generators ?t ''Orders'' ?v True [] (h_set example_begun) = Some (example_set, Inr True)"
    using example_create inv by (simp add: CreateEntry_def)
  then have "example_set = linked ?t ?v (with_dummy ''Orders'' (h_set example_begun))"
    using CreateEntryInternal_eq [of example_generators ?v "''Orders''" "h_set example_begun"] ok none v
    by (simp add: example_generators_def)
  then show thesis
    using started(3) [OF ok none v example_running(1)] that by (auto simp: example_history_def example_transaction_def)
qed


theorem catalog_commit_publishes_witness:
  "\<exists>h'. catalog_step (Commits TRANSACTION_ID_START) example_history h' \<and>
     map_option entry_timestamp (visible_entry (example_transaction 3) ''Orders'' (h_set h')) = Some 4"
proof -
  obtain s' where st: "catalog_step (Commits TRANSACTION_ID_START) example_history
      (ended TRANSACTION_ID_START (example_history\<lparr>h_set := s', h_clock := 5\<rparr>))"
    by (rule example_commits)
  obtain n d where c: "chain_at (h_set example_history) (ci_key ''Orders'') =
      Some [example_table\<lparr>entry_timestamp := TRANSACTION_ID_START, entry_addr := n\<rparr>, d]"
    by (rule example_chain)
  have x: "running (example_transaction 3)" "h_clock (ended TRANSACTION_ID_START (example_history\<lparr>h_set := s', h_clock := 5\<rparr>)) \<le>
      ct_start_time (example_transaction 3)"
    by (simp_all add: running_def example_transaction_def IsCommitted_def TRANSACTION_ID_START_def word_less_nat_alt ended_def)
  have "visible_entry (example_transaction 0) ''Orders'' (h_set example_history) =
      Some (example_table\<lparr>entry_timestamp := TRANSACTION_ID_START, entry_addr := n\<rparr>)"
    using c by (simp add: visible_entry_def visible_link UseTimestamp_def example_transaction_def example_table_def CatalogEntry_new_def
        del: visible_version.simps)
  then show ?thesis
    using st catalog_commit_publishes [OF example_reachable example_active(1) st c _ x] by (auto simp: example_active)
qed

text \<open>
  C22. A transaction reads its own writes: after it has created an entry, a lookup by any spelling of the
  name that differs in case only finds that entry, and after it has dropped one it finds nothing, although
  nobody else sees a change.
\<close>

theorem catalog_own_writes:
  assumes "catalog_reachable h" "h_active h u = Some t" "generator env = None" "CIEquals spelling name"
  shows "(CreateEntry env catalog t name value (\<lambda>v s. (s, refused v)) others (h_set h) = Some (s', Inr True) \<longrightarrow>
      ci_key (entry_name value) = ci_key name \<longrightarrow> entry_type value \<noteq> INVALID \<longrightarrow> \<not> entry_deleted value \<longrightarrow>
      (\<exists>n. GetEntry env t spelling others s' = Some (s', Some (value\<lparr>entry_timestamp := u, entry_addr := n\<rparr>)))) \<and>
    (DropEntry env t name allow_drop (\<lambda>v s. (s, refused v)) others (h_set h) = Some (s', Inr True) \<longrightarrow>
      visible_entry t name (h_set h) \<noteq> None \<and> GetEntry env t spelling others s' = Some (s', None))"
proof (intro conjI impI)
  note ok = catalog_history_ok [OF assms(1)]
  have t: "running t" "ct_transaction_id t = u" "set_ok (h_set h)"
    using history_active [OF ok assms(2)] ok by (auto simp: writer_ok_def history_ok_def)
  have key: "ci_key spelling = ci_key name" using assms(4) by (simp add: CIEquals_key)
  have use: "UseTimestamp t u" using running_uses_own [of t] t(2) by simp
  {
    assume c: "CreateEntry env catalog t name value (\<lambda>v s. (s, refused v)) others (h_set h) = Some (s', Inr True)"
      "ci_key (entry_name value) = ci_key name" "entry_type value \<noteq> INVALID" "\<not> entry_deleted value"
    obtain cs n where "cs \<noteq> []" "chain_at s' (ci_key name) = Some (value\<lparr>entry_timestamp := u, entry_addr := n\<rparr> # cs)"
      using CreateEntry_changes(2) [OF assms(3) c(2) t(3,1) c(3,1)] t(2) by auto
    then show "\<exists>n. GetEntry env t spelling others s' = Some (s', Some (value\<lparr>entry_timestamp := u, entry_addr := n\<rparr>))"
      using use c(4) key by (auto simp: GetEntry_eq [OF assms(3)] visible_entry_def visible_link simp del: visible_version.simps)
  next
    assume d: "DropEntry env t name allow_drop (\<lambda>v s. (s, refused v)) others (h_set h) = Some (s', Inr True)"
    then show "visible_entry t name (h_set h) \<noteq> None"
      by (cases "visible_entry t name (h_set h)") (auto simp: DropEntry_def DropDependencies_def GetEntry_eq [OF assms(3)])
    obtain cs v where "cs \<noteq> []" "chain_at s' (ci_key name) = Some (v # cs)" "entry_deleted v" "entry_timestamp v = u"
      using DropEntry_changes(2) [OF assms(3) t(3,1) d] t(2) by auto
    then show "GetEntry env t spelling others s' = Some (s', None)"
      using use key by (simp add: GetEntry_eq [OF assms(3)] visible_entry_def visible_link del: visible_version.simps)
  }
qed

theorem catalog_own_writes_witness:
  "\<exists>n. GetEntry example_generators (example_transaction 0) ''oRDERS'' [] example_set =
     Some (example_set, Some (example_table\<lparr>entry_timestamp := TRANSACTION_ID_START, entry_addr := n\<rparr>))"
proof -
  have act: "h_active example_begun TRANSACTION_ID_START = Some (example_transaction 0)"
    by (simp add: example_begun_def begun_def example_transaction_def TRANSACTION_ID_START_def)
  have eq: "CIEquals ''oRDERS'' ''Orders''" by code_simp
  have gen: "generator example_generators = None" by (simp add: example_generators_def)
  have tab: "ci_key (entry_name example_table) = ci_key ''Orders''" "entry_type example_table \<noteq> INVALID" "\<not> entry_deleted example_table"
    by (simp_all add: example_table_def CatalogEntry_new_def)
  show ?thesis
    using catalog_own_writes [OF example_begins act gen eq, of example_catalog example_table "\<lambda>v. None" "[]" example_set True] tab example_create
    by blast
qed

text \<open>
  C21. An alteration that succeeds either had nothing to change or puts the altered entry under its name,
  where the transaction then finds it; when that was a rename, it finds nothing under the old name.
\<close>

theorem catalog_alter_effect:
  assumes "catalog_reachable h" "h_active h u = Some t" "generator env = None"
    and "\<forall>x w. alter x = Inr (Some w) \<longrightarrow> entry_type w \<noteq> INVALID \<and> \<not> entry_deleted w"
    and "AlterEntry env t name info alter id alter_object others (h_set h) = Some (s', Inr True)"
    and "visible_entry t name (h_set h) = Some e"
  shows "case altered_value t info alter e of
      Inl x \<Rightarrow> False
    | Inr None \<Rightarrow> s' = h_set h
    | Inr (Some v) \<Rightarrow> (\<exists>n. GetEntry env t (entry_name v) others s' = Some (s', Some (v\<lparr>entry_timestamp := u, entry_addr := n\<rparr>))) \<and>
        (if CIEquals (entry_name v) name then True else GetEntry env t name others s' = Some (s', None))"
proof -
  note ok = catalog_history_ok [OF assms(1)]
  have t: "running t" "ct_transaction_id t = u" "set_ok (h_set h)"
    using history_active [OF ok assms(2)] ok by (auto simp: writer_ok_def history_ok_def)
  have alt: "\<And>x w. alter x = Inr (Some w) \<Longrightarrow> entry_type w \<noteq> INVALID" using assms(4) by blast
  have found: "GetEntry env t name others (h_set h) = Some (h_set h, Some e)" using assms(6) by (simp add: GetEntry_eq [OF assms(3)])
  note eff = changes_alter(2) [OF assms(3) t(1,3) alt assms(5) refl]
  show ?thesis
  proof (cases "altered_value t info alter e")
    case (Inl x)
    then show ?thesis using assms(5) found by (simp add: AlterEntry_def)
  next
    case (Inr vo)
    show ?thesis
    proof (cases vo)
      case None
      then show ?thesis using assms(5) found Inr by (simp add: AlterEntry_def)
    next
      case (Some v)
      have nd: "\<not> entry_deleted v"
      proof (cases "set_comment info")
        case None
        then have "alter e = Inr (Some v)" using Inr Some by (simp add: altered_value_def split: if_splits)
        then show ?thesis using assms(4) by blast
      next
        case (Some x)
        then obtain w where "alter e = Inr (Some w)" "v = w\<lparr>entry_comment := x\<rparr>"
          using Inr \<open>vo = Some v\<close> by (cases "alter e") (auto simp: altered_value_def split: if_splits)
        then show ?thesis using assms(4) by simp
      qed
      then show ?thesis
        using eff Inr Some assms(6) t(2) by (auto simp: GetEntry_eq [OF assms(3)] visible_entry_def CIEquals_key)
    qed
  qed
qed

text \<open>
  C24. At any time the uncommitted versions of a name are of one transaction, and it is active; the versions
  of a name stand in the order in which they were made and no committed version lies above an uncommitted one.
  This holds through commits that fail and are rolled back, where the transaction has not respelled a name:
  after one that has, a version keeps the id of a transaction that is gone (C20).
\<close>

theorem catalog_single_writer:
  assumes "catalog_reachable h" "chain_at (h_set h) k = Some c"
  shows "sorted_wrt (\<lambda>e f. entry_addr f < entry_addr e \<and> entry_timestamp f \<le> entry_timestamp e) c \<and>
    (\<exists>u. \<forall>e\<in>set c. if IsCommitted (entry_timestamp e) then entry_timestamp e < h_clock h
       else entry_timestamp e = u \<and> h_active h u \<noteq> None)"
proof
  note ok = catalog_history_ok [OF assms(1)]
  have c: "chain_ok k (next_addr (h_set h)) c" using ok assms(2) by (auto simp: history_ok_def set_ok_def)
  show "sorted_wrt (\<lambda>e f. entry_addr f < entry_addr e \<and> entry_timestamp f \<le> entry_timestamp e) c"
    using c sorted_wrt_mono_rel [of c newer_than] by (auto simp: chain_ok_def newer_than_def)
  have st: "if IsCommitted (entry_timestamp e) then entry_timestamp e < h_clock h else h_active h (entry_timestamp e) \<noteq> None"
    if "e \<in> set c" for e
    using in_chainsI [OF assms(2) that] ok by (simp add: history_ok_def stamps_ok_def)
  show "\<exists>u. \<forall>e\<in>set c. if IsCommitted (entry_timestamp e) then entry_timestamp e < h_clock h
      else entry_timestamp e = u \<and> h_active h u \<noteq> None"
  proof (cases "\<exists>f\<in>set c. \<not> IsCommitted (entry_timestamp f)")
    case True
    then obtain f where f: "f \<in> set c" "\<not> IsCommitted (entry_timestamp f)" by blast
    then have "entry_timestamp e = entry_timestamp f" if "e \<in> set c" "\<not> IsCommitted (entry_timestamp e)" for e
      using c that by (simp add: chain_ok_def one_writer_def)
    then show ?thesis using st f by (intro exI [of _ "entry_timestamp f"]) auto
  next
    case False
    then show ?thesis using st by auto
  qed
qed

theorem catalog_single_writer_witness:
  "\<exists>c u. chain_at (h_set example_history) (ci_key ''Orders'') = Some c \<and>
     (\<forall>e\<in>set c. if IsCommitted (entry_timestamp e) then entry_timestamp e < 4 else entry_timestamp e = u)"
proof -
  obtain n d where c: "chain_at (h_set example_history) (ci_key ''Orders'') =
      Some [example_table\<lparr>entry_timestamp := TRANSACTION_ID_START, entry_addr := n\<rparr>, d]"
    by (rule example_chain)
  from catalog_single_writer [OF example_reachable c] have "\<exists>u. \<forall>e\<in>set [example_table\<lparr>entry_timestamp := TRANSACTION_ID_START, entry_addr := n\<rparr>, d].
      if IsCommitted (entry_timestamp e) then entry_timestamp e < h_clock example_history
      else entry_timestamp e = u \<and> h_active example_history u \<noteq> None"
    by (rule conjunct2)
  then show ?thesis unfolding c example_active(3) by (simp only: option.inject) (metis (mono_tags, lifting))
qed

text \<open>
  The map of a set takes two names for the same exactly when neither comes before the other: for names
  without zero bytes the loop that compares them byte by byte is a strict order whose equivalence is equality
  up to the case of letters.
\<close>

theorem catalog_name_order:
  assumes "CHR 0x00 \<notin> set a" "CHR 0x00 \<notin> set b" "CHR 0x00 \<notin> set d"
  shows "(if CILessThan a b then \<not> CILessThan b a \<and> \<not> CIEquals a b else CIEquals a b \<noteq> CILessThan b a) \<and>
    (if CILessThan a b \<and> CILessThan b d then CILessThan a d else True)"
proof -
  have z: "(0 :: nat) \<notin> of_char ` set x" if "CHR 0x00 \<notin> set x" for x :: string
  proof
    assume "(0 :: nat) \<in> of_char ` set x"
    then obtain c where "c \<in> set x" "of_char c = (0 :: nat)" by auto
    then have "c = char_of (0 :: nat)" by (metis char_of_char)
    moreover have "char_of (0 :: nat) = CHR 0x00" by (simp add: char_of_def)
    ultimately show False using that \<open>c \<in> set x\<close> by simp
  qed
  show ?thesis
    unfolding CILessThan_key [OF z [OF assms(1)] z [OF assms(2)]] CILessThan_key [OF z [OF assms(2)] z [OF assms(1)]]
      CILessThan_key [OF z [OF assms(2)] z [OF assms(3)]] CILessThan_key [OF z [OF assms(1)] z [OF assms(3)]] CIEquals_key
    by auto
qed

theorem catalog_name_order_witness: "CILessThan ''Orders'' ''orders_2'' \<and> \<not> CIEquals ''Orders'' ''orders_2''"
proof -
  have "CILessThan ''Orders'' ''orders_2''" by code_simp
  then show ?thesis using catalog_name_order [of "''Orders''" "''orders_2''" "''''"] by simp
qed

definition example_alter :: "CatalogEntry \<Rightarrow> CatalogEntry option result" where
  "example_alter e = Inr (Some (e\<lparr>entry_name := ''Sales'', entry_deleted := False, entry_type := TABLE_ENTRY\<rparr>))"

definition example_info :: AlterInfo where
  "example_info = \<lparr>allow_internal = False, set_comment = Some ''renamed''\<rparr>"

lemma example_alters:
  obtains s' where "AlterEntry example_generators (example_transaction 0) ''ORDERS'' example_info example_alter id None []
    (h_set example_history) = Some (s', Inr True)"
proof -
  have "map_option snd (AlterEntry example_generators (example_transaction 0) ''ORDERS'' example_info example_alter id None [] example_set) = Some (Inr True)"
    by code_simp
  then show thesis using that by (auto simp: example_history_def)
qed

theorem catalog_alter_effect_witness:
  "\<exists>s' e. GetEntry example_generators (example_transaction 0) ''sales'' [] s' = Some (s', Some e) \<and>
     entry_comment e = ''renamed'' \<and> GetEntry example_generators (example_transaction 0) ''ORDERS'' [] s' = Some (s', None)"
proof -
  obtain s' where s': "AlterEntry example_generators (example_transaction 0) ''ORDERS'' example_info example_alter id None []
      (h_set example_history) = Some (s', Inr True)"
    by (rule example_alters)
  obtain n d where "chain_at (h_set example_history) (ci_key ''Orders'') =
      Some [example_table\<lparr>entry_timestamp := TRANSACTION_ID_START, entry_addr := n\<rparr>, d]"
    by (rule example_chain)
  moreover have "ci_key ''ORDERS'' = ci_key ''Orders''" by code_simp
  ultimately have e: "visible_entry (example_transaction 0) ''ORDERS'' (h_set example_history) =
      Some (example_table\<lparr>entry_timestamp := TRANSACTION_ID_START, entry_addr := n\<rparr>)"
    by (simp add: visible_entry_def visible_link UseTimestamp_def example_transaction_def example_table_def CatalogEntry_new_def
        del: visible_version.simps)
  have gen: "generator example_generators = None" by (simp add: example_generators_def)
  have alt: "\<forall>x w. example_alter x = Inr (Some w) \<longrightarrow> entry_type w \<noteq> INVALID \<and> \<not> entry_deleted w"
    by (auto simp: example_alter_def)
  have val: "altered_value (example_transaction 0) example_info example_alter
      (example_table\<lparr>entry_timestamp := TRANSACTION_ID_START, entry_addr := n\<rparr>) =
      Inr (Some (example_table\<lparr>entry_timestamp := TRANSACTION_ID_START, entry_addr := n, entry_name := ''Sales'',
        entry_deleted := False, entry_type := TABLE_ENTRY, entry_comment := ''renamed''\<rparr>))"
    by (simp add: altered_value_def example_info_def example_alter_def example_transaction_def example_table_def CatalogEntry_new_def)
  have ne: "\<not> CIEquals ''Sales'' ''ORDERS''" by code_simp
  have eff: "\<exists>m. GetEntry example_generators (example_transaction 0) ''Sales'' [] s' =
        Some (s', Some (example_table\<lparr>entry_name := ''Sales'', entry_deleted := False, entry_type := TABLE_ENTRY,
          entry_comment := ''renamed'', entry_timestamp := TRANSACTION_ID_START, entry_addr := m\<rparr>)) \<and>
      GetEntry example_generators (example_transaction 0) ''ORDERS'' [] s' = Some (s', None)"
    using catalog_alter_effect [OF example_reachable example_active(1) gen alt s' e] ne
    unfolding val by simp
  have "GetEntry example_generators (example_transaction 0) ''sales'' [] s' =
      GetEntry example_generators (example_transaction 0) ''Sales'' [] s'"
  proof -
    have "ci_key ''sales'' = ci_key ''Sales''" by code_simp
    then show ?thesis by (simp add: GetEntry_eq [OF gen] visible_entry_def)
  qed
  then obtain e where "GetEntry example_generators (example_transaction 0) ''sales'' [] s' = Some (s', Some e)"
    "entry_comment e = ''renamed''" using eff by auto
  then show ?thesis using eff by blast
qed

text \<open>
  C40. A lookup comes back: with a default generator that makes entries of the name it is asked for, the
  retry between a lookup and the creation of a default entry ends as soon as no other thread intervenes.
\<close>

theorem catalog_lookup_returns:
  assumes "\<forall>generate e. generator env = Some generate \<longrightarrow> generate t name = Some e \<longrightarrow> CIEquals (entry_name e) name"
  shows "GetEntry env t name others s \<noteq> None"
proof -
  have "GetEntryDetailed env t name others s \<noteq> None"
  proof (induction others arbitrary: s)
    case Nil
    show ?case
    proof (cases "Map_GetEntry name s")
      case None
      have "CreateCommittedEntry e s \<noteq> None" if "generator env = Some generate" "generate t name = Some e" for generate e
      proof -
        have "ci_key (entry_name e) = ci_key name" using assms that by (simp add: CIEquals_key)
        then show ?thesis using None by (simp add: CreateCommittedEntry_def Map_AddEntry_def Map_GetEntry_def Let_def)
      qed
      then show ?thesis
        using None by (fastforce simp: GetEntryDetailed.simps CreateDefaultEntry.simps split: option.splits)
    qed (simp add: GetEntryDetailed.simps)
  next
    case (Cons x others)
    obtain a b where "x = (a, b)" by (cases x)
    then show ?case using Cons
      by (simp add: GetEntryDetailed.simps [of env t name "(a, b) # others" s] CreateDefaultEntry.simps Let_def split: option.split)
  qed
  then show ?thesis by (simp add: GetEntry_def)
qed

definition example_defaults :: default_env where
  "example_defaults = \<lparr>generator = Some (\<lambda>t name. if CIEquals name ''pi'' then Some (CatalogEntry_new MACRO_ENTRY ''pi'') else None),
     default_names = [''pi'']\<rparr>"

theorem catalog_lookup_returns_witness: "GetEntry example_defaults (example_transaction 0) ''PI'' [(id, id)] example_set \<noteq> None"
  by (rule catalog_lookup_returns) (auto simp: example_defaults_def CatalogEntry_new_def CIEquals_key split: if_splits)

section \<open>Failed commits\<close>

text \<open>
  C5. A failed commit is undone: wherever the commit stops, when the dependency manager objects or the log
  cannot be flushed at the end, reverting the references it visited gives every chain back as it was, and the
  rollback that follows removes exactly the versions of the transaction. This needs that the transaction has
  put no version over one that is spelled differently.
\<close>

theorem catalog_failed_commit:
  assumes "catalog_reachable h" "h_active h u = Some t" "\<not> respells u (h_set h)"
    and "CommitEntries verify drop_blocks cid (undo_buffers (h_set h) u) (h_set h) = (s1, visited, error)"
  shows "\<exists>s2 s3. RevertEntries u visited s1 = Inr s2 \<and> chain_at s2 = chain_at (h_set h) \<and>
    UndoEntries (rev (undo_buffers s2 u)) s2 = Inr s3 \<and> chain_at s3 = (\<lambda>k. aborted u (chain_at (h_set h) k))"
proof -
  note ok = catalog_history_ok [OF assms(1)]
  have t: "\<not> IsCommitted u" "refs_ok u (undo_buffers (h_set h) u) (h_set h)" "set_ok (h_set h)"
    using history_active [OF ok assms(2)] ok by (auto simp: writer_ok_def running_def undo_ok_def history_ok_def)
  obtain s2 where s2: "RevertEntries u visited s1 = Inr s2" "chain_at s2 = chain_at (h_set h)"
    "same_but_entries (h_set h) s2" "set_ok s2"
    using reverted [OF t(3,2,1) _ assms(4)] assms(3) by (auto simp: respells_def)
  have "refs_ok u (undo_buffers s2 u) s2" using t(2) s2(2,3) by (simp add: refs_ok_def same_but_entries_def)
  then show ?thesis using UndoEntries_aborts [OF s2(4) _ t(1)] s2(1,2) by metis
qed

lemma example_no_error: "\<exists>s1 visited. CommitEntries (\<lambda>n e. None) (\<lambda>n e. None) 4 (undo_buffers (h_set example_history) TRANSACTION_ID_START) (h_set example_history) =
   (s1, visited, None)"
proof -
  have "IsCommitted (h_clock example_history)" by (simp add: example_active IsCommitted_def TRANSACTION_ID_START_def)
  from history_commit [OF catalog_history_ok [OF example_reachable] example_active(1) this] show ?thesis
    using CommitEntries_none unfolding example_active(3) by metis
qed

lemma example_spelling: "\<not> respells TRANSACTION_ID_START (h_set example_history)"
proof -
  have "\<forall>(k, c)\<in>set (entries example_set). \<forall>e\<in>set c. entry_name e = ''Orders''" by code_simp
  then have "entry_name e = ''Orders''" if "chain_at example_set k = Some c" "e \<in> set c" for k c e
    using that unfolding chain_at_def by (fastforce dest!: map_of_SomeD)
  then have "spelled_alike r example_set" for r
    unfolding spelled_alike_def by (cases "chain_at example_set (fst r)") (simp_all add: less_diff_conv)
  then show ?thesis by (simp add: respells_def example_history_def)
qed

theorem catalog_failed_commit_witness:
  "\<exists>s1 visited s2. CommitEntries (\<lambda>n e. None) (\<lambda>n e. None) 4 (undo_buffers (h_set example_history) TRANSACTION_ID_START) (h_set example_history) =
     (s1, visited, None) \<and> RevertEntries TRANSACTION_ID_START visited s1 = Inr s2 \<and> chain_at s2 = chain_at (h_set example_history)"
proof -
  obtain s1 visited error where c: "CommitEntries (\<lambda>n e. None) (\<lambda>n e. None) 4 (undo_buffers (h_set example_history) TRANSACTION_ID_START) (h_set example_history) =
      (s1, visited, error)" by (metis surj_pair)
  have none: "error = None" using c example_no_error by (metis prod.inject)
  have sp: "\<not> respells TRANSACTION_ID_START (h_set example_history)" by (rule example_spelling)
  from catalog_failed_commit [OF example_reachable example_active(1) sp c] show ?thesis using c none by blast
qed






end
