(* ===== verification/Like_Match.thy ===== *)
theory Like_Match
  imports Decimal_Text
begin

text \<open>
  Matching of texts: \<open>function/scalar/string/contains.cpp\<close> (\<open>FindStrInStr\<close>, which finds a text in
  another with one of seven comparison routines), and \<open>function/scalar/string/like.cpp\<close> (LIKE and ILIKE
  with and without an escape character, the matcher that is prepared for a constant pattern, and GLOB).

  A text is the list of its bytes; an index into it is the list of what is left from there. The loop of
  \<open>TemplatedLikeOperator\<close> and the search it starts after a percent sign are the two functions of a
  mutual recursion, as are those of \<open>Glob\<close>. The case folding of the Unicode library is an argument.
  The reference is the reading of a pattern as a list of tokens with a relational meaning
  (\<open>like_chars\<close>, \<open>glob_match\<close>); the lemmas that lead there are about the first occurrence of
  a segment (a later start of the rest never helps) and about bytes inside of a character (a match from there is
  also a match from its start).
\<close>

section \<open>Characters of UTF-8 texts\<close>

definition IsCharacter :: "char \<Rightarrow> bool" where
  "IsCharacter c \<longleftrightarrow> (of_char c :: nat) div 64 \<noteq> 2"

section \<open>Finding a text in another\<close>

text \<open>
  The needle is compared with the haystack by a word of its first bytes, then by its remainder. A load
  of \<open>k\<close> bytes compares equal when the bytes do. \<open>None\<close> is the invalid index.
\<close>

datatype remainder_op = ContainsAligned | ContainsUnaligned | ContainsGeneric

fun count_matches :: "string \<Rightarrow> string \<Rightarrow> nat" where
  "count_matches (h # hs) (n # ns) = (if h = n then 1 else 0) + count_matches hs ns"
| "count_matches hs ns = 0"

fun MatchRemainder :: "remainder_op \<Rightarrow> nat \<Rightarrow> string \<Rightarrow> string \<Rightarrow> bool" where
  "MatchRemainder ContainsAligned k haystack needle \<longleftrightarrow> True"
| "MatchRemainder ContainsUnaligned k haystack needle \<longleftrightarrow>
     count_matches (drop k haystack) (drop k needle) = length needle - k"
| "MatchRemainder ContainsGeneric k haystack needle \<longleftrightarrow>
     take (length needle - k) (drop k haystack) = drop k needle"

definition memchr :: "string \<Rightarrow> char \<Rightarrow> nat \<Rightarrow> nat option" where
  "memchr data c n =
     (let i = length (takeWhile (\<lambda>x. x \<noteq> c) (take n data)) in if i < length (take n data) then Some i else None)"

lemma memchr_less: "memchr data c n = Some i \<Longrightarrow> i < n"
  by (auto simp: memchr_def Let_def split: if_splits)

function contains_loop ::
  "remainder_op \<Rightarrow> nat \<Rightarrow> string \<Rightarrow> nat \<Rightarrow> string \<Rightarrow> nat \<Rightarrow> nat \<Rightarrow> nat option" where
  "contains_loop op k haystack haystack_size needle base_offset offset =
     (if offset < haystack_size then
        (case memchr (drop offset haystack) (hd needle) (haystack_size - offset) of
           None \<Rightarrow> None
         | Some i \<Rightarrow>
             let location = offset + i in
             if take k (drop location haystack) = take k needle \<and> MatchRemainder op k (drop location haystack) needle
             then Some (base_offset + location)
             else contains_loop op k haystack haystack_size needle base_offset (location + 1))
      else None)"
  by pat_completeness auto
termination
  by (relation "measure (\<lambda>(op, k, h, n, needle, b, offset). n - offset)") (auto dest: memchr_less)

definition Contains :: "remainder_op \<Rightarrow> nat \<Rightarrow> string \<Rightarrow> string \<Rightarrow> nat \<Rightarrow> nat option" where
  "Contains op k haystack needle base_offset =
     (if length needle > length haystack then None
      else contains_loop op k haystack (length haystack - (length needle - 1)) needle base_offset 0)"

definition FindStrInStr :: "string \<Rightarrow> string \<Rightarrow> nat option" where
  "FindStrInStr haystack0 needle =
     (case memchr haystack0 (hd needle) (length haystack0) of
        None \<Rightarrow> None
      | Some base_offset \<Rightarrow>
          let haystack = drop base_offset haystack0; needle_size = length needle in
          if needle_size = 1 then Some base_offset
          else if needle_size = 2 then Contains ContainsAligned 2 haystack needle base_offset
          else if needle_size = 3 then Contains ContainsUnaligned 2 haystack needle base_offset
          else if needle_size = 4 then Contains ContainsAligned 4 haystack needle base_offset
          else if needle_size \<in> {5, 6, 7} then Contains ContainsUnaligned 4 haystack needle base_offset
          else if needle_size = 8 then Contains ContainsAligned 8 haystack needle base_offset
          else Contains ContainsGeneric 8 haystack needle base_offset)"

definition FindStrInStr_string :: "string \<Rightarrow> string \<Rightarrow> nat option" where
  "FindStrInStr_string haystack needle = (if needle = [] then Some 0 else FindStrInStr haystack needle)"

definition ContainsOperator :: "string \<Rightarrow> string \<Rightarrow> bool" where
  "ContainsOperator left right \<longleftrightarrow> FindStrInStr_string left right \<noteq> None"

section \<open>The LIKE operator\<close>

text \<open>
  The two readers: how a byte is compared, and what follows the character that starts here. A text is the
  bytes that are left of it.
\<close>

datatype reader = StandardCharacterReader | ASCIILCaseReader

fun NextCharacter :: "reader \<Rightarrow> string \<Rightarrow> string" where
  "NextCharacter StandardCharacterReader s = dropWhile (\<lambda>c. \<not> IsCharacter c) (tl s)"
| "NextCharacter ASCIILCaseReader s = tl s"

fun Operation :: "reader \<Rightarrow> char \<Rightarrow> char" where
  "Operation StandardCharacterReader c = c"
| "Operation ASCIILCaseReader c = CharacterToLower c"

lemma NextCharacter_length [termination_simp]: "s \<noteq> [] \<Longrightarrow> length (NextCharacter rd s) < length s"
  by (cases rd; cases s) (auto simp: le_imp_less_Suc length_dropWhile_le)

function TemplatedLikeOperator :: "reader \<Rightarrow> char option \<Rightarrow> string \<Rightarrow> string \<Rightarrow> bool result"
  and like_search :: "reader \<Rightarrow> char option \<Rightarrow> string \<Rightarrow> string \<Rightarrow> bool result" where
  "TemplatedLikeOperator rd escape [] pattern = Inr (dropWhile (\<lambda>c. c = CHR ''%'') pattern = [])"
| "TemplatedLikeOperator rd escape (c # s) [] = Inr False"
| "TemplatedLikeOperator rd escape (c # s) (q # pattern) =
     (let pchar = Operation rd q; schar = Operation rd c in
      if escape = Some pchar then
        (case pattern of
           [] \<Rightarrow> Inl (SyntaxException ''Like pattern must not end with escape character!'')
         | q' # rest \<Rightarrow> if q' \<noteq> schar then Inr False else TemplatedLikeOperator rd escape s rest)
      else if pchar = CHR ''_'' then TemplatedLikeOperator rd escape (NextCharacter rd (c # s)) pattern
      else if pchar = CHR ''%'' then
        let rest = dropWhile (\<lambda>c. c = CHR ''%'') pattern
        in if rest = [] then Inr True else like_search rd escape (c # s) rest
      else if pchar = schar then TemplatedLikeOperator rd escape s pattern
      else Inr False)"
| "like_search rd escape [] rest = Inr False"
| "like_search rd escape (c # s) rest =
     (case TemplatedLikeOperator rd escape (c # s) rest of
        Inl e \<Rightarrow> Inl e
      | Inr True \<Rightarrow> Inr True
      | Inr False \<Rightarrow> like_search rd escape s rest)"
  by pat_completeness auto
termination
  by (relation "measures [\<lambda>x. case x of Inl (_, _, _, p) \<Rightarrow> length p | Inr (_, _, _, p) \<Rightarrow> length p,
        \<lambda>x. case x of Inl (_, _, s, _) \<Rightarrow> 2 * length s | Inr (_, _, s, _) \<Rightarrow> 2 * length s + 1]")
    (auto simp: le_imp_less_Suc length_dropWhile_le)

definition LikeOperatorFunction :: "string \<Rightarrow> string \<Rightarrow> bool result" where
  "LikeOperatorFunction s pattern = TemplatedLikeOperator StandardCharacterReader None s pattern"

definition LikeOperatorFunction_escape :: "string \<Rightarrow> string \<Rightarrow> char \<Rightarrow> bool result" where
  "LikeOperatorFunction_escape s pattern escape = TemplatedLikeOperator StandardCharacterReader (Some escape) s pattern"

definition GetEscapeChar :: "string \<Rightarrow> char result" where
  "GetEscapeChar escape =
     (if length escape > 1 then Inl (SyntaxException ''Invalid escape string. Escape string must be empty or one character.'')
      else Inr (case escape of [] \<Rightarrow> CHR 0x00 | c # cs \<Rightarrow> c))"

definition LikeEscapeOperator :: "string \<Rightarrow> string \<Rightarrow> string \<Rightarrow> bool result" where
  "LikeEscapeOperator str pattern escape =
     (case GetEscapeChar escape of Inl e \<Rightarrow> Inl e | Inr c \<Rightarrow> LikeOperatorFunction_escape str pattern c)"

definition NotLikeEscapeOperator :: "string \<Rightarrow> string \<Rightarrow> string \<Rightarrow> bool result" where
  "NotLikeEscapeOperator str pattern escape = map_sum id Not (LikeEscapeOperator str pattern escape)"

definition LikeOperator :: "string \<Rightarrow> string \<Rightarrow> bool result" where
  "LikeOperator str pattern = LikeOperatorFunction str pattern"

definition NotLikeOperator :: "string \<Rightarrow> string \<Rightarrow> bool result" where
  "NotLikeOperator str pattern = map_sum id Not (LikeOperatorFunction str pattern)"

text \<open>The case folding of texts is that of the Unicode library and an argument.\<close>

definition ILikeOperatorFunction :: "(string \<Rightarrow> string) \<Rightarrow> string \<Rightarrow> string \<Rightarrow> char \<Rightarrow> bool result" where
  "ILikeOperatorFunction LowerCase str pattern escape =
     LikeOperatorFunction_escape (LowerCase str) (LowerCase pattern) escape"

definition ILikeEscapeOperator :: "(string \<Rightarrow> string) \<Rightarrow> string \<Rightarrow> string \<Rightarrow> string \<Rightarrow> bool result" where
  "ILikeEscapeOperator LowerCase str pattern escape =
     (case GetEscapeChar escape of Inl e \<Rightarrow> Inl e | Inr c \<Rightarrow> ILikeOperatorFunction LowerCase str pattern c)"

definition NotILikeEscapeOperator :: "(string \<Rightarrow> string) \<Rightarrow> string \<Rightarrow> string \<Rightarrow> string \<Rightarrow> bool result" where
  "NotILikeEscapeOperator LowerCase str pattern escape = map_sum id Not (ILikeEscapeOperator LowerCase str pattern escape)"

definition ILikeOperator :: "(string \<Rightarrow> string) \<Rightarrow> string \<Rightarrow> string \<Rightarrow> bool result" where
  "ILikeOperator LowerCase str pattern = ILikeOperatorFunction LowerCase str pattern (CHR 0x00)"

definition NotILikeOperator :: "(string \<Rightarrow> string) \<Rightarrow> string \<Rightarrow> string \<Rightarrow> bool result" where
  "NotILikeOperator LowerCase str pattern = map_sum id Not (ILikeOperator LowerCase str pattern)"

definition ILikeOperatorASCII :: "string \<Rightarrow> string \<Rightarrow> bool result" where
  "ILikeOperatorASCII str pattern = TemplatedLikeOperator ASCIILCaseReader None str pattern"

definition NotILikeOperatorASCII :: "string \<Rightarrow> string \<Rightarrow> bool result" where
  "NotILikeOperatorASCII str pattern = map_sum id Not (ILikeOperatorASCII str pattern)"

section \<open>The matcher for constant patterns\<close>

record LikeMatcher =
  segments :: "string list"
  has_start_percentage :: bool
  has_end_percentage :: bool

text \<open>
  The loop over the pattern: the segment that is being read, the segments before it, and whether the
  current position is the first one.
\<close>

fun create_loop :: "char \<Rightarrow> bool \<Rightarrow> string \<Rightarrow> string \<Rightarrow> string list \<Rightarrow> bool \<Rightarrow> bool \<Rightarrow> LikeMatcher option" where
  "create_loop escape first [] current done has_start has_end =
     (let segs = (if current \<noteq> [] then done @ [current] else done)
      in if segs = [] then None
         else Some \<lparr>segments = segs, has_start_percentage = has_start, has_end_percentage = has_end\<rparr>)"
| "create_loop escape first (ch # rest) current done has_start has_end =
     (if ch = escape \<or> ch = CHR ''%'' \<or> ch = CHR ''_'' then
        if ch = escape \<or> ch = CHR ''_'' then None
        else create_loop escape False rest [] (if current \<noteq> [] then done @ [current] else done)
               (if first then True else has_start) (if rest = [] then True else has_end)
      else create_loop escape False rest (current @ [ch]) done has_start has_end)"

definition CreateLikeMatcher :: "string \<Rightarrow> char \<Rightarrow> LikeMatcher option" where
  "CreateLikeMatcher like_pattern escape = create_loop escape True like_pattern [] [] False False"

fun match_last :: "bool \<Rightarrow> string \<Rightarrow> string \<Rightarrow> bool" where
  "match_last has_end segment str =
     (if \<not> has_end then
        if length str < length segment then False
        else drop (length str - length segment) str = segment
      else FindStrInStr str segment \<noteq> None)"

fun match_segments :: "bool \<Rightarrow> string list \<Rightarrow> string \<Rightarrow> bool" where
  "match_segments has_end [] str = False"
| "match_segments has_end [segment] str = match_last has_end segment str"
| "match_segments has_end (segment # segment' # rest) str =
     (case FindStrInStr str segment of
        None \<Rightarrow> False
      | Some next_offset \<Rightarrow> match_segments has_end (segment' # rest) (drop (next_offset + length segment) str))"

definition LikeMatcher_Match :: "LikeMatcher \<Rightarrow> string \<Rightarrow> bool" where
  "LikeMatcher_Match m str =
     (if \<not> has_start_percentage m then
        let segment = hd (segments m) in
        if length str < length segment then False
        else if take (length segment) str \<noteq> segment then False
        else
          let str' = drop (length segment) str in
          if length (segments m) = 1 then has_end_percentage m \<or> str' = []
          else match_segments (has_end_percentage m) (tl (segments m)) str'
      else match_segments (has_end_percentage m) (segments m) str)"

text \<open>
  Binding prepares the matcher when the pattern is a constant and no argument has a collation; a row is
  answered by the matcher, or by the operator when there is none.
\<close>

definition LikeBindFunction :: "bool \<Rightarrow> string option \<Rightarrow> LikeMatcher option" where
  "LikeBindFunction collated constant_pattern =
     (if collated then None
      else case constant_pattern of Some pattern \<Rightarrow> CreateLikeMatcher pattern (CHR 0x00) | None \<Rightarrow> None)"

definition RegularLikeFunction :: "bool \<Rightarrow> LikeMatcher option \<Rightarrow> string \<Rightarrow> string \<Rightarrow> bool result" where
  "RegularLikeFunction invert bind_info str pattern =
     (case bind_info of
        Some matcher \<Rightarrow> Inr (if invert then \<not> LikeMatcher_Match matcher str else LikeMatcher_Match matcher str)
      | None \<Rightarrow> if invert then NotLikeOperator str pattern else LikeOperator str pattern)"

section \<open>The first occurrence\<close>

definition occurs_at :: "string \<Rightarrow> string \<Rightarrow> nat \<Rightarrow> bool" where
  "occurs_at needle haystack i \<longleftrightarrow> i + length needle \<le> length haystack \<and> take (length needle) (drop i haystack) = needle"

text \<open>The least position from an offset on with a property, or none.\<close>

definition is_first :: "(nat \<Rightarrow> bool) \<Rightarrow> nat \<Rightarrow> nat option \<Rightarrow> bool" where
  "is_first P offset r \<longleftrightarrow>
     (case r of None \<Rightarrow> \<forall>i\<ge>offset. \<not> P i | Some i \<Rightarrow> offset \<le> i \<and> P i \<and> (\<forall>j. offset \<le> j \<longrightarrow> j < i \<longrightarrow> \<not> P j))"

lemma is_first_skip: "is_first P (Suc m) r \<Longrightarrow> offset \<le> Suc m \<Longrightarrow> \<forall>j. offset \<le> j \<longrightarrow> j \<le> m \<longrightarrow> \<not> P j \<Longrightarrow> is_first P offset r"
  unfolding is_first_def by (auto split: option.splits)

lemma memchr_first: "is_first (\<lambda>i. i < n \<and> i < length data \<and> data ! i = c) 0 (memchr data c n)"
proof -
  let ?i = "length (takeWhile (\<lambda>x. x \<noteq> c) (take n data))"
  have before: "take n data ! j \<noteq> c" if "j < ?i" for j
    using set_takeWhileD [of "take n data ! j" "\<lambda>x. x \<noteq> c" "take n data"] nth_mem [OF that] takeWhile_nth [OF that] by metis
  show ?thesis
  proof (cases "?i < length (take n data)")
    case True
    then have "take n data ! ?i = c" using nth_length_takeWhile by blast
    then show ?thesis using True before by (auto simp: memchr_def is_first_def)
  next
    case False
    then have "?i = length (take n data)" using length_takeWhile_le [of "\<lambda>x. x \<noteq> c" "take n data"] by linarith
    then have "memchr data c n = None" using False by (simp add: memchr_def Let_def)
    moreover have "data ! j \<noteq> c" if "j < n" "j < length data" for j
      using before [of j] that \<open>?i = length (take n data)\<close> by simp
    ultimately show ?thesis by (auto simp: is_first_def)
  qed
qed

lemma count_matches_le: "count_matches hs ns \<le> length ns"
  by (induction hs ns rule: count_matches.induct) auto

lemma count_matches_all: "length ns \<le> length hs \<Longrightarrow> count_matches hs ns = length ns \<longleftrightarrow> take (length ns) hs = ns"
proof (induction hs ns rule: count_matches.induct)
  case (1 h hs n ns)
  then show ?case using count_matches_le [of hs ns] by auto
qed auto

definition fits :: "remainder_op \<Rightarrow> nat \<Rightarrow> nat \<Rightarrow> bool" where
  "fits op k n \<longleftrightarrow> 0 < k \<and> (case op of ContainsAligned \<Rightarrow> k = n | _ \<Rightarrow> k \<le> n)"

lemma compared:
  assumes "fits op k (length needle)" "length needle \<le> length hs"
  shows "take k hs = take k needle \<and> MatchRemainder op k hs needle \<longleftrightarrow> take (length needle) hs = needle"
proof -
  have split: "take (length needle) hs = take k hs @ take (length needle - k) (drop k hs)"
    and n: "take k needle @ drop k needle = needle" if "k \<le> length needle"
    using that by (metis le_add_diff_inverse take_add) simp
  have both: "take k hs = take k needle \<and> take (length needle - k) (drop k hs) = drop k needle \<longleftrightarrow> take (length needle) hs = needle"
    if "k \<le> length needle"
    using split [OF that] n [OF that] that assms(2) by (metis append_eq_append_conv length_take min_absorb2 order_trans)
  show ?thesis
  proof (cases op)
    case ContainsUnaligned
    then have k: "k \<le> length needle" using assms(1) by (simp add: fits_def)
    have "count_matches (drop k hs) (drop k needle) = length needle - k \<longleftrightarrow>
        take (length needle - k) (drop k hs) = drop k needle"
      using count_matches_all [of "drop k needle" "drop k hs"] assms(2) by simp
    then show ?thesis using both [OF k] ContainsUnaligned by simp
  qed (use assms both in \<open>auto simp: fits_def\<close>)
qed

lemma occurs_first:
  assumes "occurs_at needle hs i" "needle \<noteq> []"
  shows "hs ! i = hd needle \<and> i < length hs"
proof -
  obtain n ns where n: "needle = n # ns" using assms(2) by (cases needle) auto
  then have i: "i < length hs" using assms(1) by (simp add: occurs_at_def)
  then have "take (length needle) (drop i hs) = hs ! i # take (length ns) (drop (Suc i) hs)"
    using n by (simp add: Cons_nth_drop_Suc [symmetric])
  then show ?thesis using assms(1) n i by (simp add: occurs_at_def)
qed

lemma contains_loop_first:
  assumes "fits op k (length needle)" "needle \<noteq> []" "length needle \<le> length hs"
  shows "is_first (occurs_at needle hs) offset
     (map_option (\<lambda>i. i - b) (contains_loop op k hs (length hs - (length needle - 1)) needle b offset)) \<and>
     (\<forall>i. contains_loop op k hs (length hs - (length needle - 1)) needle b offset = Some i \<longrightarrow> b \<le> i)"
proof (induction "length hs - (length needle - 1) - offset" arbitrary: offset rule: less_induct)
  case less
  let ?n = "length hs - (length needle - 1)"
  let ?r = "contains_loop op k hs ?n needle b"
  have bound: "occurs_at needle hs i \<Longrightarrow> i < ?n" for i using assms(2,3) by (cases needle) (auto simp: occurs_at_def)
  show ?case
  proof (cases "offset < ?n")
    case False
    then show ?thesis using bound by (subst contains_loop.simps) (auto simp: is_first_def dest!: bound)
  next
    case True
    note m = memchr_first [of "?n - offset" "drop offset hs" "hd needle"]
    show ?thesis
    proof (cases "memchr (drop offset hs) (hd needle) (?n - offset)")
      case None
      have "\<not> occurs_at needle hs i" if "offset \<le> i" for i
      proof
        assume o: "occurs_at needle hs i"
        then have "i - offset < ?n - offset" "drop offset hs ! (i - offset) = hd needle" "i - offset < length (drop offset hs)"
          using bound [OF o] occurs_first [OF o assms(2)] that True by auto
        then show False using m None by (simp add: is_first_def)
      qed
      then show ?thesis using True None by (subst contains_loop.simps) (simp add: is_first_def)
    next
      case (Some i)
      then have i: "i < ?n - offset" "i < length (drop offset hs)" "\<forall>j<i. drop offset hs ! j \<noteq> hd needle"
        using m by (auto simp: is_first_def)
      have skip: "\<not> occurs_at needle hs j" if "offset \<le> j" "j < offset + i" for j
      proof
        assume "occurs_at needle hs j"
        from occurs_first [OF this assms(2)] have "drop offset hs ! (j - offset) = hd needle" using that by simp
        then show False using i(3) that by (metis add.commute less_diff_conv2)
      qed
      have len: "length needle \<le> length (drop (offset + i) hs)" using i(1) assms(2,3) True by (cases needle) auto
      let ?hit = "take k (drop (offset + i) hs) = take k needle \<and> MatchRemainder op k (drop (offset + i) hs) needle"
      have "offset + i + length needle \<le> length hs" using i(1) assms(2,3) True by (cases needle) auto
      then have hit: "?hit \<longleftrightarrow> occurs_at needle hs (offset + i)"
        unfolding compared [OF assms(1) len] by (simp add: occurs_at_def)
      have r: "?r offset = (if ?hit then Some (b + (offset + i)) else ?r (offset + i + 1))"
        using True Some by (subst contains_loop.simps) (simp add: Let_def)
      show ?thesis
      proof (cases ?hit)
        case True
        have "?r offset = Some (b + (offset + i))" using r True by simp
        then show ?thesis using hit True skip by (auto simp: is_first_def)
      next
        case False
        have "?n - (offset + i + 1) < ?n - offset" using \<open>offset < ?n\<close> by simp
        note less [OF this]
        moreover have "?r offset = ?r (offset + i + 1)" using r False by simp
        moreover have "\<forall>j. offset \<le> j \<longrightarrow> j \<le> offset + i \<longrightarrow> \<not> occurs_at needle hs j"
          using skip hit False by (metis le_neq_implies_less)
        ultimately show ?thesis using is_first_skip [of "occurs_at needle hs" "offset + i" _ offset] by simp
      qed
    qed
  qed
qed

lemma Contains_first:
  assumes "fits op k (length needle)" "needle \<noteq> []"
  shows "is_first (occurs_at needle hs) 0 (map_option (\<lambda>i. i - b) (Contains op k hs needle b)) \<and>
     (\<forall>i. Contains op k hs needle b = Some i \<longrightarrow> b \<le> i)"
proof (cases "length needle \<le> length hs")
  case True
  then show ?thesis using contains_loop_first [OF assms True, of 0 b] by (simp add: Contains_def)
qed (auto simp: Contains_def is_first_def occurs_at_def)

lemma FindStrInStr_first:
  assumes "needle \<noteq> []"
  shows "is_first (occurs_at needle hs) 0 (FindStrInStr hs needle)"
proof (cases "memchr hs (hd needle) (length hs)")
  case None
  have "\<not> occurs_at needle hs i" for i
    using occurs_first [of needle hs i] assms memchr_first [of "length hs" hs "hd needle"] None by (auto simp: is_first_def)
  then show ?thesis using None by (simp add: FindStrInStr_def is_first_def)
next
  case (Some b)
  then have b: "b < length hs" "hs ! b = hd needle" "\<forall>j<b. hs ! j \<noteq> hd needle"
    using memchr_first [of "length hs" hs "hd needle"] by (auto simp: is_first_def)
  have shift: "occurs_at needle (drop b hs) i \<longleftrightarrow> occurs_at needle hs (b + i)" for i
    using b(1) by (auto simp: occurs_at_def add.commute)
  have below: "\<not> occurs_at needle hs j" if "j < b" for j
    using occurs_first [of needle hs j] assms b(3) that by auto
  have lift: "is_first (occurs_at needle hs) 0 r"
    if "is_first (occurs_at needle (drop b hs)) 0 (map_option (\<lambda>i. i - b) r) \<and> (\<forall>i. r = Some i \<longrightarrow> b \<le> i)" for r
  proof (cases r)
    case None
    have "\<not> occurs_at needle hs j" for j
      using below [of j] that None shift [of "j - b"] by (cases "j < b") (auto simp: is_first_def)
    then show ?thesis using None by (simp add: is_first_def)
  next
    case (Some i)
    have "\<not> occurs_at needle hs j" if "j < i" for j
    proof (cases "j < b")
      case False
      then have "j - b < i - b" using that by simp
      then show ?thesis using \<open>is_first _ 0 (map_option _ r) \<and> _\<close> Some shift [of "j - b"] False by (auto simp: is_first_def)
    qed (rule below)
    then show ?thesis using that Some shift [of "i - b"] by (auto simp: is_first_def)
  qed
  let ?n = "length needle"
  have n: "?n = 1 \<or> ?n = 2 \<or> ?n = 3 \<or> ?n = 4 \<or> ?n = 5 \<or> ?n = 6 \<or> ?n = 7 \<or> ?n = 8 \<or> 8 < ?n"
  proof -
    have "0 < ?n" using assms by simp
    then show ?thesis by linarith
  qed
  have one: "is_first (occurs_at needle hs) 0 (Some b)" if "?n = 1"
    using that b below by (cases needle) (auto simp: is_first_def occurs_at_def Cons_nth_drop_Suc [symmetric])
  have c: "is_first (occurs_at needle hs) 0 (Contains op k (drop b hs) needle b)" if "fits op k ?n" for op k
    by (rule lift [OF Contains_first [OF that assms]])
  show ?thesis using n Some one by (elim disjE) (auto simp: FindStrInStr_def Let_def intro!: c simp: fits_def)
qed

section \<open>What a pattern means\<close>

datatype like_token = Lit char | AnyChar | AnySeq

fun like_tokens :: "reader \<Rightarrow> char option \<Rightarrow> string \<Rightarrow> like_token list option" where
  "like_tokens rd escape [] = Some []"
| "like_tokens rd escape (q # pattern) =
     (let pchar = Operation rd q in
      if escape = Some pchar then
        (case pattern of [] \<Rightarrow> None | q' # rest \<Rightarrow> map_option ((#) (Lit q')) (like_tokens rd escape rest))
      else map_option ((#) (if pchar = CHR ''_'' then AnyChar else if pchar = CHR ''%'' then AnySeq else Lit pchar))
             (like_tokens rd escape pattern))"

text \<open>The tokens matched against bytes: a percent sign stands for any number of bytes.\<close>

fun like_bytes :: "reader \<Rightarrow> like_token list \<Rightarrow> string \<Rightarrow> bool" where
  "like_bytes rd [] s \<longleftrightarrow> s = []"
| "like_bytes rd (Lit c # ts) s \<longleftrightarrow> s \<noteq> [] \<and> Operation rd (hd s) = c \<and> like_bytes rd ts (tl s)"
| "like_bytes rd (AnyChar # ts) s \<longleftrightarrow> s \<noteq> [] \<and> like_bytes rd ts (NextCharacter rd s)"
| "like_bytes rd (AnySeq # ts) s \<longleftrightarrow> (\<exists>n\<le>length s. like_bytes rd ts (drop n s))"

lemma seq_later: "like_bytes rd (AnySeq # ts) (drop n s) \<Longrightarrow> like_bytes rd (AnySeq # ts) s"
proof -
  assume "like_bytes rd (AnySeq # ts) (drop n s)"
  then obtain m where "like_bytes rd ts (drop m (drop n s))" by auto
  then have *: "like_bytes rd ts (drop (m + n) s)" by simp
  show ?thesis
  proof (cases "m + n \<le> length s")
    case False
    then have "like_bytes rd ts (drop (length s) s)" using * by simp
    then show ?thesis unfolding like_bytes.simps by blast
  qed (use * in auto)
qed

lemma like_bytes_prefix:
  assumes "\<And>s. like_bytes rd ts s = like_bytes rd ts' s"
  shows "like_bytes rd (us @ ts) s = like_bytes rd (us @ ts') s"
proof (induction us arbitrary: s)
  case (Cons u us)
  then show ?case by (cases u) auto
qed (simp add: assms)

lemma seq_twice: "like_bytes rd (AnySeq # AnySeq # ts) s = like_bytes rd (AnySeq # ts) s"
proof
  assume "like_bytes rd (AnySeq # AnySeq # ts) s"
  then obtain n where "like_bytes rd (AnySeq # ts) (drop n s)" by auto
  then show "like_bytes rd (AnySeq # ts) s" by (rule seq_later)
next
  assume "like_bytes rd (AnySeq # ts) s"
  then have "like_bytes rd (AnySeq # ts) (drop 0 s)" by simp
  then show "like_bytes rd (AnySeq # AnySeq # ts) s" by (metis like_bytes.simps(4) le0)
qed

lemma any_seq: "like_bytes rd [AnySeq] s"
proof -
  have "like_bytes rd [] (drop (length s) s)" by simp
  then show ?thesis unfolding like_bytes.simps(4) by blast
qed

lemma percent: "Operation rd q = CHR ''%'' \<longleftrightarrow> q = CHR ''%''"
proof (cases rd)
  case ASCIILCaseReader
  have "CharacterToLower q = CHR ''%'' \<longleftrightarrow> q = CHR ''%''"
  proof
    assume a: "CharacterToLower q = CHR ''%''"
    show "q = CHR ''%''"
    proof (cases "(65 :: nat) \<le> of_char q \<and> of_char q \<le> (90 :: nat)")
      case True
      then have "of_char (CharacterToLower q) = (of_char q + 32 :: nat)" by (simp add: CharacterToLower_def)
      then show ?thesis using a True by simp
    next
      case False
      then have "CharacterToLower q = q" by (auto simp: CharacterToLower_def)
      then show ?thesis using a by simp
    qed
  qed (simp add: CharacterToLower_def)
  then show ?thesis using ASCIILCaseReader by simp
qed simp

lemma tokens_percents:
  assumes "escape \<noteq> Some (CHR ''%'')" "like_tokens rd escape pattern = Some ts"
  obtains ts' where "like_tokens rd escape (dropWhile (\<lambda>c. c = CHR ''%'') pattern) = Some ts'"
    "\<And>s. like_bytes rd (AnySeq # ts) s = like_bytes rd (AnySeq # ts') s"
  using assms(2)
proof (induction pattern arbitrary: ts thesis)
  case (Cons q pattern)
  show ?case
  proof (cases "q = CHR ''%''")
    case True
    have "Operation rd (CHR ''%'') = CHR ''%''" by (simp add: percent)
    then obtain us where us: "like_tokens rd escape pattern = Some us" "ts = AnySeq # us"
      using Cons.prems(2) True assms(1) by (auto split: if_splits)
    obtain ts' where "like_tokens rd escape (dropWhile (\<lambda>c. c = CHR ''%'') pattern) = Some ts'"
      "\<And>s. like_bytes rd (AnySeq # us) s = like_bytes rd (AnySeq # ts') s"
      using Cons.IH [OF _ us(1)] by blast
    then show ?thesis using Cons.prems(1) [of ts'] True us(2) seq_twice by simp
  qed (use Cons.prems in simp)
qed auto

lemma empty_match:
  assumes "escape \<noteq> Some (CHR ''%'')" "like_tokens rd escape pattern = Some ts"
  shows "like_bytes rd ts [] \<longleftrightarrow> dropWhile (\<lambda>c. c = CHR ''%'') pattern = []"
  using assms(2)
proof (induction pattern arbitrary: ts)
  case (Cons q pattern)
  show ?case
  proof (cases "q = CHR ''%''")
    case True
    have "Operation rd (CHR ''%'') = CHR ''%''" by (simp add: percent)
    then obtain us where us: "like_tokens rd escape pattern = Some us" "ts = AnySeq # us"
      using Cons.prems True assms(1) by (auto split: if_splits)
    then show ?thesis using Cons.IH True by simp
  next
    case False
    then have "\<exists>u us. ts = u # us \<and> u \<noteq> AnySeq"
      using Cons.prems by (auto simp: Let_def percent split: if_splits list.splits)
    then obtain u us where "ts = u # us" "u \<noteq> AnySeq" by blast
    then show ?thesis using False by (cases u) auto
  qed
qed auto

lemma search_split: "(\<exists>n<length (c # s). P (drop n (c # s))) \<longleftrightarrow> P (c # s) \<or> (\<exists>n<length s. P (drop n s))"
proof
  assume "\<exists>n<length (c # s). P (drop n (c # s))"
  then obtain n where "n < length (c # s)" "P (drop n (c # s))" by blast
  then show "P (c # s) \<or> (\<exists>n<length s. P (drop n s))" by (cases n) auto
next
  assume "P (c # s) \<or> (\<exists>n<length s. P (drop n s))"
  then show "\<exists>n<length (c # s). P (drop n (c # s))"
  proof
    assume "\<exists>n<length s. P (drop n s)"
    then obtain n where "n < length s" "P (drop n s)" by blast
    then show ?thesis by (intro exI [of _ "Suc n"]) simp
  qed (intro exI [of _ 0], simp)
qed

lemma like_correct:
  assumes "escape \<noteq> Some (CHR ''%'')"
  shows "like_tokens rd escape pattern = Some ts \<Longrightarrow> TemplatedLikeOperator rd escape s pattern = Inr (like_bytes rd ts s)"
    and "like_tokens rd escape pattern = Some ts \<Longrightarrow>
      like_search rd escape s pattern = Inr (\<exists>n<length s. like_bytes rd ts (drop n s))"
  using assms
proof (induction rd escape s pattern and rd escape s pattern arbitrary: ts and ts rule: TemplatedLikeOperator_like_search.induct)
  case (1 rd escape pattern)
  then show ?case using empty_match by simp
next
  case (2 rd escape c s)
  then show ?case by simp
next
  case (3 rd escape c s q pattern)
  let ?p = "Operation rd q"
  consider (esc) "escape = Some ?p" | (one) "escape \<noteq> Some ?p" "?p = CHR ''_''" | (any) "escape \<noteq> Some ?p" "?p = CHR ''%''"
    | (lit) "escape \<noteq> Some ?p" "?p \<noteq> CHR ''_''" "?p \<noteq> CHR ''%''" by blast
  then show ?case
  proof cases
    case esc
    then obtain q' rest us where p: "pattern = q' # rest" "like_tokens rd escape rest = Some us" "ts = Lit q' # us"
      using 3(5) by (auto split: list.splits)
    show ?thesis
    proof (cases "q' = Operation rd c")
      case True
      have "TemplatedLikeOperator rd escape s rest = Inr (like_bytes rd us s)"
        by (rule 3(1) [OF refl refl esc p(1) _ p(2) 3(6)]) (simp add: True)
      then show ?thesis using True p esc by simp
    next
      case False
      then show ?thesis using p esc by simp
    qed
  next
    case one
    then obtain us where us: "like_tokens rd escape pattern = Some us" "ts = AnyChar # us" using 3(5) by auto
    have "TemplatedLikeOperator rd escape (NextCharacter rd (c # s)) pattern = Inr (like_bytes rd us (NextCharacter rd (c # s)))"
      by (rule 3(2) [OF refl refl one us(1) 3(6)])
    moreover have "TemplatedLikeOperator rd escape (c # s) (q # pattern) =
        TemplatedLikeOperator rd escape (NextCharacter rd (c # s)) pattern"
      using one by simp
    ultimately show ?thesis unfolding us(2) by simp
  next
    case any
    then obtain us where us: "like_tokens rd escape pattern = Some us" "ts = AnySeq # us" using 3(5) by auto
    let ?rest = "dropWhile (\<lambda>c. c = CHR ''%'') pattern"
    obtain ts' where ts': "like_tokens rd escape ?rest = Some ts'" "\<And>s. like_bytes rd (AnySeq # us) s = like_bytes rd (AnySeq # ts') s"
      using tokens_percents [OF 3(6) us(1)] by blast
    show ?thesis
    proof (cases "?rest = []")
      case True
      have "ts' = []" using ts'(1) unfolding True by simp
      then have "like_bytes rd (AnySeq # ts') (c # s)" by (simp only: any_seq)
      then have "like_bytes rd ts (c # s)" using us(2) ts'(2) by (simp del: like_bytes.simps)
      moreover have "TemplatedLikeOperator rd escape (c # s) (q # pattern) = Inr True" using True any by (simp add: Let_def)
      ultimately show ?thesis by (simp only:)
    next
      case False
      have "dropWhile (\<lambda>c. c = CHR ''%'') ?rest \<noteq> []" using False by (metis dropWhile_idem)
      then have none: "\<not> like_bytes rd ts' []" using empty_match [OF 3(6) ts'(1)] by simp
      have "(\<exists>n\<le>length (c # s). like_bytes rd ts' (drop n (c # s))) \<longleftrightarrow> (\<exists>n<length (c # s). like_bytes rd ts' (drop n (c # s)))"
      proof
        assume "\<exists>n\<le>length (c # s). like_bytes rd ts' (drop n (c # s))"
        then obtain n where n: "n \<le> length (c # s)" "like_bytes rd ts' (drop n (c # s))" by blast
        then have "n \<noteq> length (c # s)" using none by auto
        then show "\<exists>n<length (c # s). like_bytes rd ts' (drop n (c # s))" using n le_neq_implies_less by blast
      qed (use less_imp_le in blast)
      then have "like_bytes rd ts (c # s) \<longleftrightarrow> (\<exists>n<length (c # s). like_bytes rd ts' (drop n (c # s)))"
        unfolding us(2) ts'(2) by simp
      moreover have "like_search rd escape (c # s) ?rest = Inr (\<exists>n<length (c # s). like_bytes rd ts' (drop n (c # s)))"
        by (rule 3(3) [OF refl refl _ _ _ refl False ts'(1) 3(6)]) (use any in simp_all)
      moreover have "TemplatedLikeOperator rd escape (c # s) (q # pattern) = like_search rd escape (c # s) ?rest"
        using any False by (simp add: Let_def del: like_search.simps dropWhile_eq_Nil_conv)
      ultimately show ?thesis by (simp only:)
    qed
  next
    case lit
    then obtain us where us: "like_tokens rd escape pattern = Some us" "ts = Lit ?p # us" using 3(5) by auto
    show ?thesis
    proof (cases "?p = Operation rd c")
      case True
      have "TemplatedLikeOperator rd escape s pattern = Inr (like_bytes rd us s)"
        by (rule 3(4) [OF refl refl _ _ _ True us(1) 3(6)]) (use lit in simp_all)
      then show ?thesis using True lit us(2) by (simp add: Let_def)
    next
      case False
      then show ?thesis using lit us(2) by (simp add: Let_def)
    qed
  qed
next
  case (4 rd escape rest)
  then show ?case by simp
next
  case (5 rd escape c s rest)
  show ?case
    using 5 search_split [of c s "like_bytes rd ts"] by (cases "like_bytes rd ts (c # s)") simp_all
qed

section \<open>Matching whole characters\<close>

definition utf8_length :: "char \<Rightarrow> nat" where
  "utf8_length c = (let b = of_char c :: nat in if b < 128 then 1 else if b < 224 then 2 else if b < 240 then 3 else 4)"

text \<open>A character is a lead byte with the number of continuation bytes that the lead byte announces.\<close>

definition utf8_char :: "string \<Rightarrow> bool" where
  "utf8_char x \<longleftrightarrow> x \<noteq> [] \<and> IsCharacter (hd x) \<and> length x = utf8_length (hd x) \<and> (\<forall>c\<in>set (tl x). \<not> IsCharacter c)"

datatype char_token = Exactly string | OneCharacter | AnyText

fun char_tokens :: "char option \<Rightarrow> string list \<Rightarrow> char_token list option" where
  "char_tokens escape [] = Some []"
| "char_tokens escape (q # pattern) =
     (if escape \<noteq> None \<and> q = [the escape] then
        (case pattern of [] \<Rightarrow> None | q' # rest \<Rightarrow> map_option ((#) (Exactly q')) (char_tokens escape rest))
      else map_option ((#) (if q = ''_'' then OneCharacter else if q = ''%'' then AnyText else Exactly q))
             (char_tokens escape pattern))"

fun like_chars :: "char_token list \<Rightarrow> string list \<Rightarrow> bool" where
  "like_chars [] s \<longleftrightarrow> s = []"
| "like_chars (Exactly x # ts) s \<longleftrightarrow> s \<noteq> [] \<and> hd s = x \<and> like_chars ts (tl s)"
| "like_chars (OneCharacter # ts) s \<longleftrightarrow> s \<noteq> [] \<and> like_chars ts (tl s)"
| "like_chars (AnyText # ts) s \<longleftrightarrow> (\<exists>n\<le>length s. like_chars ts (drop n s))"

fun token_bytes :: "char_token \<Rightarrow> like_token list" where
  "token_bytes (Exactly x) = map Lit x"
| "token_bytes OneCharacter = [AnyChar]"
| "token_bytes AnyText = [AnySeq]"

lemma ascii_IsCharacter: "(of_char c :: nat) < 128 \<Longrightarrow> IsCharacter c"
  unfolding IsCharacter_def by linarith

lemma continuation_byte: "\<not> IsCharacter c \<Longrightarrow> 128 \<le> (of_char c :: nat)"
  using ascii_IsCharacter by (metis linorder_not_less)

lemma utf8_single:
  assumes "utf8_char x" "c \<in> set x" "(of_char c :: nat) < 128"
  shows "x = [c]"
proof -
  obtain l xs where x: "x = l # xs" using assms(1) by (cases x) (auto simp: utf8_char_def)
  have "c \<notin> set xs" using assms(1,3) x ascii_IsCharacter by (auto simp: utf8_char_def)
  then have "c = l" using assms(2) x by simp
  then have "length x = 1" using assms(1,3) x by (simp add: utf8_char_def utf8_length_def)
  then show ?thesis using x \<open>c = l\<close> by simp
qed

lemma like_tokens_lits:
  assumes "\<forall>c\<in>set x. escape \<noteq> Some c \<and> c \<noteq> CHR ''_'' \<and> c \<noteq> CHR ''%''"
  shows "like_tokens StandardCharacterReader escape (x @ p) = map_option ((@) (map Lit x)) (like_tokens StandardCharacterReader escape p)"
  using assms
proof (induction x)
  case (Cons c x)
  then show ?case by (cases "like_tokens StandardCharacterReader escape p") simp_all
next
  case Nil
  then show ?case by (cases "like_tokens StandardCharacterReader escape p") simp_all
qed

lemma utf8_plain:
  assumes "utf8_char x" "x \<noteq> ''_''" "x \<noteq> ''%''" "\<And>e. escape = Some e \<Longrightarrow> (of_char e :: nat) < 128 \<and> x \<noteq> [e]"
  shows "\<forall>c\<in>set x. escape \<noteq> Some c \<and> c \<noteq> CHR ''_'' \<and> c \<noteq> CHR ''%''"
proof
  fix c assume c: "c \<in> set x"
  have "c \<noteq> CHR ''_''" using utf8_single [OF assms(1) c] assms(2) by auto
  moreover have "c \<noteq> CHR ''%''" using utf8_single [OF assms(1) c] assms(3) by auto
  moreover have "escape \<noteq> Some c" using utf8_single [OF assms(1) c] assms(4) by auto
  ultimately show "escape \<noteq> Some c \<and> c \<noteq> CHR ''_'' \<and> c \<noteq> CHR ''%''" by blast
qed

lemma utf8_tail_plain:
  assumes "utf8_char (l # xs)" "\<And>e. escape = Some e \<Longrightarrow> (of_char e :: nat) < 128"
  shows "\<forall>c\<in>set xs. escape \<noteq> Some c \<and> c \<noteq> CHR ''_'' \<and> c \<noteq> CHR ''%''"
proof
  fix c assume "c \<in> set xs"
  then have "128 \<le> (of_char c :: nat)" using assms(1) continuation_byte by (auto simp: utf8_char_def)
  then show "escape \<noteq> Some c \<and> c \<noteq> CHR ''_'' \<and> c \<noteq> CHR ''%''" using assms(2) [of c] by auto
qed

lemma tokens_of_chars:
  assumes "\<And>e. escape = Some e \<Longrightarrow> (of_char e :: nat) < 128"
  shows "\<forall>x\<in>set pcs. utf8_char x \<Longrightarrow> char_tokens escape pcs = Some ts \<Longrightarrow>
     like_tokens StandardCharacterReader escape (concat pcs) = Some (concat (map token_bytes ts))"
  using assms
proof (induction escape pcs arbitrary: ts rule: char_tokens.induct)
  case (2 escape q pattern)
  let ?lt = "like_tokens StandardCharacterReader escape"
  show ?case
  proof (cases "escape \<noteq> None \<and> q = [the escape]")
    case True
    then obtain e where e: "escape = Some e" "q = [e]" by auto
    obtain q' rest us where p: "pattern = q' # rest" "char_tokens escape rest = Some us" "ts = Exactly q' # us"
      using 2(4) True by (auto split: list.splits)
    obtain l xs where q': "q' = l # xs" using 2(3) p(1) by (cases q') (auto simp: utf8_char_def)
    then have xs: "\<forall>c\<in>set xs. escape \<noteq> Some c \<and> c \<noteq> CHR ''_'' \<and> c \<noteq> CHR ''%''"
      using utf8_tail_plain [of l xs escape] 2(3,5) p(1) by simp
    have "?lt (concat rest) = Some (concat (map token_bytes us))"
      by (rule 2(1) [OF True p(1) _ p(2) 2(5)]) (use 2(3) p(1) in auto)
    then have "?lt (xs @ concat rest) = Some (map Lit xs @ concat (map token_bytes us))"
      using like_tokens_lits [OF xs] by simp
    then show ?thesis using e p q' by simp
  next
    case False
    obtain us where us: "char_tokens escape pattern = Some us"
      "ts = (if q = ''_'' then OneCharacter else if q = ''%'' then AnyText else Exactly q) # us"
      using 2(4) False by (auto split: if_splits)
    have IH: "?lt (concat pattern) = Some (concat (map token_bytes us))"
      by (rule 2(2) [OF False _ us(1) 2(5)]) (use 2(3) in auto)
    consider (one) "q = ''_''" | (any) "q = ''%''" | (lit) "q \<noteq> ''_''" "q \<noteq> ''%''" by blast
    then show ?thesis
    proof cases
      case lit
      have "\<forall>c\<in>set q. escape \<noteq> Some c \<and> c \<noteq> CHR ''_'' \<and> c \<noteq> CHR ''%''"
        by (rule utf8_plain) (use 2(3,5) False lit in auto)
      then show ?thesis using like_tokens_lits [of q escape "concat pattern"] IH us lit by simp
    next
      case one
      then have "escape \<noteq> Some (CHR ''_'')" using False by auto
      then show ?thesis using IH us one by simp
    next
      case any
      then have "escape \<noteq> Some (CHR ''%'')" using False by auto
      then show ?thesis using IH us any by simp
    qed
  qed
qed simp

lemma utf8_same_lead: "utf8_char x \<Longrightarrow> utf8_char y \<Longrightarrow> x @ s = y @ t \<longleftrightarrow> x = y \<and> s = t"
  by (cases x; cases y) (auto simp: utf8_char_def)

lemma next_character:
  assumes "utf8_char x" "\<forall>x\<in>set cs. utf8_char x"
  shows "k < length x \<Longrightarrow> NextCharacter StandardCharacterReader (drop k x @ concat cs) = concat cs"
proof -
  assume k: "k < length x"
  obtain l xs where x: "x = l # xs" using assms(1) by (cases x) (auto simp: utf8_char_def)
  have "tl (drop k x @ concat cs) = tl (drop k x) @ concat cs" using k by (cases "drop k x") auto
  moreover have "tl (drop k x) = drop k xs" using x by (simp add: tl_drop)
  moreover have "\<forall>c\<in>set (drop k xs). \<not> IsCharacter c" using assms(1) x by (auto simp: utf8_char_def dest: in_set_dropD)
  moreover have "dropWhile (\<lambda>c. \<not> IsCharacter c) (concat cs) = concat cs"
  proof (cases cs)
    case (Cons y ys)
    then obtain m ms where "y = m # ms" "IsCharacter m" using assms(2) by (cases y) (auto simp: utf8_char_def)
    then show ?thesis using Cons by simp
  qed simp
  ultimately show ?thesis by (simp add: dropWhile_append2)
qed

lemma like_bytes_lits:
  "like_bytes rd (map Lit x @ ts) s \<longleftrightarrow>
     length x \<le> length s \<and> map (Operation rd) (take (length x) s) = x \<and> like_bytes rd ts (drop (length x) s)"
proof (induction x arbitrary: s)
  case (Cons c x)
  then show ?case by (cases s) auto
qed simp

text \<open>A match that starts inside of a character also starts at that character.\<close>

lemma mid_character:
  assumes "utf8_char x" "\<forall>x\<in>set cs. utf8_char x" "k < length x" "0 < k"
    "\<And>y. Exactly y \<in> set ts \<Longrightarrow> utf8_char y"
    "like_bytes StandardCharacterReader (concat (map token_bytes ts)) (drop k x @ concat cs)"
  shows "like_bytes StandardCharacterReader (concat (map token_bytes ts)) (x @ concat cs)"
proof (cases ts)
  case Nil
  then show ?thesis using assms(3,6) by simp
next
  case (Cons t ts')
  show ?thesis
  proof (cases t)
    case (Exactly y)
    then have "utf8_char y" using assms(5) [of y] Cons by simp
    then obtain m ms where y: "y = m # ms" "IsCharacter m" by (cases y) (auto simp: utf8_char_def)
    have "hd (drop k x) \<in> set (tl x)" using assms(3,4) by (cases x; cases k) (auto simp: hd_drop_conv_nth)
    then have "\<not> IsCharacter (hd (drop k x))" using assms(1) by (simp add: utf8_char_def)
    then have "hd (drop k x @ concat cs) \<noteq> m" using assms(3) y(2) by (auto simp: hd_append)
    then show ?thesis using assms(6) Cons Exactly y by simp
  next
    case OneCharacter
    then show ?thesis using assms(6) Cons next_character [OF assms(1,2,3)] next_character [OF assms(1,2), of 0] assms(1,3)
      by (auto simp: utf8_char_def simp del: NextCharacter.simps)
  next
    case AnyText
    have "drop k x @ concat cs = drop k (x @ concat cs)" using assms(3) by simp
    then show ?thesis using assms(6) Cons AnyText seq_later [of _ "concat (map token_bytes ts')" k "x @ concat cs"] by simp
  qed
qed

lemma Operation_standard [simp]: "Operation StandardCharacterReader = id"
  by (rule ext) simp

lemma drop_concat:
  assumes "n < length (concat cs)"
  obtains m k where "m < length cs" "k < length (cs ! m)" "drop n (concat cs) = drop k (cs ! m) @ concat (drop (Suc m) cs)"
  using assms
proof (induction cs arbitrary: n thesis)
  case (Cons c cs)
  show ?case
  proof (cases "n < length c")
    case True
    then show ?thesis using Cons.prems(1) [of 0 n] by simp
  next
    case False
    then have "n - length c < length (concat cs)" using Cons.prems(2) by simp
    from Cons.IH [OF _ this] obtain m k where
      "m < length cs" "k < length (cs ! m)" "drop (n - length c) (concat cs) = drop k (cs ! m) @ concat (drop (Suc m) cs)"
      by blast
    then show ?thesis using Cons.prems(1) [of "Suc m" k] False by simp
  qed
qed simp

lemma any_text:
  assumes "\<forall>x\<in>set scs. utf8_char x" "\<And>y. Exactly y \<in> set ts \<Longrightarrow> utf8_char y"
  defines "P \<equiv> like_bytes StandardCharacterReader (concat (map token_bytes ts))"
  shows "(\<exists>n\<le>length (concat scs). P (drop n (concat scs))) \<longleftrightarrow> (\<exists>m\<le>length scs. P (concat (drop m scs)))"
proof
  assume "\<exists>n\<le>length (concat scs). P (drop n (concat scs))"
  then obtain n where n: "n \<le> length (concat scs)" "P (drop n (concat scs))" by blast
  show "\<exists>m\<le>length scs. P (concat (drop m scs))"
  proof (cases "n = length (concat scs)")
    case True
    then have "P (concat (drop (length scs) scs))" using n(2) by simp
    then show ?thesis by blast
  next
    case False
    then obtain m k where m: "m < length scs" "k < length (scs ! m)"
      "drop n (concat scs) = drop k (scs ! m) @ concat (drop (Suc m) scs)"
      using n(1) drop_concat [of n scs] le_neq_implies_less by blast
    have x: "utf8_char (scs ! m)" "\<forall>x\<in>set (drop (Suc m) scs). utf8_char x"
      using assms(1) m(1) by (auto dest: in_set_dropD)
    have "P (scs ! m @ concat (drop (Suc m) scs))"
    proof (cases "k = 0")
      case False
      then show ?thesis unfolding P_def using mid_character [OF x m(2) _ assms(2)] n(2) m(3) by (simp add: P_def)
    qed (use n(2) m(3) in simp)
    then have "P (concat (drop m scs))" using m(1) by (metis Cons_nth_drop_Suc concat.simps(2))
    then show ?thesis using m(1) less_imp_le by blast
  qed
next
  assume "\<exists>m\<le>length scs. P (concat (drop m scs))"
  then obtain m where m: "m \<le> length scs" "P (concat (drop m scs))" by blast
  have "concat scs = concat (take m scs) @ concat (drop m scs)" by (metis append_take_drop_id concat_append)
  then have "drop (length (concat (take m scs))) (concat scs) = concat (drop m scs)"
    "length (concat (take m scs)) \<le> length (concat scs)" by simp_all
  then show "\<exists>n\<le>length (concat scs). P (drop n (concat scs))" using m(2) by metis
qed

lemma chars_correct:
  assumes "\<forall>x\<in>set scs. utf8_char x" "\<And>y. Exactly y \<in> set ts \<Longrightarrow> utf8_char y"
  shows "like_bytes StandardCharacterReader (concat (map token_bytes ts)) (concat scs) = like_chars ts scs"
  using assms
proof (induction ts arbitrary: scs)
  case Nil
  then show ?case by (cases scs) (auto simp: utf8_char_def)
next
  case (Cons t ts)
  have IH: "like_bytes StandardCharacterReader (concat (map token_bytes ts)) (concat cs) = like_chars ts cs"
    if "\<forall>x\<in>set cs. utf8_char x" for cs
    using Cons.IH [OF that] Cons.prems(2) by simp
  show ?case
  proof (cases t)
    case (Exactly y)
    then have y: "utf8_char y" using Cons.prems(2) by simp
    show ?thesis
    proof (cases scs)
      case Nil
      have "y \<noteq> []" using y by (simp add: utf8_char_def)
      then show ?thesis using Exactly Nil by (simp add: like_bytes_lits)
    next
      case (Cons x cs)
      then have x: "utf8_char x" "\<forall>x\<in>set cs. utf8_char x" using \<open>\<forall>x\<in>set scs. utf8_char x\<close> by auto
      have split: "length y \<le> length (x @ concat cs) \<and> take (length y) (x @ concat cs) = y \<longleftrightarrow> x = y"
      proof
        assume a: "length y \<le> length (x @ concat cs) \<and> take (length y) (x @ concat cs) = y"
        then have "x @ concat cs = y @ drop (length y) (x @ concat cs)" by (metis append_take_drop_id)
        then show "x = y" using utf8_same_lead [OF x(1) y] by blast
      qed simp
      show ?thesis
      proof (cases "x = y")
        case True
        then show ?thesis using Exactly IH [OF x(2)] Cons by (simp add: like_bytes_lits)
      next
        case False
        then have "\<not> like_bytes StandardCharacterReader (map Lit y @ concat (map token_bytes ts)) (x @ concat cs)"
          using split by (auto simp only: like_bytes_lits Operation_standard list.map_id0 id_apply)
        then show ?thesis using Exactly Cons False by simp
      qed
    qed
  next
    case OneCharacter
    show ?thesis
    proof (cases scs)
      case (Cons x cs)
      then have x: "utf8_char x" "\<forall>x\<in>set cs. utf8_char x" using \<open>\<forall>x\<in>set scs. utf8_char x\<close> by auto
      have "NextCharacter StandardCharacterReader (x @ concat cs) = concat cs" "x \<noteq> []"
        using next_character [OF x, of 0] x(1) by (simp_all add: utf8_char_def del: NextCharacter.simps)
      then show ?thesis using OneCharacter Cons IH [OF x(2)] by (simp del: NextCharacter.simps)
    qed (use OneCharacter in simp)
  next
    case AnyText
    have "like_bytes StandardCharacterReader (concat (map token_bytes (t # ts))) (concat scs) \<longleftrightarrow>
        (\<exists>m\<le>length scs. like_bytes StandardCharacterReader (concat (map token_bytes ts)) (concat (drop m scs)))"
      using any_text [OF Cons.prems(1), of ts] Cons.prems(2) AnyText by simp
    also have "\<dots> \<longleftrightarrow> like_chars (t # ts) scs"
      using IH Cons.prems(1) AnyText by (simp add: in_set_dropD Ball_def)
    finally show ?thesis .
  qed
qed

lemma char_tokens_exactly: "char_tokens escape pcs = Some ts \<Longrightarrow> Exactly y \<in> set ts \<Longrightarrow> y \<in> set pcs"
proof (induction escape pcs arbitrary: ts rule: char_tokens.induct)
  case (2 escape q pattern)
  show ?case
  proof (cases "escape \<noteq> None \<and> q = [the escape]")
    case True
    then obtain q' rest us where p: "pattern = q' # rest" "char_tokens escape rest = Some us" "ts = Exactly q' # us"
      using 2(3) by (auto split: list.splits)
    then show ?thesis using 2(1) [OF True p(1,2)] 2(4) by auto
  next
    case False
    then obtain us where us: "char_tokens escape pattern = Some us"
      "ts = (if q = ''_'' then OneCharacter else if q = ''%'' then AnyText else Exactly q) # us"
      using 2(3) by (auto split: if_splits)
    then show ?thesis using 2(2) [OF False us(1)] 2(4) by (auto split: if_splits)
  qed
qed simp

lemma templated_like_characters:
  assumes "\<forall>x\<in>set scs. utf8_char x" "\<forall>x\<in>set pcs. utf8_char x"
    "\<And>e. escape = Some e \<Longrightarrow> (of_char e :: nat) < 128 \<and> e \<noteq> CHR ''%''"
    "char_tokens escape pcs = Some ts"
  shows "TemplatedLikeOperator StandardCharacterReader escape (concat scs) (concat pcs) = Inr (like_chars ts scs)"
proof -
  have "like_tokens StandardCharacterReader escape (concat pcs) = Some (concat (map token_bytes ts))"
    using tokens_of_chars [OF _ assms(2,4)] assms(3) by blast
  moreover have "escape \<noteq> Some (CHR ''%'')" using assms(3) by blast
  ultimately show ?thesis
    using like_correct(1) [of escape StandardCharacterReader "concat pcs"]
      chars_correct [OF assms(1), of ts] char_tokens_exactly [OF assms(4)] assms(2) by simp
qed

lemma like_tokens_percents:
  assumes "escape \<noteq> Some (CHR ''%'')"
  shows "like_tokens rd escape (dropWhile (\<lambda>c. c = CHR ''%'') pattern) \<noteq> None \<Longrightarrow> like_tokens rd escape pattern \<noteq> None"
proof (induction pattern)
  case (Cons q pattern)
  show ?case
  proof (cases "q = CHR ''%''")
    case True
    have "Operation rd (CHR ''%'') = CHR ''%''" by (simp add: percent)
    then show ?thesis using Cons True assms by simp
  qed (use Cons.prems in simp)
qed simp

lemma dangling_escape:
  assumes "escape \<noteq> Some (CHR ''%'')"
  shows "like_tokens rd escape pattern = None \<Longrightarrow> TemplatedLikeOperator rd escape s pattern \<noteq> Inr True"
    and "like_tokens rd escape pattern = None \<Longrightarrow> like_search rd escape s pattern \<noteq> Inr True"
  using assms
proof (induction rd escape s pattern and rd escape s pattern rule: TemplatedLikeOperator_like_search.induct)
  case (1 rd escape pattern)
  then show ?case using like_tokens_percents [of escape rd pattern] by (auto simp del: dropWhile_eq_Nil_conv)
next
  case (3 rd escape c s q pattern)
  let ?p = "Operation rd q"
  consider (esc) "escape = Some ?p" | (one) "escape \<noteq> Some ?p" "?p = CHR ''_''" | (any) "escape \<noteq> Some ?p" "?p = CHR ''%''"
    | (lit) "escape \<noteq> Some ?p" "?p \<noteq> CHR ''_''" "?p \<noteq> CHR ''%''" by blast
  then show ?case
  proof cases
    case esc
    show ?thesis
    proof (cases pattern)
      case (Cons q' rest)
      have "like_tokens rd escape rest = None" using 3(5) esc Cons by simp
      then show ?thesis using 3(1) [OF refl refl esc Cons _ _ 3(6)] esc Cons by simp
    qed (use esc in simp)
  next
    case one
    have "like_tokens rd escape pattern = None" using 3(5) one by simp
    then have "TemplatedLikeOperator rd escape (NextCharacter rd (c # s)) pattern \<noteq> Inr True"
      by (rule 3(2) [OF refl refl one _ 3(6)])
    moreover have step: "TemplatedLikeOperator rd escape (c # s) (q # pattern) =
        TemplatedLikeOperator rd escape (NextCharacter rd (c # s)) pattern"
      using one by simp
    ultimately show ?thesis unfolding step by blast
  next
    case any
    let ?rest = "dropWhile (\<lambda>c. c = CHR ''%'') pattern"
    have "like_tokens rd escape pattern = None" using 3(5) any by simp
    then have none: "like_tokens rd escape ?rest = None" using like_tokens_percents [OF 3(6)] by blast
    have ne: "?rest \<noteq> []"
    proof
      assume "?rest = []"
      with none show False by (simp only: like_tokens.simps option.distinct)
    qed
    have "like_search rd escape (c # s) ?rest \<noteq> Inr True"
      by (rule 3(3) [OF refl refl _ _ _ refl ne none 3(6)]) (use any in simp_all)
    moreover have step: "TemplatedLikeOperator rd escape (c # s) (q # pattern) = like_search rd escape (c # s) ?rest"
      using any ne by (simp add: Let_def del: like_search.simps dropWhile_eq_Nil_conv)
    ultimately show ?thesis unfolding step by blast
  next
    case lit
    have none: "like_tokens rd escape pattern = None" using 3(5) lit by simp
    show ?thesis
    proof (cases "?p = Operation rd c")
      case True
      have "TemplatedLikeOperator rd escape s pattern \<noteq> Inr True"
        by (rule 3(4) [OF refl refl _ _ _ True none 3(6)]) (use lit in simp_all)
      then show ?thesis using True lit by (simp add: Let_def)
    qed (use lit in \<open>simp add: Let_def\<close>)
  qed
qed (auto split: sum.splits bool.splits)

section \<open>The matcher agrees with the operator\<close>

abbreviation "std \<equiv> StandardCharacterReader"

definition plain_token :: "char \<Rightarrow> like_token" where
  "plain_token c = (if c = CHR ''_'' then AnyChar else if c = CHR ''%'' then AnySeq else Lit c)"

lemma tokens_without_escape: "like_tokens std None p = Some (map plain_token p)"
  by (induction p) (simp_all add: plain_token_def)

text \<open>What the loop has read so far, as tokens.\<close>

definition read_tokens :: "bool \<Rightarrow> string list \<Rightarrow> string \<Rightarrow> like_token list" where
  "read_tokens has_start segs current =
     (if has_start then [AnySeq] else []) @ concat (map (\<lambda>x. map Lit x @ [AnySeq]) segs) @ map Lit current"

fun segment_tokens :: "bool \<Rightarrow> string list \<Rightarrow> like_token list" where
  "segment_tokens has_end [] = []"
| "segment_tokens has_end [x] = map Lit x @ (if has_end then [AnySeq] else [])"
| "segment_tokens has_end (x # y # xs) = map Lit x @ AnySeq # segment_tokens has_end (y # xs)"

definition matcher_tokens :: "LikeMatcher \<Rightarrow> like_token list" where
  "matcher_tokens m = (if has_start_percentage m then [AnySeq] else []) @ segment_tokens (has_end_percentage m) (segments m)"

lemma segment_tokens_done:
  "segs \<noteq> [] \<Longrightarrow> segment_tokens True segs = concat (map (\<lambda>x. map Lit x @ [AnySeq]) segs)"
  by (induction segs rule: induct_list012) auto

lemma segment_tokens_current:
  "segment_tokens False (segs @ [x]) = concat (map (\<lambda>x. map Lit x @ [AnySeq]) segs) @ map Lit x"
  by (induction segs rule: induct_list012) auto

lemma read_tokens_ends: "has_start \<or> segs \<noteq> [] \<Longrightarrow> \<exists>us. read_tokens has_start segs [] = us @ [AnySeq]"
  by (cases segs rule: rev_cases) (auto simp: read_tokens_def)

lemma create_loop_tokens:
  assumes "create_loop escape first rest current segs has_start has_end = Some m"
    "if first then current = [] \<and> segs = [] \<and> \<not> has_start else current = [] \<longrightarrow> has_start \<or> segs \<noteq> []"
    "has_end \<longleftrightarrow> rest = [] \<and> \<not> first \<and> current = []" "[] \<notin> set segs"
  shows "(\<forall>s. like_bytes std (read_tokens has_start segs current @ map plain_token rest) s \<longleftrightarrow> like_bytes std (matcher_tokens m) s) \<and>
     segments m \<noteq> [] \<and> [] \<notin> set (segments m)"
  using assms
proof (induction escape first rest current segs has_start has_end rule: create_loop.induct)
  case (1 escape first current segs has_start has_end)
  show ?case
  proof (cases "current = []")
    case True
    then have ne: "segs \<noteq> []" and m: "m = \<lparr>segments = segs, has_start_percentage = has_start, has_end_percentage = has_end\<rparr>"
      using 1(1) by (auto split: if_splits)
    then have "has_end" using 1(2,3) True by (auto split: if_splits)
    then show ?thesis using m ne segment_tokens_done [OF ne] 1(4) True by (simp add: matcher_tokens_def read_tokens_def)
  next
    case False
    then have m: "m = \<lparr>segments = segs @ [current], has_start_percentage = has_start, has_end_percentage = has_end\<rparr>" "\<not> has_end"
      using 1(1,3) by auto
    then show ?thesis using 1(4) False by (simp add: matcher_tokens_def read_tokens_def segment_tokens_current)
  qed
next
  case (2 escape first ch rest current segs has_start has_end)
  have has_end: "\<not> has_end" using 2(5) by simp
  show ?case
  proof (cases "ch = escape \<or> ch = CHR ''%'' \<or> ch = CHR ''_''")
    case True
    then have ch: "ch = CHR ''%''" "\<not> (ch = escape \<or> ch = CHR ''_'')" using 2(3) by (auto split: if_splits)
    let ?pushed = "if current \<noteq> [] then segs @ [current] else segs"
    let ?start = "if first then True else has_start"
    let ?stop = "if rest = [] then True else has_end"
    have IH: "\<forall>s. like_bytes std (read_tokens ?start ?pushed [] @ map plain_token rest) s \<longleftrightarrow> like_bytes std (matcher_tokens m) s"
      "segments m \<noteq> [] \<and> [] \<notin> set (segments m)"
      using 2(1) [OF True ch(2)] 2(3,4,6) ch has_end by (auto split: if_splits)
    have "like_bytes std (read_tokens has_start segs current @ map plain_token (ch # rest)) s \<longleftrightarrow>
        like_bytes std (read_tokens ?start ?pushed [] @ map plain_token rest) s" for s
    proof (cases "current = [] \<and> \<not> first")
      case True
      then obtain us where "read_tokens has_start segs [] = us @ [AnySeq]" using read_tokens_ends 2(4) by auto
      then show ?thesis
        using True ch(1) like_bytes_prefix [of std "AnySeq # AnySeq # map plain_token rest" "AnySeq # map plain_token rest" us s, OF seq_twice]
        by (simp add: plain_token_def)
    next
      case False
      then have "read_tokens ?start ?pushed [] = read_tokens has_start segs current @ [AnySeq]"
      proof (cases first)
        case True
        then have "current = []" "segs = []" "\<not> has_start" using 2(4) by simp_all
        then show ?thesis using True by (simp add: read_tokens_def)
      next
        case first: False
        then have "current \<noteq> []" using \<open>\<not> (current = [] \<and> \<not> first)\<close> by blast
        then show ?thesis using first by (simp add: read_tokens_def)
      qed
      then show ?thesis using ch(1) by (simp add: plain_token_def)
    qed
    then show ?thesis using IH by blast
  next
    case False
    then have "create_loop escape False rest (current @ [ch]) segs has_start has_end = Some m" using 2(3) by simp
    from 2(2) [OF False this] have IH: "\<forall>s. like_bytes std (read_tokens has_start segs (current @ [ch]) @ map plain_token rest) s \<longleftrightarrow>
        like_bytes std (matcher_tokens m) s" "segments m \<noteq> [] \<and> [] \<notin> set (segments m)"
      using 2(6) has_end by auto
    have "read_tokens has_start segs current @ map plain_token (ch # rest) =
        read_tokens has_start segs (current @ [ch]) @ map plain_token rest"
      using False by (simp add: read_tokens_def plain_token_def)
    then show ?thesis using IH by (simp only:) simp
  qed
qed

lemma like_lits_occurs:
  "like_bytes std (map Lit x @ ts) (drop n s) \<longleftrightarrow> (n \<le> length s \<longrightarrow> occurs_at x s n) \<and> (length s < n \<longrightarrow> x = []) \<and> like_bytes std ts (drop (n + length x) s)"
  by (auto simp: like_bytes_lits occurs_at_def add.commute)

lemma like_search_segment:
  assumes "x \<noteq> []"
  shows "like_bytes std (AnySeq # map Lit x @ ts) s \<longleftrightarrow> (\<exists>n. occurs_at x s n \<and> like_bytes std ts (drop (n + length x) s))"
proof
  assume "like_bytes std (AnySeq # map Lit x @ ts) s"
  then obtain n where n: "n \<le> length s" "like_bytes std (map Lit x @ ts) (drop n s)" by auto
  then show "\<exists>n. occurs_at x s n \<and> like_bytes std ts (drop (n + length x) s)"
    unfolding like_lits_occurs by blast
next
  assume "\<exists>n. occurs_at x s n \<and> like_bytes std ts (drop (n + length x) s)"
  then obtain n where n: "occurs_at x s n" "like_bytes std ts (drop (n + length x) s)" by blast
  then have "n \<le> length s" by (simp add: occurs_at_def)
  then have "like_bytes std (map Lit x @ ts) (drop n s)" using n unfolding like_lits_occurs by simp
  then show "like_bytes std (AnySeq # map Lit x @ ts) s" unfolding like_bytes.simps(4) using \<open>n \<le> length s\<close> by blast
qed

text \<open>The leftmost occurrence of a segment leaves the most to the rest of the pattern.\<close>

lemma like_greedy:
  assumes "x \<noteq> []"
  shows "like_bytes std (AnySeq # map Lit x @ AnySeq # ts) s \<longleftrightarrow>
     (case FindStrInStr s x of None \<Rightarrow> False | Some i \<Rightarrow> like_bytes std (AnySeq # ts) (drop (i + length x) s))"
proof (cases "FindStrInStr s x")
  case None
  then show ?thesis using FindStrInStr_first [OF assms, of s] like_search_segment [OF assms, of "AnySeq # ts" s]
    by (simp add: is_first_def)
next
  case (Some i)
  then have i: "occurs_at x s i" "\<forall>j<i. \<not> occurs_at x s j"
    using FindStrInStr_first [OF assms, of s] by (auto simp: is_first_def)
  have "like_bytes std (AnySeq # ts) (drop (i + length x) s)"
    if "occurs_at x s n" "like_bytes std (AnySeq # ts) (drop (n + length x) s)" for n
  proof -
    have "i \<le> n" using i(2) that(1) linorder_not_less by blast
    then have "drop (n + length x) s = drop (n - i) (drop (i + length x) s)" by simp
    then show ?thesis using that(2) seq_later by metis
  qed
  then show ?thesis unfolding Some like_search_segment [OF assms] using i(1) by auto
qed

lemma like_any_exact: "like_bytes std (AnySeq # map Lit x) s \<longleftrightarrow> length x \<le> length s \<and> drop (length s - length x) s = x"
proof
  assume "like_bytes std (AnySeq # map Lit x) s"
  then obtain n where n: "n \<le> length s" "like_bytes std (map Lit x @ []) (drop n s)" by auto
  then have "drop n s = x" unfolding like_bytes_lits by auto
  then show "length x \<le> length s \<and> drop (length s - length x) s = x" using n(1) by auto
next
  assume a: "length x \<le> length s \<and> drop (length s - length x) s = x"
  then have "like_bytes std (map Lit x @ []) (drop (length s - length x) s)" unfolding like_bytes_lits by simp
  then show "like_bytes std (AnySeq # map Lit x) s" unfolding like_bytes.simps(4) append_Nil2 using diff_le_self by blast
qed

lemma match_last_correct:
  assumes "x \<noteq> []"
  shows "like_bytes std (AnySeq # map Lit x @ (if has_end then [AnySeq] else [])) s \<longleftrightarrow> match_last has_end x s"
proof (cases has_end)
  case True
  have "like_bytes std (AnySeq # map Lit x @ [AnySeq]) s \<longleftrightarrow> (\<exists>n. occurs_at x s n)"
    unfolding like_search_segment [OF assms] using any_seq by blast
  also have "\<dots> \<longleftrightarrow> FindStrInStr s x \<noteq> None"
    using FindStrInStr_first [OF assms, of s] by (cases "FindStrInStr s x") (auto simp: is_first_def)
  finally show ?thesis using True by simp
next
  case False
  then show ?thesis using like_any_exact [of x s] by (auto simp: not_less)
qed

lemma match_segments_correct:
  assumes "xs \<noteq> []" "[] \<notin> set xs"
  shows "like_bytes std (AnySeq # segment_tokens has_end xs) s \<longleftrightarrow> match_segments has_end xs s"
  using assms
proof (induction has_end xs s rule: match_segments.induct)
  case (2 has_end x s)
  then show ?case using match_last_correct [of x has_end s] by simp
next
  case (3 has_end x y xs s)
  then have "x \<noteq> []" by auto
  show ?case
  proof (cases "FindStrInStr s x")
    case None
    then show ?thesis using like_greedy [OF \<open>x \<noteq> []\<close>, of "segment_tokens has_end (y # xs)" s] by simp
  next
    case (Some i)
    have "like_bytes std (AnySeq # segment_tokens has_end (y # xs)) (drop (i + length x) s) \<longleftrightarrow>
        match_segments has_end (y # xs) (drop (i + length x) s)"
      using 3(1) [OF Some] 3(3) by simp
    then show ?thesis using like_greedy [OF \<open>x \<noteq> []\<close>, of "segment_tokens has_end (y # xs)" s] Some by simp
  qed
qed simp

lemma matcher_correct:
  assumes "segments m \<noteq> []" "[] \<notin> set (segments m)"
  shows "like_bytes std (matcher_tokens m) s \<longleftrightarrow> LikeMatcher_Match m s"
proof (cases "has_start_percentage m")
  case True
  then show ?thesis using match_segments_correct [OF assms] by (simp add: matcher_tokens_def LikeMatcher_Match_def del: like_bytes.simps)
next
  case False
  obtain x xs where m: "segments m = x # xs" using assms(1) by (cases "segments m") auto
  have head: "like_bytes std (map Lit x @ ts) s \<longleftrightarrow> length x \<le> length s \<and> take (length x) s = x \<and> like_bytes std ts (drop (length x) s)" for ts
    by (simp add: like_bytes_lits)
  show ?thesis
  proof (cases xs)
    case Nil
    then show ?thesis using False m head any_seq
      by (auto simp: matcher_tokens_def LikeMatcher_Match_def Let_def simp del: like_bytes.simps(4))
  next
    case (Cons y ys)
    have "like_bytes std (AnySeq # segment_tokens (has_end_percentage m) xs) (drop (length x) s) \<longleftrightarrow>
        match_segments (has_end_percentage m) xs (drop (length x) s)"
      by (rule match_segments_correct) (use assms m Cons in auto)
    then show ?thesis using False m head Cons
      by (auto simp: matcher_tokens_def LikeMatcher_Match_def Let_def not_less simp del: like_bytes.simps match_segments.simps)
  qed
qed

lemma created_matcher:
  assumes "CreateLikeMatcher pattern escape = Some m"
  shows "LikeOperatorFunction s pattern = Inr (LikeMatcher_Match m s)"
proof -
  have "like_bytes std (read_tokens False [] [] @ map plain_token pattern) s \<longleftrightarrow> like_bytes std (matcher_tokens m) s"
    "segments m \<noteq> []" "[] \<notin> set (segments m)"
    using create_loop_tokens [of escape True pattern "[]" "[]" False False m] assms by (auto simp: CreateLikeMatcher_def)
  then show ?thesis using matcher_correct [of m s] like_correct(1) [OF _ tokens_without_escape, of s pattern]
    by (simp add: LikeOperatorFunction_def read_tokens_def)
qed

section \<open>LIKE that ignores case\<close>

lemma ascii_tokens: "like_tokens ASCIILCaseReader None p = Some (map plain_token (map CharacterToLower p))"
  by (induction p) (simp_all add: plain_token_def)

lemma lower_ascii: "(of_char c :: nat) < 128 \<Longrightarrow> IsCharacter (CharacterToLower c)"
  by (auto intro!: ascii_IsCharacter simp: CharacterToLower_def)

lemma next_ascii: "\<forall>c\<in>set s. IsCharacter c \<Longrightarrow> NextCharacter std s = tl s"
  by (cases s) (auto simp: dropWhile_eq_self_iff)

lemma like_bytes_lower:
  "\<forall>c\<in>set s. (of_char c :: nat) < 128 \<Longrightarrow> like_bytes ASCIILCaseReader ts s = like_bytes std ts (map CharacterToLower s)"
proof (induction ASCIILCaseReader ts s rule: like_bytes.induct)
  case (2 c ts s)
  then show ?case by (cases s) auto
next
  case (3 ts s)
  have "NextCharacter std (map CharacterToLower s) = tl (map CharacterToLower s)"
    by (rule next_ascii) (use 3(2) lower_ascii in auto)
  moreover have "NextCharacter ASCIILCaseReader s = tl s" by simp
  ultimately show ?case using 3 by (cases s) (simp_all del: NextCharacter.simps)
next
  case (4 ts s)
  then show ?case by (auto simp: drop_map dest: in_set_dropD)
qed simp

lemma ascii_lower:
  assumes "\<forall>c\<in>set str. (of_char c :: nat) < 128"
  shows "ILikeOperatorASCII str pattern = LikeOperatorFunction (map CharacterToLower str) (map CharacterToLower pattern)"
  using like_correct(1) [OF _ ascii_tokens, of str pattern] like_bytes_lower [OF assms]
    like_correct(1) [OF _ tokens_without_escape, of "map CharacterToLower str" "map CharacterToLower pattern"]
  by (simp add: ILikeOperatorASCII_def LikeOperatorFunction_def)

section \<open>GLOB\<close>

text \<open>Plain characters compare as signed bytes.\<close>

definition signed_char :: "char \<Rightarrow> int" where
  "signed_char c = (let b = of_char c :: int in if b < 128 then b else b - 256)"

text \<open>
  The characters of a bracket after the exclamation mark: whether a match was found and the pattern after
  the closing bracket, or none when it does not close.
\<close>

definition update_match :: "bool \<Rightarrow> bool \<Rightarrow> bool \<Rightarrow> bool" where
  "update_match invert found_match matches = (if found_match = invert \<and> matches then \<not> invert else found_match)"

fun bracket_loop :: "char \<Rightarrow> bool \<Rightarrow> bool \<Rightarrow> bool \<Rightarrow> string \<Rightarrow> (bool \<times> string) option" where
  "bracket_loop s invert at_start found_match [] = None"
| "bracket_loop s invert at_start found_match (p # pattern) =
     (if p = CHR '']'' \<and> \<not> at_start then Some (found_match, pattern)
      else case pattern of
        [] \<Rightarrow> None
      | q # rest \<Rightarrow>
          if q = CHR ''-'' then
            (case rest of
               [] \<Rightarrow> None
             | next_char # rest' \<Rightarrow>
                 bracket_loop s invert False
                   (update_match invert found_match (signed_char s \<ge> signed_char p \<and> signed_char s \<le> signed_char next_char)) rest')
          else bracket_loop s invert False (update_match invert found_match (p = s)) pattern)"

definition parse_bracket :: "char \<Rightarrow> string \<Rightarrow> (bool \<times> string) option" where
  "parse_bracket s pattern =
     (case pattern of
        [] \<Rightarrow> None
      | p # rest \<Rightarrow> if p = CHR ''!'' then bracket_loop s True True True rest else bracket_loop s False True False pattern)"

lemma bracket_loop_length: "bracket_loop s invert st f pattern = Some (m, rest) \<Longrightarrow> length rest < length pattern"
proof (induction s invert st f pattern rule: bracket_loop.induct)
  case (2 s invert st f p pattern)
  show ?case
  proof (cases "p = CHR '']'' \<and> \<not> st")
    case True
    then show ?thesis using 2(3) by auto
  next
    case False
    then obtain q r where q: "pattern = q # r" using 2(3) by (auto split: list.splits)
    show ?thesis
    proof (cases "q = CHR ''-''")
      case True
      then obtain n r' where r: "r = n # r'" using 2(3) q False by (auto split: list.splits)
      show ?thesis using 2(1) [OF False q True r] 2(3) False True q r by auto
    next
      case no_dash: False
      show ?thesis using 2(2) [OF False q no_dash] 2(3) False no_dash q by auto
    qed
  qed
qed simp

lemma parse_bracket_length:
  assumes "parse_bracket s pattern = Some (m, rest)"
  shows "length rest < length pattern"
proof (cases pattern)
  case (Cons p ps)
  show ?thesis
  proof (cases "p = CHR ''!''")
    case True
    then show ?thesis using assms Cons bracket_loop_length [of s True True True ps m rest] by (simp add: parse_bracket_def)
  next
    case False
    then show ?thesis using assms Cons bracket_loop_length [of s False True False pattern m rest]
      by (simp add: parse_bracket_def del: bracket_loop.simps)
  qed
qed (use assms in \<open>simp add: parse_bracket_def\<close>)

function Glob :: "string \<Rightarrow> string \<Rightarrow> bool \<Rightarrow> bool"
  and glob_search :: "string \<Rightarrow> string \<Rightarrow> bool" where
  "Glob [] pattern allow = (dropWhile (\<lambda>c. c = CHR ''*'') pattern = [])"
| "Glob (s # str) [] allow = False"
| "Glob (s # str) (p # pattern) allow =
     (if p = CHR ''*'' then
        let rest = dropWhile (\<lambda>c. c = CHR ''*'') pattern
        in if rest = [] then True else glob_search (s # str) rest
      else if p = CHR ''?'' \<and> allow then Glob str pattern allow
      else if p = CHR ''?'' \<or> p = CHR ''['' then
        (case parse_bracket s pattern of
           None \<Rightarrow> False
         | Some (found_match, rest) \<Rightarrow> if \<not> found_match then False else Glob str rest allow)
      else if p = CHR 0x5C then
        (case pattern of [] \<Rightarrow> False | q # rest \<Rightarrow> if s \<noteq> q then False else Glob str rest allow)
      else if s \<noteq> p then False
      else Glob str pattern allow)"
| "glob_search [] pattern = False"
| "glob_search (s # str) pattern = (if Glob (s # str) pattern True then True else glob_search str pattern)"
  by pat_completeness auto
termination
  by (relation "measures [\<lambda>x. case x of Inl (_, p, _) \<Rightarrow> length p | Inr (_, p) \<Rightarrow> length p,
        \<lambda>x. case x of Inl (s, _, _) \<Rightarrow> 2 * length s | Inr (s, _) \<Rightarrow> 2 * length s + 1]")
    (auto simp: le_imp_less_Suc length_dropWhile_le dest!: parse_bracket_length)

definition GlobOperator :: "string \<Rightarrow> string \<Rightarrow> bool" where
  "GlobOperator str pattern = Glob str pattern True"

text \<open>The grammar of patterns: a bracket is a list of ranges, a single character the range of itself.\<close>

datatype glob_token = OneOf bool "(char \<times> char) list" | This char | Any | Many

fun glob_set :: "bool \<Rightarrow> string \<Rightarrow> ((char \<times> char) list \<times> string) option" where
  "glob_set at_start [] = None"
| "glob_set at_start (p # pattern) =
     (if p = CHR '']'' \<and> \<not> at_start then Some ([], pattern)
      else case pattern of
        [] \<Rightarrow> None
      | q # rest \<Rightarrow>
          if q = CHR ''-'' then
            (case rest of [] \<Rightarrow> None | n # rest' \<Rightarrow> map_option (apfst ((#) (p, n))) (glob_set False rest'))
          else map_option (apfst ((#) (p, p))) (glob_set False pattern))"

definition glob_bracket :: "string \<Rightarrow> (glob_token \<times> string) option" where
  "glob_bracket pattern =
     (case pattern of
        [] \<Rightarrow> None
      | p # rest \<Rightarrow>
          if p = CHR ''!'' then map_option (apfst (OneOf True)) (glob_set True rest)
          else map_option (apfst (OneOf False)) (glob_set True pattern))"

definition in_range :: "char \<Rightarrow> char \<times> char \<Rightarrow> bool" where
  "in_range s r \<longleftrightarrow> signed_char (fst r) \<le> signed_char s \<and> signed_char s \<le> signed_char (snd r)"

lemma signed_char_inject: "signed_char a = signed_char b \<longleftrightarrow> a = b"
proof
  assume eq: "signed_char a = signed_char b"
  have "0 \<le> (of_char c :: int) \<and> (of_char c :: int) < 256" for c :: char
    using nat_of_char_less_256 [of c] of_nat_of_char [of c, where 'a = int] by linarith
  from this [of a] this [of b] eq have "(of_char a :: int) = of_char b" by (auto simp: signed_char_def Let_def split: if_splits)
  then show "a = b" by (simp only: of_char_eq_iff)
qed simp

lemma in_range_single: "in_range s (p, p) \<longleftrightarrow> p = s"
  using signed_char_inject [of p s] by (auto simp: in_range_def)

lemma bracket_loop_set:
  "bracket_loop s invert st f pattern =
     map_option (apfst (\<lambda>rs. update_match invert f (\<exists>r\<in>set rs. in_range s r))) (glob_set st pattern)"
proof (induction s invert st f pattern rule: bracket_loop.induct)
  case (2 s invert st f p pattern)
  have two: "update_match invert (update_match invert f a) b = update_match invert f (a \<or> b)" for a b
    by (auto simp: update_match_def)
  show ?case
  proof (cases "p = CHR '']'' \<and> \<not> st")
    case True
    then show ?thesis by (simp add: update_match_def)
  next
    case close: False
    show ?thesis
    proof (cases pattern)
      case Nil
      then show ?thesis using close by auto
    next
      case q: (Cons q r)
      show ?thesis
      proof (cases "q = CHR ''-''")
        case dash: True
        show ?thesis
        proof (cases r)
          case Nil
          then show ?thesis using close q dash by auto
        next
          case r: (Cons n r')
          have "bracket_loop s invert st f (p # pattern) =
              bracket_loop s invert False (update_match invert f (in_range s (p, n))) r'"
            using close q dash r by (auto simp: in_range_def)
          also have "\<dots> = map_option (apfst (\<lambda>rs. update_match invert f (in_range s (p, n) \<or> (\<exists>r\<in>set rs. in_range s r)))) (glob_set False r')"
            using 2(1) [OF close q dash r] by (simp add: in_range_def two)
          also have "\<dots> = map_option (apfst (\<lambda>rs. update_match invert f (\<exists>r\<in>set rs. in_range s r))) (glob_set st (p # pattern))"
            using close q dash r by (auto simp: option.map_comp comp_def apfst_def map_prod_def split_def)
          finally show ?thesis .
        qed
      next
        case no_dash: False
        have "bracket_loop s invert st f (p # pattern) = bracket_loop s invert False (update_match invert f (in_range s (p, p))) pattern"
          using close q no_dash by (auto simp: in_range_single)
        also have "\<dots> = map_option (apfst (\<lambda>rs. update_match invert f (in_range s (p, p) \<or> (\<exists>r\<in>set rs. in_range s r)))) (glob_set False pattern)"
          using 2(2) [OF close q no_dash] by (simp add: in_range_single two)
        also have "\<dots> = map_option (apfst (\<lambda>rs. update_match invert f (\<exists>r\<in>set rs. in_range s r))) (glob_set st (p # pattern))"
          using close q no_dash by (auto simp: option.map_comp comp_def apfst_def map_prod_def split_def)
        finally show ?thesis .
      qed
    qed
  qed
qed simp

fun glob_one :: "glob_token \<Rightarrow> char \<Rightarrow> bool" where
  "glob_one (OneOf invert rs) c \<longleftrightarrow> (\<exists>r\<in>set rs. in_range c r) \<noteq> invert"
| "glob_one (This d) c \<longleftrightarrow> c = d"
| "glob_one Any c \<longleftrightarrow> True"
| "glob_one Many c \<longleftrightarrow> False"

fun glob_match :: "glob_token list \<Rightarrow> string \<Rightarrow> bool" where
  "glob_match [] s \<longleftrightarrow> s = []"
| "glob_match (t # ts) s \<longleftrightarrow>
     (if t = Many then \<exists>n\<le>length s. glob_match ts (drop n s) else s \<noteq> [] \<and> glob_one t (hd s) \<and> glob_match ts (tl s))"

lemma update_match_start: "update_match invert invert b \<longleftrightarrow> b \<noteq> invert"
  by (auto simp: update_match_def)

lemma parse_bracket_set:
  "parse_bracket s pattern = map_option (apfst (\<lambda>t. glob_one t s)) (glob_bracket pattern)"
proof (cases pattern)
  case (Cons p ps)
  show ?thesis
  proof (cases "p = CHR ''!''")
    case True
    then show ?thesis using Cons bracket_loop_set [of s True True True ps]
      by (simp add: parse_bracket_def glob_bracket_def update_match_start option.map_comp comp_def apfst_def map_prod_def split_def)
  next
    case False
    then show ?thesis using Cons bracket_loop_set [of s False True False pattern]
      by (simp add: parse_bracket_def glob_bracket_def update_match_start option.map_comp comp_def apfst_def map_prod_def split_def
          del: bracket_loop.simps glob_set.simps)
  qed
qed (simp add: parse_bracket_def glob_bracket_def)

lemma glob_bracket_length: "glob_bracket pattern = Some (t, rest) \<Longrightarrow> length rest < length pattern"
  using parse_bracket_length [of "CHR ''a''" pattern "glob_one t (CHR ''a'')" rest] by (simp add: parse_bracket_set)

lemma glob_bracket_not_many: "glob_bracket pattern = Some (t, rest) \<Longrightarrow> t \<noteq> Many"
  by (auto simp: glob_bracket_def simp del: glob_set.simps split: list.splits if_splits)

text \<open>
  Without its flag a question mark opens a bracket; what follows an asterisk is read with the flag set.
\<close>

function glob_tokens :: "bool \<Rightarrow> string \<Rightarrow> glob_token list option" where
  "glob_tokens allow [] = Some []"
| "glob_tokens allow (p # pattern) =
     (if p = CHR ''*'' then map_option ((#) Many) (glob_tokens True pattern)
      else if p = CHR ''?'' \<and> allow then map_option ((#) Any) (glob_tokens allow pattern)
      else if p = CHR ''?'' \<or> p = CHR ''['' then
        (case glob_bracket pattern of None \<Rightarrow> None | Some (t, rest) \<Rightarrow> map_option ((#) t) (glob_tokens allow rest))
      else if p = CHR 0x5C then
        (case pattern of [] \<Rightarrow> None | q # rest \<Rightarrow> map_option ((#) (This q)) (glob_tokens allow rest))
      else map_option ((#) (This p)) (glob_tokens allow pattern))"
  by pat_completeness auto
termination
  by (relation "measure (\<lambda>(allow, p). length p)") (auto dest: glob_bracket_length)

lemma many_later: "glob_match (Many # ts) (drop n s) \<Longrightarrow> glob_match (Many # ts) s"
proof -
  assume "glob_match (Many # ts) (drop n s)"
  then obtain m where "glob_match ts (drop m (drop n s))" by auto
  then have *: "glob_match ts (drop (m + n) s)" by simp
  show ?thesis
  proof (cases "m + n \<le> length s")
    case False
    then have "glob_match ts (drop (length s) s)" using * by simp
    then have "\<exists>k\<le>length s. glob_match ts (drop k s)" by blast
    then show ?thesis by simp
  qed (use * in auto)
qed

lemma many_twice: "glob_match (Many # Many # ts) s = glob_match (Many # ts) s"
proof
  assume "glob_match (Many # Many # ts) s"
  then obtain n where "glob_match (Many # ts) (drop n s)" by auto
  then show "glob_match (Many # ts) s" by (rule many_later)
next
  assume "glob_match (Many # ts) s"
  then have "glob_match (Many # ts) (drop 0 s)" by simp
  then have "\<exists>n\<le>length s. glob_match (Many # ts) (drop n s)" by blast
  then show "glob_match (Many # Many # ts) s" by simp
qed

text \<open>The asterisks that follow an asterisk add nothing.\<close>

lemma glob_tokens_stars:
  "(case glob_tokens True pattern of None \<Rightarrow> False | Some ts \<Rightarrow> glob_match (Many # ts) s) \<longleftrightarrow>
   (case glob_tokens True (dropWhile (\<lambda>c. c = CHR ''*'') pattern) of None \<Rightarrow> False | Some ts \<Rightarrow> glob_match (Many # ts) s)"
proof (induction pattern)
  case (Cons p pattern)
  show ?case
  proof (cases "p = CHR ''*''")
    case True
    then show ?thesis using Cons many_twice by (cases "glob_tokens True pattern") (simp_all del: glob_match.simps)
  qed simp
qed simp

lemma glob_tokens_first:
  assumes "glob_tokens allow (p # pattern) = Some ts" "p \<noteq> CHR ''*''"
  shows "\<exists>u us. ts = u # us \<and> u \<noteq> Many"
proof (cases "p = CHR ''?'' \<and> allow")
  case any: False
  show ?thesis
  proof (cases "p = CHR ''?'' \<or> p = CHR ''[''")
    case True
    then have "(case glob_bracket pattern of None \<Rightarrow> None | Some (t, rest) \<Rightarrow> map_option ((#) t) (glob_tokens allow rest)) = Some ts"
      using assms any by (simp only: glob_tokens.simps if_False if_True)
    then show ?thesis by (auto split: option.splits dest: glob_bracket_not_many)
  next
    case plain: False
    show ?thesis
    proof (cases "p = CHR 0x5C")
      case True
      then obtain q rest where q: "pattern = q # rest" using assms by (cases pattern) simp_all
      then have "map_option ((#) (This q)) (glob_tokens allow rest) = Some ts" using assms(1) True by simp
      then show ?thesis by auto
    next
      case False
      then have "map_option ((#) (This p)) (glob_tokens allow pattern) = Some ts" using assms any plain by simp
      then show ?thesis by auto
    qed
  qed
next
  case True
  then have "map_option ((#) Any) (glob_tokens allow pattern) = Some ts" using assms by simp
  then show ?thesis by auto
qed

lemma glob_empty:
  "(case glob_tokens allow pattern of None \<Rightarrow> False | Some ts \<Rightarrow> glob_match ts []) \<longleftrightarrow> dropWhile (\<lambda>c. c = CHR ''*'') pattern = []"
proof (induction pattern arbitrary: allow)
  case (Cons p pattern)
  show ?case
  proof (cases "p = CHR ''*''")
    case True
    then show ?thesis using Cons [of True] by (cases "glob_tokens True pattern") simp_all
  next
    case False
    show ?thesis
    proof (cases "glob_tokens allow (p # pattern)")
      case None
      then show ?thesis using False by simp
    next
      case (Some ts)
      then obtain u us where "ts = u # us" "u \<noteq> Many" using glob_tokens_first [OF Some False] by blast
      then show ?thesis using Some False by simp
    qed
  qed
qed simp

definition glob_spec :: "bool \<Rightarrow> string \<Rightarrow> string \<Rightarrow> bool" where
  "glob_spec allow pattern s = (case glob_tokens allow pattern of None \<Rightarrow> False | Some ts \<Rightarrow> glob_match ts s)"

lemma glob_spec_star:
  "glob_spec allow (CHR ''*'' # pattern) s \<longleftrightarrow>
     (\<exists>n\<le>length s. glob_spec True (dropWhile (\<lambda>c. c = CHR ''*'') pattern) (drop n s))"
proof -
  have "glob_spec allow (CHR ''*'' # pattern) s \<longleftrightarrow>
      (case glob_tokens True pattern of None \<Rightarrow> False | Some ts \<Rightarrow> glob_match (Many # ts) s)"
    by (cases "glob_tokens True pattern") (simp_all add: glob_spec_def del: glob_match.simps)
  also have "\<dots> \<longleftrightarrow> (case glob_tokens True (dropWhile (\<lambda>c. c = CHR ''*'') pattern) of None \<Rightarrow> False | Some ts \<Rightarrow> glob_match (Many # ts) s)"
    by (rule glob_tokens_stars)
  also have "\<dots> \<longleftrightarrow> (\<exists>n\<le>length s. glob_spec True (dropWhile (\<lambda>c. c = CHR ''*'') pattern) (drop n s))"
    by (cases "glob_tokens True (dropWhile (\<lambda>c. c = CHR ''*'') pattern)") (simp_all add: glob_spec_def)
  finally show ?thesis .
qed

lemma glob_spec_plain:
  assumes "p \<noteq> CHR ''*''" "p \<noteq> CHR ''?''" "p \<noteq> CHR ''[''" "p \<noteq> CHR 0x5C"
  shows "glob_spec allow (p # pattern) (s # str) \<longleftrightarrow> s = p \<and> glob_spec allow pattern str"
  using assms by (cases "glob_tokens allow pattern") (simp_all add: glob_spec_def)

lemma glob_spec_bracket:
  assumes "p = CHR ''?'' \<and> \<not> allow \<or> p = CHR ''[''"
  shows "glob_spec allow (p # pattern) (s # str) \<longleftrightarrow>
     (case parse_bracket s pattern of None \<Rightarrow> False | Some (m, rest) \<Rightarrow> m \<and> glob_spec allow rest str)"
proof -
  have "glob_tokens allow (p # pattern) =
      (case glob_bracket pattern of None \<Rightarrow> None | Some (t, rest) \<Rightarrow> map_option ((#) t) (glob_tokens allow rest))"
    using assms by auto
  then show ?thesis
    by (auto simp: glob_spec_def parse_bracket_set split: option.splits dest: glob_bracket_not_many)
qed

lemma Glob_spec:
  "Glob s pattern allow = glob_spec allow pattern s"
  "glob_search s pattern = (\<exists>n<length s. glob_spec True pattern (drop n s))"
proof (induction s pattern allow and s pattern rule: Glob_glob_search.induct)
  case (1 pattern allow)
  then show ?case using glob_empty [of allow pattern] by (simp add: glob_spec_def del: dropWhile_eq_Nil_conv)
next
  case (2 s str allow)
  then show ?case by (simp add: glob_spec_def)
next
  case (3 s str p pattern allow)
  consider (star) "p = CHR ''*''" | (any) "p = CHR ''?''" "allow" | (bracket) "p = CHR ''?'' \<and> \<not> allow \<or> p = CHR ''[''"
    | (esc) "p = CHR 0x5C" | (plain) "p \<noteq> CHR ''*''" "p \<noteq> CHR ''?''" "p \<noteq> CHR ''[''" "p \<noteq> CHR 0x5C" by blast
  then show ?case
  proof cases
    case star
    let ?rest = "dropWhile (\<lambda>c. c = CHR ''*'') pattern"
    show ?thesis
    proof (cases "?rest = []")
      case True
      then have "glob_spec True ?rest (drop (length (s # str)) (s # str))" unfolding True by (simp add: glob_spec_def)
      then have "glob_spec allow (p # pattern) (s # str)" unfolding star glob_spec_star by blast
      moreover have "Glob (s # str) (p # pattern) allow" using star True by (simp add: Let_def)
      ultimately show ?thesis by simp
    next
      case False
      have "dropWhile (\<lambda>c. c = CHR ''*'') ?rest \<noteq> []" using False by (metis dropWhile_idem)
      then have none: "\<not> glob_spec True ?rest []" using glob_empty [of True ?rest] by (simp add: glob_spec_def)
      have "glob_spec allow (p # pattern) (s # str) \<longleftrightarrow> (\<exists>n<length (s # str). glob_spec True ?rest (drop n (s # str)))"
        unfolding star glob_spec_star
      proof
        assume "\<exists>n\<le>length (s # str). glob_spec True ?rest (drop n (s # str))"
        then obtain n where n: "n \<le> length (s # str)" "glob_spec True ?rest (drop n (s # str))" by blast
        then have "n \<noteq> length (s # str)" using none by auto
        then show "\<exists>n<length (s # str). glob_spec True ?rest (drop n (s # str))" using n le_neq_implies_less by blast
      qed (use less_imp_le in blast)
      moreover have "glob_search (s # str) ?rest = (\<exists>n<length (s # str). glob_spec True ?rest (drop n (s # str)))"
        by (rule 3(1) [OF star refl False])
      moreover have "Glob (s # str) (p # pattern) allow = glob_search (s # str) ?rest"
        using star False by (simp add: Let_def del: glob_search.simps dropWhile_eq_Nil_conv)
      ultimately show ?thesis by blast
    qed
  next
    case any
    then have "Glob str pattern allow = glob_spec allow pattern str" using 3(2) by simp
    then show ?thesis using any by (cases "glob_tokens allow pattern") (simp_all add: glob_spec_def)
  next
    case bracket
    then have p: "p \<noteq> CHR ''*''" "\<not> (p = CHR ''?'' \<and> allow)" "p = CHR ''?'' \<or> p = CHR ''[''" by auto
    have "Glob str rest allow = glob_spec allow rest str" if "parse_bracket s pattern = Some (True, rest)" for rest
      using 3(3) [OF p that] by simp
    then show ?thesis unfolding glob_spec_bracket [OF bracket] using p by (auto split: option.splits)
  next
    case esc
    show ?thesis
    proof (cases pattern)
      case (Cons q rest)
      have "Glob str rest allow = glob_spec allow rest str" if "s = q" using 3(4) esc Cons that by simp
      then show ?thesis using esc Cons by (cases "glob_tokens allow rest") (auto simp: glob_spec_def)
    qed (use esc in \<open>simp add: glob_spec_def\<close>)
  next
    case plain
    have "Glob str pattern allow = glob_spec allow pattern str" if "s = p" using 3(5) plain that by simp
    then show ?thesis unfolding glob_spec_plain [OF plain] using plain by auto
  qed
next
  case (4 pattern)
  then show ?case by simp
next
  case (5 s str pattern)
  then show ?case using search_split [of s str "glob_spec True pattern"] by (cases "glob_spec True pattern (s # str)") simp_all
qed

section \<open>Properties\<close>

lemma is_first_least: "is_first P 0 r \<Longrightarrow> r = (if \<exists>i. P i then Some (LEAST i. P i) else None)"
proof (cases r)
  case (Some i)
  assume "is_first P 0 r"
  then have "P i" "\<And>j. j < i \<Longrightarrow> \<not> P j" using Some by (auto simp: is_first_def)
  then have "(LEAST j. P j) = i" by (intro Least_equality) (use linorder_not_less in blast)+
  then show ?thesis using Some \<open>P i\<close> by auto
qed (auto simp: is_first_def)

text \<open>
  C36. FindStrInStr returns the leftmost position at which the needle occurs, and the invalid index exactly
  when it occurs nowhere, for each of its comparison routines (by the length of the needle).
\<close>

theorem find_leftmost:
  assumes "needle \<noteq> []"
  shows "FindStrInStr haystack needle =
    (if \<exists>i. occurs_at needle haystack i then Some (LEAST i. occurs_at needle haystack i) else None)"
  by (rule is_first_least [OF FindStrInStr_first [OF assms]])

theorem find_leftmost_witness:
  "FindStrInStr ''a duck and a duckling'' ''duckling'' = Some 13 \<and>
   (\<exists>i. occurs_at ''duckling'' ''a duck and a duckling'' i) \<and> (LEAST i. occurs_at ''duckling'' ''a duck and a duckling'' i) = 13"
proof -
  have "FindStrInStr ''a duck and a duckling'' ''duckling'' = Some 13" by code_simp
  then show ?thesis using find_leftmost [of "''duckling''" "''a duck and a duckling''"] by (auto split: if_splits)
qed

text \<open>
  C14. LIKE matches characters and not bytes: on texts that are sequences of UTF-8 characters the operator
  decides whether the characters of the text match the pattern, where an underscore is any one character, a
  percent sign any number of characters, an escaped character itself and every other character itself. The
  escape character may be any ASCII character but the percent sign, for which the claim is false: the code
  tests for the percent sign before the escape. The byte-wise search after a percent sign, which also starts inside of characters, finds nothing else.
\<close>

theorem like_matches_characters:
  assumes "\<forall>x\<in>set scs. utf8_char x" "\<forall>x\<in>set pcs. utf8_char x"
    "\<And>e. escape = Some e \<Longrightarrow> (of_char e :: nat) < 128 \<and> e \<noteq> CHR ''%''"
    "char_tokens escape pcs = Some ts"
  shows "TemplatedLikeOperator StandardCharacterReader escape (concat scs) (concat pcs) = Inr (like_chars ts scs)"
  by (rule templated_like_characters [OF assms])

theorem like_matches_characters_witness:
  "TemplatedLikeOperator StandardCharacterReader (Some (CHR ''$''))
     (concat [''1'', [CHR 0xC3, CHR 0xA9], ''0'', ''%'']) (concat [''%'', ''_'', ''0'', ''$'', ''%'']) = Inr True"
proof -
  have t: "char_tokens (Some (CHR ''$'')) [''%'', ''_'', ''0'', ''$'', ''%''] = Some [AnyText, OneCharacter, Exactly ''0'', Exactly ''%'']"
    by code_simp
  have "like_chars [AnyText, OneCharacter, Exactly ''0'', Exactly ''%''] [''1'', [CHR 0xC3, CHR 0xA9], ''0'', ''%'']"
    by (simp, intro exI [of _ 1]) simp
  moreover have "\<forall>x\<in>set [''1'', [CHR 0xC3, CHR 0xA9], ''0'', ''%'']. utf8_char x"
    by (simp add: utf8_char_def utf8_length_def IsCharacter_def)
  moreover have "\<forall>x\<in>set [''%'', ''_'', ''0'', ''$'', ''%'']. utf8_char x"
    by (simp add: utf8_char_def utf8_length_def IsCharacter_def)
  moreover have "\<And>e. Some (CHR ''$'') = Some e \<Longrightarrow> (of_char e :: nat) < 128 \<and> e \<noteq> CHR ''%''" by auto
  ultimately show ?thesis using like_matches_characters [OF _ _ _ t] by metis
qed

text \<open>
  C6. Preparing a constant pattern does not change the answers of LIKE and NOT LIKE: whether or not the pattern
  is a constant, has a matcher or is collated, each row is answered as the operator answers it. The matcher never
  goes back in the text, so it is enough to take the leftmost occurrence of each segment.
\<close>

theorem like_matcher_correct:
  assumes "constant_pattern = None \<or> constant_pattern = Some pattern"
  shows "RegularLikeFunction invert (LikeBindFunction collated constant_pattern) s pattern =
    map_sum id (\<lambda>b. b \<noteq> invert) (LikeOperatorFunction s pattern)"
proof (cases "LikeBindFunction collated constant_pattern")
  case None
  have "map_sum id (\<lambda>b. b \<noteq> invert) r = (if invert then map_sum id Not r else r)" for r :: "bool result"
    by (cases r) simp_all
  then show ?thesis using None by (simp add: RegularLikeFunction_def NotLikeOperator_def LikeOperator_def)
next
  case (Some m)
  then have "CreateLikeMatcher pattern (CHR 0x00) = Some m"
    using assms by (auto simp: LikeBindFunction_def split: if_splits option.splits)
  then show ?thesis using Some created_matcher [of pattern "CHR 0x00" m s] by (simp add: RegularLikeFunction_def)
qed

theorem like_matcher_correct_witness:
  "LikeOperatorFunction ''a duck and a duckling'' ''%duck%a%ling'' = Inr True \<and>
   LikeBindFunction False (Some ''%duck%a%ling'') =
     Some \<lparr>segments = [''duck'', ''a'', ''ling''], has_start_percentage = True, has_end_percentage = False\<rparr>"
proof -
  have m: "LikeBindFunction False (Some ''%duck%a%ling'') =
      Some \<lparr>segments = [''duck'', ''a'', ''ling''], has_start_percentage = True, has_end_percentage = False\<rparr>"
    by code_simp
  have r: "RegularLikeFunction False (LikeBindFunction False (Some ''%duck%a%ling'')) ''a duck and a duckling'' ''%duck%a%ling'' = Inr True"
    by code_simp
  show ?thesis
    using m r like_matcher_correct [of "Some ''%duck%a%ling''" "''%duck%a%ling''" False False "''a duck and a duckling''"]
    by (cases "LikeOperatorFunction ''a duck and a duckling'' ''%duck%a%ling''") auto
qed

text \<open>
  ILIKE on texts of ASCII characters, which takes a path of its own that lowers each byte as it is
  compared, is LIKE on the text and the pattern in lower case.
\<close>

theorem ilike_ascii_lower:
  assumes "\<forall>c\<in>set str. (of_char c :: nat) < 128"
  shows "ILikeOperatorASCII str pattern = LikeOperatorFunction (map CharacterToLower str) (map CharacterToLower pattern)"
  by (rule ascii_lower [OF assms])

theorem ilike_ascii_lower_witness:
  "ILikeOperatorASCII ''DuckDB'' ''d_CK%'' = LikeOperatorFunction ''duckdb'' ''d_ck%''"
proof -
  have "map CharacterToLower ''DuckDB'' = ''duckdb''" "map CharacterToLower ''d_CK%'' = ''d_ck%''" by code_simp+
  then show ?thesis using ilike_ascii_lower [of "''DuckDB''" "''d_CK%''"] by simp
qed

text \<open>
  C35. GLOB accepts the texts that match the grammar of its pattern: the pattern is read into literal
  characters, single characters, asterisks and brackets (of ranges, inverted by an exclamation mark, with a
  closing bracket literal in first place), and a pattern that has no reading (an open bracket, a backslash at
  its end) accepts nothing.
\<close>

theorem glob_matches_grammar:
  "Glob str pattern allow = (case glob_tokens allow pattern of None \<Rightarrow> False | Some ts \<Rightarrow> glob_match ts str)"
  by (simp only: Glob_spec glob_spec_def)

lemma ascii_escape_is_not_folded:
  "ILikeEscapeOperator (map CharacterToLower) ''a%'' ''aX%'' ''X'' = Inr False"
  "LikeEscapeOperator ''a%'' ''aX%'' ''X'' = Inr True"
  by code_simp+

lemma percent_as_escape: "LikeEscapeOperator ''a'' ''a%%'' ''%'' = Inr True"
  by code_simp

lemma question_mark_opens_bracket: "Glob ''b'' ''?ab]'' False" "\<not> Glob ''?'' ''?'' False"
  by code_simp+

end
