(* ===== verification/Radix_Key.thy ===== *)
theory Radix_Key
  imports Hugeint Temporal
begin

text \<open>
  Keys that sort as bytes: \<open>common/radix.hpp\<close> (every type of a fixed size is written with its most
  significant byte first, a sign or a mark of a negative number in front) with the swaps of
  \<open>common/bswap.hpp\<close> under it, and \<open>execution/index/art/art_key.cpp\<close> (the keys of the adaptive
  radix tree: those encodings, texts with their low bytes escaped and a terminating zero, compound keys by
  concatenation).

  A floating point number is its bit pattern, and its value is compared by sign and magnitude with what is
  no number above everything (\<open>ieee_rank\<close>). The reference for a key is a comparison of the values
  (\<open>fixed_compare\<close>, \<open>key_compare\<close>); that two byte strings decide a comparison (\<open>decides\<close>) is stable under
  what follows them, which is what makes concatenated keys compare column by column.
\<close>

unbundle bit_operations_syntax

section \<open>Byte order\<close>

definition BSWAP16 :: "uint16_t \<Rightarrow> uint16_t" where
  "BSWAP16 x = drop_bit 8 (x AND 0xff00) OR push_bit 8 (x AND 0x00ff)"

definition BSWAP32 :: "uint32_t \<Rightarrow> uint32_t" where
  "BSWAP32 x = drop_bit 24 (x AND 0xff000000) OR drop_bit 8 (x AND 0x00ff0000) OR
     push_bit 8 (x AND 0x0000ff00) OR push_bit 24 (x AND 0x000000ff)"

definition BSWAP64 :: "uint64_t \<Rightarrow> uint64_t" where
  "BSWAP64 x = drop_bit 56 (x AND 0xff00000000000000) OR drop_bit 40 (x AND 0x00ff000000000000) OR
     drop_bit 24 (x AND 0x0000ff0000000000) OR drop_bit 8 (x AND 0x000000ff00000000) OR
     push_bit 8 (x AND 0x00000000ff000000) OR push_bit 24 (x AND 0x0000000000ff0000) OR
     push_bit 40 (x AND 0x000000000000ff00) OR push_bit 56 (x AND 0x00000000000000ff)"

lemma write_le_bytes: "write_le n v = map (\<lambda>i. word_of_nat (v div 256 ^ i)) [0..<n]"
proof (rule nth_equalityI)
  fix i assume "i < length (write_le n v)"
  then have "i < n" by simp
  moreover have "i < n \<Longrightarrow> write_le n v ! i = word_of_nat (v div 256 ^ i)"
  proof (induction n arbitrary: v i)
    case (Suc n)
    have "word_of_nat (v mod 256) = (word_of_nat v :: uint8_t)"
      by (simp add: word_of_nat_eq_iff take_bit_eq_mod)
    then show ?case using Suc by (cases i) (simp_all add: div_mult2_eq)
  qed simp
  ultimately show "write_le n v ! i = map (\<lambda>i. word_of_nat (v div 256 ^ i)) [0..<n] ! i" by simp
qed simp

lemma word_byte: "word_of_nat (unat x div 256 ^ i) = (ucast (drop_bit (8 * i) x) :: uint8_t)"
proof -
  have "unat x div 256 ^ i = unat (drop_bit (8 * i) x)"
    by (simp add: unat_drop_bit_eq) (simp add: drop_bit_eq_div power_mult)
  then show ?thesis by (simp only: of_nat_unat)
qed

lemma store_bytes: "write_le n (unat x) = map (\<lambda>i. ucast (drop_bit (8 * i) x)) [0..<n]"
  by (simp add: write_le_bytes word_byte)

lemma swap_masks:
  "(0xff00 :: 16 word) = push_bit 8 (mask 8)" "(0x00ff :: 16 word) = mask 8"
  "(0xff000000 :: 32 word) = push_bit 24 (mask 8)" "(0x00ff0000 :: 32 word) = push_bit 16 (mask 8)"
  "(0x0000ff00 :: 32 word) = push_bit 8 (mask 8)" "(0x000000ff :: 32 word) = mask 8"
  "(0xff00000000000000 :: 64 word) = push_bit 56 (mask 8)" "(0x00ff000000000000 :: 64 word) = push_bit 48 (mask 8)"
  "(0x0000ff0000000000 :: 64 word) = push_bit 40 (mask 8)" "(0x000000ff00000000 :: 64 word) = push_bit 32 (mask 8)"
  "(0x00000000ff000000 :: 64 word) = push_bit 24 (mask 8)" "(0x0000000000ff0000 :: 64 word) = push_bit 16 (mask 8)"
  "(0x000000000000ff00 :: 64 word) = push_bit 8 (mask 8)" "(0x00000000000000ff :: 64 word) = mask 8"
  by (simp_all add: mask_eq_exp_minus_1 push_bit_eq_mult)

lemma upt_bytes: "[0..<2] = [0, 1 :: nat]" "[0..<4] = [0, 1, 2, 3 :: nat]" "[0..<8] = [0, 1, 2, 3, 4, 5, 6, 7 :: nat]"
  by (simp_all add: upt_rec)

lemma swapped_16: "write_le 2 (unat (BSWAP16 x)) = rev (write_le 2 (unat x))"
  unfolding store_bytes BSWAP16_def swap_masks upt_bytes by (auto intro!: bit_word_eqI simp: bit_simps)

lemma swapped_32: "write_le 4 (unat (BSWAP32 x)) = rev (write_le 4 (unat x))"
  unfolding store_bytes BSWAP32_def swap_masks upt_bytes by (auto intro!: bit_word_eqI simp: bit_simps)

lemma swapped_64: "write_le 8 (unat (BSWAP64 x)) = rev (write_le 8 (unat x))"
  unfolding store_bytes BSWAP64_def swap_masks upt_bytes by (auto intro!: bit_word_eqI simp: bit_simps)

section \<open>The order of byte strings\<close>

text \<open>
  A comparison of two values is an integer: negative, zero or positive. Two byte strings decide it when it is
  zero and they are equal, or when at the first position where they differ the bytes are in that order. Neither
  string is then a prefix of the other, so that what follows them does not matter.
\<close>

definition decides :: "int \<Rightarrow> uint8_t list \<Rightarrow> uint8_t list \<Rightarrow> bool" where
  "decides c xs ys \<longleftrightarrow>
     (if c = 0 then xs = ys
      else \<exists>p a b xs' ys'. xs = p @ a # xs' \<and> ys = p @ b # ys' \<and> (if c < 0 then a < b else b < a))"

definition first_of :: "int \<Rightarrow> int \<Rightarrow> int" where
  "first_of c d = (if c = 0 then d else c)"

lemma decides_nil [simp]: "decides 0 [] []"
  by (simp add: decides_def)

lemma decides_same: "decides 0 xs xs"
  by (simp add: decides_def)

lemma decidesI:
  "c \<noteq> 0 \<Longrightarrow> xs = p @ a # xs' \<Longrightarrow> ys = p @ b # ys' \<Longrightarrow> if c < 0 then a < b else b < a \<Longrightarrow> decides c xs ys"
  unfolding decides_def by (simp only: if_False) blast

lemma decidesE:
  assumes "decides c xs ys" "c \<noteq> 0"
  obtains p a b xs' ys' where "xs = p @ a # xs'" "ys = p @ b # ys'" "if c < 0 then a < b else b < a"
  using assms unfolding decides_def by (simp only: if_False) blast

lemma decides_append:
  assumes "decides c xs ys" "c = 0 \<Longrightarrow> decides d us vs"
  shows "decides (first_of c d) (xs @ us) (ys @ vs)"
proof (cases "c = 0")
  case True
  then have eq: "xs = ys" using assms(1) by (simp add: decides_def)
  show ?thesis
  proof (cases "d = 0")
    case False
    obtain p a b us' vs' where "us = p @ a # us'" "vs = p @ b # vs'" "if d < 0 then a < b else b < a"
      by (rule decidesE [OF assms(2) [OF True] False])
    then have "xs @ us = (xs @ p) @ a # us'" "ys @ vs = (xs @ p) @ b # vs'" "if d < 0 then a < b else b < a" using eq by simp_all
    from decidesI [OF False this] show ?thesis using True by (simp add: first_of_def)
  qed (use True eq assms(2) in \<open>simp add: decides_def first_of_def\<close>)
next
  case False
  obtain p a b xs' ys' where "xs = p @ a # xs'" "ys = p @ b # ys'" "if c < 0 then a < b else b < a"
    by (rule decidesE [OF assms(1) False])
  then have "xs @ us = p @ a # xs' @ us" "ys @ vs = p @ b # ys' @ vs" "if c < 0 then a < b else b < a" by simp_all
  from decidesI [OF False this] show ?thesis using False by (simp add: first_of_def)
qed

lemma decides_Cons: "decides c xs ys \<Longrightarrow> decides c (b # xs) (b # ys)"
  using decides_append [OF decides_same [of "[b]"], of c xs ys] by (simp add: first_of_def)

lemma decides_Cons_same: "decides c (b # xs) (b # ys) \<longleftrightarrow> decides c xs ys"
proof
  assume d: "decides c (b # xs) (b # ys)"
  show "decides c xs ys"
  proof (cases "c = 0")
    case False
    obtain p a b' xs' ys' where e: "b # xs = p @ a # xs'" "b # ys = p @ b' # ys'" "if c < 0 then a < b' else b' < a"
      by (rule decidesE [OF d False])
    then have "p \<noteq> []" by (auto split: if_splits)
    then obtain p' where "p = b # p'" using e(1) by (cases p) auto
    then show ?thesis using e False by (intro decidesI [where p = p' and a = a and b = b']) simp_all
  qed (use d in \<open>simp add: decides_def\<close>)
qed (rule decides_Cons)

lemma decides_first: "a \<noteq> b \<Longrightarrow> decides (if a < b then - 1 else 1) (a # xs) (b # ys)"
  unfolding decides_def by (auto intro!: exI [of _ "[]"])

lemma byte_not: "unat (NOT v) = 255 - unat (v :: uint8_t)"
proof -
  have "NOT v = 255 - v" by (simp add: not_eq_complement)
  moreover have "v \<le> 255" using word_le_nat_alt [of v 255] unsigned_less [where 'a = nat, of v] by simp
  ultimately show ?thesis using unat_sub [of v 255] by simp
qed

lemma byte_not_less: "NOT v < NOT w \<longleftrightarrow> w < (v :: uint8_t)"
  using unsigned_less [where 'a = nat, of v] unsigned_less [where 'a = nat, of w] by (auto simp: word_less_nat_alt byte_not)

lemma decides_flip:
  assumes "decides c xs ys"
  shows "decides (- c) (map NOT xs) (map NOT ys)"
proof (cases "c = 0")
  case False
  obtain p a b xs' ys' where "xs = p @ a # xs'" "ys = p @ b # ys'" "if c < 0 then a < b else b < a"
    by (rule decidesE [OF assms False])
  then have "map NOT xs = map NOT p @ NOT a # map NOT xs'" "map NOT ys = map NOT p @ NOT b # map NOT ys'"
    "if - c < 0 then NOT a < NOT b else NOT b < NOT a"
    using False byte_not_less [of a b] byte_not_less [of b a] by (auto split: if_splits)
  with False show ?thesis by (intro decidesI) simp_all
qed (use assms in \<open>simp add: decides_def\<close>)

lemma decides_sgn: "sgn c = sgn d \<Longrightarrow> decides c xs ys \<Longrightarrow> decides d xs ys"
  unfolding decides_def by (auto simp: sgn_if split: if_splits)

text \<open>Strings of one length as big endian numbers.\<close>

definition be_value :: "uint8_t list \<Rightarrow> nat" where
  "be_value xs = le_value (rev xs)"

lemma le_value_append: "le_value (xs @ ys) = le_value xs + 256 ^ length xs * le_value ys"
  by (induction xs) (simp_all add: algebra_simps)

lemma le_value_less: "le_value xs < 256 ^ length xs"
proof (induction xs)
  case (Cons b xs)
  then show ?case using unsigned_less [where 'a = nat, of b] by simp
qed simp

lemma be_value_simps: "be_value [] = 0" "be_value (b # xs) = unat b * 256 ^ length xs + be_value xs"
  by (simp_all add: be_value_def le_value_append)

lemma be_value_less: "be_value xs < 256 ^ length xs"
  using le_value_less [of "rev xs"] by (simp add: be_value_def)

lemma decides_be_value:
  "length xs = length ys \<Longrightarrow> decides (int (be_value xs) - int (be_value ys)) xs ys"
proof (induction xs ys rule: list_induct2)
  case Nil
  then show ?case by (simp add: be_value_simps)
next
  case (Cons a xs b ys)
  let ?n = "256 ^ length xs :: nat"
  have n: "be_value xs < ?n" "be_value ys < ?n" using be_value_less [of xs] be_value_less [of ys] Cons(1) by simp_all
  show ?case
  proof (cases "a = b")
    case True
    then show ?thesis using decides_Cons [OF Cons(2), of b] Cons(1) by (simp add: be_value_simps)
  next
    case False
    have less: "u * ?n + be_value us < v * ?n + be_value vs" if "u < v" "be_value us < ?n" for u v us vs
    proof -
      have "u * ?n + be_value us < Suc u * ?n" using that(2) by simp
      also have "Suc u * ?n \<le> v * ?n" using that(1) by (intro mult_le_mono1) simp
      finally show ?thesis by simp
    qed
    have "sgn (int (be_value (a # xs)) - int (be_value (b # ys))) = (if a < b then - 1 else 1)"
    proof (cases "a < b")
      case True
      then have "be_value (a # xs) < be_value (b # ys)"
        using less [of "unat a" "unat b" xs ys] n Cons(1) by (simp add: be_value_simps word_less_nat_alt)
      then show ?thesis using True by simp
    next
      case F: False
      then have "b < a" using False by simp
      then have "be_value (b # ys) < be_value (a # xs)"
        using less [of "unat b" "unat a" ys xs] n Cons(1) by (simp add: be_value_simps word_less_nat_alt)
      then show ?thesis using F by simp
    qed
    then have "sgn (if a < b then - 1 else 1) = sgn (int (be_value (a # xs)) - int (be_value (b # ys)))" by simp
    then show ?thesis using decides_sgn decides_first [OF False] by blast
  qed
qed

section \<open>Order preserving encodings of fixed size\<close>

text \<open>
  One constructor per instance of \<open>Radix::EncodeData\<close>. Signed integers are words, read as signed; floating
  point numbers are their IEEE 754 bit patterns.
\<close>

datatype fixed_value =
    BoolV bool
  | Int8V "8 word" | Int16V "16 word" | Int32V "32 word" | Int64V "64 word"
  | UInt8V uint8_t | UInt16V uint16_t | UInt32V uint32_t | UInt64V uint64_t
  | HugeintV hugeint_t | UhugeintV uhugeint_t
  | FloatV uint32_t | DoubleV uint64_t
  | IntervalV interval_t

definition FlipSign :: "uint8_t \<Rightarrow> uint8_t" where
  "FlipSign key_byte = key_byte XOR 128"

fun flip_first :: "uint8_t list \<Rightarrow> uint8_t list" where
  "flip_first [] = []"
| "flip_first (b # bs) = FlipSign b # bs"

definition Encode_uint16 :: "uint16_t \<Rightarrow> uint8_t list" where
  "Encode_uint16 v = write_le 2 (unat (BSWAP16 v))"

definition Encode_uint32 :: "uint32_t \<Rightarrow> uint8_t list" where
  "Encode_uint32 v = write_le 4 (unat (BSWAP32 v))"

definition Encode_uint64 :: "uint64_t \<Rightarrow> uint8_t list" where
  "Encode_uint64 v = write_le 8 (unat (BSWAP64 v))"

text \<open>The comparisons of the code on single precision numbers, on their patterns.\<close>

definition float_is_zero :: "uint32_t \<Rightarrow> bool" where
  "float_is_zero x \<longleftrightarrow> x AND 0x7FFFFFFF = 0"

definition float_IsNan :: "uint32_t \<Rightarrow> bool" where
  "float_IsNan x \<longleftrightarrow> x AND 0x7FFFFFFF > 0x7F800000"

definition EncodeFloat :: "uint32_t \<Rightarrow> uint32_t" where
  "EncodeFloat x =
     (if float_is_zero x then 0 OR push_bit 31 1
      else if float_IsNan x then 0xFFFFFFFF
      else if x = 0x7F800000 then 0xFFFFFFFF - 1
      else if x = 0xFF800000 then 0
      else if x AND push_bit 31 1 = 0 then x OR push_bit 31 1
      else NOT x)"

definition DecodeFloat :: "uint32_t \<Rightarrow> uint32_t" where
  "DecodeFloat input =
     (if input = 0xFFFFFFFF then 0x7FC00000
      else if input = 0xFFFFFFFF - 1 then 0x7F800000
      else if input = 0 then 0xFF800000
      else if input AND push_bit 31 1 \<noteq> 0 then input XOR push_bit 31 1
      else NOT input)"

definition double_is_zero :: "uint64_t \<Rightarrow> bool" where
  "double_is_zero x \<longleftrightarrow> x AND 0x7FFFFFFFFFFFFFFF = 0"

definition double_IsNan :: "uint64_t \<Rightarrow> bool" where
  "double_IsNan x \<longleftrightarrow> x AND 0x7FFFFFFFFFFFFFFF > 0x7FF0000000000000"

definition EncodeDouble :: "uint64_t \<Rightarrow> uint64_t" where
  "EncodeDouble x =
     (if double_is_zero x then 0 + push_bit 63 1
      else if double_IsNan x then 0xFFFFFFFFFFFFFFFF
      else if x = 0x7FF0000000000000 then 0xFFFFFFFFFFFFFFFF - 1
      else if x = 0xFFF0000000000000 then 0
      else if x < push_bit 63 1 then x + push_bit 63 1
      else NOT x)"

definition DecodeDouble :: "uint64_t \<Rightarrow> uint64_t" where
  "DecodeDouble input =
     (if input = 0xFFFFFFFFFFFFFFFF then 0x7FF8000000000000
      else if input = 0xFFFFFFFFFFFFFFFF - 1 then 0x7FF0000000000000
      else if input = 0 then 0xFFF0000000000000
      else if input AND push_bit 63 1 \<noteq> 0 then input XOR push_bit 63 1
      else NOT input)"

fun EncodeData :: "fixed_value \<Rightarrow> uint8_t list" where
  "EncodeData (BoolV b) = [if b then 1 else 0]"
| "EncodeData (Int8V v) = flip_first [v]"
| "EncodeData (Int16V v) = flip_first (Encode_uint16 v)"
| "EncodeData (Int32V v) = flip_first (Encode_uint32 v)"
| "EncodeData (Int64V v) = flip_first (Encode_uint64 v)"
| "EncodeData (UInt8V v) = [v]"
| "EncodeData (UInt16V v) = Encode_uint16 v"
| "EncodeData (UInt32V v) = Encode_uint32 v"
| "EncodeData (UInt64V v) = Encode_uint64 v"
| "EncodeData (HugeintV v) = flip_first (Encode_uint64 (h_upper v)) @ Encode_uint64 (h_lower v)"
| "EncodeData (UhugeintV v) = Encode_uint64 (u_upper v) @ Encode_uint64 (u_lower v)"
| "EncodeData (FloatV x) = Encode_uint32 (EncodeFloat x)"
| "EncodeData (DoubleV x) = Encode_uint64 (EncodeDouble x)"
| "EncodeData (IntervalV i) =
     flip_first (Encode_uint32 (word_of_int (i_months i))) @ flip_first (Encode_uint32 (word_of_int (i_days i))) @
     flip_first (Encode_uint64 (word_of_int (i_micros i)))"

datatype fixed_type =
    BOOL | INT8 | INT16 | INT32 | INT64 | UINT8 | UINT16 | UINT32 | UINT64 | INT128 | UINT128 | FLOAT | DOUBLE | INTERVAL

fun fixed_type_of :: "fixed_value \<Rightarrow> fixed_type" where
  "fixed_type_of (BoolV _) = BOOL"
| "fixed_type_of (Int8V _) = INT8"
| "fixed_type_of (Int16V _) = INT16"
| "fixed_type_of (Int32V _) = INT32"
| "fixed_type_of (Int64V _) = INT64"
| "fixed_type_of (UInt8V _) = UINT8"
| "fixed_type_of (UInt16V _) = UINT16"
| "fixed_type_of (UInt32V _) = UINT32"
| "fixed_type_of (UInt64V _) = UINT64"
| "fixed_type_of (HugeintV _) = INT128"
| "fixed_type_of (UhugeintV _) = UINT128"
| "fixed_type_of (FloatV _) = FLOAT"
| "fixed_type_of (DoubleV _) = DOUBLE"
| "fixed_type_of (IntervalV _) = INTERVAL"

fun GetTypeIdSize :: "fixed_type \<Rightarrow> nat" where
  "GetTypeIdSize BOOL = 1"
| "GetTypeIdSize INT8 = 1"
| "GetTypeIdSize INT16 = 2"
| "GetTypeIdSize INT32 = 4"
| "GetTypeIdSize INT64 = 8"
| "GetTypeIdSize UINT8 = 1"
| "GetTypeIdSize UINT16 = 2"
| "GetTypeIdSize UINT32 = 4"
| "GetTypeIdSize UINT64 = 8"
| "GetTypeIdSize INT128 = 16"
| "GetTypeIdSize UINT128 = 16"
| "GetTypeIdSize FLOAT = 4"
| "GetTypeIdSize DOUBLE = 8"
| "GetTypeIdSize INTERVAL = 16"

text \<open>A load of \<open>k\<close> bytes.\<close>

definition Decode_uint16 :: "uint8_t list \<Rightarrow> uint16_t" where
  "Decode_uint16 input = BSWAP16 (word_of_nat (le_value (take 2 input)))"

definition Decode_uint32 :: "uint8_t list \<Rightarrow> uint32_t" where
  "Decode_uint32 input = BSWAP32 (word_of_nat (le_value (take 4 input)))"

definition Decode_uint64 :: "uint8_t list \<Rightarrow> uint64_t" where
  "Decode_uint64 input = BSWAP64 (word_of_nat (le_value (take 8 input)))"

fun DecodeData :: "fixed_type \<Rightarrow> uint8_t list \<Rightarrow> fixed_value" where
  "DecodeData BOOL input = BoolV (hd input \<noteq> 0)"
| "DecodeData INT8 input = Int8V (hd (flip_first input))"
| "DecodeData INT16 input = Int16V (Decode_uint16 (flip_first input))"
| "DecodeData INT32 input = Int32V (Decode_uint32 (flip_first input))"
| "DecodeData INT64 input = Int64V (Decode_uint64 (flip_first input))"
| "DecodeData UINT8 input = UInt8V (hd input)"
| "DecodeData UINT16 input = UInt16V (Decode_uint16 input)"
| "DecodeData UINT32 input = UInt32V (Decode_uint32 input)"
| "DecodeData UINT64 input = UInt64V (Decode_uint64 input)"
| "DecodeData INT128 input =
     HugeintV \<lparr>h_lower = Decode_uint64 (drop 8 input), h_upper = Decode_uint64 (flip_first input)\<rparr>"
| "DecodeData UINT128 input = UhugeintV \<lparr>u_lower = Decode_uint64 (drop 8 input), u_upper = Decode_uint64 input\<rparr>"
| "DecodeData FLOAT input = FloatV (DecodeFloat (Decode_uint32 input))"
| "DecodeData DOUBLE input = DoubleV (DecodeDouble (Decode_uint64 input))"
| "DecodeData INTERVAL input =
     IntervalV \<lparr>i_months = sint (Decode_uint32 (flip_first input)), i_days = sint (Decode_uint32 (flip_first (drop 4 input))),
       i_micros = sint (Decode_uint64 (flip_first (drop 8 input)))\<rparr>"

section \<open>Lengths and values of the encodings\<close>

lemma FlipSign_twice [simp]: "FlipSign (FlipSign b) = b"
  by (simp add: FlipSign_def xor.assoc)

lemma length_flip_first [simp]: "length (flip_first bs) = length bs"
  by (cases bs) auto

lemma length_Encode [simp]:
  "length (Encode_uint16 a) = 2" "length (Encode_uint32 b) = 4" "length (Encode_uint64 c) = 8"
  by (simp_all add: Encode_uint16_def Encode_uint32_def Encode_uint64_def)

lemma length_EncodeData [simp]: "length (EncodeData v) = GetTypeIdSize (fixed_type_of v)"
  by (cases v) simp_all

lemma le_value_unat: "le_value (write_le 2 (unat (a :: 16 word))) = unat a"
  "le_value (write_le 4 (unat (b :: 32 word))) = unat b" "le_value (write_le 8 (unat (c :: 64 word))) = unat c"
  using unsigned_less [where 'a = nat, of a] unsigned_less [where 'a = nat, of b] unsigned_less [where 'a = nat, of c]
  by (simp_all add: le_value_write_le)

lemma be_value_Encode:
  "be_value (Encode_uint16 a) = unat a" "be_value (Encode_uint32 b) = unat b" "be_value (Encode_uint64 c) = unat c"
  by (simp_all add: be_value_def Encode_uint16_def Encode_uint32_def Encode_uint64_def swapped_16 swapped_32 swapped_64 le_value_unat)

lemma unat_FlipSign: "unat (FlipSign b) = (if unat b < 128 then unat b + 128 else unat b - 128)"
proof -
  have small: "unat b < 256" using unsigned_less [where 'a = nat, of b] by simp
  have "bit b 7 \<longleftrightarrow> odd (unat b div 2 ^ 7)" using bit_unsigned_iff [where 'a = nat, of b 7] by (simp add: bit_iff_odd)
  also have "\<dots> \<longleftrightarrow> 128 \<le> unat b"
  proof (cases "unat b < 128")
    case False
    then have "unat b div 128 = 1" using small by simp
    then show ?thesis using False by simp
  qed simp
  finally have msb: "bit b 7 \<longleftrightarrow> 128 \<le> unat b" .
  have m: "bit (128 :: uint8_t) n \<longleftrightarrow> n = 7" for n
    using bit_exp_iff [of 7 n, where 'a = "uint8_t"] by auto
  show ?thesis
  proof (cases "bit b 7")
    case False
    have "b AND 128 = 0"
    proof (rule bit_word_eqI)
      fix n
      show "bit (b AND 128) n = bit 0 n" using False m [of n] by (cases "n = 7") (simp_all only: bit_and_iff bit_0_eq bot_apply simp_thms, simp_all)
    qed
    then have "FlipSign b = b + 128" unfolding FlipSign_def by (simp add: disjunctive_add_eq_xor)
    moreover have "unat b + unat (128 :: uint8_t) < 256" using False msb by simp
    ultimately show ?thesis using False msb unat_add_lem [of b 128] by simp
  next
    case True
    have "(b XOR 128) AND 128 = 0"
    proof (rule bit_word_eqI)
      fix n
      show "bit ((b XOR 128) AND 128) n = bit 0 n"
        using True m [of n] by (cases "n = 7") (simp_all only: bit_and_iff bit_xor_iff bit_0_eq bot_apply simp_thms, simp_all)
    qed
    then have "(b XOR 128) + 128 = (b XOR 128) XOR 128" by (simp add: disjunctive_add_eq_xor)
    then have "FlipSign b = b - 128" unfolding FlipSign_def by (simp add: xor.assoc algebra_simps)
    moreover have "128 \<le> b" using True msb by (simp add: word_le_nat_alt)
    ultimately show ?thesis using True msb unat_sub [of 128 b] by simp
  qed
qed

lemma sint_by_unat:
  fixes w :: "'a :: len word"
  shows "sint w = (if unat w < 2 ^ (LENGTH('a) - 1) then int (unat w) else int (unat w) - 2 ^ LENGTH('a))"
proof -
  let ?h = "2 ^ (LENGTH('a) - 1) :: int"
  have two: "(2 :: int) ^ LENGTH('a) = 2 * ?h" by (metis len_gt_0 Suc_diff_1 power_Suc)
  have u: "0 \<le> uint w" "uint w < 2 * ?h" using unsigned_less [where 'a = int, of w] two by simp_all
  have "sint w = (uint w + ?h) mod (2 * ?h) - ?h"
    by (simp add: sint_uint signed_take_bit_eq_take_bit_shift take_bit_eq_mod two [symmetric] power_Suc [symmetric] del: power_Suc)
  also have "\<dots> = (if uint w < ?h then uint w else uint w - 2 * ?h)"
  proof (cases "uint w < ?h")
    case False
    have "(uint w + ?h) mod (2 * ?h) = (uint w + ?h - 2 * ?h) mod (2 * ?h)" by (rule minus_mod_self2 [symmetric])
    also have "\<dots> = uint w + ?h - 2 * ?h" using u False by (intro mod_pos_pos_trivial) simp_all
    finally show ?thesis using False by simp
  qed (use u in simp)
  finally show ?thesis unfolding two
    by (metis of_nat_less_iff of_nat_numeral of_nat_power of_nat_unat int_eq_iff unsigned_of_int)
qed

lemma be_value_flip_first:
  assumes "xs \<noteq> []"
  defines "h \<equiv> 128 * 256 ^ (length xs - 1)"
  shows "be_value (flip_first xs) = (if be_value xs < h then be_value xs + h else be_value xs - h)"
proof -
  obtain b bs where xs: "xs = b # bs" using assms(1) by (cases xs) auto
  let ?k = "256 ^ length bs :: nat"
  have h: "h = 128 * ?k" by (simp add: h_def xs)
  have r: "be_value bs < ?k" by (rule be_value_less)
  have "unat b * ?k + be_value bs < 128 * ?k \<longleftrightarrow> unat b < 128"
  proof
    assume "unat b < 128"
    then have "Suc (unat b) * ?k \<le> 128 * ?k" by (intro mult_le_mono1) simp
    moreover have "unat b * ?k + be_value bs < Suc (unat b) * ?k" using r by simp
    ultimately show "unat b * ?k + be_value bs < 128 * ?k" by linarith
  next
    assume "unat b * ?k + be_value bs < 128 * ?k"
    then have "unat b * ?k < 128 * ?k" by linarith
    then show "unat b < 128" by simp
  qed
  then show ?thesis using h by (auto simp: xs be_value_simps unat_FlipSign algebra_simps diff_mult_distrib2)
qed

section \<open>The order of the values\<close>

text \<open>
  A floating point number in units of its least positive value: the fraction, with the hidden bit unless the
  exponent field is zero, shifted by the exponent. \<open>p\<close> is the width of the fraction.
\<close>

definition magnitude :: "nat \<Rightarrow> nat \<Rightarrow> nat" where
  "magnitude p n = (let e = n div 2 ^ p; m = n mod 2 ^ p in if e = 0 then m else (2 ^ p + m) * 2 ^ (e - 1))"

text \<open>
  The rank of a pattern of \<open>n\<close> with sign bit \<open>h\<close> and the infty magnitude \<open>infty\<close>: infinities around
  the finite values, and one greatest class for the patterns that are no number.
\<close>

definition ieee_rank :: "nat \<Rightarrow> nat \<Rightarrow> nat \<Rightarrow> nat \<Rightarrow> int list" where
  "ieee_rank p h infty n =
     (let k = n mod h in
      if infty < k then [3, 0]
      else if k = infty then (if n < h then [2, 0] else [0, 0])
      else [1, if n < h then int (magnitude p k) else - int (magnitude p k)])"

fun fixed_rank :: "fixed_value \<Rightarrow> int list" where
  "fixed_rank (BoolV b) = [if b then 1 else 0]"
| "fixed_rank (Int8V v) = [sint v]"
| "fixed_rank (Int16V v) = [sint v]"
| "fixed_rank (Int32V v) = [sint v]"
| "fixed_rank (Int64V v) = [sint v]"
| "fixed_rank (UInt8V v) = [uint v]"
| "fixed_rank (UInt16V v) = [uint v]"
| "fixed_rank (UInt32V v) = [uint v]"
| "fixed_rank (UInt64V v) = [uint v]"
| "fixed_rank (HugeintV v) = [hval v]"
| "fixed_rank (UhugeintV v) = [uval v]"
| "fixed_rank (FloatV x) = ieee_rank 23 (2 ^ 31) 0x7F800000 (unat x)"
| "fixed_rank (DoubleV x) = ieee_rank 52 (2 ^ 63) 0x7FF0000000000000 (unat x)"
| "fixed_rank (IntervalV i) = [i_months i, i_days i, i_micros i]"

fun compare_lists :: "int list \<Rightarrow> int list \<Rightarrow> int" where
  "compare_lists (x # xs) (y # ys) = first_of (sgn (x - y)) (compare_lists xs ys)"
| "compare_lists xs ys = 0"

definition fixed_compare :: "fixed_value \<Rightarrow> fixed_value \<Rightarrow> int" where
  "fixed_compare v w = compare_lists (fixed_rank v) (fixed_rank w)"

lemma magnitude_Suc: "magnitude p n < magnitude p (Suc n)"
proof (cases "Suc n mod 2 ^ p = 0")
  case False
  then have "Suc n div 2 ^ p = n div 2 ^ p" "Suc n mod 2 ^ p = Suc (n mod 2 ^ p)" by (simp_all add: div_Suc mod_Suc split: if_splits)
  then show ?thesis by (simp add: magnitude_def Let_def)
next
  case True
  then have s: "Suc n div 2 ^ p = Suc (n div 2 ^ p)" by (simp add: div_Suc)
  have m: "n mod 2 ^ p < 2 ^ p" by simp
  show ?thesis
  proof (cases "n div 2 ^ p")
    case 0
    then show ?thesis using m s True by (simp add: magnitude_def Let_def)
  next
    case (Suc e)
    have "(2 ^ p + n mod 2 ^ p) * 2 ^ e < (2 ^ p + 2 ^ p) * 2 ^ e" using m by simp
    then show ?thesis using Suc s True by (simp add: magnitude_def Let_def algebra_simps)
  qed
qed

lemma magnitude_less: "a < b \<Longrightarrow> magnitude p a < magnitude p b"
  by (rule lift_Suc_mono_less [of "magnitude p", OF magnitude_Suc])

lemma magnitude_cmp: "sgn (int (magnitude p a) - int (magnitude p b)) = sgn (int a - int b)"
  using magnitude_less [of a b p] magnitude_less [of b a p] by (cases a b rule: linorder_cases) (auto simp: sgn_if)

text \<open>The code of a pattern as a number.\<close>

definition ieee_code :: "nat \<Rightarrow> nat \<Rightarrow> nat \<Rightarrow> nat" where
  "ieee_code h infty n =
     (let k = n mod h in
      if k = 0 then h
      else if infty < k then 2 * h - 1
      else if n = infty then 2 * h - 2
      else if n = h + infty then 0
      else if n < h then n + h
      else 2 * h - 1 - n)"

lemma magnitude_0 [simp]: "magnitude p 0 = 0"
  by (simp add: magnitude_def)

definition signed_value :: "nat \<Rightarrow> bool \<Rightarrow> int" where
  "signed_value k positive = (if positive then int k else - int k)"

lemma magnitude_pos: "0 < a \<Longrightarrow> 0 < magnitude p a"
  using magnitude_less [of 0 a p] by simp

lemma finite_order:
  fixes a b :: nat
  defines "c \<equiv> \<lambda>k s. if k = 0 then 0 else if s then int k else - 1 - int k"
  shows "sgn (c a s - c b t) = sgn (signed_value (magnitude p a) s - signed_value (magnitude p b) t)"
proof (cases "s = t")
  case True
  have "sgn (int b - int a) = sgn (int (magnitude p b) - int (magnitude p a))" by (rule magnitude_cmp [symmetric])
  moreover have "sgn (c a False - c b False) = sgn (int b - int a)" by (auto simp: c_def sgn_if)
  moreover have "c a True = int a" "c b True = int b" by (auto simp: c_def)
  ultimately show ?thesis using True magnitude_cmp [of p a b] by (cases s) (simp_all add: signed_value_def)
next
  case False
  then consider (pn) "s" "\<not> t" | (np) "\<not> s" "t" by blast
  then show ?thesis
  proof cases
    case pn
    then show ?thesis using magnitude_pos [of a p] magnitude_pos [of b p]
      by (cases "a = 0"; cases "b = 0") (simp_all add: c_def signed_value_def sgn_if)
  next
    case np
    then show ?thesis using magnitude_pos [of a p] magnitude_pos [of b p]
      by (cases "a = 0"; cases "b = 0") (simp_all add: c_def signed_value_def sgn_if)
  qed
qed

lemma ieee_order:
  assumes "0 < infty" "infty + 1 < h" "n < 2 * h" "m < 2 * h"
  shows "sgn (int (ieee_code h infty n) - int (ieee_code h infty m)) = compare_lists (ieee_rank p h infty n) (ieee_rank p h infty m)"
proof -
  have split: "x = (if x < h then x mod h else h + x mod h) \<and> x mod h < h" if "x < 2 * h" for x
  proof (cases "x < h")
    case False
    then have "x mod h = x - h" using that by (simp add: mod_if)
    then show ?thesis using False that by simp
  qed simp
  obtain a s where n: "n = (if s then a else h + a)" "a < h" "n mod h = a" "n < h \<longleftrightarrow> s"
    using split [OF assms(3)] by (metis add_lessD1 linorder_not_less le_add1)
  obtain b t where m: "m = (if t then b else h + b)" "b < h" "m mod h = b" "m < h \<longleftrightarrow> t"
    using split [OF assms(4)] by (metis add_lessD1 linorder_not_less le_add1)
  have code: "ieee_code h infty n = (if a = 0 then h else if infty < a then 2 * h - 1 else if a = infty then (if s then 2 * h - 2 else 0)
      else if s then a + h else h - 1 - a)"
    using n assms(1,2) by (auto simp: ieee_code_def Let_def)
  have code': "ieee_code h infty m = (if b = 0 then h else if infty < b then 2 * h - 1 else if b = infty then (if t then 2 * h - 2 else 0)
      else if t then b + h else h - 1 - b)"
    using m assms(1,2) by (auto simp: ieee_code_def Let_def)
  have rank: "ieee_rank p h infty n = (if infty < a then [3, 0] else if a = infty then (if s then [2, 0] else [0, 0])
      else [1, if s then int (magnitude p a) else - int (magnitude p a)])"
    using n by (simp add: ieee_rank_def Let_def)
  have rank': "ieee_rank p h infty m = (if infty < b then [3, 0] else if b = infty then (if t then [2, 0] else [0, 0])
      else [1, if t then int (magnitude p b) else - int (magnitude p b)])"
    using m by (simp add: ieee_rank_def Let_def)
  consider (nan) "infty < a" | (inf) "a = infty" | (fin) "a < infty" by linarith
  then show ?thesis
  proof cases
    case nan
    then show ?thesis unfolding code code' rank rank' using assms(1,2) m(2) by (auto simp: first_of_def sgn_if)
  next
    case inf
    then show ?thesis unfolding code code' rank rank' using assms(1,2) m(2) by (cases s) (auto simp: first_of_def sgn_if)
  next
    case fin
    show ?thesis
    proof (cases "b < infty")
      case True
      have "sgn (int (ieee_code h infty n) - int (ieee_code h infty m)) =
          sgn ((if a = 0 then 0 else if s then int a else - 1 - int a) - (if b = 0 then 0 else if t then int b else - 1 - int b))"
        unfolding code code' using True fin assms(2) by (cases "a = 0"; cases "b = 0"; cases s; cases t) simp_all
      also have "\<dots> = sgn (signed_value (magnitude p a) s - signed_value (magnitude p b) t)" by (rule finite_order)
      also have "\<dots> = compare_lists (ieee_rank p h infty n) (ieee_rank p h infty m)"
        unfolding rank rank' using True fin by (simp add: first_of_def signed_value_def)
      finally show ?thesis .
    next
      case False
      then show ?thesis unfolding code code' rank rank' using fin assms(1,2) n(2) by (cases t) (auto simp: first_of_def sgn_if)
    qed
  qed
qed

section \<open>Codes of floating point numbers\<close>

lemma unat_word_not: "unat (NOT w) = 2 ^ LENGTH('a) - 1 - unat w" for w :: "'a :: len word"
proof -
  have "NOT w = - 1 - w" by (simp add: not_eq_complement)
  moreover have "w \<le> - 1" by simp
  ultimately show ?thesis using unat_sub [of w "- 1"] by (simp add: unsigned_minus_1_eq_mask mask_eq_exp_minus_1)
qed

lemma sign_bit: "bit w (LENGTH('a) - 1) \<longleftrightarrow> 2 ^ (LENGTH('a) - 1) \<le> unat w" for w :: "'a :: len word"
proof -
  let ?h = "2 ^ (LENGTH('a) - 1) :: nat"
  have two: "(2 :: nat) ^ LENGTH('a) = 2 * ?h" by (metis len_gt_0 Suc_diff_1 power_Suc)
  have small: "unat w < 2 * ?h" using unsigned_less [where 'a = nat, of w] two by simp
  have "bit w (LENGTH('a) - 1) \<longleftrightarrow> odd (unat w div ?h)"
    using bit_unsigned_iff [where 'a = nat, of w "LENGTH('a) - 1"] by (simp add: bit_iff_odd)
  also have "\<dots> \<longleftrightarrow> ?h \<le> unat w"
  proof (cases "unat w < ?h")
    case False
    then have "unat w div ?h = 1" using small by (intro div_nat_eqI) simp_all
    then show ?thesis using False by simp
  qed simp
  finally show ?thesis .
qed

lemma sign_clear: "w AND push_bit (LENGTH('a) - 1) 1 = 0 \<longleftrightarrow> unat w < 2 ^ (LENGTH('a) - 1)" for w :: "'a :: len word"
proof -
  have "w AND push_bit (LENGTH('a) - 1) 1 = 0 \<longleftrightarrow> \<not> bit w (LENGTH('a) - 1)"
  proof
    assume "w AND push_bit (LENGTH('a) - 1) 1 = 0"
    then have "bit (w AND push_bit (LENGTH('a) - 1) 1) (LENGTH('a) - 1) \<longleftrightarrow> False" by simp
    then show "\<not> bit w (LENGTH('a) - 1)" by (simp add: bit_and_iff bit_exp_iff)
  next
    assume "\<not> bit w (LENGTH('a) - 1)"
    then show "w AND push_bit (LENGTH('a) - 1) 1 = 0"
      by (intro bit_word_eqI) (auto simp: bit_and_iff bit_exp_iff)
  qed
  then show ?thesis using sign_bit [of w] by auto
qed

lemma sign_set:
  fixes w :: "'a :: len word"
  assumes "unat w < 2 ^ (LENGTH('a) - 1)"
  shows "w OR push_bit (LENGTH('a) - 1) 1 = w + push_bit (LENGTH('a) - 1) 1"
    "unat (w + push_bit (LENGTH('a) - 1) 1) = unat w + 2 ^ (LENGTH('a) - 1)"
proof -
  show "w OR push_bit (LENGTH('a) - 1) 1 = w + push_bit (LENGTH('a) - 1) 1"
    using sign_clear [of w] assms by (simp add: disjunctive_add_eq_or)
  have h: "unat (push_bit (LENGTH('a) - 1) 1 :: 'a word) = 2 ^ (LENGTH('a) - 1)" by (simp only: unsigned_push_bit_eq unsigned_1) (simp add: take_bit_nat_eq_self_iff)
  have "(2 :: nat) ^ LENGTH('a) = 2 * 2 ^ (LENGTH('a) - 1)" by (metis len_gt_0 Suc_diff_1 power_Suc)
  then have "unat w + unat (push_bit (LENGTH('a) - 1) 1 :: 'a word) < 2 ^ LENGTH('a)" using assms h by simp
  then show "unat (w + push_bit (LENGTH('a) - 1) 1) = unat w + 2 ^ (LENGTH('a) - 1)"
    unfolding h [symmetric] by (simp add: unat_add_lem)
qed

lemmas sign_bit_32 = sign_clear [where 'a = 32, simplified] sign_set [where 'a = 32, simplified]
  and sign_bit_64 = sign_clear [where 'a = 64, simplified] sign_set [where 'a = 64, simplified]

lemma low_bits_32: "unat (x AND 0x7FFFFFFF) = unat x mod 2 ^ 31" for x :: uint32_t
proof -
  have "x AND 0x7FFFFFFF = take_bit 31 x" by (simp add: take_bit_eq_mask mask_eq_exp_minus_1)
  then show ?thesis by (simp only: unsigned_take_bit_eq) (simp add: take_bit_eq_mod)
qed

lemma low_bits_64: "unat (x AND 0x7FFFFFFFFFFFFFFF) = unat x mod 2 ^ 63" for x :: uint64_t
proof -
  have "x AND 0x7FFFFFFFFFFFFFFF = take_bit 63 x" by (simp add: take_bit_eq_mask mask_eq_exp_minus_1)
  then show ?thesis by (simp only: unsigned_take_bit_eq) (simp add: take_bit_eq_mod)
qed

lemma EncodeFloat_code: "unat (EncodeFloat x) = ieee_code (2 ^ 31) 0x7F800000 (unat x)"
proof -
  have x: "unat x < 2 ^ 32" using unsigned_less [where 'a = nat, of x] by simp
  have z: "float_is_zero x \<longleftrightarrow> unat x mod 2 ^ 31 = 0"
    unfolding float_is_zero_def low_bits_32 [symmetric] by (simp add: unsigned_eq_0_iff)
  have n: "float_IsNan x \<longleftrightarrow> 0x7F800000 < unat x mod 2 ^ 31"
    unfolding float_IsNan_def low_bits_32 [symmetric] by (simp add: word_less_nat_alt)
  have i: "x = 0x7F800000 \<longleftrightarrow> unat x = 0x7F800000" "x = 0xFF800000 \<longleftrightarrow> unat x = 0xFF800000"
    by (simp_all add: word_unat_eq_iff)
  show ?thesis
    using x sign_bit_32 [of x] unat_word_not [of x]
    by (simp add: EncodeFloat_def ieee_code_def Let_def z n i)
qed

lemma EncodeDouble_code: "unat (EncodeDouble x) = ieee_code (2 ^ 63) 0x7FF0000000000000 (unat x)"
proof -
  have x: "unat x < 2 ^ 64" using unsigned_less [where 'a = nat, of x] by simp
  have z: "double_is_zero x \<longleftrightarrow> unat x mod 2 ^ 63 = 0"
    unfolding double_is_zero_def low_bits_64 [symmetric] by (simp add: unsigned_eq_0_iff)
  have n: "double_IsNan x \<longleftrightarrow> 0x7FF0000000000000 < unat x mod 2 ^ 63"
    unfolding double_IsNan_def low_bits_64 [symmetric] by (simp add: word_less_nat_alt)
  have i: "x = 0x7FF0000000000000 \<longleftrightarrow> unat x = 0x7FF0000000000000" "x = 0xFFF0000000000000 \<longleftrightarrow> unat x = 0xFFF0000000000000"
    by (simp_all add: word_unat_eq_iff)
  have l: "x < 0x8000000000000000 \<longleftrightarrow> unat x < 2 ^ 63" by (simp add: word_less_nat_alt)
  show ?thesis
    using x sign_bit_64 [of x] unat_word_not [of x]
    by (simp add: EncodeDouble_def ieee_code_def Let_def z n i l)
qed

section \<open>The encodings keep the order\<close>

lemma be_value_flipped:
  "int (be_value (flip_first [v8])) = sint v8 + 2 ^ 7"
  "int (be_value (flip_first (Encode_uint16 v16))) = sint v16 + 2 ^ 15"
  "int (be_value (flip_first (Encode_uint32 v32))) = sint v32 + 2 ^ 31"
  "int (be_value (flip_first (Encode_uint64 v64))) = sint v64 + 2 ^ 63"
proof -
  have ne: "Encode_uint16 v16 \<noteq> []" "Encode_uint32 v32 \<noteq> []" "Encode_uint64 v64 \<noteq> []"
    by (metis length_Encode(1) list.size(3) zero_neq_numeral, metis length_Encode(2) list.size(3) zero_neq_numeral,
        metis length_Encode(3) list.size(3) zero_neq_numeral)
  show "int (be_value (flip_first [v8])) = sint v8 + 2 ^ 7"
    using be_value_flip_first [of "[v8]"] by (simp add: be_value_simps sint_by_unat)
  show "int (be_value (flip_first (Encode_uint16 v16))) = sint v16 + 2 ^ 15"
    using be_value_flip_first [OF ne(1)] by (simp add: be_value_Encode sint_by_unat)
  show "int (be_value (flip_first (Encode_uint32 v32))) = sint v32 + 2 ^ 31"
    using be_value_flip_first [OF ne(2)] by (simp add: be_value_Encode sint_by_unat)
  show "int (be_value (flip_first (Encode_uint64 v64))) = sint v64 + 2 ^ 63"
    using be_value_flip_first [OF ne(3)] by (simp add: be_value_Encode sint_by_unat)
qed

lemma decides_value:
  assumes "length xs = length ys" "int (be_value xs) = f + k" "int (be_value ys) = g + k"
  shows "decides (sgn (f - g)) xs ys"
proof -
  have "int (be_value xs) - int (be_value ys) = f - g" using assms(2,3) by linarith
  then have "decides (f - g) xs ys" using decides_be_value [OF assms(1)] by (simp only:)
  then show ?thesis by (rule decides_sgn [rotated]) (simp only: sgn_sgn)
qed

lemma first_of_0: "first_of c 0 = c"
  by (simp add: first_of_def)

lemma decides_rank1:
  assumes "length xs = length ys" "int (be_value xs) = f + k" "int (be_value ys) = g + k"
  shows "decides (compare_lists [f] [g]) xs ys"
  using decides_value [OF assms] unfolding compare_lists.simps first_of_0 .

lemma decides_two_words:
  assumes "length xs = length ys" "length us = length vs"
    "int (be_value xs) * 256 ^ length us + int (be_value us) = f + k"
    "int (be_value ys) * 256 ^ length us + int (be_value vs) = g + k"
  shows "decides (compare_lists [f] [g]) (xs @ us) (ys @ vs)"
proof -
  have app: "be_value (a @ b) = be_value a * 256 ^ length b + be_value b" for a b
    by (simp add: be_value_def le_value_append)
  show ?thesis by (rule decides_rank1 [where k = k]) (use assms app [of xs us] app [of ys vs] in \<open>simp_all add: assms(2) [symmetric]\<close>)
qed

definition int_fits :: "nat \<Rightarrow> int \<Rightarrow> bool" where
  "int_fits w x \<longleftrightarrow> - (2 ^ (w - 1)) \<le> x \<and> x < 2 ^ (w - 1)"

text \<open>An interval has fields of 32, 32 and 64 bits.\<close>

definition fixed_fits :: "fixed_value \<Rightarrow> bool" where
  "fixed_fits v = (case v of IntervalV i \<Rightarrow> int_fits 32 (i_months i) \<and> int_fits 32 (i_days i) \<and> int_fits 64 (i_micros i) | _ \<Rightarrow> True)"

lemma sint_of_int:
  "int_fits 32 x \<Longrightarrow> sint (word_of_int x :: 32 word) = x" "int_fits 64 x \<Longrightarrow> sint (word_of_int x :: 64 word) = x"
  by (simp_all add: int_fits_def signed_of_int signed_take_bit_int_eq_self)

lemma EncodeData_order:
  assumes "fixed_type_of v = fixed_type_of w" "fixed_fits v" "fixed_fits w"
  shows "decides (fixed_compare v w) (EncodeData v) (EncodeData w)"
proof (cases v)
  case (BoolV a)
  then obtain b where "w = BoolV b" using assms(1) by (cases w) auto
  then show ?thesis
    using BoolV decides_first [of 0 1 "[]" "[]"] decides_first [of 1 0 "[]" "[]"] decides_same
    by (cases a; cases b) (simp_all add: fixed_compare_def first_of_def)
next
  case (IntervalV i)
  then obtain j where j: "w = IntervalV j" using assms(1) by (cases w) auto
  let ?e = "\<lambda>x. flip_first (Encode_uint32 (word_of_int x))"
  have fits: "int_fits 32 (i_months i)" "int_fits 32 (i_days i)" "int_fits 64 (i_micros i)"
    "int_fits 32 (i_months j)" "int_fits 32 (i_days j)" "int_fits 64 (i_micros j)"
    using assms(2,3) IntervalV j by (simp_all add: fixed_fits_def)
  have a: "decides (sgn (x - y)) (?e x) (?e y)" if "int_fits 32 x" "int_fits 32 y" for x y
    by (rule decides_value [where k = "2 ^ 31"]) (simp_all add: be_value_flipped sint_of_int that)
  have b: "decides (sgn (x - y)) (flip_first (Encode_uint64 (word_of_int x))) (flip_first (Encode_uint64 (word_of_int y)))"
    if "int_fits 64 x" "int_fits 64 y" for x y
    by (rule decides_value [where k = "2 ^ 63"]) (simp_all add: be_value_flipped sint_of_int that)
  have "decides (first_of (sgn (i_months i - i_months j)) (first_of (sgn (i_days i - i_days j)) (sgn (i_micros i - i_micros j))))
      (EncodeData v) (EncodeData w)"
    unfolding IntervalV j EncodeData.simps by (intro decides_append a b fits)
  then show ?thesis using IntervalV j by (simp add: fixed_compare_def first_of_def)
next
  case (Int8V a)
  then obtain b where w: "w = Int8V b" using assms(1) by (cases w) auto
  show ?thesis unfolding Int8V w fixed_compare_def fixed_rank.simps EncodeData.simps
    by (rule decides_rank1 [OF _ be_value_flipped(1) be_value_flipped(1)]) simp
next
  case (Int16V a)
  then obtain b where w: "w = Int16V b" using assms(1) by (cases w) auto
  show ?thesis unfolding Int16V w fixed_compare_def fixed_rank.simps EncodeData.simps
    by (rule decides_rank1 [OF _ be_value_flipped(2) be_value_flipped(2)]) simp
next
  case (Int32V a)
  then obtain b where w: "w = Int32V b" using assms(1) by (cases w) auto
  show ?thesis unfolding Int32V w fixed_compare_def fixed_rank.simps EncodeData.simps
    by (rule decides_rank1 [OF _ be_value_flipped(3) be_value_flipped(3)]) simp
next
  case (Int64V a)
  then obtain b where w: "w = Int64V b" using assms(1) by (cases w) auto
  show ?thesis unfolding Int64V w fixed_compare_def fixed_rank.simps EncodeData.simps
    by (rule decides_rank1 [OF _ be_value_flipped(4) be_value_flipped(4)]) simp
next
  case (UInt8V a)
  then obtain b where w: "w = UInt8V b" using assms(1) by (cases w) auto
  show ?thesis unfolding UInt8V w fixed_compare_def fixed_rank.simps EncodeData.simps
    by (rule decides_rank1 [where k = 0]) (simp_all add: be_value_simps)
next
  case (UInt16V a)
  then obtain b where w: "w = UInt16V b" using assms(1) by (cases w) auto
  show ?thesis unfolding UInt16V w fixed_compare_def fixed_rank.simps EncodeData.simps
    by (rule decides_rank1 [where k = 0]) (simp_all add: be_value_Encode)
next
  case (UInt32V a)
  then obtain b where w: "w = UInt32V b" using assms(1) by (cases w) auto
  show ?thesis unfolding UInt32V w fixed_compare_def fixed_rank.simps EncodeData.simps
    by (rule decides_rank1 [where k = 0]) (simp_all add: be_value_Encode)
next
  case (UInt64V a)
  then obtain b where w: "w = UInt64V b" using assms(1) by (cases w) auto
  show ?thesis unfolding UInt64V w fixed_compare_def fixed_rank.simps EncodeData.simps
    by (rule decides_rank1 [where k = 0]) (simp_all add: be_value_Encode)
next
  case (HugeintV a)
  then obtain b where w: "w = HugeintV b" using assms(1) by (cases w) auto
  show ?thesis unfolding HugeintV w fixed_compare_def fixed_rank.simps EncodeData.simps
    by (rule decides_two_words [where k = "2 ^ 127"]) (simp_all add: be_value_flipped be_value_Encode hval_def)
next
  case (UhugeintV a)
  then obtain b where w: "w = UhugeintV b" using assms(1) by (cases w) auto
  show ?thesis unfolding UhugeintV w fixed_compare_def fixed_rank.simps EncodeData.simps
    by (rule decides_two_words [where k = 0]) (simp_all add: be_value_Encode uval_def)
next
  case (FloatV a)
  then obtain b where w: "w = FloatV b" using assms(1) by (cases w) auto
  have r: "unat a < 2 * 2 ^ 31" "unat b < 2 * 2 ^ 31"
    using unsigned_less [where 'a = nat, of a] unsigned_less [where 'a = nat, of b] by simp_all
  have "decides (sgn (int (ieee_code (2 ^ 31) 0x7F800000 (unat a)) - int (ieee_code (2 ^ 31) 0x7F800000 (unat b)))) (EncodeData v) (EncodeData w)"
    unfolding FloatV w EncodeData.simps by (rule decides_value [where k = 0]) (simp_all only: be_value_Encode EncodeFloat_code length_Encode add_0_right)
  then show ?thesis unfolding FloatV w fixed_compare_def fixed_rank.simps
    by (subst ieee_order [symmetric]) (use r in simp_all)
next
  case (DoubleV a)
  then obtain b where w: "w = DoubleV b" using assms(1) by (cases w) auto
  have r: "unat a < 2 * 2 ^ 63" "unat b < 2 * 2 ^ 63"
    using unsigned_less [where 'a = nat, of a] unsigned_less [where 'a = nat, of b] by simp_all
  have "decides (sgn (int (ieee_code (2 ^ 63) 0x7FF0000000000000 (unat a)) - int (ieee_code (2 ^ 63) 0x7FF0000000000000 (unat b)))) (EncodeData v) (EncodeData w)"
    unfolding DoubleV w EncodeData.simps by (rule decides_value [where k = 0]) (simp_all only: be_value_Encode EncodeDouble_code length_Encode add_0_right)
  then show ?thesis unfolding DoubleV w fixed_compare_def fixed_rank.simps
    by (subst ieee_order [symmetric]) (use r in simp_all)
qed

section \<open>Decoding\<close>

lemma Encode_bytes:
  "Encode_uint16 a = rev (write_le 2 (unat a))" "Encode_uint32 b = rev (write_le 4 (unat b))"
  "Encode_uint64 c = rev (write_le 8 (unat c))"
  by (simp_all only: Encode_uint16_def Encode_uint32_def Encode_uint64_def swapped_16 swapped_32 swapped_64)

lemma le_value_inject: "length xs = length ys \<Longrightarrow> le_value xs = le_value ys \<Longrightarrow> xs = ys"
proof (induction xs ys rule: list_induct2)
  case (Cons a xs b ys)
  have small: "unat a < 256" "unat b < 256"
    using unsigned_less [where 'a = nat, of a] unsigned_less [where 'a = nat, of b] by simp_all
  have eq: "unat a + 256 * le_value xs = unat b + 256 * le_value ys" using Cons(3) by simp
  then have "(unat a + 256 * le_value xs) mod 256 = (unat b + 256 * le_value ys) mod 256" by simp
  then have "unat a = unat b" using small by simp
  moreover from this have "le_value xs = le_value ys" using eq by simp
  ultimately show ?case using Cons(2) by (simp add: word_unat_eq_iff)
qed simp

lemma BSWAP_twice [simp]: "BSWAP16 (BSWAP16 a) = a" "BSWAP32 (BSWAP32 b) = b" "BSWAP64 (BSWAP64 c) = c"
proof -
  have "le_value (write_le 2 (unat (BSWAP16 (BSWAP16 a)))) = le_value (write_le 2 (unat a))" by (simp only: swapped_16 rev_rev_ident)
  then show "BSWAP16 (BSWAP16 a) = a" by (simp only: le_value_unat word_unat_eq_iff)
  have "le_value (write_le 4 (unat (BSWAP32 (BSWAP32 b)))) = le_value (write_le 4 (unat b))" by (simp only: swapped_32 rev_rev_ident)
  then show "BSWAP32 (BSWAP32 b) = b" by (simp only: le_value_unat word_unat_eq_iff)
  have "le_value (write_le 8 (unat (BSWAP64 (BSWAP64 c)))) = le_value (write_le 8 (unat c))" by (simp only: swapped_64 rev_rev_ident)
  then show "BSWAP64 (BSWAP64 c) = c" by (simp only: le_value_unat word_unat_eq_iff)
qed

lemma Decode_Encode [simp]:
  "Decode_uint16 (Encode_uint16 a @ r) = a" "Decode_uint32 (Encode_uint32 b @ r) = b" "Decode_uint64 (Encode_uint64 c @ r) = c"
  by (simp_all add: Decode_uint16_def Encode_uint16_def Decode_uint32_def Encode_uint32_def Decode_uint64_def Encode_uint64_def
      le_value_unat)

lemma flip_first_twice: "xs \<noteq> [] \<Longrightarrow> flip_first (flip_first xs @ r) = xs @ r"
  by (cases xs) auto

lemma Encode_nonempty [simp]: "Encode_uint16 a \<noteq> []" "Encode_uint32 b \<noteq> []" "Encode_uint64 c \<noteq> []"
  by (metis length_Encode(1) list.size(3) zero_neq_numeral, metis length_Encode(2) list.size(3) zero_neq_numeral,
      metis length_Encode(3) list.size(3) zero_neq_numeral)

text \<open>What decoding gives back: zero without its sign and the one pattern for what is no number.\<close>

definition canonical :: "fixed_value \<Rightarrow> fixed_value" where
  "canonical v =
     (case v of
        FloatV x \<Rightarrow> FloatV (if float_is_zero x then 0 else if float_IsNan x then 0x7FC00000 else x)
      | DoubleV x \<Rightarrow> DoubleV (if double_is_zero x then 0 else if double_IsNan x then 0x7FF8000000000000 else x)
      | _ \<Rightarrow> v)"

lemma DecodeFloat_EncodeFloat:
  "DecodeFloat (EncodeFloat x) = (if float_is_zero x then 0 else if float_IsNan x then 0x7FC00000 else x)"
proof -
  have x: "unat x < 2 ^ 32" using unsigned_less [where 'a = nat, of x] by simp
  have z: "float_is_zero x \<longleftrightarrow> unat x mod 2 ^ 31 = 0"
    unfolding float_is_zero_def low_bits_32 [symmetric] by (simp add: unsigned_eq_0_iff)
  have n: "float_IsNan x \<longleftrightarrow> 0x7F800000 < unat x mod 2 ^ 31"
    unfolding float_IsNan_def low_bits_32 [symmetric] by (simp add: word_less_nat_alt)
  consider (special) "float_is_zero x \<or> float_IsNan x \<or> x = 0x7F800000 \<or> x = 0xFF800000"
    | (pos) "\<not> float_is_zero x" "\<not> float_IsNan x" "x \<noteq> 0x7F800000" "x \<noteq> 0xFF800000" "unat x < 2 ^ 31"
    | (neg) "\<not> float_is_zero x" "\<not> float_IsNan x" "x \<noteq> 0x7F800000" "x \<noteq> 0xFF800000" "2 ^ 31 \<le> unat x" by linarith
  then show ?thesis
  proof cases
    case special
    then show ?thesis by (auto simp: EncodeFloat_def DecodeFloat_def)
  next
    case pos
    then have e: "EncodeFloat x = x OR push_bit 31 1" using sign_bit_32(1) [of x] by (simp add: EncodeFloat_def)
    have u: "unat (EncodeFloat x) = unat x + 2 ^ 31" unfolding EncodeFloat_code using pos(1-5) z n
      by (simp add: ieee_code_def Let_def word_unat_eq_iff)
    have "unat x < 0x7F800000" using pos n by (simp add: word_unat_eq_iff)
    then have "EncodeFloat x \<noteq> 0xFFFFFFFF" "EncodeFloat x \<noteq> 0xFFFFFFFF - 1" "EncodeFloat x \<noteq> 0" using u by (auto simp: word_unat_eq_iff)
    moreover have "EncodeFloat x AND push_bit 31 1 \<noteq> 0" using sign_bit_32(1) [of "EncodeFloat x"] u by simp
    moreover have "(x OR push_bit 31 1) XOR push_bit 31 1 = x"
    proof -
      have "x AND push_bit 31 1 = 0" using sign_bit_32(1) [of x] pos(5) by simp
      then have "x OR push_bit 31 1 = x XOR push_bit 31 1" by (simp only: disjunctive_xor_eq_or)
      then show ?thesis by (simp only: xor.assoc bit.xor_self xor.right_neutral)
    qed
    ultimately show ?thesis using pos e by (simp add: DecodeFloat_def)
  next
    case neg
    then have e: "EncodeFloat x = NOT x" using sign_bit_32(1) [of x] by (simp add: EncodeFloat_def)
    have u: "unat (EncodeFloat x) = 2 ^ 32 - 1 - unat x" unfolding e by (simp add: unat_word_not)
    have m: "unat x mod 2 ^ 31 = unat x - 2 ^ 31" using neg(5) x by (simp add: mod_if)
    then have "unat x - 2 ^ 31 < 0x7F800000" using neg n by (simp add: word_unat_eq_iff)
    then have "EncodeFloat x \<noteq> 0xFFFFFFFF" "EncodeFloat x \<noteq> 0xFFFFFFFF - 1" "EncodeFloat x \<noteq> 0"
      using u neg(5) x by (auto simp: word_unat_eq_iff)
    moreover have "EncodeFloat x AND push_bit 31 1 = 0" using sign_bit_32(1) [of "EncodeFloat x"] u neg(5) by simp
    ultimately show ?thesis using neg e by (simp add: DecodeFloat_def)
  qed
qed

lemma DecodeDouble_EncodeDouble:
  "DecodeDouble (EncodeDouble x) = (if double_is_zero x then 0 else if double_IsNan x then 0x7FF8000000000000 else x)"
proof -
  have x: "unat x < 2 ^ 64" using unsigned_less [where 'a = nat, of x] by simp
  have z: "double_is_zero x \<longleftrightarrow> unat x mod 2 ^ 63 = 0"
    unfolding double_is_zero_def low_bits_64 [symmetric] by (simp add: unsigned_eq_0_iff)
  have n: "double_IsNan x \<longleftrightarrow> 0x7FF0000000000000 < unat x mod 2 ^ 63"
    unfolding double_IsNan_def low_bits_64 [symmetric] by (simp add: word_less_nat_alt)
  have l: "x < 0x8000000000000000 \<longleftrightarrow> unat x < 2 ^ 63" by (simp add: word_less_nat_alt)
  consider (special) "double_is_zero x \<or> double_IsNan x \<or> x = 0x7FF0000000000000 \<or> x = 0xFFF0000000000000"
    | (pos) "\<not> double_is_zero x" "\<not> double_IsNan x" "x \<noteq> 0x7FF0000000000000" "x \<noteq> 0xFFF0000000000000" "unat x < 2 ^ 63"
    | (neg) "\<not> double_is_zero x" "\<not> double_IsNan x" "x \<noteq> 0x7FF0000000000000" "x \<noteq> 0xFFF0000000000000" "2 ^ 63 \<le> unat x" by linarith
  then show ?thesis
  proof cases
    case special
    then show ?thesis by (auto simp: EncodeDouble_def DecodeDouble_def)
  next
    case pos
    then have e: "EncodeDouble x = x OR push_bit 63 1" using sign_bit_64 [of x] l by (simp add: EncodeDouble_def)
    have u: "unat (EncodeDouble x) = unat x + 2 ^ 63" unfolding EncodeDouble_code using pos(1-5) z n
      by (simp add: ieee_code_def Let_def word_unat_eq_iff)
    have "unat x < 0x7FF0000000000000" using pos n by (simp add: word_unat_eq_iff)
    then have "EncodeDouble x \<noteq> 0xFFFFFFFFFFFFFFFF" "EncodeDouble x \<noteq> 0xFFFFFFFFFFFFFFFF - 1" "EncodeDouble x \<noteq> 0" using u by (auto simp: word_unat_eq_iff)
    moreover have "EncodeDouble x AND push_bit 63 1 \<noteq> 0" using sign_bit_64(1) [of "EncodeDouble x"] u by simp
    moreover have "(x OR push_bit 63 1) XOR push_bit 63 1 = x"
    proof -
      have "x AND push_bit 63 1 = 0" using sign_bit_64(1) [of x] pos(5) by simp
      then have "x OR push_bit 63 1 = x XOR push_bit 63 1" by (simp only: disjunctive_xor_eq_or)
      then show ?thesis by (simp only: xor.assoc bit.xor_self xor.right_neutral)
    qed
    ultimately show ?thesis using pos e by (simp add: DecodeDouble_def)
  next
    case neg
    then have e: "EncodeDouble x = NOT x" using l by (simp add: EncodeDouble_def)
    have u: "unat (EncodeDouble x) = 2 ^ 64 - 1 - unat x" unfolding e by (simp add: unat_word_not)
    have m: "unat x mod 2 ^ 63 = unat x - 2 ^ 63" using neg(5) x by (simp add: mod_if)
    then have "unat x - 2 ^ 63 < 0x7FF0000000000000" using neg n by (simp add: word_unat_eq_iff)
    then have "EncodeDouble x \<noteq> 0xFFFFFFFFFFFFFFFF" "EncodeDouble x \<noteq> 0xFFFFFFFFFFFFFFFF - 1" "EncodeDouble x \<noteq> 0"
      using u neg(5) x by (auto simp: word_unat_eq_iff)
    moreover have "EncodeDouble x AND push_bit 63 1 = 0" using sign_bit_64(1) [of "EncodeDouble x"] u neg(5) by simp
    ultimately show ?thesis using neg e by (simp add: DecodeDouble_def)
  qed
qed

lemma DecodeData_EncodeData:
  assumes "fixed_fits v"
  shows "DecodeData (fixed_type_of v) (EncodeData v @ r) = canonical v"
proof (cases v)
  case (Int16V a)
  then show ?thesis using Decode_Encode(1) [of a r] by (simp add: flip_first_twice canonical_def)
next
  case (IntervalV i)
  have d: "drop 4 (flip_first (Encode_uint32 a) @ s) = s" for a s by simp
  have "drop 8 (flip_first (Encode_uint32 a) @ flip_first (Encode_uint32 b) @ s) = s" for a b s by simp
  then show ?thesis using IntervalV assms d by (simp add: flip_first_twice canonical_def fixed_fits_def sint_of_int)
qed (simp_all add: flip_first_twice canonical_def DecodeFloat_EncodeFloat DecodeDouble_EncodeDouble)

section \<open>Keys of the adaptive radix tree\<close>

text \<open>A key is the array of its bytes.\<close>

type_synonym ARTKey = "uint8_t list"

definition VerifyKeyLength :: "ARTKey \<Rightarrow> nat \<Rightarrow> unit result" where
  "VerifyKeyLength key max_len =
     (if length key > max_len then Inl (InvalidInputException ''key size of %d bytes exceeds the maximum size of %d bytes for this ART'')
      else Inr ())"

fun escape_bytes :: "uint8_t list \<Rightarrow> uint8_t list" where
  "escape_bytes [] = []"
| "escape_bytes (b # bs) = (if b \<le> 1 then [1, b] else [b]) @ escape_bytes bs"

definition CreateARTKey_string :: "uint8_t list \<Rightarrow> ARTKey" where
  "CreateARTKey_string value = escape_bytes value @ [0]"

datatype key_value = FixedKey fixed_value | VarcharKey "uint8_t list"

definition CreateARTKey :: "key_value \<Rightarrow> ARTKey" where
  "CreateARTKey value = (case value of FixedKey v \<Rightarrow> EncodeData v | VarcharKey s \<Rightarrow> CreateARTKey_string s)"

datatype key_type = FixedKeyType fixed_type | VarcharKeyType

fun key_type_of :: "key_value \<Rightarrow> key_type" where
  "key_type_of (FixedKey v) = FixedKeyType (fixed_type_of v)"
| "key_type_of (VarcharKey s) = VarcharKeyType"

definition CreateKey :: "key_type \<Rightarrow> key_value \<Rightarrow> ARTKey result" where
  "CreateKey type value =
     (if type = FixedKeyType INTERVAL then Inl (InternalException ''Invalid type for the ART key.'')
      else Inr (CreateARTKey value))"

fun key_greater :: "ARTKey \<Rightarrow> ARTKey \<Rightarrow> bool" where
  "key_greater (a # data) (b # key_data) =
     (if a > b then True else if a < b then False else key_greater data key_data)"
| "key_greater data key_data \<longleftrightarrow> length data > length key_data"

fun key_greater_equal :: "ARTKey \<Rightarrow> ARTKey \<Rightarrow> bool" where
  "key_greater_equal (a # data) (b # key_data) =
     (if a > b then True else if a < b then False else key_greater_equal data key_data)"
| "key_greater_equal data key_data \<longleftrightarrow> length data \<ge> length key_data"

fun bytes_equal :: "ARTKey \<Rightarrow> ARTKey \<Rightarrow> bool" where
  "bytes_equal (a # data) (b # key_data) = (if a \<noteq> b then False else bytes_equal data key_data)"
| "bytes_equal data key_data = True"

definition key_equal :: "ARTKey \<Rightarrow> ARTKey \<Rightarrow> bool" where
  "key_equal data key_data = (if length data \<noteq> length key_data then False else bytes_equal data key_data)"

definition Concat :: "ARTKey \<Rightarrow> ARTKey \<Rightarrow> ARTKey" where
  "Concat data other = data @ other"

definition GetRowId :: "ARTKey \<Rightarrow> 64 word" where
  "GetRowId data = (case DecodeData INT64 data of Int64V row_id \<Rightarrow> row_id | _ \<Rightarrow> 0)"

text \<open>The search runs to the end of the other key; a read past the end of this one is \<open>None\<close>.\<close>

function GetMismatchPos :: "ARTKey \<Rightarrow> ARTKey \<Rightarrow> nat \<Rightarrow> nat result option" where
  "GetMismatchPos data other i =
     (if i < length other then
        if length data \<le> i then None
        else if data ! i \<noteq> other ! i then Some (Inr i)
        else GetMismatchPos data other (i + 1)
      else Some (Inl (FatalException ''Corrupted ART index - likely the same row id was inserted twice into the same ART'')))"
  by pat_completeness auto
termination
  by (relation "measure (\<lambda>(data, other, i). length other - i)") auto

declare GetMismatchPos.simps [simp del]

text \<open>
  The key of a row of the index (a null is \<open>None\<close>): the keys of its columns are concatenated, and a null in any
  column leaves the empty key, which every later column keeps. With \<open>is_not_null\<close> the nulls are not looked for.
\<close>

definition TemplatedGenerateKeys :: "key_value option \<Rightarrow> ARTKey" where
  "TemplatedGenerateKeys value = (case value of None \<Rightarrow> [] | Some v \<Rightarrow> CreateARTKey v)"

definition ConcatenateKeys :: "bool \<Rightarrow> key_value option \<Rightarrow> ARTKey \<Rightarrow> ARTKey" where
  "ConcatenateKeys is_not_null value key =
     (if \<not> is_not_null \<and> key = [] then key
      else case value of None \<Rightarrow> [] | Some v \<Rightarrow> Concat key (CreateARTKey v))"

fun concatenate_loop :: "bool \<Rightarrow> key_type list \<Rightarrow> key_value option list \<Rightarrow> ARTKey \<Rightarrow> ARTKey result" where
  "concatenate_loop is_not_null (t # ts) (v # vs) key =
     (if t = FixedKeyType INTERVAL then Inl (InternalException ''Invalid type for index'')
      else concatenate_loop is_not_null ts vs (ConcatenateKeys is_not_null v key))"
| "concatenate_loop is_not_null _ _ key = Inr key"

fun GenerateKeysInternal :: "bool \<Rightarrow> key_type list \<Rightarrow> key_value option list \<Rightarrow> ARTKey result" where
  "GenerateKeysInternal is_not_null (t # ts) (v # vs) =
     (if t = FixedKeyType INTERVAL then Inl (InternalException ''Invalid type for index'')
      else concatenate_loop is_not_null ts vs (TemplatedGenerateKeys v))"
| "GenerateKeysInternal is_not_null _ _ = Inr []"

definition MAX_KEY_LEN :: nat where "MAX_KEY_LEN = 8192"

definition GenerateKeys :: "bool \<Rightarrow> bool \<Rightarrow> nat \<Rightarrow> key_type list \<Rightarrow> key_value option list \<Rightarrow> ARTKey result" where
  "GenerateKeys is_not_null verify_max_key_len prefix_count types row =
     (case GenerateKeysInternal is_not_null types row of
        Inl e \<Rightarrow> Inl e
      | Inr key \<Rightarrow>
          if \<not> verify_max_key_len then Inr key
          else case VerifyKeyLength key (MAX_KEY_LEN * prefix_count) of Inl e \<Rightarrow> Inl e | Inr _ \<Rightarrow> Inr key)"

section \<open>The order of keys\<close>

fun compare_bytes :: "uint8_t list \<Rightarrow> uint8_t list \<Rightarrow> int" where
  "compare_bytes (a # xs) (b # ys) = (if a < b then - 1 else if b < a then 1 else compare_bytes xs ys)"
| "compare_bytes xs ys = (if length xs < length ys then - 1 else if length ys < length xs then 1 else 0)"

lemma escape_order: "decides (compare_bytes xs ys) (escape_bytes xs @ [0]) (escape_bytes ys @ [0])"
proof (induction xs ys rule: compare_bytes.induct [case_names both left right])
  case (both a xs b ys)
  have le: "c \<le> 1 \<longleftrightarrow> c = 0 \<or> c = 1" for c :: uint8_t
    by (auto simp: word_le_nat_alt word_unat_eq_iff)
  consider "a = b" | (less) "a < b" | (greater) "b < a" by (meson linorder_less_linear)
  then show ?case
  proof cases
    case 1
    then show ?thesis using both.IH decides_Cons by simp
  next
    case less
    show ?thesis
    proof (cases "a \<le> 1 \<and> b \<le> 1")
      case True
      then have "a = 0" "b = 1" using less le by auto
      then show ?thesis using decides_Cons [OF decides_first [of 0 1]] by simp
    next
      case False
      then have b: "\<not> b \<le> 1" using less by auto
      then have "(if a \<le> 1 then 1 else a) < b" using less by (simp add: not_le)
      then have "decides (- 1) ((if a \<le> 1 then 1 else a) # us) (b # vs)" for us vs by (intro decidesI [where p = "[]"]) simp_all
      then show ?thesis using less b by (cases "a \<le> 1") (simp_all split: if_splits)
    qed
  next
    case greater
    show ?thesis
    proof (cases "a \<le> 1 \<and> b \<le> 1")
      case True
      then have "b = 0" "a = 1" using greater le by auto
      then show ?thesis using decides_Cons [OF decides_first [of 1 0]] by simp
    next
      case False
      then have a: "\<not> a \<le> 1" using greater by auto
      then have "(if b \<le> 1 then 1 else b) < a" using greater by (simp add: not_le)
      then have "decides 1 (a # us) ((if b \<le> 1 then 1 else b) # vs)" for us vs by (intro decidesI [where p = "[]"]) simp_all
      moreover have "\<not> a < b" using greater by simp
      ultimately show ?thesis using greater a by (cases "b \<le> 1") simp_all
    qed
  qed
next
  case (left ys)
  show ?case
  proof (cases ys)
    case (Cons b bs)
    have "(0 :: uint8_t) < (if b \<le> 1 then 1 else b)" by (auto simp: word_gt_0)
    then show ?thesis using Cons decides_first [of 0 "if b \<le> 1 then 1 else b"] by (cases "b \<le> 1") auto
  qed (simp add: decides_same)
next
  case (right xs)
  show ?case
  proof (cases xs)
    case (Cons b bs)
    have "(0 :: uint8_t) < (if b \<le> 1 then 1 else b)" by (auto simp: word_gt_0)
    then show ?thesis using Cons decides_first [of "if b \<le> 1 then 1 else b" 0] by (cases "b \<le> 1") auto
  qed (simp add: decides_same)
qed

fun key_compare :: "key_value \<Rightarrow> key_value \<Rightarrow> int" where
  "key_compare (FixedKey v) (FixedKey w) = fixed_compare v w"
| "key_compare (VarcharKey s) (VarcharKey t) = compare_bytes s t"
| "key_compare _ _ = 0"

fun compare_rows :: "key_value list \<Rightarrow> key_value list \<Rightarrow> int" where
  "compare_rows (v # vs) (w # ws) = first_of (key_compare v w) (compare_rows vs ws)"
| "compare_rows vs ws = 0"

lemma CreateARTKey_order:
  assumes "key_type_of v = key_type_of w" "key_type_of v \<noteq> FixedKeyType INTERVAL"
  shows "decides (key_compare v w) (CreateARTKey v) (CreateARTKey w)"
proof (cases v)
  case (FixedKey x)
  then obtain y where y: "w = FixedKey y" "fixed_type_of x = fixed_type_of y" using assms(1) by (cases w) auto
  have "fixed_type_of x \<noteq> INTERVAL" using assms(2) FixedKey by simp
  then have "fixed_fits x" "fixed_fits y" using y(2) by (cases x; cases y; simp add: fixed_fits_def)+
  then show ?thesis using EncodeData_order [of x y] y FixedKey by (simp add: CreateARTKey_def)
next
  case (VarcharKey s)
  then obtain t where "w = VarcharKey t" using assms(1) by (cases w) auto
  then show ?thesis using VarcharKey escape_order [of s t] by (simp add: CreateARTKey_def CreateARTKey_string_def)
qed

lemma CreateARTKey_nonempty [simp]: "CreateARTKey v \<noteq> []"
proof -
  have "EncodeData x \<noteq> []" for x
  proof
    assume "EncodeData x = []"
    then have "GetTypeIdSize (fixed_type_of x) = 0" using length_EncodeData [of x] by simp
    then show False by (cases "fixed_type_of x") simp_all
  qed
  then show ?thesis by (cases v) (simp_all add: CreateARTKey_def CreateARTKey_string_def)
qed

text \<open>The loop over the columns is the concatenation of their keys, or the empty key.\<close>

definition row_key :: "key_value option list \<Rightarrow> ARTKey" where
  "row_key row = (if None \<in> set row then [] else concat (map (CreateARTKey \<circ> the) row))"

lemma concatenate_empty:
  "concatenate_loop False ts vs [] = Inr k \<Longrightarrow> k = []"
  by (induction ts arbitrary: vs) (auto simp: ConcatenateKeys_def neq_Nil_conv split: if_splits elim: concatenate_loop.elims)

lemma concatenate_key:
  "length ts = length vs \<Longrightarrow> concatenate_loop is_not_null ts vs key = Inr k \<Longrightarrow> key \<noteq> [] \<Longrightarrow> is_not_null \<longrightarrow> None \<notin> set vs \<Longrightarrow>
   k = (if None \<in> set vs then [] else key @ row_key vs)"
proof (induction ts vs arbitrary: key rule: list_induct2)
  case Nil
  then show ?case by (simp add: row_key_def)
next
  case (Cons t ts v vs)
  show ?case
  proof (cases v)
    case None
    then show ?thesis using Cons.prems concatenate_empty [of ts vs k] by (simp add: ConcatenateKeys_def split: if_splits)
  next
    case (Some x)
    then have "k = (if None \<in> set vs then [] else (key @ CreateARTKey x) @ row_key vs)"
      using Cons.prems by (intro Cons.IH) (simp_all add: ConcatenateKeys_def Concat_def split: if_splits)
    then show ?thesis using Some by (simp add: row_key_def)
  qed
qed

lemma generated_key:
  assumes "length types = length row" "GenerateKeys is_not_null verify n types row = Inr k" "is_not_null \<longrightarrow> None \<notin> set row"
  shows "k = row_key row"
proof -
  have k: "GenerateKeysInternal is_not_null types row = Inr k"
    using assms(2) by (auto simp: GenerateKeys_def split: sum.splits if_splits)
  show ?thesis
  proof (cases row)
    case Nil
    then show ?thesis using k assms(1) by (simp add: row_key_def)
  next
    case (Cons v vs)
    then obtain t ts where t: "types = t # ts" "length ts = length vs" using assms(1) by (cases types) auto
    show ?thesis
    proof (cases v)
      case None
      then show ?thesis using k t Cons assms(3) concatenate_empty [of ts vs k]
        by (auto simp: TemplatedGenerateKeys_def row_key_def split: if_splits)
    next
      case (Some x)
      then show ?thesis using concatenate_key [OF t(2), of is_not_null "CreateARTKey x" k] k t Cons assms(3)
        by (auto simp: TemplatedGenerateKeys_def row_key_def split: if_splits)
    qed
  qed
qed

lemma valid_types:
  assumes "GenerateKeys is_not_null verify n types row = Inr k" "length types = length row" "t \<in> set types"
  shows "t \<noteq> FixedKeyType INTERVAL"
proof -
  have loop: "length ts = length vs \<Longrightarrow> concatenate_loop is_not_null ts vs key = Inr k \<Longrightarrow> \<forall>t\<in>set ts. t \<noteq> FixedKeyType INTERVAL"
    for ts vs key by (induction ts vs arbitrary: key rule: list_induct2) (auto split: if_splits)
  have "GenerateKeysInternal is_not_null types row = Inr k"
    using assms(1) by (auto simp: GenerateKeys_def split: sum.splits if_splits)
  moreover obtain t' ts v vs where "types = t' # ts" "row = v # vs" "length ts = length vs"
    using assms(2,3) by (cases types; cases row) auto
  ultimately have "t' \<noteq> FixedKeyType INTERVAL" "concatenate_loop is_not_null ts vs (TemplatedGenerateKeys v) = Inr k"
    "t \<in> insert t' (set ts)" using assms(3) by (auto split: if_splits)
  then show ?thesis using loop [OF \<open>length ts = length vs\<close>] by blast
qed

definition row_typed :: "key_type list \<Rightarrow> key_value option list \<Rightarrow> bool" where
  "row_typed = list_all2 (\<lambda>t v. case v of None \<Rightarrow> True | Some x \<Rightarrow> key_type_of x = t)"

lemma row_typed_Cons:
  assumes "row_typed (t # ts) vs" "None \<notin> set vs"
  obtains v vs' where "vs = Some v # vs'" "key_type_of v = t" "row_typed ts vs'" "None \<notin> set vs'"
proof -
  obtain x vs' where "vs = x # vs'" using assms(1) by (cases vs) (auto simp: row_typed_def)
  moreover from this obtain v where "x = Some v" using assms(2) by (cases x) auto
  ultimately show thesis using assms that by (simp add: row_typed_def)
qed

lemma row_key_order:
  "row_typed types vs \<Longrightarrow> row_typed types ws \<Longrightarrow> FixedKeyType INTERVAL \<notin> set types \<Longrightarrow> None \<notin> set vs \<Longrightarrow> None \<notin> set ws \<Longrightarrow>
   decides (compare_rows (map the vs) (map the ws)) (row_key vs) (row_key ws)"
proof (induction types arbitrary: vs ws)
  case Nil
  then show ?case by (simp add: row_typed_def row_key_def)
next
  case (Cons t ts)
  obtain v vs' where v: "vs = Some v # vs'" "key_type_of v = t" "row_typed ts vs'" "None \<notin> set vs'"
    by (rule row_typed_Cons [OF Cons.prems(1,4)])
  obtain w ws' where w: "ws = Some w # ws'" "key_type_of w = t" "row_typed ts ws'" "None \<notin> set ws'"
    by (rule row_typed_Cons [OF Cons.prems(2,5)])
  have "decides (first_of (key_compare v w) (compare_rows (map the vs') (map the ws')))
      (CreateARTKey v @ row_key vs') (CreateARTKey w @ row_key ws')"
    using v w Cons.prems(3) by (intro decides_append CreateARTKey_order Cons.IH) auto
  then show ?case using v w by (simp add: row_key_def)
qed

lemma row_key_empty: "row \<noteq> [] \<Longrightarrow> row_key row = [] \<longleftrightarrow> None \<in> set row"
  by (cases row) (auto simp: row_key_def)

lemma keys_equal: "key_greater k k = False" "key_greater_equal k k" "key_equal k k"
proof -
  show "key_greater k k = False" by (induction k) auto
  show "key_greater_equal k k" by (induction k) auto
  have "bytes_equal k k" by (induction k) auto
  then show "key_equal k k" by (simp add: key_equal_def)
qed

lemma keys_differ:
  "a \<noteq> b \<Longrightarrow> key_greater (p @ a # xs) (p @ b # ys) \<longleftrightarrow> b < a"
  "a \<noteq> b \<Longrightarrow> key_greater_equal (p @ a # xs) (p @ b # ys) \<longleftrightarrow> b < a"
  "a \<noteq> b \<Longrightarrow> \<not> key_equal (p @ a # xs) (p @ b # ys)"
proof -
  assume ab: "a \<noteq> b"
  show "key_greater (p @ a # xs) (p @ b # ys) \<longleftrightarrow> b < a" using ab by (induction p) auto
  show "key_greater_equal (p @ a # xs) (p @ b # ys) \<longleftrightarrow> b < a" using ab by (induction p) auto
  have "\<not> bytes_equal (p @ a # xs) (p @ b # ys)" using ab by (induction p) auto
  then show "\<not> key_equal (p @ a # xs) (p @ b # ys)" by (simp add: key_equal_def)
qed

lemma keys_decide:
  assumes "decides c k l"
  shows "key_greater k l \<longleftrightarrow> 0 < c" "key_greater_equal k l \<longleftrightarrow> 0 \<le> c" "key_equal k l \<longleftrightarrow> c = 0"
proof -
  have "(key_greater k l \<longleftrightarrow> 0 < c) \<and> (key_greater_equal k l \<longleftrightarrow> 0 \<le> c) \<and> (key_equal k l \<longleftrightarrow> c = 0)"
  proof (cases "c = 0")
    case True
    then have "k = l" using assms by (simp add: decides_def)
    then show ?thesis using True keys_equal by simp
  next
    case False
    obtain p a b xs ys where d: "k = p @ a # xs" "l = p @ b # ys" "if c < 0 then a < b else b < a"
      by (rule decidesE [OF assms False])
    then have "a \<noteq> b" by (auto split: if_splits)
    then show ?thesis using d keys_differ [of a b p xs ys] False by (auto split: if_splits)
  qed
  then show "key_greater k l \<longleftrightarrow> 0 < c" "key_greater_equal k l \<longleftrightarrow> 0 \<le> c" "key_equal k l \<longleftrightarrow> c = 0" by blast+
qed

lemma decides_compare_bytes: "decides c k l \<Longrightarrow> compare_bytes k l = sgn c"
proof -
  assume d: "decides c k l"
  have "compare_bytes (p @ xs) (p @ ys) = compare_bytes xs ys" for p xs ys by (induction p) simp_all
  moreover have "compare_bytes k k = 0" by (induction k) simp_all
  moreover have False if "a < b" "b < a" for a b :: uint8_t using that by simp
  ultimately show ?thesis using d by (cases "c = 0") (auto simp: decides_def sgn_if elim!: decidesE split: if_splits)
qed

lemma GetRowId_key: "CreateKey (FixedKeyType INT64) (FixedKey (Int64V row_id)) = Inr k \<Longrightarrow> GetRowId k = row_id"
  using DecodeData_EncodeData [of "Int64V row_id" "[]"] by (auto simp: CreateKey_def CreateARTKey_def GetRowId_def fixed_fits_def canonical_def)

text \<open>Of keys neither of which is a prefix of the other the search finds the first difference.\<close>

lemma mismatch_found:
  assumes "k = p @ a # xs" "l = p @ b # ys" "a \<noteq> b"
  shows "i \<le> length p \<Longrightarrow> GetMismatchPos k l i = Some (Inr (length p))"
proof (induction "length p - i" arbitrary: i)
  case 0
  then have i: "i = length p" by simp
  show ?case unfolding i assms(1,2) using assms(3) by (subst GetMismatchPos.simps) simp
next
  case (Suc n)
  then have "i < length p" by simp
  then have "k ! i = l ! i" "i < length k" "i < length l" using assms by (simp_all add: nth_append)
  then show ?case using Suc(1) [of "i + 1"] Suc(2) \<open>i < length p\<close> by (subst GetMismatchPos.simps) simp
qed

text \<open>
  C13. The keys of an index are ordered as the rows they are made of: for rows of the types of the index
  (integers of every width, floating point numbers with one greatest value for what is no number, texts of any
  bytes, zero bytes included) whose keys are generated, a row has the empty key exactly if it has a null, and two rows
  without one have keys that compare, with each of the three operators of a key, as the rows compare column
  by column. Two such rows have the same key exactly if they compare equal.
\<close>

theorem art_keys_ordered:
  assumes "row_typed types vs" "row_typed types ws" "types \<noteq> []"
    "GenerateKeys False verify n types vs = Inr k" "GenerateKeys False verify n types ws = Inr l"
  shows "(k = []) = (None \<in> set vs) \<and>
    (k \<noteq> [] \<longrightarrow> l \<noteq> [] \<longrightarrow>
       key_greater k l = (0 < compare_rows (map the vs) (map the ws)) \<and>
       key_greater_equal k l = (0 \<le> compare_rows (map the vs) (map the ws)) \<and>
       key_equal k l = (compare_rows (map the vs) (map the ws) = 0))"
proof -
  have len: "length types = length vs" "length types = length ws"
    using assms(1,2) unfolding row_typed_def by (blast dest: list_all2_lengthD)+
  have ne: "vs \<noteq> []" "ws \<noteq> []" using len assms(3) by auto
  have kl: "k = row_key vs" "l = row_key ws"
    using generated_key [OF len(1) assms(4)] generated_key [OF len(2) assms(5)] by simp_all
  have valid: "FixedKeyType INTERVAL \<notin> set types" using valid_types [OF assms(4) len(1)] by blast
  show ?thesis
    unfolding kl row_key_empty [OF ne(1)] row_key_empty [OF ne(2)]
    using keys_decide [OF row_key_order [OF assms(1,2) valid]] by blast
qed

theorem art_keys_ordered_witness:
  "\<exists>k l. GenerateKeys False True 1 [VarcharKeyType, FixedKeyType INT32] [Some (VarcharKey [97]), Some (FixedKey (Int32V 5))] = Inr k \<and>
     GenerateKeys False True 1 [VarcharKeyType, FixedKeyType INT32] [Some (VarcharKey [97, 0]), Some (FixedKey (Int32V 3))] = Inr l \<and>
     key_greater l k \<and> k \<noteq> []"
proof -
  let ?t = "[VarcharKeyType, FixedKeyType INT32]"
  let ?v = "[Some (VarcharKey [97]), Some (FixedKey (Int32V 5))]" and ?w = "[Some (VarcharKey [97, 0]), Some (FixedKey (Int32V 3))]"
  define k where "k = [97, 0, 0x80, 0, 0, 5 :: uint8_t]"
  define l where "l = [97, 1, 0, 0, 0x80, 0, 0, 3 :: uint8_t]"
  note eval = GenerateKeys_def TemplatedGenerateKeys_def ConcatenateKeys_def CreateARTKey_def CreateARTKey_string_def Concat_def
    VerifyKeyLength_def MAX_KEY_LEN_def Encode_bytes write_le_bytes upt_bytes FlipSign_def word_le_nat_alt
  have k: "GenerateKeys False True 1 ?t ?v = Inr k" by (simp add: k_def eval)
  have l: "GenerateKeys False True 1 ?t ?w = Inr l" by (simp add: l_def eval)
  have typed: "row_typed ?t ?v" "row_typed ?t ?w" by (simp_all add: row_typed_def)
  have "(l = []) = (None \<in> set ?w) \<and> (l \<noteq> [] \<longrightarrow> k \<noteq> [] \<longrightarrow>
      key_greater l k = (0 < compare_rows (map the ?w) (map the ?v)) \<and> key_greater_equal l k = (0 \<le> compare_rows (map the ?w) (map the ?v)) \<and>
      key_equal l k = (compare_rows (map the ?w) (map the ?v) = 0))"
    by (rule art_keys_ordered [OF typed(2,1) _ l k]) simp
  moreover have "0 < compare_rows (map the ?w) (map the ?v)" by (simp add: first_of_def)
  moreover have "k \<noteq> []" "l \<noteq> []" by (simp_all add: k_def l_def)
  ultimately show ?thesis using k l by blast
qed

text \<open>
  C32. Decoding gives the encoded value back, whatever follows it, for every type: zero loses its sign, and
  what is no number becomes the one quiet pattern.
\<close>

theorem radix_roundtrip:
  assumes "fixed_fits v"
  shows "DecodeData (fixed_type_of v) (EncodeData v @ rest) = canonical v"
  by (rule DecodeData_EncodeData [OF assms])

theorem radix_roundtrip_witness:
  "DecodeData DOUBLE (EncodeData (DoubleV 0xC004000000000000) @ [1, 2]) = DoubleV 0xC004000000000000"
proof -
  have "canonical (DoubleV 0xC004000000000000) = DoubleV 0xC004000000000000" by code_simp
  then show ?thesis using radix_roundtrip [of "DoubleV 0xC004000000000000" "[1, 2]"] by (simp add: fixed_fits_def)
qed

end
