(* ===== verification/Sort_Key.thy ===== *)
theory Sort_Key
  imports Radix_Key "HOL-Library.Sublist"
begin

text \<open>
  \<open>create_sort_key\<close> and \<open>decode_sort_key\<close> (\<open>function/scalar/create_sort_key.cpp\<close>): one byte string, or one BIGINT,
  that sorts as a row of columns does under ASC or DESC and NULLS FIRST or LAST, for texts, blobs, structs,
  lists and arrays as well as the types of a fixed size.

  The model takes one row at a time; the vectors that the code walks column by column, with an offset into each
  key, are the rows of \<open>sort_value\<close>, and the operators that the code passes as template parameters are
  instances of the locales \<open>order_encoding\<close> and \<open>sort_key_operator\<close>. Decoding is on arbitrary bytes, with a read past
  the end as a value. The reference is \<open>row_compare\<close>, a comparison of rows that knows nothing of bytes, and
  \<open>collated_row_compare\<close> on top of it for the collations that binding pushes (\<open>planner/collation_binding.cpp\<close>):
  intervals are normalised, times with an offset become integers, texts go through the functions of their collation.
\<close>

section \<open>Order modifiers\<close>

datatype OrderType = ASCENDING | DESCENDING

datatype OrderByNullType = NULLS_FIRST | NULLS_LAST

record OrderModifiers =
  order_type :: OrderType
  null_type :: OrderByNullType

definition OrderModifiers_Parse :: "string \<Rightarrow> OrderModifiers result" where
  "OrderModifiers_Parse val =
     (let lcase = map (\<lambda>c. if c = CHR ''_'' then CHR '' '' else c) (map CharacterToLower val) in
      let order = (if prefix ''asc'' lcase then Some ASCENDING else if prefix ''desc'' lcase then Some DESCENDING else None);
        nulls = (if suffix ''nulls first'' lcase then Some NULLS_FIRST
                 else if suffix ''nulls last'' lcase then Some NULLS_LAST else None)
      in case order of
           None \<Rightarrow> Inl (BinderException ''create_sort_key modifier must start with either ASC or DESC'')
         | Some ot \<Rightarrow>
             (case nulls of
                None \<Rightarrow> Inl (BinderException ''create_sort_key modifier must end with either NULLS FIRST or NULLS LAST'')
              | Some nt \<Rightarrow> Inr \<lparr>order_type = ot, null_type = nt\<rparr>))"

section \<open>Values and their types\<close>

text \<open>
  One row of a vector. The children of a struct and of an array are there also where the struct or the array is
  null (the flag says that it is not); a null list has no entry.
\<close>

datatype sort_type =
    FixedT fixed_type | VarcharT | BlobT | StructT "sort_type list" | ListT sort_type | ArrayT sort_type nat

datatype sort_value =
    NullV
  | FixedV fixed_value
  | VarcharV "uint8_t list"
  | BlobV "uint8_t list"
  | StructV bool "sort_value list"
  | ListV "sort_value list"
  | ArrayV bool "sort_value list"

section \<open>Construction\<close>

definition NULL_FIRST_BYTE :: uint8_t where "NULL_FIRST_BYTE = 1"
definition NULL_LAST_BYTE :: uint8_t where "NULL_LAST_BYTE = 2"
definition STRING_DELIMITER :: uint8_t where "STRING_DELIMITER = 0"
definition LIST_DELIMITER :: uint8_t where "LIST_DELIMITER = 0"
definition BLOB_ESCAPE_CHARACTER :: uint8_t where "BLOB_ESCAPE_CHARACTER = 1"

definition null_byte :: "OrderModifiers \<Rightarrow> uint8_t" where
  "null_byte m = (if null_type m = NULLS_LAST then NULL_LAST_BYTE else NULL_FIRST_BYTE)"

definition valid_byte :: "OrderModifiers \<Rightarrow> uint8_t" where
  "valid_byte m = (if null_type m = NULLS_LAST then NULL_FIRST_BYTE else NULL_LAST_BYTE)"

definition child_modifiers :: "OrderModifiers \<Rightarrow> OrderModifiers" where
  "child_modifiers m =
     \<lparr>order_type = order_type m, null_type = (if order_type m = ASCENDING then NULLS_LAST else NULLS_FIRST)\<rparr>"

definition flip_bytes :: "OrderModifiers \<Rightarrow> bool" where
  "flip_bytes m \<longleftrightarrow> order_type m = DESCENDING"

definition SortKeyVarchar_Encode :: "uint8_t list \<Rightarrow> uint8_t list" where
  "SortKeyVarchar_Encode input = map (\<lambda>b. b + 1) input @ [STRING_DELIMITER]"

fun blob_encode_loop :: "uint8_t list \<Rightarrow> uint8_t list" where
  "blob_encode_loop [] = []"
| "blob_encode_loop (b # input) = (if b \<le> 1 then [BLOB_ESCAPE_CHARACTER, b] else [b]) @ blob_encode_loop input"

definition SortKeyBlob_Encode :: "uint8_t list \<Rightarrow> uint8_t list" where
  "SortKeyBlob_Encode input = blob_encode_loop input @ [STRING_DELIMITER]"

definition TemplatedConstructSortKey :: "OrderModifiers \<Rightarrow> uint8_t list \<Rightarrow> uint8_t list" where
  "TemplatedConstructSortKey m encoded = valid_byte m # (if flip_bytes m then map NOT encoded else encoded)"

definition list_delimiter :: "OrderModifiers \<Rightarrow> uint8_t" where
  "list_delimiter m = (if flip_bytes m then NOT LIST_DELIMITER else LIST_DELIMITER)"

fun ConstructSortKeyRecursive :: "OrderModifiers \<Rightarrow> sort_value \<Rightarrow> uint8_t list" where
  "ConstructSortKeyRecursive m NullV = [null_byte m]"
| "ConstructSortKeyRecursive m (FixedV v) = TemplatedConstructSortKey m (EncodeData v)"
| "ConstructSortKeyRecursive m (VarcharV s) = TemplatedConstructSortKey m (SortKeyVarchar_Encode s)"
| "ConstructSortKeyRecursive m (BlobV s) = TemplatedConstructSortKey m (SortKeyBlob_Encode s)"
| "ConstructSortKeyRecursive m (StructV ok children) =
     (if ok then valid_byte m else null_byte m) # concat (map (ConstructSortKeyRecursive (child_modifiers m)) children)"
| "ConstructSortKeyRecursive m (ListV children) =
     valid_byte m # concat (map (ConstructSortKeyRecursive (child_modifiers m)) children) @ [list_delimiter m]"
| "ConstructSortKeyRecursive m (ArrayV ok children) =
     (if ok then valid_byte m else null_byte m) # concat (map (ConstructSortKeyRecursive (child_modifiers m)) children) @
     [list_delimiter m]"

text \<open>The length that is computed first, to allocate the key.\<close>

fun GetSortKeyLengthRecursive :: "sort_value \<Rightarrow> nat" where
  "GetSortKeyLengthRecursive NullV = 1"
| "GetSortKeyLengthRecursive (FixedV v) = 1 + GetTypeIdSize (fixed_type_of v)"
| "GetSortKeyLengthRecursive (VarcharV s) = 1 + (length s + 1)"
| "GetSortKeyLengthRecursive (BlobV s) = 1 + (length s + length (filter (\<lambda>b. b \<le> 1) s) + 1)"
| "GetSortKeyLengthRecursive (StructV ok children) = 1 + sum_list (map GetSortKeyLengthRecursive children)"
| "GetSortKeyLengthRecursive (ListV children) = 1 + (1 + sum_list (map GetSortKeyLengthRecursive children))"
| "GetSortKeyLengthRecursive (ArrayV ok children) = 1 + (1 + sum_list (map GetSortKeyLengthRecursive children))"

definition TypeIsConstantSize :: "sort_type \<Rightarrow> bool" where
  "TypeIsConstantSize t \<longleftrightarrow> (case t of FixedT _ \<Rightarrow> True | _ \<Rightarrow> False)"

definition GetSortKeyLength :: "sort_type \<Rightarrow> sort_value \<Rightarrow> nat" where
  "GetSortKeyLength t v = (case t of FixedT f \<Rightarrow> 1 + GetTypeIdSize f | _ \<Rightarrow> GetSortKeyLengthRecursive v)"

text \<open>A row of several columns, each with its modifiers.\<close>

definition CreateSortKeyInternal :: "OrderModifiers list \<Rightarrow> sort_value list \<Rightarrow> uint8_t list" where
  "CreateSortKeyInternal modifiers row = concat (map2 ConstructSortKeyRecursive modifiers row)"

text \<open>
  Columns of constant size whose keys fit into eight bytes give an integer: the bytes are written into a zero
  integer, which is then swapped.
\<close>

fun constant_size :: "sort_type list \<Rightarrow> nat" where
  "constant_size [] = 0"
| "constant_size (FixedT t # ts) = GetTypeIdSize t + 1 + constant_size ts"
| "constant_size (_ # ts) = constant_size ts"

definition key_is_bigint :: "sort_type list \<Rightarrow> bool" where
  "key_is_bigint ts \<longleftrightarrow> (\<forall>t\<in>set ts. TypeIsConstantSize t) \<and> constant_size ts \<le> 8"

definition FinalizeSortData_bigint :: "uint8_t list \<Rightarrow> 64 word" where
  "FinalizeSortData_bigint key = BSWAP64 (word_of_nat (le_value (key @ replicate (8 - length key) 0)))"

section \<open>Decoding\<close>

text \<open>
  A decoder takes the bytes from the current position and gives the value and the bytes after it; a read past
  the end of the key is \<open>None\<close>.
\<close>

type_synonym 'a decoded = "('a \<times> uint8_t list) result option"

definition SortKeyConstant_Decode :: "fixed_type \<Rightarrow> bool \<Rightarrow> uint8_t list \<Rightarrow> sort_value decoded" where
  "SortKeyConstant_Decode t flip input =
     (if length input < GetTypeIdSize t then None
      else Some (Inr (FixedV (DecodeData t (if flip then map NOT (take (GetTypeIdSize t) input) else input)),
                      drop (GetTypeIdSize t) input)))"

definition SortKeyVarchar_Decode :: "bool \<Rightarrow> uint8_t list \<Rightarrow> sort_value decoded" where
  "SortKeyVarchar_Decode flip input =
     (let string_delimiter = (if flip then NOT STRING_DELIMITER else STRING_DELIMITER);
        str = takeWhile (\<lambda>b. b \<noteq> string_delimiter) input;
        rest = dropWhile (\<lambda>b. b \<noteq> string_delimiter) input
      in if rest = [] then None
         else Some (Inr (VarcharV (map (\<lambda>b. if flip then NOT b - 1 else b - 1) str), tl rest)))"

text \<open>The scan for the delimiter and the copy of the bytes before it are one pass.\<close>

fun blob_decode_loop :: "bool \<Rightarrow> uint8_t list \<Rightarrow> (uint8_t list \<times> uint8_t list) option" where
  "blob_decode_loop flip [] = None"
| "blob_decode_loop flip (b # input) =
     (let string_delimiter = (if flip then NOT STRING_DELIMITER else STRING_DELIMITER);
        escape_character = (if flip then NOT BLOB_ESCAPE_CHARACTER else BLOB_ESCAPE_CHARACTER);
        copy = (\<lambda>c. if flip then NOT c else c)
      in if b = string_delimiter then Some ([], input)
         else if b = escape_character then
           (case input of [] \<Rightarrow> None | c # input' \<Rightarrow> map_option (apfst ((#) (copy c))) (blob_decode_loop flip input'))
         else map_option (apfst ((#) (copy b))) (blob_decode_loop flip input))"

definition SortKeyBlob_Decode :: "bool \<Rightarrow> uint8_t list \<Rightarrow> sort_value decoded" where
  "SortKeyBlob_Decode flip input = map_option (\<lambda>(s, rest). Inr (BlobV s, rest)) (blob_decode_loop flip input)"

definition TemplatedDecodeSortKey ::
  "OrderModifiers \<Rightarrow> (bool \<Rightarrow> uint8_t list \<Rightarrow> sort_value decoded) \<Rightarrow> uint8_t list \<Rightarrow> sort_value decoded" where
  "TemplatedDecodeSortKey m decode data =
     (case data of
        [] \<Rightarrow> None
      | validity_byte # rest \<Rightarrow> if validity_byte = null_byte m then Some (Inr (NullV, rest)) else decode (flip_bytes m) rest)"

fun decode_fields :: "(uint8_t list \<Rightarrow> sort_value decoded) list \<Rightarrow> uint8_t list \<Rightarrow> sort_value list decoded" where
  "decode_fields [] data = Some (Inr ([], data))"
| "decode_fields (decode # ds) data =
     (case decode data of
        None \<Rightarrow> None
      | Some (Inl e) \<Rightarrow> Some (Inl e)
      | Some (Inr (v, rest)) \<Rightarrow>
          (case decode_fields ds rest of
             None \<Rightarrow> None
           | Some (Inl e) \<Rightarrow> Some (Inl e)
           | Some (Inr (vs, rest')) \<Rightarrow> Some (Inr (v # vs, rest'))))"

text \<open>The loops until the list delimiter; each element takes at least one byte, so the bytes left bound them.\<close>

fun decode_list_loop ::
  "nat \<Rightarrow> (uint8_t list \<Rightarrow> sort_value decoded) \<Rightarrow> uint8_t \<Rightarrow> uint8_t list \<Rightarrow> sort_value list decoded" where
  "decode_list_loop 0 decode delimiter data = None"
| "decode_list_loop (Suc fuel) decode delimiter data =
     (case data of
        [] \<Rightarrow> None
      | b # rest0 \<Rightarrow>
          if b = delimiter then Some (Inr ([], rest0))
          else
            (case decode data of
               None \<Rightarrow> None
             | Some (Inl e) \<Rightarrow> Some (Inl e)
             | Some (Inr (v, rest)) \<Rightarrow>
                 (case decode_list_loop fuel decode delimiter rest of
                    None \<Rightarrow> None
                  | Some (Inl e) \<Rightarrow> Some (Inl e)
                  | Some (Inr (vs, rest')) \<Rightarrow> Some (Inr (v # vs, rest')))))"

definition array_error :: exn where
  "array_error = InvalidInputException ''Failed to decode array - found %d elements but expected %d''"

fun decode_array_loop ::
  "nat \<Rightarrow> (uint8_t list \<Rightarrow> sort_value decoded) \<Rightarrow> uint8_t \<Rightarrow> uint8_t list \<Rightarrow> sort_value list decoded" where
  "decode_array_loop 0 decode delimiter data =
     (case data of [] \<Rightarrow> None | b # rest \<Rightarrow> if b = delimiter then Some (Inr ([], rest)) else Some (Inl array_error))"
| "decode_array_loop (Suc missing) decode delimiter data =
     (case data of
        [] \<Rightarrow> None
      | b # rest0 \<Rightarrow>
          if b = delimiter then Some (Inl array_error)
          else
            (case decode data of
               None \<Rightarrow> None
             | Some (Inl e) \<Rightarrow> Some (Inl e)
             | Some (Inr (v, rest)) \<Rightarrow>
                 (case decode_array_loop missing decode delimiter rest of
                    None \<Rightarrow> None
                  | Some (Inl e) \<Rightarrow> Some (Inl e)
                  | Some (Inr (vs, rest')) \<Rightarrow> Some (Inr (v # vs, rest')))))"

fun DecodeSortKeyRecursive :: "sort_type \<Rightarrow> OrderModifiers \<Rightarrow> uint8_t list \<Rightarrow> sort_value decoded" where
  "DecodeSortKeyRecursive (FixedT t) m data = TemplatedDecodeSortKey m (SortKeyConstant_Decode t) data"
| "DecodeSortKeyRecursive VarcharT m data = TemplatedDecodeSortKey m SortKeyVarchar_Decode data"
| "DecodeSortKeyRecursive BlobT m data = TemplatedDecodeSortKey m SortKeyBlob_Decode data"
| "DecodeSortKeyRecursive (StructT ts) m data =
     (case data of
        [] \<Rightarrow> None
      | validity_byte # rest \<Rightarrow>
          (case decode_fields (map (\<lambda>t. DecodeSortKeyRecursive t (child_modifiers m)) ts) rest of
             None \<Rightarrow> None
           | Some (Inl e) \<Rightarrow> Some (Inl e)
           | Some (Inr (vs, rest')) \<Rightarrow> Some (Inr (StructV (validity_byte \<noteq> null_byte m) vs, rest'))))"
| "DecodeSortKeyRecursive (ListT t) m data =
     (case data of
        [] \<Rightarrow> None
      | validity_byte # rest \<Rightarrow>
          if validity_byte = null_byte m then Some (Inr (NullV, rest))
          else
            (case decode_list_loop (length rest) (DecodeSortKeyRecursive t (child_modifiers m)) (list_delimiter m) rest of
               None \<Rightarrow> None
             | Some (Inl e) \<Rightarrow> Some (Inl e)
             | Some (Inr (vs, rest')) \<Rightarrow> Some (Inr (ListV vs, rest'))))"
| "DecodeSortKeyRecursive (ArrayT t array_size) m data =
     (case data of
        [] \<Rightarrow> None
      | validity_byte # rest \<Rightarrow>
          (case decode_array_loop array_size (DecodeSortKeyRecursive t (child_modifiers m)) (list_delimiter m) rest of
             None \<Rightarrow> None
           | Some (Inl e) \<Rightarrow> Some (Inl e)
           | Some (Inr (vs, rest')) \<Rightarrow> Some (Inr (ArrayV (validity_byte \<noteq> null_byte m) vs, rest'))))"

definition DecodeSortKey :: "sort_type list \<Rightarrow> OrderModifiers list \<Rightarrow> uint8_t list \<Rightarrow> sort_value list decoded" where
  "DecodeSortKey types modifiers key = decode_fields (map2 DecodeSortKeyRecursive types modifiers) key"

text \<open>An integer key is swapped back into its eight bytes.\<close>

definition DecodeSortKey_bigint :: "sort_type list \<Rightarrow> OrderModifiers list \<Rightarrow> 64 word \<Rightarrow> sort_value list decoded" where
  "DecodeSortKey_bigint types modifiers key = DecodeSortKey types modifiers (write_le 8 (unat (BSWAP64 key)))"

section \<open>The order that a key stands for\<close>

text \<open>
  A type-correct row: the fields of intervals fit, texts are without the byte 255 (no UTF-8 text has it), the
  elements below a null struct or array are null, as the engine sets them.
\<close>

fun sort_null :: "sort_value \<Rightarrow> bool" where
  "sort_null NullV = True"
| "sort_null (StructV ok vs) = (\<not> ok)"
| "sort_null (ArrayV ok vs) = (\<not> ok)"
| "sort_null _ = False"

fun has_sort_type :: "sort_type \<Rightarrow> sort_value \<Rightarrow> bool" where
  "has_sort_type (FixedT t) (FixedV v) = (fixed_type_of v = t \<and> fixed_fits v)"
| "has_sort_type (FixedT t) NullV = True"
| "has_sort_type VarcharT (VarcharV s) = (255 \<notin> set s)"
| "has_sort_type VarcharT NullV = True"
| "has_sort_type BlobT (BlobV s) = True"
| "has_sort_type BlobT NullV = True"
| "has_sort_type (StructT ts) (StructV ok vs) =
     (list_all2 has_sort_type ts vs \<and> (ok \<or> list_all sort_null vs))"
| "has_sort_type (ListT t) (ListV vs) = list_all (has_sort_type t) vs"
| "has_sort_type (ListT t) NullV = True"
| "has_sort_type (ArrayT t n) (ArrayV ok vs) =
     (length vs = n \<and> list_all (has_sort_type t) vs \<and> (ok \<or> list_all sort_null vs))"
| "has_sort_type _ _ = False"

text \<open>Inside of a column: ascending, with null after every value; sequences element by element.\<close>

definition null_last :: "bool \<Rightarrow> bool \<Rightarrow> int" where
  "null_last v_null w_null = (if v_null = w_null then 0 else if v_null then 1 else - 1)"

fun sort_compare :: "sort_value \<Rightarrow> sort_value \<Rightarrow> int"
  and sort_compare_list :: "sort_value list \<Rightarrow> sort_value list \<Rightarrow> int" where
  "sort_compare (FixedV v) (FixedV w) = fixed_compare v w"
| "sort_compare (VarcharV s) (VarcharV t) = compare_bytes s t"
| "sort_compare (BlobV s) (BlobV t) = compare_bytes s t"
| "sort_compare (StructV a vs) (StructV b ws) = first_of (null_last (\<not> a) (\<not> b)) (sort_compare_list vs ws)"
| "sort_compare (ListV vs) (ListV ws) = sort_compare_list vs ws"
| "sort_compare (ArrayV a vs) (ArrayV b ws) = first_of (null_last (\<not> a) (\<not> b)) (sort_compare_list vs ws)"
| "sort_compare v w = null_last (sort_null v) (sort_null w)"
| "sort_compare_list [] [] = 0"
| "sort_compare_list [] (w # ws) = - 1"
| "sort_compare_list (v # vs) [] = 1"
| "sort_compare_list (v # vs) (w # ws) = first_of (sort_compare v w) (sort_compare_list vs ws)"

text \<open>A column: null first or last as asked, values in the direction asked.\<close>

definition directed :: "OrderModifiers \<Rightarrow> int \<Rightarrow> int" where
  "directed m c = (if flip_bytes m then - c else c)"

definition column_compare :: "OrderModifiers \<Rightarrow> sort_value \<Rightarrow> sort_value \<Rightarrow> int" where
  "column_compare m v w =
     (if sort_null v = sort_null w then if sort_null v then 0 else directed m (sort_compare v w)
      else if sort_null v = (null_type m = NULLS_FIRST) then - 1 else 1)"

fun row_compare :: "OrderModifiers list \<Rightarrow> sort_value list \<Rightarrow> sort_value list \<Rightarrow> int" where
  "row_compare (m # ms) (v # vs) (w # ws) = first_of (column_compare m v w) (row_compare ms vs ws)"
| "row_compare _ _ _ = 0"

section \<open>Keys decide the order\<close>

definition nested_modifiers :: "OrderModifiers \<Rightarrow> bool" where
  "nested_modifiers m \<longleftrightarrow> (null_type m = NULLS_LAST \<longleftrightarrow> order_type m = ASCENDING)"

lemma nested_child: "nested_modifiers (child_modifiers m)" "flip_bytes (child_modifiers m) = flip_bytes m"
  by (simp_all add: nested_modifiers_def child_modifiers_def flip_bytes_def)

lemma directed_first_of: "directed m (first_of c d) = first_of (directed m c) (directed m d)"
  by (simp add: directed_def first_of_def)

lemma directed_0 [simp]: "directed m 0 = 0"
  by (simp add: directed_def)

lemma directed_child: "directed (child_modifiers m) c = directed m c"
  by (simp add: directed_def nested_child)

lemma marker_bytes:
  "null_byte m \<noteq> valid_byte m" "null_byte m \<noteq> list_delimiter m" "valid_byte m \<noteq> list_delimiter m"
  by (simp_all add: null_byte_def valid_byte_def list_delimiter_def NULL_FIRST_BYTE_def NULL_LAST_BYTE_def LIST_DELIMITER_def)

lemma decides_flipped:
  "decides c xs ys \<Longrightarrow> decides (directed m c) (if flip_bytes m then map NOT xs else xs) (if flip_bytes m then map NOT ys else ys)"
  using decides_flip [of c xs ys] by (simp add: directed_def)

lemma decides_templated:
  "decides c xs ys \<Longrightarrow> decides (directed m c) (TemplatedConstructSortKey m xs) (TemplatedConstructSortKey m ys)"
  unfolding TemplatedConstructSortKey_def by (intro decides_Cons decides_flipped)

lemma byte_Suc: "u \<noteq> 255 \<Longrightarrow> unat (u + 1) = unat u + 1" for u :: uint8_t
proof -
  assume u: "u \<noteq> 255"
  have "unat u < 256" using unsigned_less [where 'a = nat, of u] by simp
  moreover have "unat u \<noteq> 255" using u by (simp add: word_unat_eq_iff)
  ultimately show ?thesis using unat_add_lem [of u 1] by simp
qed

lemma byte_Suc_less: "v \<noteq> 255 \<Longrightarrow> w \<noteq> 255 \<Longrightarrow> v + 1 < w + 1 \<longleftrightarrow> v < w" "v \<noteq> 255 \<Longrightarrow> 0 < v + 1" for v w :: uint8_t
  by (simp_all add: word_less_nat_alt byte_Suc)

lemma varchar_encode_order:
  "255 \<notin> set s \<Longrightarrow> 255 \<notin> set t \<Longrightarrow> decides (compare_bytes s t) (SortKeyVarchar_Encode s) (SortKeyVarchar_Encode t)"
  unfolding SortKeyVarchar_Encode_def STRING_DELIMITER_def
proof (induction s t rule: compare_bytes.induct [case_names both left right])
  case (both a xs b ys)
  have ab: "a + 1 < b + 1 \<longleftrightarrow> a < b" "b + 1 < a + 1 \<longleftrightarrow> b < a" using byte_Suc_less(1) [of a b] byte_Suc_less(1) [of b a] both(2,3) by auto
  consider (eq) "a = b" | (less) "a < b" | (greater) "b < a" by (meson linorder_less_linear)
  then show ?case
  proof cases
    case eq
    then show ?thesis using both decides_Cons by simp
  next
    case less
    then have "decides (- 1) ((a + 1) # us) ((b + 1) # vs)" for us vs
      using ab by (intro decidesI [where p = "[]" and a = "a + 1" and b = "b + 1"]) simp_all
    then show ?thesis using less by simp
  next
    case greater
    then have "decides 1 ((a + 1) # us) ((b + 1) # vs)" for us vs
      using ab by (intro decidesI [where p = "[]" and a = "a + 1" and b = "b + 1"]) simp_all
    moreover have "\<not> a < b" using greater by simp
    ultimately show ?thesis using greater by simp
  qed
next
  case (left ys)
  show ?case
  proof (cases ys)
    case (Cons b bs)
    then have "0 < b + 1" using left byte_Suc_less(2) [of b] by auto
    then have "decides (- 1) (0 # us) ((b + 1) # vs)" for us vs by (intro decidesI [where p = "[]"]) simp_all
    then show ?thesis using Cons by simp
  qed (simp add: decides_same)
next
  case (right xs)
  show ?case
  proof (cases xs)
    case (Cons b bs)
    then have "0 < b + 1" using right byte_Suc_less(2) [of b] by auto
    then have "decides 1 ((b + 1) # us) (0 # vs)" for us vs by (intro decidesI [where p = "[]"]) simp_all
    then show ?thesis using Cons by simp
  qed (simp add: decides_same)
qed

lemma blob_encode_order: "decides (compare_bytes s t) (SortKeyBlob_Encode s) (SortKeyBlob_Encode t)"
proof -
  have "blob_encode_loop s = escape_bytes s" for s by (induction s) (simp_all add: BLOB_ESCAPE_CHARACTER_def)
  then show ?thesis using escape_order [of s t] by (simp add: SortKeyBlob_Encode_def STRING_DELIMITER_def)
qed

text \<open>
  What the template of the keys asks of its operators (\<open>SortKeyConstantOperator\<close>, \<open>SortKeyVarcharOperator\<close>,
  \<open>SortKeyBlobOperator\<close>) for the order: the encodings of two values decide as the values compare.
\<close>

locale order_encoding =
  fixes encode :: "'a \<Rightarrow> uint8_t list"
    and fits :: "'a \<Rightarrow> bool"
    and compare_values :: "'a \<Rightarrow> 'a \<Rightarrow> int"
  assumes encode_order: "fits v \<Longrightarrow> fits w \<Longrightarrow> decides (compare_values v w) (encode v) (encode w)"
begin

lemma templated_order:
  "fits v \<Longrightarrow> fits w \<Longrightarrow>
   decides (directed m (compare_values v w)) (TemplatedConstructSortKey m (encode v)) (TemplatedConstructSortKey m (encode w))"
  by (rule decides_templated) (rule encode_order)

end

interpretation constant_order: order_encoding EncodeData "\<lambda>v. fixed_type_of v = t \<and> fixed_fits v" fixed_compare for t
  by unfold_locales (auto intro: EncodeData_order)

interpretation varchar_order: order_encoding SortKeyVarchar_Encode "\<lambda>s. 255 \<notin> set s" compare_bytes
  by unfold_locales (rule varchar_encode_order)

interpretation blob_order: order_encoding SortKeyBlob_Encode "\<lambda>s. True" compare_bytes
  by unfold_locales (rule blob_encode_order)

text \<open>The first byte of a key; in a nested column the three markers have the order of the column.\<close>

lemma construct_first: "\<exists>r. ConstructSortKeyRecursive m v = (if sort_null v then null_byte m else valid_byte m) # r"
  by (cases v) (simp_all add: TemplatedConstructSortKey_def)

lemma markers_decide:
  assumes "nested_modifiers m"
  shows "decides (directed m 1) (null_byte m # us) (valid_byte m # vs)"
    "decides (directed m (- 1)) (valid_byte m # us) (null_byte m # vs)"
    "decides (directed m (- 1)) (list_delimiter m # us) ((if n then null_byte m else valid_byte m) # vs)"
    "decides (directed m 1) ((if n then null_byte m else valid_byte m) # us) (list_delimiter m # vs)"
proof -
  have c: "(1 :: uint8_t) < 2" by (simp add: word_less_nat_alt)
  have less: "decides (- 1) (a # us) (b # vs)" "decides 1 (b # vs) (a # us)" if "a < b" for a b :: uint8_t and us vs
    using that by (intro decidesI [where p = "[]"]; simp)+
  consider (asc) "order_type m = ASCENDING" "null_type m = NULLS_LAST" | (desc) "order_type m = DESCENDING" "null_type m = NULLS_FIRST"
    using assms unfolding nested_modifiers_def by (cases "order_type m"; cases "null_type m") auto
  then have "decides (directed m 1) (null_byte m # us) (valid_byte m # vs) \<and>
    decides (directed m (- 1)) (valid_byte m # us) (null_byte m # vs) \<and>
    decides (directed m (- 1)) (list_delimiter m # us) ((if n then null_byte m else valid_byte m) # vs) \<and>
    decides (directed m 1) ((if n then null_byte m else valid_byte m) # us) (list_delimiter m # vs)"
  proof cases
    case asc
    then have "directed m d = d" "null_byte m = 2" "valid_byte m = 1" "list_delimiter m = 0" for d
      by (simp_all add: directed_def flip_bytes_def null_byte_def valid_byte_def list_delimiter_def
          NULL_FIRST_BYTE_def NULL_LAST_BYTE_def LIST_DELIMITER_def)
    then show ?thesis using c by (auto intro!: less simp: word_gt_0)
  next
    case desc
    then have "directed m d = - d" "null_byte m = 1" "valid_byte m = 2" "list_delimiter m = 255" for d
      by (simp_all add: directed_def flip_bytes_def null_byte_def valid_byte_def list_delimiter_def
          NULL_FIRST_BYTE_def NULL_LAST_BYTE_def LIST_DELIMITER_def)
    then show ?thesis using c by (auto intro!: less simp: word_less_nat_alt)
  qed
  then show "decides (directed m 1) (null_byte m # us) (valid_byte m # vs)"
    "decides (directed m (- 1)) (valid_byte m # us) (null_byte m # vs)"
    "decides (directed m (- 1)) (list_delimiter m # us) ((if n then null_byte m else valid_byte m) # vs)"
    "decides (directed m 1) ((if n then null_byte m else valid_byte m) # us) (list_delimiter m # vs)" by blast+
qed

lemma first_byte_order:
  assumes "nested_modifiers m" "sort_null v \<noteq> sort_null w"
  shows "decides (directed m (null_last (sort_null v) (sort_null w))) (ConstructSortKeyRecursive m v) (ConstructSortKeyRecursive m w)"
proof -
  obtain r where r: "ConstructSortKeyRecursive m v = (if sort_null v then null_byte m else valid_byte m) # r" using construct_first by blast
  obtain q where q: "ConstructSortKeyRecursive m w = (if sort_null w then null_byte m else valid_byte m) # q" using construct_first by blast
  show ?thesis unfolding r q null_last_def using assms(2) markers_decide(1,2) [OF assms(1)] by (cases "sort_null v") simp_all
qed

abbreviation construct_all :: "OrderModifiers \<Rightarrow> sort_value list \<Rightarrow> uint8_t list" where
  "construct_all m vs \<equiv> concat (map (ConstructSortKeyRecursive m) vs)"

text \<open>Values of one type are of one shape, or null.\<close>

fun shape :: "sort_value \<Rightarrow> nat" where
  "shape NullV = 0"
| "shape (FixedV _) = 1"
| "shape (VarcharV _) = 2"
| "shape (BlobV _) = 3"
| "shape (StructV _ _) = 4"
| "shape (ListV _) = 5"
| "shape (ArrayV _ _) = 6"

lemma same_shape: "has_sort_type t v \<Longrightarrow> has_sort_type t w \<Longrightarrow> shape v = shape w \<or> v = NullV \<or> w = NullV"
  by (cases t; cases v; cases w; simp)

lemma null_shapes:
  assumes "has_sort_type t NullV" "has_sort_type t w" "w \<noteq> NullV"
  shows "\<not> sort_null w" "sort_compare NullV w = 1" "sort_compare w NullV = - 1"
  using assms by (cases t; cases w; simp add: null_last_def)+

lemma default_order:
  assumes "has_sort_type t v" "has_sort_type t w" "nested_modifiers m" "shape v \<noteq> shape w \<or> v = NullV \<or> w = NullV"
  shows "decides (directed m (sort_compare v w)) (ConstructSortKeyRecursive m v) (ConstructSortKeyRecursive m w)"
proof -
  consider "v = NullV" "w = NullV" | (left) "v = NullV" "w \<noteq> NullV" | (right) "v \<noteq> NullV" "w = NullV"
    using same_shape [OF assms(1,2)] assms(4) by auto
  then show ?thesis
  proof cases
    case 1
    then show ?thesis by (simp add: null_last_def decides_same)
  next
    case left
    then show ?thesis using null_shapes [of t w] first_byte_order [OF assms(3), of v w] assms(1,2) by (simp add: null_last_def)
  next
    case right
    then show ?thesis using null_shapes [of t v] first_byte_order [OF assms(3), of v w] assms(1,2) by (simp add: null_last_def)
  qed
qed

lemma nested_order:
  "has_sort_type t v \<Longrightarrow> has_sort_type t w \<Longrightarrow> nested_modifiers m \<Longrightarrow>
     decides (directed m (sort_compare v w)) (ConstructSortKeyRecursive m v) (ConstructSortKeyRecursive m w)"
  "(list_all (has_sort_type t) vs \<longrightarrow> list_all (has_sort_type t) ws \<longrightarrow> nested_modifiers m \<longrightarrow>
     decides (directed m (sort_compare_list vs ws)) (construct_all m vs @ [list_delimiter m]) (construct_all m ws @ [list_delimiter m])) \<and>
   (list_all2 has_sort_type ts vs \<longrightarrow> list_all2 has_sort_type ts ws \<longrightarrow> nested_modifiers m \<longrightarrow>
     decides (directed m (sort_compare_list vs ws)) (construct_all m vs) (construct_all m ws))"
proof (induction v w and vs ws arbitrary: t m and t ts m rule: sort_compare_sort_compare_list.induct)
  case (1 v w)
  then obtain f where "t = FixedT f" by (cases t) auto
  then show ?case using 1 constant_order.templated_order [of v f w m] by simp
next
  case (2 s s')
  then have "t = VarcharT" by (cases t) auto
  then show ?case using 2 varchar_order.templated_order [of s s' m] by simp
next
  case (3 s s')
  show ?case using blob_order.templated_order [where v = s and w = s' and m = m] by simp
next
  case (4 a vs b ws)
  then obtain ts where t: "t = StructT ts" "list_all2 has_sort_type ts vs" "list_all2 has_sort_type ts ws" by (cases t) auto
  show ?case
  proof (cases "a = b")
    case True
    have "decides (directed (child_modifiers m) (sort_compare_list vs ws)) (construct_all (child_modifiers m) vs) (construct_all (child_modifiers m) ws)"
      by (rule 4(1) [THEN conjunct2, THEN mp, THEN mp, THEN mp, OF t(2,3) nested_child(1)])
    then show ?thesis using True by (auto simp: null_last_def first_of_def directed_child intro: decides_Cons)
  next
    case False
    then show ?thesis using first_byte_order [OF 4(4), of "StructV a vs" "StructV b ws"]
      by (cases a; cases b) (simp_all add: null_last_def first_of_def)
  qed
next
  case (5 vs ws)
  then obtain e where t: "t = ListT e" "list_all (has_sort_type e) vs" "list_all (has_sort_type e) ws" by (cases t) auto
  have "list_delimiter (child_modifiers m) = list_delimiter m" by (simp add: list_delimiter_def nested_child)
  then have "decides (directed m (sort_compare_list vs ws)) (construct_all (child_modifiers m) vs @ [list_delimiter m])
      (construct_all (child_modifiers m) ws @ [list_delimiter m])"
    using 5(1) [THEN conjunct1, THEN mp, THEN mp, THEN mp, OF t(2,3) nested_child(1) [of m]] by (simp add: directed_child)
  then show ?case by (simp add: decides_Cons)
next
  case (6 a vs b ws)
  then obtain e n where t: "t = ArrayT e n" "list_all (has_sort_type e) vs" "list_all (has_sort_type e) ws" by (cases t) auto
  show ?case
  proof (cases "a = b")
    case True
    have "list_delimiter (child_modifiers m) = list_delimiter m" by (simp add: list_delimiter_def nested_child)
    then have "decides (directed m (sort_compare_list vs ws)) (construct_all (child_modifiers m) vs @ [list_delimiter m])
        (construct_all (child_modifiers m) ws @ [list_delimiter m])"
      using 6(1) [THEN conjunct1, THEN mp, THEN mp, THEN mp, OF t(2,3) nested_child(1) [of m]] by (simp add: directed_child)
    then show ?thesis using True by (simp add: null_last_def first_of_def decides_Cons)
  next
    case False
    then show ?thesis using first_byte_order [OF 6(4), of "ArrayV a vs" "ArrayV b ws"]
      by (cases a; cases b) (simp_all add: null_last_def first_of_def)
  qed
next
  case 8
  then show ?case by (simp add: decides_same)
next
  case (9 w ws)
  obtain r where "ConstructSortKeyRecursive m w = (if sort_null w then null_byte m else valid_byte m) # r" using construct_first by blast
  then show ?case using markers_decide(3) [of m "[]" "sort_null w" "r @ construct_all m ws @ [list_delimiter m]"] by auto
next
  case (10 v vs)
  obtain r where "ConstructSortKeyRecursive m v = (if sort_null v then null_byte m else valid_byte m) # r" using construct_first by blast
  then show ?case using markers_decide(4) [of m "sort_null v" "r @ construct_all m vs @ [list_delimiter m]" "[]"] by auto
next
  case (11 v vs w ws)
  show ?case
  proof (intro conjI impI)
    assume a: "list_all (has_sort_type t) (v # vs)" "list_all (has_sort_type t) (w # ws)" "nested_modifiers m"
    have "decides (directed m (sort_compare v w)) (ConstructSortKeyRecursive m v) (ConstructSortKeyRecursive m w)"
      by (rule 11(1)) (use a in auto)
    moreover have "decides (directed m (sort_compare_list vs ws)) (construct_all m vs @ [list_delimiter m]) (construct_all m ws @ [list_delimiter m])"
      by (rule 11(2) [THEN conjunct1, rule_format, of t]) (use a in auto)
    ultimately show "decides (directed m (sort_compare_list (v # vs) (w # ws))) (construct_all m (v # vs) @ [list_delimiter m])
        (construct_all m (w # ws) @ [list_delimiter m])"
      by (simp add: directed_first_of decides_append)
  next
    assume a: "list_all2 has_sort_type ts (v # vs)" "list_all2 has_sort_type ts (w # ws)" "nested_modifiers m"
    then obtain u us where u: "ts = u # us" by (cases ts) auto
    have "decides (directed m (sort_compare v w)) (ConstructSortKeyRecursive m v) (ConstructSortKeyRecursive m w)"
      by (rule 11(1)) (use a u in auto)
    moreover have "decides (directed m (sort_compare_list vs ws)) (construct_all m vs) (construct_all m ws)"
      by (rule 11(2) [THEN conjunct2, rule_format, of us]) (use a u in auto)
    ultimately show "decides (directed m (sort_compare_list (v # vs) (w # ws))) (construct_all m (v # vs)) (construct_all m (w # ws))"
      by (simp add: directed_first_of decides_append)
  qed
qed (erule (2) default_order, simp)+

text \<open>Two null values of one type are equal.\<close>

lemma null_unique:
  "has_sort_type t v \<Longrightarrow> has_sort_type t w \<Longrightarrow> sort_null v \<Longrightarrow> sort_null w \<Longrightarrow> v = w"
proof (induction t arbitrary: v w)
  case (StructT ts)
  then obtain vs ws where s: "v = StructV False vs" "w = StructV False ws" "list_all2 has_sort_type ts vs" "list_all2 has_sort_type ts ws"
    "list_all sort_null vs" "list_all sort_null ws"
    by (cases v; cases w) auto
  have "vs = ws"
  proof (rule nth_equalityI)
    show "length vs = length ws" using s(3,4) by (simp add: list_all2_conv_all_nth)
    fix i assume "i < length vs"
    then show "vs ! i = ws ! i"
      using s(3-6) StructT(1) [of "ts ! i" "vs ! i" "ws ! i"] by (simp add: list_all2_conv_all_nth list_all_length)
  qed
  then show ?case using s by simp
next
  case (ArrayT t n)
  then obtain vs ws where s: "v = ArrayV False vs" "w = ArrayV False ws" "length vs = n" "length ws = n"
    "list_all (has_sort_type t) vs" "list_all (has_sort_type t) ws" "list_all sort_null vs" "list_all sort_null ws"
    by (cases v; cases w) auto
  have "vs = ws"
    by (rule nth_equalityI) (use s ArrayT(1) in \<open>auto simp: list_all_length\<close>)
  then show ?case using s by simp
next
  case (FixedT f)
  then show ?case by (cases v; cases w) auto
next
  case VarcharT
  then show ?case by (cases v; cases w) auto
next
  case BlobT
  then show ?case by (cases v; cases w) auto
next
  case (ListT t)
  then show ?case by (cases v; cases w) auto
qed

lemma child_twice: "child_modifiers (child_modifiers m) = child_modifiers m"
  by (simp add: child_modifiers_def)

text \<open>Below its first byte the key of a value does not depend on where its column puts null.\<close>

lemma construct_valid:
  "\<not> sort_null v \<Longrightarrow> \<exists>r. ConstructSortKeyRecursive m v = valid_byte m # r \<and>
     ConstructSortKeyRecursive (child_modifiers m) v = valid_byte (child_modifiers m) # r"
  by (cases v) (simp_all add: TemplatedConstructSortKey_def child_twice nested_child list_delimiter_def)

lemma column_order:
  assumes "has_sort_type t v" "has_sort_type t w"
  shows "decides (column_compare m v w) (ConstructSortKeyRecursive m v) (ConstructSortKeyRecursive m w)"
proof (cases "sort_null v = sort_null w")
  case False
  obtain r where r: "ConstructSortKeyRecursive m v = (if sort_null v then null_byte m else valid_byte m) # r" using construct_first by blast
  obtain q where q: "ConstructSortKeyRecursive m w = (if sort_null w then null_byte m else valid_byte m) # q" using construct_first by blast
  have c: "(1 :: uint8_t) < 2" by (simp add: word_less_nat_alt)
  show ?thesis unfolding r q column_compare_def using False c
    by (cases "sort_null v"; cases "null_type m"; intro decidesI [where p = "[]"])
      (auto simp: null_byte_def valid_byte_def NULL_FIRST_BYTE_def NULL_LAST_BYTE_def)
next
  case True
  show ?thesis
  proof (cases "sort_null v")
    case null: True
    then have "v = w" using null_unique [OF assms] True by simp
    then show ?thesis using True null by (simp add: column_compare_def decides_same)
  next
    case valid: False
    obtain r where r: "ConstructSortKeyRecursive m v = valid_byte m # r"
      "ConstructSortKeyRecursive (child_modifiers m) v = valid_byte (child_modifiers m) # r" using construct_valid [OF valid] by blast
    have "\<not> sort_null w" using True valid by simp
    then obtain q where q: "ConstructSortKeyRecursive m w = valid_byte m # q"
      "ConstructSortKeyRecursive (child_modifiers m) w = valid_byte (child_modifiers m) # q" using construct_valid by blast
    have "decides (directed m (sort_compare v w)) r q"
      using nested_order(1) [OF assms nested_child(1) [of m]] unfolding r(2) q(2) decides_Cons_same directed_child .
    then show ?thesis using True valid unfolding r(1) q(1) decides_Cons_same by (simp add: column_compare_def)
  qed
qed

lemma row_order:
  "list_all2 has_sort_type ts vs \<Longrightarrow> list_all2 has_sort_type ts ws \<Longrightarrow> length ms = length ts \<Longrightarrow>
   decides (row_compare ms vs ws) (CreateSortKeyInternal ms vs) (CreateSortKeyInternal ms ws)"
proof (induction ts arbitrary: ms vs ws)
  case Nil
  then show ?case by (simp add: CreateSortKeyInternal_def)
next
  case (Cons t ts)
  obtain m ms' where m: "ms = m # ms'" "length ms' = length ts" using Cons.prems(3) by (cases ms) auto
  obtain v vs' where v: "vs = v # vs'" "has_sort_type t v" "list_all2 has_sort_type ts vs'" using Cons.prems(1) by (cases vs) auto
  obtain w ws' where w: "ws = w # ws'" "has_sort_type t w" "list_all2 has_sort_type ts ws'" using Cons.prems(2) by (cases ws) auto
  have "decides (first_of (column_compare m v w) (row_compare ms' vs' ws'))
      (ConstructSortKeyRecursive m v @ CreateSortKeyInternal ms' vs') (ConstructSortKeyRecursive m w @ CreateSortKeyInternal ms' ws')"
    by (rule decides_append [OF column_order [OF v(2) w(2)] Cons.IH [OF v(3) w(3) m(2)]])
  then show ?case by (simp add: m v w CreateSortKeyInternal_def)
qed

section \<open>Lengths\<close>

lemma blob_encode_length: "length (blob_encode_loop s) = length s + length (filter (\<lambda>b. b \<le> 1) s)"
  by (induction s) simp_all

lemma length_concatenated: "(\<And>x. x \<in> set xs \<Longrightarrow> length (f x) = g x) \<Longrightarrow> length (concat (map f xs)) = sum_list (map g xs)"
  by (induction xs) simp_all

lemma construct_length: "length (ConstructSortKeyRecursive m v) = GetSortKeyLengthRecursive v"
proof (induction v arbitrary: m rule: GetSortKeyLengthRecursive.induct)
  case (5 ok children)
  have "length (concat (map (ConstructSortKeyRecursive (child_modifiers m)) children)) = sum_list (map GetSortKeyLengthRecursive children)"
    by (rule length_concatenated) (rule 5)
  then show ?case by simp
next
  case (6 children)
  have "length (concat (map (ConstructSortKeyRecursive (child_modifiers m)) children)) = sum_list (map GetSortKeyLengthRecursive children)"
    by (rule length_concatenated) (rule 6)
  then show ?case by simp
next
  case (7 ok children)
  have "length (concat (map (ConstructSortKeyRecursive (child_modifiers m)) children)) = sum_list (map GetSortKeyLengthRecursive children)"
    by (rule length_concatenated) (rule 7)
  then show ?case by simp
qed (simp_all add: TemplatedConstructSortKey_def SortKeyVarchar_Encode_def SortKeyBlob_Encode_def blob_encode_length)

lemma construct_fits: "has_sort_type t v \<Longrightarrow> length (ConstructSortKeyRecursive m v) \<le> GetSortKeyLength t v"
proof -
  assume t: "has_sort_type t v"
  show "length (ConstructSortKeyRecursive m v) \<le> GetSortKeyLength t v"
  proof (cases t)
    case (FixedT f)
    then have "v = NullV \<or> (\<exists>x. v = FixedV x \<and> fixed_type_of x = f)" using t by (cases v) auto
    then show ?thesis unfolding construct_length GetSortKeyLength_def FixedT by auto
  qed (simp_all only: construct_length GetSortKeyLength_def sort_type.case order_refl)
qed

lemma row_length:
  "list_all2 has_sort_type ts vs \<Longrightarrow> length ms = length ts \<Longrightarrow>
   length (CreateSortKeyInternal ms vs) \<le> sum_list (map2 GetSortKeyLength ts vs)"
proof (induction ts arbitrary: ms vs)
  case (Cons t ts)
  obtain m ms' where m: "ms = m # ms'" "length ms' = length ts" using Cons.prems(2) by (cases ms) auto
  obtain v vs' where v: "vs = v # vs'" "has_sort_type t v" "list_all2 has_sort_type ts vs'" using Cons.prems(1) by (cases vs) auto
  show ?case using construct_fits [OF v(2), of m] Cons.IH [OF v(3) m(2)] by (simp add: m v CreateSortKeyInternal_def)
qed (simp add: CreateSortKeyInternal_def)

lemma bigint_length:
  "list_all2 has_sort_type ts vs \<Longrightarrow> \<forall>t\<in>set ts. TypeIsConstantSize t \<Longrightarrow> sum_list (map2 GetSortKeyLength ts vs) = constant_size ts"
proof (induction ts arbitrary: vs)
  case (Cons t ts)
  then obtain f where f: "t = FixedT f" by (cases t) (auto simp: TypeIsConstantSize_def)
  obtain v vs' where v: "vs = v # vs'" "list_all2 has_sort_type ts vs'" using Cons.prems(1) by (cases vs) auto
  show ?case using Cons.IH [OF v(2)] Cons.prems(2) by (simp add: v f GetSortKeyLength_def)
qed simp

section \<open>Integer keys\<close>

lemma padded_bigint:
  assumes "length key \<le> 8"
  shows "write_le 8 (unat (BSWAP64 (FinalizeSortData_bigint key))) = key @ replicate (8 - length key) 0"
proof -
  let ?p = "key @ replicate (8 - length key) 0 :: uint8_t list"
  have "le_value ?p < 256 ^ 8" using le_value_less [of ?p] assms by simp
  then have u: "unat (word_of_nat (le_value ?p) :: 64 word) = le_value ?p" by (simp add: unsigned_of_nat take_bit_nat_eq_self_iff)
  have "le_value (write_le 8 (unat (word_of_nat (le_value ?p) :: 64 word))) = le_value ?p"
    by (rule trans [OF le_value_unat(3) u])
  then have "write_le 8 (unat (word_of_nat (le_value ?p) :: 64 word)) = ?p" by (intro le_value_inject) (use assms in simp_all)
  then show ?thesis by (simp add: FinalizeSortData_bigint_def)
qed

lemma bigint_value:
  assumes "length key \<le> 8"
  shows "unat (FinalizeSortData_bigint key) = be_value (key @ replicate (8 - length key) 0)"
proof -
  have "rev (write_le 8 (unat (FinalizeSortData_bigint key))) = key @ replicate (8 - length key) 0"
    using padded_bigint [OF assms] by (simp only: swapped_64)
  then have "be_value (key @ replicate (8 - length key) 0) = le_value (write_le 8 (unat (FinalizeSortData_bigint key)))"
    unfolding be_value_def by (metis rev_rev_ident)
  then show ?thesis by (simp only: le_value_unat)
qed

lemma first_byte_small: "key \<noteq> [] \<Longrightarrow> hd key \<le> 2 \<Longrightarrow> length key \<le> 8 \<Longrightarrow> unat (FinalizeSortData_bigint key) < 2 ^ 63"
proof -
  assume k: "key \<noteq> []" "hd key \<le> 2" "length key \<le> 8"
  then obtain b bs where b: "key @ replicate (8 - length key) 0 = b # bs" "b \<le> 2" by (cases key) auto
  have "length (b # bs) = 8" unfolding b(1) [symmetric] using k(3) by simp
  then have "length bs = 7" by simp
  then have "be_value (b # bs) < (unat b + 1) * 256 ^ 7" using be_value_less [of bs] by (simp add: be_value_simps)
  also have "\<dots> \<le> 3 * 256 ^ 7" using b(2) by (intro mult_le_mono1) (simp add: word_le_nat_alt)
  finally show ?thesis using bigint_value [OF k(3)] b(1) by simp
qed

lemma create_first_byte: "CreateSortKeyInternal ms vs \<noteq> [] \<Longrightarrow> hd (CreateSortKeyInternal ms vs) \<le> 2"
proof -
  assume ne: "CreateSortKeyInternal ms vs \<noteq> []"
  then obtain m ms' v vs' where mv: "ms = m # ms'" "vs = v # vs'" by (cases ms; cases vs) (auto simp: CreateSortKeyInternal_def)
  obtain r where "ConstructSortKeyRecursive m v = (if sort_null v then null_byte m else valid_byte m) # r" using construct_first by blast
  then show ?thesis by (simp add: mv CreateSortKeyInternal_def null_byte_def valid_byte_def NULL_FIRST_BYTE_def NULL_LAST_BYTE_def word_le_nat_alt)
qed

lemma bigint_order:
  assumes "decides c k l" "length k \<le> 8" "length l \<le> 8" "k \<noteq> [] \<Longrightarrow> hd k \<le> 2" "l \<noteq> [] \<Longrightarrow> hd l \<le> 2"
  shows "sgn (sint (FinalizeSortData_bigint k) - sint (FinalizeSortData_bigint l)) = sgn c"
proof -
  let ?pad = "\<lambda>k. k @ replicate (8 - length k) 0 :: uint8_t list"
  have small: "sint (FinalizeSortData_bigint x) = int (be_value (?pad x))" if "length x \<le> 8" "x \<noteq> [] \<Longrightarrow> hd x \<le> 2" for x
  proof (cases "x = []")
    case True
    then show ?thesis by (simp add: FinalizeSortData_bigint_def be_value_def BSWAP64_def numeral_eq_Suc)
  next
    case False
    then show ?thesis using first_byte_small [of x] that bigint_value [OF that(1)] by (simp add: sint_by_unat)
  qed
  have d: "decides c (?pad k) (?pad l)"
  proof (cases "c = 0")
    case True
    then show ?thesis using assms(1) by (simp add: decides_def)
  next
    case False
    then have "decides (first_of c 0) (?pad k) (?pad l)" by (intro decides_append assms(1)) simp
    then show ?thesis by (simp add: first_of_0)
  qed
  have "length (?pad k) = length (?pad l)" using assms(2,3) by simp
  from decides_be_value [OF this] have e: "decides (int (be_value (?pad k)) - int (be_value (?pad l))) (?pad k) (?pad l)" .
  have uniq: "sgn c = sgn d" if "decides c xs ys" "decides d xs ys" for c d xs ys
    using keys_decide [OF that(1)] keys_decide [OF that(2)] by (auto simp: sgn_if)
  show ?thesis using uniq [OF e d] small [OF assms(2,4)] small [OF assms(3,5)] by simp
qed

section \<open>Decoding gives the values back\<close>

fun decoded_value :: "sort_value \<Rightarrow> sort_value" where
  "decoded_value (FixedV v) = FixedV (canonical v)"
| "decoded_value (StructV ok vs) = StructV ok (map decoded_value vs)"
| "decoded_value (ListV vs) = ListV (map decoded_value vs)"
| "decoded_value (ArrayV ok vs) = ArrayV ok (map decoded_value vs)"
| "decoded_value v = v"

lemma double_flip: "map NOT (map NOT bs) = bs" for bs :: "uint8_t list"
  by (simp add: comp_def)

lemma constant_decode:
  assumes "fixed_fits v" "fixed_type_of v = t"
  shows "SortKeyConstant_Decode t flip ((if flip then map NOT (EncodeData v) else EncodeData v) @ rest) = Some (Inr (FixedV (canonical v), rest))"
  using DecodeData_EncodeData [OF assms(1), of "[]"] DecodeData_EncodeData [OF assms(1), of rest] assms(2) by (simp add: SortKeyConstant_Decode_def double_flip del: map_map)

lemma byte_NOT_eq: "(NOT a = NOT b) = (a = b)" for a b :: uint8_t
  by (metis bit.double_compl)

lemma span_delimiter:
  "(\<And>x. x \<in> set xs \<Longrightarrow> x \<noteq> d) \<Longrightarrow> takeWhile (\<lambda>b. b \<noteq> d) (xs @ d # r) = xs"
  "(\<And>x. x \<in> set xs \<Longrightarrow> x \<noteq> d) \<Longrightarrow> dropWhile (\<lambda>b. b \<noteq> d) (xs @ d # r) = d # r"
  by (induction xs) auto

lemma varchar_decode:
  assumes "255 \<notin> set s"
  shows "SortKeyVarchar_Decode flip ((if flip then map NOT (SortKeyVarchar_Encode s) else SortKeyVarchar_Encode s) @ rest) =
    Some (Inr (VarcharV s, rest))"
proof -
  let ?d = "if flip then NOT STRING_DELIMITER else STRING_DELIMITER"
  let ?e = "map (\<lambda>b. if flip then NOT (b + 1) else b + 1) s"
  have ne: "x \<noteq> ?d" if "x \<in> set ?e" for x
  proof -
    obtain b where b: "b \<in> set s" "x = (if flip then NOT (b + 1) else b + 1)" using \<open>x \<in> set ?e\<close> unfolding set_map by blast
    have "b + 1 \<noteq> 0" using b(1) assms byte_Suc_less(2) [of b] by (metis word_gt_0)
    then show ?thesis using b(2) byte_NOT_eq [of "b + 1" 0] by (simp add: STRING_DELIMITER_def)
  qed
  have restored: "map (\<lambda>b. if flip then NOT b - 1 else b - 1) ?e = s" by (simp add: comp_def map_idI)
  have split: "(if flip then map NOT (SortKeyVarchar_Encode s) else SortKeyVarchar_Encode s) @ rest = ?e @ ?d # rest"
    by (simp add: SortKeyVarchar_Encode_def)
  have "takeWhile (\<lambda>b. b \<noteq> ?d) (?e @ ?d # rest) = ?e" "dropWhile (\<lambda>b. b \<noteq> ?d) (?e @ ?d # rest) = ?d # rest"
    using ne by (blast intro: span_delimiter)+
  then show ?thesis by (simp only: split SortKeyVarchar_Decode_def Let_def restored list.distinct if_False list.sel)
qed

lemma blob_decode:
  "blob_decode_loop flip ((if flip then map NOT (blob_encode_loop s @ [STRING_DELIMITER]) else blob_encode_loop s @ [STRING_DELIMITER]) @ rest) =
    Some (s, rest)"
proof (induction s)
  case Nil
  then show ?case by simp
next
  case (Cons b s)
  have "b \<noteq> 0 \<and> b \<noteq> 1" if "\<not> b \<le> 1" using that by (auto simp: word_le_nat_alt)
  then show ?case using Cons byte_NOT_eq [of b 0] byte_NOT_eq [of b 1]
    by (cases flip) (simp_all add: STRING_DELIMITER_def BLOB_ESCAPE_CHARACTER_def)
qed

text \<open>What it asks of them for decoding: the value comes back, whatever follows in the key.\<close>

locale sort_key_operator = order_encoding encode fits compare_values
  for encode :: "'a \<Rightarrow> uint8_t list" and fits :: "'a \<Rightarrow> bool" and compare_values :: "'a \<Rightarrow> 'a \<Rightarrow> int" +
  fixes decode :: "bool \<Rightarrow> uint8_t list \<Rightarrow> sort_value decoded"
    and returned :: "'a \<Rightarrow> sort_value"
  assumes decode_encode:
    "fits v \<Longrightarrow> decode flip ((if flip then map NOT (encode v) else encode v) @ rest) = Some (Inr (returned v, rest))"
begin

lemma templated_decode:
  "fits v \<Longrightarrow> TemplatedDecodeSortKey m decode (TemplatedConstructSortKey m (encode v) @ rest) = Some (Inr (returned v, rest))"
  using decode_encode [of v "flip_bytes m" rest] marker_bytes(1) [of m]
  by (simp add: TemplatedDecodeSortKey_def TemplatedConstructSortKey_def)

lemma equal_keys_equal_values:
  assumes "fits v" "fits w" "TemplatedConstructSortKey m (encode v) = TemplatedConstructSortKey m (encode w)"
  shows "returned v = returned w"
  using templated_decode [OF assms(1), of m "[]"] templated_decode [OF assms(2), of m "[]"] assms(3) by simp

end

interpretation constant_operator: sort_key_operator EncodeData "\<lambda>v. fixed_type_of v = t \<and> fixed_fits v" fixed_compare
    "SortKeyConstant_Decode t" "\<lambda>v. FixedV (canonical v)" for t
  by unfold_locales (rule constant_decode; simp)

interpretation varchar_operator: sort_key_operator SortKeyVarchar_Encode "\<lambda>s. 255 \<notin> set s" compare_bytes
    SortKeyVarchar_Decode VarcharV
  by unfold_locales (rule varchar_decode)

interpretation blob_operator: sort_key_operator SortKeyBlob_Encode "\<lambda>s. True" compare_bytes SortKeyBlob_Decode BlobV
  by unfold_locales (simp only: SortKeyBlob_Decode_def SortKeyBlob_Encode_def blob_decode option.map prod.case)

lemma null_decode: "TemplatedDecodeSortKey m decode (null_byte m # rest) = Some (Inr (NullV, rest))"
  by (simp add: TemplatedDecodeSortKey_def)

lemma fields_decode:
  "list_all2 (\<lambda>decode v. \<forall>rest. decode (enc v @ rest) = Some (Inr (dec v, rest))) ds vs \<Longrightarrow>
   decode_fields ds (concat (map enc vs) @ rest) = Some (Inr (map dec vs, rest))"
  by (induction rule: list_all2_induct) simp_all

lemma list_decode:
  assumes "\<And>v rest. v \<in> set vs \<Longrightarrow> decode (enc v @ rest) = Some (Inr (dec v, rest))"
    "\<And>v. v \<in> set vs \<Longrightarrow> \<exists>b r. enc v = b # r \<and> b \<noteq> delimiter" "length vs < fuel"
  shows "decode_list_loop fuel decode delimiter (concat (map enc vs) @ delimiter # rest) = Some (Inr (map dec vs, rest))"
  using assms
proof (induction vs arbitrary: fuel)
  case Nil
  then show ?case by (cases fuel) simp_all
next
  case (Cons v vs)
  obtain fuel' where f: "fuel = Suc fuel'" using Cons.prems(3) by (cases fuel) auto
  obtain b r where b: "enc v = b # r" "b \<noteq> delimiter" using Cons.prems(2) [of v] by auto
  have "decode_list_loop fuel' decode delimiter (concat (map enc vs) @ delimiter # rest) = Some (Inr (map dec vs, rest))"
    using Cons.prems f by (intro Cons.IH) auto
  moreover have "decode (b # r @ concat (map enc vs) @ delimiter # rest) = Some (Inr (dec v, concat (map enc vs) @ delimiter # rest))"
    using Cons.prems(1) [of v "concat (map enc vs) @ delimiter # rest"] b(1) by simp
  ultimately show ?case using f b by simp
qed

lemma array_decode:
  assumes "\<And>v rest. v \<in> set vs \<Longrightarrow> decode (enc v @ rest) = Some (Inr (dec v, rest))"
    "\<And>v. v \<in> set vs \<Longrightarrow> \<exists>b r. enc v = b # r \<and> b \<noteq> delimiter"
  shows "decode_array_loop (length vs) decode delimiter (concat (map enc vs) @ delimiter # rest) = Some (Inr (map dec vs, rest))"
  using assms
proof (induction vs)
  case (Cons v vs)
  obtain b r where b: "enc v = b # r" "b \<noteq> delimiter" using Cons.prems(2) [of v] by auto
  have "decode_array_loop (length vs) decode delimiter (concat (map enc vs) @ delimiter # rest) = Some (Inr (map dec vs, rest))"
    using Cons.prems by (intro Cons.IH) auto
  moreover have "decode (b # r @ concat (map enc vs) @ delimiter # rest) = Some (Inr (dec v, concat (map enc vs) @ delimiter # rest))"
    using Cons.prems(1) [of v "concat (map enc vs) @ delimiter # rest"] b(1) by simp
  ultimately show ?case using b by simp
qed simp

lemma element_first: "\<exists>b r. ConstructSortKeyRecursive (child_modifiers m) v = b # r \<and> b \<noteq> list_delimiter m"
proof -
  have "list_delimiter (child_modifiers m) = list_delimiter m" by (simp add: list_delimiter_def nested_child)
  then show ?thesis using construct_first [of "child_modifiers m" v] marker_bytes [of "child_modifiers m"] by (cases "sort_null v") auto
qed

lemma all_length_le: "(\<And>v. v \<in> set vs \<Longrightarrow> enc v \<noteq> []) \<Longrightarrow> length vs \<le> length (concat (map enc vs))"
proof (induction vs)
  case (Cons v vs)
  then have "Suc 0 \<le> length (enc v)" "length vs \<le> length (concat (map enc vs))" by (auto simp: Suc_le_eq)
  then show ?case by simp
qed simp

lemma value_decode:
  "has_sort_type t v \<Longrightarrow> DecodeSortKeyRecursive t m (ConstructSortKeyRecursive m v @ rest) = Some (Inr (decoded_value v, rest))"
proof (induction t arbitrary: v m rest)
  case (FixedT t)
  consider x where "v = FixedV x" "fixed_fits x" "fixed_type_of x = t" | "v = NullV" using FixedT by (cases v) auto
  then show ?case
  proof cases
    case (1 x)
    then show ?thesis using constant_operator.templated_decode [of x t m rest] by simp
  qed (simp add: null_decode)
next
  case VarcharT
  consider s where "v = VarcharV s" "255 \<notin> set s" | "v = NullV" using VarcharT by (cases v) auto
  then show ?case
  proof cases
    case (1 s)
    then show ?thesis using varchar_operator.templated_decode [of s m rest] by simp
  qed (simp add: null_decode)
next
  case BlobT
  consider s where "v = BlobV s" | "v = NullV" using BlobT by (cases v) auto
  then show ?case
  proof cases
    case (1 s)
    then show ?thesis using blob_operator.templated_decode [where v = s and m = m and rest = rest] by simp
  qed (simp add: null_decode)
next
  case (StructT ts)
  obtain ok vs where v: "v = StructV ok vs" "list_all2 has_sort_type ts vs" using StructT.prems by (cases v) auto
  have "list_all2 (\<lambda>decode v. \<forall>rest. decode (ConstructSortKeyRecursive (child_modifiers m) v @ rest) = Some (Inr (decoded_value v, rest)))
      (map (\<lambda>t. DecodeSortKeyRecursive t (child_modifiers m)) ts) vs"
    using v(2) StructT.IH by (auto simp: list_all2_conv_all_nth)
  from fields_decode [OF this] show ?case using v(1) marker_bytes(1) [of m] by simp
next
  case (ListT t)
  consider vs where "v = ListV vs" "list_all (has_sort_type t) vs" | "v = NullV" using ListT.prems by (cases v) auto
  then show ?case
  proof cases
    case (1 vs)
    let ?data = "construct_all (child_modifiers m) vs @ list_delimiter m # rest"
    have "length vs \<le> length (construct_all (child_modifiers m) vs)" using element_first [of m] by (intro all_length_le) (metis list.distinct(1))
    then have "decode_list_loop (length ?data) (DecodeSortKeyRecursive t (child_modifiers m)) (list_delimiter m) ?data =
        Some (Inr (map decoded_value vs, rest))"
      using 1(2) ListT.IH element_first by (intro list_decode) (auto simp: list_all_iff)
    then show ?thesis using 1(1) marker_bytes(1) [of m] by simp
  qed simp
next
  case (ArrayT t n)
  obtain ok vs where v: "v = ArrayV ok vs" "length vs = n" "list_all (has_sort_type t) vs" using ArrayT.prems by (cases v) auto
  have "decode_array_loop (length vs) (DecodeSortKeyRecursive t (child_modifiers m)) (list_delimiter m)
      (construct_all (child_modifiers m) vs @ list_delimiter m # rest) = Some (Inr (map decoded_value vs, rest))"
    using v(3) ArrayT.IH element_first by (intro array_decode) (auto simp: list_all_iff)
  then show ?case using v(1,2) marker_bytes(1) [of m] by simp
qed

lemma row_decode:
  "list_all2 has_sort_type ts vs \<Longrightarrow> length ms = length ts \<Longrightarrow>
   DecodeSortKey ts ms (CreateSortKeyInternal ms vs @ rest) = Some (Inr (map decoded_value vs, rest))"
proof (induction ts arbitrary: ms vs)
  case Nil
  then show ?case by (simp add: DecodeSortKey_def CreateSortKeyInternal_def)
next
  case (Cons t ts)
  obtain m ms' where m: "ms = m # ms'" "length ms' = length ts" using Cons.prems(2) by (cases ms) auto
  obtain v vs' where v: "vs = v # vs'" "has_sort_type t v" "list_all2 has_sort_type ts vs'" using Cons.prems(1) by (cases vs) auto
  have "decode_fields (map2 DecodeSortKeyRecursive ts ms') (CreateSortKeyInternal ms' vs' @ rest) = Some (Inr (map decoded_value vs', rest))"
    using Cons.IH [OF v(3) m(2)] by (simp add: DecodeSortKey_def)
  then show ?case using value_decode [OF v(2), of m "CreateSortKeyInternal ms' vs' @ rest"]
    by (simp add: m(1) v(1) DecodeSortKey_def CreateSortKeyInternal_def)
qed

section \<open>What a decoder may return\<close>

text \<open>Typing without the convention about null structs: what any bytes at all decode to.\<close>

fun typed_value :: "sort_type \<Rightarrow> sort_value \<Rightarrow> bool" where
  "typed_value (FixedT t) (FixedV v) = (fixed_type_of v = t \<and> fixed_fits v)"
| "typed_value (FixedT t) NullV = True"
| "typed_value VarcharT (VarcharV s) = (255 \<notin> set s)"
| "typed_value VarcharT NullV = True"
| "typed_value BlobT (BlobV s) = True"
| "typed_value BlobT NullV = True"
| "typed_value (StructT ts) (StructV ok vs) = list_all2 typed_value ts vs"
| "typed_value (ListT t) (ListV vs) = list_all (typed_value t) vs"
| "typed_value (ListT t) NullV = True"
| "typed_value (ArrayT t n) (ArrayV ok vs) = (length vs = n \<and> list_all (typed_value t) vs)"
| "typed_value _ _ = False"

definition decodes_typed :: "(uint8_t list \<Rightarrow> 'a decoded) \<Rightarrow> ('a \<Rightarrow> bool) \<Rightarrow> bool" where
  "decodes_typed decode T \<longleftrightarrow>
     (\<forall>data v rest. decode data = Some (Inr (v, rest)) \<longrightarrow> T v \<and> (\<exists>used. used \<noteq> [] \<and> data = used @ rest))"

lemma decodes_typedD:
  assumes "decodes_typed decode T" "decode data = Some (Inr (v, rest))"
  obtains used where "T v" "used \<noteq> []" "data = used @ rest"
  using assms unfolding decodes_typed_def by blast

lemma decoded_fixed_type: "fixed_type_of (DecodeData t bs) = t" "fixed_fits (DecodeData t bs)"
proof -
  have fits: "int_fits 32 (sint a)" "int_fits 64 (sint b)" for a :: "32 word" and b :: "64 word"
    using sint_ge [of a] sint_lt [of a] sint_ge [of b] sint_lt [of b] by (simp_all add: int_fits_def)
  show "fixed_type_of (DecodeData t bs) = t" by (cases t) (simp_all only: DecodeData.simps fixed_type_of.simps)
  show "fixed_fits (DecodeData t bs)" unfolding fixed_fits_def
    by (cases t) (simp_all only: DecodeData.simps fixed_value.case interval_t.simps fits simp_thms)
qed

lemma blob_loop_suffix: "blob_decode_loop flip data = Some (s, rest) \<Longrightarrow> \<exists>used. data = used @ rest"
proof (induction flip data arbitrary: s rest rule: blob_decode_loop.induct)
  case (2 flip b input)
  show ?case
  proof (cases "b = (if flip then NOT STRING_DELIMITER else STRING_DELIMITER)")
    case True
    then have "b # input = [b] @ rest" using "2.prems" by simp
    then show ?thesis by blast
  next
    case False
    note d = False
    show ?thesis
    proof (cases "b = (if flip then NOT BLOB_ESCAPE_CHARACTER else BLOB_ESCAPE_CHARACTER)")
      case True
      then obtain c input' s' where c: "input = c # input'" "blob_decode_loop flip input' = Some (s', rest)"
        using "2.prems" d by (auto simp: Let_def split: list.splits)
      then obtain used where "input' = used @ rest" using "2.IH"(1) [OF refl refl refl d True c(1)] by blast
      then have "b # input = (b # c # used) @ rest" using c(1) by simp
      then show ?thesis by blast
    next
      case False
      then obtain s' where c: "blob_decode_loop flip input = Some (s', rest)"
        using "2.prems" d by (auto simp: Let_def)
      then obtain used where "input = used @ rest" using "2.IH"(2) [OF refl refl refl d False] by blast
      then have "b # input = (b # used) @ rest" by simp
      then show ?thesis by blast
    qed
  qed
qed simp

lemma constant_typed: "SortKeyConstant_Decode t flip data = Some (Inr (v, rest)) \<Longrightarrow> typed_value (FixedT t) v \<and> (\<exists>used. data = used @ rest)"
proof -
  assume d: "SortKeyConstant_Decode t flip data = Some (Inr (v, rest))"
  then have "typed_value (FixedT t) v" "rest = drop (GetTypeIdSize t) data"
    using decoded_fixed_type by (auto simp: SortKeyConstant_Decode_def split: if_splits)
  then show ?thesis by (metis append_take_drop_id)
qed

lemma map_avoids: "(\<And>b. P b \<Longrightarrow> c \<noteq> f b) \<Longrightarrow> c \<notin> set (map f (takeWhile P xs))"
  by (induction xs) auto

lemma span_split: "dropWhile P xs \<noteq> [] \<Longrightarrow> xs = (takeWhile P xs @ [hd (dropWhile P xs)]) @ tl (dropWhile P xs)"
  by simp

lemma varchar_typed:
  assumes "SortKeyVarchar_Decode flip data = Some (Inr (v, rest))"
  shows "typed_value VarcharT v \<and> (\<exists>used. data = used @ rest)"
proof -
  let ?d = "if flip then NOT STRING_DELIMITER else STRING_DELIMITER"
  let ?f = "\<lambda>b :: uint8_t. if flip then NOT b - 1 else b - 1"
  have ne: "dropWhile (\<lambda>b. b \<noteq> ?d) data \<noteq> []"
    and v: "v = VarcharV (map ?f (takeWhile (\<lambda>b. b \<noteq> ?d) data))" and rest: "rest = tl (dropWhile (\<lambda>b. b \<noteq> ?d) data)"
    using assms unfolding SortKeyVarchar_Decode_def Let_def by (auto split: if_splits)
  have "(255 :: uint8_t) = - 1" by simp
  moreover have "c - 1 = (- 1 :: uint8_t) \<longleftrightarrow> c = 0" for c by (simp add: diff_eq_eq)
  ultimately have eq255: "c - 1 = 255 \<longleftrightarrow> c = 0" for c :: uint8_t by (simp only:)
  have avoid: "255 \<noteq> ?f b" if "b \<noteq> ?d" for b
    using that byte_NOT_eq [of "NOT b" 0] eq255 [of b] eq255 [of "NOT b"] by (auto simp: STRING_DELIMITER_def split: if_splits)
  have "255 \<notin> set (map ?f (takeWhile (\<lambda>b. b \<noteq> ?d) data))" by (rule map_avoids) (rule avoid)
  moreover have "data = (takeWhile (\<lambda>b. b \<noteq> ?d) data @ [hd (dropWhile (\<lambda>b. b \<noteq> ?d) data)]) @ rest"
    unfolding rest by (rule span_split [OF ne])
  ultimately show ?thesis unfolding v typed_value.simps by blast
qed

lemma blob_typed: "SortKeyBlob_Decode flip data = Some (Inr (v, rest)) \<Longrightarrow> typed_value BlobT v \<and> (\<exists>used. data = used @ rest)"
  using blob_loop_suffix by (auto simp: SortKeyBlob_Decode_def)

lemma templated_typed:
  assumes "\<And>flip data v rest. decode flip data = Some (Inr (v, rest)) \<Longrightarrow> T v \<and> (\<exists>used. data = used @ rest)" "T NullV"
  shows "decodes_typed (TemplatedDecodeSortKey m decode) T"
  unfolding decodes_typed_def
proof (intro allI impI)
  fix data v rest
  assume d: "TemplatedDecodeSortKey m decode data = Some (Inr (v, rest))"
  then obtain b bs where b: "data = b # bs" by (cases data) (auto simp: TemplatedDecodeSortKey_def)
  have "T v \<and> (\<exists>used. bs = used @ rest)"
  proof (cases "b = null_byte m")
    case True
    then have "v = NullV" "bs = [] @ rest" using d b by (simp_all add: TemplatedDecodeSortKey_def)
    then show ?thesis using assms(2) by blast
  next
    case False
    then show ?thesis using d b assms(1) by (simp add: TemplatedDecodeSortKey_def)
  qed
  then obtain used where "T v" "data = (b # used) @ rest" using b by auto
  then show "T v \<and> (\<exists>used. used \<noteq> [] \<and> data = used @ rest)" by blast
qed

lemma fields_typed:
  "list_all2 (\<lambda>decode t. decodes_typed decode (typed_value t)) ds ts \<Longrightarrow> decode_fields ds data = Some (Inr (vs, rest)) \<Longrightarrow>
   list_all2 typed_value ts vs \<and> (\<exists>used. data = used @ rest)"
proof (induction arbitrary: data vs rule: list_all2_induct)
  case Nil
  then have "vs = []" "data = [] @ rest" by simp_all
  then show ?case by blast
next
  case (Cons d ds t ts)
  obtain v mid vs' where v: "d data = Some (Inr (v, mid))" "decode_fields ds mid = Some (Inr (vs', rest))" "vs = v # vs'"
    using Cons.prems by (auto split: option.splits sum.splits prod.splits)
  obtain used where u: "typed_value t v" "data = used @ mid" using Cons.hyps(1) v(1) by (rule decodes_typedD)
  obtain used' where u': "list_all2 typed_value ts vs'" "mid = used' @ rest" using Cons.IH [OF v(2)] by blast
  have "data = (used @ used') @ rest" using u(2) u'(2) by simp
  then show ?case using u(1) u'(1) v(3) by blast
qed

lemma list_typed:
  assumes "decodes_typed decode T" "decode_list_loop fuel decode delimiter data = Some (Inr (vs, rest))"
  shows "list_all T vs \<and> (\<exists>used. data = used @ rest)"
  using assms(2)
proof (induction fuel arbitrary: data vs)
  case (Suc fuel)
  then obtain b bs where b: "data = b # bs" by (cases data) auto
  show ?case
  proof (cases "b = delimiter")
    case True
    then have "vs = []" "data = [b] @ rest" using Suc.prems b by simp_all
    then show ?thesis by auto
  next
    case False
    then obtain v mid vs' where v: "decode data = Some (Inr (v, mid))" "decode_list_loop fuel decode delimiter mid = Some (Inr (vs', rest))"
      "vs = v # vs'" using Suc.prems b by (auto split: option.splits sum.splits prod.splits)
    obtain used where u: "T v" "data = used @ mid" using assms(1) v(1) by (rule decodes_typedD)
    obtain used' where u': "list_all T vs'" "mid = used' @ rest" using Suc.IH [OF v(2)] by blast
    have "data = (used @ used') @ rest" using u(2) u'(2) by simp
    then show ?thesis using u(1) u'(1) v(3) by auto
  qed
qed simp

lemma array_typed:
  assumes "decodes_typed decode T" "decode_array_loop n decode delimiter data = Some (Inr (vs, rest))"
  shows "list_all T vs \<and> length vs = n \<and> (\<exists>used. data = used @ rest)"
  using assms(2)
proof (induction n arbitrary: data vs)
  case 0
  then obtain b where "data = [b] @ rest" "vs = []" by (auto split: list.splits if_splits)
  then show ?case by auto
next
  case (Suc n)
  then obtain b bs where b: "data = b # bs" "b \<noteq> delimiter" by (auto split: list.splits if_splits)
  then obtain v mid vs' where v: "decode data = Some (Inr (v, mid))" "decode_array_loop n decode delimiter mid = Some (Inr (vs', rest))"
    "vs = v # vs'" using Suc.prems by (auto split: option.splits sum.splits prod.splits)
  obtain used where u: "T v" "data = used @ mid" using assms(1) v(1) by (rule decodes_typedD)
  obtain used' where u': "list_all T vs'" "length vs' = n" "mid = used' @ rest" using Suc.IH [OF v(2)] by blast
  have "data = (used @ used') @ rest" using u(2) u'(3) by simp
  then show ?case using u(1) u'(1,2) v(3) by auto
qed

lemma decodes_first_byte:
  assumes "\<And>data v rest. decode data = Some (Inr (v, rest)) \<Longrightarrow> \<exists>b bs. data = b # bs \<and> T v \<and> (\<exists>used. bs = used @ rest)"
  shows "decodes_typed decode T"
  unfolding decodes_typed_def
proof (intro allI impI)
  fix data v rest
  assume "decode data = Some (Inr (v, rest))"
  then obtain b used where "data = (b # used) @ rest" "T v" using assms by fastforce
  then show "T v \<and> (\<exists>used. used \<noteq> [] \<and> data = used @ rest)" by blast
qed

lemma decoder_typed: "decodes_typed (DecodeSortKeyRecursive t m) (typed_value t)"
proof (induction t arbitrary: m)
  case (FixedT t)
  have "decodes_typed (TemplatedDecodeSortKey m (SortKeyConstant_Decode t)) (typed_value (FixedT t))"
    by (rule templated_typed) (simp_all only: constant_typed typed_value.simps simp_thms)
  then show ?case by (simp add: decodes_typed_def)
next
  case VarcharT
  have "decodes_typed (TemplatedDecodeSortKey m SortKeyVarchar_Decode) (typed_value VarcharT)"
    by (rule templated_typed) (simp_all only: varchar_typed typed_value.simps simp_thms)
  then show ?case by (simp add: decodes_typed_def)
next
  case BlobT
  have "decodes_typed (TemplatedDecodeSortKey m SortKeyBlob_Decode) (typed_value BlobT)"
    by (rule templated_typed) (simp_all only: blob_typed typed_value.simps simp_thms)
  then show ?case by (simp add: decodes_typed_def)
next
  case (StructT ts)
  have all: "list_all2 (\<lambda>decode t. decodes_typed decode (typed_value t)) (map (\<lambda>t. DecodeSortKeyRecursive t (child_modifiers m)) ts) ts"
    using StructT.IH by (simp add: list_all2_conv_all_nth)
  show ?case
    by (rule decodes_first_byte) (use fields_typed [OF all] in \<open>fastforce split: list.splits option.splits sum.splits prod.splits\<close>)
next
  case (ListT t)
  show ?case
  proof (rule decodes_first_byte)
    fix data v rest
    assume d: "DecodeSortKeyRecursive (ListT t) m data = Some (Inr (v, rest))"
    then obtain b bs where b: "data = b # bs" by (cases data) auto
    show "\<exists>b bs. data = b # bs \<and> typed_value (ListT t) v \<and> (\<exists>used. bs = used @ rest)"
    proof (cases "b = null_byte m")
      case True
      then have "v = NullV" "bs = [] @ rest" using d b by simp_all
      then show ?thesis using b by (metis typed_value.simps(9))
    next
      case False
      then obtain vs where vs: "decode_list_loop (length bs) (DecodeSortKeyRecursive t (child_modifiers m)) (list_delimiter m) bs = Some (Inr (vs, rest))"
        "v = ListV vs" using d b by (auto split: option.splits sum.splits prod.splits)
      from list_typed [OF ListT.IH vs(1)] show ?thesis using vs(2) b by simp
    qed
  qed
next
  case (ArrayT t n)
  show ?case
  proof (rule decodes_first_byte)
    fix data v rest
    assume d: "DecodeSortKeyRecursive (ArrayT t n) m data = Some (Inr (v, rest))"
    then obtain b bs vs where b: "data = b # bs" "v = ArrayV (b \<noteq> null_byte m) vs"
        "decode_array_loop n (DecodeSortKeyRecursive t (child_modifiers m)) (list_delimiter m) bs = Some (Inr (vs, rest))"
      by (auto split: list.splits option.splits sum.splits prod.splits)
    from array_typed [OF ArrayT.IH b(3)] show "\<exists>b bs. data = b # bs \<and> typed_value (ArrayT t n) v \<and> (\<exists>used. bs = used @ rest)"
      using b(1,2) by simp
  qed
qed

text \<open>More fuel than there are bytes changes nothing: the loop of a list ends at its delimiter or at the end of the key.\<close>

lemma list_loop_fuel:
  assumes "decodes_typed decode T" "length data \<le> fuel"
  shows "decode_list_loop fuel decode delimiter data = decode_list_loop (length data) decode delimiter data"
  using assms(2)
proof (induction "length data" arbitrary: data fuel rule: less_induct)
  case less
  show ?case
  proof (cases data)
    case Nil
    then show ?thesis by (cases fuel) simp_all
  next
    case (Cons b bs)
    obtain fuel' where f: "fuel = Suc fuel'" "length bs \<le> fuel'" using less.prems Cons by (cases fuel) auto
    have same: "decode_list_loop fuel' decode delimiter rest = decode_list_loop (length bs) decode delimiter rest"
      if d: "decode data = Some (Inr (v, rest))" for v rest
    proof -
      obtain used where "T v" "used \<noteq> []" "data = used @ rest" using assms(1) d by (rule decodes_typedD)
      then have "length rest \<le> length bs" "length rest < length data" using Cons by (cases used; auto)+
      then show ?thesis using less.hyps [of rest fuel'] less.hyps [of rest "length bs"] f(2) by simp
    qed
    then show ?thesis unfolding f(1) Cons
      by (auto simp: Cons split: option.split sum.split prod.split)
  qed
qed

section \<open>Binding the functions\<close>

text \<open>
  An argument of a call: its logical type and, where it is a constant, its value (none is NULL). The column
  definitions of \<open>decode_sort_key\<close> are read by the SQL parser, a parameter. The logical types that have a
  collation are told apart, a VARCHAR with the name of its own; every other one is \<open>PlainL\<close> of its physical type.
\<close>

datatype logical_type = VarcharL string | TimeTzL | IntervalL | VariantL | PlainL sort_type

definition variant_type :: sort_type where
  "variant_type = StructT [ListT VarcharT, ListT (StructT [FixedT UINT32, FixedT UINT32]),
     ListT (StructT [FixedT UINT8, FixedT UINT32]), BlobT]"

fun InternalType :: "logical_type \<Rightarrow> sort_type" where
  "InternalType (VarcharL collation) = VarcharT"
| "InternalType TimeTzL = FixedT INT64"
| "InternalType IntervalL = FixedT INTERVAL"
| "InternalType VariantL = variant_type"
| "InternalType (PlainL t) = t"

record argument =
  return_type :: logical_type
  constant_value :: "string option option"

subsection \<open>Collations\<close>

text \<open>
  Before a key is made of it, a column with a collation is replaced by a function of it: an INTERVAL by the
  normalised one, a TIMETZ by its sort key as a UBIGINT, a VARCHAR by what the functions of its collation make of
  the text, a VARIANT by its normal form. The catalog, which has the functions of the collations under their
  names, and the normal form of a VARIANT are parameters. An expression is its type and its value as a
  function of the column's; the functions give NULL for NULL.
\<close>

datatype CollationType = ALL_COLLATIONS | COMBINABLE_COLLATIONS

record collation_entry =
  combinable :: bool
  collation_function :: "uint8_t list \<Rightarrow> uint8_t list"

record collation_env =
  default_collation :: string
  get_collation :: "string \<Rightarrow> collation_entry result"
  function_missing :: "string \<Rightarrow> exn option"
  variant_normalize :: "sort_value \<Rightarrow> sort_value"

type_synonym expression = "sort_type \<times> (sort_value \<Rightarrow> sort_value)"

definition BindScalarFunction :: "sort_type \<Rightarrow> (sort_value \<Rightarrow> sort_value) \<Rightarrow> expression \<Rightarrow> expression" where
  "BindScalarFunction t f source = (t, f \<circ> snd source)"

fun on_text :: "(uint8_t list \<Rightarrow> uint8_t list) \<Rightarrow> sort_value \<Rightarrow> sort_value" where
  "on_text f (VarcharV s) = VarcharV (f s)"
| "on_text f v = v"

fun NormalizedIntervalFunction :: "sort_value \<Rightarrow> sort_value" where
  "NormalizedIntervalFunction (FixedV (IntervalV i)) = FixedV (IntervalV (Normalize i))"
| "NormalizedIntervalFunction v = v"

fun TimeTZSortKeyFunction :: "sort_value \<Rightarrow> sort_value" where
  "TimeTZSortKeyFunction (FixedV (Int64V bits)) = FixedV (UInt64V (tz_sort_key bits))"
| "TimeTZSortKeyFunction v = v"

text \<open>\<open>StringUtil::Split\<close> at a character, without the empty parts; a text of no parts is its own.\<close>

fun split_parts :: "char \<Rightarrow> string \<Rightarrow> string \<Rightarrow> string list" where
  "split_parts d part [] = (if part = [] then [] else [part])"
| "split_parts d part (c # cs) =
     (if c = d then (if part = [] then [] else [part]) @ split_parts d [] cs else split_parts d (part @ [c]) cs)"

definition StringUtil_Split :: "string \<Rightarrow> char \<Rightarrow> string list" where
  "StringUtil_Split input d = (let splits = split_parts d [] input in if splits = [] then [input] else splits)"

fun collation_entries :: "collation_env \<Rightarrow> string list \<Rightarrow> string list \<Rightarrow> collation_entry list \<Rightarrow> collation_entry list result" where
  "collation_entries env [] collations entries = Inr entries"
| "collation_entries env (c # cs) collations entries =
     (if c \<in> set collations then collation_entries env cs collations entries
      else
        case get_collation env c of
          Inl e \<Rightarrow> Inl e
        | Inr entry \<Rightarrow>
            if combinable entry then collation_entries env cs (c # collations) (entry # entries)
            else if entries \<noteq> [] \<and> \<not> combinable (last entries) then
              Inl (BinderException ''Cannot combine collation types \"%s\" and \"%s\"'')
            else collation_entries env cs (c # collations) (entries @ [entry]))"

fun apply_collations :: "CollationType \<Rightarrow> collation_entry list \<Rightarrow> expression \<Rightarrow> bool \<times> expression" where
  "apply_collations type [] source = (True, source)"
| "apply_collations type (entry # entries) source =
     (if \<not> combinable entry \<and> type = COMBINABLE_COLLATIONS then (False, source)
      else apply_collations type entries (BindScalarFunction VarcharT (on_text (collation_function entry)) source))"

definition PushVarcharCollation :: "collation_env \<Rightarrow> CollationType \<Rightarrow> logical_type \<Rightarrow> expression \<Rightarrow> (bool \<times> expression) result" where
  "PushVarcharCollation env type sql_type source =
     (case sql_type of
        VarcharL str_collation \<Rightarrow>
          let collation = map CharacterToLower (if str_collation = [] then default_collation env else str_collation)
          in if collation \<in> {'''', ''binary'', ''c'', ''posix''} then Inr (False, source)
             else
               (case collation_entries env (StringUtil_Split (map CharacterToLower collation) (CHR ''.'')) [] [] of
                  Inl e \<Rightarrow> Inl e
                | Inr entries \<Rightarrow> Inr (apply_collations type entries source))
      | _ \<Rightarrow> Inr (False, source))"

definition push_function :: "collation_env \<Rightarrow> string \<Rightarrow> sort_type \<Rightarrow> (sort_value \<Rightarrow> sort_value) \<Rightarrow> expression \<Rightarrow> (bool \<times> expression) result" where
  "push_function env name t f source =
     (case function_missing env name of Some e \<Rightarrow> Inl e | None \<Rightarrow> Inr (True, BindScalarFunction t f source))"

definition PushTimeTZCollation :: "collation_env \<Rightarrow> CollationType \<Rightarrow> logical_type \<Rightarrow> expression \<Rightarrow> (bool \<times> expression) result" where
  "PushTimeTZCollation env type sql_type source =
     (if sql_type \<noteq> TimeTzL then Inr (False, source)
      else push_function env ''timetz_byte_comparable'' (FixedT UINT64) TimeTZSortKeyFunction source)"

definition PushIntervalCollation :: "collation_env \<Rightarrow> CollationType \<Rightarrow> logical_type \<Rightarrow> expression \<Rightarrow> (bool \<times> expression) result" where
  "PushIntervalCollation env type sql_type source =
     (if sql_type \<noteq> IntervalL then Inr (False, source)
      else push_function env ''normalized_interval'' (FixedT INTERVAL) NormalizedIntervalFunction source)"

definition PushVariantCollation :: "collation_env \<Rightarrow> CollationType \<Rightarrow> logical_type \<Rightarrow> expression \<Rightarrow> (bool \<times> expression) result" where
  "PushVariantCollation env type sql_type source =
     (if sql_type \<noteq> VariantL then Inr (False, source)
      else push_function env ''variant_normalize'' variant_type (variant_normalize env) source)"

text \<open>The collations registered are tried in turn, up to the first that is pushed.\<close>

fun try_collations ::
  "(CollationType \<Rightarrow> logical_type \<Rightarrow> expression \<Rightarrow> (bool \<times> expression) result) list \<Rightarrow> CollationType \<Rightarrow> logical_type \<Rightarrow> expression
   \<Rightarrow> (bool \<times> expression) result" where
  "try_collations [] type sql_type source = Inr (False, source)"
| "try_collations (collation # collations) type sql_type source =
     (case collation type sql_type source of
        Inl e \<Rightarrow> Inl e
      | Inr (pushed, source') \<Rightarrow> if pushed then Inr (True, source') else try_collations collations type sql_type source')"

definition PushCollation :: "collation_env \<Rightarrow> CollationType \<Rightarrow> logical_type \<Rightarrow> expression \<Rightarrow> (bool \<times> expression) result" where
  "PushCollation env =
     try_collations [PushVarcharCollation env, PushTimeTZCollation env, PushIntervalCollation env, PushVariantCollation env]"

subsection \<open>The bind functions\<close>

datatype sort_key_type = BigintKey | BlobKey | OtherKey

definition bind_specifier :: "argument \<Rightarrow> OrderModifiers result" where
  "bind_specifier arg =
     (case constant_value arg of
        None \<Rightarrow> Inl (BinderException ''sort_specifier must be a constant value - but got %s'')
      | Some None \<Rightarrow> Inl (BinderException ''sort_specifier cannot be NULL'')
      | Some (Some s) \<Rightarrow> OrderModifiers_Parse s)"

fun bind_specifiers :: "argument list \<Rightarrow> OrderModifiers list result" where
  "bind_specifiers (key # specifier # args) =
     (case bind_specifier specifier of
        Inl e \<Rightarrow> Inl e
      | Inr m \<Rightarrow> (case bind_specifiers args of Inl e \<Rightarrow> Inl e | Inr ms \<Rightarrow> Inr (m # ms)))"
| "bind_specifiers _ = Inr []"

fun key_types :: "argument list \<Rightarrow> logical_type list" where
  "key_types (key # specifier # args) = return_type key # key_types args"
| "key_types _ = []"

fun push_collations :: "collation_env \<Rightarrow> logical_type list \<Rightarrow> expression list result" where
  "push_collations env [] = Inr []"
| "push_collations env (t # ts) =
     (case PushCollation env ALL_COLLATIONS t (InternalType t, id) of
        Inl e \<Rightarrow> Inl e
      | Inr (pushed, source) \<Rightarrow> (case push_collations env ts of Inl e \<Rightarrow> Inl e | Inr sources \<Rightarrow> Inr (source # sources)))"

text \<open>The modifiers, the type of the key, and the key arguments with their collations.\<close>

definition CreateSortKeyBind :: "collation_env \<Rightarrow> argument list \<Rightarrow> ((OrderModifiers list \<times> sort_key_type) \<times> expression list) result" where
  "CreateSortKeyBind env args =
     (if length args mod 2 \<noteq> 0 then
        Inl (BinderException ''Arguments to create_sort_key must be [key1, sort_specifier1, key2, sort_specifier2, ...]'')
      else
        case bind_specifiers args of
          Inl e \<Rightarrow> Inl e
        | Inr ms \<Rightarrow>
            (case push_collations env (key_types args) of
               Inl e \<Rightarrow> Inl e
             | Inr sources \<Rightarrow> Inr ((ms, if key_is_bigint (map fst sources) then BigintKey else BlobKey), sources)))"

definition bind_column :: "(string \<Rightarrow> sort_type result) \<Rightarrow> argument \<Rightarrow> sort_type result" where
  "bind_column parse_column arg =
     (case constant_value arg of
        None \<Rightarrow> Inl (BinderException ''col must be a constant value - but got %s'')
      | Some None \<Rightarrow> parse_column ''NULL''
      | Some (Some s) \<Rightarrow> parse_column s)"

fun bind_columns :: "(string \<Rightarrow> sort_type result) \<Rightarrow> argument list \<Rightarrow> (sort_type \<times> OrderModifiers) list result" where
  "bind_columns parse_column (col # specifier # args) =
     (case bind_column parse_column col of
        Inl e \<Rightarrow> Inl e
      | Inr t \<Rightarrow>
          (case bind_specifier specifier of
             Inl e \<Rightarrow> Inl e
           | Inr m \<Rightarrow>
               (case bind_columns parse_column args of Inl e \<Rightarrow> Inl e | Inr cols \<Rightarrow> Inr ((t, m) # cols))))"
| "bind_columns parse_column _ = Inr []"

definition DecodeSortKeyBind ::
  "(string \<Rightarrow> sort_type result) \<Rightarrow> sort_key_type \<Rightarrow> argument list \<Rightarrow> (sort_type \<times> OrderModifiers) list result" where
  "DecodeSortKeyBind parse_column key_type args =
     (if length args mod 2 \<noteq> 0 then
        Inl (BinderException ''Arguments to decode_sort_key must be [sort_key, col1, sort_specifier1, col2, sort_specifier2, ...]'')
      else
        case bind_columns parse_column args of
          Inl e \<Rightarrow> Inl e
        | Inr cols \<Rightarrow>
            (case key_type of
               BigintKey \<Rightarrow>
                 if \<not> key_is_bigint (map fst cols) then Inl (BinderException ''sort_key has type BIGINT but arguments require BLOB'')
                 else Inr cols
             | BlobKey \<Rightarrow>
                 if key_is_bigint (map fst cols) then Inl (BinderException ''sort_key has type BLOB but arguments require BIGINT'')
                 else Inr cols
             | OtherKey \<Rightarrow> Inl (BinderException ''sort_key must be either BIGINT or BLOB, got %s instead'')))"

section \<open>The calls\<close>

datatype sort_key = BigintSortKey "64 word" | BlobSortKey "uint8_t list"

definition CreateSortKeyFunction :: "OrderModifiers list \<times> sort_key_type \<Rightarrow> sort_value list \<Rightarrow> sort_key" where
  "CreateSortKeyFunction bind_data row =
     (let key = CreateSortKeyInternal (fst bind_data) row
      in if snd bind_data = BigintKey then BigintSortKey (FinalizeSortData_bigint key) else BlobSortKey key)"

text \<open>The chunk that reaches the function is that of the bound arguments, evaluated on the row.\<close>

definition evaluate :: "expression list \<Rightarrow> sort_value list \<Rightarrow> sort_value list" where
  "evaluate sources row = map2 snd sources row"

definition create_sort_key :: "(OrderModifiers list \<times> sort_key_type) \<times> expression list \<Rightarrow> sort_value list \<Rightarrow> sort_key" where
  "create_sort_key bound row = CreateSortKeyFunction (fst bound) (evaluate (snd bound) row)"

fun DecodeSortKeyFunction :: "(sort_type \<times> OrderModifiers) list \<Rightarrow> sort_key \<Rightarrow> sort_value list decoded" where
  "DecodeSortKeyFunction cols (BigintSortKey key) = DecodeSortKey_bigint (map fst cols) (map snd cols) key"
| "DecodeSortKeyFunction cols (BlobSortKey key) = DecodeSortKey (map fst cols) (map snd cols) key"

lemma bind_columns_agree:
  "bind_specifiers args = Inr ms \<Longrightarrow> bind_columns parse cargs = Inr cols \<Longrightarrow>
   length args mod 2 = 0 \<Longrightarrow> length cargs = length args \<Longrightarrow>
   (\<And>i. 2 * i < length args \<Longrightarrow> constant_value (cargs ! (2 * i + 1)) = constant_value (args ! (2 * i + 1))) \<Longrightarrow>
   map snd cols = ms"
proof (induction args arbitrary: cargs ms cols rule: bind_specifiers.induct)
  case (1 key specifier args)
  obtain col spec cargs' where c: "cargs = col # spec # cargs'" "length cargs' = length args"
    using "1.prems"(4) by (cases cargs; cases "tl cargs") auto
  have s: "bind_specifier spec = bind_specifier specifier" using "1.prems"(5) [of 0] c by (simp add: bind_specifier_def)
  obtain m ms' where m: "bind_specifier specifier = Inr m" "bind_specifiers args = Inr ms'" "ms = m # ms'"
    using "1.prems"(1) by (auto split: sum.splits)
  obtain t cols' where t: "bind_columns parse cargs' = Inr cols'" "cols = (t, m) # cols'"
    using "1.prems"(2) c(1) s m(1) by (auto split: sum.splits)
  have "map snd cols' = ms'"
  proof (rule "1.IH" [OF m(1) m(2) t(1) _ c(2)])
    show "length args mod 2 = 0" using "1.prems"(3) by simp
    fix i
    assume "2 * i < length args"
    then show "constant_value (cargs' ! (2 * i + 1)) = constant_value (args ! (2 * i + 1))"
      using "1.prems"(5) [of "Suc i"] c(1) by simp
  qed
  then show ?case using m t by simp
qed (auto simp: length_Suc_conv)

section \<open>What a collation does\<close>

text \<open>
  What the theorems ask of the parameters: a collation function gives a text without the byte 255, as every
  UTF-8 text is, and the normal form of a VARIANT is a VARIANT, NULL exactly for NULL.
\<close>

definition collations_ok :: "collation_env \<Rightarrow> bool" where
  "collations_ok env \<longleftrightarrow>
     (\<forall>c entry s. get_collation env c = Inr entry \<and> 255 \<notin> set s \<longrightarrow> 255 \<notin> set (collation_function entry s)) \<and>
     (\<forall>v. has_sort_type variant_type v \<longrightarrow>
        has_sort_type variant_type (variant_normalize env v) \<and> sort_null (variant_normalize env v) = sort_null v)"

text \<open>
  The reference. A collation is a list of names, each counted where it stands first; the combinable ones are
  applied from the last to the first, then the other one. No collation, or a binary one, leaves the text.
\<close>

fun first_names :: "string list \<Rightarrow> string list \<Rightarrow> string list" where
  "first_names seen [] = []"
| "first_names seen (c # cs) = (if c \<in> set seen then first_names seen cs else c # first_names (c # seen) cs)"

definition collated :: "collation_env \<Rightarrow> string \<Rightarrow> uint8_t list \<Rightarrow> uint8_t list" where
  "collated env str_collation s =
     (let collation = map CharacterToLower (if str_collation = [] then default_collation env else str_collation);
          entries = map (projr \<circ> get_collation env) (first_names [] (StringUtil_Split (map CharacterToLower collation) (CHR ''.'')))
      in if collation \<in> {'''', ''binary'', ''c'', ''posix''} then s
         else fold collation_function (rev (filter combinable entries) @ filter (\<lambda>e. \<not> combinable e) entries) s)"

text \<open>
  Two values of a logical type: intervals and times with an offset are compared by the operators of their
  types, texts after their collation, a VARIANT in its normal form.
\<close>

fun interval_value :: "sort_value \<Rightarrow> interval_t" where
  "interval_value (FixedV (IntervalV i)) = i"
| "interval_value v = \<lparr>i_months = 0, i_days = 0, i_micros = 0\<rparr>"

fun time_tz_value :: "sort_value \<Rightarrow> dtime_tz_t" where
  "time_tz_value (FixedV (Int64V bits)) = bits"
| "time_tz_value v = 0"

fun text_value :: "sort_value \<Rightarrow> uint8_t list" where
  "text_value (VarcharV s) = s"
| "text_value v = []"

definition logical_compare :: "collation_env \<Rightarrow> logical_type \<Rightarrow> sort_value \<Rightarrow> sort_value \<Rightarrow> int" where
  "logical_compare env t v w =
     (case t of
        IntervalL \<Rightarrow> if interval_greater (interval_value v) (interval_value w) then 1
          else if interval_greater (interval_value w) (interval_value v) then - 1 else 0
      | TimeTzL \<Rightarrow> if tz_less (time_tz_value v) (time_tz_value w) then - 1
          else if tz_less (time_tz_value w) (time_tz_value v) then 1 else 0
      | VarcharL c \<Rightarrow> compare_bytes (collated env c (text_value v)) (collated env c (text_value w))
      | VariantL \<Rightarrow> sort_compare (variant_normalize env v) (variant_normalize env w)
      | PlainL u \<Rightarrow> sort_compare v w)"

definition collated_column_compare :: "collation_env \<Rightarrow> logical_type \<Rightarrow> OrderModifiers \<Rightarrow> sort_value \<Rightarrow> sort_value \<Rightarrow> int" where
  "collated_column_compare env t m v w =
     (if sort_null v = sort_null w then if sort_null v then 0 else directed m (logical_compare env t v w)
      else if sort_null v = (null_type m = NULLS_FIRST) then - 1 else 1)"

fun collated_row_compare :: "collation_env \<Rightarrow> logical_type list \<Rightarrow> OrderModifiers list \<Rightarrow> sort_value list \<Rightarrow> sort_value list \<Rightarrow> int" where
  "collated_row_compare env (t # ts) (m # ms) (v # vs) (w # ws) =
     first_of (collated_column_compare env t m v w) (collated_row_compare env ts ms vs ws)"
| "collated_row_compare env _ _ _ _ = 0"

lemma collation_entries_known:
  "collation_entries env cs seen entries = Inr r \<Longrightarrow> e \<in> set r \<Longrightarrow> e \<in> set entries \<or> (\<exists>c. get_collation env c = Inr e)"
  by (induction env cs seen entries rule: collation_entries.induct) (auto split: if_splits sum.splits)

lemma collation_entries_eq:
  "collation_entries env cs seen entries = Inr r \<Longrightarrow>
   r = rev (filter combinable (map (projr \<circ> get_collation env) (first_names seen cs))) @ entries @
     filter (\<lambda>e. \<not> combinable e) (map (projr \<circ> get_collation env) (first_names seen cs))"
proof (induction env cs seen entries arbitrary: r rule: collation_entries.induct)
  case (2 env c cs seen entries)
  show ?case
  proof (cases "c \<in> set seen")
    case False
    then obtain e where e: "get_collation env c = Inr e" using "2.prems" by (auto split: sum.splits)
    show ?thesis
    proof (cases "combinable e")
      case True
      then show ?thesis using "2.prems" "2.IH"(2) [OF False e True, of r] False e by simp
    next
      case other: False
      then have room: "\<not> (entries \<noteq> [] \<and> \<not> combinable (last entries))" using "2.prems" False e by (auto split: if_splits)
      then have "collation_entries env cs (c # seen) (entries @ [e]) = Inr r"
        using "2.prems" False e other by (cases "entries = []") simp_all
      then show ?thesis using "2.IH"(3) [OF False e other room, of r] False e other by simp
    qed
  qed (use 2 in simp)
qed simp

lemma apply_all:
  "apply_collations ALL_COLLATIONS entries (VarcharT, f) =
   (True, VarcharT, fold (\<lambda>e g. on_text (collation_function e) \<circ> g) entries f)"
  by (induction entries arbitrary: f) (simp_all add: BindScalarFunction_def)

lemma fold_on_text: "fold (\<lambda>e g. on_text (collation_function e) \<circ> g) entries (on_text h) = on_text (fold collation_function entries \<circ> h)"
proof (induction entries arbitrary: h)
  case (Cons e entries)
  have "on_text (collation_function e) \<circ> on_text h = on_text (collation_function e \<circ> h)"
  proof
    fix v
    show "(on_text (collation_function e) \<circ> on_text h) v = on_text (collation_function e \<circ> h) v" by (cases v) simp_all
  qed
  then have "fold (\<lambda>e g. on_text (collation_function e) \<circ> g) (e # entries) (on_text h) =
      fold (\<lambda>e g. on_text (collation_function e) \<circ> g) entries (on_text (collation_function e \<circ> h))" by simp
  also have "\<dots> = on_text (fold collation_function entries \<circ> (collation_function e \<circ> h))" by (rule Cons.IH)
  finally show ?case unfolding fold.simps comp_assoc .
qed (simp add: comp_def)

lemma on_text_id: "on_text id = id"
proof
  show "on_text id v = id v" for v by (cases v) simp_all
qed

lemma fold_keeps: "(\<And>e s. e \<in> set es \<Longrightarrow> P s \<Longrightarrow> P (g e s)) \<Longrightarrow> P s \<Longrightarrow> P (fold g es s)"
  by (induction es arbitrary: s) simp_all

lemma binary_collated:
  "map CharacterToLower (if c = [] then default_collation env else c) \<in> {'''', ''binary'', ''c'', ''posix''} \<Longrightarrow> collated env c = id"
  by (rule ext) (simp only: collated_def Let_def if_True id_apply)

text \<open>Each kind of column after the call.\<close>

lemma pushed_varchar:
  assumes "PushCollation env ALL_COLLATIONS (VarcharL c) (VarcharT, id) = Inr (pushed, source)"
  shows "source = (VarcharT, on_text (collated env c))"
    "collations_ok env \<Longrightarrow> 255 \<notin> set s \<Longrightarrow> 255 \<notin> set (collated env c s)"
proof -
  define l where "l = map CharacterToLower (if c = [] then default_collation env else c)"
  let ?names = "StringUtil_Split (map CharacterToLower l) (CHR ''.'')"
  have "source = (VarcharT, on_text (collated env c)) \<and>
    (collations_ok env \<longrightarrow> 255 \<notin> set s \<longrightarrow> 255 \<notin> set (collated env c s))"
  proof (cases "l \<in> {'''', ''binary'', ''c'', ''posix''}")
    case True
    then have "collated env c = id" by (auto simp: collated_def Let_def l_def)
    moreover have "source = (VarcharT, id)"
      using assms True by (auto simp: PushCollation_def PushVarcharCollation_def Let_def l_def PushTimeTZCollation_def
          PushIntervalCollation_def PushVariantCollation_def)
    ultimately show ?thesis by (simp add: on_text_id)
  next
    case False
    then obtain entries where e: "collation_entries env ?names [] [] = Inr entries"
      using assms by (auto simp: PushCollation_def PushVarcharCollation_def Let_def l_def split: sum.splits)
    note entries = collation_entries_eq [OF e]
    have c: "collated env c = fold collation_function entries"
      by (rule ext) (use False in \<open>simp add: entries collated_def Let_def l_def\<close>)
    have "source = (VarcharT, fold (\<lambda>e g. on_text (collation_function e) \<circ> g) entries id)"
      using assms False e by (auto simp: PushCollation_def PushVarcharCollation_def Let_def l_def apply_all)
    then have "source = (VarcharT, on_text (collated env c))" using fold_on_text [of entries id] by (simp add: on_text_id c)
    moreover have "255 \<notin> set (collated env c s)" if "collations_ok env" "255 \<notin> set s"
    proof -
      have mem: "\<exists>c. get_collation env c = Inr x" if "x \<in> set entries" for x using collation_entries_known [OF e that] by simp
      have "P (collation_function e u)" if "P = (\<lambda>s. 255 \<notin> set s)" "e \<in> set entries" "P u" for P e u
        using mem [OF that(2)] that(1,3) \<open>collations_ok env\<close> by (auto simp: collations_ok_def)
      then show ?thesis unfolding c using \<open>255 \<notin> set s\<close> by (intro fold_keeps [where P = "\<lambda>s. 255 \<notin> set s"]) blast+
    qed
    ultimately show ?thesis by blast
  qed
  then show "source = (VarcharT, on_text (collated env c))"
    "collations_ok env \<Longrightarrow> 255 \<notin> set s \<Longrightarrow> 255 \<notin> set (collated env c s)" by blast+
qed

lemma pushed_other:
  "PushCollation env ALL_COLLATIONS IntervalL (FixedT INTERVAL, id) = Inr (pushed, source) \<Longrightarrow> source = (FixedT INTERVAL, NormalizedIntervalFunction)"
  "PushCollation env ALL_COLLATIONS TimeTzL (FixedT INT64, id) = Inr (pushed, source) \<Longrightarrow> source = (FixedT UINT64, TimeTZSortKeyFunction)"
  "PushCollation env ALL_COLLATIONS VariantL (variant_type, id) = Inr (pushed, source) \<Longrightarrow> source = (variant_type, variant_normalize env)"
  "PushCollation env ALL_COLLATIONS (PlainL t) (t, id) = Inr (False, t, id)"
  by (auto simp: PushCollation_def PushVarcharCollation_def PushTimeTZCollation_def PushIntervalCollation_def
      PushVariantCollation_def push_function_def BindScalarFunction_def split: option.splits)

lemma pushed_function:
  assumes "PushCollation env ALL_COLLATIONS t (InternalType t, id) = Inr (pushed, source)"
  shows "snd source v = (case t of PlainL u \<Rightarrow> v | VarcharL c \<Rightarrow> on_text (collated env c) v | IntervalL \<Rightarrow> NormalizedIntervalFunction v
    | TimeTzL \<Rightarrow> TimeTZSortKeyFunction v | VariantL \<Rightarrow> variant_normalize env v)"
proof (cases t)
  case (VarcharL c)
  then show ?thesis using pushed_varchar(1) [of env c pushed source] assms by simp
next
  case (PlainL u)
  then have "source = (u, id)" using pushed_other(4) [of env u] assms by simp
  then show ?thesis using PlainL by simp
qed (use assms pushed_other(1-3) [of env pushed source] in simp_all)

lemma fits_interval: "fixed_fits (IntervalV i) = interval_fits i"
  by (auto simp: fixed_fits_def int_fits_def interval_fits_def)

lemma normalized_order:
  assumes "interval_fits i" "interval_fits j"
  shows "fixed_compare (IntervalV (Normalize i)) (IntervalV (Normalize j)) =
    (if interval_greater i j then 1 else if interval_greater j i then - 1 else 0)"
proof -
  have less: "fixed_compare (IntervalV a) (IntervalV b) = - 1" "fixed_compare (IntervalV b) (IntervalV a) = 1" if "fields_less a b" for a b
    using that by (auto simp: fields_less_def fixed_compare_def first_of_def)
  show ?thesis
  proof (cases "interval_greater i j")
    case True
    then show ?thesis using less(2) [OF Normalize_monotone [OF assms(2,1)]] by simp
  next
    case i: False
    show ?thesis
    proof (cases "interval_greater j i")
      case True
      then show ?thesis using i less(1) [OF Normalize_monotone [OF assms]] by simp
    next
      case False
      then show ?thesis using i Normalize_equal [OF i False] by (simp add: fixed_compare_def first_of_def)
    qed
  qed
qed

lemma varchar_values: "has_sort_type VarcharT u \<Longrightarrow> u = NullV \<or> (\<exists>s. u = VarcharV s \<and> 255 \<notin> set s)"
  by (cases u) simp_all

lemma time_tz_values: "has_sort_type (FixedT INT64) u \<Longrightarrow> u = NullV \<or> (\<exists>b. u = FixedV (Int64V b))"
proof (cases u)
  case (FixedV f)
  then show "has_sort_type (FixedT INT64) u \<Longrightarrow> ?thesis" by (cases f) simp_all
qed simp_all

lemma interval_values: "has_sort_type (FixedT INTERVAL) u \<Longrightarrow> u = NullV \<or> (\<exists>i. u = FixedV (IntervalV i) \<and> interval_fits i)"
proof (cases u)
  case (FixedV f)
  then show "has_sort_type (FixedT INTERVAL) u \<Longrightarrow> ?thesis" by (cases f) (simp_all add: fits_interval)
qed simp_all

text \<open>The column after its collation has the new type, is null where it was, and compares as the reference says.\<close>

lemma pushed_column:
  assumes "PushCollation env ALL_COLLATIONS t (InternalType t, id) = Inr (pushed, source)" "collations_ok env"
    and "has_sort_type (InternalType t) v" "has_sort_type (InternalType t) w"
  shows "has_sort_type (fst source) (snd source v)" "sort_null (snd source v) = sort_null v"
    "\<not> sort_null v \<Longrightarrow> \<not> sort_null w \<Longrightarrow> sort_compare (snd source v) (snd source w) = logical_compare env t v w"
proof -
  have "has_sort_type (fst source) (snd source v) \<and> sort_null (snd source v) = sort_null v \<and>
    (\<not> sort_null v \<longrightarrow> \<not> sort_null w \<longrightarrow> sort_compare (snd source v) (snd source w) = logical_compare env t v w)"
  proof (cases t)
    case (VarcharL c)
    then have s: "source = (VarcharT, on_text (collated env c))" using pushed_varchar(1) [of env c] assms(1) by simp
    have keep: "255 \<notin> set u \<Longrightarrow> 255 \<notin> set (collated env c u)" for u
      using pushed_varchar(2) [of env c] assms(1,2) VarcharL by simp
    have w: "w = NullV \<or> (\<exists>u. w = VarcharV u)" using varchar_values [of w] assms(4) VarcharL by auto
    have "v = NullV \<or> (\<exists>u. v = VarcharV u \<and> 255 \<notin> set u)" using varchar_values [of v] assms(3) VarcharL by simp
    then show ?thesis
    proof
      assume "\<exists>u. v = VarcharV u \<and> 255 \<notin> set u"
      then obtain u where u: "v = VarcharV u" "255 \<notin> set u" by blast
      show ?thesis using w VarcharL keep [OF u(2)] by (auto simp: s u(1) logical_compare_def)
    qed (simp add: s)
  next
    case TimeTzL
    then have s: "source = (FixedT UINT64, TimeTZSortKeyFunction)" using pushed_other(2) assms(1) by simp
    have "fixed_compare (UInt64V (tz_sort_key a)) (UInt64V (tz_sort_key b)) =
        (if tz_less a b then - 1 else if tz_less b a then 1 else 0)" for a b
      by (simp add: fixed_compare_def first_of_def tz_less_def word_less_def)
    then show ?thesis using time_tz_values [of v] time_tz_values [of w] assms(3,4) TimeTzL by (auto simp: s fixed_fits_def logical_compare_def)
  next
    case IntervalL
    then have s: "source = (FixedT INTERVAL, NormalizedIntervalFunction)" using pushed_other(1) assms(1) by simp
    show ?thesis using interval_values [of v] interval_values [of w] assms(3,4) IntervalL by (auto simp: s normalized_order fits_interval Normalize_fits logical_compare_def)
  next
    case VariantL
    then have "source = (variant_type, variant_normalize env)" using pushed_other(3) assms(1) by simp
    then show ?thesis using assms(2,3) VariantL by (auto simp: collations_ok_def logical_compare_def)
  next
    case (PlainL u)
    then have "source = (u, id)" using pushed_other(4) [of env u] assms(1) by simp
    then show ?thesis using assms(3) PlainL by (simp add: logical_compare_def)
  qed
  then show "has_sort_type (fst source) (snd source v)" "sort_null (snd source v) = sort_null v"
    "\<not> sort_null v \<Longrightarrow> \<not> sort_null w \<Longrightarrow> sort_compare (snd source v) (snd source w) = logical_compare env t v w" by blast+
qed

lemma push_collations_each:
  "push_collations env ts = Inr sources \<Longrightarrow>
   list_all2 (\<lambda>t source. \<exists>pushed. PushCollation env ALL_COLLATIONS t (InternalType t, id) = Inr (pushed, source)) ts sources"
  by (induction ts arbitrary: sources) (auto split: sum.splits prod.splits)

lemma evaluate_Cons [simp]: "evaluate ((t, f) # sources) (v # vs) = f v # evaluate sources vs"
  by (simp add: evaluate_def)

lemma evaluate_Nil [simp]: "evaluate [] vs = []"
  by (simp add: evaluate_def)

lemma evaluated_row:
  assumes "push_collations env ts = Inr sources" "collations_ok env" "list_all2 (has_sort_type \<circ> InternalType) ts vs"
  shows "list_all2 has_sort_type (map fst sources) (evaluate sources vs)"
  using push_collations_each [OF assms(1)] assms(3)
proof (induction ts sources arbitrary: vs rule: list_all2_induct)
  case (Cons t ts source sources)
  obtain v vs' where v: "vs = v # vs'" "has_sort_type (InternalType t) v" using Cons.prems by (cases vs) auto
  then show ?case using Cons pushed_column(1) [OF _ assms(2) v(2,2)] by (cases source) auto
qed simp

lemma evaluated_compare:
  assumes "push_collations env ts = Inr sources" "collations_ok env"
    and "list_all2 (has_sort_type \<circ> InternalType) ts vs" "list_all2 (has_sort_type \<circ> InternalType) ts ws" "length ms = length ts"
  shows "row_compare ms (evaluate sources vs) (evaluate sources ws) = collated_row_compare env ts ms vs ws"
  using push_collations_each [OF assms(1)] assms(3-5)
proof (induction ts sources arbitrary: vs ws ms rule: list_all2_induct)
  case (Cons t ts source sources)
  obtain v vs' where v: "vs = v # vs'" "has_sort_type (InternalType t) v" using Cons.prems(1) by (cases vs) auto
  obtain w ws' where w: "ws = w # ws'" "has_sort_type (InternalType t) w" using Cons.prems(2) by (cases ws) auto
  obtain m ms' where m: "ms = m # ms'" using Cons.prems(3) by (cases ms) auto
  obtain pushed where p: "PushCollation env ALL_COLLATIONS t (InternalType t, id) = Inr (pushed, source)" using Cons.hyps by blast
  have "column_compare m (snd source v) (snd source w) = collated_column_compare env t m v w"
    using pushed_column [OF p assms(2) v(2) w(2)] pushed_column(2) [OF p assms(2) w(2) v(2)]
    by (simp add: column_compare_def collated_column_compare_def)
  then show ?case using Cons v w m by (cases source) auto
qed simp

section \<open>Properties of the sort keys\<close>

lemma bind_lengths: "bind_specifiers args = Inr ms \<Longrightarrow> length ms = length (key_types args)"
  by (induction args arbitrary: ms rule: bind_specifiers.induct) (auto split: sum.splits)

lemma push_lengths: "push_collations env ts = Inr sources \<Longrightarrow> length sources = length ts"
  using list_all2_lengthD [OF push_collations_each] by simp

lemma create_bind:
  assumes "CreateSortKeyBind env args = Inr (b, sources)"
  shows "bind_specifiers args = Inr (fst b)" "push_collations env (key_types args) = Inr sources"
    "length (fst b) = length (key_types args)" "length args mod 2 = 0"
    "snd b = (if key_is_bigint (map fst sources) then BigintKey else BlobKey)"
proof -
  from assms have "bind_specifiers args = Inr (fst b) \<and> push_collations env (key_types args) = Inr sources \<and> length args mod 2 = 0 \<and>
      snd b = (if key_is_bigint (map fst sources) then BigintKey else BlobKey)"
    by (auto simp: CreateSortKeyBind_def split: if_splits sum.splits)
  then show "bind_specifiers args = Inr (fst b)" "push_collations env (key_types args) = Inr sources"
    "length (fst b) = length (key_types args)" "length args mod 2 = 0"
    "snd b = (if key_is_bigint (map fst sources) then BigintKey else BlobKey)"
    using bind_lengths by auto
qed

lemma bigint_key_length:
  assumes "key_is_bigint ts" "list_all2 has_sort_type ts vs" "length ms = length ts"
  shows "length (CreateSortKeyInternal ms vs) \<le> 8"
  using row_length [OF assms(2,3)] bigint_length [OF assms(2)] assms(1) by (simp add: key_is_bigint_def)

definition compare_sort_keys :: "sort_key \<Rightarrow> sort_key \<Rightarrow> int" where
  "compare_sort_keys k l =
     (case (k, l) of
        (BigintSortKey a, BigintSortKey b) \<Rightarrow> sgn (sint a - sint b)
      | (BlobSortKey a, BlobSortKey b) \<Rightarrow> compare_bytes a b
      | _ \<Rightarrow> 0)"

text \<open>
  C11. Sort keys stand for the order: for a call that binds and two rows of its types, the keys compare (as bytes,
  or as signed integers where the key is a BIGINT) as the rows do under the modifiers of their columns: column by
  column, nulls first or last and values up or down as the specifier says, nested values in the same direction with
  their nulls after every value. A column with a collation compares under it: intervals by their own
  operators, for which a month is thirty days, times with an offset by theirs, texts after the functions of
  their collation. Keys are equal exactly where the rows compare equal.
\<close>

theorem sort_keys_ordered:
  assumes "CreateSortKeyBind env args = Inr (b, sources)" "collations_ok env"
    and "list_all2 (has_sort_type \<circ> InternalType) (key_types args) vs" "list_all2 (has_sort_type \<circ> InternalType) (key_types args) ws"
  shows "compare_sort_keys (create_sort_key (b, sources) vs) (create_sort_key (b, sources) ws) =
    sgn (collated_row_compare env (key_types args) (fst b) vs ws)"
proof -
  note bind = create_bind [OF assms(1)]
  let ?vs = "evaluate sources vs" and ?ws = "evaluate sources ws"
  note typed = evaluated_row [OF bind(2) assms(2,3)] evaluated_row [OF bind(2) assms(2,4)]
  have len: "length (fst b) = length (map fst sources)" using bind(3) push_lengths [OF bind(2)] by simp
  have d: "decides (row_compare (fst b) ?vs ?ws) (CreateSortKeyInternal (fst b) ?vs) (CreateSortKeyInternal (fst b) ?ws)"
    by (rule row_order [OF typed len])
  have "compare_sort_keys (CreateSortKeyFunction b ?vs) (CreateSortKeyFunction b ?ws) = sgn (row_compare (fst b) ?vs ?ws)"
  proof (cases "key_is_bigint (map fst sources)")
    case True
    have "length (CreateSortKeyInternal (fst b) ?vs) \<le> 8" "length (CreateSortKeyInternal (fst b) ?ws) \<le> 8"
      using bigint_key_length [OF True typed(1) len] bigint_key_length [OF True typed(2) len] by blast+
    from bigint_order [OF d this create_first_byte create_first_byte] show ?thesis
      using bind(5) True by (simp add: compare_sort_keys_def CreateSortKeyFunction_def)
  next
    case False
    then show ?thesis using bind(5) decides_compare_bytes [OF d] by (simp add: compare_sort_keys_def CreateSortKeyFunction_def)
  qed
  then show ?thesis using evaluated_compare [OF bind(2) assms(2-4) bind(3)] by (simp add: create_sort_key_def)
qed

text \<open>An environment with one collation, under a name that the code registers.\<close>

definition lower_byte :: "uint8_t \<Rightarrow> uint8_t" where
  "lower_byte b = (if 65 \<le> b \<and> b \<le> 90 then b + 32 else b)"

definition example_collations :: collation_env where
  "example_collations = \<lparr>default_collation = '''',
     get_collation = (\<lambda>c. if c = ''nocase'' then Inr \<lparr>combinable = True, collation_function = map lower_byte\<rparr>
       else Inl (CatalogException ''Collation does not exist'')),
     function_missing = (\<lambda>f. None), variant_normalize = id\<rparr>"

lemma example_collations_ok: "collations_ok example_collations"
proof -
  have "b = 255" if "lower_byte b = 255" for b
  proof (cases "65 \<le> b \<and> b \<le> 90")
    case True
    then have "unat (b + 32) = unat b + 32" by (simp add: unat_word_ariths word_le_nat_alt)
    then have "unat (b + 32) \<noteq> unat (255 :: uint8_t)" using True by (simp add: word_le_nat_alt)
    then show ?thesis using True that by (auto simp: lower_byte_def)
  qed (use that in \<open>auto simp: lower_byte_def\<close>)
  then show ?thesis by (force simp: collations_ok_def example_collations_def split: if_splits)
qed

lemma parse_samples:
  "OrderModifiers_Parse ''DESC NULLS LAST'' = Inr \<lparr>order_type = DESCENDING, null_type = NULLS_LAST\<rparr>"
  "OrderModifiers_Parse ''asc_nulls_first'' = Inr \<lparr>order_type = ASCENDING, null_type = NULLS_FIRST\<rparr>"
  by code_simp+

theorem sort_keys_ordered_witness:
  "\<exists>b sources. CreateSortKeyBind example_collations
     [\<lparr>return_type = IntervalL, constant_value = None\<rparr>, \<lparr>return_type = VarcharL '''', constant_value = Some (Some ''DESC NULLS LAST'')\<rparr>] = Inr (b, sources) \<and>
     compare_sort_keys (create_sort_key (b, sources) [FixedV (IntervalV \<lparr>i_months = 0, i_days = 31, i_micros = 0\<rparr>)])
       (create_sort_key (b, sources) [FixedV (IntervalV \<lparr>i_months = 1, i_days = 0, i_micros = 0\<rparr>)]) = - 1"
proof -
  let ?args = "[\<lparr>return_type = IntervalL, constant_value = None\<rparr>,
    \<lparr>return_type = VarcharL '''', constant_value = Some (Some ''DESC NULLS LAST'')\<rparr>] :: argument list"
  let ?v = "[FixedV (IntervalV \<lparr>i_months = 0, i_days = 31, i_micros = 0\<rparr>)]"
  let ?w = "[FixedV (IntervalV \<lparr>i_months = 1, i_days = 0, i_micros = 0\<rparr>)]"
  define b where "b = ([\<lparr>order_type = DESCENDING, null_type = NULLS_LAST\<rparr>], BlobKey)"
  define sources where "sources = [(FixedT INTERVAL, NormalizedIntervalFunction)]"
  have bind: "CreateSortKeyBind example_collations ?args = Inr (b, sources)"
    by (simp add: CreateSortKeyBind_def bind_specifier_def parse_samples b_def sources_def key_is_bigint_def TypeIsConstantSize_def
        PushCollation_def PushVarcharCollation_def PushTimeTZCollation_def PushIntervalCollation_def push_function_def
        BindScalarFunction_def example_collations_def)
  have "compare_sort_keys (create_sort_key (b, sources) ?v) (create_sort_key (b, sources) ?w) =
      sgn (collated_row_compare example_collations (key_types ?args) (fst b) ?v ?w)"
    by (rule sort_keys_ordered [OF bind example_collations_ok]) (simp_all add: fixed_fits_def int_fits_def)
  also have "\<dots> = - 1"
    by (simp add: b_def collated_column_compare_def logical_compare_def directed_def flip_bytes_def first_of_def
        interval_greater_def Normalize_parts_def DAYS_PER_MONTH_def MICROS_PER_DAY_eq signed_divide_int_def Let_def)
  finally show ?thesis using bind by blast
qed

text \<open>
  C33. The bytes of a key are exactly as many as were counted to allocate it, except that a null of a type of
  constant size leaves its bytes unused (the row is that of the arguments with their collations); a BIGINT key needs at most the eight bytes of its integer.
\<close>

theorem sort_key_allocation:
  assumes "CreateSortKeyBind env args = Inr (b, sources)" "list_all2 has_sort_type (map fst sources) vs"
  shows "length (CreateSortKeyInternal (fst b) vs) \<le> sum_list (map2 GetSortKeyLength (map fst sources) vs) \<and>
    length (CreateSortKeyInternal (fst b) vs) = sum_list (map2 (\<lambda>t v. GetSortKeyLengthRecursive v) (map fst sources) vs) \<and>
    (snd b = BigintKey \<longrightarrow> length (CreateSortKeyInternal (fst b) vs) \<le> 8)"
proof -
  note bind = create_bind [OF assms(1)]
  have len: "length (fst b) = length (map fst sources)" using bind(3) push_lengths [OF bind(2)] by simp
  have "length ms = length ts \<Longrightarrow> length vs = length ts \<Longrightarrow>
      length (CreateSortKeyInternal ms vs) = sum_list (map2 (\<lambda>t v. GetSortKeyLengthRecursive v) ts vs)" for ms vs and ts :: "sort_type list"
  proof (induction ts arbitrary: ms vs)
    case (Cons t ts)
    then show ?case by (cases ms; cases vs) (simp_all add: CreateSortKeyInternal_def construct_length)
  qed (simp add: CreateSortKeyInternal_def)
  then show ?thesis
    using row_length [OF assms(2) len] bigint_key_length [OF _ assms(2) len] len bind(5) list_all2_lengthD [OF assms(2)] by auto
qed

theorem sort_key_allocation_witness:
  "length (CreateSortKeyInternal [\<lparr>order_type = DESCENDING, null_type = NULLS_LAST\<rparr>] [FixedV (Int32V 7)]) \<le> 8"
proof -
  have "CreateSortKeyBind example_collations [\<lparr>return_type = PlainL (FixedT INT32), constant_value = None\<rparr>,
      \<lparr>return_type = VarcharL '''', constant_value = Some (Some ''DESC NULLS LAST'')\<rparr>] =
      Inr (([\<lparr>order_type = DESCENDING, null_type = NULLS_LAST\<rparr>], BigintKey), [(FixedT INT32, id)])"
    by (simp add: CreateSortKeyBind_def bind_specifier_def parse_samples key_is_bigint_def TypeIsConstantSize_def pushed_other(4))
  from sort_key_allocation [OF this, of "[FixedV (Int32V 7)]"] show ?thesis by (simp add: fixed_fits_def)
qed

text \<open>
  C12. Decoding a key gives back the row the key was made of: where both calls bind, with the same specifiers, the
  types that the arguments have with their collations and the key type that the first call returns, the decoded row is
  the row of those arguments up to the canonical floating point numbers: normalised intervals, collated
  texts, the sort keys of times with an offset, and the value itself in every column on which no collation
  was pushed, as all have whose type is none of VARCHAR, INTERVAL, TIMETZ and VARIANT, and every VARCHAR of a
  binary collation. The bytes that are left are the padding of a BIGINT.
\<close>

theorem sort_key_roundtrip:
  assumes "CreateSortKeyBind env args = Inr (b, sources)" "DecodeSortKeyBind parse_column (snd b) cargs = Inr cols" "collations_ok env"
    and "map fst cols = map fst sources" "map snd cols = fst b" "list_all2 (has_sort_type \<circ> InternalType) (key_types args) row"
  shows "(\<exists>padding. DecodeSortKeyFunction cols (create_sort_key (b, sources) row) =
        Some (Inr (map decoded_value (evaluate sources row), padding)) \<and>
      set padding \<subseteq> {0} \<and> (snd b = BlobKey \<longrightarrow> padding = [])) \<and>
    length (evaluate sources row) = length row \<and>
    (\<forall>i < length row. evaluate sources row ! i =
       (case key_types args ! i of
          PlainL t \<Rightarrow> row ! i
        | VarcharL c \<Rightarrow> on_text (collated env c) (row ! i)
        | IntervalL \<Rightarrow> NormalizedIntervalFunction (row ! i)
        | TimeTzL \<Rightarrow> TimeTZSortKeyFunction (row ! i)
        | VariantL \<Rightarrow> variant_normalize env (row ! i))) \<and>
    (\<forall>c. map CharacterToLower (if c = [] then default_collation env else c) \<in> {'''', ''binary'', ''c'', ''posix''} \<longrightarrow>
       on_text (collated env c) = id)"
proof (intro conjI)
  note bind = create_bind [OF assms(1)]
  note typed = evaluated_row [OF bind(2) assms(3,6)]
  have len: "length (fst b) = length (map fst sources)" using bind(3) push_lengths [OF bind(2)] by simp
  let ?key = "CreateSortKeyInternal (fst b) (evaluate sources row)"
  have decode: "DecodeSortKey (map fst sources) (fst b) (?key @ rest) = Some (Inr (map decoded_value (evaluate sources row), rest))" for rest
    by (rule row_decode [OF typed len])
  show "\<exists>padding. DecodeSortKeyFunction cols (create_sort_key (b, sources) row) =
      Some (Inr (map decoded_value (evaluate sources row), padding)) \<and> set padding \<subseteq> {0} \<and> (snd b = BlobKey \<longrightarrow> padding = [])"
  proof (cases "key_is_bigint (map fst sources)")
    case True
    then have "length ?key \<le> 8" by (rule bigint_key_length [OF _ typed len])
    from padded_bigint [OF this] show ?thesis using True bind(5) decode assms(4,5)
      by (simp add: create_sort_key_def CreateSortKeyFunction_def DecodeSortKey_bigint_def set_replicate_conv_if)
  next
    case False
    then show ?thesis using bind(5) decode [of "[]"] assms(4,5) by (simp add: create_sort_key_def CreateSortKeyFunction_def)
  qed
  have rows: "length row = length sources" using list_all2_lengthD [OF assms(6)] push_lengths [OF bind(2)] by simp
  then show "length (evaluate sources row) = length row" by (simp add: evaluate_def)
  show "\<forall>i < length row. evaluate sources row ! i =
       (case key_types args ! i of
          PlainL t \<Rightarrow> row ! i
        | VarcharL c \<Rightarrow> on_text (collated env c) (row ! i)
        | IntervalL \<Rightarrow> NormalizedIntervalFunction (row ! i)
        | TimeTzL \<Rightarrow> TimeTZSortKeyFunction (row ! i)
        | VariantL \<Rightarrow> variant_normalize env (row ! i))"
  proof (intro allI impI)
    fix i
    assume i: "i < length row"
    let ?t = "key_types args ! i"
    obtain pushed where p: "PushCollation env ALL_COLLATIONS ?t (InternalType ?t, id) = Inr (pushed, sources ! i)"
      using list_all2_nthD2 [OF push_collations_each [OF bind(2)], of i] i rows by auto
    have "evaluate sources row ! i = snd (sources ! i) (row ! i)" using i rows by (simp add: evaluate_def)
    then show "evaluate sources row ! i =
       (case ?t of
          PlainL t \<Rightarrow> row ! i
        | VarcharL c \<Rightarrow> on_text (collated env c) (row ! i)
        | IntervalL \<Rightarrow> NormalizedIntervalFunction (row ! i)
        | TimeTzL \<Rightarrow> TimeTZSortKeyFunction (row ! i)
        | VariantL \<Rightarrow> variant_normalize env (row ! i))"
      unfolding pushed_function [OF p] .
  qed
  show "\<forall>c. map CharacterToLower (if c = [] then default_collation env else c) \<in> {'''', ''binary'', ''c'', ''posix''} \<longrightarrow>
      on_text (collated env c) = id"
    by (auto simp: binary_collated on_text_id)
qed

theorem sort_key_roundtrip_witness:
  "\<exists>b sources cols padding. CreateSortKeyBind example_collations
     [\<lparr>return_type = VarcharL ''NOCASE'', constant_value = None\<rparr>, \<lparr>return_type = VarcharL '''', constant_value = Some (Some ''DESC NULLS LAST'')\<rparr>] = Inr (b, sources) \<and>
     DecodeSortKeyFunction cols (create_sort_key (b, sources) [VarcharV [68, 98]]) = Some (Inr ([VarcharV [100, 98]], padding))"
proof -
  let ?m = "\<lparr>order_type = DESCENDING, null_type = NULLS_LAST\<rparr>"
  let ?args = "[\<lparr>return_type = VarcharL ''NOCASE'', constant_value = None\<rparr>,
    \<lparr>return_type = VarcharL '''', constant_value = Some (Some ''DESC NULLS LAST'')\<rparr>] :: argument list"
  let ?cargs = "[\<lparr>return_type = VarcharL '''', constant_value = Some (Some ''s VARCHAR'')\<rparr>,
    \<lparr>return_type = VarcharL '''', constant_value = Some (Some ''DESC NULLS LAST'')\<rparr>] :: argument list"
  let ?sources = "[(VarcharT, on_text (map lower_byte))]"
  have names: "map CharacterToLower ''NOCASE'' = ''nocase''" "map CharacterToLower ''nocase'' = ''nocase''"
    "StringUtil_Split ''nocase'' (CHR ''.'') = [''nocase'']" by code_simp+
  have bind: "CreateSortKeyBind example_collations ?args = Inr (([?m], BlobKey), ?sources)"
    by (simp add: CreateSortKeyBind_def bind_specifier_def parse_samples key_is_bigint_def TypeIsConstantSize_def
        PushCollation_def PushVarcharCollation_def names [simplified] Let_def BindScalarFunction_def example_collations_def)
  have dbind: "DecodeSortKeyBind (\<lambda>_. Inr VarcharT) (snd ([?m], BlobKey)) ?cargs = Inr [(VarcharT, ?m)]"
    by (simp add: DecodeSortKeyBind_def bind_specifier_def bind_column_def parse_samples key_is_bigint_def TypeIsConstantSize_def)
  have "\<exists>padding. DecodeSortKeyFunction [(VarcharT, ?m)] (create_sort_key (([?m], BlobKey), ?sources) [VarcharV [68, 98]]) =
      Some (Inr (map decoded_value (evaluate ?sources [VarcharV [68, 98]]), padding)) \<and> set padding \<subseteq> {0} \<and>
      (snd ([?m], BlobKey) = BlobKey \<longrightarrow> padding = [])"
    by (rule conjunct1 [OF sort_key_roundtrip [OF bind dbind example_collations_ok]]) simp_all
  then show ?thesis using bind by (auto simp: lower_byte_def)
qed

text \<open>
  \<open>decode_sort_key\<close> binds only with the key type that \<open>create_sort_key\<close> returns for the same columns, and reads
  the same modifiers: a BIGINT given for a BLOB key, or a BLOB for a BIGINT key, is a binder error before any
  byte is decoded.
\<close>

theorem sort_key_binds_agree:
  assumes "CreateSortKeyBind env args = Inr (b, sources)" "DecodeSortKeyBind parse_column key_type cargs = Inr cols"
    "map fst cols = map fst sources" "length cargs = length args"
    "\<And>i. 2 * i < length args \<Longrightarrow> constant_value (cargs ! (2 * i + 1)) = constant_value (args ! (2 * i + 1))"
  shows "key_type = snd b \<and> map snd cols = fst b"
proof -
  note bind = create_bind [OF assms(1)]
  have "bind_columns parse_column cargs = Inr cols"
    "key_type = (if key_is_bigint (map fst cols) then BigintKey else BlobKey)"
    using assms(2) by (auto simp: DecodeSortKeyBind_def split: if_splits sum.splits sort_key_type.splits)
  then show ?thesis using bind_columns_agree [OF bind(1) _ bind(4) assms(4,5)] bind(5) assms(3) by simp
qed

theorem sort_key_binds_agree_witness:
  "\<exists>cols. DecodeSortKeyBind (\<lambda>_. Inr BlobT) BlobKey
     [\<lparr>return_type = VarcharL '''', constant_value = Some None\<rparr>, \<lparr>return_type = VarcharL '''', constant_value = Some (Some ''asc_nulls_first'')\<rparr>] = Inr cols \<and>
     map snd cols = [\<lparr>order_type = ASCENDING, null_type = NULLS_FIRST\<rparr>]"
proof -
  let ?m = "\<lparr>order_type = ASCENDING, null_type = NULLS_FIRST\<rparr>"
  let ?args = "[\<lparr>return_type = PlainL BlobT, constant_value = None\<rparr>,
    \<lparr>return_type = VarcharL '''', constant_value = Some (Some ''asc_nulls_first'')\<rparr>] :: argument list"
  let ?cargs = "[\<lparr>return_type = VarcharL '''', constant_value = Some None\<rparr>,
    \<lparr>return_type = VarcharL '''', constant_value = Some (Some ''asc_nulls_first'')\<rparr>] :: argument list"
  have bind: "CreateSortKeyBind example_collations ?args = Inr (([?m], BlobKey), [(BlobT, id)])"
    by (simp add: CreateSortKeyBind_def bind_specifier_def parse_samples key_is_bigint_def TypeIsConstantSize_def pushed_other(4))
  have dbind: "DecodeSortKeyBind (\<lambda>_. Inr BlobT) BlobKey ?cargs = Inr [(BlobT, ?m)]"
    by (simp add: DecodeSortKeyBind_def bind_specifier_def bind_column_def parse_samples key_is_bigint_def TypeIsConstantSize_def)
  have "BlobKey = snd ([?m], BlobKey) \<and> map snd [(BlobT, ?m)] = fst ([?m], BlobKey)"
    by (rule sort_key_binds_agree [OF bind dbind]) simp_all
  then show ?thesis using dbind by auto
qed

text \<open>
  C26. Whatever bytes a key has, what is decoded has the type of its column: a text holds no byte that the key cannot
  represent, an array has exactly its size, the fields of an interval fit; at least one byte is consumed,
  and the rest is what follows.
\<close>

theorem decoded_values_typed:
  assumes "DecodeSortKeyRecursive t m data = Some (Inr (v, rest))"
  shows "typed_value t v \<and> (\<exists>used. used \<noteq> [] \<and> data = used @ rest)"
  using decodes_typedD [OF decoder_typed assms] by blast

theorem decoded_values_typed_witness:
  "typed_value (ListT BlobT) (ListV [BlobV [1], NullV]) \<and> (\<exists>used. used \<noteq> [] \<and> [2, 1, 1, 1, 0, 2, 0, 9] = used @ [9 :: uint8_t])"
proof (rule decoded_values_typed)
  show "DecodeSortKeyRecursive (ListT BlobT) \<lparr>order_type = ASCENDING, null_type = NULLS_FIRST\<rparr> [2, 1, 1, 1, 0, 2, 0, 9] =
    Some (Inr (ListV [BlobV [1], NullV], [9]))"
    by code_simp
qed

end
