(* ===== verification/Uuid.thy ===== *)
theory Uuid
  imports Radix_Key
begin

text \<open>
  UUIDs (\<open>common/types/uuid.cpp\<close>): a signed 128 bit integer whose first bit is flipped, so that the order of the integers
  is the order of the texts; the text with hyphens and its liberal and strict reading, the sixteen bytes of a blob, the
  unsigned integer, and the generation of versions 4 and 7 from the integers of the random engine and the clock, which
  are arguments.

  The lemmas go through the sixteen bytes: the text is the text of the bytes with hyphens after the bytes 3, 5, 7 and 9
  (\<open>hyphenated\<close>), reading absorbs a byte per two digits (\<open>absorb\<close>), and the bytes are those of the radix
  encoding of the integer (\<open>ToBlob_EncodeData\<close>), from which the order follows.
\<close>

section \<open>Text\<close>

definition is_hex :: "char \<Rightarrow> bool" where
  "is_hex ch \<longleftrightarrow>
     (48 :: nat) \<le> of_char ch \<and> of_char ch \<le> (57 :: nat) \<or>
     (97 :: nat) \<le> of_char ch \<and> of_char ch \<le> (102 :: nat) \<or>
     (65 :: nat) \<le> of_char ch \<and> of_char ch \<le> (70 :: nat)"

definition hex2char :: "char \<Rightarrow> uint64_t" where
  "hex2char ch =
     (if (48 :: nat) \<le> of_char ch \<and> of_char ch \<le> (57 :: nat) then of_char ch - 48
      else if (97 :: nat) \<le> of_char ch \<and> of_char ch \<le> (102 :: nat) then 10 + of_char ch - 97
      else if (65 :: nat) \<le> of_char ch \<and> of_char ch \<le> (70 :: nat) then 10 + of_char ch - 65
      else 0)"

text \<open>The halves collect sixteen digits each; hyphens are skipped wherever they are.\<close>

fun from_string_loop :: "string \<Rightarrow> nat \<Rightarrow> hugeint_t \<Rightarrow> (hugeint_t \<times> nat) option" where
  "from_string_loop [] count result = Some (result, count)"
| "from_string_loop (c # str) count result =
     (if c = CHR ''-'' then from_string_loop str count result
      else if count \<ge> 32 \<or> \<not> is_hex c then None
      else if count \<ge> 16 then
        from_string_loop str (count + 1) (result\<lparr>h_lower := push_bit 4 (h_lower result) OR hex2char c\<rparr>)
      else from_string_loop str (count + 1) (result\<lparr>h_upper := push_bit 4 (h_upper result) OR hex2char c\<rparr>))"

definition FromString :: "string \<Rightarrow> bool \<Rightarrow> hugeint_t option" where
  "FromString str strict =
     (if str = [] then None
      else
        let has_braces = (if hd str = CHR ''{'' then 1 else 0)
        in if has_braces = 1 \<and> last str \<noteq> CHR ''}'' then None
           else if strict \<and> length str \<noteq> 36 then None
           else if strict \<and> (str ! 8 \<noteq> CHR ''-'' \<or> str ! 13 \<noteq> CHR ''-'' \<or> str ! 18 \<noteq> CHR ''-'' \<or> str ! 23 \<noteq> CHR ''-'') then None
           else
             case from_string_loop (drop has_braces (take (length str - has_braces) str)) 0 \<lparr>h_lower = 0, h_upper = 0\<rparr> of
               None \<Rightarrow> None
             | Some (result, count) \<Rightarrow>
                 if count = 32 then Some (result\<lparr>h_upper := h_upper result XOR push_bit 63 1\<rparr>) else None)"

definition HEX_DIGITS :: string where "HEX_DIGITS = ''0123456789abcdef''"

definition byte_to_hex :: "uint64_t \<Rightarrow> string" where
  "byte_to_hex byte_val =
     [HEX_DIGITS ! unat (drop_bit 4 byte_val AND 0xf), HEX_DIGITS ! unat (byte_val AND 0xf)]"

definition UUID_ToString :: "hugeint_t \<Rightarrow> string" where
  "UUID_ToString input =
     (let upper = h_upper input XOR push_bit 63 1; lower = h_lower input in
      byte_to_hex (drop_bit 56 upper AND 0xFF) @ byte_to_hex (drop_bit 48 upper AND 0xFF) @
      byte_to_hex (drop_bit 40 upper AND 0xFF) @ byte_to_hex (drop_bit 32 upper AND 0xFF) @ ''-'' @
      byte_to_hex (drop_bit 24 upper AND 0xFF) @ byte_to_hex (drop_bit 16 upper AND 0xFF) @ ''-'' @
      byte_to_hex (drop_bit 8 upper AND 0xFF) @ byte_to_hex (upper AND 0xFF) @ ''-'' @
      byte_to_hex (drop_bit 56 lower AND 0xFF) @ byte_to_hex (drop_bit 48 lower AND 0xFF) @ ''-'' @
      byte_to_hex (drop_bit 40 lower AND 0xFF) @ byte_to_hex (drop_bit 32 lower AND 0xFF) @
      byte_to_hex (drop_bit 24 lower AND 0xFF) @ byte_to_hex (drop_bit 16 lower AND 0xFF) @
      byte_to_hex (drop_bit 8 lower AND 0xFF) @ byte_to_hex (lower AND 0xFF))"

section \<open>Unsigned integers and blobs\<close>

definition FromUHugeint :: "uhugeint_t \<Rightarrow> hugeint_t" where
  "FromUHugeint input =
     \<lparr>h_lower = u_lower input,
      h_upper = (if u_upper input > 0x7FFFFFFFFFFFFFFF then u_upper input - 0x7FFFFFFFFFFFFFFF - 1
                 else u_upper input - 0x7FFFFFFFFFFFFFFF - 1)\<rparr>"

definition ToUHugeint :: "hugeint_t \<Rightarrow> uhugeint_t" where
  "ToUHugeint input =
     \<lparr>u_lower = h_lower input,
      u_upper = (if sint (h_upper input) \<ge> 0 then h_upper input + 0x7FFFFFFFFFFFFFFF + 1
                 else h_upper input + 0x7FFFFFFFFFFFFFFF + 1)\<rparr>"

text \<open>The loops read eight bytes, the most significant first.\<close>

definition read_bytes :: "uint8_t list \<Rightarrow> uint64_t" where
  "read_bytes bytes = foldl (\<lambda>acc b. push_bit 8 acc + ucast b) 0 bytes"

definition FromBlob :: "uint8_t list \<Rightarrow> hugeint_t" where
  "FromBlob input =
     \<lparr>h_lower = read_bytes (take 8 (drop 8 input)), h_upper = read_bytes (take 8 input) XOR push_bit 63 1\<rparr>"

definition ToBlob :: "hugeint_t \<Rightarrow> uint8_t list" where
  "ToBlob input =
     (let high_bytes = h_upper input XOR push_bit 63 1; low_bytes = h_lower input in
      map (\<lambda>i. ucast (drop_bit ((8 - i - 1) * 8) high_bytes AND 0xFF)) [0..<8] @
      map (\<lambda>i. ucast (drop_bit ((8 - i - 1) * 8) low_bytes AND 0xFF)) [0..<8])"

section \<open>Generation\<close>

text \<open>The integers of the random engine and the clock are arguments.\<close>

definition UUID_Convert :: "uint8_t list \<Rightarrow> hugeint_t" where
  "UUID_Convert bytes =
     \<lparr>h_lower = 0 OR push_bit 56 (ucast (bytes ! 8)) OR push_bit 48 (ucast (bytes ! 9)) OR push_bit 40 (ucast (bytes ! 10)) OR
        push_bit 32 (ucast (bytes ! 11)) OR push_bit 24 (ucast (bytes ! 12)) OR push_bit 16 (ucast (bytes ! 13)) OR
        push_bit 8 (ucast (bytes ! 14)) OR ucast (bytes ! 15),
      h_upper = 0 OR push_bit 56 (ucast (bytes ! 0)) OR push_bit 48 (ucast (bytes ! 1)) OR push_bit 40 (ucast (bytes ! 2)) OR
        push_bit 32 (ucast (bytes ! 3)) OR push_bit 24 (ucast (bytes ! 4)) OR push_bit 16 (ucast (bytes ! 5)) OR
        push_bit 8 (ucast (bytes ! 6)) OR ucast (bytes ! 7)\<rparr>"

definition UUIDv4_GenerateRandomUUID :: "uint32_t \<Rightarrow> uint32_t \<Rightarrow> uint32_t \<Rightarrow> uint32_t \<Rightarrow> hugeint_t" where
  "UUIDv4_GenerateRandomUUID r0 r1 r2 r3 =
     (let bytes = write_le 4 (unat r0) @ write_le 4 (unat r1) @ write_le 4 (unat r2) @ write_le 4 (unat r3);
        bytes = bytes[8 := bytes ! 8 AND 0xBF];
        bytes = bytes[8 := bytes ! 8 OR 0x80];
        bytes = bytes[6 := bytes ! 6 AND 0x4F];
        bytes = bytes[6 := bytes ! 6 OR 0x40]
      in UUID_Convert bytes)"

definition UUIDv7_GenerateRandomUUID :: "uint64_t \<Rightarrow> uint32_t \<Rightarrow> uint32_t \<Rightarrow> uint32_t \<Rightarrow> hugeint_t" where
  "UUIDv7_GenerateRandomUUID unix_ts_ns random_a random_b random_c =
     (let unix_ts_ms = unix_ts_ns div 1000000;
        bytes =
          [ucast (drop_bit 40 unix_ts_ms), ucast (drop_bit 32 unix_ts_ms), ucast (drop_bit 24 unix_ts_ms),
           ucast (drop_bit 16 unix_ts_ms), ucast (drop_bit 8 unix_ts_ms), ucast unix_ts_ms,
           ucast (drop_bit 24 random_a), ucast (drop_bit 16 random_a), ucast (drop_bit 8 random_a), ucast random_a,
           ucast (drop_bit 24 random_b), ucast (drop_bit 16 random_b), ucast (drop_bit 8 random_b), ucast random_b,
           ucast (drop_bit 24 random_c), ucast (drop_bit 16 random_c)];
        kVersion = 7;
        bytes = bytes[6 := (bytes ! 6 AND 0x0f) OR push_bit 4 kVersion];
        bytes = bytes[8 := (bytes ! 8 AND 0x3f) OR 0x80];
        result = UUID_Convert bytes
      in result\<lparr>h_upper := h_upper result XOR push_bit 63 1\<rparr>)"

section \<open>Bytes of a half\<close>

lemma half_bytes: "Encode_uint64 x = rev (map (\<lambda>i. ucast (drop_bit (8 * i) x)) [0..<8])"
  unfolding Encode_uint64_def by (rule trans [OF swapped_64]) (simp only: store_bytes)

lemma bytes_of_half:
  "map (\<lambda>i. ucast (drop_bit ((8 - i - 1) * 8) x AND 0xFF)) [0..<8] = Encode_uint64 x" for x :: uint64_t
proof -
  have "0xFF = (mask 8 :: 64 word)" by (simp add: mask_eq_exp_minus_1)
  moreover have "ucast (drop_bit k x AND mask 8) = (ucast (drop_bit k x) :: uint8_t)" for k
    by (auto intro!: bit_word_eqI simp: bit_simps)
  ultimately show ?thesis by (simp add: upt_bytes half_bytes)
qed

lemma read_bytes_Encode: "read_bytes (Encode_uint64 x) = x"
proof -
  have step: "push_bit 8 (drop_bit (8 * Suc i) x) + ucast (ucast (drop_bit (8 * i) x) :: uint8_t) = drop_bit (8 * i) x" for i
  proof -
    have "ucast (ucast (drop_bit (8 * i) x) :: uint8_t) = take_bit 8 (drop_bit (8 * i) x)"
      by (auto intro!: bit_word_eqI simp: bit_simps)
    moreover have "drop_bit (8 * Suc i) x = drop_bit 8 (drop_bit (8 * i) x)" by (simp add: drop_bit_drop_bit)
    ultimately show ?thesis by (simp only: bits_ident)
  qed
  have "foldl (\<lambda>acc b. push_bit 8 acc + ucast b) (drop_bit (8 * n) x) (rev (map (\<lambda>i. ucast (drop_bit (8 * i) x) :: uint8_t) [0..<n])) = x" for n
  proof (induction n)
    case (Suc n)
    then show ?case using step [of n] by (simp del: mult_Suc_right)
  qed simp
  from this [of 8] have "foldl (\<lambda>acc b. push_bit 8 acc + ucast b) 0 (rev (map (\<lambda>i. ucast (drop_bit (8 * i) x) :: uint8_t) [0..<8])) = x"
    by (simp add: drop_bit_word_beyond del: upt_conv_Cons)
  then show ?thesis unfolding read_bytes_def half_bytes .
qed

lemma flip_half: "Encode_uint64 (x XOR push_bit 63 1) = flip_first (Encode_uint64 x)"
proof -
  define t :: uint64_t where "t = push_bit 63 1"
  define u :: uint8_t where "u = 128"
  have t: "bit t n \<longleftrightarrow> n = 63" for n unfolding t_def by (simp only: bit_simps) auto
  have "u = push_bit 7 1" by (simp add: u_def)
  then have u: "bit u n \<longleftrightarrow> n = 7" for n by (simp only: bit_simps) auto
  show ?thesis unfolding t_def [symmetric] half_bytes upt_bytes
    by (simp add: FlipSign_def u_def [symmetric]) (auto intro!: bit_word_eqI simp: bit_simps t u)
qed

lemma ToBlob_EncodeData: "ToBlob u = EncodeData (HugeintV u)"
  by (simp only: ToBlob_def Let_def bytes_of_half flip_half EncodeData.simps)

lemma half_twice [simp]: "(x XOR push_bit 63 1) XOR push_bit 63 1 = (x :: uint64_t)"
  by (simp add: xor.assoc)

section \<open>The text is the text of the bytes\<close>

definition hex_nibble :: "nat \<Rightarrow> char" where
  "hex_nibble n = HEX_DIGITS ! n"

lemma hex_nibble_table:
  "n < 16 \<Longrightarrow> is_hex (hex_nibble n) \<and> hex_nibble n \<noteq> CHR ''-'' \<and> hex_nibble n \<noteq> CHR ''{'' \<and> unat (hex2char (hex_nibble n)) = n"
  "m < n \<Longrightarrow> n < 16 \<Longrightarrow> (of_char (hex_nibble m) :: nat) < of_char (hex_nibble n)"
proof -
  have "list_all (\<lambda>n. is_hex (hex_nibble n) \<and> hex_nibble n \<noteq> CHR ''-'' \<and> hex_nibble n \<noteq> CHR ''{'' \<and> unat (hex2char (hex_nibble n)) = n) [0..<16]"
    by code_simp
  then show "n < 16 \<Longrightarrow> is_hex (hex_nibble n) \<and> hex_nibble n \<noteq> CHR ''-'' \<and> hex_nibble n \<noteq> CHR ''{'' \<and> unat (hex2char (hex_nibble n)) = n"
    by (simp only: list_all_iff set_upt atLeastLessThan_iff le0 simp_thms)
  have "list_all (\<lambda>n. list_all (\<lambda>m. (of_char (hex_nibble m) :: nat) < of_char (hex_nibble n)) [0..<n]) [0..<16]"
    by code_simp
  then show "m < n \<Longrightarrow> n < 16 \<Longrightarrow> (of_char (hex_nibble m) :: nat) < of_char (hex_nibble n)"
    by (simp only: list_all_iff set_upt atLeastLessThan_iff le0 simp_thms)
qed

definition hex2 :: "uint8_t \<Rightarrow> string" where
  "hex2 b = [hex_nibble (unat b div 16), hex_nibble (unat b mod 16)]"

lemma byte_to_hex_byte: "byte_to_hex (x AND 0xFF) = hex2 (ucast x)"
proof -
  have m: "0xFF = (mask 8 :: uint64_t)" "0xf = (mask 4 :: uint64_t)" by (simp_all add: mask_eq_exp_minus_1)
  have u: "unat (x AND mask 8) = unat (ucast x :: uint8_t)"
    by (simp add: take_bit_eq_mask [symmetric] unsigned_take_bit_eq unsigned_ucast_eq)
  have "unat (drop_bit 4 y AND mask 4) = unat y div 16 mod 16" "unat (y AND mask 4) = unat y mod 16" for y :: uint64_t
    by (simp_all add: take_bit_eq_mask [symmetric] unsigned_take_bit_eq unsigned_drop_bit_eq take_bit_eq_mod drop_bit_eq_div unat_div unat_mod)
  moreover have "unat (ucast x :: uint8_t) div 16 mod 16 = unat (ucast x :: uint8_t) div 16"
    using unsigned_less [where 'a = nat, of "ucast x :: uint8_t"] by simp
  ultimately show ?thesis by (simp only: byte_to_hex_def hex2_def m u hex_nibble_def)
qed

text \<open>Hyphens follow the bytes 3, 5, 7 and 9.\<close>

fun hyphenated :: "nat \<Rightarrow> uint8_t list \<Rightarrow> string" where
  "hyphenated i [] = []"
| "hyphenated i (b # bs) = hex2 b @ (if i \<in> {3, 5, 7, 9} then ''-'' else []) @ hyphenated (i + 1) bs"

lemma ToString_bytes: "UUID_ToString u = hyphenated 0 (ToBlob u)"
proof -
  have "ToBlob u = rev (map (\<lambda>i. ucast (drop_bit (8 * i) (h_upper u XOR push_bit 63 1))) [0..<8]) @
      rev (map (\<lambda>i. ucast (drop_bit (8 * i) (h_lower u))) [0..<8])"
    unfolding ToBlob_def Let_def bytes_of_half half_bytes ..
  then show ?thesis by (simp add: UUID_ToString_def Let_def byte_to_hex_byte upt_bytes)
qed

lemma length_ToBlob [simp]: "length (ToBlob u) = 16"
  by (simp add: ToBlob_def Let_def)

section \<open>Reading it back\<close>

fun absorb :: "nat \<Rightarrow> uint8_t list \<Rightarrow> hugeint_t \<Rightarrow> hugeint_t" where
  "absorb i [] r = r"
| "absorb i (b # bs) r =
     absorb (i + 1) bs
       (if i \<ge> 8 then r\<lparr>h_lower := push_bit 8 (h_lower r) + ucast b\<rparr> else r\<lparr>h_upper := push_bit 8 (h_upper r) + ucast b\<rparr>)"

lemma two_nibbles:
  "push_bit 4 (push_bit 4 a OR hex2char (hex_nibble (unat b div 16))) OR hex2char (hex_nibble (unat b mod 16)) = push_bit 8 a + ucast b"
  for a :: uint64_t and b :: uint8_t
proof -
  have small: "unat b div 16 < 16" "unat b mod 16 < 16" using unsigned_less [where 'a = nat, of b] by auto
  have wide: "take_bit 64 (unat b) = unat b" "unat b mod 18446744073709551616 = unat b"
    using unsigned_less [where 'a = nat, of b] by (simp_all add: take_bit_nat_eq_self_iff)
  have hi: "hex2char (hex_nibble (unat b div 16)) = drop_bit 4 (ucast b)"
    using hex_nibble_table(1) [OF small(1)] by (simp add: word_unat_eq_iff unsigned_drop_bit_eq unsigned_ucast_eq drop_bit_eq_div wide unat_div unat_mod)
  have lo: "hex2char (hex_nibble (unat b mod 16)) = take_bit 4 (ucast b)"
    using hex_nibble_table(1) [OF small(2)] by (simp add: word_unat_eq_iff unsigned_take_bit_eq unsigned_ucast_eq take_bit_eq_mod wide unat_div unat_mod)
  have "bit b n \<Longrightarrow> n < 8" for n using bit_imp_le_length [of b n] by simp
  then have "push_bit 8 a AND ucast b = 0" by (fastforce intro!: bit_word_eqI simp: bit_simps)
  then have "push_bit 8 a + ucast b = push_bit 8 a OR ucast b" by (rule disjunctive_add_eq_or)
  moreover have "push_bit 4 (push_bit 4 a OR drop_bit 4 (ucast b)) OR take_bit 4 (ucast b) = push_bit 8 a OR (ucast b :: uint64_t)"
    by (auto intro!: bit_word_eqI simp: bit_simps)
  ultimately show ?thesis by (simp only: hi lo)
qed

lemma loop_bytes:
  "i + length bs \<le> 16 \<Longrightarrow> from_string_loop (hyphenated i bs) (2 * i) r = Some (absorb i bs r, 2 * (i + length bs))"
proof (induction bs arbitrary: i r)
  case (Cons b bs)
  have small: "unat b div 16 < 16" "unat b mod 16 < 16" using unsigned_less [where 'a = nat, of b] by auto
  note t = hex_nibble_table(1) [OF small(1)] hex_nibble_table(1) [OF small(2)]
  have hyphen: "from_string_loop ((if i \<in> {3, 5, 7, 9} then ''-'' else []) @ s) c q = from_string_loop s c q" for s c q by simp
  have "from_string_loop (hex2 b @ s) (2 * i) r =
      from_string_loop s (2 * (i + 1)) (if i \<ge> 8 then r\<lparr>h_lower := push_bit 8 (h_lower r) + ucast b\<rparr>
        else r\<lparr>h_upper := push_bit 8 (h_upper r) + ucast b\<rparr>)" for s
    using t Cons.prems two_nibbles [of "h_lower r" b] two_nibbles [of "h_upper r" b] by (simp add: hex2_def)
  then show ?case using Cons.prems Cons.IH [of "i + 1"] by (simp only: hyphenated.simps hyphen) simp
qed simp

lemma absorb_append: "absorb i (bs @ cs) r = absorb (i + length bs) cs (absorb i bs r)"
  by (induction bs arbitrary: i r) (simp_all del: of_nat_Suc)

lemma absorb_upper: "i + length bs \<le> 8 \<Longrightarrow> absorb i bs r = r\<lparr>h_upper := foldl (\<lambda>acc b. push_bit 8 acc + ucast b) (h_upper r) bs\<rparr>"
  by (induction bs arbitrary: i r) simp_all

lemma absorb_lower: "8 \<le> i \<Longrightarrow> absorb i bs r = r\<lparr>h_lower := foldl (\<lambda>acc b. push_bit 8 acc + ucast b) (h_lower r) bs\<rparr>"
  by (induction bs arbitrary: i r) simp_all

lemma absorb_blob: "absorb 0 (ToBlob u) \<lparr>h_lower = 0, h_upper = 0\<rparr> = \<lparr>h_lower = h_lower u, h_upper = h_upper u XOR push_bit 63 1\<rparr>"
  unfolding ToBlob_def Let_def bytes_of_half absorb_append
  by (simp add: absorb_upper absorb_lower read_bytes_Encode [unfolded read_bytes_def] del: push_bit_of_1)

lemma FromBlob_ToBlob: "FromBlob (ToBlob u @ rest) = u"
  unfolding ToBlob_def Let_def bytes_of_half FromBlob_def by (simp only: append_assoc take_append drop_append length_Encode) (simp add: read_bytes_Encode del: push_bit_of_1)

section \<open>Order\<close>

definition text_bytes :: "string \<Rightarrow> uint8_t list" where
  "text_bytes = map of_char"

lemma text_bytes_append [simp]: "text_bytes (s @ t) = text_bytes s @ text_bytes t"
  by (simp add: text_bytes_def)

lemma hex_nibble_order: "m < n \<Longrightarrow> n < 16 \<Longrightarrow> (of_char (hex_nibble m) :: uint8_t) < of_char (hex_nibble n)"
proof -
  assume "m < n" "n < 16"
  then have less: "(of_char (hex_nibble m) :: nat) < of_char (hex_nibble n)" by (rule hex_nibble_table(2))
  have "unat (of_char c :: uint8_t) = (of_char c :: nat)" for c :: char
  proof -
    have "(of_char c :: uint8_t) = word_of_nat (of_char c)" by (rule of_nat_of_char [symmetric])
    then show ?thesis by (simp add: unsigned_of_nat take_bit_nat_eq_self_iff del: of_nat_of_char)
  qed
  then show ?thesis using less by (simp only: word_less_nat_alt)
qed

lemma hex2_order: "a < b \<Longrightarrow> decides (- 1) (text_bytes (hex2 a)) (text_bytes (hex2 b))"
proof -
  assume ab: "a < b"
  have small: "unat b div 16 < 16" "unat b mod 16 < 16" using unsigned_less [where 'a = nat, of b] by auto
  have "unat a < unat b" using ab by (simp add: word_less_nat_alt)
  then consider "unat a div 16 < unat b div 16" | "unat a div 16 = unat b div 16" "unat a mod 16 < unat b mod 16"
    by (metis div_le_mono div_mult_mod_eq le_neq_implies_less less_imp_le_nat nat_add_left_cancel_less)
  then show ?thesis
  proof cases
    case 1
    then show ?thesis using hex_nibble_order [OF 1 small(1)] unfolding hex2_def text_bytes_def
      by (intro decidesI [where p = "[]"]) simp_all
  next
    case 2
    then show ?thesis using hex_nibble_order [OF 2(2) small(2)] unfolding hex2_def text_bytes_def
      by (intro decidesI [where p = "[of_char (hex_nibble (unat b div 16))]"]) simp_all
  qed
qed

lemma hyphenated_append: "hyphenated i (xs @ ys) = hyphenated i xs @ hyphenated (i + length xs) ys"
  by (induction xs arbitrary: i) simp_all

lemma decides_swap:
  assumes "decides c xs ys"
  shows "decides (- c) ys xs"
proof (cases "c = 0")
  case False
  obtain p a b xs' ys' where d: "xs = p @ a # xs'" "ys = p @ b # ys'" "if c < 0 then a < b else b < a"
    by (rule decidesE [OF assms False])
  then show ?thesis using False by (intro decidesI [OF _ d(2,1)]) (auto split: if_splits)
qed (use assms in \<open>simp add: decides_def\<close>)

lemma hyphenated_less:
  assumes "a < b"
  shows "decides (- 1) (text_bytes (hyphenated i (p @ a # xs))) (text_bytes (hyphenated i (p @ b # ys)))"
proof -
  have "decides (first_of (- 1) 0) (text_bytes (hex2 a) @ us) (text_bytes (hex2 b) @ vs)" for us vs
    by (rule decides_append [OF hex2_order [OF assms]]) simp
  then have "decides (- 1) (text_bytes (hex2 a) @ us) (text_bytes (hex2 b) @ vs)" for us vs by (simp add: first_of_def)
  then have "decides (first_of 0 (- 1)) (ts @ text_bytes (hex2 a) @ us) (ts @ text_bytes (hex2 b) @ vs)" for ts us vs
    by (intro decides_append decides_same)
  then show ?thesis unfolding hyphenated_append by (simp add: first_of_def)
qed

lemma hyphenated_order:
  assumes "decides c xs ys"
  shows "decides c (text_bytes (hyphenated i xs)) (text_bytes (hyphenated i ys))"
proof (cases "c = 0")
  case True
  then show ?thesis using assms by (simp add: decides_def)
next
  case False
  obtain p a b xs' ys' where d: "xs = p @ a # xs'" "ys = p @ b # ys'" "if c < 0 then a < b else b < a"
    by (rule decidesE [OF assms False])
  show ?thesis
  proof (cases "c < 0")
    case True
    have "decides (- 1) (text_bytes (hyphenated i xs)) (text_bytes (hyphenated i ys))"
      unfolding d(1,2) using d(3) True by (intro hyphenated_less) simp
    then show ?thesis using True by (intro decides_sgn [of "- 1" c]) simp_all
  next
    case c: False
    have "decides (- 1) (text_bytes (hyphenated i ys)) (text_bytes (hyphenated i xs))"
      unfolding d(1,2) using d(3) c by (intro hyphenated_less) simp
    from decides_swap [OF this] show ?thesis using False c by (intro decides_sgn [of 1 c]) simp_all
  qed
qed

lemma blob_decides: "decides (sgn (hval u - hval v)) (ToBlob u) (ToBlob v)"
proof -
  have "decides (fixed_compare (HugeintV u) (HugeintV v)) (ToBlob u) (ToBlob v)"
    unfolding ToBlob_EncodeData by (rule EncodeData_order) (simp_all add: fixed_fits_def)
  then show ?thesis by (simp add: fixed_compare_def first_of_def split: if_splits)
qed

lemma ToUHugeint_value: "uval (ToUHugeint u) = hval u + 2 ^ 127"
proof -
  have "h_upper u + 0x7FFFFFFFFFFFFFFF + 1 = h_upper u + push_bit 63 1" by simp
  have "uint (x + 0x8000000000000000) = sint x + 2 ^ 63" for x :: uint64_t
  proof -
    have r: "- (2 ^ 63) \<le> sint x" "sint x < 2 ^ 63" using sint_ge [of x] sint_lt [of x] by simp_all
    have "x + 0x8000000000000000 = word_of_int (sint x + 2 ^ 63)" by simp
    then have "uint (x + 0x8000000000000000) = (sint x + 2 ^ 63) mod 2 ^ 64" by (simp only: uint_word_of_int) simp
    then show ?thesis using r by simp
  qed
  then show ?thesis by (simp add: ToUHugeint_def uval_def hval_def add.assoc)
qed

lemma unsigned_twice: "ToUHugeint (FromUHugeint w) = w" "FromUHugeint (ToUHugeint u) = u"
  by (simp_all add: ToUHugeint_def FromUHugeint_def)

section \<open>Which texts are accepted\<close>

definition is_hyphen :: "char \<Rightarrow> bool" where
  "is_hyphen c \<longleftrightarrow> c = CHR ''-''"

text \<open>The hexadecimal digits of a text, without hyphens and the braces around it.\<close>

definition uuid_digits :: "string \<Rightarrow> string" where
  "uuid_digits str = filter (\<lambda>c. \<not> is_hyphen c) (if hd str = CHR ''{'' then tl (butlast str) else str)"

lemma loop_ignores_hyphens: "from_string_loop (filter (\<lambda>c. \<not> is_hyphen c) str) n r = from_string_loop str n r"
  by (induction str arbitrary: n r) (simp_all add: is_hyphen_def)

lemma loop_accepts:
  "from_string_loop str n r \<noteq> None \<longleftrightarrow>
     list_all (\<lambda>c. is_hyphen c \<or> is_hex c) str \<and> (\<forall>k < length (filter (\<lambda>c. \<not> is_hyphen c) str). n + k < 32)"
  "from_string_loop str n r = Some (q, m) \<Longrightarrow> m = n + length (filter (\<lambda>c. \<not> is_hyphen c) str)"
proof -
  show "from_string_loop str n r \<noteq> None \<longleftrightarrow>
     list_all (\<lambda>c. is_hyphen c \<or> is_hex c) str \<and> (\<forall>k < length (filter (\<lambda>c. \<not> is_hyphen c) str). n + k < 32)"
  proof (induction str arbitrary: n r)
    case (Cons c str)
    have shift: "(\<forall>k < Suc l. n + k < 32) \<longleftrightarrow> n < 32 \<and> (\<forall>k < l. n + 1 + k < 32)" for l
      by (simp add: All_less_Suc2)
    show ?case
    proof (cases "is_hyphen c")
      case True
      then show ?thesis using Cons.IH [of n r] by (simp add: is_hyphen_def)
    next
      case False
      then have "c \<noteq> CHR ''-''" by (simp add: is_hyphen_def)
      then show ?thesis using False Cons.IH by (auto simp: shift simp del: not_None_eq)
    qed
  qed simp
  show "from_string_loop str n r = Some (q, m) \<Longrightarrow> m = n + length (filter (\<lambda>c. \<not> is_hyphen c) str)"
    by (induction str arbitrary: n r) (fastforce simp: is_hyphen_def split: if_splits)+
qed

lemma body_of_text: "str \<noteq> [] \<Longrightarrow> hd str = CHR ''{'' \<Longrightarrow> drop 1 (take (length str - 1) str) = tl (butlast str)"
  by (simp add: butlast_conv_take drop_Suc)

definition strict_shape :: "string \<Rightarrow> bool" where
  "strict_shape str \<longleftrightarrow> length str = 36 \<and> str ! 8 = CHR ''-'' \<and> str ! 13 = CHR ''-'' \<and> str ! 18 = CHR ''-'' \<and> str ! 23 = CHR ''-''"

lemma FromString_eq:
  assumes "str \<noteq> []" "hd str = CHR ''{'' \<Longrightarrow> last str = CHR ''}''" "strict \<Longrightarrow> strict_shape str"
  shows "FromString str strict =
    (case from_string_loop (uuid_digits str) 0 \<lparr>h_lower = 0, h_upper = 0\<rparr> of
       None \<Rightarrow> None
     | Some (result, count) \<Rightarrow> if count = 32 then Some (result\<lparr>h_upper := h_upper result XOR push_bit 63 1\<rparr>) else None)"
proof (cases "hd str = CHR ''{''")
  case True
  then show ?thesis using assms body_of_text [OF assms(1) True]
    by (auto simp: FromString_def uuid_digits_def strict_shape_def loop_ignores_hyphens)
next
  case False
  then show ?thesis using assms by (auto simp: FromString_def uuid_digits_def strict_shape_def loop_ignores_hyphens)
qed

lemma digits_accepted:
  "(case from_string_loop ds 0 r of None \<Rightarrow> None | Some (result, count) \<Rightarrow> if count = 32 then Some (f result) else None) \<noteq> None \<longleftrightarrow>
     list_all is_hex ds \<and> length ds = 32" if "list_all (\<lambda>c. \<not> is_hyphen c) ds"
proof -
  have f: "filter (\<lambda>c. \<not> is_hyphen c) ds = ds" "list_all (\<lambda>c. is_hyphen c \<or> is_hex c) ds \<longleftrightarrow> list_all is_hex ds"
    using that by (auto simp: list_all_iff filter_id_conv)
  show ?thesis
  proof (cases "from_string_loop ds 0 r")
    case None
    then have "\<not> (list_all is_hex ds \<and> (\<forall>k < length ds. k < 32))" using loop_accepts(1) [of ds 0 r] f by simp
    then show ?thesis using None by auto
  next
    case (Some qm)
    then obtain q m where q: "from_string_loop ds 0 r = Some (q, m)" by (cases qm) auto
    then have "m = length ds" using loop_accepts(2) [OF q] f by simp
    moreover have "list_all is_hex ds" using loop_accepts(1) [of ds 0 r] q f by simp
    ultimately show ?thesis using q by simp
  qed
qed

section \<open>Generated values\<close>

lemma read_bytes_shifts:
  "read_bytes [b0, b1, b2, b3, b4, b5, b6, b7] =
     0 OR push_bit 56 (ucast b0) OR push_bit 48 (ucast b1) OR push_bit 40 (ucast b2) OR push_bit 32 (ucast b3) OR
     push_bit 24 (ucast b4) OR push_bit 16 (ucast b5) OR push_bit 8 (ucast b6) OR ucast b7"
proof -
  have small: "bit b n \<Longrightarrow> n < 8" for b :: uint8_t and n using bit_imp_le_length [of b n] by simp
  have add: "push_bit 8 a + ucast b = push_bit 8 a OR ucast b" for a :: uint64_t and b :: uint8_t
    by (rule disjunctive_add_eq_or) (use small [of b] in \<open>fastforce intro!: bit_word_eqI simp: bit_simps\<close>)
  show ?thesis by (simp add: read_bytes_def add push_bit_push_bit or.assoc)
qed

lemma UUID_Convert_bytes:
  "length bytes = 16 \<Longrightarrow> UUID_Convert bytes = \<lparr>h_lower = read_bytes (drop 8 bytes), h_upper = read_bytes (take 8 bytes)\<rparr>"
  by (auto simp: UUID_Convert_def read_bytes_shifts length_Suc_conv numeral_eq_Suc)

lemma read_bytes_inject:
  assumes "length bs = 8"
  shows "Encode_uint64 (read_bytes bs) = bs"
proof -
  have "unat (read_bytes (bs @ [b])) = (unat (read_bytes bs) * 256 + unat b) mod 2 ^ 64" for bs b
  proof -
    have wide: "take_bit 64 (unat b) = unat b" using unsigned_less [where 'a = nat, of b] by (simp add: take_bit_nat_eq_self_iff)
    have "unat (read_bytes (bs @ [b])) = unat (push_bit 8 (read_bytes bs) + (ucast b :: uint64_t))" by (simp add: read_bytes_def)
    also have "\<dots> = (unat (read_bytes bs) * 256 + unat b) mod 2 ^ 64"
      using wide by (simp add: unat_word_ariths push_bit_eq_mult unsigned_ucast_eq mod_simps mult.commute)
    finally show ?thesis .
  qed
  then have step: "unat (read_bytes (bs @ [b])) = unat (read_bytes bs) * 256 + unat b" if "unat (read_bytes bs) < 256 ^ 7" for bs b
    using that unsigned_less [where 'a = nat, of b] by simp
  have "length bs \<le> 8 \<Longrightarrow> unat (read_bytes bs) = be_value bs" for bs
  proof (induction bs rule: rev_induct)
    case Nil
    then show ?case by (simp add: read_bytes_def be_value_def)
  next
    case (snoc b bs)
    have "be_value bs < 256 ^ length bs" using le_value_less [of "rev bs"] by (simp add: be_value_def)
    moreover have "(256 :: nat) ^ length bs \<le> 256 ^ 7" using snoc by (intro power_increasing) simp_all
    ultimately have "be_value bs < 256 ^ 7" by (rule less_le_trans)
    then show ?case using step [of bs b] snoc by (simp add: be_value_def)
  qed
  then have "be_value (Encode_uint64 (read_bytes bs)) = be_value bs" using assms by (simp only: be_value_Encode)
  then have "rev (Encode_uint64 (read_bytes bs)) = rev bs"
    unfolding be_value_def using assms by (intro le_value_inject) simp_all
  then show ?thesis by simp
qed

lemma ToBlob_Convert:
  assumes "length bytes = 16"
  shows "ToBlob (UUID_Convert bytes) = flip_first bytes"
    "ToBlob ((UUID_Convert bytes)\<lparr>h_upper := h_upper (UUID_Convert bytes) XOR push_bit 63 1\<rparr>) = bytes"
proof -
  have len: "length (take 8 bytes) = 8" "length (drop 8 bytes) = 8" using assms by simp_all
  have flip: "flip_first (take 8 bytes) @ drop 8 bytes = flip_first bytes" using assms by (cases bytes) simp_all
  show "ToBlob (UUID_Convert bytes) = flip_first bytes"
    unfolding UUID_Convert_bytes [OF assms] ToBlob_EncodeData EncodeData.simps hugeint_t.simps read_bytes_inject [OF len(1)] read_bytes_inject [OF len(2)]
    by (rule flip)
  show "ToBlob ((UUID_Convert bytes)\<lparr>h_upper := h_upper (UUID_Convert bytes) XOR push_bit 63 1\<rparr>) = bytes"
    unfolding UUID_Convert_bytes [OF assms] ToBlob_def Let_def bytes_of_half hugeint_t.simps hugeint_t.update_convs half_twice
      read_bytes_inject [OF len(1)] read_bytes_inject [OF len(2)] by (rule append_take_drop_id)
qed

text \<open>The digits of the version and of the variant are those of the bytes 6 and 8.\<close>

lemma sixteen: "length bs = 16 \<Longrightarrow> \<exists>b0 b1 b2 b3 b4 b5 b6 b7 b8 b9 b10 b11 b12 b13 b14 b15.
    bs = [b0, b1, b2, b3, b4, b5, b6, b7, b8, b9, b10, b11, b12, b13, b14, b15]"
  by (simp only: length_Suc_conv numeral_eq_Suc pred_numeral_simps BitM.simps One_nat_def) auto

lemma version_digits:
  assumes "length bs = 16"
  shows "hyphenated 0 bs ! 14 = hex_nibble (unat (bs ! 6) div 16)" "hyphenated 0 bs ! 19 = hex_nibble (unat (bs ! 8) div 16)"
  using sixteen [OF assms] by (auto simp: hex2_def)

lemma nibble_bits: "unat b div 16 = unat (drop_bit 4 b)" for b :: uint8_t
  by (simp add: drop_bit_eq_div unat_div)

lemma power_bits: "bit (2 ^ k :: uint8_t) n \<longleftrightarrow> n = k \<and> n < 8"
  by (auto simp: bit_simps)

lemma version_four: "unat ((b AND 0x4F) OR 0x40) div 16 = 4" for b :: uint8_t
proof -
  define h f :: uint8_t where "h = 2 ^ 6" and "f = 2 ^ 2"
  have hf: "bit h n \<longleftrightarrow> n = 6" "bit f n \<longleftrightarrow> n = 2" for n unfolding h_def f_def power_bits by auto
  have c: "0x4F = h OR mask 4" "0x40 = h" "unat f = 4" by (simp_all add: h_def f_def mask_eq_exp_minus_1)
  have "drop_bit 4 ((b AND (h OR mask 4)) OR h) = f" by (auto intro!: bit_word_eqI simp: bit_simps hf)
  then show ?thesis unfolding nibble_bits c by (simp only: c)
qed

lemma version_seven: "unat ((b AND 0x0f) OR push_bit 4 7) div 16 = 7" for b :: uint8_t
proof -
  define f :: uint8_t where "f = 7"
  have c: "0x0f = (mask 4 :: uint8_t)" "unat f = 7" by (simp_all add: f_def mask_eq_exp_minus_1)
  have "f = mask 3" by (simp add: f_def mask_eq_exp_minus_1)
  then have "drop_bit 4 ((b AND mask 4) OR push_bit 4 f) = f" by (auto intro!: bit_word_eqI simp: bit_simps)
  then show ?thesis unfolding nibble_bits c f_def [symmetric] by (simp only: c)
qed

lemma variant_bits: "unat ((b AND 0xBF) OR 0x80) div 16 \<in> {8, 9, 10, 11}" "unat ((b AND 0x3f) OR 0x80) div 16 \<in> {8, 9, 10, 11}" for b :: uint8_t
proof -
  define h :: uint8_t where "h = 2 ^ 7"
  have h: "bit h n \<longleftrightarrow> n = 7" for n unfolding h_def power_bits by auto
  have c: "0xBF = h OR mask 6" "0x80 = h" "0x3f = (mask 6 :: uint8_t)" "unat h = 128" by (simp_all add: h_def mask_eq_exp_minus_1)
  have "(b AND (h OR mask 6)) OR h = h + take_bit 6 b" "(b AND mask 6) OR h = h + take_bit 6 b"
  proof -
    have "h + take_bit 6 b = h OR take_bit 6 b"
      by (rule disjunctive_add_eq_or) (auto intro!: bit_word_eqI simp: bit_simps h)
    then show "(b AND (h OR mask 6)) OR h = h + take_bit 6 b" "(b AND mask 6) OR h = h + take_bit 6 b"
      by (auto intro!: bit_word_eqI simp: bit_simps h)
  qed
  moreover have "unat (h + take_bit 6 b) = 128 + unat b mod 64"
  proof -
    have "unat (take_bit 6 b) = unat b mod 64" by (simp add: unsigned_take_bit_eq take_bit_eq_mod unat_mod)
    moreover have "unat b mod 64 < 64" by simp
    then have "unat b mod 64 < 128" by linarith
    ultimately show ?thesis using unat_add_lem [of h "take_bit 6 b"] c(4) by simp
  qed
  moreover have "(128 + unat b mod 64) div 16 \<in> {8, 9, 10, 11}"
  proof -
    have "unat b mod 64 < 64" by simp
    then have "unat b mod 64 div 16 < 4" by (simp add: less_mult_imp_div_less)
    moreover have "(128 + x) div 16 = 8 + x div 16" for x :: nat by presburger
    ultimately show ?thesis by auto
  qed
  ultimately show "unat ((b AND 0xBF) OR 0x80) div 16 \<in> {8, 9, 10, 11}" "unat ((b AND 0x3f) OR 0x80) div 16 \<in> {8, 9, 10, 11}"
    unfolding c by simp_all
qed

lemma v4_blob:
  obtains bytes where "ToBlob (UUIDv4_GenerateRandomUUID r0 r1 r2 r3) = flip_first bytes" "length bytes = 16"
    "\<exists>b. bytes ! 6 = (b AND 0x4F) OR 0x40" "\<exists>b. bytes ! 8 = (b AND 0xBF) OR 0x80"
proof -
  let ?bs = "write_le 4 (unat r0) @ write_le 4 (unat r1) @ write_le 4 (unat r2) @ write_le 4 (unat r3) :: uint8_t list"
  define bs where "bs = ?bs"
  have len: "length bs = 16" by (simp add: bs_def)
  let ?b = "bs[8 := (bs ! 8 AND 0xBF) OR 0x80, 6 := (bs ! 6 AND 0x4F) OR 0x40]"
  have "UUIDv4_GenerateRandomUUID r0 r1 r2 r3 = UUID_Convert ?b"
    unfolding UUIDv4_GenerateRandomUUID_def bs_def [symmetric] Let_def using len by simp
  then have "ToBlob (UUIDv4_GenerateRandomUUID r0 r1 r2 r3) = flip_first ?b" using len by (simp only: ToBlob_Convert length_list_update)
  then show thesis using len by (intro that [of ?b]) auto
qed

lemma v7_blob:
  obtains bytes where "ToBlob (UUIDv7_GenerateRandomUUID ns a b c) = bytes" "length bytes = 16"
    "\<exists>b. bytes ! 6 = (b AND 0x0f) OR push_bit 4 7" "\<exists>b. bytes ! 8 = (b AND 0x3f) OR 0x80"
    "take 6 bytes = drop 2 (Encode_uint64 (ns div 1000000))"
proof -
  define ms where "ms = ns div 1000000"
  define bs :: "uint8_t list" where "bs = [ucast (drop_bit 40 ms), ucast (drop_bit 32 ms), ucast (drop_bit 24 ms),
           ucast (drop_bit 16 ms), ucast (drop_bit 8 ms), ucast ms,
           ucast (drop_bit 24 a), ucast (drop_bit 16 a), ucast (drop_bit 8 a), ucast a,
           ucast (drop_bit 24 b), ucast (drop_bit 16 b), ucast (drop_bit 8 b), ucast b,
           ucast (drop_bit 24 c), ucast (drop_bit 16 c)]"
  have len: "length bs = 16" by (simp add: bs_def)
  let ?b = "bs[6 := (bs ! 6 AND 0x0f) OR push_bit 4 7, 8 := (bs ! 8 AND 0x3f) OR 0x80]"
  have "UUIDv7_GenerateRandomUUID ns a b c = (UUID_Convert ?b)\<lparr>h_upper := h_upper (UUID_Convert ?b) XOR push_bit 63 1\<rparr>"
    unfolding UUIDv7_GenerateRandomUUID_def ms_def [symmetric] bs_def [symmetric] Let_def using len by simp
  then have "ToBlob (UUIDv7_GenerateRandomUUID ns a b c) = ?b" using len by (simp only: ToBlob_Convert length_list_update)
  moreover have "take 6 ?b = drop 2 (Encode_uint64 ms)" unfolding half_bytes upt_bytes by (simp add: bs_def)
  ultimately show thesis using len unfolding ms_def by (intro that [of ?b]) auto
qed

lemma flip_first_nth: "0 < i \<Longrightarrow> flip_first bs ! i = bs ! i"
  by (cases bs; cases i) simp_all

lemma variant_chars: "n \<in> {8, 9, 10, 11} \<Longrightarrow> hex_nibble n \<in> set ''89ab''"
  by (auto simp: hex_nibble_def HEX_DIGITS_def)

section \<open>Properties\<close>

text \<open>
  C28. A UUID comes back from its text, strictly read or not, and in braces; from its sixteen bytes; and from its
  unsigned integer.
\<close>

theorem uuid_roundtrip:
  "FromString (UUID_ToString u) strict = Some u \<and>
   FromString (''{'' @ UUID_ToString u @ ''}'') False = Some u \<and>
   FromBlob (ToBlob u) = u \<and> FromUHugeint (ToUHugeint u) = u \<and> ToUHugeint (FromUHugeint w) = w"
proof -
  obtain b0 b1 b2 b3 b4 b5 b6 b7 b8 b9 b10 b11 b12 b13 b14 b15 where
    b: "ToBlob u = [b0, b1, b2, b3, b4, b5, b6, b7, b8, b9, b10, b11, b12, b13, b14, b15]"
    using sixteen [OF length_ToBlob [of u]] by blast
  let ?t = "UUID_ToString u"
  have first: "hd ?t = hex_nibble (unat b0 div 16)" "?t \<noteq> []" unfolding ToString_bytes b by (simp_all add: hex2_def)
  have "unat b0 div 16 < 16" using unsigned_less [where 'a = nat, of b0] by simp
  from hex_nibble_table(1) [OF this] have brace: "hd ?t \<noteq> CHR ''{''" unfolding first by blast
  have shape: "strict_shape ?t" unfolding ToString_bytes b by (simp add: strict_shape_def hex2_def)
  have loop: "from_string_loop ?t 0 \<lparr>h_lower = 0, h_upper = 0\<rparr> = Some (\<lparr>h_lower = h_lower u, h_upper = h_upper u XOR push_bit 63 1\<rparr>, 32)"
    using loop_bytes [of 0 "ToBlob u" "\<lparr>h_lower = 0, h_upper = 0\<rparr>"] unfolding ToString_bytes absorb_blob by simp
  have digits: "uuid_digits ?t = filter (\<lambda>c. \<not> is_hyphen c) ?t" "uuid_digits (''{'' @ ?t @ ''}'') = filter (\<lambda>c. \<not> is_hyphen c) ?t"
    using brace first(2) by (simp_all add: uuid_digits_def butlast_append)
  have "FromString ?t strict = Some u"
    using FromString_eq [of ?t strict] first(2) brace shape unfolding digits loop_ignores_hyphens loop by (simp del: push_bit_of_1)
  moreover have "FromString (''{'' @ ?t @ ''}'') False = Some u"
    using FromString_eq [of "''{'' @ ?t @ ''}''" False] unfolding digits loop_ignores_hyphens loop by (simp del: push_bit_of_1)
  ultimately show ?thesis using FromBlob_ToBlob [of u "[]"] unsigned_twice by simp
qed

text \<open>
  C27. The order of UUIDs is the order of their texts, of their bytes and of their unsigned integers: this is what the
  flipped first bit is for.
\<close>

theorem uuid_order:
  "compare_bytes (text_bytes (UUID_ToString u)) (text_bytes (UUID_ToString v)) = sgn (hval u - hval v) \<and>
   compare_bytes (ToBlob u) (ToBlob v) = sgn (hval u - hval v) \<and>
   sgn (uval (ToUHugeint u) - uval (ToUHugeint v)) = sgn (hval u - hval v) \<and>
   Hugeint_LessThan u v = (compare_bytes (text_bytes (UUID_ToString u)) (text_bytes (UUID_ToString v)) < 0)"
  using decides_compare_bytes [OF blob_decides [of u v]] decides_compare_bytes [OF hyphenated_order [OF blob_decides [of u v], of 0]]
  by (simp add: ToString_bytes ToUHugeint_value hval_compare sgn_if)

text \<open>
  A text is read, where no fixed positions are asked for, exactly if it has 32 hexadecimal digits in all, with any
  hyphens between them and a closing brace where it begins with an opening one.
\<close>

theorem uuid_accepted:
  "(FromString str False \<noteq> None) =
     (str \<noteq> [] \<and> (if hd str = CHR ''{'' then last str = CHR ''}'' else True) \<and> list_all is_hex (uuid_digits str) \<and> length (uuid_digits str) = 32)"
proof (cases "str \<noteq> [] \<and> (if hd str = CHR ''{'' then last str = CHR ''}'' else True)")
  case True
  have "list_all (\<lambda>c. \<not> is_hyphen c) (uuid_digits str)" by (simp add: uuid_digits_def list_all_iff)
  note accepted = digits_accepted [OF this, where r = "\<lparr>h_lower = 0, h_upper = 0\<rparr>" and f = "\<lambda>q. q\<lparr>h_upper := h_upper q XOR push_bit 63 1\<rparr>"]
  have "FromString str False =
    (case from_string_loop (uuid_digits str) 0 \<lparr>h_lower = 0, h_upper = 0\<rparr> of
       None \<Rightarrow> None
     | Some (result, count) \<Rightarrow> if count = 32 then Some (result\<lparr>h_upper := h_upper result XOR push_bit 63 1\<rparr>) else None)"
    using True by (intro FromString_eq) auto
  then show ?thesis using True accepted by simp
next
  case False
  then show ?thesis by (auto simp: FromString_def split: if_splits)
qed

text \<open>
  Generated UUIDs carry their version and variant in the text, and those of version 7 are ordered by the
  millisecond they were made in.
\<close>

theorem uuid_generated:
  "UUID_ToString (UUIDv4_GenerateRandomUUID r0 r1 r2 r3) ! 14 = CHR ''4'' \<and>
   UUID_ToString (UUIDv4_GenerateRandomUUID r0 r1 r2 r3) ! 19 \<in> set ''89ab'' \<and>
   UUID_ToString (UUIDv7_GenerateRandomUUID ns a b c) ! 14 = CHR ''7'' \<and>
   UUID_ToString (UUIDv7_GenerateRandomUUID ns a b c) ! 19 \<in> set ''89ab'' \<and>
   (ns div 1000000 < ns' div 1000000 \<longrightarrow>
      Hugeint_LessThan (UUIDv7_GenerateRandomUUID ns a b c) (UUIDv7_GenerateRandomUUID ns' a' b' c'))"
proof -
  have digit: "hex_nibble 4 = CHR ''4''" "hex_nibble 7 = CHR ''7''" by code_simp+
  obtain bs where v4: "ToBlob (UUIDv4_GenerateRandomUUID r0 r1 r2 r3) = flip_first bs" "length bs = 16"
    "\<exists>b. bs ! 6 = (b AND 0x4F) OR 0x40" "\<exists>b. bs ! 8 = (b AND 0xBF) OR 0x80" by (rule v4_blob)
  have len: "length (flip_first bs) = 16" using v4(2) by simp
  have four: "UUID_ToString (UUIDv4_GenerateRandomUUID r0 r1 r2 r3) ! 14 = CHR ''4''"
    "UUID_ToString (UUIDv4_GenerateRandomUUID r0 r1 r2 r3) ! 19 \<in> set ''89ab''"
    unfolding ToString_bytes v4(1) version_digits [OF len] using v4(3,4) version_four variant_chars variant_bits(1) digit
    by (auto simp only: flip_first_nth zero_less_numeral)
  obtain cs where v7: "ToBlob (UUIDv7_GenerateRandomUUID ns a b c) = cs" "length cs = 16"
    "\<exists>b. cs ! 6 = (b AND 0x0f) OR push_bit 4 7" "\<exists>b. cs ! 8 = (b AND 0x3f) OR 0x80"
    "take 6 cs = drop 2 (Encode_uint64 (ns div 1000000))" by (rule v7_blob)
  have seven: "UUID_ToString (UUIDv7_GenerateRandomUUID ns a b c) ! 14 = CHR ''7''"
    "UUID_ToString (UUIDv7_GenerateRandomUUID ns a b c) ! 19 \<in> set ''89ab''"
    unfolding ToString_bytes v7(1) version_digits [OF v7(2)] using v7(3,4) version_seven variant_chars variant_bits(2) digit
    by (auto simp only:)
  obtain ds where w7: "ToBlob (UUIDv7_GenerateRandomUUID ns' a' b' c') = ds" "length ds = 16"
    "\<exists>b. ds ! 6 = (b AND 0x0f) OR push_bit 4 7" "\<exists>b. ds ! 8 = (b AND 0x3f) OR 0x80"
    "take 6 ds = drop 2 (Encode_uint64 (ns' div 1000000))" by (rule v7_blob)
  have "Hugeint_LessThan (UUIDv7_GenerateRandomUUID ns a b c) (UUIDv7_GenerateRandomUUID ns' a' b' c')"
    if less: "ns div 1000000 < ns' div 1000000"
  proof -
    have "decides (- 1) (Encode_uint64 (ns div 1000000)) (Encode_uint64 (ns' div 1000000))"
      using decides_be_value [of "Encode_uint64 (ns div 1000000)" "Encode_uint64 (ns' div 1000000)"] less [unfolded word_less_def]
      by (intro decides_sgn [of "int (unat (ns div 1000000)) - int (unat (ns' div 1000000))" "- 1"])
        (simp_all add: be_value_Encode)
    moreover have "take 2 (Encode_uint64 (t div 1000000)) = [0, 0]" for t :: uint64_t
    proof -
      have "unat (t div 1000000) < 2 ^ 48" using unsigned_less [where 'a = nat, of t] by (simp add: unat_div less_mult_imp_div_less)
      then have "take_bit 48 (unat (t div 1000000)) = unat (t div 1000000)" by (simp only: take_bit_nat_eq_self)
      then have "t div 1000000 = take_bit 48 (t div 1000000)" by (simp only: word_unat_eq_iff unsigned_take_bit_eq)
      then have "\<not> bit (t div 1000000) n" if "48 \<le> n" for n using that by (metis bit_take_bit_iff not_le)
      then have "drop_bit 48 (t div 1000000) = 0" "drop_bit 56 (t div 1000000) = 0" by (auto intro!: bit_word_eqI simp: bit_simps)
      then show ?thesis unfolding half_bytes upt_bytes by simp
    qed
    ultimately have "decides (- 1) ([0, 0] @ take 6 cs) ([0, 0] @ take 6 ds)"
      unfolding v7(5) w7(5) by (metis append_take_drop_id)
    then have "decides (- 1) (take 6 cs) (take 6 ds)" by (simp add: decides_Cons_same)
    then have "decides (first_of (- 1) 0) (take 6 cs @ drop 6 cs) (take 6 ds @ drop 6 ds)" by (rule decides_append) simp
    then have "compare_bytes cs ds = - 1" using decides_compare_bytes [of "- 1" cs ds] by (simp add: first_of_def)
    moreover have "compare_bytes cs ds = sgn (hval (UUIDv7_GenerateRandomUUID ns a b c) - hval (UUIDv7_GenerateRandomUUID ns' a' b' c'))"
      using decides_compare_bytes [OF blob_decides] unfolding v7(1) [symmetric] w7(1) [symmetric] by simp
    ultimately show ?thesis by (simp add: hval_compare sgn_if split: if_splits)
  qed
  then show ?thesis using four seven by blast
qed

theorem uuid_generated_witness:
  "Hugeint_LessThan (UUIDv7_GenerateRandomUUID 1000000 5 6 7) (UUIDv7_GenerateRandomUUID 2000000 1 2 3)"
proof -
  have "(1000000 :: uint64_t) div 1000000 < 2000000 div 1000000" by (simp add: word_less_nat_alt unat_div)
  then show ?thesis using uuid_generated [of 0 0 0 0 1000000 5 6 7 2000000 1 2 3] by blast
qed

end
