(* ===== verification/Blob_Text.thy ===== *)
theory Blob_Text
  imports Decimal_Text "HOL-Library.Word"
begin

text \<open>
  Blobs as text (\<open>common/types/blob.cpp\<close>): the text with escapes, and base 64.

  Each direction computes the length of its output first and then fills it. The loops over an index are recursions over
  what is left of the input; where the second pass of the conversion from text trusts the first, a read past the end
  is a value, and a lemma says that it does not happen. The tables are lists of integers as in the code.
\<close>

unbundle bit_operations_syntax

section \<open>Escaped text\<close>

definition HEX_TABLE :: string where "HEX_TABLE = ''0123456789ABCDEF''"

definition HEX_MAP :: "int list" where
  "HEX_MAP = replicate 48 (- 1) @ [0, 1, 2, 3, 4, 5, 6, 7, 8, 9] @ replicate 7 (- 1) @ [10, 11, 12, 13, 14, 15] @
     replicate 26 (- 1) @ [10, 11, 12, 13, 14, 15] @ replicate 153 (- 1)"

definition IsRegularCharacter :: "uint8_t \<Rightarrow> bool" where
  "IsRegularCharacter c \<longleftrightarrow> c \<ge> 32 \<and> c \<le> 126 \<and> c \<noteq> 92 \<and> c \<noteq> 39 \<and> c \<noteq> 34"

fun GetStringSize :: "uint8_t list \<Rightarrow> nat" where
  "GetStringSize [] = 0"
| "GetStringSize (b # blob) = (if IsRegularCharacter b then 1 else 4) + GetStringSize blob"

fun Blob_ToString :: "uint8_t list \<Rightarrow> string" where
  "Blob_ToString [] = []"
| "Blob_ToString (b # blob) =
     (if IsRegularCharacter b then [char_of (unat b)]
      else [CHR 0x5C, CHR ''x'', HEX_TABLE ! unat (drop_bit 4 b), HEX_TABLE ! unat (b AND 0x0F)]) @ Blob_ToString blob"

definition unterminated_escape :: exn where
  "unterminated_escape = ConversionException ''Invalid hex escape code encountered in string -> blob conversion of string %s: unterminated escape code at end of blob''"

definition invalid_escape :: exn where
  "invalid_escape = ConversionException ''Invalid hex escape code encountered in string -> blob conversion of string %s: %s''"

definition invalid_byte :: exn where
  "invalid_byte = ConversionException ''Invalid byte encountered in STRING -> BLOB conversion of string %s. All non-ascii characters must be escaped with hex codes (e.g. xAA)''"

text \<open>The error is left for the caller to raise or to record; the model returns it.\<close>

fun blob_size_loop :: "string \<Rightarrow> nat \<Rightarrow> nat result" where
  "blob_size_loop [] str_len = Inr str_len"
| "blob_size_loop (c # str) str_len =
     (if c = CHR 0x5C then
        (case str of
           x # a # b # str' \<Rightarrow>
             if x \<noteq> CHR ''x'' \<or> HEX_MAP ! of_char a < 0 \<or> HEX_MAP ! of_char b < 0 then Inl invalid_escape
             else blob_size_loop str' (str_len + 1)
         | _ \<Rightarrow> Inl unterminated_escape)
      else if (of_char c :: nat) \<le> 127 then blob_size_loop str (str_len + 1)
      else Inl invalid_byte)"

definition TryGetBlobSize :: "string \<Rightarrow> nat result" where
  "TryGetBlobSize str = blob_size_loop str 0"

text \<open>The second pass trusts the first; a read past the end of the text is \<open>None\<close>.\<close>

fun to_blob_loop :: "string \<Rightarrow> uint8_t list result option" where
  "to_blob_loop [] = Some (Inr [])"
| "to_blob_loop (c # str) =
     (if c = CHR 0x5C then
        (case str of
           x # a # b # str' \<Rightarrow>
             (case to_blob_loop str' of
                Some (Inr blob) \<Rightarrow> Some (Inr (word_of_int (HEX_MAP ! of_char a * 16 + HEX_MAP ! of_char b) # blob))
              | r \<Rightarrow> r)
         | _ \<Rightarrow> None)
      else if (of_char c :: nat) \<le> 127 then
        (case to_blob_loop str of Some (Inr blob) \<Rightarrow> Some (Inr (of_char c # blob)) | r \<Rightarrow> r)
      else Some (Inl invalid_byte))"

definition ToBlob_text :: "string \<Rightarrow> uint8_t list result option" where
  "ToBlob_text str = (case TryGetBlobSize str of Inl e \<Rightarrow> Some (Inl e) | Inr blob_len \<Rightarrow> to_blob_loop str)"

section \<open>Base 64\<close>

definition BASE64_MAP :: string where
  "BASE64_MAP = ''ABCDEFGHIJKLMNOPQRSTUVWXYZabcdefghijklmnopqrstuvwxyz0123456789+/''"

definition BASE64_PADDING :: char where "BASE64_PADDING = CHR ''=''"

definition ToBase64Size :: "uint8_t list \<Rightarrow> nat" where
  "ToBase64Size blob = (length blob + 2) div 3 * 4"

fun ToBase64 :: "uint8_t list \<Rightarrow> string" where
  "ToBase64 [] = []"
| "ToBase64 [a] =
     [BASE64_MAP ! unat (drop_bit 2 a AND 0x3F), BASE64_MAP ! unat (push_bit 4 (a AND 0x3)), BASE64_PADDING, BASE64_PADDING]"
| "ToBase64 [a, b] =
     [BASE64_MAP ! unat (drop_bit 2 a AND 0x3F), BASE64_MAP ! unat (push_bit 4 (a AND 0x3) OR drop_bit 4 (b AND 0xF0)),
      BASE64_MAP ! unat (push_bit 2 (b AND 0xF)), BASE64_PADDING]"
| "ToBase64 (a # b # c # blob) =
     [BASE64_MAP ! unat (drop_bit 2 a AND 0x3F), BASE64_MAP ! unat (push_bit 4 (a AND 0x3) OR drop_bit 4 (b AND 0xF0)),
      BASE64_MAP ! unat (push_bit 2 (b AND 0xF) OR drop_bit 6 (c AND 0xC0)), BASE64_MAP ! unat (c AND 0x3F)] @ ToBase64 blob"

definition BASE64_DECODING_TABLE :: "int list" where
  "BASE64_DECODING_TABLE = replicate 43 (- 1) @ [62, - 1, - 1, - 1, 63] @ map int [52..<62] @ replicate 7 (- 1) @
     map int [0..<26] @ replicate 6 (- 1) @ map int [26..<52] @ replicate 133 (- 1)"

definition FromBase64Size :: "string \<Rightarrow> nat result" where
  "FromBase64Size str =
     (if length str mod 4 \<noteq> 0 then
        Inl (ConversionException ''Could not decode string %s as base64: length must be a multiple of 4'')
      else if length str < 4 then Inr 0
      else
        let base_size = length str div 4 * 3
        in if str ! (length str - 2) = BASE64_PADDING then Inr (base_size - 2)
           else if str ! (length str - 1) = BASE64_PADDING then Inr (base_size - 1)
           else Inr base_size)"

fun decode_digits :: "bool \<Rightarrow> nat \<Rightarrow> string \<Rightarrow> int list result" where
  "decode_digits allow_padding decode_idx [] = Inr []"
| "decode_digits allow_padding decode_idx (c # cs) =
     (let decoded = (if allow_padding \<and> decode_idx \<ge> 2 \<and> c = BASE64_PADDING then 0 else BASE64_DECODING_TABLE ! of_char c)
      in if decoded < 0 then Inl (ConversionException ''Could not decode string %s as base64: invalid byte value %d at position %d'')
         else case decode_digits allow_padding (decode_idx + 1) cs of Inl e \<Rightarrow> Inl e | Inr ds \<Rightarrow> Inr (decoded # ds))"

definition DecodeBase64Bytes :: "bool \<Rightarrow> string \<Rightarrow> uint32_t result" where
  "DecodeBase64Bytes allow_padding input_data =
     (case decode_digits allow_padding 0 input_data of
        Inl e \<Rightarrow> Inl e
      | Inr decoded_bytes \<Rightarrow>
          Inr (word_of_int (decoded_bytes ! 0 * 2 ^ 18 + decoded_bytes ! 1 * 2 ^ 12 + decoded_bytes ! 2 * 2 ^ 6 + decoded_bytes ! 3)))"

definition combined_bytes :: "uint32_t \<Rightarrow> uint8_t list" where
  "combined_bytes combined =
     [ucast (drop_bit 16 combined AND 0xFF), ucast (drop_bit 8 combined AND 0xFF), ucast (combined AND 0xFF)]"

text \<open>\<open>space\<close> is how much of the output is left; the last group writes only what fits, but at least one byte.\<close>

fun from_base64_loop :: "string \<Rightarrow> nat \<Rightarrow> uint8_t list result" where
  "from_base64_loop (c0 # c1 # c2 # c3 # str) space =
     (if str \<noteq> [] then
        case DecodeBase64Bytes False [c0, c1, c2, c3] of
          Inl e \<Rightarrow> Inl e
        | Inr combined \<Rightarrow>
            (case from_base64_loop str (space - 3) of Inl e \<Rightarrow> Inl e | Inr output \<Rightarrow> Inr (combined_bytes combined @ output))
      else
        case DecodeBase64Bytes True [c0, c1, c2, c3] of
          Inl e \<Rightarrow> Inl e
        | Inr combined \<Rightarrow> Inr (take (max 1 space) (combined_bytes combined)))"
| "from_base64_loop _ space = Inr []"

definition FromBase64 :: "string \<Rightarrow> uint8_t list result" where
  "FromBase64 str = (case FromBase64Size str of Inl e \<Rightarrow> Inl e | Inr output_size \<Rightarrow> from_base64_loop str output_size)"

lemma samples:
  "ToBase64 [77, 97, 110, 65] = ''TWFuQQ==''" "FromBase64 ''TWFuQQ=='' = Inr [77, 97, 110, 65]"
  "FromBase64 ''QQ=A'' = Inr [65]" "Blob_ToString [65, 0, 255] = ''A'' @ [CHR 0x5C] @ ''x00'' @ [CHR 0x5C] @ ''xFF''"
  "ToBlob_text ([CHR 0x5C] @ ''xfF'') = Some (Inr [255])"
  by code_simp+

lemma hex_table:
  "n < 16 \<Longrightarrow> HEX_MAP ! of_char (HEX_TABLE ! n) = int n"
proof -
  have "list_all (\<lambda>n. HEX_MAP ! of_char (HEX_TABLE ! n) = int n) [0..<16]" by code_simp
  then show "n < 16 \<Longrightarrow> HEX_MAP ! of_char (HEX_TABLE ! n) = int n"
    by (simp only: list_all_iff set_upt atLeastLessThan_iff le0 simp_thms)
qed

lemma byte_less: "unat b < 256" for b :: uint8_t
  using unsigned_less [where 'a = nat, of b] by simp

lemma byte_nibbles: "unat (drop_bit 4 b) = unat b div 16" "unat (b AND 0x0F) = unat b mod 16" for b :: uint8_t
proof -
  have m: "0x0F = (mask 4 :: uint8_t)" by (simp add: mask_eq_exp_minus_1)
  show "unat (drop_bit 4 b) = unat b div 16" by (simp add: drop_bit_eq_div unat_div)
  show "unat (b AND 0x0F) = unat b mod 16" unfolding m take_bit_eq_mask [symmetric] by (simp add: take_bit_eq_mod unat_mod)
qed

lemma escaped_byte:
  "word_of_int (HEX_MAP ! of_char (HEX_TABLE ! unat (drop_bit 4 b)) * 16 + HEX_MAP ! of_char (HEX_TABLE ! unat (b AND 0x0F))) = b" for b :: uint8_t
proof -
  have "unat b div 16 < 16" using byte_less [of b] by simp
  then have "HEX_MAP ! of_char (HEX_TABLE ! (unat b div 16)) * 16 + HEX_MAP ! of_char (HEX_TABLE ! (unat b mod 16)) = int (unat b)"
    using hex_table [of "unat b mod 16"] by (simp add: hex_table zdiv_int zmod_int)
  then show ?thesis unfolding byte_nibbles by simp
qed

lemma hex_digit_valid: "0 \<le> HEX_MAP ! of_char (HEX_TABLE ! unat (drop_bit 4 b))" "0 \<le> HEX_MAP ! of_char (HEX_TABLE ! unat (b AND 0x0F))" for b :: uint8_t
proof -
  have "unat b div 16 < 16" using byte_less [of b] by simp
  then show "0 \<le> HEX_MAP ! of_char (HEX_TABLE ! unat (drop_bit 4 b))" unfolding byte_nibbles by (simp add: hex_table)
  show "0 \<le> HEX_MAP ! of_char (HEX_TABLE ! unat (b AND 0x0F))" unfolding byte_nibbles by (simp add: hex_table)
qed

lemma regular_char:
  assumes "IsRegularCharacter b"
  shows "char_of (unat b) \<noteq> CHR 0x5C" "(of_char (char_of (unat b) :: char) :: nat) \<le> 127" "(of_char (char_of (unat b) :: char) :: uint8_t) = b"
proof -
  have n: "(of_char (char_of (unat b) :: char) :: nat) = unat b" using byte_less [of b] by simp
  have "unat b \<le> 126" "unat b \<noteq> 92" using assms by (simp_all add: IsRegularCharacter_def word_le_nat_alt word_unat_eq_iff)
  then show "char_of (unat b) \<noteq> CHR 0x5C" "(of_char (char_of (unat b) :: char) :: nat) \<le> 127"
    using n by (auto dest: arg_cong [where f = "of_char :: char \<Rightarrow> nat"])
  have "(of_char (char_of (unat b) :: char) :: uint8_t) = word_of_nat (of_char (char_of (unat b) :: char))" by (rule of_nat_of_char [symmetric])
  then show "(of_char (char_of (unat b) :: char) :: uint8_t) = b" unfolding n by simp
qed

lemma blob_text_back: "to_blob_loop (Blob_ToString blob) = Some (Inr blob)"
proof (induction blob)
  case (Cons b blob)
  show ?case
  proof (cases "IsRegularCharacter b")
    case True
    then show ?thesis using Cons regular_char [OF True] by simp
  next
    case False
    then show ?thesis using Cons escaped_byte [of b] by simp
  qed
qed simp

lemma blob_text_size: "blob_size_loop (Blob_ToString blob) n = Inr (n + length blob)"
proof (induction blob arbitrary: n)
  case (Cons b blob)
  show ?case
  proof (cases "IsRegularCharacter b")
    case True
    then show ?thesis using Cons regular_char [OF True] by simp
  next
    case False
    then show ?thesis using Cons [of "Suc n"] hex_digit_valid [of b] by (simp add: not_less)
  qed
qed simp

lemma string_size: "length (Blob_ToString blob) = GetStringSize blob"
  by (induction blob) simp_all

lemma two_passes:
  "blob_size_loop str n = Inr m \<Longrightarrow> \<exists>blob. to_blob_loop str = Some (Inr blob) \<and> m = n + length blob"
proof (induction str n arbitrary: m rule: blob_size_loop.induct)
  case (2 c str n)
  show ?case
  proof (cases "c = CHR 0x5C")
    case True
    then obtain x a b str' where s: "str = x # a # b # str'" "blob_size_loop str' (n + 1) = Inr m"
      "\<not> (x \<noteq> CHR ''x'' \<or> HEX_MAP ! of_char a < 0 \<or> HEX_MAP ! of_char b < 0)"
      using "2.prems" by (auto split: list.splits if_splits)
    have "\<exists>blob. to_blob_loop str' = Some (Inr blob) \<and> m = n + 1 + length blob"
      by (rule "2.IH"(1) [OF True s(1) refl refl s(3) s(2)])
    then show ?thesis using True s(1) by auto
  next
    case False
    then have "(of_char c :: nat) \<le> 127" "blob_size_loop str (n + 1) = Inr m" using "2.prems" by (auto split: if_splits)
    then show ?thesis using False "2.IH"(2) by fastforce
  qed
qed simp

text \<open>
  C29. A blob comes back from its text, whose length is the one that was computed to allocate it; and whenever the
  first pass over any text counts its bytes, the second pass finds exactly so many, without an error and without
  reading past the end of the text.
\<close>

theorem blob_text_roundtrip:
  "ToBlob_text (Blob_ToString blob) = Some (Inr blob) \<and> length (Blob_ToString blob) = GetStringSize blob \<and>
   (case TryGetBlobSize str of
      Inl e \<Rightarrow> ToBlob_text str = Some (Inl e)
    | Inr blob_len \<Rightarrow> \<exists>output. ToBlob_text str = Some (Inr output) \<and> length output = blob_len)"
proof -
  have "ToBlob_text (Blob_ToString blob) = Some (Inr blob)"
    using blob_text_size [of blob 0] blob_text_back by (simp add: ToBlob_text_def TryGetBlobSize_def)
  then show ?thesis using string_size two_passes [of str 0]
    by (auto simp: ToBlob_text_def TryGetBlobSize_def split: sum.split)
qed

section \<open>Base 64\<close>

lemma base64_table:
  "n < 64 \<Longrightarrow> BASE64_DECODING_TABLE ! of_char (BASE64_MAP ! n) = int n \<and> BASE64_MAP ! n \<noteq> BASE64_PADDING"
proof -
  have "list_all (\<lambda>n. BASE64_DECODING_TABLE ! of_char (BASE64_MAP ! n) = int n \<and> BASE64_MAP ! n \<noteq> BASE64_PADDING) [0..<64]" by code_simp
  then show "n < 64 \<Longrightarrow> BASE64_DECODING_TABLE ! of_char (BASE64_MAP ! n) = int n \<and> BASE64_MAP ! n \<noteq> BASE64_PADDING"
    by (simp only: list_all_iff set_upt atLeastLessThan_iff le0 simp_thms)
qed

lemma byte_bit: "bit b n \<Longrightarrow> n < 8" for b :: uint8_t
  using bit_imp_le_length [of b n] by simp

text \<open>The digits of three bytes, by their values.\<close>

lemma sextets:
  fixes a b c :: uint8_t
  shows "unat (drop_bit 2 a AND 0x3F) = unat a div 4"
    "unat (push_bit 4 (a AND 0x3)) = unat a mod 4 * 16"
    "unat (push_bit 4 (a AND 0x3) OR drop_bit 4 (b AND 0xF0)) = unat a mod 4 * 16 + unat b div 16"
    "unat (push_bit 2 (b AND 0xF)) = unat b mod 16 * 4"
    "unat (push_bit 2 (b AND 0xF) OR drop_bit 6 (c AND 0xC0)) = unat b mod 16 * 4 + unat c div 64"
    "unat (c AND 0x3F) = unat c mod 64"
proof -
  have m: "0x3F = (mask 6 :: uint8_t)" "0x3 = (mask 2 :: uint8_t)" "0xF = (mask 4 :: uint8_t)" by (simp_all add: mask_eq_exp_minus_1)
  have h: "(0xF0 :: uint8_t) = push_bit 4 (mask 4)" "(0xC0 :: uint8_t) = push_bit 6 (mask 2)" by (simp_all add: mask_eq_exp_minus_1)
  have t: "unat (x AND mask k) = unat x mod 2 ^ k" for x :: uint8_t and k
    by (simp only: take_bit_eq_mask [symmetric] unsigned_take_bit_eq) (simp only: take_bit_eq_mod)
  have d: "unat (drop_bit k x) = unat x div 2 ^ k" for x :: uint8_t and k
    by (simp only: unat_drop_bit_eq) (simp only: drop_bit_eq_div)
  have p: "unat (push_bit k x) = unat x * 2 ^ k" if "unat x * 2 ^ k < 256" for x :: uint8_t and k
    by (simp only: unsigned_push_bit_eq) (use that in \<open>simp add: push_bit_eq_mult take_bit_eq_mod\<close>)
  show "unat (drop_bit 2 a AND 0x3F) = unat a div 4"
    unfolding m t d using byte_less [of a] by simp
  have q4: "unat (push_bit 4 (a AND mask 2)) = unat a mod 4 * 16" using p [of "a AND mask 2" 4] t [of a 2] by simp
  then show "unat (push_bit 4 (a AND 0x3)) = unat a mod 4 * 16" unfolding m .
  have q2: "unat (push_bit 2 (b AND mask 4)) = unat b mod 16 * 4"
  proof -
    have "unat b mod 16 * 4 < 256" using mod_less_divisor [of 16 "unat b"] by linarith
    then show ?thesis using p [of "b AND mask 4" 2] t [of b 4] by simp
  qed
  then show "unat (push_bit 2 (b AND 0xF)) = unat b mod 16 * 4" unfolding m .
  have small: "bit x (4 + n) \<Longrightarrow> n < 4" "bit x (6 + n) \<Longrightarrow> n < 2" "bit x n \<Longrightarrow> n < 8" for x :: uint8_t and n
    using byte_bit [of x "4 + n"] byte_bit [of x "6 + n"] byte_bit [of x n] by simp_all
  have hi: "drop_bit 4 (x AND push_bit 4 (mask 4)) = drop_bit 4 x" "drop_bit 6 (x AND push_bit 6 (mask 2)) = drop_bit 6 x" for x :: uint8_t
    by (auto intro!: bit_word_eqI simp: bit_simps dest: small)
  have sum: "unat (x OR y) = unat x + unat y" if "x AND y = 0" "unat x + unat y < 256" for x y :: uint8_t
  proof -
    have "x OR y = x + y" using disjunctive_add_eq_or [OF that(1)] by simp
    then show ?thesis using unat_add_lem [of x y] that(2) by simp
  qed
  have "push_bit 4 (a AND mask 2) AND drop_bit 4 b = 0" "push_bit 2 (b AND mask 4) AND drop_bit 6 c = 0"
    by (fastforce intro!: bit_word_eqI simp: bit_simps dest: small)+
  moreover have "unat a mod 4 * 16 + unat b div 16 < 256" "unat b mod 16 * 4 + unat c div 64 < 256"
  proof -
    have "unat b div 16 < 16" "unat c div 64 < 4" using byte_less [of b] byte_less [of c] by simp_all
    moreover have "unat a mod 4 < 4" "unat b mod 16 < 16" by simp_all
    ultimately show "unat a mod 4 * 16 + unat b div 16 < 256" "unat b mod 16 * 4 + unat c div 64 < 256" by linarith+
  qed
  ultimately show "unat (push_bit 4 (a AND 0x3) OR drop_bit 4 (b AND 0xF0)) = unat a mod 4 * 16 + unat b div 16"
    "unat (push_bit 2 (b AND 0xF) OR drop_bit 6 (c AND 0xC0)) = unat b mod 16 * 4 + unat c div 64"
    unfolding m h hi using sum [of "push_bit 4 (a AND mask 2)" "drop_bit 4 b"] sum [of "push_bit 2 (b AND mask 4)" "drop_bit 6 c"] q4 q2
      d [of 4 b] d [of 6 c] by simp_all
  show "unat (c AND 0x3F) = unat c mod 64" unfolding m t by simp
qed

lemma DecodeBase64Bytes_digits:
  assumes "n0 < 64" "n1 < 64" "n2 < 64" "n3 < 64"
  shows "DecodeBase64Bytes p [BASE64_MAP ! n0, BASE64_MAP ! n1, BASE64_MAP ! n2, BASE64_MAP ! n3] =
      Inr (word_of_int (int (n0 * 2 ^ 18 + n1 * 2 ^ 12 + n2 * 2 ^ 6 + n3)))"
    "DecodeBase64Bytes True [BASE64_MAP ! n0, BASE64_MAP ! n1, BASE64_MAP ! n2, BASE64_PADDING] =
      Inr (word_of_int (int (n0 * 2 ^ 18 + n1 * 2 ^ 12 + n2 * 2 ^ 6)))"
    "DecodeBase64Bytes True [BASE64_MAP ! n0, BASE64_MAP ! n1, BASE64_PADDING, BASE64_PADDING] =
      Inr (word_of_int (int (n0 * 2 ^ 18 + n1 * 2 ^ 12)))"
  using assms [THEN base64_table] by (simp_all add: DecodeBase64Bytes_def)

lemma combined_three:
  "combined_bytes (word_of_int (int (unat a * 65536 + unat b * 256 + unat c))) = [a, b, c]" for a b c :: uint8_t
proof -
  define w :: uint32_t where "w = word_of_int (int (unat a * 65536 + unat b * 256 + unat c))"
  have small: "unat a * 65536 + unat b * 256 + unat c < 2 ^ 24" using byte_less [of a] byte_less [of b] byte_less [of c] by simp
  have "w = word_of_nat (unat a * 65536 + unat b * 256 + unat c)" unfolding w_def by simp
  then have u: "unat w = unat a * 65536 + unat b * 256 + unat c" using small by (simp only: unsigned_of_nat) (simp add: take_bit_nat_eq_self)
  have m: "0xFF = (mask 8 :: uint32_t)" by (simp add: mask_eq_exp_minus_1)
  have byte: "(ucast (drop_bit k w AND 0xFF) :: uint8_t) = x" if "unat w div 2 ^ k mod 256 = unat x" for k and x :: uint8_t
  proof -
    have "unat (drop_bit k w AND mask 8) = unat w div 2 ^ k mod 256"
      by (simp only: take_bit_eq_mask [symmetric] unsigned_take_bit_eq unat_drop_bit_eq) (simp only: take_bit_eq_mod drop_bit_eq_div, simp)
    then have "unat (ucast (drop_bit k w AND mask 8) :: uint8_t) = unat x"
      using that by (simp only: unsigned_ucast_eq) (simp add: take_bit_eq_mod)
    then show ?thesis unfolding m by (simp only: word_unat_eq_iff)
  qed
  have "unat w div 2 ^ 16 mod 256 = unat a" "unat w div 2 ^ 8 mod 256 = unat b" "unat w div 2 ^ 0 mod 256 = unat c"
  proof -
    have "unat b * 256 + unat c < 65536" using byte_less [of b] byte_less [of c] by simp
    then have "unat w div 65536 = unat a" unfolding u by (simp add: add.assoc div_mult_self3)
    then show "unat w div 2 ^ 16 mod 256 = unat a" using byte_less [of a] by simp
    have "unat w = (unat a * 256 + unat b) * 256 + unat c" unfolding u by simp
    then have "unat w div 256 = unat a * 256 + unat b" using byte_less [of c] by simp
    then show "unat w div 2 ^ 8 mod 256 = unat b" using byte_less [of b] by simp
    have "unat w mod 256 = unat c" unfolding \<open>unat w = (unat a * 256 + unat b) * 256 + unat c\<close> mod_mult_self3 using byte_less [of c] by simp
    then show "unat w div 2 ^ 0 mod 256 = unat c" by simp
  qed
  from this [THEN byte] show ?thesis unfolding combined_bytes_def w_def [symmetric] by simp
qed

lemma group_sum:
  fixes a b c p q r s t u :: nat
  assumes "a = p * 4 + q" "b = r * 16 + s" "c = t * 64 + u"
  shows "p * 2 ^ 18 + (q * 16 + r) * 2 ^ 12 + (s * 4 + t) * 2 ^ 6 + u = a * 65536 + b * 256 + c"
    "p * 2 ^ 18 + (q * 16 + r) * 2 ^ 12 + s * 4 * 2 ^ 6 = a * 65536 + b * 256"
    "p * 2 ^ 18 + q * 16 * 2 ^ 12 = a * 65536"
  unfolding assms by (simp_all add: algebra_simps)

lemmas group_values = group_sum [OF div_mult_mod_eq [symmetric] div_mult_mod_eq [symmetric] div_mult_mod_eq [symmetric]]

lemma group_bounds: "unat a div 4 < 64" "unat a mod 4 * 16 + unat b div 16 < 64" "unat b mod 16 * 4 + unat c div 64 < 64" "unat c mod 64 < 64"
    "unat a mod 4 * 16 < 64" "unat b mod 16 * 4 < 64" for a b c :: uint8_t
proof -
  have "unat a div 4 < 64" "unat b div 16 < 16" "unat c div 64 < 4" using byte_less [of a] byte_less [of b] byte_less [of c] by simp_all
  moreover have "unat a mod 4 < 4" "unat b mod 16 < 16" "unat c mod 64 < 64" by simp_all
  ultimately show "unat a div 4 < 64" "unat a mod 4 * 16 + unat b div 16 < 64" "unat b mod 16 * 4 + unat c div 64 < 64" "unat c mod 64 < 64"
    "unat a mod 4 * 16 < 64" "unat b mod 16 * 4 < 64" by linarith+
qed

lemma group_decodes:
  "\<exists>w. DecodeBase64Bytes p (take 4 (ToBase64 (a # b # c # blob))) = Inr w \<and> combined_bytes w = [a, b, c]"
  "\<exists>w. DecodeBase64Bytes True (ToBase64 [a, b]) = Inr w \<and> combined_bytes w = [a, b, 0]"
  "\<exists>w. DecodeBase64Bytes True (ToBase64 [a]) = Inr w \<and> combined_bytes w = [a, 0, 0]"
proof -
  note digits = DecodeBase64Bytes_digits [OF group_bounds(1) [of a] group_bounds(2) [of a b] group_bounds(3) [of b c] group_bounds(4) [of c]]
  show "\<exists>w. DecodeBase64Bytes p (take 4 (ToBase64 (a # b # c # blob))) = Inr w \<and> combined_bytes w = [a, b, c]"
    using digits(1) [of p] combined_three [of a b c] unfolding group_values(1) ToBase64.simps sextets(1,2,3,4,5) unfolding sextets(6) by simp
  show "\<exists>w. DecodeBase64Bytes True (ToBase64 [a, b]) = Inr w \<and> combined_bytes w = [a, b, 0]"
    using DecodeBase64Bytes_digits(2) [OF group_bounds(1) [of a] group_bounds(2) [of a b] group_bounds(6) [of b] group_bounds(1) [of a]] combined_three [of a b 0]
    unfolding group_values(2) ToBase64.simps sextets(1,2,3,4,5) unfolding sextets(6) by simp
  show "\<exists>w. DecodeBase64Bytes True (ToBase64 [a]) = Inr w \<and> combined_bytes w = [a, 0, 0]"
    using DecodeBase64Bytes_digits(3) [OF group_bounds(1) [of a] group_bounds(5) [of a] group_bounds(1) [of a] group_bounds(1) [of a]] combined_three [of a 0 0]
    unfolding group_values(3) ToBase64.simps sextets(1,2,3,4,5) unfolding sextets(6) by simp
qed

lemma ToBase64_length: "length (ToBase64 blob) = ToBase64Size blob"
proof (induction blob rule: ToBase64.induct)
  case (4 a b c blob)
  have "(5 + length blob) div 3 = Suc (Suc (Suc (length blob)) div 3)" by presburger
  then show ?case using 4 by (simp add: ToBase64Size_def)
qed (simp_all add: ToBase64Size_def)

lemma ToBase64_nonempty: "blob \<noteq> [] \<Longrightarrow> ToBase64 blob \<noteq> []"
  by (cases blob rule: ToBase64.cases) simp_all

lemma FromBase64Size_step:
  assumes "str \<noteq> []"
  shows "FromBase64Size (c0 # c1 # c2 # c3 # str) = (case FromBase64Size str of Inl e \<Rightarrow> Inl e | Inr n \<Rightarrow> Inr (n + 3))"
proof (cases "length str mod 4 = 0")
  case True
  then have four: "4 \<le> length str" using assms by (cases "length str < 4") auto
  have at: "(c0 # c1 # c2 # c3 # str) ! (i + 4) = str ! i" for i by (simp add: numeral_eq_Suc)
  have len: "length (c0 # c1 # c2 # c3 # str) = length str + 4" by simp
  have "length str + 4 - 2 = length str - 2 + 4" "length str + 4 - 1 = length str - 1 + 4" using four by simp_all
  moreover have "(length str + 4) mod 4 = 0" "\<not> length str + 4 < 4" "\<not> length str < 4" using True four by simp_all
  moreover have "(length str + 4) div 4 * 3 = length str div 4 * 3 + 3" by presburger
  moreover have "3 \<le> length str div 4 * 3" using four div_le_mono [of 4 "length str" 4] by simp
  ultimately show ?thesis using True unfolding FromBase64Size_def len Let_def by (simp only: at) auto
next
  case False
  have "length (c0 # c1 # c2 # c3 # str) mod 4 = length str mod 4" by simp
  then show ?thesis using False by (simp add: FromBase64Size_def)
qed

lemma FromBase64Size_ToBase64: "FromBase64Size (ToBase64 blob) = Inr (length blob)"
proof (induction blob rule: ToBase64.induct)
  case 1
  show ?case by (simp add: FromBase64Size_def)
next
  case (2 a)
  show ?case by (simp add: FromBase64Size_def)
next
  case (3 a b)
  have "BASE64_MAP ! unat (push_bit 2 (b AND 0xF)) \<noteq> BASE64_PADDING" unfolding sextets using base64_table group_bounds(6) by blast
  then show ?case by (simp add: FromBase64Size_def)
next
  case (4 a b c blob)
  show ?case
  proof (cases "blob = []")
    case True
    have "BASE64_MAP ! unat (push_bit 2 (b AND 0xF) OR drop_bit 6 (c AND 0xC0)) \<noteq> BASE64_PADDING" "BASE64_MAP ! unat (c AND 0x3F) \<noteq> BASE64_PADDING"
      unfolding sextets using base64_table group_bounds(3,4) by blast+
    then show ?thesis using True by (simp add: FromBase64Size_def)
  next
    case False
    then show ?thesis using 4 FromBase64Size_step [OF ToBase64_nonempty [OF False]] by simp
  qed
qed

lemma FromBase64_loop_back: "from_base64_loop (ToBase64 blob) (length blob) = Inr blob"
proof (induction blob rule: ToBase64.induct)
  case 1
  show ?case by simp
next
  case (2 a)
  show ?case using group_decodes(3) [of a] by auto
next
  case (3 a b)
  show ?case using group_decodes(2) [of a b] by auto
next
  case (4 a b c blob)
  obtain w where w: "DecodeBase64Bytes (blob = []) (take 4 (ToBase64 (a # b # c # blob))) = Inr w" "combined_bytes w = [a, b, c]"
    using group_decodes(1) by blast
  then show ?case using 4 ToBase64_nonempty [of blob] by (cases "blob = []") auto
qed

definition base64_digit :: "char \<Rightarrow> bool" where
  "base64_digit c \<longleftrightarrow> 0 \<le> BASE64_DECODING_TABLE ! of_char c"

text \<open>A text in which the two last characters may be padding, each for itself.\<close>

definition base64_text :: "string \<Rightarrow> bool" where
  "base64_text str \<longleftrightarrow>
     length str mod 4 = 0 \<and> list_all base64_digit (take (length str - 2) str) \<and>
     list_all (\<lambda>c. base64_digit c \<or> c = BASE64_PADDING) (drop (length str - 2) str)"

lemma group_accepted:
  "(\<exists>w. DecodeBase64Bytes False [c0, c1, c2, c3] = Inr w) \<longleftrightarrow> base64_digit c0 \<and> base64_digit c1 \<and> base64_digit c2 \<and> base64_digit c3"
  "(\<exists>w. DecodeBase64Bytes True [c0, c1, c2, c3] = Inr w) \<longleftrightarrow>
     base64_digit c0 \<and> base64_digit c1 \<and> (base64_digit c2 \<or> c2 = BASE64_PADDING) \<and> (base64_digit c3 \<or> c3 = BASE64_PADDING)"
  by (auto simp: DecodeBase64Bytes_def base64_digit_def Let_def not_less split: sum.splits if_splits)

lemma base64_text_step:
  assumes "str \<noteq> []"
  shows "base64_text (c0 # c1 # c2 # c3 # str) \<longleftrightarrow>
     base64_digit c0 \<and> base64_digit c1 \<and> base64_digit c2 \<and> base64_digit c3 \<and> base64_text str"
proof (cases "length str mod 4 = 0")
  case True
  then have four: "4 \<le> length str" using assms by (cases "length str < 4") auto
  then have "length (c0 # c1 # c2 # c3 # str) - 2 = Suc (Suc (Suc (Suc (length str - 2))))" by simp
  then show ?thesis using True unfolding base64_text_def by (simp only: take_Suc_Cons drop_Suc_Cons) auto
next
  case False
  then show ?thesis by (simp add: base64_text_def)
qed

lemma loop_accepted: "length str mod 4 = 0 \<Longrightarrow> (\<exists>output. from_base64_loop str n = Inr output) \<longleftrightarrow> base64_text str"
proof (induction str n rule: from_base64_loop.induct)
  case (1 c0 c1 c2 c3 str n)
  show ?case
  proof (cases "str = []")
    case True
    have "base64_text [c0, c1, c2, c3] \<longleftrightarrow> (\<exists>w. DecodeBase64Bytes True [c0, c1, c2, c3] = Inr w)"
      unfolding group_accepted by (auto simp: base64_text_def)
    then show ?thesis using True by (auto split: sum.splits)
  next
    case False
    have len: "length str mod 4 = 0" using "1.prems" by simp
    show ?thesis
    proof (cases "DecodeBase64Bytes False [c0, c1, c2, c3]")
      case (Inl e)
      then have "\<not> (base64_digit c0 \<and> base64_digit c1 \<and> base64_digit c2 \<and> base64_digit c3)"
        using group_accepted(1) [of c0 c1 c2 c3] by simp
      then show ?thesis unfolding base64_text_step [OF False] using False Inl by auto
    next
      case (Inr w)
      then have "base64_digit c0 \<and> base64_digit c1 \<and> base64_digit c2 \<and> base64_digit c3"
        using group_accepted(1) [of c0 c1 c2 c3] by simp
      moreover have "(\<exists>output. from_base64_loop str (n - 3) = Inr output) \<longleftrightarrow> base64_text str"
        by (rule "1.IH" [OF False Inr len])
      ultimately show ?thesis unfolding base64_text_step [OF False] using False Inr by (auto split: sum.splits)
    qed
  qed
qed (auto simp: base64_text_def)

lemma loop_length:
  "from_base64_loop str n = Inr out \<Longrightarrow> FromBase64Size str = Inr n \<Longrightarrow> length out = n"
proof (induction str n arbitrary: out rule: from_base64_loop.induct)
  case (1 c0 c1 c2 c3 str n)
  show ?case
  proof (cases "str = []")
    case True
    then have "n \<in> {1, 2, 3}" using "1.prems"(2) by (auto simp: FromBase64Size_def split: if_splits)
    then show ?thesis using "1.prems"(1) True by (auto simp: combined_bytes_def split: sum.splits)
  next
    case False
    obtain w where w: "DecodeBase64Bytes False [c0, c1, c2, c3] = Inr w" using "1.prems"(1) False by (auto split: sum.splits)
    then obtain bs where out: "from_base64_loop str (n - 3) = Inr bs" "out = combined_bytes w @ bs"
      using "1.prems"(1) False by (auto split: sum.splits)
    obtain k where k: "FromBase64Size str = Inr k" "n = k + 3"
      using "1.prems"(2) unfolding FromBase64Size_step [OF False] by (auto split: sum.splits)
    then have "length bs = k" using "1.IH" [OF False w, of bs] out(1) by simp
    then show ?thesis using out(2) k(2) by (simp add: combined_bytes_def)
  qed
qed (auto simp: FromBase64Size_def split: if_splits)

text \<open>
  C30. Any bytes come back from their base 64 text, whose length is the one that was computed to allocate it and from
  which the number of bytes is computed exactly.
\<close>

theorem base64_roundtrip:
  "FromBase64 (ToBase64 blob) = Inr blob \<and> length (ToBase64 blob) = ToBase64Size blob \<and>
   FromBase64Size (ToBase64 blob) = Inr (length blob)"
  by (simp add: FromBase64_def FromBase64Size_ToBase64 FromBase64_loop_back ToBase64_length)

text \<open>
  C31. A text is decoded exactly if its length is a multiple of four, its characters up to the two last are digits
  of the alphabet, and each of these two is a digit or the padding; the output then has the length that was
  allocated. So padding followed by a digit is accepted.
\<close>

theorem base64_accepted:
  "(\<exists>output. FromBase64 str = Inr output) = base64_text str \<and>
   (case FromBase64 str of Inl e \<Rightarrow> True | Inr output \<Rightarrow> FromBase64Size str = Inr (length output)) \<and>
   base64_text ''QQ=A''"
proof -
  have padded: "base64_text ''QQ=A''" by code_simp
  show ?thesis
  proof (cases "FromBase64Size str")
    case (Inl e)
    then have "length str mod 4 \<noteq> 0" by (auto simp: FromBase64Size_def Let_def split: if_splits)
    then show ?thesis using Inl padded by (simp add: FromBase64_def base64_text_def)
  next
    case (Inr n)
    then have "length str mod 4 = 0" by (auto simp: FromBase64Size_def split: if_splits)
    then show ?thesis using Inr padded loop_accepted [of str n] loop_length [of str n]
      by (auto simp: FromBase64_def split: sum.splits)
  qed
qed

end
